(* ===== verification/Prelude.thy ===== *)
theory Prelude
  imports Main "HOL-Library.Word"
begin

text \<open>
  Shared vocabulary of the development: the machine integer types of \<open>kernel/stdint.h\<close>,
  the outcome type of code that can panic, and the generic facts on integers, words and lists
  that several components use.
\<close>

unbundle bit_operations_syntax

section \<open>Machine integers\<close>

type_synonym u8 = "8 word"
type_synonym u16 = "16 word"
type_synonym u32 = "32 word"
type_synonym u64 = "64 word"

section \<open>Outcomes\<close>

text \<open>
  \<open>Debug::panic\<close> (kernel/debug.cc) prints and then halts the machine, and \<open>ASSERT\<close>
  (kernel/debug.h) panics when its condition is false. A computation that can do so returns a
  fault instead of a value. A null pointer that is dereferenced and an integer division by zero
  are faults of their own, as are an access past the end of an array and a \<open>va_arg\<close> of the wrong
  type, which C++ leaves undefined; \<open>Undefined\<close> is
  any other operation without a meaning in C++. \<open>OutOfFuel\<close> is not an event of the program: it says that a loop
  that may run for ever was cut off by the bound given to the model.
\<close>

datatype fault =
    Panic string | NullDeref | DivideError | OutOfBounds | BadVarArg | Undefined | OutOfFuel

type_synonym 'a res = "fault + 'a"

definition rbind :: "'a res \<Rightarrow> ('a \<Rightarrow> 'b res) \<Rightarrow> 'b res" where
  "rbind m f = (case m of Inl e \<Rightarrow> Inl e | Inr x \<Rightarrow> f x)"

definition ASSERT :: "bool \<Rightarrow> unit res" where
  "ASSERT b = (if b then Inr () else Inl (Panic ''assert''))"

named_theorems outcome_simps \<open>evaluation of outcome computations\<close>

lemma rbind_simps [simp, outcome_simps]:
  "rbind (Inl e) f = Inl e" "rbind (Inr x) f = f x"
  by (simp_all add: rbind_def)

lemma ASSERT_simps [simp, outcome_simps]:
  "ASSERT True = Inr ()" "ASSERT False = Inl (Panic ''assert'')"
  by (simp_all add: ASSERT_def)

lemma rbind_Inr_conv: "rbind m f = Inr y \<longleftrightarrow> (\<exists>x. m = Inr x \<and> f x = Inr y)"
  by (cases m) auto

lemma rbind_InrE:
  assumes "rbind m f = Inr y"
  obtains x where "m = Inr x" "f x = Inr y"
  using assms by (auto simp: rbind_Inr_conv)

lemma ASSERT_Inr_iff [simp]: "ASSERT b = Inr u \<longleftrightarrow> b"
  by (simp add: ASSERT_def)

lemma rbind_cong: "m = m' \<Longrightarrow> (\<And>x. m' = Inr x \<Longrightarrow> f x = g x) \<Longrightarrow> rbind m f = rbind m' g"
  by (cases m') auto

lemma rbind_assoc: "rbind (rbind m f) g = rbind m (\<lambda>x. rbind (f x) g)"
  by (cases m) auto

section \<open>Reading integers out of words\<close>

lemma u32_uint: "0 \<le> j \<Longrightarrow> j < 2 ^ 32 \<Longrightarrow> uint (word_of_int j :: u32) = j"
  by (simp add: uint_word_of_int)

lemma u32_sint: "- (2 ^ 31) \<le> j \<Longrightarrow> j < 2 ^ 31 \<Longrightarrow> sint (word_of_int j :: u32) = j"
  by (simp add: sint_sbintrunc' signed_take_bit_int_eq_self_iff)

lemma sint_u32: "sint (w :: u32) = (if uint w < 2 ^ 31 then uint w else uint w - 2 ^ 32)"
proof (cases "uint w < 2 ^ 31")
  case True
  moreover have "- 2147483648 \<le> uint w" using uint_ge_0 [of w] by linarith
  ultimately show ?thesis by (simp add: sint_uint signed_take_bit_int_eq_self_iff)
next
  case False
  have e: "uint w + 2 ^ 31 = (uint w - 2 ^ 31) + 2 ^ 32" by simp
  have "take_bit 32 (uint w + 2 ^ 31) = take_bit 32 (uint w - 2 ^ 31)"
    unfolding take_bit_eq_mod e by (rule mod_add_self2)
  also have "\<dots> = uint w - 2 ^ 31" using False uint_bounded [of w] by (simp add: take_bit_int_eq_self_iff)
  finally show ?thesis using False by (simp add: sint_uint signed_take_bit_eq_take_bit_shift)
qed

section \<open>Words and lists\<close>

lemma unat_add_bounded: "unat a + unat b < 2 ^ 32 \<Longrightarrow> unat (a + b :: u32) = unat a + unat b"
  by (simp add: unat_word_ariths)

lemma u32_unat: "unat (w :: u32) < 2 ^ 32"
  using unsigned_less [of w] by simp

lemma u32_unat_of_int: "k < 2 ^ 32 \<Longrightarrow> unat (word_of_int (int k) :: u32) = k"
  using u32_uint [of "int k"] by (metis nat_int of_nat_0_le_iff of_nat_less_iff of_nat_numeral of_nat_power
    unat_eq_nat_uint)

lemma u32_unat_eqI: "unat (a :: u32) = unat b \<Longrightarrow> a = b"
  by (rule unsigned_word_eqI)

section \<open>Reading memory\<close>

text \<open>Little-endian loads from byte-addressed memory.\<close>

definition load16 :: "(u32 \<Rightarrow> u8) \<Rightarrow> u32 \<Rightarrow> u16" where
  "load16 m a = ucast (m a) OR push_bit 8 (ucast (m (a + 1)))"

definition load32 :: "(u32 \<Rightarrow> u8) \<Rightarrow> u32 \<Rightarrow> u32" where
  "load32 m a = ucast (m a) OR push_bit 8 (ucast (m (a + 1))) OR
     push_bit 16 (ucast (m (a + 2))) OR push_bit 24 (ucast (m (a + 3)))"

end
