(* ===== verification/Block_Lists.thy ===== *)
theory Block_Lists
  imports Prelude
begin

text \<open>
  The two data structures inside a boundary-tagged heap, over an int array seen as a function:
  the tiling of an index range by blocks whose first and last int hold their signed size, and the
  doubly linked list threaded through ints 1 and 2 of the free blocks. Each comes with its append
  lemma, its frame lemma and the facts the heap operations need.
\<close>

section \<open>Tilings\<close>

text \<open>A block is its signed size: positive for a free block, negative for a taken one.\<close>

fun tiled :: "(int \<Rightarrow> int) \<Rightarrow> int \<Rightarrow> int list \<Rightarrow> bool" where
  "tiled a i [] \<longleftrightarrow> True"
| "tiled a i (z # zs) \<longleftrightarrow> a i = z \<and> a (i + \<bar>z\<bar> - 1) = z \<and> tiled a (i + \<bar>z\<bar>) zs"

definition span :: "int list \<Rightarrow> int" where
  "span zs = (\<Sum>z\<leftarrow>zs. \<bar>z\<bar>)"

text \<open>The block that starts at an index, if one does; the indices of the free blocks in order.\<close>

fun blk_at :: "int \<Rightarrow> int list \<Rightarrow> int \<Rightarrow> int option" where
  "blk_at i [] x = None"
| "blk_at i (z # zs) x = (if x = i then Some z else blk_at (i + \<bar>z\<bar>) zs x)"

fun frees :: "int \<Rightarrow> int list \<Rightarrow> int list" where
  "frees i [] = []"
| "frees i (z # zs) = (if z > 0 then i # frees (i + \<bar>z\<bar>) zs else frees (i + \<bar>z\<bar>) zs)"

fun no_adj :: "int list \<Rightarrow> bool" where
  "no_adj (y # z # zs) \<longleftrightarrow> \<not> (y > 0 \<and> z > 0) \<and> no_adj (z # zs)"
| "no_adj [z] \<longleftrightarrow> True"
| "no_adj [] \<longleftrightarrow> True"

abbreviation big :: "int \<Rightarrow> int list \<Rightarrow> bool" where
  "big k zs \<equiv> \<forall>z \<in> set zs. k \<le> \<bar>z\<bar>"

lemma span_simps [simp]:
  "span [] = 0" "span (z # zs) = \<bar>z\<bar> + span zs" "span (xs @ ys) = span xs + span ys"
  by (simp_all add: span_def)

lemma span_nonneg: "0 \<le> span zs"
  by (induction zs) auto

lemma tiled_append [simp]:
  "tiled a i (xs @ ys) \<longleftrightarrow> tiled a i xs \<and> tiled a (i + span xs) ys"
  by (induction xs arbitrary: i) (auto simp: add.assoc)

lemma frees_append [simp]: "frees i (xs @ ys) = frees i xs @ frees (i + span xs) ys"
  by (induction xs arbitrary: i) (auto simp: algebra_simps)

lemma no_adj_Cons: "no_adj (z # zs) \<longleftrightarrow> no_adj zs \<and> (zs \<noteq> [] \<longrightarrow> \<not> (z > 0 \<and> hd zs > 0))"
  by (cases zs) auto

lemma no_adj_append:
  "no_adj (xs @ ys) \<longleftrightarrow>
     no_adj xs \<and> no_adj ys \<and> (xs \<noteq> [] \<and> ys \<noteq> [] \<longrightarrow> \<not> (last xs > 0 \<and> hd ys > 0))"
proof (induction xs rule: no_adj.induct)
  case (1 y z zs)
  then show ?case by auto
next
  case (2 v)
  then show ?case by (cases ys) auto
qed auto

lemma tiled_upd_outside:
  assumes "big 1 zs" and "k < i \<or> i + span zs \<le> k"
  shows "tiled (a(k := v)) i zs = tiled a i zs"
  using assms
proof (induction zs arbitrary: i)
  case (Cons z zs)
  have tl: "tiled (a(k := v)) (i + \<bar>z\<bar>) zs = tiled a (i + \<bar>z\<bar>) zs"
    using Cons.prems by (intro Cons.IH) auto
  have "k \<noteq> i \<and> k \<noteq> i + \<bar>z\<bar> - 1"
    using Cons.prems span_nonneg [of zs] by auto
  with tl show ?case by (simp add: fun_upd_def)
qed simp

lemma blk_at_range:
  "big 1 zs \<Longrightarrow> blk_at i zs x = Some z \<Longrightarrow> i \<le> x \<and> x + \<bar>z\<bar> \<le> i + span zs"
proof (induction zs arbitrary: i)
  case (Cons y zs)
  then show ?case
    using span_nonneg [of zs] by (fastforce split: if_splits)
qed simp

lemma blk_at_append:
  "big 1 (xs @ ys) \<Longrightarrow>
     blk_at i (xs @ ys) x = (case blk_at i xs x of Some z \<Rightarrow> Some z | None \<Rightarrow> blk_at (i + span xs) ys x)"
  by (induction xs arbitrary: i) (auto simp: add.assoc split: option.splits)

lemma blk_at_split:
  assumes "blk_at i zs x = Some z"
  obtains xs ys where "zs = xs @ z # ys" and "x = i + span xs"
  using assms
proof (induction zs arbitrary: i thesis)
  case (Cons y zs)
  show ?case
  proof (cases "x = i")
    case True
    with Cons.prems(2) show ?thesis by (intro Cons.prems(1) [of "[]" zs]) auto
  next
    case False
    with Cons.prems(2) have "blk_at (i + \<bar>y\<bar>) zs x = Some z" by simp
    then obtain xs ys where "zs = xs @ z # ys" "x = i + \<bar>y\<bar> + span xs"
      using Cons.IH by blast
    then show ?thesis by (intro Cons.prems(1) [of "y # xs" ys]) auto
  qed
qed simp

lemma blk_at_here: "big 1 (xs @ z # ys) \<Longrightarrow> blk_at i (xs @ z # ys) (i + span xs) = Some z"
proof (induction xs arbitrary: i)
  case (Cons y xs)
  have "0 < \<bar>y\<bar>" using Cons.prems by auto
  moreover have "blk_at (i + \<bar>y\<bar>) (xs @ z # ys) (i + \<bar>y\<bar> + span xs) = Some z"
    using Cons.prems by (intro Cons.IH) auto
  ultimately show ?case
    using span_nonneg [of xs] by (auto simp: add.assoc dest: add_pos_nonneg)
qed simp

lemma blk_at_disjoint:
  assumes "big 1 zs" "blk_at i zs x = Some z" "blk_at i zs y = Some w" "x < y"
  shows "x + \<bar>z\<bar> \<le> y"
  using assms
proof (induction zs arbitrary: i)
  case (Cons v zs)
  consider "x = i" "y \<noteq> i" | "x \<noteq> i" "y = i" | "x \<noteq> i" "y \<noteq> i"
    using Cons.prems(4) by auto
  then show ?case
  proof cases
    case 1
    then have "blk_at (i + \<bar>v\<bar>) zs y = Some w" "z = v"
      using Cons.prems by auto
    then show ?thesis using blk_at_range [of zs "i + \<bar>v\<bar>" y w] Cons.prems(1) 1 by auto
  next
    case 2
    then have "blk_at (i + \<bar>v\<bar>) zs x = Some z"
      using Cons.prems by auto
    then have "i + \<bar>v\<bar> \<le> x" using blk_at_range [of zs "i + \<bar>v\<bar>" x z] Cons.prems(1) by auto
    then show ?thesis using 2 Cons.prems(4) by simp
  next
    case 3
    then show ?thesis using Cons.prems by (intro Cons.IH [of "i + \<bar>v\<bar>"]) auto
  qed
qed simp

lemma set_frees: "big 1 zs \<Longrightarrow> set (frees i zs) = {x. \<exists>z > 0. blk_at i zs x = Some z}"
proof (induction zs arbitrary: i)
  case (Cons y zs)
  have notin: "blk_at (i + \<bar>y\<bar>) zs i = None"
  proof (cases "blk_at (i + \<bar>y\<bar>) zs i")
    case (Some w)
    then have "i + \<bar>y\<bar> \<le> i" using blk_at_range [of zs "i + \<bar>y\<bar>" i w] Cons.prems by auto
    with Cons.prems show ?thesis by auto
  qed simp
  have IH: "set (frees (i + \<bar>y\<bar>) zs) = {x. \<exists>z > 0. blk_at (i + \<bar>y\<bar>) zs x = Some z}"
    using Cons.prems by (intro Cons.IH) auto
  show ?case
  proof (cases "y > 0")
    case True
    then show ?thesis using IH notin by auto
  next
    case False
    then show ?thesis using IH notin by (auto split: if_splits)
  qed
qed auto

lemma distinct_frees: "big 1 zs \<Longrightarrow> distinct (frees i zs)"
proof (induction zs arbitrary: i)
  case (Cons y zs)
  have "i \<notin> set (frees (i + \<bar>y\<bar>) zs)"
  proof
    assume "i \<in> set (frees (i + \<bar>y\<bar>) zs)"
    then obtain w where "blk_at (i + \<bar>y\<bar>) zs i = Some w"
      using set_frees [of zs "i + \<bar>y\<bar>"] Cons.prems by auto
    then have "i + \<bar>y\<bar> \<le> i" using blk_at_range [of zs "i + \<bar>y\<bar>" i w] Cons.prems by auto
    then show False using Cons.prems by auto
  qed
  then show ?case using Cons by auto
qed simp

lemma tiled_blk_at:
  "tiled a i zs \<Longrightarrow> blk_at i zs x = Some z \<Longrightarrow> a x = z \<and> a (x + \<bar>z\<bar> - 1) = z"
  by (erule blk_at_split) auto

lemma tiled_cong:
  assumes "big 1 zs" "tiled a i zs"
    and "\<And>x z. blk_at i zs x = Some z \<Longrightarrow> a' x = a x \<and> a' (x + \<bar>z\<bar> - 1) = a (x + \<bar>z\<bar> - 1)"
  shows "tiled a' i zs"
  using assms
proof (induction zs arbitrary: i)
  case (Cons y zs)
  have "tiled a' (i + \<bar>y\<bar>) zs"
  proof (rule Cons.IH)
    fix x z assume b: "blk_at (i + \<bar>y\<bar>) zs x = Some z"
    then have "i + \<bar>y\<bar> \<le> x" using blk_at_range [of zs "i + \<bar>y\<bar>" x z] Cons.prems(1) by auto
    then have "x \<noteq> i" using Cons.prems(1) by auto
    with b show "a' x = a x \<and> a' (x + \<bar>z\<bar> - 1) = a (x + \<bar>z\<bar> - 1)"
      using Cons.prems(3) [of x z] by simp
  qed (use Cons.prems in auto)
  then show ?case using Cons.prems(2) Cons.prems(3) [of i y] by simp
qed simp

text \<open>A write strictly inside a block, between its two tags, leaves the tiling alone.\<close>

lemma tiled_upd_inside:
  assumes "big 1 zs" "blk_at i zs x = Some z" "x < k" "k < x + \<bar>z\<bar> - 1"
  shows "tiled (a(k := v)) i zs = tiled a i zs"
proof -
  obtain xs ys where zs: "zs = xs @ z # ys" and x: "x = i + span xs"
    using assms(2) by (rule blk_at_split)
  have "tiled (a(k := v)) i xs = tiled a i xs"
    using assms x zs by (intro tiled_upd_outside) auto
  moreover have "tiled (a(k := v)) (x + \<bar>z\<bar>) ys = tiled a (x + \<bar>z\<bar>) ys"
    using assms x zs by (intro tiled_upd_outside) auto
  ultimately show ?thesis
    using assms(3,4) by (auto simp: zs x add.assoc)
qed

section \<open>Doubly linked lists\<close>

text \<open>
  \<open>dseg a p q xs r s\<close>: starting from \<open>q\<close> with predecessor \<open>p\<close>, the nodes \<open>xs\<close> are linked in both
  directions and lead to \<open>s\<close>, whose predecessor is \<open>r\<close>. Index 0 is the null pointer.
\<close>

fun dseg :: "(int \<Rightarrow> int) \<Rightarrow> int \<Rightarrow> int \<Rightarrow> int list \<Rightarrow> int \<Rightarrow> int \<Rightarrow> bool" where
  "dseg a p q [] r s \<longleftrightarrow> r = p \<and> s = q"
| "dseg a p q (x # xs) r s \<longleftrightarrow> q = x \<and> x \<noteq> 0 \<and> a (x + 2) = p \<and> dseg a x (a (x + 1)) xs r s"

definition dll :: "(int \<Rightarrow> int) \<Rightarrow> int \<Rightarrow> int list \<Rightarrow> bool" where
  "dll a q xs \<longleftrightarrow> dseg a 0 q xs (last (0 # xs)) 0"

definition spread :: "int set \<Rightarrow> bool" where
  "spread S \<longleftrightarrow> (\<forall>x \<in> S. \<forall>y \<in> S. x \<noteq> y \<longrightarrow> 4 \<le> \<bar>x - y\<bar>)"

lemma spreadD: "spread S \<Longrightarrow> x \<in> S \<Longrightarrow> y \<in> S \<Longrightarrow> x \<noteq> y \<Longrightarrow> 4 \<le> \<bar>x - y\<bar>"
  by (auto simp: spread_def)

lemma dseg_last: "dseg a p q xs r s \<Longrightarrow> r = last (p # xs)"
  by (induction xs arbitrary: p q) auto

lemma dseg_append:
  "dseg a p q (xs @ ys) r s \<longleftrightarrow> (\<exists>m n. dseg a p q xs m n \<and> dseg a m n ys r s)"
  by (induction xs arbitrary: p q) auto

lemma dseg_upd:
  "\<forall>x \<in> set xs. k \<noteq> x + 1 \<and> k \<noteq> x + 2 \<Longrightarrow> dseg (a(k := v)) p q xs r s = dseg a p q xs r s"
  by (induction xs arbitrary: p q) auto

lemma dseg_nonzero: "dseg a p q xs r s \<Longrightarrow> x \<in> set xs \<Longrightarrow> x \<noteq> 0"
  by (induction xs arbitrary: p q) auto

lemma dll_upd: "\<forall>x \<in> set xs. k \<noteq> x + 1 \<and> k \<noteq> x + 2 \<Longrightarrow> dll (a(k := v)) q xs = dll a q xs"
  by (simp add: dll_def dseg_upd)

lemma dll_Nil [simp]: "dll a q [] \<longleftrightarrow> q = 0"
  by (auto simp: dll_def)

lemma dll_nonzero: "dll a q xs \<Longrightarrow> x \<in> set xs \<Longrightarrow> x \<noteq> 0"
  by (auto simp: dll_def dest: dseg_nonzero)

text \<open>The successor and the predecessor of a node, read off the list.\<close>

lemma dll_split:
  assumes "dll a q (xs @ x # ys)"
  shows "a (x + 2) = last (0 # xs)" and "a (x + 1) = hd (ys @ [0])" and "x \<noteq> 0"
proof -
  obtain m n where 1: "dseg a 0 q xs m n" and 2: "dseg a m n (x # ys) (last (0 # xs @ x # ys)) 0"
    using assms by (auto simp: dll_def dseg_append)
  from 1 2 show "a (x + 2) = last (0 # xs)" by (auto dest: dseg_last)
  from 2 show "a (x + 1) = hd (ys @ [0])" by (cases ys) auto
  from 2 show "x \<noteq> 0" by simp
qed

text \<open>Insertion at the front: \<open>setNext\<close>, \<open>setPrev\<close> and the old head's back link.\<close>

lemma dll_push:
  assumes "dll a q xs" and "x \<noteq> 0" and "spread (insert x (set xs))" and "x \<notin> set xs"
    and "a' = (let b = (a(x + 1 := q))(x + 2 := 0) in if q = 0 then b else b(q + 2 := x))"
  shows "dll a' x (x # xs)"
proof (cases xs)
  case Nil
  with assms show ?thesis by (auto simp: dll_def)
next
  case (Cons y ys)
  have q: "q = y" "y \<noteq> 0" using assms(1) Cons by (auto simp: dll_def)
  have far: "\<forall>z \<in> set xs. 4 \<le> \<bar>x - z\<bar>"
    using assms(3,4) by (auto simp: spread_def)
  have sp: "\<forall>z \<in> set ys. y \<noteq> z \<longrightarrow> 4 \<le> \<bar>y - z\<bar>"
    using assms(3) Cons by (auto simp: spread_def)
  have seg: "dseg a y (a (y + 1)) ys (last (0 # xs)) 0" and "a (y + 2) = 0"
    using assms(1) Cons by (auto simp: dll_def)
  let ?b = "(a(x + 1 := q))(x + 2 := 0)"
  have a': "a' = ?b(y + 2 := x)" using assms(5) q by (simp add: Let_def)
  have notin: "y \<notin> set ys"
  proof
    assume "y \<in> set ys"
    then obtain us vs where ys: "ys = us @ y # vs" by (meson split_list)
    have e1: "a (y + 1) = hd (us @ y # vs @ [0])" and e2: "a (y + 2) = last (0 # y # us)"
      using dll_split [of a q "[]" y ys] dll_split [of a q "y # us" y vs] assms(1) Cons ys by auto
    have "last (0 # y # us) \<in> set (y # us)" by (auto intro: last_in_set)
    moreover have "\<forall>z \<in> set (y # us). z \<noteq> 0" using dll_nonzero [OF assms(1)] Cons ys by auto
    ultimately show False using e2 \<open>a (y + 2) = 0\<close> by metis
  qed
  have "dseg a' y (a (y + 1)) ys (last (0 # xs)) 0"
    using seg far sp notin Cons unfolding a' by (subst dseg_upd dseg_upd | force)+
  moreover have "a' (x + 1) = y" "a' (x + 2) = 0" "a' (y + 2) = x" "a' (y + 1) = a (y + 1)"
    using far Cons q unfolding a' by auto
  ultimately show ?thesis
    using assms(2) q Cons by (auto simp: dll_def)
qed

text \<open>Unlinking a node: the successor link of its predecessor, or the head, and one back link.\<close>

lemma dseg_relink_left:
  assumes "dseg a 0 q xs m x" and "spread (set xs \<union> S)" "distinct xs" "set xs \<inter> S = {}"
    and "\<forall>k. a' k \<noteq> a k \<longrightarrow> (xs \<noteq> [] \<and> k = last xs + 1) \<or> (\<exists>y \<in> S. k = y + 2)"
    and "xs \<noteq> [] \<longrightarrow> a' (last xs + 1) = n"
  shows "dseg a' 0 (if xs = [] then n else q) xs m n"
proof (cases xs rule: rev_cases)
  case Nil
  with assms(1) show ?thesis by auto
next
  case (snoc us l)
  have far: "\<forall>y \<in> set us \<union> S. 4 \<le> \<bar>l - y\<bar>"
    using assms(2,3,4) snoc by (auto intro!: spreadD [OF assms(2)])
  have far2: "\<forall>u \<in> set us. \<forall>y \<in> S. 4 \<le> \<bar>u - y\<bar>"
    using assms(4) snoc by (auto intro!: spreadD [OF assms(2)])
  have same: "a' (u + 1) = a (u + 1) \<and> a' (u + 2) = a (u + 2)" if "u \<in> set us" for u
  proof -
    have "u + 1 \<noteq> l + 1" "u + 2 \<noteq> l + 1" "\<forall>y \<in> S. u + 1 \<noteq> y + 2 \<and> u + 2 \<noteq> y + 2"
      using far far2 that by force+
    then show ?thesis using assms(5) snoc by auto
  qed
  have l2: "a' (l + 2) = a (l + 2)"
  proof -
    have "\<forall>y \<in> S. l + 2 \<noteq> y + 2" using far by force
    then show ?thesis using assms(5) snoc by auto
  qed
  have cong: "dseg a' p q us r s = dseg a p q us r s" if "\<forall>u \<in> set us. a' (u + 1) = a (u + 1) \<and> a' (u + 2) = a (u + 2)"
    for us p q r s using that by (induction us arbitrary: p q) auto
  obtain k where "dseg a 0 q us k l" "l \<noteq> 0" "a (l + 2) = k" "m = l"
    using assms(1) snoc by (auto simp: dseg_append)
  then show ?thesis
    using assms(6) snoc cong [of us] same l2 by (auto simp: dseg_append)
qed

lemma dseg_relink_right:
  assumes "dseg a x n ys r 0" and "spread (set ys \<union> S)" "distinct ys" "set ys \<inter> S = {}"
    and "\<forall>k. a' k \<noteq> a k \<longrightarrow> (ys \<noteq> [] \<and> k = hd ys + 2) \<or> (\<exists>y \<in> S. k = y + 1)"
    and "ys \<noteq> [] \<longrightarrow> a' (hd ys + 2) = m"
  shows "dseg a' m n ys (last (m # ys)) 0"
proof (cases ys)
  case Nil
  with assms(1) show ?thesis by auto
next
  case (Cons y us)
  have far: "\<forall>z \<in> set us \<union> S. 4 \<le> \<bar>y - z\<bar>"
    using assms(2,3,4) Cons by (auto intro!: spreadD [OF assms(2)])
  have far2: "\<forall>u \<in> set us. \<forall>y \<in> S. 4 \<le> \<bar>u - y\<bar>"
    using assms(4) Cons by (auto intro!: spreadD [OF assms(2)])
  have same: "a' (u + 1) = a (u + 1) \<and> a' (u + 2) = a (u + 2)" if "u \<in> set us" for u
  proof -
    have "u + 1 \<noteq> y + 2" "u + 2 \<noteq> y + 2" "\<forall>z \<in> S. u + 1 \<noteq> z + 1 \<and> u + 2 \<noteq> z + 1"
      using far far2 that by force+
    then show ?thesis using assms(5) Cons by auto
  qed
  have y1: "a' (y + 1) = a (y + 1)"
  proof -
    have "\<forall>z \<in> S. y + 1 \<noteq> z + 1" using far by force
    then show ?thesis using assms(5) Cons by auto
  qed
  have cong: "dseg a' p q us r s = dseg a p q us r s" if "\<forall>u \<in> set us. a' (u + 1) = a (u + 1) \<and> a' (u + 2) = a (u + 2)"
    for us p q r s using that by (induction us arbitrary: p q) auto
  have "n = y" "y \<noteq> 0" "dseg a y (a (y + 1)) us r 0" using assms(1) Cons by auto
  moreover have "r = last (y # us)" using calculation(3) by (rule dseg_last)
  ultimately show ?thesis
    using assms(6) Cons cong [of us] same y1 by auto
qed

lemma dll_remove:
  assumes "dll a q (xs @ x # ys)" and "spread (set (xs @ x # ys))" and "distinct (xs @ x # ys)"
    and "pr = a (x + 2)" and "nx = a (x + 1)"
    and "a1 = (if pr = 0 then a else a(pr + 1 := nx))"
    and "a2 = (if nx \<noteq> 0 then a1(nx + 2 := pr) else a1)"
  shows "dll a2 (if pr = 0 then nx else q) (xs @ ys)"
proof -
  have pr: "pr = last (0 # xs)" and nx: "nx = hd (ys @ [0])"
    using dll_split [OF assms(1)] assms(4,5) by auto
  have nz: "\<forall>z \<in> set (xs @ x # ys). z \<noteq> 0" using dll_nonzero [OF assms(1)] by blast
  have pr0: "pr = 0 \<longleftrightarrow> xs = []" using pr nz by (auto simp: last_in_set)
  have nx0: "nx = 0 \<longleftrightarrow> ys = []" using nx nz by (cases ys) auto
  have prl: "xs \<noteq> [] \<Longrightarrow> pr = last xs" and nxh: "ys \<noteq> [] \<Longrightarrow> nx = hd ys"
    using pr nx by auto
  obtain m n where s1: "dseg a 0 q xs m n" and s2: "dseg a m n (x # ys) (last (0 # xs @ x # ys)) 0"
    using assms(1) by (auto simp: dll_def dseg_append)
  have m: "m = pr" using dseg_last [OF s1] pr by simp
  have s3: "dseg a x nx ys (last (0 # xs @ x # ys)) 0" using s2 assms(5) by simp
  have ch: "a2 k = (if ys \<noteq> [] \<and> k = hd ys + 2 then pr else if xs \<noteq> [] \<and> k = last xs + 1 then nx else a k)"
    for k using assms(6,7) pr0 nx0 prl nxh by auto
  have apart: "xs \<noteq> [] \<Longrightarrow> ys \<noteq> [] \<Longrightarrow> last xs + 1 \<noteq> hd ys + 2"
  proof -
    assume ne: "xs \<noteq> []" "ys \<noteq> []"
    then have "last xs \<in> set xs" "hd ys \<in> set ys" by auto
    with assms(3) have "4 \<le> \<bar>last xs - hd ys\<bar>"
      by (intro spreadD [OF assms(2)]) auto
    then show ?thesis by auto
  qed
  have left: "dseg a2 0 (if xs = [] then nx else q) xs m nx"
  proof (rule dseg_relink_left [OF s1, where S = "set ys"])
    show "\<forall>k. a2 k \<noteq> a k \<longrightarrow> (xs \<noteq> [] \<and> k = last xs + 1) \<or> (\<exists>y \<in> set ys. k = y + 2)"
      by (auto simp: ch split: if_splits intro: hd_in_set)
  qed (use assms(2,3) apart in \<open>auto simp: spread_def ch\<close>)
  have right: "dseg a2 pr nx ys (last (pr # ys)) 0"
  proof (rule dseg_relink_right [OF s3, where S = "set xs"])
    show "\<forall>k. a2 k \<noteq> a k \<longrightarrow> (ys \<noteq> [] \<and> k = hd ys + 2) \<or> (\<exists>y \<in> set xs. k = y + 1)"
      by (auto simp: ch split: if_splits intro: last_in_set)
  qed (use assms(2,3) in \<open>auto simp: spread_def ch\<close>)
  have eq: "last (pr # ys) = last (0 # xs @ ys)" using pr by (cases ys) auto
  have "dseg a2 0 (if xs = [] then nx else q) (xs @ ys) (last (pr # ys)) 0"
    unfolding dseg_append using left right m by blast
  then show ?thesis
    by (simp only: dll_def eq pr0)
qed

end
