(* ===== verification/Heap.thy ===== *)
theory Heap
  imports Block_Lists
begin

text \<open>
  The kernel heap of \<open>kernel/heap.cc\<close>: boundary-tagged blocks in one array of ints, the free
  blocks threaded on a doubly linked list through their payload, best fit among the first twenty
  candidates. First the code, then the tiling invariant, then what \<open>malloc\<close> and \<open>free\<close> do to it.
\<close>

section \<open>The code\<close>

text \<open>
  The static variables of namespace \<open>gheith\<close>. \<open>array\<close> is a pointer into flat physical memory, so it is
  modelled as the word-indexed memory seen from it, with no bounds; \<open>h_base\<close> is the pointer's value.
  The operations are the bodies run while \<open>theLock\<close> is held.
\<close>

record heap =
  h_array :: "int \<Rightarrow> int"
  h_len :: int
  h_safe :: int
  h_avail :: int
  h_base :: u32

definition set_array :: "heap \<Rightarrow> int \<Rightarrow> int \<Rightarrow> heap" where
  "set_array h i v = h\<lparr>h_array := (h_array h)(i := v)\<rparr>"

definition heap_abs :: "int \<Rightarrow> int" where
  "heap_abs x = (if x < 0 then - x else x)"

definition heap_size :: "heap \<Rightarrow> int \<Rightarrow> int" where
  "heap_size h i = heap_abs (h_array h i)"

definition headerFromFooter :: "heap \<Rightarrow> int \<Rightarrow> int" where
  "headerFromFooter h i = i - heap_size h i + 1"

definition footerFromHeader :: "heap \<Rightarrow> int \<Rightarrow> int" where
  "footerFromHeader h i = i + heap_size h i - 1"

definition sanity :: "heap \<Rightarrow> int \<Rightarrow> int res" where
  "sanity h i =
     (if h_safe h \<noteq> 0 then
        if i = 0 then Inr 0
        else if i < 0 \<or> i \<ge> h_len h then Inl (Panic ''bad header index'')
        else
          let footer = footerFromHeader h i in
          if footer < 0 \<or> footer \<ge> h_len h then Inl (Panic ''bad footer index'')
          else
            let hv = h_array h i; fv = h_array h footer in
            if hv \<noteq> fv then Inl (Panic ''bad block'')
            else Inr i
      else Inr i)"

definition heap_left :: "heap \<Rightarrow> int \<Rightarrow> int res" where
  "heap_left h i = sanity h (headerFromFooter h (i - 1))"

definition heap_right :: "heap \<Rightarrow> int \<Rightarrow> int res" where
  "heap_right h i = sanity h (i + heap_size h i)"

definition heap_next :: "heap \<Rightarrow> int \<Rightarrow> int res" where
  "heap_next h i = sanity h (h_array h (i + 1))"

definition heap_prev :: "heap \<Rightarrow> int \<Rightarrow> int res" where
  "heap_prev h i = sanity h (h_array h (i + 2))"

definition setNext :: "heap \<Rightarrow> int \<Rightarrow> int \<Rightarrow> heap" where
  "setNext h i x = set_array h (i + 1) x"

definition setPrev :: "heap \<Rightarrow> int \<Rightarrow> int \<Rightarrow> heap" where
  "setPrev h i x = set_array h (i + 2) x"

definition heap_remove :: "heap \<Rightarrow> int \<Rightarrow> heap res" where
  "heap_remove h i =
     rbind (heap_prev h i) (\<lambda>prevIndex.
     rbind (heap_next h i) (\<lambda>nextIndex.
       let h1 = (if prevIndex = 0 then h\<lparr>h_avail := nextIndex\<rparr>
                 else setNext h prevIndex nextIndex)
       in Inr (if nextIndex \<noteq> 0 then setPrev h1 nextIndex prevIndex else h1)))"

definition makeAvail :: "heap \<Rightarrow> int \<Rightarrow> int \<Rightarrow> heap" where
  "makeAvail h i ints =
     (let h1 = set_array h i ints;
          h2 = set_array h1 (footerFromHeader h1 i) ints;
          h3 = setNext h2 i (h_avail h2);
          h4 = setPrev h3 i 0;
          h5 = (if h_avail h4 \<noteq> 0 then setPrev h4 (h_avail h4) i else h4)
      in h5\<lparr>h_avail := i\<rparr>)"

definition makeTaken :: "heap \<Rightarrow> int \<Rightarrow> int \<Rightarrow> heap" where
  "makeTaken h i ints =
     (let h1 = set_array h i (- ints)
      in set_array h1 (footerFromHeader h1 i) (- ints))"

definition isAvail :: "heap \<Rightarrow> int \<Rightarrow> bool" where
  "isAvail h i \<longleftrightarrow> h_array h i > 0"

definition isTaken :: "heap \<Rightarrow> int \<Rightarrow> bool" where
  "isTaken h i \<longleftrightarrow> h_array h i < 0"

text \<open>The address \<open>&array[i]\<close> and the index \<open>free\<close> recovers from a pointer.\<close>

definition elem_addr :: "heap \<Rightarrow> int \<Rightarrow> u32" where
  "elem_addr h i = h_base h + 4 * word_of_int i"

definition ptr_index :: "heap \<Rightarrow> u32 \<Rightarrow> int" where
  "ptr_index h p = sint ((p - h_base h) div 4 - 1)"

text \<open>
  The number of ints \<open>malloc\<close> looks for: \<open>bytes\<close> is a 32-bit \<open>size_t\<close>, so \<open>bytes + 3\<close> wraps.
\<close>

definition malloc_ints :: "u32 \<Rightarrow> int" where
  "malloc_ints bytes =
     (let ints = sint ((bytes + 3) div 4 + 2)
      in if ints < 4 then 4 else ints)"

text \<open>The search loop; it returns \<open>(mx, it)\<close>. \<open>None\<close> is a loop that does not end.\<close>

partial_function (option) malloc_scan ::
  "heap \<Rightarrow> int \<Rightarrow> int \<Rightarrow> int \<Rightarrow> int \<Rightarrow> int \<Rightarrow> (int \<times> int) res option" where
  "malloc_scan h ints countDown p mx it =
     (if p = 0 then Some (Inr (mx, it))
      else if \<not> isAvail h p then Some (Inl (Panic ''block is not available in malloc''))
      else
        let sz = heap_size h p;
            fits = (sz \<ge> ints);
            mx' = (if fits \<and> sz < mx then sz else mx);
            it' = (if fits \<and> sz < mx then p else it);
            countDown' = (if fits then countDown - 1 else countDown)
        in if fits \<and> countDown' = 0 then Some (Inr (mx', it'))
           else (case heap_next h p of
                   Inl e \<Rightarrow> Some (Inl e)
                 | Inr p' \<Rightarrow> malloc_scan h ints countDown' p' mx' it'))"

definition malloc_take :: "heap \<Rightarrow> int \<Rightarrow> int \<Rightarrow> int \<Rightarrow> (u32 \<times> heap) res" where
  "malloc_take h ints mx it =
     (if it \<noteq> 0 then
        rbind (heap_remove h it) (\<lambda>h1.
          let extra = mx - ints;
              h2 = (if extra \<ge> 4 then makeAvail (makeTaken h1 it ints) (it + ints) extra
                    else makeTaken h1 it mx)
          in Inr (elem_addr h2 (it + 1), h2))
      else Inr (0, h))"

definition malloc :: "heap \<Rightarrow> u32 \<Rightarrow> (u32 \<times> heap) res option" where
  "malloc h bytes =
     (if bytes = 0 then Some (Inr (h_base h, h))
      else
        let ints = malloc_ints bytes
        in map_option (\<lambda>r. rbind r (\<lambda>(mx, it). malloc_take h ints mx it))
             (malloc_scan h ints 20 (h_avail h) 0x7FFFFFFF 0))"

text \<open>The two \<open>if (isAvail(...))\<close> statements of \<open>free\<close>, then \<open>free\<close> itself.\<close>

definition merge_left :: "heap \<Rightarrow> int \<Rightarrow> int \<Rightarrow> int \<Rightarrow> (heap \<times> int \<times> int) res" where
  "merge_left h idx sz leftIndex =
     (if isAvail h leftIndex
      then rbind (heap_remove h leftIndex) (\<lambda>h1.
             Inr (h1, leftIndex, sz + heap_size h1 leftIndex))
      else Inr (h, idx, sz))"

definition merge_right :: "heap \<Rightarrow> int \<Rightarrow> int \<Rightarrow> (heap \<times> int) res" where
  "merge_right h sz rightIndex =
     (if isAvail h rightIndex
      then rbind (heap_remove h rightIndex) (\<lambda>h1. Inr (h1, sz + heap_size h1 rightIndex))
      else Inr (h, sz))"

definition heap_free :: "heap \<Rightarrow> u32 \<Rightarrow> heap res" where
  "heap_free h p =
     (if p = 0 then Inr h
      else if p = h_base h then Inr h
      else
        let idx = ptr_index h p in
        rbind (sanity h idx) (\<lambda>_.
        if \<not> isTaken h idx then Inl (Panic ''freeing free block'')
        else
          let sz = heap_size h idx in
          rbind (heap_left h idx) (\<lambda>leftIndex.
          rbind (heap_right h idx) (\<lambda>rightIndex.
          rbind (merge_left h idx sz leftIndex) (\<lambda>(h1, idx1, sz1).
          rbind (merge_right h1 sz1 rightIndex) (\<lambda>(h2, sz2).
          Inr (makeAvail h2 idx1 sz2)))))))"

text \<open>\<open>operator new\<close> panics when \<open>malloc\<close> returns null.\<close>

definition op_new :: "heap \<Rightarrow> u32 \<Rightarrow> (u32 \<times> heap) res option" where
  "op_new h bytes =
     map_option (\<lambda>r. rbind r (\<lambda>(p, h'). if p = 0 then Inl (Panic ''out of memory'') else Inr (p, h')))
       (malloc h bytes)"

text \<open>
  \<open>heapInit\<close> on memory with contents \<open>m\<close>; \<open>lock_size\<close> is \<open>sizeof(BlockingLock)\<close>, which the
  compiler fixes. \<open>safe\<close> and \<open>avail\<close> start as 0.
\<close>

definition heap_carve :: "(int \<Rightarrow> int) \<Rightarrow> u32 \<Rightarrow> u32 \<Rightarrow> heap" where
  "heap_carve m base bytes =
     (let len = uint (bytes div 4);
          h0 = \<lparr>h_array = m, h_len = len, h_safe = 0, h_avail = 0, h_base = base\<rparr>
      in makeTaken (makeAvail (makeTaken h0 0 2) 2 (len - 4)) (len - 2) 2)"

definition heapInit :: "(int \<Rightarrow> int) \<Rightarrow> u32 \<Rightarrow> u32 \<Rightarrow> u32 \<Rightarrow> (u32 \<times> heap) res option" where
  "heapInit m base bytes lock_size = op_new (heap_carve m base bytes) lock_size"

section \<open>The invariant\<close>

text \<open>
  The heap with a hole of \<open>s\<close> ints between the blocks \<open>xs\<close> and \<open>ys\<close>: everything outside the hole is
  tiled, the two sentinels included, and the free list \<open>fl\<close> threads exactly the free blocks
  outside it. The operations open such a hole, rewrite it and close it.
\<close>

definition heap_hole :: "heap \<Rightarrow> int list \<Rightarrow> int \<Rightarrow> int list \<Rightarrow> int list \<Rightarrow> bool" where
  "heap_hole h xs s ys fl \<longleftrightarrow>
     big 4 xs \<and> big 4 ys \<and> 0 \<le> s \<and>
     tiled (h_array h) 0 (-2 # xs) \<and> tiled (h_array h) (2 + span xs + s) (ys @ [-2]) \<and>
     h_len h = span xs + s + span ys + 4 \<and>
     0 < uint (h_base h) \<and> uint (h_base h) + 4 * h_len h \<le> 2 ^ 32 \<and>
     dll (h_array h) (h_avail h) fl \<and> distinct fl \<and>
     set fl = set (frees 2 xs) \<union> set (frees (2 + span xs + s) ys)"

text \<open>
  The invariant between operations: the blocks \<open>bs\<close> fill the array, no two neighbours are both free.
\<close>

definition heap_ok :: "heap \<Rightarrow> int list \<Rightarrow> int list \<Rightarrow> bool" where
  "heap_ok h bs fl \<longleftrightarrow> heap_hole h bs 0 [] fl \<and> no_adj bs"

lemma heap_abs_eq [simp]: "heap_abs x = \<bar>x\<bar>"
  by (simp add: heap_abs_def)

lemma heap_hole_shift:
  "heap_hole h (xs @ zs) 0 ys fl \<longleftrightarrow> heap_hole h xs 0 (zs @ ys) fl"
  by (auto simp: heap_hole_def add.assoc)

lemma heap_ok_hole: "heap_ok h (xs @ ys) fl \<longleftrightarrow> heap_hole h xs 0 ys fl \<and> no_adj (xs @ ys)"
  using heap_hole_shift [of h xs ys "[]" fl] by (simp add: heap_ok_def)

lemma big_mono: "big 4 xs \<Longrightarrow> big 1 xs"
  by fastforce

lemma frees_spread:
  assumes "big 4 zs" shows "spread (set (frees i zs))"
  unfolding spread_def
proof (intro ballI impI)
  fix x y assume "x \<in> set (frees i zs)" "y \<in> set (frees i zs)" and ne: "x \<noteq> y"
  then obtain z w where z: "z > 0" "blk_at i zs x = Some z" and w: "w > 0" "blk_at i zs y = Some w"
    using set_frees [OF big_mono [OF assms]] by auto
  have "4 \<le> \<bar>z\<bar>" "4 \<le> \<bar>w\<bar>"
    using blk_at_split [OF z(2)] blk_at_split [OF w(2)] assms by (metis in_set_conv_decomp)+
  then show "4 \<le> \<bar>x - y\<bar>"
    using blk_at_disjoint [OF big_mono [OF assms] z(2) w(2)]
      blk_at_disjoint [OF big_mono [OF assms] w(2) z(2)] ne by linarith
qed

lemma frees_range:
  assumes "big 4 zs" "y \<in> set (frees i zs)"
  shows "i \<le> y" "y + 4 \<le> i + span zs"
proof -
  obtain z where z: "blk_at i zs y = Some z"
    using assms set_frees [OF big_mono [OF assms(1)]] by auto
  have "4 \<le> \<bar>z\<bar>" using blk_at_split [OF z] assms(1) by (metis in_set_conv_decomp)
  then show "i \<le> y" "y + 4 \<le> i + span zs"
    using blk_at_range [OF big_mono [OF assms(1)] z] by auto
qed

lemma frees_pos: "tiled a i zs \<Longrightarrow> y \<in> set (frees i zs) \<Longrightarrow> a y > 0"
  by (induction zs arbitrary: i) (auto split: if_splits)

lemma frees_tags: "tiled a i zs \<Longrightarrow> y \<in> set (frees i zs) \<Longrightarrow> a (y + \<bar>a y\<bar> - 1) = a y"
  by (induction zs arbitrary: i) (auto split: if_splits)

lemma frees_size_range:
  assumes "big 4 zs" "tiled a i zs" "y \<in> set (frees i zs)"
  shows "y + \<bar>a y\<bar> \<le> i + span zs"
proof -
  obtain z where z: "blk_at i zs y = Some z"
    using assms set_frees [OF big_mono [OF assms(1)]] by auto
  then show ?thesis
    using blk_at_range [OF big_mono [OF assms(1)] z] tiled_blk_at [OF assms(2) z] by simp
qed

text \<open>The free blocks outside a hole: where they lie, and that \<open>sanity\<close> accepts them.\<close>

lemma hole_free_range:
  assumes "heap_hole h xs s ys fl" "y \<in> set fl"
  shows "2 \<le> y \<and> y + 4 \<le> 2 + span xs \<or> 2 + span xs + s \<le> y \<and> y + 6 \<le> h_len h"
  using assms frees_range [of xs y 2] frees_range [of ys y "2 + span xs + s"]
  by (auto simp: heap_hole_def)

lemma hole_spread:
  assumes "heap_hole h xs s ys fl"
  shows "spread (set fl)"
proof -
  have "spread (set (frees 2 xs))" "spread (set (frees (2 + span xs + s) ys))"
    using assms by (auto simp: heap_hole_def intro: frees_spread)
  moreover have "4 \<le> \<bar>x - y\<bar>"
    if "x \<in> set (frees 2 xs)" "y \<in> set (frees (2 + span xs + s) ys)" for x y
    using that assms frees_range [of xs x 2] frees_range [of ys y "2 + span xs + s"]
    by (auto simp: heap_hole_def)
  moreover have "4 \<le> \<bar>y - x\<bar>"
    if "x \<in> set (frees 2 xs)" "y \<in> set (frees (2 + span xs + s) ys)" for x y
    using that calculation(3) by (simp add: abs_minus_commute)
  ultimately show ?thesis
    using assms by (auto simp: heap_hole_def spread_def)
qed

lemma hole_sanity:
  assumes "heap_hole h xs s ys fl" "y \<in> set fl \<union> {0}"
  shows "sanity h y = Inr y"
proof (cases "y = 0")
  case True
  then show ?thesis by (simp add: sanity_def)
next
  case False
  then have y: "y \<in> set fl" using assms(2) by auto
  have t1: "tiled (h_array h) 2 xs" and t2: "tiled (h_array h) (2 + span xs + s) ys"
    and b: "big 4 xs" "big 4 ys" and len: "h_len h = span xs + s + span ys + 4" "0 \<le> s"
    using assms(1) by (auto simp: heap_hole_def)
  from y assms(1) consider "y \<in> set (frees 2 xs)" | "y \<in> set (frees (2 + span xs + s) ys)"
    by (auto simp: heap_hole_def)
  then have "h_array h (y + \<bar>h_array h y\<bar> - 1) = h_array h y \<and> y + \<bar>h_array h y\<bar> \<le> h_len h"
    using frees_tags [OF t1] frees_tags [OF t2] frees_size_range [OF b(1) t1]
      frees_size_range [OF b(2) t2] len span_nonneg [of xs] span_nonneg [of ys] by cases force+
  moreover have "2 \<le> y" "y < h_len h"
    using hole_free_range [OF assms(1) y] len span_nonneg [of xs] span_nonneg [of ys] by auto
  ultimately show ?thesis
    by (auto simp: sanity_def footerFromHeader_def heap_size_def Let_def)
qed

text \<open>Neighbours on the free list are free blocks or null, so \<open>next\<close> and \<open>prev\<close> succeed.\<close>

lemma hole_links:
  assumes "heap_hole h xs s ys (us @ x # vs)"
  shows "heap_next h x = Inr (hd (vs @ [0]))" and "heap_prev h x = Inr (last (0 # us))"
    and "h_array h (x + 1) = hd (vs @ [0])" and "h_array h (x + 2) = last (0 # us)" and "x \<noteq> 0"
proof -
  have d: "dll (h_array h) (h_avail h) (us @ x # vs)" using assms by (simp add: heap_hole_def)
  show 1: "h_array h (x + 1) = hd (vs @ [0])" and 2: "h_array h (x + 2) = last (0 # us)" and "x \<noteq> 0"
    using dll_split [OF d] by auto
  have "hd (vs @ [0]) \<in> set (us @ x # vs) \<union> {0}" by (cases vs) auto
  then show "heap_next h x = Inr (hd (vs @ [0]))"
    by (simp add: heap_next_def 1 hole_sanity [OF assms])
  have "last (0 # us) \<in> set (us @ x # vs) \<union> {0}" by (auto intro: last_in_set)
  then show "heap_prev h x = Inr (last (0 # us))"
    by (simp add: heap_prev_def 2 hole_sanity [OF assms])
qed

section \<open>Link writes and unlinking\<close>

lemma link_not_tag:
  assumes "big 4 zs" "y \<in> set (frees i zs)" "k = y + 1 \<or> k = y + 2" "blk_at i zs x = Some z"
  shows "k \<noteq> x \<and> k \<noteq> x + \<bar>z\<bar> - 1"
proof -
  obtain w where w: "blk_at i zs y = Some w"
    using assms(2) set_frees [OF big_mono [OF assms(1)]] by auto
  have "4 \<le> \<bar>w\<bar>" "4 \<le> \<bar>z\<bar>"
    using blk_at_split [OF w] blk_at_split [OF assms(4)] assms(1) by (metis in_set_conv_decomp)+
  then show ?thesis
    using blk_at_disjoint [OF big_mono [OF assms(1)] w assms(4)]
      blk_at_disjoint [OF big_mono [OF assms(1)] assms(4) w] assms(3) w assms(4)
    by (cases "x = y") (auto, linarith?)
qed

lemma tiled_links:
  assumes "big 4 zs" "tiled a i zs"
    and "\<And>k. a' k \<noteq> a k \<Longrightarrow> k < i \<or> i + span zs \<le> k \<or> (\<exists>y \<in> set (frees i zs). k = y + 1 \<or> k = y + 2)"
  shows "tiled a' i zs"
proof (rule tiled_cong [OF big_mono [OF assms(1)] assms(2)])
  fix x z assume b: "blk_at i zs x = Some z"
  have r: "i \<le> x" "x + \<bar>z\<bar> \<le> i + span zs"
    using blk_at_range [OF big_mono [OF assms(1)] b] by auto
  have z: "4 \<le> \<bar>z\<bar>" using blk_at_split [OF b] assms(1) by (metis in_set_conv_decomp)
  have same: "a' k = a k" if "k = x \<or> k = x + \<bar>z\<bar> - 1" for k
  proof (rule ccontr)
    assume "a' k \<noteq> a k"
    then consider "k < i \<or> i + span zs \<le> k" | y where "y \<in> set (frees i zs)" "k = y + 1 \<or> k = y + 2"
      using assms(3) by blast
    then show False
    proof cases
      case 1
      then show ?thesis using r z that by linarith
    next
      case 2
      then show ?thesis using link_not_tag [OF assms(1) 2 b] that by blast
    qed
  qed
  then show "a' x = a x \<and> a' (x + \<bar>z\<bar> - 1) = a (x + \<bar>z\<bar> - 1)" by blast
qed

text \<open>
  \<open>remove\<close> returns, unlinks exactly its node and writes nothing but links of the nodes that stay.
\<close>

definition links_only :: "int set \<Rightarrow> (int \<Rightarrow> int) \<Rightarrow> (int \<Rightarrow> int) \<Rightarrow> bool" where
  "links_only Y a a' \<longleftrightarrow> (\<forall>k. a' k \<noteq> a k \<longrightarrow> (\<exists>y \<in> Y. k = y + 1 \<or> k = y + 2))"

lemma links_only_refl [simp]: "links_only Y a a"
  by (simp add: links_only_def)

lemma links_only_mono: "links_only Y a a' \<Longrightarrow> Y \<subseteq> Z \<Longrightarrow> links_only Z a a'"
  by (auto simp: links_only_def)

lemma links_only_trans: "links_only Y a b \<Longrightarrow> links_only Y b c \<Longrightarrow> links_only Y a c"
  unfolding links_only_def by metis

lemma heap_remove_raw:
  assumes "heap_hole h xs s ys (us @ x # vs)"
  obtains h' where "heap_remove h x = Inr h'"
    and "dll (h_array h') (h_avail h') (us @ vs)"
    and "links_only (set (us @ vs)) (h_array h) (h_array h')"
    and "h_len h' = h_len h" "h_base h' = h_base h" "h_safe h' = h_safe h"
proof -
  note L = hole_links [OF assms]
  let ?pr = "last (0 # us)" and ?nx = "hd (vs @ [0])"
  let ?h1 = "if ?pr = 0 then h\<lparr>h_avail := ?nx\<rparr> else setNext h ?pr ?nx"
  let ?h2 = "if ?nx \<noteq> 0 then setPrev ?h1 ?nx ?pr else ?h1"
  have d: "dll (h_array h) (h_avail h) (us @ x # vs)" and di: "distinct (us @ x # vs)"
    using assms by (auto simp: heap_hole_def)
  have nz: "\<And>z. z \<in> set (us @ x # vs) \<Longrightarrow> z \<noteq> 0" using dll_nonzero [OF d] .
  have pr: "?pr \<noteq> 0 \<Longrightarrow> ?pr \<in> set us" by (auto simp: last_in_set split: if_splits)
  have nx: "?nx \<noteq> 0 \<Longrightarrow> ?nx \<in> set vs" by (cases vs) auto
  have "heap_remove h x = Inr ?h2"
    by (simp add: heap_remove_def L(1,2) Let_def)
  moreover have "h_avail ?h2 = (if ?pr = 0 then ?nx else h_avail h)"
    by (simp add: setNext_def setPrev_def set_array_def)
  moreover have "h_array ?h2 =
     (let a1 = (if ?pr = 0 then h_array h else (h_array h)(?pr + 1 := ?nx))
      in if ?nx \<noteq> 0 then a1(?nx + 2 := ?pr) else a1)"
    by (simp add: setNext_def setPrev_def set_array_def Let_def)
  moreover have "dll (let a1 = (if ?pr = 0 then h_array h else (h_array h)(?pr + 1 := ?nx))
      in if ?nx \<noteq> 0 then a1(?nx + 2 := ?pr) else a1) (if ?pr = 0 then ?nx else h_avail h) (us @ vs)"
    by (rule dll_remove [OF d hole_spread [OF assms] di]) (simp_all add: L(3,4) Let_def)
  moreover have "links_only (set (us @ vs)) (h_array h) (h_array ?h2)"
    using pr nx by (auto simp: links_only_def setNext_def setPrev_def set_array_def)
  ultimately show ?thesis
    by (intro that [of ?h2]) (simp_all add: setNext_def setPrev_def set_array_def)
qed

text \<open>Removing the free block at the left, or the right, edge of a hole widens the hole.\<close>

lemma hole_tiled_links:
  assumes "heap_hole h xs s ys fl" "links_only (set fl) (h_array h) a'"
  shows "tiled a' 0 (-2 # xs)" and "tiled a' (2 + span xs + s) (ys @ [-2])"
proof -
  have t: "tiled (h_array h) 2 xs" "tiled (h_array h) (2 + span xs + s) ys" "big 4 xs" "big 4 ys"
    and e: "h_array h 0 = -2" "h_array h 1 = -2" "h_array h (h_len h - 2) = -2" "h_array h (h_len h - 1) = -2"
    and len: "h_len h = span xs + s + span ys + 4" "0 \<le> s"
    and fl: "set fl = set (frees 2 xs) \<union> set (frees (2 + span xs + s) ys)"
    using assms(1) by (auto simp: heap_hole_def algebra_simps)
  have pos: "((\<exists>y \<in> set (frees 2 xs). k = y + 1 \<or> k = y + 2) \<and> 3 \<le> k \<and> k < 2 + span xs) \<or>
     ((\<exists>y \<in> set (frees (2 + span xs + s) ys). k = y + 1 \<or> k = y + 2) \<and>
      2 + span xs + s < k \<and> k < h_len h - 2)"
    if ch: "a' k \<noteq> h_array h k" for k
  proof -
    obtain y where y: "y \<in> set fl" "k = y + 1 \<or> k = y + 2"
      using assms(2) ch unfolding links_only_def by blast
    then consider "y \<in> set (frees 2 xs)" | "y \<in> set (frees (2 + span xs + s) ys)"
      using fl by blast
    then show ?thesis
    proof cases
      case 1
      then show ?thesis using y(2) frees_range [OF t(3) 1] by auto
    next
      case 2
      then show ?thesis using y(2) frees_range [OF t(4) 2] len by auto
    qed
  qed
  have same: "a' k = h_array h k" if "k \<in> {0, 1, h_len h - 2, h_len h - 1}" for k
    using pos [of k] that len span_nonneg [of xs] span_nonneg [of ys] by fastforce
  have "tiled a' 2 xs"
  proof (rule tiled_links [OF t(3,1)])
    fix k assume "a' k \<noteq> h_array h k"
    from pos [OF this] show "k < 2 \<or> 2 + span xs \<le> k \<or> (\<exists>y \<in> set (frees 2 xs). k = y + 1 \<or> k = y + 2)"
      using len by linarith
  qed
  then show "tiled a' 0 (-2 # xs)" using same e by simp
  have "tiled a' (2 + span xs + s) ys"
  proof (rule tiled_links [OF t(4,2)])
    fix k assume "a' k \<noteq> h_array h k"
    from pos [OF this] show "k < 2 + span xs + s \<or> 2 + span xs + s + span ys \<le> k \<or>
        (\<exists>y \<in> set (frees (2 + span xs + s) ys). k = y + 1 \<or> k = y + 2)"
      using len by linarith
  qed
  then show "tiled a' (2 + span xs + s) (ys @ [-2])"
    using same [of "h_len h - 2"] same [of "h_len h - 1"] e len by (simp add: algebra_simps)
qed

lemma hole_remove_at:
  assumes "heap_hole h xs s ys fl" "x \<in> set fl"
  obtains h' us vs where "fl = us @ x # vs" "heap_remove h x = Inr h'"
    and "dll (h_array h') (h_avail h') (us @ vs)"
    and "tiled (h_array h') 0 (-2 # xs)" "tiled (h_array h') (2 + span xs + s) (ys @ [-2])"
    and "links_only (set fl) (h_array h) (h_array h')"
    and "h_len h' = h_len h" "h_base h' = h_base h" "h_safe h' = h_safe h"
proof -
  obtain us vs where fl: "fl = us @ x # vs" using assms(2) by (meson split_list)
  obtain h' where h': "heap_remove h x = Inr h'" "dll (h_array h') (h_avail h') (us @ vs)"
    and lo: "links_only (set (us @ vs)) (h_array h) (h_array h')"
    and eq: "h_len h' = h_len h" "h_base h' = h_base h" "h_safe h' = h_safe h"
    using heap_remove_raw assms(1) fl by blast
  have lo': "links_only (set fl) (h_array h) (h_array h')"
    by (rule links_only_mono [OF lo]) (auto simp: fl)
  show ?thesis
    by (rule that [OF fl h' hole_tiled_links [OF assms(1) lo'] lo' eq])
qed

lemma hole_remove_left:
  assumes "heap_hole h (xs @ [z]) s ys fl" "z > 0"
  obtains h' fl' where "heap_remove h (2 + span xs) = Inr h'" "heap_hole h' xs (z + s) ys fl'"
    and "links_only (set fl) (h_array h) (h_array h')" "h_array h' (2 + span xs) = z"
    and "h_base h' = h_base h" "h_safe h' = h_safe h" "set fl' \<subseteq> set fl"
proof -
  let ?x = "2 + span xs"
  have x: "?x \<in> set fl" using assms by (auto simp: heap_hole_def)
  obtain h' us vs where fl: "fl = us @ ?x # vs" and h': "heap_remove h ?x = Inr h'"
    and d: "dll (h_array h') (h_avail h') (us @ vs)"
    and t: "tiled (h_array h') 0 (-2 # xs @ [z])" "tiled (h_array h') (2 + span (xs @ [z]) + s) (ys @ [-2])"
    and lo: "links_only (set fl) (h_array h) (h_array h')"
    and eq: "h_len h' = h_len h" "h_base h' = h_base h" "h_safe h' = h_safe h"
    by (rule hole_remove_at [OF assms(1) x])
  have b: "big 4 xs" "big 4 ys" using assms(1) by (auto simp: heap_hole_def)
  have "?x \<notin> set (frees 2 xs)" using frees_range(2) [OF b(1), of ?x 2] by auto
  moreover have "?x \<notin> set (frees (2 + span xs + z + s) ys)"
    using frees_range(1) [OF b(2), of ?x "2 + span xs + z + s"] assms by (auto simp: heap_hole_def)
  moreover have "set fl = set (frees 2 xs) \<union> {?x} \<union> set (frees (2 + span xs + z + s) ys)"
    using assms by (auto simp: heap_hole_def algebra_simps)
  moreover have "set (us @ vs) = set fl - {?x}"
    using assms(1) fl by (auto simp: heap_hole_def)
  ultimately have "set (us @ vs) = set (frees 2 xs) \<union> set (frees (2 + span xs + (z + s)) ys)"
    by (auto simp: add.assoc)
  then have "heap_hole h' xs (z + s) ys (us @ vs)"
    using assms fl d t eq by (auto simp: heap_hole_def add.assoc)
  then show ?thesis
    using t(1) by (intro that [OF h' _ lo _ eq(2,3)]) (auto simp: fl)
qed

lemma hole_remove_right:
  assumes "heap_hole h xs s (z # ys) fl" "z > 0"
  obtains h' fl' where "heap_remove h (2 + span xs + s) = Inr h'" "heap_hole h' xs (s + z) ys fl'"
    and "links_only (set fl) (h_array h) (h_array h')" "h_array h' (2 + span xs + s) = z"
    and "h_base h' = h_base h" "h_safe h' = h_safe h" "set fl' \<subseteq> set fl"
proof -
  let ?x = "2 + span xs + s"
  have x: "?x \<in> set fl" using assms by (auto simp: heap_hole_def)
  obtain h' us vs where fl: "fl = us @ ?x # vs" and h': "heap_remove h ?x = Inr h'"
    and d: "dll (h_array h') (h_avail h') (us @ vs)"
    and t: "tiled (h_array h') 0 (-2 # xs)" "tiled (h_array h') ?x ((z # ys) @ [-2])"
    and lo: "links_only (set fl) (h_array h) (h_array h')"
    and eq: "h_len h' = h_len h" "h_base h' = h_base h" "h_safe h' = h_safe h"
    by (rule hole_remove_at [OF assms(1) x])
  have b: "big 4 xs" "big 4 ys" using assms(1) by (auto simp: heap_hole_def)
  have "?x \<notin> set (frees 2 xs)"
    using frees_range(2) [OF b(1), of ?x 2] assms by (auto simp: heap_hole_def)
  moreover have "?x \<notin> set (frees (2 + span xs + s + z) ys)"
    using frees_range(1) [OF b(2), of ?x "2 + span xs + s + z"] assms by auto
  moreover have "set fl = set (frees 2 xs) \<union> {?x} \<union> set (frees (2 + span xs + s + z) ys)"
    using assms by (auto simp: heap_hole_def)
  moreover have "set (us @ vs) = set fl - {?x}"
    using assms(1) fl by (auto simp: heap_hole_def)
  ultimately have "set (us @ vs) = set (frees 2 xs) \<union> set (frees (2 + span xs + (s + z)) ys)"
    by (auto simp: add.assoc)
  then have "heap_hole h' xs (s + z) ys (us @ vs)"
    using assms fl d t eq by (auto simp: heap_hole_def add.assoc)
  then show ?thesis
    using t(2) by (intro that [OF h' _ lo _ eq(2,3)]) (auto simp: fl)
qed

section \<open>Closing a hole\<close>

lemma hole_upd:
  assumes "heap_hole h xs s ys fl" "2 + span xs \<le> k" "k < 2 + span xs + s"
  shows "heap_hole (set_array h k v) xs s ys fl"
proof -
  have b: "big 1 (-2 # xs)" "big 1 (ys @ [-2])" using assms(1) by (auto simp: heap_hole_def)
  have "\<forall>y \<in> set fl. k \<noteq> y + 1 \<and> k \<noteq> y + 2"
    using hole_free_range [OF assms(1)] assms(2,3) by fastforce
  moreover have "tiled ((h_array h)(k := v)) 0 (-2 # xs) = tiled (h_array h) 0 (-2 # xs)"
    using assms b by (intro tiled_upd_outside) auto
  moreover have "tiled ((h_array h)(k := v)) (2 + span xs + s) (ys @ [-2])
      = tiled (h_array h) (2 + span xs + s) (ys @ [-2])"
    using assms b by (intro tiled_upd_outside) auto
  ultimately show ?thesis
    using assms(1) by (simp only: heap_hole_def set_array_def heap.simps dll_upd)
      (simp add: dll_upd)
qed

text \<open>\<open>makeTaken\<close> fills the low end of a hole, \<open>makeAvail\<close> all of it.\<close>

lemma makeTaken_hole:
  assumes "heap_hole h xs s ys fl" "4 \<le> n" "n \<le> s"
  shows "heap_hole (makeTaken h (2 + span xs) n) (xs @ [- n]) (s - n) ys fl"
proof -
  let ?x = "2 + span xs"
  let ?h = "set_array (set_array h ?x (- n)) (?x + n - 1) (- n)"
  have eq: "makeTaken h ?x n = ?h"
    using assms(2) by (simp add: makeTaken_def footerFromHeader_def heap_size_def set_array_def Let_def)
  have H: "heap_hole ?h xs s ys fl"
    using assms by (intro hole_upd) auto
  have "h_array ?h ?x = - n" "h_array ?h (?x + n - 1) = - n"
    using assms(2) by (auto simp: set_array_def)
  then show ?thesis
    using H assms(2,3) unfolding eq by (simp add: heap_hole_def algebra_simps)
qed

lemma makeAvail_hole:
  assumes "heap_hole h xs s ys fl" "4 \<le> s"
  shows "heap_hole (makeAvail h (2 + span xs) s) (xs @ [s]) 0 ys ((2 + span xs) # fl)"
proof -
  let ?x = "2 + span xs"
  define h4 where "h4 = set_array (set_array (set_array (set_array h ?x s) (?x + s - 1) s) (?x + 1) (h_avail h)) (?x + 2) 0"
  define h5 where "h5 = (if h_avail h \<noteq> 0 then set_array h4 (h_avail h + 2) ?x else h4)"
  have eq: "makeAvail h ?x s = h5\<lparr>h_avail := ?x\<rparr>"
    using assms(2) by (simp add: makeAvail_def footerFromHeader_def heap_size_def set_array_def
      setNext_def setPrev_def h4_def h5_def Let_def)
  have H: "heap_hole h4 xs s ys fl" unfolding h4_def
    using assms by (intro hole_upd) auto
  have av: "h_avail h4 = h_avail h" by (simp add: h4_def set_array_def)
  have tags: "h_array h4 ?x = s" "h_array h4 (?x + s - 1) = s"
    using assms(2) by (auto simp: h4_def set_array_def)
  have d: "dll (h_array h4) (h_avail h) fl" "distinct fl" using H av by (auto simp: heap_hole_def)
  have links: "h_array h4 = ((h_array h4)(?x + 1 := h_avail h))(?x + 2 := 0)"
    by (auto simp: h4_def set_array_def fun_eq_iff)
  have xfl: "?x \<notin> set fl" using hole_free_range [OF H, of ?x] assms(2) by auto
  have far: "spread (insert ?x (set fl))"
  proof -
    have "4 \<le> \<bar>?x - y\<bar> \<and> 4 \<le> \<bar>y - ?x\<bar>" if "y \<in> set fl" for y
      using hole_free_range [OF H that] assms(2) by auto
    then show ?thesis using hole_spread [OF H] by (auto simp: spread_def)
  qed
  have x0: "?x \<noteq> 0" using span_nonneg [of xs] by linarith
  have d5: "dll (h_array h5) ?x (?x # fl)"
    by (rule dll_push [OF d(1) x0 far xfl])
      (use links in \<open>auto simp: h5_def set_array_def Let_def\<close>)
  have av_fl: "h_avail h \<noteq> 0 \<Longrightarrow> h_avail h \<in> set fl"
    using d(1) by (cases fl) (auto simp: dll_def)
  have lo: "links_only (set fl) (h_array h4) (h_array h5)"
    using av_fl by (auto simp: links_only_def h5_def set_array_def)
  note t = hole_tiled_links [OF H lo]
  have "h_array h5 ?x = s \<and> h_array h5 (?x + s - 1) = s"
    using tags av_fl hole_free_range [OF H, of "h_avail h"] assms(2)
    by (auto simp: h5_def set_array_def)
  moreover have "h_len h5 = h_len h4" "h_base h5 = h_base h4" by (auto simp: h5_def set_array_def)
  moreover have "set (?x # fl) = set (frees 2 (xs @ [s])) \<union> set (frees (2 + span (xs @ [s]) + 0) ys)"
    using H assms(2) by (auto simp: heap_hole_def add.assoc)
  ultimately show ?thesis
    using H assms(2) t d5 d(2) xfl unfolding eq by (simp add: heap_hole_def add.assoc)
qed

section \<open>malloc\<close>

definition best_step :: "(int \<Rightarrow> int) \<Rightarrow> int \<Rightarrow> int \<times> int \<Rightarrow> int \<times> int" where
  "best_step a x r = (if a x < fst r then (a x, x) else r)"

lemma best_step_pair: "best_step a x (mx, it) = (if a x < mx then (a x, x) else (mx, it))"
  by (simp add: best_step_def)

text \<open>The candidates the search looks at: the first twenty free blocks that are large enough.\<close>

definition candidates :: "heap \<Rightarrow> int \<Rightarrow> int list \<Rightarrow> int list" where
  "candidates h n fl = take 20 (filter (\<lambda>x. n \<le> h_array h x) fl)"

lemma malloc_scan_spec:
  assumes "heap_hole h xs s ys (us @ vs)" "1 \<le> cd"
  shows "malloc_scan h n cd (hd (vs @ [0])) mx it =
    Some (Inr (fold (best_step (h_array h)) (take (nat cd) (filter (\<lambda>x. n \<le> h_array h x) vs)) (mx, it)))"
  using assms
proof (induction vs arbitrary: us cd mx it)
  case Nil
  then show ?case by (simp add: malloc_scan.simps)
next
  case (Cons v vs)
  have L: "heap_next h v = Inr (hd (vs @ [0]))" "v \<noteq> 0"
    using hole_links [OF Cons.prems(1)] by auto
  have "v \<in> set (frees 2 xs) \<or> v \<in> set (frees (2 + span xs + s) ys)"
    using Cons.prems(1) by (auto simp: heap_hole_def)
  then have pos: "h_array h v > 0"
    using Cons.prems(1) frees_pos by (fastforce simp: heap_hole_def)
  have IH: "malloc_scan h n cd' (hd (vs @ [0])) mx' it' =
    Some (Inr (fold (best_step (h_array h)) (take (nat cd') (filter (\<lambda>x. n \<le> h_array h x) vs)) (mx', it')))"
    if "1 \<le> cd'" for cd' mx' it'
    using Cons.IH [of "us @ [v]" cd' mx' it'] Cons.prems(1) that by simp
  show ?case
  proof (cases "n \<le> h_array h v")
    case True
    have "nat cd = Suc (nat (cd - 1))" using Cons.prems(2) by simp
    then show ?thesis
      using True L pos IH [of "cd - 1"] Cons.prems(2)
      by (auto simp: malloc_scan.simps [of h n cd v] isAvail_def heap_size_def best_step_pair Let_def)
  next
    case False
    then show ?thesis
      using L pos IH [of cd] Cons.prems(2)
      by (simp add: malloc_scan.simps [of h n cd v] isAvail_def heap_size_def Let_def)
  qed
qed

lemma fold_best:
  "(fold (best_step a) cs (mx, it) = (mx, it) \<and> (\<forall>c \<in> set cs. mx \<le> a c)) \<or>
   (\<exists>i \<in> set cs. fold (best_step a) cs (mx, it) = (a i, i) \<and> a i < mx \<and> (\<forall>c \<in> set cs. a i \<le> a c))"
proof (induction cs arbitrary: mx it)
  case (Cons c cs)
  show ?case
  proof (cases "a c < mx")
    case True
    then show ?thesis using Cons.IH [of "a c" c] by (auto simp: best_step_pair)
  next
    case False
    then show ?thesis using Cons.IH [of mx it] by (fastforce simp: best_step_pair)
  qed
qed simp

lemma malloc_ints_ge: "4 \<le> malloc_ints bytes"
  by (simp add: malloc_ints_def Let_def)

text \<open>The blocks a free block of size \<open>z\<close> turns into when \<open>n\<close> ints of it are taken.\<close>

definition carve :: "int \<Rightarrow> int \<Rightarrow> int list" where
  "carve n z = (if z - n \<ge> 4 then [- n, z - n] else [- z])"

text \<open>The array cells an operation may write: links of free blocks and one index range.\<close>

definition touches :: "int list \<Rightarrow> int \<Rightarrow> int \<Rightarrow> heap \<Rightarrow> heap \<Rightarrow> bool" where
  "touches fl lo hi h h' \<longleftrightarrow>
     (\<forall>k. h_array h' k \<noteq> h_array h k \<longrightarrow> (\<exists>y \<in> set fl. k = y + 1 \<or> k = y + 2) \<or> lo \<le> k \<and> k < hi)
     \<and> h_base h' = h_base h \<and> h_safe h' = h_safe h"

lemma touches_trans:
  assumes "touches fl lo hi h h'" "touches fl' lo' hi' h' h''"
    and "set fl' \<subseteq> set fl" "lo \<le> lo'" "hi' \<le> hi"
  shows "touches fl lo hi h h''"
  unfolding touches_def
proof (intro conjI allI impI)
  fix k assume ne: "h_array h'' k \<noteq> h_array h k"
  then consider "h_array h' k \<noteq> h_array h k" | "h_array h'' k \<noteq> h_array h' k" by metis
  then show "(\<exists>y \<in> set fl. k = y + 1 \<or> k = y + 2) \<or> lo \<le> k \<and> k < hi"
  proof cases
    case 1 then show ?thesis using assms(1) by (auto simp: touches_def)
  next
    case 2
    then have "(\<exists>y \<in> set fl'. k = y + 1 \<or> k = y + 2) \<or> lo' \<le> k \<and> k < hi'"
      using assms(2) unfolding touches_def by blast
    then show ?thesis using assms(3-5) by fastforce
  qed
qed (use assms in \<open>auto simp: touches_def\<close>)

lemma touches_links: "links_only (set fl) (h_array h) (h_array h') \<Longrightarrow> h_base h' = h_base h \<Longrightarrow>
    h_safe h' = h_safe h \<Longrightarrow> touches fl lo hi h h'"
  by (auto simp: touches_def links_only_def)

lemma touches_makeTaken:
  "2 \<le> n \<Longrightarrow> lo \<le> x \<Longrightarrow> x + n \<le> hi \<Longrightarrow> touches fl lo hi h (makeTaken h x n)"
  by (auto simp: touches_def makeTaken_def footerFromHeader_def heap_size_def set_array_def Let_def)

lemma touches_makeAvail:
  assumes "4 \<le> n" "lo \<le> x" "x + n \<le> hi" "dll (h_array h) (h_avail h) fl"
  shows "touches fl lo hi h (makeAvail h x n)"
proof -
  have "h_avail h \<noteq> 0 \<Longrightarrow> h_avail h \<in> set fl" using assms(4) by (cases fl) (auto simp: dll_def)
  then show ?thesis using assms(1-3)
    by (auto simp: touches_def makeAvail_def footerFromHeader_def heap_size_def set_array_def
      setNext_def setPrev_def Let_def)
qed

lemma heap_ok_big: "heap_ok h bs fl \<Longrightarrow> z \<in> set bs \<Longrightarrow> 4 \<le> \<bar>z\<bar>"
  by (auto simp: heap_ok_def heap_hole_def)

lemma malloc_take_spec:
  assumes ok: "heap_ok h (xs @ z # ys) fl" and n: "4 \<le> n" "n \<le> z"
  obtains h' fl' where "malloc_take h n z (2 + span xs) = Inr (elem_addr h (3 + span xs), h')"
    and "heap_ok h' (xs @ carve n z @ ys) fl'" and "touches fl (2 + span xs) (2 + span xs + z) h h'"
proof -
  let ?x = "2 + span xs"
  have H: "heap_hole h (xs @ [z]) 0 ys fl" and adj: "no_adj (xs @ z # ys)"
    using ok heap_ok_hole [of h "xs @ [z]" ys fl] by auto
  have z: "z > 0" "4 \<le> z" using n by auto
  obtain h1 fl1 where r: "heap_remove h ?x = Inr h1" and H1': "heap_hole h1 xs (z + 0) ys fl1"
    and lo: "links_only (set fl) (h_array h) (h_array h1)" and "h_array h1 ?x = z"
    and eq: "h_base h1 = h_base h" "h_safe h1 = h_safe h" and sub: "set fl1 \<subseteq> set fl"
    by (rule hole_remove_left [OF H z(1)])
  from H1' have H1: "heap_hole h1 xs z ys fl1" by simp
  have adj': "no_adj (xs @ carve n z @ ys)"
    using adj n by (auto simp: carve_def no_adj_append no_adj_Cons)
  have x0: "?x \<noteq> 0" using span_nonneg [of xs] by linarith
  have T0: "touches fl ?x (?x + z) h h1" using lo eq by (rule touches_links)
  show ?thesis
  proof (cases "z - n \<ge> 4")
    case True
    let ?t = "makeTaken h1 ?x n"
    let ?h = "makeAvail ?t (?x + n) (z - n)"
    have Ht: "heap_hole ?t (xs @ [- n]) (z - n) ys fl1"
      using makeTaken_hole [OF H1 n(1)] n True by simp
    have pos: "2 + span (xs @ [- n]) = ?x + n" using n by simp
    have Ha: "heap_hole ?h ((xs @ [- n]) @ [z - n]) 0 ys ((?x + n) # fl1)"
      using makeAvail_hole [OF Ht, unfolded pos] True by simp
    have "malloc_take h n z ?x = Inr (elem_addr ?h (?x + 1), ?h)"
      using x0 True by (simp add: malloc_take_def r Let_def)
    moreover have T1: "touches fl1 ?x (?x + z) h1 ?t"
      using n True by (intro touches_makeTaken) auto
    moreover have T2: "touches fl1 ?x (?x + z) ?t ?h"
      using n True Ht by (intro touches_makeAvail) (auto simp: heap_hole_def)
    moreover have T: "touches fl ?x (?x + z) h ?h"
      using touches_trans [OF T0 touches_trans [OF T1 T2] sub] by simp
    moreover have "heap_ok ?h (xs @ carve n z @ ys) ((?x + n) # fl1)"
      using Ha adj' True heap_ok_hole [of ?h "xs @ [- n, z - n]" ys] by (simp add: carve_def)
    ultimately show ?thesis
      by (intro that) (auto simp: elem_addr_def touches_def add.commute)
  next
    case False
    let ?t = "makeTaken h1 ?x z"
    have Ht: "heap_hole ?t (xs @ [- z]) 0 ys fl1"
      using makeTaken_hole [OF H1 z(2)] by simp
    have "malloc_take h n z ?x = Inr (elem_addr ?t (?x + 1), ?t)"
      using x0 False by (simp add: malloc_take_def r Let_def)
    moreover have T1: "touches fl1 ?x (?x + z) h1 ?t"
      using z by (intro touches_makeTaken) auto
    moreover have T: "touches fl ?x (?x + z) h ?t"
      using touches_trans [OF T0 T1 sub] by simp
    moreover have "heap_ok ?t (xs @ carve n z @ ys) fl1"
      using Ht adj' False heap_ok_hole [of ?t "xs @ [- z]" ys] by (simp add: carve_def)
    ultimately show ?thesis
      by (intro that) (auto simp: elem_addr_def touches_def add.commute)
  qed
qed

lemma heap_ok_free_block:
  assumes "heap_ok h bs fl" "x \<in> set fl"
  obtains xs z ys where "bs = xs @ z # ys" "x = 2 + span xs" "z = h_array h x" "z > 0"
proof -
  have b: "big 4 bs" and "x \<in> set (frees 2 bs)" and t: "tiled (h_array h) 2 bs"
    using assms by (auto simp: heap_ok_def heap_hole_def)
  then obtain z where z: "z > 0" "blk_at 2 bs x = Some z"
    using set_frees [OF big_mono [OF b]] by auto
  obtain xs ys where "bs = xs @ z # ys" "x = 2 + span xs" using z(2) by (rule blk_at_split)
  with z tiled_blk_at [OF t z(2)] show ?thesis by (intro that) auto
qed

lemma heap_ok_len: "heap_ok h bs fl \<Longrightarrow> h_len h \<le> 2 ^ 30 \<and> h_len h = span bs + 4"
  by (auto simp: heap_ok_def heap_hole_def)

theorem malloc_spec:
  assumes ok: "heap_ok h bs fl" and "bytes \<noteq> 0"
    and c: "candidates h (malloc_ints bytes) fl = cs"
  shows "cs = [] \<Longrightarrow> malloc h bytes = Some (Inr (0, h))"
    and "cs \<noteq> [] \<Longrightarrow> \<exists>xs z ys h' fl'. bs = xs @ z # ys \<and> 2 + span xs \<in> set cs \<and>
       malloc_ints bytes \<le> z \<and> (\<forall>c \<in> set cs. z \<le> h_array h c) \<and>
       malloc h bytes = Some (Inr (elem_addr h (3 + span xs), h')) \<and>
       heap_ok h' (xs @ carve (malloc_ints bytes) z @ ys) fl' \<and>
       touches fl (2 + span xs) (2 + span xs + z) h h'"
proof -
  let ?n = "malloc_ints bytes"
  have H: "heap_hole h bs 0 [] ([] @ fl)" using ok by (simp add: heap_ok_def)
  have av: "h_avail h = hd (fl @ [0])" using H by (cases fl) (auto simp: heap_hole_def dll_def)
  have scan: "malloc_scan h ?n 20 (h_avail h) 0x7FFFFFFF 0 =
      Some (Inr (fold (best_step (h_array h)) cs (0x7FFFFFFF, 0)))"
    using malloc_scan_spec [OF H, of 20 ?n "0x7FFFFFFF" 0] c av by (simp add: candidates_def)
  have cfl: "\<And>x. x \<in> set cs \<Longrightarrow> x \<in> set fl \<and> ?n \<le> h_array h x"
    using c by (auto simp: candidates_def dest: in_set_takeD)
  have small: "h_array h x < 0x7FFFFFFF" if "x \<in> set cs" for x
  proof -
    from cfl [OF that] have "x \<in> set fl" ..
    then obtain xs z ys where "bs = xs @ z # ys" "x = 2 + span xs" "z = h_array h x" "z > 0"
      by (rule heap_ok_free_block [OF ok])
    then show ?thesis using heap_ok_len [OF ok] span_nonneg [of xs] span_nonneg [of ys] by simp
  qed
  show "malloc h bytes = Some (Inr (0, h))" if "cs = []"
    using that scan assms(2) by (simp add: malloc_def malloc_take_def Let_def)
  show "\<exists>xs z ys h' fl'. bs = xs @ z # ys \<and> 2 + span xs \<in> set cs \<and>
       malloc_ints bytes \<le> z \<and> (\<forall>c \<in> set cs. z \<le> h_array h c) \<and>
       malloc h bytes = Some (Inr (elem_addr h (3 + span xs), h')) \<and>
       heap_ok h' (xs @ carve (malloc_ints bytes) z @ ys) fl' \<and>
       touches fl (2 + span xs) (2 + span xs + z) h h'" if ne: "cs \<noteq> []"
  proof -
    obtain i where i: "i \<in> set cs" "fold (best_step (h_array h)) cs (0x7FFFFFFF, 0) = (h_array h i, i)"
      and best: "\<forall>c \<in> set cs. h_array h i \<le> h_array h c"
      using fold_best [of "h_array h" cs "0x7FFFFFFF" 0] small ne by (fastforce simp: neq_Nil_conv)
    from cfl [OF i(1)] have "i \<in> set fl" ..
    then obtain xs z ys where bs: "bs = xs @ z # ys" and x: "i = 2 + span xs" and z: "z = h_array h i"
      and "z > 0" by (rule heap_ok_free_block [OF ok])
    have n: "4 \<le> ?n" "?n \<le> z" using malloc_ints_ge cfl [OF i(1)] z by auto
    obtain h' fl' where "malloc_take h ?n z (2 + span xs) = Inr (elem_addr h (3 + span xs), h')"
      "heap_ok h' (xs @ carve ?n z @ ys) fl'" "touches fl (2 + span xs) (2 + span xs + z) h h'"
      using malloc_take_spec [OF ok [unfolded bs] n] by metis
    moreover have "malloc h bytes = Some (malloc_take h ?n z i)"
      using scan i(2) assms(2) z by (simp add: malloc_def Let_def)
    ultimately show ?thesis using bs x z best i(1) n by (intro exI conjI) auto
  qed
qed

section \<open>free\<close>

text \<open>What a freed block merges with: a free last block of \<open>xs\<close>, a free first block of \<open>ys\<close>.\<close>

definition left_gap :: "int list \<Rightarrow> int" where
  "left_gap xs = (if xs \<noteq> [] \<and> last xs > 0 then last xs else 0)"

definition right_gap :: "int list \<Rightarrow> int" where
  "right_gap ys = (if ys \<noteq> [] \<and> hd ys > 0 then hd ys else 0)"

definition left_rest :: "int list \<Rightarrow> int list" where
  "left_rest xs = (if xs \<noteq> [] \<and> last xs > 0 then butlast xs else xs)"

definition right_rest :: "int list \<Rightarrow> int list" where
  "right_rest ys = (if ys \<noteq> [] \<and> hd ys > 0 then tl ys else ys)"

definition coalesce :: "int list \<Rightarrow> int \<Rightarrow> int list \<Rightarrow> int list" where
  "coalesce xs n ys = left_rest xs @ [left_gap xs + n + right_gap ys] @ right_rest ys"

lemma heap_ok_tiled: "heap_ok h bs fl \<Longrightarrow> tiled (h_array h) 0 (-2 # bs @ [-2])"
  by (auto simp: heap_ok_def heap_hole_def)

lemma heap_ok_sanity:
  assumes ok: "heap_ok h bs fl" and b: "blk_at 0 (-2 # bs @ [-2]) i = Some z"
  shows "sanity h i = Inr i"
proof (cases "i = 0")
  case True
  then show ?thesis by (simp add: sanity_def)
next
  case False
  have big: "big 1 (-2 # bs @ [-2])" using heap_ok_big [OF ok] by fastforce
  have z: "1 \<le> \<bar>z\<bar>" using blk_at_split [OF b] big by (metis in_set_conv_decomp)
  have t: "h_array h i = z" "h_array h (i + \<bar>z\<bar> - 1) = z"
    using tiled_blk_at [OF heap_ok_tiled [OF ok] b] by auto
  have "0 \<le> i" "i + \<bar>z\<bar> \<le> h_len h"
    using blk_at_range [OF big b] heap_ok_len [OF ok] by auto
  then show ?thesis
    using t z False by (auto simp: sanity_def footerFromHeader_def heap_size_def Let_def)
qed

lemma elem_addr_uint:
  assumes "0 < uint (h_base h)" "0 \<le> i" "uint (h_base h) + 4 * i < 2 ^ 32"
  shows "uint (elem_addr h i) = uint (h_base h) + 4 * i"
proof -
  have "elem_addr h i = word_of_int (uint (h_base h) + 4 * i)"
    by (simp add: elem_addr_def)
  then show ?thesis using assms u32_uint [of "uint (h_base h) + 4 * i"] by (simp only:)
qed

lemma ptr_index_elem_addr:
  assumes "0 < uint (h_base h)" "0 \<le> i" "uint (h_base h) + 4 * (i + 1) < 2 ^ 32"
  shows "ptr_index h (elem_addr h (i + 1)) = i"
proof -
  have "uint (elem_addr h (i + 1) - h_base h) = 4 * (i + 1)"
    using u32_uint [of "4 * (i + 1)"] assms by (simp add: elem_addr_def)
  then have "uint ((elem_addr h (i + 1) - h_base h) div 4) = i + 1"
    by (simp add: uint_div)
  then have "(elem_addr h (i + 1) - h_base h) div 4 = word_of_int (i + 1)"
    by (metis word_of_int_uint)
  then have "ptr_index h (elem_addr h (i + 1)) = sint (word_of_int i :: u32)"
    by (simp add: ptr_index_def)
  then show ?thesis using u32_sint [of i] assms by simp
qed

text \<open>A pointer to a block's payload is neither null nor the zero-size pointer, and is recovered.\<close>

lemma payload_ptr:
  assumes ok: "heap_ok h (xs @ z # ys) fl"
  shows "elem_addr h (3 + span xs) \<noteq> 0" "elem_addr h (3 + span xs) \<noteq> h_base h"
    and "ptr_index h (elem_addr h (3 + span xs)) = 2 + span xs"
proof -
  have b: "0 < uint (h_base h)" "uint (h_base h) + 4 * h_len h \<le> 2 ^ 32"
    using ok by (auto simp: heap_ok_def heap_hole_def)
  have l: "h_len h = span xs + \<bar>z\<bar> + span ys + 4" "4 \<le> \<bar>z\<bar>"
    using heap_ok_len [OF ok] heap_ok_big [OF ok, of z] by auto
  have r: "uint (h_base h) + 4 * (3 + span xs) < 2 ^ 32"
    using b l span_nonneg [of ys] by simp
  have u: "uint (elem_addr h (3 + span xs)) = uint (h_base h) + 4 * (3 + span xs)"
    using b r span_nonneg [of xs] by (intro elem_addr_uint) auto
  show "elem_addr h (3 + span xs) \<noteq> 0" "elem_addr h (3 + span xs) \<noteq> h_base h"
    using u b span_nonneg [of xs] by (auto simp: word_uint_eq_iff)
  show "ptr_index h (elem_addr h (3 + span xs)) = 2 + span xs"
    using ptr_index_elem_addr [of h "2 + span xs"] b r span_nonneg [of xs] by (simp add: add.commute)
qed

lemma hole_open:
  assumes "heap_ok h (xs @ z # ys) fl" "z < 0"
  shows "heap_hole h xs (- z) ys fl"
  using assms heap_ok_hole [of h xs "z # ys" fl] by (auto simp: heap_hole_def)

lemma no_adj_coalesce:
  assumes "no_adj (xs @ z # ys)"
  shows "no_adj (coalesce xs n ys)"
proof -
  have x: "no_adj xs" and y: "no_adj ys" using assms by (auto simp: no_adj_append no_adj_Cons)
  have l: "no_adj (left_rest xs) \<and> (left_rest xs \<noteq> [] \<longrightarrow> \<not> last (left_rest xs) > 0)"
    using x by (cases xs rule: rev_cases) (auto simp: left_rest_def no_adj_append)
  have r: "no_adj (right_rest ys) \<and> (right_rest ys \<noteq> [] \<longrightarrow> \<not> hd (right_rest ys) > 0)"
    using y by (cases ys) (auto simp: right_rest_def no_adj_Cons)
  show ?thesis using l r by (auto simp: coalesce_def no_adj_append no_adj_Cons)
qed

lemma left_parts: "span (left_rest xs) + left_gap xs = span xs"
  by (cases xs rule: rev_cases) (auto simp: left_rest_def left_gap_def)

lemma right_parts: "span (right_rest ys) + right_gap ys = span ys"
  by (cases ys) (auto simp: right_rest_def right_gap_def)

text \<open>The tags \<open>free\<close> reads: the footer before the block, the header after it.\<close>

lemma heap_neighbours:
  assumes ok: "heap_ok h (xs @ z # ys) fl"
  shows "h_array h (2 + span xs) = z" "sanity h (2 + span xs) = Inr (2 + span xs)"
    and "heap_left h (2 + span xs) = Inr (2 + span xs - \<bar>last (-2 # xs)\<bar>)"
    and "heap_right h (2 + span xs) = Inr (2 + span xs + \<bar>z\<bar>)"
    and "h_array h (2 + span xs - \<bar>last (-2 # xs)\<bar>) = last (-2 # xs)"
    and "h_array h (2 + span xs + \<bar>z\<bar>) = hd (ys @ [-2])"
proof -
  let ?all = "-2 # (xs @ z # ys) @ [-2]"
  have big: "big 1 ?all" using heap_ok_big [OF ok] by fastforce
  have t: "tiled (h_array h) 0 ?all" by (rule heap_ok_tiled [OF ok])
  have at: "blk_at 0 ?all (span us) = Some w" if "?all = us @ w # vs" for us w vs
    using blk_at_here [of us w vs 0] big unfolding that by simp
  have b1: "blk_at 0 ?all (2 + span xs) = Some z" using at [of "-2 # xs" z "ys @ [-2]"] by simp
  have b2: "blk_at 0 ?all (2 + span xs + \<bar>z\<bar>) = Some (hd (ys @ [-2]))"
    using at [of "-2 # xs @ [z]" "hd (ys @ [-2])" "tl (ys @ [-2])"] by (cases ys) (auto simp: add.assoc)
  have b3: "blk_at 0 ?all (2 + span xs - \<bar>last (-2 # xs)\<bar>) = Some (last (-2 # xs))"
  proof (cases xs rule: rev_cases)
    case Nil
    then show ?thesis using at [of "[]" "-2" "z # ys @ [-2]"] by simp
  next
    case (snoc us l)
    then show ?thesis using at [of "-2 # us" l "z # ys @ [-2]"] by simp
  qed
  note T = tiled_blk_at [OF t]
  show v: "h_array h (2 + span xs) = z"
    and "h_array h (2 + span xs - \<bar>last (-2 # xs)\<bar>) = last (-2 # xs)"
    and "h_array h (2 + span xs + \<bar>z\<bar>) = hd (ys @ [-2])"
    using T [OF b1] T [OF b2] T [OF b3] by auto
  show "sanity h (2 + span xs) = Inr (2 + span xs)" by (rule heap_ok_sanity [OF ok b1])
  have "h_array h (2 + span xs - 1) = last (-2 # xs)" using T [OF b3] by (simp del: last.simps)
  then show "heap_left h (2 + span xs) = Inr (2 + span xs - \<bar>last (-2 # xs)\<bar>)"
    using heap_ok_sanity [OF ok b3]
    by (simp del: last.simps add: heap_left_def headerFromFooter_def heap_size_def algebra_simps)
  show "heap_right h (2 + span xs) = Inr (2 + span xs + \<bar>z\<bar>)"
    using heap_ok_sanity [OF ok b2] by (simp add: heap_right_def heap_size_def v)
qed

text \<open>
  The two merges, as steps on a hole: each either widens the hole by a free neighbour or leaves it.
\<close>

lemma merge_left_step:
  assumes ok: "heap_ok h (xs @ z # ys) fl" and "z < 0"
  obtains h1 fl1 where
    "merge_left h (2 + span xs) (- z) (2 + span xs - \<bar>last (-2 # xs)\<bar>)
     = Inr (h1, 2 + span (left_rest xs), left_gap xs - z)"
    and "heap_hole h1 (left_rest xs) (left_gap xs - z) ys fl1" "set fl1 \<subseteq> set fl"
    and "links_only (set fl) (h_array h) (h_array h1)" "h_base h1 = h_base h" "h_safe h1 = h_safe h"
proof (cases "xs \<noteq> [] \<and> last xs > 0")
  case False
  have H: "heap_hole h xs (- z) ys fl" using hole_open assms by blast
  have "\<not> isAvail h (2 + span xs - \<bar>last (-2 # xs)\<bar>)"
    using False heap_neighbours(5) [OF ok] by (auto simp: isAvail_def)
  then show ?thesis using H False by (intro that [of h fl]) (auto simp: left_rest_def left_gap_def merge_left_def)
next
  case True
  then obtain us l where xs: "xs = us @ [l]" "l > 0" by (cases xs rule: rev_cases) auto
  have H: "heap_hole h (us @ [l]) (- z) ys fl" using hole_open assms xs(1) by blast
  obtain h1 fl1 where r: "heap_remove h (2 + span us) = Inr h1" and H1: "heap_hole h1 us (l + - z) ys fl1"
    and lo: "links_only (set fl) (h_array h) (h_array h1)" and l: "h_array h1 (2 + span us) = l"
    and eq: "h_base h1 = h_base h" "h_safe h1 = h_safe h" and sub: "set fl1 \<subseteq> set fl"
    by (rule hole_remove_left [OF H xs(2)])
  have idx: "2 + span xs - \<bar>last (-2 # xs)\<bar> = 2 + span us" using xs by simp
  have "isAvail h (2 + span us)"
    using heap_neighbours(5) [OF ok] xs by (simp add: isAvail_def)
  then show ?thesis using xs r l H1 idx
    by (intro that [OF _ _ sub lo eq])
      (simp_all add: left_rest_def left_gap_def heap_size_def merge_left_def)
qed

lemma merge_right_step:
  assumes H: "heap_hole h xs s ys fl" and t: "h_array h (2 + span xs + s) = hd (ys @ [-2])"
  obtains h1 fl1 where
    "merge_right h s (2 + span xs + s) = Inr (h1, s + right_gap ys)"
    and "heap_hole h1 xs (s + right_gap ys) (right_rest ys) fl1" "set fl1 \<subseteq> set fl"
    and "links_only (set fl) (h_array h) (h_array h1)" "h_base h1 = h_base h" "h_safe h1 = h_safe h"
proof (cases "ys \<noteq> [] \<and> hd ys > 0")
  case False
  then have "\<not> isAvail h (2 + span xs + s)"
    using t by (cases ys) (auto simp: isAvail_def)
  then show ?thesis using H False by (intro that [of h fl]) (auto simp: right_rest_def right_gap_def merge_right_def)
next
  case True
  then obtain r us where ys: "ys = r # us" "r > 0" by (cases ys) auto
  obtain h1 fl1 where rm: "heap_remove h (2 + span xs + s) = Inr h1" and H1: "heap_hole h1 xs (s + r) us fl1"
    and lo: "links_only (set fl) (h_array h) (h_array h1)" and l: "h_array h1 (2 + span xs + s) = r"
    and eq: "h_base h1 = h_base h" "h_safe h1 = h_safe h" and sub: "set fl1 \<subseteq> set fl"
    by (rule hole_remove_right [OF H [unfolded ys] ys(2)])
  have "isAvail h (2 + span xs + s)" using t ys by (simp add: isAvail_def)
  then show ?thesis using ys rm l H1
    by (intro that [OF _ _ sub lo eq])
      (simp_all add: right_rest_def right_gap_def heap_size_def merge_right_def)
qed

lemma gaps_nonneg: "0 \<le> left_gap xs" "0 \<le> right_gap ys"
  by (auto simp: left_gap_def right_gap_def)

theorem heap_free_spec:
  assumes ok: "heap_ok h (xs @ z # ys) fl" and z: "z < 0"
  obtains h' fl' where "heap_free h (elem_addr h (3 + span xs)) = Inr h'"
    and "heap_ok h' (coalesce xs (- z) ys) fl'"
    and "touches fl (2 + span xs - left_gap xs) (2 + span xs - z + right_gap ys) h h'"
proof -
  let ?x = "2 + span xs" and ?s = "left_gap xs - z"
  let ?lo = "2 + span xs - left_gap xs" and ?hi = "2 + span xs - z + right_gap ys"
  note N = heap_neighbours [OF ok] and P = payload_ptr [OF ok] and G = gaps_nonneg [of xs] gaps_nonneg(2) [of ys]
  have z4: "4 \<le> - z" using heap_ok_big [OF ok, of z] z by auto
  have rest: "2 + span (left_rest xs) = ?lo" using left_parts [of xs] by simp
  obtain h1 fl1 where e1: "merge_left h ?x (- z) (?x - \<bar>last (-2 # xs)\<bar>)
      = Inr (h1, 2 + span (left_rest xs), ?s)"
    and H1: "heap_hole h1 (left_rest xs) ?s ys fl1" and s1: "set fl1 \<subseteq> set fl"
    and l1: "links_only (set fl) (h_array h) (h_array h1)" "h_base h1 = h_base h" "h_safe h1 = h_safe h"
    by (rule merge_left_step [OF ok z])
  have right: "2 + span (left_rest xs) + ?s = ?x + \<bar>z\<bar>" using rest z by simp
  have "tiled (h_array h1) (2 + span (left_rest xs) + ?s) (ys @ [-2])" using H1 by (simp add: heap_hole_def)
  then have t: "h_array h1 (2 + span (left_rest xs) + ?s) = hd (ys @ [-2])" by (cases ys) auto
  obtain h2 fl2 where e2: "merge_right h1 ?s (2 + span (left_rest xs) + ?s) = Inr (h2, ?s + right_gap ys)"
    and H2: "heap_hole h2 (left_rest xs) (?s + right_gap ys) (right_rest ys) fl2" and s2: "set fl2 \<subseteq> set fl1"
    and l2: "links_only (set fl1) (h_array h1) (h_array h2)" "h_base h2 = h_base h1" "h_safe h2 = h_safe h1"
    by (rule merge_right_step [OF H1 t])
  let ?h = "makeAvail h2 (2 + span (left_rest xs)) (?s + right_gap ys)"
  have s4: "4 \<le> ?s + right_gap ys" using z4 G by simp
  have "heap_free h (elem_addr h (3 + span xs)) = Inr ?h"
    using z e2 by (simp add: heap_free_def P Let_def N(1-4) isTaken_def heap_size_def e1 right
      del: last.simps)
  moreover have "heap_ok ?h (coalesce xs (- z) ys) ((2 + span (left_rest xs)) # fl2)"
    using makeAvail_hole [OF H2 s4] no_adj_coalesce [of xs z ys "- z"] ok
      heap_ok_hole [of ?h "left_rest xs @ [?s + right_gap ys]" "right_rest ys"]
    by (simp add: coalesce_def heap_ok_def)
  moreover have "touches fl ?lo ?hi h ?h"
  proof -
    have d: "dll (h_array h2) (h_avail h2) fl2" using H2 by (simp add: heap_hole_def)
    have "touches fl2 ?lo ?hi h2 ?h" using s4 rest by (intro touches_makeAvail d) auto
    with touches_links [OF l2] have "touches fl1 ?lo ?hi h1 ?h"
      by (rule touches_trans) (use s2 in auto)
    with touches_links [OF l1] show ?thesis by (rule touches_trans) (use s1 in auto)
  qed
  ultimately show ?thesis by (rule that)
qed

end
