(* ===== verification/Allocators.thy ===== *)
theory Allocators
  imports Prelude
begin

text \<open>
  The contract between an allocator and its clients. The kernel heap, the user heap and the
  physical frame allocator provide it; the lemma proved from it here, that a trace of client
  operations leaves alone every block it neither frees nor writes, is theirs by interpretation.
\<close>

datatype ('r, 'b, 'k, 'v) client_op = Alloc 'r | Dealloc 'b | Store 'b 'k 'v

text \<open>One step, and a trace of steps: an operation that fails ends the trace.\<close>

fun client_step ::
  "('r \<Rightarrow> 's \<Rightarrow> ('b option \<times> 's) option) \<Rightarrow> ('b \<Rightarrow> 's \<Rightarrow> 's option) \<Rightarrow> ('k \<Rightarrow> 'v \<Rightarrow> 's \<Rightarrow> 's) \<Rightarrow>
   ('r, 'b, 'k, 'v) client_op \<Rightarrow> 's \<Rightarrow> 's option" where
  "client_step al de st (Alloc r) s = map_option snd (al r s)"
| "client_step al de st (Dealloc b) s = de b s"
| "client_step al de st (Store b k v) s = Some (st k v s)"

fun client_run ::
  "('r \<Rightarrow> 's \<Rightarrow> ('b option \<times> 's) option) \<Rightarrow> ('b \<Rightarrow> 's \<Rightarrow> 's option) \<Rightarrow> ('k \<Rightarrow> 'v \<Rightarrow> 's \<Rightarrow> 's) \<Rightarrow>
   ('r, 'b, 'k, 'v) client_op list \<Rightarrow> 's \<Rightarrow> 's option" where
  "client_run al de st [] s = Some s"
| "client_run al de st (op # ops) s =
     (case client_step al de st op s of None \<Rightarrow> None | Some s' \<Rightarrow> client_run al de st ops s')"

text \<open>A client plays fair when it frees and writes only blocks it holds at that moment.\<close>

fun fair_op :: "('s \<Rightarrow> 'b set) \<Rightarrow> ('b \<Rightarrow> 'k set) \<Rightarrow> ('r, 'b, 'k, 'v) client_op \<Rightarrow> 's \<Rightarrow> bool" where
  "fair_op live cells (Alloc r) s = True"
| "fair_op live cells (Dealloc b) s = (b \<in> live s)"
| "fair_op live cells (Store b k v) s = (b \<in> live s \<and> k \<in> cells b)"

fun fair_run ::
  "('s \<Rightarrow> 'b set) \<Rightarrow> ('b \<Rightarrow> 'k set) \<Rightarrow>
   ('r \<Rightarrow> 's \<Rightarrow> ('b option \<times> 's) option) \<Rightarrow> ('b \<Rightarrow> 's \<Rightarrow> 's option) \<Rightarrow> ('k \<Rightarrow> 'v \<Rightarrow> 's \<Rightarrow> 's) \<Rightarrow>
   ('r, 'b, 'k, 'v) client_op list \<Rightarrow> 's \<Rightarrow> bool" where
  "fair_run live cells al de st [] s = True"
| "fair_run live cells al de st (op # ops) s =
     (fair_op live cells op s \<and>
      (case client_step al de st op s of
         None \<Rightarrow> True | Some s' \<Rightarrow> fair_run live cells al de st ops s'))"

text \<open>An operation that leaves the block \<open>b\<close> alone.\<close>

fun spares :: "'b \<Rightarrow> ('r, 'b, 'k, 'v) client_op \<Rightarrow> bool" where
  "spares b (Alloc r) = True"
| "spares b (Dealloc c) = (c \<noteq> b)"
| "spares b (Store c k v) = (c \<noteq> b)"

locale allocator =
  fixes inv :: "'s \<Rightarrow> bool"
    and live :: "'s \<Rightarrow> 'b set"
    and cells :: "'b \<Rightarrow> 'k set"
    and val :: "'s \<Rightarrow> 'k \<Rightarrow> 'v"
    and alloc :: "'r \<Rightarrow> 's \<Rightarrow> ('b option \<times> 's) option"
    and dealloc :: "'b \<Rightarrow> 's \<Rightarrow> 's option"
    and store :: "'k \<Rightarrow> 'v \<Rightarrow> 's \<Rightarrow> 's"
  assumes alloc_total: "inv s \<Longrightarrow> \<exists>b s'. alloc r s = Some (b, s')"
    and alloc_none: "inv s \<Longrightarrow> alloc r s = Some (None, s') \<Longrightarrow> s' = s"
    and alloc_some: "inv s \<Longrightarrow> alloc r s = Some (Some b, s') \<Longrightarrow>
      inv s' \<and> b \<notin> live s \<and> live s' = insert b (live s)"
    and alloc_frame: "inv s \<Longrightarrow> alloc r s = Some (Some b, s') \<Longrightarrow> c \<in> live s \<Longrightarrow> k \<in> cells c \<Longrightarrow>
      val s' k = val s k"
    and dealloc_ok: "inv s \<Longrightarrow> b \<in> live s \<Longrightarrow>
      \<exists>s'. dealloc b s = Some s' \<and> inv s' \<and> live s' = live s - {b} \<and>
        (\<forall>c \<in> live s - {b}. \<forall>k \<in> cells c. val s' k = val s k)"
    and store_ok: "inv s \<Longrightarrow> b \<in> live s \<Longrightarrow> k \<in> cells b \<Longrightarrow>
      inv (store k v s) \<and> live (store k v s) = live s \<and> val (store k v s) = (val s)(k := v)"
    and disjoint: "inv s \<Longrightarrow> b \<in> live s \<Longrightarrow> c \<in> live s \<Longrightarrow> b \<noteq> c \<Longrightarrow> cells b \<inter> cells c = {}"
begin

lemma step_ok:
  assumes "inv s" "fair_op live cells op s"
  shows "\<exists>s'. client_step alloc dealloc store op s = Some s' \<and> inv s' \<and>
    (\<forall>b \<in> live s. spares b op \<longrightarrow> b \<in> live s' \<and> (\<forall>k \<in> cells b. val s' k = val s k))"
proof (cases op)
  case (Alloc r)
  obtain b s' where a: "alloc r s = Some (b, s')" using alloc_total [OF assms(1)] by blast
  then show ?thesis
    using Alloc alloc_none [OF assms(1)] alloc_some [OF assms(1)] alloc_frame [OF assms(1)] assms(1)
    by (cases b) auto
next
  case (Dealloc b)
  then show ?thesis using dealloc_ok [OF assms(1), of b] assms(2) by fastforce
next
  case (Store b k v)
  then have "b \<in> live s" "k \<in> cells b" using assms(2) by auto
  then show ?thesis
    using Store store_ok [OF assms(1)] disjoint [OF assms(1)] by fastforce
qed

lemma run_spares:
  assumes "inv s" "fair_run live cells alloc dealloc store ops s"
    and "b \<in> live s" "list_all (spares b) ops"
  shows "\<exists>s'. client_run alloc dealloc store ops s = Some s' \<and> inv s' \<and>
    b \<in> live s' \<and> (\<forall>k \<in> cells b. val s' k = val s k)"
  using assms
proof (induction ops arbitrary: s)
  case (Cons op ops)
  then obtain s' where s': "client_step alloc dealloc store op s = Some s'" "inv s'"
    "b \<in> live s'" "\<forall>k \<in> cells b. val s' k = val s k"
    using step_ok [of s op] by auto
  with Cons show ?case using Cons.IH [of s'] by auto
qed simp

lemma run_ok:
  assumes "inv s" "fair_run live cells alloc dealloc store ops s"
  shows "\<exists>s'. client_run alloc dealloc store ops s = Some s' \<and> inv s'"
  using assms
proof (induction ops arbitrary: s)
  case (Cons op ops)
  then obtain s' where "client_step alloc dealloc store op s = Some s'" "inv s'"
    using step_ok [of s op] by auto
  with Cons show ?case by auto
qed simp

end

end
