(* ===== verification/Heap_Alloc.thy ===== *)
theory Heap_Alloc
  imports Heap Allocators
begin

text \<open>
  The kernel heap as an allocator: \<open>heapInit\<close> establishes the tiling invariant, every fair trace of
  \<open>malloc\<close>, \<open>free\<close> and payload stores keeps it and leaves alone the blocks it does not name, and a
  \<open>free\<close> undoes the \<open>malloc\<close> before it.
\<close>

section \<open>Live blocks\<close>

text \<open>A live block \<open>(x, n)\<close> is a taken block of \<open>n\<close> ints at index \<open>x\<close> that is not a sentinel.\<close>

fun takens :: "int \<Rightarrow> int list \<Rightarrow> (int \<times> int) set" where
  "takens i [] = {}"
| "takens i (z # zs) = (if z < 0 then {(i, - z)} else {}) \<union> takens (i + \<bar>z\<bar>) zs"

lemma takens_append [simp]: "takens i (xs @ ys) = takens i xs \<union> takens (i + span xs) ys"
  by (induction xs arbitrary: i) (auto simp: algebra_simps)

lemma takens_range: "(x, n) \<in> takens i zs \<Longrightarrow> i \<le> x \<and> x + n \<le> i + span zs \<and> 0 < n"
proof (induction zs arbitrary: i)
  case (Cons z zs)
  then show ?case using span_nonneg [of zs] by (fastforce split: if_splits)
qed simp

lemma takens_split:
  assumes "(x, n) \<in> takens i zs"
  obtains xs ys where "zs = xs @ (- n) # ys" "x = i + span xs" "0 < n"
  using assms
proof (induction zs arbitrary: i thesis)
  case (Cons z zs)
  show ?case
  proof (cases "z < 0 \<and> x = i \<and> n = - z")
    case True
    then show ?thesis using Cons.prems(1) [of "[]" zs] by simp
  next
    case False
    then have "(x, n) \<in> takens (i + \<bar>z\<bar>) zs" using Cons.prems(2) by (auto split: if_splits)
    then show ?thesis
      by (rule Cons.IH [rotated]) (use Cons.prems(1) [of "z # _"] in \<open>auto simp: add.assoc\<close>)
  qed
qed simp

lemma tiled_unique:
  "tiled a i xs \<Longrightarrow> tiled a i ys \<Longrightarrow> span xs = span ys \<Longrightarrow> big 1 xs \<Longrightarrow> big 1 ys \<Longrightarrow> xs = ys"
proof (induction xs arbitrary: i ys)
  case Nil
  then show ?case using span_nonneg by (cases ys) (auto, smt (verit, best) span_nonneg)
next
  case (Cons x xs)
  show ?case
  proof (cases ys)
    case Nil
    then show ?thesis using Cons.prems span_nonneg [of xs] by auto
  next
    case (Cons y us)
    then show ?thesis using Cons.prems Cons.IH [of "i + \<bar>x\<bar>" us] by auto
  qed
qed

lemma heap_ok_unique: "heap_ok h bs fl \<Longrightarrow> heap_ok h bs' fl' \<Longrightarrow> bs = bs'"
  by (rule tiled_unique [of "h_array h" 2]) (auto simp: heap_ok_def heap_hole_def)

lemma heap_ok_big1: "heap_ok h bs fl \<Longrightarrow> big 1 bs"
  using heap_ok_big by fastforce

definition heap_inv :: "heap \<Rightarrow> bool" where
  "heap_inv h \<longleftrightarrow> (\<exists>bs fl. heap_ok h bs fl)"

definition heap_live :: "heap \<Rightarrow> (int \<times> int) set" where
  "heap_live h = {b. \<exists>bs fl. heap_ok h bs fl \<and> b \<in> takens 2 bs}"

lemma heap_live_eq: "heap_ok h bs fl \<Longrightarrow> heap_live h = takens 2 bs"
  unfolding heap_live_def using heap_ok_unique by blast

text \<open>The client's ints of a block lie between its two tags.\<close>

definition payload :: "int \<times> int \<Rightarrow> int set" where
  "payload b = {fst b + 1 ..< fst b + snd b - 1}"

lemma takens_disjoint:
  "b \<in> takens i zs \<Longrightarrow> c \<in> takens i zs \<Longrightarrow> b \<noteq> c \<Longrightarrow> payload b \<inter> payload c = {}"
proof (induction zs arbitrary: i)
  case (Cons z zs)
  have far: "payload b \<inter> payload c = {}"
    if "b = (i, - z)" "c \<in> takens (i + \<bar>z\<bar>) zs" "z < 0" for b c
    using that takens_range [of "fst c" "snd c" "i + \<bar>z\<bar>" zs] by (auto simp: payload_def)
  have in_cons: "d \<in> takens (i + \<bar>z\<bar>) zs \<or> d = (i, - z) \<and> z < 0" if "d \<in> takens i (z # zs)" for d
    using that by (auto split: if_splits)
  show ?case
    using in_cons [OF Cons.prems(1)] in_cons [OF Cons.prems(2)] Cons.IH [of "i + \<bar>z\<bar>"]
      far [of b c] far [of c b] Cons.prems(3) by blast
qed simp

text \<open>Writes that touch only links of free blocks and another range leave a live block's ints.\<close>

lemma live_untouched:
  assumes ok: "heap_ok h bs fl" and t: "touches fl lo hi h h'"
    and l: "(y, n) \<in> takens 2 bs" and away: "y + n \<le> lo \<or> hi \<le> y"
    and k: "y \<le> k" "k < y + n"
  shows "h_array h' k = h_array h k"
proof (rule ccontr)
  assume "h_array h' k \<noteq> h_array h k"
  then obtain f where f: "f \<in> set fl" "k = f + 1 \<or> k = f + 2"
    using t away k unfolding touches_def by fastforce
  obtain xs ys where bs: "bs = xs @ (- n) # ys" and y: "y = 2 + span xs" and n: "0 < n"
    using l by (rule takens_split)
  have b: "big 4 xs" "big 4 ys" using ok bs by (auto simp: heap_ok_def heap_hole_def)
  have "f \<in> set (frees 2 xs) \<or> f \<in> set (frees (2 + span xs + n) ys)"
    using f ok bs n by (auto simp: heap_ok_def heap_hole_def)
  then show False
    using frees_range [OF b(1), of f 2] frees_range [OF b(2), of f "2 + span xs + n"] f k y by auto
qed

section \<open>Initialisation, stores\<close>

lemma heap_carve_ok:
  assumes "0 < uint base" "uint base + uint bytes \<le> 2 ^ 32" "32 \<le> uint bytes"
  shows "heap_ok (heap_carve m base bytes) [uint (bytes div 4) - 4] [2]"
proof -
  let ?len = "uint (bytes div 4)"
  have len: "8 \<le> ?len" "4 * ?len \<le> uint bytes" using assms(3) by (auto simp: uint_div)
  have "uint base + 4 * ?len \<le> 2 ^ 32" using assms(2) len by linarith
  then show ?thesis
    using assms(1) len
    by (auto simp: heap_carve_def heap_ok_def heap_hole_def makeTaken_def makeAvail_def
      footerFromHeader_def heap_size_def setNext_def setPrev_def set_array_def Let_def dll_def)
qed

lemma heap_store_ok:
  assumes ok: "heap_ok h bs fl" and b: "(x, n) \<in> takens 2 bs" "k \<in> payload (x, n)"
  shows "heap_ok (set_array h k v) bs fl"
proof -
  obtain xs ys where bs: "bs = xs @ (- n) # ys" and x: "x = 2 + span xs" and n: "0 < n"
    using b(1) by (rule takens_split)
  have k: "2 + span xs < k" "k < 2 + span xs + n - 1" using b(2) x by (auto simp: payload_def)
  have big1: "big 1 (-2 # bs)" "big 1 bs" using heap_ok_big1 [OF ok] by auto
  have big4: "big 4 xs" "big 4 ys" using ok bs by (auto simp: heap_ok_def heap_hole_def)
  have "blk_at 2 bs x = Some (- n)"
    using blk_at_here [of xs "- n" ys 2] big1(2) bs x by simp
  then have "tiled ((h_array h)(k := v)) 2 bs = tiled (h_array h) 2 bs"
    using k x n by (intro tiled_upd_inside [OF big1(2)]) auto
  then have "tiled ((h_array h)(k := v)) 0 (-2 # bs @ [-2])"
    using heap_ok_tiled [OF ok] k bs n span_nonneg [of xs] span_nonneg [of ys] by simp
  moreover have "k \<noteq> y + 1 \<and> k \<noteq> y + 2" if "y \<in> set fl" for y
  proof -
    have "y \<in> set (frees 2 xs) \<or> y \<in> set (frees (2 + span xs + n) ys)"
      using that ok bs n by (auto simp: heap_ok_def heap_hole_def)
    then show ?thesis
      using frees_range [OF big4(1), of y 2] frees_range [OF big4(2), of y "2 + span xs + n"] k by auto
  qed
  then have "dll ((h_array h)(k := v)) (h_avail h) fl"
    using ok by (subst dll_upd) (auto simp: heap_ok_def heap_hole_def)
  ultimately show ?thesis
    using ok by (auto simp: heap_ok_def heap_hole_def set_array_def)
qed

section \<open>The interface\<close>

text \<open>\<open>malloc\<close>, \<open>free\<close> and stores, seen by a client that names its blocks by index and size.\<close>

definition kalloc :: "u32 \<Rightarrow> heap \<Rightarrow> ((int \<times> int) option \<times> heap) option" where
  "kalloc bytes h =
     (case malloc h bytes of
        Some (Inr (p, h')) \<Rightarrow>
          if p = 0 \<or> p = h_base h then Some (None, h')
          else let x = ptr_index h p in Some (Some (x, - h_array h' x), h')
      | _ \<Rightarrow> None)"

definition kdealloc :: "int \<times> int \<Rightarrow> heap \<Rightarrow> heap option" where
  "kdealloc b h = (case heap_free h (elem_addr h (fst b + 1)) of Inr h' \<Rightarrow> Some h' | Inl _ \<Rightarrow> None)"

definition kstore :: "int \<Rightarrow> int \<Rightarrow> heap \<Rightarrow> heap" where
  "kstore k v h = set_array h k v"

text \<open>The size of the block \<open>malloc\<close> makes of a free block of \<open>z\<close> ints.\<close>

definition carved :: "int \<Rightarrow> int \<Rightarrow> int" where
  "carved n z = (if z - n \<ge> 4 then n else z)"

lemma carve_head: "carve n z = (- carved n z) # (if z - n \<ge> 4 then [z - n] else [])"
  by (simp add: carve_def carved_def)

lemma kalloc_cases:
  assumes ok: "heap_ok h bs fl"
  obtains (none) "kalloc bytes h = Some (None, h)"
  | (some) xs z ys h' fl' where "bs = xs @ z # ys" "malloc_ints bytes \<le> z" "bytes \<noteq> 0"
      "malloc h bytes = Some (Inr (elem_addr h (3 + span xs), h'))"
      "kalloc bytes h = Some (Some (2 + span xs, carved (malloc_ints bytes) z), h')"
      "heap_ok h' (xs @ carve (malloc_ints bytes) z @ ys) fl'"
      "touches fl (2 + span xs) (2 + span xs + z) h h'"
proof (cases "bytes = 0")
  case True
  then show ?thesis using none by (simp add: kalloc_def malloc_def)
next
  case False
  let ?cs = "candidates h (malloc_ints bytes) fl"
  show ?thesis
  proof (cases "?cs = []")
    case True
    then show ?thesis using malloc_spec(1) [OF ok False] none by (simp add: kalloc_def)
  next
    case ne: False
    obtain xs z ys h' fl' where w: "bs = xs @ z # ys" "malloc_ints bytes \<le> z"
      "malloc h bytes = Some (Inr (elem_addr h (3 + span xs), h'))"
      "heap_ok h' (xs @ carve (malloc_ints bytes) z @ ys) fl'"
      "touches fl (2 + span xs) (2 + span xs + z) h h'"
      using malloc_spec(2) [OF ok False refl ne] by blast
    note P = payload_ptr [OF ok [unfolded w(1)]]
    have "tiled (h_array h') (2 + span xs) (carve (malloc_ints bytes) z @ ys)"
      using heap_ok_tiled [OF w(4)] by simp
    then have "h_array h' (2 + span xs) = - carved (malloc_ints bytes) z"
      unfolding carve_head by simp
    then have "kalloc bytes h = Some (Some (2 + span xs, carved (malloc_ints bytes) z), h')"
      using w(3) P by (simp add: kalloc_def Let_def)
    with w False show ?thesis by (intro some)
  qed
qed

lemma carved_bounds: "4 \<le> n \<Longrightarrow> n \<le> z \<Longrightarrow> n \<le> carved n z \<and> carved n z \<le> z \<and> carved n z \<le> n + 3"
  by (auto simp: carved_def)

lemma takens_carve:
  assumes "4 \<le> n" "n \<le> z"
  shows "takens i (xs @ carve n z @ ys) =
    insert (i + span xs, carved n z) (takens i (xs @ z # ys))"
  using assms by (auto simp: carve_def carved_def algebra_simps)

lemma takens_coalesce:
  assumes "z < 0"
  shows "takens i (xs @ z # ys) = insert (i + span xs, - z) (takens i (coalesce xs (- z) ys))"
    and "(i + span xs, - z) \<notin> takens i (coalesce xs (- z) ys)"
proof -
  have L: "takens i (left_rest xs) = takens i xs" "span (left_rest xs) + left_gap xs = span xs"
    using left_parts [of xs] by (cases xs rule: rev_cases; simp add: left_rest_def)+
  have R: "takens (j + right_gap ys) (right_rest ys) = takens j ys" for j
    by (cases ys) (auto simp: right_rest_def right_gap_def)
  have "0 < left_gap xs + - z + right_gap ys"
    using assms gaps_nonneg(1) [of xs] gaps_nonneg(2) [of ys] by linarith
  then have "takens i (coalesce xs (- z) ys) = takens i (left_rest xs) \<union>
      takens (i + span (left_rest xs) + (left_gap xs + - z + right_gap ys)) (right_rest ys)"
    by (simp add: coalesce_def)
  also have "i + span (left_rest xs) + (left_gap xs + - z + right_gap ys) = (i + span xs - z) + right_gap ys"
    using L(2) by linarith
  finally have E: "takens i (coalesce xs (- z) ys) = takens i xs \<union> takens (i + span xs - z) ys"
    using L(1) R by simp
  then show "takens i (xs @ z # ys) = insert (i + span xs, - z) (takens i (coalesce xs (- z) ys))"
    using assms by auto
  show "(i + span xs, - z) \<notin> takens i (coalesce xs (- z) ys)"
    unfolding E using assms takens_range [of "i + span xs" "- z" i xs]
      takens_range [of "i + span xs" "- z" "i + span xs - z" ys] by auto
qed

text \<open>The blocks next to a live block that its \<open>free\<close> swallows are not live.\<close>

lemma live_away:
  assumes "big 4 (xs @ z # ys)" "z < 0" "(y, n) \<in> takens 2 (xs @ z # ys)" "(y, n) \<noteq> (2 + span xs, - z)"
  shows "y + n \<le> 2 + span xs - left_gap xs \<or> 2 + span xs - z + right_gap ys \<le> y"
proof -
  have "(y, n) \<in> takens 2 xs \<or> (y, n) \<in> takens (2 + span xs - z) ys"
    using assms(2-4) by auto
  then show ?thesis
  proof
    assume "(y, n) \<in> takens 2 xs"
    then have "(y, n) \<in> takens 2 (left_rest xs)"
      by (cases xs rule: rev_cases) (auto simp: left_rest_def split: if_splits)
    then have "y + n \<le> 2 + span (left_rest xs)" using takens_range by blast
    then show ?thesis using left_parts [of xs] by linarith
  next
    assume a: "(y, n) \<in> takens (2 + span xs - z) ys"
    have "2 + span xs - z + right_gap ys \<le> y"
    proof (cases "ys \<noteq> [] \<and> hd ys > 0")
      case True
      then obtain w ws where "ys = w # ws" "w > 0" by (cases ys) auto
      then show ?thesis using a takens_range [of y n "2 + span xs - z + w" ws]
        by (auto simp: right_gap_def)
    next
      case False
      then show ?thesis using takens_range [OF a] by (auto simp: right_gap_def)
    qed
    then show ?thesis ..
  qed
qed

text \<open>
  The interface of a heap of at most \<open>mx\<close> ints whose blocks tile it: an allocation takes one free
  block that is large enough and splits it, a release merges the block with its free neighbours. The kernel
  heap and the user heap choose different free blocks, but this is all a client relies on.
\<close>

locale tiled_heap =
  fixes mx :: int
    and alloc :: "u32 \<Rightarrow> heap \<Rightarrow> ((int \<times> int) option \<times> heap) option"
    and dealloc :: "int \<times> int \<Rightarrow> heap \<Rightarrow> heap option"
  assumes alloc_tiles: "heap_ok h bs fl \<Longrightarrow> h_len h \<le> mx \<Longrightarrow>
      alloc r h = Some (None, h) \<or>
      (\<exists>xs z ys h' fl'. bs = xs @ z # ys \<and> malloc_ints r \<le> z \<and>
         alloc r h = Some (Some (2 + span xs, carved (malloc_ints r) z), h') \<and>
         heap_ok h' (xs @ carve (malloc_ints r) z @ ys) fl' \<and>
         touches fl (2 + span xs) (2 + span xs + z) h h')"
    and dealloc_tiles: "heap_ok h (xs @ z # ys) fl \<Longrightarrow> h_len h \<le> mx \<Longrightarrow> z < 0 \<Longrightarrow>
      \<exists>h' fl'. dealloc (2 + span xs, - z) h = Some h' \<and> heap_ok h' (coalesce xs (- z) ys) fl' \<and>
         touches fl (2 + span xs - left_gap xs) (2 + span xs - z + right_gap ys) h h'"
begin

lemma alloc_cases:
  assumes "heap_ok h bs fl" "h_len h \<le> mx"
  obtains (none) "alloc r h = Some (None, h)"
  | (some) xs z ys h' fl' where "bs = xs @ z # ys" "malloc_ints r \<le> z"
      "alloc r h = Some (Some (2 + span xs, carved (malloc_ints r) z), h')"
      "heap_ok h' (xs @ carve (malloc_ints r) z @ ys) fl'"
      "touches fl (2 + span xs) (2 + span xs + z) h h'" "h_len h' = h_len h"
proof (cases "alloc r h = Some (None, h)")
  case False
  then obtain xs z ys h' fl' where w: "bs = xs @ z # ys" "malloc_ints r \<le> z"
    "alloc r h = Some (Some (2 + span xs, carved (malloc_ints r) z), h')"
    "heap_ok h' (xs @ carve (malloc_ints r) z @ ys) fl'" "touches fl (2 + span xs) (2 + span xs + z) h h'"
    using alloc_tiles [OF assms, of r] by blast
  moreover have "h_len h' = h_len h"
    using heap_ok_len [OF assms(1)] heap_ok_len [OF w(4)] w(1,2) malloc_ints_ge [of r] by (simp add: carve_def)
  ultimately show ?thesis by (rule some)
qed (rule none)

lemma dealloc_live:
  assumes ok: "heap_ok h bs fl" "h_len h \<le> mx" and b: "b \<in> takens 2 bs"
  obtains h' fl' xs z ys where "bs = xs @ z # ys" "b = (2 + span xs, - z)" "z < 0"
    and "dealloc b h = Some h'" "heap_ok h' (coalesce xs (- z) ys) fl'"
    and "touches fl (2 + span xs - left_gap xs) (2 + span xs - z + right_gap ys) h h'" "h_len h' = h_len h"
proof -
  obtain xs ys where w: "bs = xs @ (- snd b) # ys" "fst b = 2 + span xs" "0 < snd b"
    using b takens_split [of "fst b" "snd b" 2 bs] by auto
  obtain h' fl' where h': "dealloc (2 + span xs, - (- snd b)) h = Some h'"
    "heap_ok h' (coalesce xs (- (- snd b)) ys) fl'"
    "touches fl (2 + span xs - left_gap xs) (2 + span xs - (- snd b) + right_gap ys) h h'"
    using dealloc_tiles [OF ok(1) [unfolded w(1)] ok(2)] w(3) by auto
  have "span (coalesce xs (snd b) ys) = span bs"
    using w(1,3) left_parts [of xs] right_parts [of ys] gaps_nonneg(1) [of xs] gaps_nonneg(2) [of ys]
    by (simp add: coalesce_def)
  then have "h_len h' = h_len h" using heap_ok_len [OF h'(2)] heap_ok_len [OF ok(1)] by simp
  moreover have "b = (2 + span xs, snd b)" using w(2) by (simp add: prod_eq_iff)
  ultimately show ?thesis using w h' by (intro that [of xs "- snd b" ys h' fl']) (auto simp: algebra_simps)
qed

end

sublocale tiled_heap \<subseteq> allocator "\<lambda>h. heap_inv h \<and> h_len h \<le> mx" heap_live payload h_array alloc dealloc kstore
proof
  fix s r
  assume "heap_inv s \<and> h_len s \<le> mx"
  then obtain bs fl where ok: "heap_ok s bs fl" "h_len s \<le> mx" by (auto simp: heap_inv_def)
  show "\<exists>b s'. alloc r s = Some (b, s')" by (rule alloc_cases [OF ok, of r]) auto
next
  fix s r s'
  assume "heap_inv s \<and> h_len s \<le> mx" and a: "alloc r s = Some (None, s')"
  then obtain bs fl where ok: "heap_ok s bs fl" "h_len s \<le> mx" by (auto simp: heap_inv_def)
  show "s' = s" by (rule alloc_cases [OF ok, of r]) (use a in auto)
next
  fix s r b s'
  assume "heap_inv s \<and> h_len s \<le> mx" and a: "alloc r s = Some (Some b, s')"
  then obtain bs fl where ok: "heap_ok s bs fl" "h_len s \<le> mx" by (auto simp: heap_inv_def)
  show "(heap_inv s' \<and> h_len s' \<le> mx) \<and> b \<notin> heap_live s \<and> heap_live s' = insert b (heap_live s)"
  proof (cases rule: alloc_cases [OF ok, of r])
    case (2 xs z ys h' fl')
    note n = malloc_ints_ge [of r] 2(2)
    have "b \<notin> takens 2 bs"
      using 2(1,3) a n carved_bounds [OF n] takens_range [of "2 + span xs" "carved (malloc_ints r) z" 2 xs]
        takens_range [of "2 + span xs" "carved (malloc_ints r) z" "2 + span xs + z" ys] by auto
    then show ?thesis
      using 2 a ok takens_carve [OF n, of 2 xs ys]
      by (auto simp: heap_inv_def heap_live_eq)
  qed (use a in auto)
next
  fix s r b s' c k
  assume "heap_inv s \<and> h_len s \<le> mx" and a: "alloc r s = Some (Some b, s')"
    and c: "c \<in> heap_live s" "k \<in> payload c"
  then obtain bs fl where ok: "heap_ok s bs fl" "h_len s \<le> mx" by (auto simp: heap_inv_def)
  show "h_array s' k = h_array s k"
  proof (cases rule: alloc_cases [OF ok, of r])
    case (2 xs z ys h' fl')
    obtain y n where yn: "c = (y, n)" by (cases c)
    have l: "(y, n) \<in> takens 2 bs" using c(1) yn heap_live_eq [OF ok(1)] by simp
    have z: "z > 0" using 2(2) malloc_ints_ge [of r] by linarith
    then have "(y, n) \<in> takens 2 xs \<or> (y, n) \<in> takens (2 + span xs + z) ys"
      using l 2(1) by auto
    then have "y + n \<le> 2 + span xs \<or> 2 + span xs + z \<le> y" using takens_range by blast
    then show ?thesis
      using live_untouched [OF ok(1) 2(5) l] c(2) yn a 2(3) by (auto simp: payload_def)
  qed (use a in auto)
next
  fix s b
  assume "heap_inv s \<and> h_len s \<le> mx" and b: "b \<in> heap_live s"
  then obtain bs fl where ok: "heap_ok s bs fl" "h_len s \<le> mx" by (auto simp: heap_inv_def)
  have bt: "b \<in> takens 2 bs" using b heap_live_eq [OF ok(1)] by simp
  obtain h' fl' xs z ys where d: "bs = xs @ z # ys" "b = (2 + span xs, - z)" "z < 0"
    "dealloc b s = Some h'" "heap_ok h' (coalesce xs (- z) ys) fl'"
    "touches fl (2 + span xs - left_gap xs) (2 + span xs - z + right_gap ys) s h'" "h_len h' = h_len s"
    by (rule dealloc_live [OF ok bt])
  have big: "big 4 (xs @ z # ys)" using ok(1) d(1) by (simp add: heap_ok_def heap_hole_def)
  have "h_array h' k = h_array s k" if "c \<in> takens 2 bs" "c \<noteq> b" "k \<in> payload c" for c k
    using that live_away [OF big d(3), of "fst c" "snd c"] live_untouched [OF ok(1) d(6), of "fst c" "snd c" k] d(1,2)
    by (auto simp: payload_def)
  moreover have "takens 2 (coalesce xs (- z) ys) = takens 2 bs - {b}"
    using takens_coalesce [OF d(3), of 2 xs ys] d(1,2) by auto
  ultimately show "\<exists>s'. dealloc b s = Some s' \<and> (heap_inv s' \<and> h_len s' \<le> mx) \<and> heap_live s' = heap_live s - {b} \<and>
      (\<forall>c \<in> heap_live s - {b}. \<forall>k \<in> payload c. h_array s' k = h_array s k)"
    using d(4,5,7) ok by (auto simp: heap_inv_def heap_live_eq)
next
  fix s b k v
  assume "heap_inv s \<and> h_len s \<le> mx" and b: "b \<in> heap_live s" and k: "k \<in> payload b"
  then obtain bs fl where ok: "heap_ok s bs fl" "h_len s \<le> mx" by (auto simp: heap_inv_def)
  have "b \<in> takens 2 bs" using b heap_live_eq [OF ok(1)] by simp
  then have "heap_ok (kstore k v s) bs fl"
    using heap_store_ok [OF ok(1), of "fst b" "snd b" k v] k by (simp add: kstore_def)
  then show "(heap_inv (kstore k v s) \<and> h_len (kstore k v s) \<le> mx) \<and> heap_live (kstore k v s) = heap_live s \<and>
      h_array (kstore k v s) = (h_array s)(k := v)"
    using ok by (auto simp: heap_inv_def heap_live_eq kstore_def set_array_def)
next
  fix s b c
  assume "heap_inv s \<and> h_len s \<le> mx" "b \<in> heap_live s" "c \<in> heap_live s" "b \<noteq> c"
  moreover obtain bs fl where "heap_ok s bs fl" using calculation(1) by (auto simp: heap_inv_def)
  ultimately show "payload b \<inter> payload c = {}" by (auto simp: heap_live_eq dest: takens_disjoint)
qed

text \<open>The kernel heap; the bound is the one that follows from its invariant.\<close>

interpretation kernel_heap: tiled_heap "2 ^ 30" kalloc kdealloc
proof (unfold_locales, goal_cases)
  case (1 h bs fl r)
  show ?case by (cases rule: kalloc_cases [OF 1(1), of r]) (use 1 in auto)
next
  case (2 h xs z ys fl)
  obtain h' fl' where "heap_free h (elem_addr h (3 + span xs)) = Inr h'" "heap_ok h' (coalesce xs (- z) ys) fl'"
    "touches fl (2 + span xs - left_gap xs) (2 + span xs - z + right_gap ys) h h'"
    by (rule heap_free_spec [OF 2(1,3)])
  then show ?case by (auto simp: kdealloc_def)
qed

lemma heap_inv_len: "heap_inv h \<Longrightarrow> h_len h \<le> 2 ^ 30"
  using heap_ok_len by (auto simp: heap_inv_def)

section \<open>Properties\<close>

text \<open>A small heap: 32 ints at address 0x1000, all but the sentinels free.\<close>

definition demo_heap :: heap where
  "demo_heap = heap_carve (\<lambda>_. 0) 0x1000 128"

lemma demo_heap_ok: "heap_ok demo_heap [28] [2]"
  using heap_carve_ok [of "0x1000" 128] by (simp add: demo_heap_def)

text \<open>The same with two blocks of six ints taken, and the rest free.\<close>

definition demo_held :: heap where
  "demo_held = \<lparr>h_array = (\<lambda>_. 0)(0 := -2, 1 := -2, 2 := -6, 7 := -6, 8 := -6, 13 := -6,
      14 := 16, 29 := 16, 30 := -2, 31 := -2),
    h_len = 32, h_safe = 0, h_avail = 14, h_base = 0x1000\<rparr>"

lemma demo_held_ok: "heap_ok demo_held [-6, -6, 16] [14]"
  by (simp add: demo_held_def heap_ok_def heap_hole_def dll_def)

lemma demo_held_live: "heap_live demo_held = {(2, 6), (8, 6)}"
  using heap_live_eq [OF demo_held_ok] by auto

lemma demo_candidates: "candidates demo_heap (malloc_ints 8) [2] = [2]"
proof -
  have "h_array demo_heap 2 = 28" using heap_ok_tiled [OF demo_heap_ok] by simp
  then show ?thesis by (simp add: candidates_def malloc_ints_def Let_def)
qed

lemma demo_base: "h_base demo_heap = 0x1000"
  by (simp add: demo_heap_def heap_carve_def makeTaken_def makeAvail_def setNext_def setPrev_def
    set_array_def Let_def)

lemma demo_malloc: "\<exists>h'. malloc demo_heap 8 = Some (Inr (0x100C, h')) \<and> h_base h' = 0x1000"
proof -
  have c: "candidates demo_heap (malloc_ints 8) [2] \<noteq> []" by (simp add: demo_candidates)
  obtain xs z ys h' where w: "[28] = xs @ z # ys"
    "malloc demo_heap 8 = Some (Inr (elem_addr demo_heap (3 + span xs), h'))" "h_base h' = h_base demo_heap"
    using malloc_spec(2) [OF demo_heap_ok _ refl c] unfolding touches_def by fastforce
  note base = demo_base
  from w have "xs = []" by (cases xs) auto
  then show ?thesis using w(2,3) base by (simp add: elem_addr_def)
qed

text \<open>
  C2. From any well-formed heap, a fair trace of \<open>malloc\<close>, \<open>free\<close> and payload stores runs without a
  panic to a well-formed heap, and a live block the trace neither frees nor writes is still live and
  has the same contents.
\<close>

theorem heap_trace:
  assumes "heap_inv h" "fair_run heap_live payload kalloc kdealloc kstore ops h"
    and "b \<in> heap_live h" "list_all (spares b) ops"
  shows "\<exists>h'. client_run kalloc kdealloc kstore ops h = Some h' \<and> heap_inv h' \<and>
    b \<in> heap_live h' \<and> (\<forall>k \<in> payload b. h_array h' k = h_array h k)"
  using kernel_heap.run_spares [OF _ assms(2-4)] assms(1) heap_inv_len by blast

lemma demo_fair: "fair_run heap_live payload kalloc kdealloc kstore
    [Store (8, 6) 10 7, Dealloc (8, 6)] demo_held"
proof -
  have "heap_inv demo_held" using demo_held_ok by (auto simp: heap_inv_def)
  then have "heap_live (kstore 10 7 demo_held) = heap_live demo_held"
    using kernel_heap.store_ok [of demo_held "(8, 6)" 10 7] heap_inv_len [of demo_held]
    by (simp add: demo_held_live payload_def)
  then show ?thesis by (simp add: demo_held_live payload_def split: option.split)
qed

lemma heap_trace_witness:
  "\<exists>h'. client_run kalloc kdealloc kstore [Store (8, 6) 10 7, Dealloc (8, 6)] demo_held = Some h' \<and>
    (2, 6) \<in> heap_live h'"
  using heap_trace [OF _ demo_fair, of "(2, 6)"] demo_held_ok demo_held_live
  by (auto simp: heap_inv_def)

text \<open>
  \<open>heapInit\<close> on a range of at least 32 bytes that does not wrap and does not start at null: the
  carved array is well-formed, with one free block between the sentinels, and the allocation of the
  lock returns without a panic when the range has room for it.
\<close>

theorem heapInit_ok:
  assumes "0 < uint base" "uint base + uint bytes \<le> 2 ^ 32" "32 \<le> uint bytes"
    and "lock_size \<noteq> 0" "malloc_ints lock_size + 4 \<le> uint (bytes div 4)"
  shows "heap_ok (heap_carve m base bytes) [uint (bytes div 4) - 4] [2] \<and>
    (\<exists>p h'. heapInit m base bytes lock_size = Some (Inr (p, h')) \<and> p \<noteq> 0 \<and> heap_inv h')"
proof -
  let ?h = "heap_carve m base bytes"
  have ok: "heap_ok ?h [uint (bytes div 4) - 4] [2]" by (rule heap_carve_ok [OF assms(1-3)])
  have "h_array ?h 2 = uint (bytes div 4) - 4"
    using heap_ok_tiled [OF ok] by simp
  then have "candidates ?h (malloc_ints lock_size) [2] \<noteq> []"
    using assms(5) by (simp add: candidates_def)
  from malloc_spec(2) [OF ok assms(4) refl this] obtain xs z ys h' fl' where
    w: "[uint (bytes div 4) - 4] = xs @ z # ys"
    "malloc ?h lock_size = Some (Inr (elem_addr ?h (3 + span xs), h'))"
    "heap_ok h' (xs @ carve (malloc_ints lock_size) z @ ys) fl'" by blast
  have "elem_addr ?h (3 + span xs) \<noteq> 0" by (rule payload_ptr(1) [OF ok [unfolded w(1)]])
  then show ?thesis
    using ok w(2,3) by (auto simp: heapInit_def op_new_def heap_inv_def)
qed

lemma heapInit_ok_witness:
  "\<exists>p h'. heapInit (\<lambda>_. 0) 0x100000 0x500000 12 = Some (Inr (p, h')) \<and> p \<noteq> 0 \<and> heap_inv h'"
  using heapInit_ok [of "0x100000" "0x500000" 12 "\<lambda>_. 0"] by (simp add: malloc_ints_def Let_def)

text \<open>
  C16. \<open>malloc\<close> terminates and is a best fit among the first twenty free blocks that are large
  enough: with no such block it returns null and changes nothing, otherwise it takes one of minimal
  size among them, splits off the rest when it is at least four ints, returns the address of its
  payload, and writes only inside that block and links of free blocks.
\<close>

theorem malloc_best_fit:
  assumes "heap_ok h bs fl" "bytes \<noteq> 0"
  shows "if candidates h (malloc_ints bytes) fl = [] then malloc h bytes = Some (Inr (0, h))
    else \<exists>xs z ys h' fl'. bs = xs @ z # ys \<and> 2 + span xs \<in> set (candidates h (malloc_ints bytes) fl) \<and>
       malloc_ints bytes \<le> z \<and> (\<forall>c \<in> set (candidates h (malloc_ints bytes) fl). z \<le> h_array h c) \<and>
       malloc h bytes = Some (Inr (elem_addr h (3 + span xs), h')) \<and>
       heap_ok h' (xs @ carve (malloc_ints bytes) z @ ys) fl' \<and>
       touches fl (2 + span xs) (2 + span xs + z) h h'"
  using malloc_spec [OF assms refl] by simp

lemma malloc_best_fit_witness: "malloc demo_heap 8 \<noteq> Some (Inr (0, demo_heap))"
  using malloc_best_fit [OF demo_heap_ok, of 8] payload_ptr(1) [of demo_heap] demo_heap_ok demo_candidates
  by fastforce

lemma malloc_ints_room:
  assumes "bytes \<le> 0xFFFFFFFC"
  shows "uint bytes \<le> 4 * (malloc_ints bytes - 2)"
proof -
  have u: "uint bytes \<le> 0xFFFFFFFC" using assms by (simp add: word_le_def)
  then have "uint (bytes + 3) = uint bytes + 3" by (simp add: uint_word_ariths)
  then have v: "uint ((bytes + 3) div 4) = (uint bytes + 3) div 4" by (simp add: uint_div)
  moreover have "(uint bytes + 3) div 4 + 2 < 2 ^ 32" using u by simp
  moreover have "0 \<le> (uint bytes + 3) div 4 + 2" using uint_ge_0 [of bytes] by linarith
  ultimately have w: "uint ((bytes + 3) div 4 + 2) = (uint bytes + 3) div 4 + 2"
    by (simp only: uint_word_ariths) (simp add: mod_pos_pos_trivial)
  moreover have "0 \<le> (uint bytes + 3) div 4" "(uint bytes + 3) div 4 \<le> 0x3FFFFFFF"
    using u uint_ge_0 [of bytes] by linarith+
  ultimately have "sint ((bytes + 3) div 4 + 2) = (uint bytes + 3) div 4 + 2"
    by (simp add: sint_uint signed_take_bit_int_eq_self_iff)
  moreover have "uint bytes \<le> 4 * ((uint bytes + 3) div 4)" by linarith
  ultimately show ?thesis by (simp add: malloc_ints_def Let_def)
qed

text \<open>
  The block \<open>malloc\<close> returns has room for the bytes asked for, provided \<open>bytes + 3\<close> does not
  wrap: its payload is everything but the two tags. For the three sizes where it wraps, the search
  is for the smallest block.
\<close>

theorem malloc_room:
  assumes "heap_inv h" "kalloc bytes h = Some (Some (x, n), h')"
  shows "if bytes \<le> 0xFFFFFFFC then uint bytes \<le> 4 * (n - 2) \<and> card (payload (x, n)) = nat (n - 2)
    else malloc_ints bytes = 4"
proof (cases "bytes \<le> 0xFFFFFFFC")
  case True
  obtain bs fl where ok: "heap_ok h bs fl" using assms(1) by (auto simp: heap_inv_def)
  have "uint bytes \<le> 4 * (malloc_ints bytes - 2)" by (rule malloc_ints_room [OF True])
  moreover have "malloc_ints bytes \<le> n"
  proof (cases rule: kalloc_cases [OF ok, of bytes])
    case 1
    then show ?thesis using assms(2) by simp
  next
    case (2 xs z ys h' fl')
    then show ?thesis
      using assms(2) carved_bounds [OF malloc_ints_ge 2(2)] by auto
  qed
  ultimately show ?thesis using True by (simp add: payload_def)
next
  case False
  then have "bytes = 0xFFFFFFFD \<or> bytes = 0xFFFFFFFE \<or> bytes = 0xFFFFFFFF"
  proof -
    have "0xFFFFFFFC < uint bytes" "uint bytes < 2 ^ 32"
      using False uint_bounded [of bytes] by (auto simp: word_le_def)
    then have "uint bytes = 0xFFFFFFFD \<or> uint bytes = 0xFFFFFFFE \<or> uint bytes = 0xFFFFFFFF" by auto
    then show ?thesis
      by (simp add: word_uint_eq_iff)
  qed
  then have "malloc_ints bytes = 4"
    by (auto simp: malloc_ints_def Let_def)
  then show ?thesis using False by simp
qed

lemma malloc_room_witness: "\<exists>x n h'. kalloc 8 demo_heap = Some (Some (x, n), h') \<and> 8 \<le> 4 * (n - 2)"
proof -
  obtain h' where "malloc demo_heap 8 = Some (Inr (0x100C, h'))" "h_base h' = 0x1000"
    using demo_malloc by blast
  then obtain x n where "kalloc 8 demo_heap = Some (Some (x, n), h')"
    by (simp add: kalloc_def Let_def demo_base)
  moreover from this have "8 \<le> 4 * (n - 2)"
    using malloc_room [of demo_heap 8 x n h'] demo_heap_ok by (auto simp: heap_inv_def)
  ultimately show ?thesis by blast
qed

text \<open>
  C17. \<open>free\<close> of a live block succeeds and coalesces: the block, its left neighbour if free and its
  right neighbour if free become one free block, the rest of the tiling is as it was, and no two
  free blocks are adjacent.
\<close>

theorem free_coalesces:
  assumes "heap_ok h (xs @ z # ys) fl" "z < 0"
  shows "\<exists>h' fl'. heap_free h (elem_addr h (3 + span xs)) = Inr h' \<and>
    heap_ok h' (coalesce xs (- z) ys) fl' \<and>
    touches fl (2 + span xs - left_gap xs) (2 + span xs - z + right_gap ys) h h'"
  by (rule heap_free_spec [OF assms]) blast

lemma free_coalesces_witness:
  "\<exists>h' fl'. heap_free demo_held 0x1024 = Inr h' \<and> heap_ok h' [-6, 22] fl'"
  using free_coalesces [of demo_held "[-6]" "-6" "[16]" "[14]"] demo_held_ok
  by (auto simp: coalesce_def left_rest_def left_gap_def right_gap_def right_rest_def
    elem_addr_def demo_held_def)

text \<open>Freeing what \<open>malloc\<close> has just returned restores the tiling of the heap before it.\<close>

theorem malloc_free_roundtrip:
  assumes ok: "heap_ok h bs fl" and m: "malloc h bytes = Some (Inr (p, h'))"
  shows "\<exists>h'' fl''. heap_free h' p = Inr h'' \<and> heap_ok h'' bs fl''"
proof (cases "bytes = 0 \<or> candidates h (malloc_ints bytes) fl = []")
  case True
  then have "h' = h \<and> (p = 0 \<or> p = h_base h)"
  proof (cases "bytes = 0")
    case True
    then have "h_base h = p" "h = h'" using m by (auto simp: malloc_def)
    then show ?thesis by simp
  next
    case False
    then show ?thesis using malloc_spec(1) [OF ok False refl] True m by simp
  qed
  then show ?thesis using ok by (auto simp: heap_free_def)
next
  case False
  from malloc_spec(2) [OF ok _ refl] False obtain xs z ys h1 fl' where w: "bs = xs @ z # ys"
    "malloc_ints bytes \<le> z" "malloc h bytes = Some (Inr (elem_addr h (3 + span xs), h1))"
    "heap_ok h1 (xs @ carve (malloc_ints bytes) z @ ys) fl'"
    "touches fl (2 + span xs) (2 + span xs + z) h h1" by blast
  have h1: "h1 = h'" "p = elem_addr h' (3 + span xs)"
    using w(3,5) m by (auto simp: elem_addr_def touches_def)
  let ?c = "carved (malloc_ints bytes) z"
  have c: "4 \<le> ?c" using carved_bounds [OF malloc_ints_ge w(2)] malloc_ints_ge [of bytes] by linarith
  let ?rest = "(if z - malloc_ints bytes \<ge> 4 then [z - malloc_ints bytes] else []) @ ys"
  have "heap_ok h' (xs @ (- ?c) # ?rest) fl'" using w(4) h1 by (simp add: carve_head)
  then obtain h'' fl'' where f: "heap_free h' (elem_addr h' (3 + span xs)) = Inr h''"
    "heap_ok h'' (coalesce xs (- (- ?c)) ?rest) fl''"
    by (rule heap_free_spec) (use c in auto)
  have "no_adj (xs @ z # ys)" "0 < z" using ok w(1,2) malloc_ints_ge [of bytes] by (auto simp: heap_ok_def)
  then have "left_gap xs = 0" "left_rest xs = xs" "right_gap ys = 0" "right_rest ys = ys"
    by (auto simp: no_adj_append no_adj_Cons left_gap_def left_rest_def right_gap_def right_rest_def)
  then have "coalesce xs (- (- ?c)) ?rest = bs"
    by (auto simp: coalesce_def w(1) carved_def right_gap_def right_rest_def)
  then show ?thesis using f h1 by auto
qed

lemma malloc_free_roundtrip_witness:
  "\<exists>p h' h'' fl''. malloc demo_heap 8 = Some (Inr (p, h')) \<and> heap_free h' p = Inr h'' \<and> heap_ok h'' [28] fl''"
proof -
  obtain p h' where "malloc demo_heap 8 = Some (Inr (p, h'))"
    using malloc_spec [OF demo_heap_ok _ refl, of 8] by fastforce
  then show ?thesis using malloc_free_roundtrip [OF demo_heap_ok] by blast
qed

text \<open>
  A second \<open>free\<close> of a block panics when the block to its left was not free at the first: its
  header then starts the merged free block. (Otherwise the stale negative header of the block is
  still in the middle of the merged block, and the check does not see the second \<open>free\<close>.)
\<close>

theorem double_free_panics:
  assumes "heap_ok h (xs @ z # ys) fl" "z < 0" "left_gap xs = 0" "h_safe h = 0"
    and "heap_free h (elem_addr h (3 + span xs)) = Inr h'"
  shows "heap_free h' (elem_addr h (3 + span xs)) = Inl (Panic ''freeing free block'')"
proof -
  obtain h1 fl' where w: "heap_free h (elem_addr h (3 + span xs)) = Inr h1"
    "heap_ok h1 (coalesce xs (- z) ys) fl'"
    "touches fl (2 + span xs - left_gap xs) (2 + span xs - z + right_gap ys) h h1"
    by (rule heap_free_spec [OF assms(1,2)])
  have eq: "h1 = h'" "elem_addr h (3 + span xs) = elem_addr h' (3 + span xs)"
    using w(1,3) assms(5) by (auto simp: touches_def elem_addr_def)
  have "left_rest xs = xs" using assms(3) by (auto simp: left_gap_def left_rest_def split: if_splits)
  then have ok: "heap_ok h' (xs @ (right_gap ys - z) # right_rest ys) fl'"
    using w(2) eq assms(3) by (simp add: coalesce_def)
  have "0 < right_gap ys - z" using gaps_nonneg(2) [of ys] assms(2) by linarith
  moreover have "h_array h' (2 + span xs) = right_gap ys - z" using heap_ok_tiled [OF ok] by simp
  moreover have "h_safe h' = 0" using w(3) eq assms(4) by (simp add: touches_def)
  ultimately show ?thesis
    using payload_ptr [OF ok] eq(2) by (simp add: heap_free_def isTaken_def sanity_def Let_def)
qed

lemma double_free_panics_witness:
  "\<exists>h'. heap_free demo_held 0x1024 = Inr h' \<and>
    heap_free h' 0x1024 = Inl (Panic ''freeing free block'')"
proof -
  have ok: "heap_ok demo_held ([-6] @ (-6) # [16]) [14]" using demo_held_ok by simp
  have a: "elem_addr demo_held (3 + span [-6]) = 0x1024" by (simp add: elem_addr_def demo_held_def)
  obtain h' fl' where "heap_free demo_held 0x1024 = Inr h'"
    using heap_free_spec [OF ok] a by auto
  then show ?thesis
    using double_free_panics [OF ok, of h'] a by (simp add: left_gap_def demo_held_def)
qed

end
