(* ===== verification/PhysMem.thy ===== *)
theory PhysMem
  imports Allocators
begin

text \<open>
  The physical frame allocator of \<open>kernel/physmem.h\<close> and \<open>kernel/physmem.cc\<close>: frames that were never
  used are taken from \<open>avail\<close> upwards, frames that were returned are threaded on a list through their
  first word. The operations are the bodies run while \<open>lock\<close> is held.
\<close>

section \<open>The code\<close>

definition FRAME_SIZE :: u32 where
  "FRAME_SIZE = 0x1000"

definition offset :: "u32 \<Rightarrow> u32" where
  "offset pa = pa AND 0xFFF"

definition ppn :: "u32 \<Rightarrow> u32" where
  "ppn pa = drop_bit 12 pa"

definition framedown :: "u32 \<Rightarrow> u32" where
  "framedown pa = (pa div FRAME_SIZE) * FRAME_SIZE"

definition frameup :: "u32 \<Rightarrow> u32" where
  "frameup pa = framedown (pa + FRAME_SIZE - 1)"

text \<open>Physical memory as its 32-bit words, and the three static variables.\<close>

record phys =
  pm_mem :: "u32 \<Rightarrow> u32"
  firstFree :: u32
  pm_avail :: u32
  pm_limit :: u32

definition read32 :: "phys \<Rightarrow> u32 \<Rightarrow> u32" where
  "read32 s a = pm_mem s a"

definition write32 :: "u32 \<Rightarrow> u32 \<Rightarrow> phys \<Rightarrow> phys" where
  "write32 a v s = s\<lparr>pm_mem := (pm_mem s)(a := v)\<rparr>"

definition bzero_frame :: "u32 \<Rightarrow> phys \<Rightarrow> phys" where
  "bzero_frame p s = s\<lparr>pm_mem := (\<lambda>a. if a - p < FRAME_SIZE then 0 else pm_mem s a)\<rparr>"

definition take_frame :: "phys \<Rightarrow> (u32 \<times> phys) res" where
  "take_frame s =
     (if firstFree s \<noteq> 0 then Inr (firstFree s, s\<lparr>firstFree := read32 s (firstFree s)\<rparr>)
      else if pm_avail s = pm_limit s then Inl (Panic ''no more frames'')
      else Inr (pm_avail s, s\<lparr>pm_avail := pm_avail s + FRAME_SIZE\<rparr>))"

definition alloc_frame :: "phys \<Rightarrow> (u32 \<times> phys) res" where
  "alloc_frame s =
     rbind (take_frame s) (\<lambda>(p, s1).
     rbind (ASSERT (offset p = 0)) (\<lambda>_.
     Inr (p, bzero_frame p s1)))"

definition dealloc_frame :: "u32 \<Rightarrow> phys \<Rightarrow> phys res" where
  "dealloc_frame p s =
     rbind (ASSERT (offset p = 0)) (\<lambda>_.
     Inr ((write32 p (firstFree s) s)\<lparr>firstFree := p\<rparr>))"

text \<open>
  \<open>init\<close> on memory with contents \<open>m\<close>; the registration of the page fault handler is left out.
  \<open>kernelInit\<close> calls it with \<open>VMM_FRAMES\<close>, the end of the heap.
\<close>

definition physInit :: "(u32 \<Rightarrow> u32) \<Rightarrow> u32 \<Rightarrow> u32 \<Rightarrow> phys res" where
  "physInit m start sz =
     rbind (ASSERT (offset start = 0)) (\<lambda>_.
     rbind (ASSERT (offset sz = 0)) (\<lambda>_.
     Inr \<lparr>pm_mem = m, firstFree = 0, pm_avail = start, pm_limit = start + sz\<rparr>))"

definition VMM_FRAMES :: u32 where
  "VMM_FRAMES = 0x600000"

section \<open>Frames\<close>

lemma offset_mod: "offset p = p mod 0x1000"
proof -
  have "p AND mask 12 = take_bit 12 p" by (simp add: take_bit_eq_mask)
  also have "\<dots> = p mod 2 ^ 12" by (simp add: take_bit_eq_mod)
  finally show ?thesis by (simp add: offset_def mask_eq_exp_minus_1)
qed

lemma offset_uint: "uint (offset p) = uint p mod 0x1000"
  by (simp add: offset_mod uint_mod)

lemma offset_0_iff: "offset p = 0 \<longleftrightarrow> 0x1000 dvd uint p"
  using offset_uint [of p] by (auto simp: word_uint_eq_iff dvd_eq_mod_eq_0)

lemma ppn_uint: "uint (ppn p) = uint p div 0x1000"
  by (simp add: ppn_def drop_bit_eq_div uint_div)

lemma framedown_uint: "uint (framedown p) = 0x1000 * (uint p div 0x1000)"
proof -
  have "0x1000 * (uint p div 0x1000) \<le> uint p" "uint p < 2 ^ 32" using uint_bounded [of p] by auto
  then have "(uint p div 0x1000) * 0x1000 < 2 ^ 32" "0 \<le> (uint p div 0x1000) * 0x1000"
    by (linarith, simp add: pos_imp_zdiv_nonneg_iff)
  then have "(uint p div 0x1000) * 0x1000 mod 2 ^ 32 = (uint p div 0x1000) * 0x1000"
    by (rule mod_pos_pos_trivial [rotated])
  then show ?thesis
    by (simp add: framedown_def FRAME_SIZE_def uint_word_ariths uint_div mult.commute)
qed

text \<open>The words of a frame.\<close>

definition frame_words :: "u32 \<Rightarrow> u32 set" where
  "frame_words p = {a. ppn a = ppn p}"

lemma frame_words_disjoint:
  assumes "offset p = 0" "offset q = 0" "p \<noteq> q"
  shows "frame_words p \<inter> frame_words q = {}"
proof -
  obtain i j where ij: "uint p = 0x1000 * i" "uint q = 0x1000 * j"
    using assms(1,2) unfolding offset_0_iff dvd_def by blast
  then have "ppn p \<noteq> ppn q"
    using assms(3) by (auto simp: word_uint_eq_iff ppn_uint)
  then show ?thesis by (auto simp: frame_words_def)
qed

lemma in_frame_iff:
  assumes "offset p = 0"
  shows "a - p < FRAME_SIZE \<longleftrightarrow> a \<in> frame_words p"
proof -
  obtain k where k: "uint p = 0x1000 * k" using assms by (auto simp: offset_0_iff)
  have b: "0 \<le> uint a" "uint a < 2 ^ 32" "0 \<le> uint p" "uint p < 2 ^ 32"
    using uint_bounded [of a] uint_bounded [of p] by auto
  have "uint (a - p) = (uint a - uint p) mod 2 ^ 32" by (simp add: uint_word_ariths)
  also have "\<dots> = (if uint p \<le> uint a then uint a - uint p else uint a - uint p + 2 ^ 32)"
  proof (cases "uint p \<le> uint a")
    case True
    then have "(uint a - uint p) mod 2 ^ 32 = uint a - uint p"
      using b True by (intro mod_pos_pos_trivial) linarith+
    then show ?thesis using True by simp
  next
    case False
    have "(uint a - uint p) mod 2 ^ 32 = (uint a - uint p + 2 ^ 32) mod 2 ^ 32" by simp
    also have "\<dots> = uint a - uint p + 2 ^ 32" using b False by (intro mod_pos_pos_trivial) linarith+
    finally show ?thesis using False by simp
  qed
  finally have "a - p < FRAME_SIZE \<longleftrightarrow>
      (if uint p \<le> uint a then uint a - uint p else uint a - uint p + 2 ^ 32) < 0x1000"
    by (simp add: word_less_def FRAME_SIZE_def)
  also have "\<dots> \<longleftrightarrow> uint a div 0x1000 = k"
  proof (cases "uint p \<le> uint a")
    case True
    then show ?thesis using b k by auto
  next
    case False
    have "k \<le> 0xFFFFF" using b k by simp
    then have "0x1000 \<le> uint a - uint p + 0x100000000" using b(1) k by linarith
    moreover have "uint a div 0x1000 < k" using False k by simp
    ultimately show ?thesis using False by simp
  qed
  finally show ?thesis using k by (simp add: frame_words_def word_uint_eq_iff ppn_uint)
qed

lemma frame_self: "p \<in> frame_words p"
  by (simp add: frame_words_def)

section \<open>The invariant\<close>

text \<open>The free list, read through the first word of each frame on it.\<close>

fun flist :: "(u32 \<Rightarrow> u32) \<Rightarrow> u32 \<Rightarrow> u32 list \<Rightarrow> bool" where
  "flist m p [] = (p = 0)"
| "flist m p (f # fs) = (p = f \<and> f \<noteq> 0 \<and> flist m (m f) fs)"

lemma flist_upd: "a \<notin> set fs \<Longrightarrow> flist (m(a := v)) p fs = flist m p fs"
  by (induction fs arbitrary: p) auto

lemma flist_cong: "(\<And>f. f \<in> set fs \<Longrightarrow> m' f = m f) \<Longrightarrow> flist m' p fs = flist m p fs"
  by (induction fs arbitrary: p) auto

lemma flist_unique: "flist m p fs \<Longrightarrow> flist m p gs \<Longrightarrow> fs = gs"
proof (induction fs arbitrary: p gs)
  case Nil
  then show ?case by (cases gs) auto
next
  case (Cons f fs)
  then show ?case by (cases gs) auto
qed

text \<open>\<open>lo\<close> is the address \<open>init\<close> was given.\<close>

definition phys_ok :: "u32 \<Rightarrow> phys \<Rightarrow> u32 list \<Rightarrow> bool" where
  "phys_ok lo s fl \<longleftrightarrow>
     flist (pm_mem s) (firstFree s) fl \<and> distinct fl \<and> 0 < lo \<and>
     offset lo = 0 \<and> offset (pm_avail s) = 0 \<and> offset (pm_limit s) = 0 \<and>
     lo \<le> pm_avail s \<and> pm_avail s \<le> pm_limit s \<and>
     (\<forall>f \<in> set fl. offset f = 0 \<and> lo \<le> f \<and> f < pm_avail s)"

definition phys_inv :: "u32 \<Rightarrow> phys \<Rightarrow> bool" where
  "phys_inv lo s \<longleftrightarrow> (\<exists>fl. phys_ok lo s fl)"

text \<open>The frames handed out: those below \<open>avail\<close> that are not on the free list.\<close>

definition held_frames :: "u32 \<Rightarrow> phys \<Rightarrow> u32 set" where
  "held_frames lo s =
     {p. offset p = 0 \<and> lo \<le> p \<and> p < pm_avail s \<and>
         (\<exists>fl. phys_ok lo s fl \<and> p \<notin> set fl)}"

lemma phys_ok_unique: "phys_ok lo s fl \<Longrightarrow> phys_ok lo s fl' \<Longrightarrow> fl = fl'"
  unfolding phys_ok_def using flist_unique by blast

lemma held_frames_iff:
  "phys_ok lo s fl \<Longrightarrow> p \<in> held_frames lo s \<longleftrightarrow>
     offset p = 0 \<and> lo \<le> p \<and> p < pm_avail s \<and> p \<notin> set fl"
  unfolding held_frames_def mem_Collect_eq using phys_ok_unique by blast

lemma next_frame:
  assumes "offset p = 0" "offset l = 0" "p \<le> l" "p \<noteq> l"
  shows "offset (p + FRAME_SIZE) = 0" "p < p + FRAME_SIZE" "p + FRAME_SIZE \<le> l"
    and "offset q = 0 \<Longrightarrow> q < p + FRAME_SIZE \<longleftrightarrow> q < p \<or> q = p"
proof -
  obtain i j where ij: "uint p = 0x1000 * i" "uint l = 0x1000 * j"
    using assms(1,2) unfolding offset_0_iff dvd_def by blast
  have lt: "uint p < uint l" using assms(3,4) by (auto simp: word_le_def word_uint_eq_iff)
  have lb: "uint l < 2 ^ 32" using uint_bounded [of l] by simp
  have pl: "uint p + 0x1000 \<le> uint l" using lt ij by auto
  then have u: "uint (p + FRAME_SIZE) = uint p + 0x1000"
    using lb uint_ge_0 [of p] by (simp only: FRAME_SIZE_def uint_word_ariths) simp
  show "offset (p + FRAME_SIZE) = 0" using u ij by (simp add: offset_0_iff)
  show "p < p + FRAME_SIZE" "p + FRAME_SIZE \<le> l" using u pl by (auto simp: word_less_def word_le_def)
  show "q < p + FRAME_SIZE \<longleftrightarrow> q < p \<or> q = p" if q: "offset q = 0"
  proof -
    obtain k where "uint q = 0x1000 * k" using q unfolding offset_0_iff dvd_def by blast
    then show ?thesis using u ij by (auto simp: word_less_def word_uint_eq_iff)
  qed
qed

lemma alloc_frame_ok:
  assumes ok: "phys_ok lo s fl"
  obtains (full) "fl = []" "pm_avail s = pm_limit s" "alloc_frame s = Inl (Panic ''no more frames'')"
  | (reuse) f fs s' where "fl = f # fs" "alloc_frame s = Inr (f, s')" "phys_ok lo s' fs"
      "pm_avail s' = pm_avail s" "pm_limit s' = pm_limit s"
      "pm_mem s' = (\<lambda>a. if a \<in> frame_words f then 0 else pm_mem s a)"
  | (fresh) s' where "fl = []" "alloc_frame s = Inr (pm_avail s, s')" "phys_ok lo s' []"
      "pm_avail s' = pm_avail s + FRAME_SIZE" "pm_limit s' = pm_limit s" "pm_avail s \<noteq> pm_limit s"
      "pm_mem s' = (\<lambda>a. if a \<in> frame_words (pm_avail s) then 0 else pm_mem s a)"
proof (cases fl)
  case Nil
  show ?thesis
  proof (cases "pm_avail s = pm_limit s")
    case True
    then show ?thesis using full Nil ok by (simp add: phys_ok_def alloc_frame_def take_frame_def)
  next
    case False
    let ?s = "bzero_frame (pm_avail s) (s\<lparr>pm_avail := pm_avail s + FRAME_SIZE\<rparr>)"
    have a: "offset (pm_avail s) = 0" "offset (pm_limit s) = 0" "pm_avail s \<le> pm_limit s"
      using ok by (auto simp: phys_ok_def)
    note n = next_frame [OF a False]
    have "lo \<le> pm_avail s + FRAME_SIZE" using ok n(2) by (auto simp: phys_ok_def)
    then have "phys_ok lo ?s []"
      using ok Nil n by (auto simp: phys_ok_def bzero_frame_def)
    moreover have "alloc_frame s = Inr (pm_avail s, ?s)"
      using ok Nil False by (simp add: phys_ok_def alloc_frame_def take_frame_def)
    moreover have "pm_mem ?s = (\<lambda>a. if a \<in> frame_words (pm_avail s) then 0 else pm_mem s a)"
      using in_frame_iff [OF a(1)] by (auto simp: bzero_frame_def)
    ultimately show ?thesis using fresh [of ?s] Nil False by (simp add: bzero_frame_def)
  qed
next
  case (Cons f fs)
  let ?s = "bzero_frame f (s\<lparr>firstFree := read32 s f\<rparr>)"
  have f: "firstFree s = f" "f \<noteq> 0" "offset f = 0" "f \<notin> set fs" "distinct fs"
    and fs: "flist (pm_mem s) (pm_mem s f) fs" "\<forall>g \<in> set fs. offset g = 0"
    using ok Cons by (auto simp: phys_ok_def)
  have mem: "pm_mem ?s = (\<lambda>a. if a \<in> frame_words f then 0 else pm_mem s a)"
    using in_frame_iff [OF f(3)] by (auto simp: bzero_frame_def)
  have "g \<notin> frame_words f" if "g \<in> set fs" for g
    using frame_words_disjoint [of g f] f fs(2) that frame_self [of g] by blast
  then have "flist (pm_mem ?s) (pm_mem s f) fs"
    unfolding mem using fs(1) by (subst flist_cong [of _ _ "pm_mem s"]) auto
  then have "phys_ok lo ?s fs"
    using ok Cons by (auto simp: phys_ok_def bzero_frame_def read32_def)
  moreover have "alloc_frame s = Inr (f, ?s)"
    using f by (simp add: alloc_frame_def take_frame_def)
  ultimately show ?thesis using reuse [of f fs ?s] Cons mem by (simp add: bzero_frame_def)
qed

lemma dealloc_frame_ok:
  assumes "phys_ok lo s fl" "p \<in> held_frames lo s"
  obtains s' where "dealloc_frame p s = Inr s'" "phys_ok lo s' (p # fl)"
    and "pm_mem s' = (pm_mem s)(p := firstFree s)" "pm_avail s' = pm_avail s" "pm_limit s' = pm_limit s"
proof -
  have p: "offset p = 0" "lo \<le> p" "p < pm_avail s" "p \<notin> set fl"
    using assms held_frames_iff by auto
  have "0 < lo" using assms(1) by (simp add: phys_ok_def)
  then have "p \<noteq> 0" using p(2) by auto
  then show ?thesis
    using assms(1) p
    by (intro that [of "(write32 p (firstFree s) s)\<lparr>firstFree := p\<rparr>"]) (auto simp: dealloc_frame_def phys_ok_def write32_def flist_upd)
qed

lemma physInit_spec:
  assumes "offset start = 0" "offset sz = 0" "0 < start" "start \<le> start + sz"
  shows "\<exists>s. physInit m start sz = Inr s \<and> phys_ok start s [] \<and> held_frames start s = {} \<and> pm_mem s = m"
proof -
  let ?s = "\<lparr>pm_mem = m, firstFree = 0, pm_avail = start, pm_limit = start + sz\<rparr>"
  have "offset (start + sz) = 0"
  proof -
    have "0x1000 dvd uint start + uint sz" using assms(1,2) by (simp add: offset_0_iff)
    moreover have "(0x1000::int) dvd 2 ^ 32" by simp
    ultimately show ?thesis by (simp add: offset_0_iff uint_word_ariths dvd_mod)
  qed
  then have "phys_ok start ?s []" using assms by (auto simp: phys_ok_def)
  moreover from this have "held_frames start ?s = {}" by (auto simp: held_frames_iff)
  ultimately show ?thesis using assms by (simp add: physInit_def)
qed

section \<open>The interface\<close>

text \<open>
  Frames as an allocator. A request that panics halts the machine, so its client gets nothing and no
  state change; the words of a held frame are its client's to write.
\<close>

definition falloc :: "unit \<Rightarrow> phys \<Rightarrow> (u32 option \<times> phys) option" where
  "falloc r s = (case alloc_frame s of Inl _ \<Rightarrow> Some (None, s) | Inr (p, s') \<Rightarrow> Some (Some p, s'))"

definition fdealloc :: "u32 \<Rightarrow> phys \<Rightarrow> phys option" where
  "fdealloc p s = (case dealloc_frame p s of Inl _ \<Rightarrow> None | Inr s' \<Rightarrow> Some s')"

lemma held_offset: "p \<in> held_frames lo s \<Longrightarrow> offset p = 0"
  by (simp add: held_frames_def)

lemma flist_frame:
  assumes ok: "phys_ok lo s fl" and "p \<in> held_frames lo s" "a \<in> frame_words p"
  shows "a \<notin> set fl"
proof
  assume "a \<in> set fl"
  then have "offset a = 0" "a \<noteq> p" using ok assms(2) held_frames_iff [OF ok] by (auto simp: phys_ok_def)
  then show False
    using frame_words_disjoint [of a p] held_offset [OF assms(2)] assms(3) frame_self [of a] by blast
qed

lemma write_held_ok:
  assumes "phys_ok lo s fl" "p \<in> held_frames lo s" "a \<in> frame_words p"
  shows "phys_ok lo (write32 a v s) fl"
  using assms(1) flist_frame [OF assms] by (simp add: phys_ok_def write32_def flist_upd)

lemma alloc_frame_held:
  assumes ok: "phys_ok lo s fl" and a: "alloc_frame s = Inr (p, s')"
  obtains fl' where "phys_ok lo s' fl'" "set fl' \<subseteq> set fl" "p \<notin> held_frames lo s"
    and "held_frames lo s' = insert p (held_frames lo s)" "offset p = 0" "p \<noteq> 0"
    and "pm_mem s' = (\<lambda>a. if a \<in> frame_words p then 0 else pm_mem s a)"
    and "pm_limit s' = pm_limit s" "lo \<le> p" "p < pm_limit s"
  using ok
proof (cases rule: alloc_frame_ok)
  case (reuse f fs s1)
  have eq: "p = f" "s' = s1" using reuse(2) a by auto
  have "held_frames lo s' = insert p (held_frames lo s)"
    using held_frames_iff [OF ok] held_frames_iff [OF reuse(3)] reuse ok eq
    by (auto simp: phys_ok_def set_eq_iff)
  moreover have "p < pm_limit s" "lo \<le> p" "0 < lo"
    using ok reuse(1) eq by (auto simp: phys_ok_def)
  ultimately show ?thesis
    using that [of fs] reuse eq ok held_frames_iff [OF ok] by (auto simp: phys_ok_def)
next
  case (fresh s1)
  have eq: "p = pm_avail s" "s' = s1" using fresh(2) a by auto
  have w: "offset (pm_avail s) = 0" "offset (pm_limit s) = 0" "pm_avail s \<le> pm_limit s" "0 < lo" "lo \<le> pm_avail s"
    using ok by (auto simp: phys_ok_def)
  note n = next_frame [OF w(1-3) fresh(6)]
  have "held_frames lo s' = insert p (held_frames lo s)"
    using held_frames_iff [OF ok] held_frames_iff [OF fresh(3)] fresh w n eq
    by (auto simp: set_eq_iff)
  moreover have "p < pm_limit s" "p \<noteq> 0" using w fresh(6) eq by auto
  ultimately show ?thesis
    using that [of "[]"] fresh eq w held_frames_iff [OF ok] by auto
qed (use a in auto)

lemma falloc_cases:
  assumes "phys_ok lo s fl"
  obtains (full) "falloc r s = Some (None, s)"
  | (frame) p s' fl' where "alloc_frame s = Inr (p, s')" "falloc r s = Some (Some p, s')"
      "phys_ok lo s' fl'" "p \<notin> held_frames lo s" "held_frames lo s' = insert p (held_frames lo s)"
      "offset p = 0" "pm_mem s' = (\<lambda>a. if a \<in> frame_words p then 0 else pm_mem s a)"
proof (cases "alloc_frame s")
  case (Inl e)
  then show ?thesis using full by (simp add: falloc_def)
next
  case (Inr q)
  then obtain p s' where a: "alloc_frame s = Inr (p, s')" by (cases q) auto
  show ?thesis
    by (rule alloc_frame_held [OF assms a], rule frame [OF a]) (simp_all add: falloc_def a)
qed

interpretation frames: allocator "phys_inv lo" "held_frames lo" frame_words pm_mem falloc fdealloc write32
  for lo
proof
  fix s r
  assume "phys_inv lo s"
  then obtain fl where ok: "phys_ok lo s fl" by (auto simp: phys_inv_def)
  show "\<exists>b s'. falloc r s = Some (b, s')" by (cases rule: falloc_cases [OF ok, of r]) auto
next
  fix s r s'
  assume "phys_inv lo s" and a: "falloc r s = Some (None, s')"
  then obtain fl where ok: "phys_ok lo s fl" by (auto simp: phys_inv_def)
  show "s' = s" using a by (cases rule: falloc_cases [OF ok, of r]) auto
next
  fix s r b s'
  assume "phys_inv lo s" and a: "falloc r s = Some (Some b, s')"
  then obtain fl where ok: "phys_ok lo s fl" by (auto simp: phys_inv_def)
  show "phys_inv lo s' \<and> b \<notin> held_frames lo s \<and> held_frames lo s' = insert b (held_frames lo s)"
    using a by (cases rule: falloc_cases [OF ok, of r]) (auto simp: phys_inv_def)
next
  fix s r b s' c k
  assume "phys_inv lo s" and a: "falloc r s = Some (Some b, s')"
    and c: "c \<in> held_frames lo s" "k \<in> frame_words c"
  then obtain fl where ok: "phys_ok lo s fl" by (auto simp: phys_inv_def)
  show "pm_mem s' k = pm_mem s k"
  proof (cases rule: falloc_cases [OF ok, of r])
    case (2 p s1 fl')
    then have "p \<noteq> c" "s1 = s'" using c a by auto
    then show ?thesis
      using frame_words_disjoint [OF 2(6) held_offset [OF c(1)]] 2(7) c(2) by auto
  qed (use a in auto)
next
  fix s b
  assume "phys_inv lo s" and b: "b \<in> held_frames lo s"
  then obtain fl where ok: "phys_ok lo s fl" by (auto simp: phys_inv_def)
  obtain s' where d: "dealloc_frame b s = Inr s'" "phys_ok lo s' (b # fl)"
    "pm_mem s' = (pm_mem s)(b := firstFree s)" "pm_avail s' = pm_avail s"
    by (rule dealloc_frame_ok [OF ok b])
  have "held_frames lo s' = held_frames lo s - {b}"
    using held_frames_iff [OF ok] held_frames_iff [OF d(2)] d(4) by auto
  moreover have "pm_mem s' k = pm_mem s k"
    if "c \<in> held_frames lo s - {b}" "k \<in> frame_words c" for c k
    using frame_words_disjoint [of b c] held_offset [OF b] held_offset [of c lo s] that d(3)
      frame_self [of b] by auto
  ultimately show "\<exists>s'. fdealloc b s = Some s' \<and> phys_inv lo s' \<and> held_frames lo s' = held_frames lo s - {b} \<and>
      (\<forall>c \<in> held_frames lo s - {b}. \<forall>k \<in> frame_words c. pm_mem s' k = pm_mem s k)"
    using d(1,2) by (auto simp: fdealloc_def phys_inv_def)
next
  fix s b k v
  assume "phys_inv lo s" and b: "b \<in> held_frames lo s" and k: "k \<in> frame_words b"
  then obtain fl where ok: "phys_ok lo s fl" by (auto simp: phys_inv_def)
  note w = write_held_ok [OF ok b k, of v]
  have "held_frames lo (write32 k v s) = held_frames lo s"
    using held_frames_iff [OF ok] held_frames_iff [OF w] by (auto simp: write32_def)
  then show "phys_inv lo (write32 k v s) \<and> held_frames lo (write32 k v s) = held_frames lo s \<and>
      pm_mem (write32 k v s) = (pm_mem s)(k := v)"
    using w by (auto simp: phys_inv_def write32_def)
next
  fix s b c
  assume "b \<in> held_frames lo s" "c \<in> held_frames lo s" "b \<noteq> c"
  then show "frame_words b \<inter> frame_words c = {}"
    using frame_words_disjoint held_offset by blast
qed

section \<open>Properties\<close>

text \<open>A range of four frames after the heap, none used.\<close>

definition demo_phys :: phys where
  "demo_phys = \<lparr>pm_mem = (\<lambda>_. 7), firstFree = 0, pm_avail = 0x600000, pm_limit = 0x604000\<rparr>"

lemma demo_phys_ok: "phys_ok VMM_FRAMES demo_phys []"
  by (simp add: phys_ok_def demo_phys_def VMM_FRAMES_def offset_def)

text \<open>
  C18. From any well-formed state of the frame allocator, a fair trace of \<open>alloc_frame\<close>,
  \<open>dealloc_frame\<close> and writes to held frames keeps it well-formed, and a frame that is held and that
  the trace neither frees nor writes is still held and has the same contents.
\<close>

theorem frame_trace:
  assumes "phys_inv lo s" "fair_run (held_frames lo) frame_words falloc fdealloc write32 ops s"
    and "p \<in> held_frames lo s" "list_all (spares p) ops"
  shows "\<exists>s'. client_run falloc fdealloc write32 ops s = Some s' \<and> phys_inv lo s' \<and>
    p \<in> held_frames lo s' \<and> (\<forall>a \<in> frame_words p. pm_mem s' a = pm_mem s a)"
  by (rule frames.run_spares [OF assms])

lemma frame_trace_witness:
  "\<exists>s p s'. alloc_frame demo_phys = Inr (p, s) \<and>
    client_run falloc fdealloc write32 [Alloc ()] s = Some s' \<and> p \<in> held_frames VMM_FRAMES s'"
proof -
  let ?s = "bzero_frame 0x600000 (demo_phys\<lparr>pm_avail := 0x601000\<rparr>)"
  have a: "alloc_frame demo_phys = Inr (0x600000, ?s)"
    by (simp add: alloc_frame_def take_frame_def demo_phys_def offset_def FRAME_SIZE_def)
  obtain fl where ok: "phys_ok VMM_FRAMES ?s fl" "0x600000 \<in> held_frames VMM_FRAMES ?s"
    by (rule alloc_frame_held [OF demo_phys_ok a]) auto
  have inv: "phys_inv VMM_FRAMES ?s" using ok(1) by (auto simp: phys_inv_def)
  have fair: "fair_run (held_frames VMM_FRAMES) frame_words falloc fdealloc write32 [Alloc ()] ?s"
    by (simp split: option.split)
  have "list_all (spares 0x600000) [Alloc ()]" by simp
  from frame_trace [OF inv fair ok(2) this] show ?thesis using a by blast
qed

text \<open>
  \<open>alloc_frame\<close> panics exactly when the free list is empty and \<open>avail\<close> has reached the limit.
  Otherwise it returns a frame that was not held, aligned, not null, inside the range given to
  \<open>init\<close>, with every word zero, and leaves the other words of memory as they were.
\<close>

theorem alloc_frame_fresh:
  assumes ok: "phys_ok lo s fl"
  shows "if fl = [] \<and> pm_avail s = pm_limit s then alloc_frame s = Inl (Panic ''no more frames'')
    else \<exists>p s' fl'. alloc_frame s = Inr (p, s') \<and> phys_ok lo s' fl' \<and> p \<notin> held_frames lo s \<and>
      held_frames lo s' = insert p (held_frames lo s) \<and> offset p = 0 \<and> p \<noteq> 0 \<and> lo \<le> p \<and>
      p < pm_limit s \<and> pm_mem s' = (\<lambda>a. if a \<in> frame_words p then 0 else pm_mem s a)"
proof (cases "fl = [] \<and> pm_avail s = pm_limit s")
  case True
  then show ?thesis using ok by (cases rule: alloc_frame_ok [OF ok]) auto
next
  case False
  then obtain p s' where a: "alloc_frame s = Inr (p, s')"
    by (cases rule: alloc_frame_ok [OF ok]) auto
  show ?thesis by (rule alloc_frame_held [OF ok a]) (use False a in auto)
qed

lemma alloc_frame_fresh_witness:
  "\<exists>p s'. alloc_frame demo_phys = Inr (p, s') \<and> pm_mem s' p = 0 \<and> 0x600000 \<le> p"
  using alloc_frame_fresh [OF demo_phys_ok] frame_self
  by (fastforce simp: demo_phys_def VMM_FRAMES_def)

text \<open>A frame that is given back is the next one to be handed out, and it comes back zeroed.\<close>

theorem dealloc_alloc_roundtrip:
  assumes "phys_ok lo s fl" "p \<in> held_frames lo s"
  shows "\<exists>s1 s2. dealloc_frame p s = Inr s1 \<and> alloc_frame s1 = Inr (p, s2) \<and> phys_ok lo s2 fl \<and>
    held_frames lo s2 = held_frames lo s \<and>
    pm_mem s2 = (\<lambda>a. if a \<in> frame_words p then 0 else pm_mem s a)"
proof -
  obtain s1 where d: "dealloc_frame p s = Inr s1" "phys_ok lo s1 (p # fl)"
    "pm_mem s1 = (pm_mem s)(p := firstFree s)" "pm_avail s1 = pm_avail s"
    by (rule dealloc_frame_ok [OF assms])
  from d(2) show ?thesis
  proof (cases rule: alloc_frame_ok)
    case (reuse f fs s2)
    then have "held_frames lo s2 = held_frames lo s"
      using held_frames_iff [OF assms(1)] held_frames_iff [OF reuse(3)] d(4) by auto
    then show ?thesis using reuse d frame_self [of p] by auto
  qed auto
qed

lemma dealloc_alloc_roundtrip_witness:
  "\<exists>s s1 s2. alloc_frame demo_phys = Inr (0x600000, s) \<and> dealloc_frame 0x600000 s = Inr s1 \<and>
    alloc_frame s1 = Inr (0x600000, s2)"
proof -
  let ?s = "bzero_frame 0x600000 (demo_phys\<lparr>pm_avail := 0x601000\<rparr>)"
  have a: "alloc_frame demo_phys = Inr (0x600000, ?s)"
    by (simp add: alloc_frame_def take_frame_def demo_phys_def offset_def FRAME_SIZE_def)
  obtain fl where "phys_ok VMM_FRAMES ?s fl" "0x600000 \<in> held_frames VMM_FRAMES ?s"
    by (rule alloc_frame_held [OF demo_phys_ok a]) auto
  then show ?thesis using dealloc_alloc_roundtrip a by blast
qed

end
