(* ===== verification/Kconfig.thy ===== *)
theory Kconfig
  imports Prelude
begin

text \<open>
  The machine configuration of \<open>kernel/config.h\<close> and \<open>kernel/config.cc\<close>: memory size from the BIOS
  figures, APIC addresses and processors from the ACPI tables, read from physical memory before
  paging is on (so a null pointer reads address 0). The packed structs are read at their offsets.
\<close>

section \<open>The code\<close>

record ApicInfo =
  ai_processorId :: u8
  ai_apicId :: u8
  ai_flags :: u32

definition MAX_PROCS :: nat where
  "MAX_PROCS = 16"

record Config =
  memSize :: u32
  nOtherProcs :: u32
  totalProcs :: u32
  localAPIC :: u32
  madtFlags :: u32
  ioAPIC :: u32
  apicInfo :: "ApicInfo list"
  oemid :: "u8 list"

record MemInfo =
  mi_ax :: u16
  mi_bx :: u16
  mi_cx :: u16
  mi_dx :: u16

text \<open>\<open>iseq\<close> compares \<open>len\<close> bytes of memory with the bytes of a string.\<close>

fun iseq :: "(u32 \<Rightarrow> u8) \<Rightarrow> u32 \<Rightarrow> u8 list \<Rightarrow> bool" where
  "iseq m a [] = True"
| "iseq m a (b # bs) = (if m a \<noteq> b then False else iseq m (a + 1) bs)"

definition RSD_PTR :: "u8 list" where
  "RSD_PTR = [0x52, 0x53, 0x44, 0x20, 0x50, 0x54, 0x52, 0x20]"

definition APIC_NAME :: "u8 list" where
  "APIC_NAME = [0x41, 0x50, 0x49, 0x43]"

partial_function (option) findRSDInRange :: "(u32 \<Rightarrow> u8) \<Rightarrow> u32 \<Rightarrow> u32 \<Rightarrow> u32 option" where
  "findRSDInRange m i e =
     (if i < e then if iseq m i RSD_PTR then Some i else findRSDInRange m (i + 16) e
      else Some 0)"

definition findRSD :: "(u32 \<Rightarrow> u8) \<Rightarrow> u32 option" where
  "findRSD m =
     Option.bind (findRSDInRange m 0xE0000 0x100000) (\<lambda>it.
       if it = 0 then
         let base = push_bit 4 (ucast (load16 m 0x40E))
         in findRSDInRange m base (base + push_bit 10 1)
       else Some it)"

fun sdt_scan :: "(u32 \<Rightarrow> u8) \<Rightarrow> u32 \<Rightarrow> u8 list \<Rightarrow> nat \<Rightarrow> u32" where
  "sdt_scan m p name 0 = 0"
| "sdt_scan m p name (Suc n) =
     (let h = load32 m p in if iseq m h name then h else sdt_scan m (p + 4) name n)"

definition findSDT :: "(u32 \<Rightarrow> u8) \<Rightarrow> u32 \<Rightarrow> u8 list \<Rightarrow> u32" where
  "findSDT m rsdp name =
     (let rsdt = load32 m (rsdp + 16);
          others = rsdt + 36;
          entries = sint ((load32 m (rsdt + 4) - 36) div 4)
      in sdt_scan m others name (nat entries))"

definition memAbove1M :: "MemInfo \<Rightarrow> u32 res" where
  "memAbove1M mi =
     rbind (ASSERT (mi_cx mi = 15 * 1024 \<or> mi_dx mi = 0)) (\<lambda>_.
     Inr (push_bit 10 (ucast (mi_ax mi OR mi_cx mi)) + push_bit 16 (ucast (mi_bx mi OR mi_dx mi))))"

text \<open>The body of the loop over the MADT, after \<open>entryPtr\<close> and \<open>bytesForEntries\<close> have moved.\<close>

definition madt_entry :: "(u32 \<Rightarrow> u8) \<Rightarrow> u32 \<Rightarrow> Config \<Rightarrow> Config res" where
  "madt_entry m p c =
     (if m p = 0 then
        if m (p + 2) = 0 then Inr c
        else
          let i = unat (nOtherProcs c);
              info = \<lparr>ai_processorId = m (p + 2), ai_apicId = m (p + 3), ai_flags = load32 m (p + 4)\<rparr>
          in if i < length (apicInfo c)
             then Inr (c\<lparr>apicInfo := (apicInfo c)[i := info], nOtherProcs := nOtherProcs c + 1\<rparr>)
             else Inl OutOfBounds
      else if m p = 1 then Inr (c\<lparr>ioAPIC := load32 m (p + 4)\<rparr>)
      else Inr c)"

partial_function (option) madt_loop ::
  "(u32 \<Rightarrow> u8) \<Rightarrow> u32 \<Rightarrow> int \<Rightarrow> Config \<Rightarrow> Config res option" where
  "madt_loop m p bytes c =
     (if bytes > 0 then
        let len = m (p + 1); p' = p + ucast len
        in case madt_entry m p' c of
             Inl e \<Rightarrow> Some (Inl e)
           | Inr c' \<Rightarrow> madt_loop m p' (bytes - uint len) c'
      else Some (Inr c))"

definition configInit :: "(u32 \<Rightarrow> u8) \<Rightarrow> MemInfo \<Rightarrow> Config \<Rightarrow> Config res option" where
  "configInit m mi c0 =
     (case memAbove1M mi of
        Inl e \<Rightarrow> Some (Inl e)
      | Inr hi \<Rightarrow>
          let c1 = c0\<lparr>memSize := hi + push_bit 20 1\<rparr>
          in Option.bind (findRSD m) (\<lambda>rsdp.
               let c2 = (if rsdp \<noteq> 0
                         then c1\<lparr>oemid := map (\<lambda>i. m (rsdp + 9 + word_of_nat i)) [0..<6] @ [0]\<rparr>
                         else c1);
                   madt = findSDT m rsdp APIC_NAME;
                   c3 = c2\<lparr>localAPIC := load32 m (madt + 36), madtFlags := load32 m (madt + 40)\<rparr>;
                   bytes = sint (load32 m (madt + 4) - 44)
               in map_option
                    (\<lambda>r. rbind r (\<lambda>c. Inr (c\<lparr>totalProcs := nOtherProcs c + 1\<rparr>)))
                    (madt_loop m (madt + 44) bytes (c3\<lparr>nOtherProcs := 0\<rparr>))))"

section \<open>Searching for the tables\<close>

lemma iseq_iff: "iseq m a bs \<longleftrightarrow> (\<forall>i < length bs. m (a + word_of_nat i) = bs ! i)"
proof (induction bs arbitrary: a)
  case (Cons b bs)
  have "(\<forall>i < length (b # bs). m (a + word_of_nat i) = (b # bs) ! i) \<longleftrightarrow>
    m a = b \<and> (\<forall>i < length bs. m (a + 1 + word_of_nat i) = bs ! i)"
    by (auto simp: All_less_Suc2 add.assoc)
  then show ?case using Cons.IH [of "a + 1"] by simp
qed simp

text \<open>The addresses the search for the RSD looks at, in order.\<close>

definition rsd_slots :: "u32 \<Rightarrow> nat \<Rightarrow> u32 list" where
  "rsd_slots i n = map (\<lambda>k. i + 16 * word_of_nat k) [0..<n]"

lemma rsd_slots_Suc: "rsd_slots i (Suc n) = i # rsd_slots (i + 16) n"
  unfolding rsd_slots_def upt_conv_Cons [OF zero_less_Suc] map_Suc_upt [symmetric]
  by (simp add: algebra_simps)

lemma findRSDInRange_spec:
  assumes "uint e = uint i + 16 * int n"
  shows "findRSDInRange m i e =
    Some (case find (\<lambda>a. iseq m a RSD_PTR) (rsd_slots i n) of None \<Rightarrow> 0 | Some a \<Rightarrow> a)"
  using assms
proof (induction n arbitrary: i)
  case 0
  then show ?case by (simp add: findRSDInRange.simps word_less_def rsd_slots_def)
next
  case (Suc n)
  have b: "uint e < 2 ^ 32" using uint_bounded [of e] by simp
  then have "uint (i + 16) = uint i + 16"
    using Suc.prems uint_ge_0 [of i] by (simp add: uint_word_ariths)
  then have IH: "findRSDInRange m (i + 16) e =
      Some (case find (\<lambda>a. iseq m a RSD_PTR) (rsd_slots (i + 16) n) of None \<Rightarrow> 0 | Some a \<Rightarrow> a)"
    using Suc.prems by (intro Suc.IH) simp
  have "i < e" using Suc.prems by (simp add: word_less_def)
  then show ?case by (subst findRSDInRange.simps) (simp add: IH rsd_slots_Suc)
qed

section \<open>The MADT\<close>

text \<open>
  A table whose entries have the lengths \<open>ls\<close>, starting at \<open>p\<close>, and where the entries after the
  first one start, the end of the table last.
\<close>

fun madt_lens :: "(u32 \<Rightarrow> u8) \<Rightarrow> u32 \<Rightarrow> u8 list \<Rightarrow> bool" where
  "madt_lens m p [] = True"
| "madt_lens m p (l # ls) = (m (p + 1) = l \<and> l \<noteq> 0 \<and> madt_lens m (p + ucast l) ls)"

fun madt_next :: "u32 \<Rightarrow> u8 list \<Rightarrow> u32 list" where
  "madt_next p [] = []"
| "madt_next p (l # ls) = (p + ucast l) # madt_next (p + ucast l) ls"

fun madt_fold :: "(u32 \<Rightarrow> u8) \<Rightarrow> u32 list \<Rightarrow> Config \<Rightarrow> Config res" where
  "madt_fold m [] c = Inr c"
| "madt_fold m (p # ps) c = rbind (madt_entry m p c) (madt_fold m ps)"

lemma sum_uint_nonneg: "0 \<le> (\<Sum>l \<leftarrow> ls. uint (l :: u8))"
  by (induction ls) auto

lemma madt_loop_fold:
  assumes "madt_lens m p ls"
  shows "madt_loop m p (\<Sum>l \<leftarrow> ls. uint l) c = Some (madt_fold m (madt_next p ls) c)"
  using assms
proof (induction ls arbitrary: p c)
  case Nil
  then show ?case by (simp add: madt_loop.simps)
next
  case (Cons l ls)
  have "0 < uint l" using Cons.prems by (simp add: word_neq_0_conv word_less_def)
  then have pos: "0 < uint l + (\<Sum>l \<leftarrow> ls. uint l)" using sum_uint_nonneg [of ls] by simp
  show ?case
  proof (cases "madt_entry m (p + ucast l) c")
    case (Inl e)
    then show ?thesis using Cons.prems pos by (simp add: madt_loop.simps [of m p] Let_def)
  next
    case (Inr c')
    then show ?thesis
      using Cons.prems pos Cons.IH [of "p + ucast l" c']
      by (simp add: madt_loop.simps [of m p] Let_def)
  qed
qed

text \<open>The entries among \<open>ps\<close> that describe a processor other than processor 0.\<close>

definition madt_procs :: "(u32 \<Rightarrow> u8) \<Rightarrow> u32 list \<Rightarrow> nat" where
  "madt_procs m ps = length (filter (\<lambda>p. m p = 0 \<and> m (p + 2) \<noteq> 0) ps)"

lemma madt_fold_ok:
  assumes "unat (nOtherProcs c) + madt_procs m ps \<le> length (apicInfo c)"
  shows "\<exists>c'. madt_fold m ps c = Inr c' \<and> nOtherProcs c' = nOtherProcs c + word_of_nat (madt_procs m ps) \<and>
    memSize c' = memSize c \<and> length (apicInfo c') = length (apicInfo c)"
  using assms
proof (induction ps arbitrary: c)
  case Nil
  then show ?case by (simp add: madt_procs_def)
next
  case (Cons p ps)
  show ?case
  proof (cases "m p = 0 \<and> m (p + 2) \<noteq> 0")
    case True
    then have n: "madt_procs m (p # ps) = Suc (madt_procs m ps)" by (simp add: madt_procs_def)
    then have i: "unat (nOtherProcs c) < length (apicInfo c)" using Cons.prems by simp
    obtain c1 where c1: "madt_entry m p c = Inr c1" "nOtherProcs c1 = nOtherProcs c + 1"
      "memSize c1 = memSize c" "length (apicInfo c1) = length (apicInfo c)"
      using True i by (simp add: madt_entry_def Let_def)
    have "unat (nOtherProcs c1) \<le> Suc (unat (nOtherProcs c))" using c1(2) by (simp add: unat_word_ariths)
    then have "unat (nOtherProcs c1) + madt_procs m ps \<le> length (apicInfo c1)" using Cons.prems n c1(4) by simp
    from Cons.IH [OF this] show ?thesis using c1 n by (auto simp: add.assoc)
  next
    case False
    then have n: "madt_procs m (p # ps) = madt_procs m ps" by (auto simp: madt_procs_def)
    have "\<exists>c1. madt_entry m p c = Inr c1 \<and> nOtherProcs c1 = nOtherProcs c \<and> memSize c1 = memSize c \<and> apicInfo c1 = apicInfo c"
      using False by (simp add: madt_entry_def)
    then obtain c1 where "madt_entry m p c = Inr c1" "nOtherProcs c1 = nOtherProcs c"
      "memSize c1 = memSize c" "apicInfo c1 = apicInfo c" by blast
    then show ?thesis using Cons.IH [of c1] Cons.prems n by auto
  qed
qed

section \<open>Properties\<close>

lemma find_some: "find P xs = Some x \<Longrightarrow> P x"
  by (induction xs) (auto split: if_splits)

text \<open>
  The search for the root system description terminates: it returns null, or an address where
  the eight bytes of the signature stand.
\<close>

theorem findRSD_total: "\<exists>a. findRSD m = Some a \<and> (a = 0 \<or> iseq m a RSD_PTR)"
proof -
  let ?r = "\<lambda>ps. case find (\<lambda>a. iseq m a RSD_PTR) ps of None \<Rightarrow> 0 | Some a \<Rightarrow> a"
  have good: "?r ps = 0 \<or> iseq m (?r ps) RSD_PTR" for ps
    by (cases "find (\<lambda>a. iseq m a RSD_PTR) ps") (auto dest: find_some)
  have 1: "findRSDInRange m 0xE0000 0x100000 = Some (?r (rsd_slots 0xE0000 8192))"
    by (rule findRSDInRange_spec) simp
  let ?b = "push_bit 4 (ucast (load16 m 0x40E)) :: u32"
  have "uint (ucast (load16 m 0x40E) :: u32) < 2 ^ 16"
    using uint_bounded [of "load16 m 0x40E"] by (simp add: uint_up_ucast is_up)
  moreover have "?b = 16 * ucast (load16 m 0x40E)" by (simp add: push_bit_eq_mult)
  ultimately have "uint ?b = 16 * uint (ucast (load16 m 0x40E) :: u32)" "uint ?b < 2 ^ 20"
    by (simp_all add: uint_word_ariths)
  then have "uint (?b + push_bit 10 1) = uint ?b + 16 * int 64"
    by (simp add: uint_word_ariths push_bit_eq_mult)
  from findRSDInRange_spec [OF this]
  have 2: "findRSDInRange m ?b (?b + push_bit 10 1) = Some (?r (rsd_slots ?b 64))" .
  show ?thesis
  proof (cases "?r (rsd_slots 0xE0000 8192) = 0")
    case True
    then have "findRSD m = Some (?r (rsd_slots ?b 64))" by (simp only: findRSD_def 1 2 Let_def) simp
    then show ?thesis using good by blast
  next
    case False
    then have "findRSD m = Some (?r (rsd_slots 0xE0000 8192))" by (simp only: findRSD_def 1) simp
    then show ?thesis using good by blast
  qed
qed

text \<open>
  What the tables and the BIOS say of a machine: where its MADT is, that the table's entries have the lengths \<open>ls\<close> and
  fill it, with room in \<open>apicInfo\<close> for the processors they name, and how many bytes of memory it has.
\<close>

definition madt_of :: "(u32 \<Rightarrow> u8) \<Rightarrow> u32" where
  "madt_of m = (case findRSD m of Some r \<Rightarrow> findSDT m r APIC_NAME | None \<Rightarrow> 0)"

definition madt_ok :: "(u32 \<Rightarrow> u8) \<Rightarrow> u8 list \<Rightarrow> bool" where
  "madt_ok m ls \<longleftrightarrow> madt_lens m (madt_of m + 44) ls \<and> sint (load32 m (madt_of m + 4) - 44) = (\<Sum>l \<leftarrow> ls. uint l) \<and>
     madt_procs m (madt_next (madt_of m + 44) ls) \<le> MAX_PROCS"

definition memory_bytes :: "MemInfo \<Rightarrow> u32" where
  "memory_bytes mi = push_bit 10 (ucast (mi_ax mi OR mi_cx mi)) + push_bit 16 (ucast (mi_bx mi OR mi_dx mi)) + push_bit 20 1"

text \<open>On such a machine the configuration is found: it has the memory the BIOS reports and the processors of the table.\<close>

lemma configInit_ok:
  assumes "mi_cx mi = 15 * 1024 \<or> mi_dx mi = 0" "madt_ok m ls" "length (apicInfo c0) = MAX_PROCS"
  shows "\<exists>c. configInit m mi c0 = Some (Inr c) \<and> memSize c = memory_bytes mi \<and>
    totalProcs c = word_of_nat (madt_procs m (madt_next (madt_of m + 44) ls)) + 1"
proof -
  obtain r where r: "findRSD m = Some r" using findRSD_total by blast
  then have t: "findSDT m r APIC_NAME = madt_of m" by (simp add: madt_of_def)
  have loop: "\<exists>c'. madt_loop m (madt_of m + 44) (sint (load32 m (madt_of m + 4) - 44)) (c\<lparr>nOtherProcs := 0\<rparr>) = Some (Inr c') \<and>
      memSize c' = memSize c \<and> nOtherProcs c' = word_of_nat (madt_procs m (madt_next (madt_of m + 44) ls))"
    if "length (apicInfo c) = MAX_PROCS" for c
    using madt_loop_fold [of m "madt_of m + 44" ls "c\<lparr>nOtherProcs := 0\<rparr>"]
      madt_fold_ok [of "c\<lparr>nOtherProcs := 0\<rparr>" m "madt_next (madt_of m + 44) ls"] assms(2) that
    by (auto simp: madt_ok_def)
  show ?thesis
  proof (cases "r = 0")
    case True
    then show ?thesis
      using loop [of "c0\<lparr>memSize := memory_bytes mi, localAPIC := load32 m (madt_of m + 36), madtFlags := load32 m (madt_of m + 40)\<rparr>"]
        assms(1,3) r t
      by (auto simp: configInit_def memAbove1M_def ASSERT_def memory_bytes_def Let_def)
  next
    case False
    then show ?thesis
      using loop [of "c0\<lparr>memSize := memory_bytes mi, oemid := map (\<lambda>i. m (r + 9 + word_of_nat i)) [0..<6] @ [0],
          localAPIC := load32 m (madt_of m + 36), madtFlags := load32 m (madt_of m + 40)\<rparr>"]
        assms(1,3) r t
      by (auto simp: configInit_def memAbove1M_def ASSERT_def memory_bytes_def Let_def)
  qed
qed

text \<open>
  On a MADT whose entries have non-zero lengths the loop terminates, and it processes what
  stands where each entry ends: entries two, three and so on and whatever follows the table. The
  first entry is never looked at.
\<close>

theorem madt_skips_first:
  assumes "madt_lens m p (l # ls)"
  shows "madt_loop m p (\<Sum>l \<leftarrow> l # ls. uint l) c =
    Some (madt_fold m ((p + ucast l) # madt_next (p + ucast l) ls) c)"
  using madt_loop_fold [OF assms] by simp

text \<open>The APIC addresses of a PC.\<close>

definition demo_config :: Config where
  "demo_config = \<lparr>memSize = 0x8000000, nOtherProcs = 0, totalProcs = 1, localAPIC = 0xFEE00000,
    madtFlags = 1, ioAPIC = 0xFEC00000,
    apicInfo = replicate MAX_PROCS \<lparr>ai_processorId = 0, ai_apicId = 0, ai_flags = 0\<rparr>,
    oemid = [0, 0, 0, 0, 0, 0, 0]\<rparr>"

text \<open>A table with a single entry, an I/O APIC entry, followed by zero bytes for processor 0.\<close>

definition demo_madt :: "u32 \<Rightarrow> u8" where
  "demo_madt = (\<lambda>_. 0)(100 := 1, 101 := 12, 106 := 0xC0, 107 := 0xFE)"

lemma madt_skips_first_witness: "madt_loop demo_madt 100 12 demo_config = Some (Inr demo_config)"
  using madt_skips_first [of demo_madt 100 12 "[]" demo_config] by (simp add: demo_madt_def madt_entry_def)

end
