(* ===== verification/VMM.thy ===== *)
theory VMM
  imports PhysMem Kconfig
begin

text \<open>
  The virtual memory of \<open>kernel/vmm.cc\<close>: two-level page tables built in physical frames, the page
  fault handler that backs user addresses with fresh frames, and the operations that create and
  tear down address spaces. Page directories and tables live in the frames of \<open>PhysMem\<close>; the walk
  the processor does over them is the specification.
\<close>

section \<open>The code\<close>

text \<open>The page directory and page table indices of a virtual address.\<close>

definition va_pdi :: "u32 \<Rightarrow> u32" where
  "va_pdi va = drop_bit 22 va"

definition va_pti :: "u32 \<Rightarrow> u32" where
  "va_pti va = drop_bit 12 va AND 0x3FF"

definition is_special :: "Config \<Rightarrow> u32 \<Rightarrow> bool" where
  "is_special c va \<longleftrightarrow> va < 0x80000000 \<or> va = ioAPIC c \<or> va = localAPIC c"

text \<open>\<open>map\<close>: the page table is made when the directory has none, then the entry is written.\<close>

definition map_pde :: "Config \<Rightarrow> u32 \<Rightarrow> u32 \<Rightarrow> phys \<Rightarrow> (u32 \<times> phys) res" where
  "map_pde c pd va s =
     (let pde = read32 s (pd + 4 * va_pdi va) in
      if pde AND 1 = 0 then
        rbind (alloc_frame s) (\<lambda>(f, s1).
          let pde' = f OR (if va = ioAPIC c \<or> va = localAPIC c \<or> va < 0x80000000 then 3 else 7)
          in Inr (pde', write32 (pd + 4 * va_pdi va) pde' s1))
      else Inr (pde, s))"

definition vmm_map :: "Config \<Rightarrow> u32 \<Rightarrow> u32 \<Rightarrow> u32 \<Rightarrow> phys \<Rightarrow> phys res" where
  "vmm_map c pd va pa s =
     rbind (map_pde c pd va s) (\<lambda>(pde, s1).
       let pt = pde AND 0xFFFFF000;
           pte = pa OR (if va = ioAPIC c \<or> va = localAPIC c \<or> va < 0x80000000 then 3 else 7)
       in Inr (write32 (pt + 4 * va_pti va) pte s1))"

text \<open>
  The state of one processor that runs in an address space: physical memory, the page directory in
  \<open>cr3\<close>, and the addresses \<open>invlpg\<close> has been called with, latest first.
\<close>

record cpu =
  cpu_phys :: phys
  cpu_cr3 :: u32
  cpu_flushed :: "u32 list"

definition invlpg :: "u32 \<Rightarrow> cpu \<Rightarrow> cpu" where
  "invlpg va v = v\<lparr>cpu_flushed := va # cpu_flushed v\<rparr>"

definition cpu_dealloc :: "u32 \<Rightarrow> cpu \<Rightarrow> cpu res" where
  "cpu_dealloc p v = rbind (dealloc_frame p (cpu_phys v)) (\<lambda>s. Inr (v\<lparr>cpu_phys := s\<rparr>))"

definition cpu_write32 :: "u32 \<Rightarrow> u32 \<Rightarrow> cpu \<Rightarrow> cpu" where
  "cpu_write32 a x v = v\<lparr>cpu_phys := write32 a x (cpu_phys v)\<rparr>"

definition vmm_unmap :: "u32 \<Rightarrow> u32 \<Rightarrow> cpu \<Rightarrow> cpu res" where
  "vmm_unmap pd va v =
     (let pde = read32 (cpu_phys v) (pd + 4 * va_pdi va) in
      if pde AND 1 = 0 then Inr v
      else
        let pt = pde AND 0xFFFFF000;
            pte = read32 (cpu_phys v) (pt + 4 * va_pti va) in
        if pte AND 1 = 0 then Inr v
        else rbind (cpu_dealloc (pte AND 0xFFFFF000) (cpu_write32 (pt + 4 * va_pti va) 0 v)) (\<lambda>v1.
          Inr (invlpg va v1)))"

text \<open>\<open>memcpy\<close> of \<open>n\<close> bytes, \<open>n\<close> a multiple of four, between page directories.\<close>

fun copy_words :: "u32 \<Rightarrow> u32 \<Rightarrow> nat \<Rightarrow> phys \<Rightarrow> phys" where
  "copy_words d src 0 s = s"
| "copy_words d src (Suc n) s = copy_words (d + 4) (src + 4) n (write32 d (read32 s src) s)"

definition make_pd :: "Config \<Rightarrow> u32 \<Rightarrow> phys \<Rightarrow> (u32 \<times> phys) res" where
  "make_pd c shared_pd s =
     rbind (alloc_frame s) (\<lambda>(pd, s1).
       let m4 = 4 * 1024 * 1024 :: u32;
           shared_size = 4 * ((memSize c + m4 - 1) div m4);
           s2 = copy_words pd shared_pd (unat shared_size div 4) s1
       in rbind (vmm_map c pd (ioAPIC c) (ioAPIC c) s2) (\<lambda>s3.
          rbind (vmm_map c pd (localAPIC c) (localAPIC c) s3) (\<lambda>s4.
          Inr (pd, s4))))"

text \<open>The loops of \<open>delete_private\<close>, the inner one over \<open>pti\<close> with \<open>contains_special\<close>.\<close>

fun delete_ptes :: "Config \<Rightarrow> u32 \<Rightarrow> u32 \<Rightarrow> u32 list \<Rightarrow> bool \<Rightarrow> cpu \<Rightarrow> (bool \<times> cpu) res" where
  "delete_ptes c pdi pt [] special v = Inr (special, v)"
| "delete_ptes c pdi pt (pti # ptis) special v =
     (let va = push_bit 22 pdi OR push_bit 12 pti in
      if is_special c va then delete_ptes c pdi pt ptis True v
      else
        let pte = read32 (cpu_phys v) (pt + 4 * pti) in
        if pte AND 1 = 0 then delete_ptes c pdi pt ptis special v
        else rbind (cpu_dealloc (pte AND 0xFFFFF000) (cpu_write32 (pt + 4 * pti) 0 v)) (\<lambda>v1.
          delete_ptes c pdi pt ptis special (invlpg va v1)))"

fun delete_pdes :: "Config \<Rightarrow> u32 \<Rightarrow> u32 list \<Rightarrow> cpu \<Rightarrow> cpu res" where
  "delete_pdes c pd [] v = Inr v"
| "delete_pdes c pd (pdi # pdis) v =
     (let pde = read32 (cpu_phys v) (pd + 4 * pdi) in
      if pde AND 1 = 0 then delete_pdes c pd pdis v
      else
        let pt = pde AND 0xFFFFF000 in
        rbind (delete_ptes c pdi pt (map word_of_nat [0..<1024]) False v) (\<lambda>(special, v1).
        if \<not> special
        then rbind (cpu_dealloc pt (cpu_write32 (pd + 4 * pdi) 0 v1)) (delete_pdes c pd pdis)
        else delete_pdes c pd pdis v1))"

definition delete_private :: "Config \<Rightarrow> u32 \<Rightarrow> cpu \<Rightarrow> cpu res" where
  "delete_private c pd v =
     rbind (ASSERT (pd = cpu_cr3 v)) (\<lambda>_. delete_pdes c pd (map word_of_nat [512..<1024]) v)"

fun drop_ptes :: "Config \<Rightarrow> u32 \<Rightarrow> u32 \<Rightarrow> u32 list \<Rightarrow> cpu \<Rightarrow> cpu res" where
  "drop_ptes c pdi pt [] v = Inr v"
| "drop_ptes c pdi pt (pti # ptis) v =
     (let va = push_bit 22 pdi OR push_bit 12 pti;
          pte = read32 (cpu_phys v) (pt + 4 * pti) in
      if pte AND 1 = 0 then drop_ptes c pdi pt ptis v
      else if \<not> is_special c va
      then rbind (cpu_dealloc (pte AND 0xFFFFF000) v) (drop_ptes c pdi pt ptis)
      else drop_ptes c pdi pt ptis v)"

fun drop_pdes :: "Config \<Rightarrow> u32 \<Rightarrow> u32 list \<Rightarrow> cpu \<Rightarrow> cpu res" where
  "drop_pdes c pd [] v = Inr v"
| "drop_pdes c pd (pdi # pdis) v =
     (let pde = read32 (cpu_phys v) (pd + 4 * pdi) in
      if pde AND 1 = 0 then drop_pdes c pd pdis v
      else
        let pt = pde AND 0xFFFFF000 in
        rbind (drop_ptes c pdi pt (map word_of_nat [0..<1024]) v) (\<lambda>v1.
        rbind (cpu_dealloc pt v1) (drop_pdes c pd pdis)))"

definition delete_pd :: "Config \<Rightarrow> u32 \<Rightarrow> cpu \<Rightarrow> cpu res" where
  "delete_pd c pd v =
     rbind (ASSERT (pd \<noteq> cpu_cr3 v)) (\<lambda>_.
     rbind (drop_pdes c pd (map word_of_nat [512..<1024]) v) (cpu_dealloc pd))"

text \<open>\<open>VMM::global_init\<close>: the directory that maps physical memory one to one.\<close>

partial_function (option) map_range :: "Config \<Rightarrow> u32 \<Rightarrow> u32 \<Rightarrow> phys \<Rightarrow> phys res option" where
  "map_range c pd va s =
     (if va < memSize c then
        case vmm_map c pd va va s of
          Inl e \<Rightarrow> Some (Inl e)
        | Inr s' \<Rightarrow> map_range c pd (va + FRAME_SIZE) s'
      else Some (Inr s))"

definition global_init :: "Config \<Rightarrow> phys \<Rightarrow> (u32 \<times> phys) res option" where
  "global_init c s =
     (case alloc_frame s of
        Inl e \<Rightarrow> Some (Inl e)
      | Inr (pd, s1) \<Rightarrow>
          map_option (\<lambda>r. rbind r (\<lambda>s2. Inr (pd, s2))) (map_range c pd FRAME_SIZE s1))"

text \<open>
  The page fault handler of a thread whose process has the directory \<open>pd\<close> and whose save area
  holds \<open>save_cr3\<close>: it returns to the thread, or the process exits with status 1.
\<close>

datatype fault_outcome = Resume cpu | ExitProcess int

definition vmm_pageFault :: "Config \<Rightarrow> u32 \<Rightarrow> u32 \<Rightarrow> u32 \<Rightarrow> cpu \<Rightarrow> fault_outcome res" where
  "vmm_pageFault c pd save_cr3 fva v =
     rbind (ASSERT (pd = cpu_cr3 v)) (\<lambda>_.
     rbind (ASSERT (save_cr3 = cpu_cr3 v)) (\<lambda>_.
       let va = framedown fva in
       if va \<ge> 0x80000000 then
         rbind (alloc_frame (cpu_phys v)) (\<lambda>(pa, s1).
         rbind (vmm_map c pd va pa s1) (\<lambda>s2.
         Inr (Resume (v\<lparr>cpu_phys := s2\<rparr>))))
       else Inr (ExitProcess 1)))"

section \<open>The walk of the processor\<close>

text \<open>
  What the memory management unit does with \<open>cr3 = pd\<close>: the physical address and whether user mode
  may use it, or \<open>None\<close> for a fault.
\<close>

definition pte_addr :: "u32 \<Rightarrow> u32" where
  "pte_addr e = e AND 0xFFFFF000"

definition walk :: "(u32 \<Rightarrow> u32) \<Rightarrow> u32 \<Rightarrow> u32 \<Rightarrow> (u32 \<times> bool) option" where
  "walk m pd va =
     (let pde = m (pd + 4 * va_pdi va) in
      if pde AND 1 = 0 then None
      else
        let pte = m (pte_addr pde + 4 * va_pti va) in
        if pte AND 1 = 0 then None
        else Some (pte_addr pte OR offset va, pde AND 4 \<noteq> 0 \<and> pte AND 4 \<noteq> 0))"

section \<open>Entries and indices\<close>

lemma va_index_bounds: "va_pdi va < 1024" "va_pti va < 1024"
proof -
  have "uint va div 2 ^ 22 < 1024" using uint_bounded [of va] by simp
  then show "va_pdi va < 1024" by (simp add: va_pdi_def drop_bit_eq_div word_less_def uint_div)
  have "drop_bit 12 va AND mask 10 < 2 ^ 10" by (rule and_mask_less') simp
  then show "va_pti va < 1024" by (simp add: va_pti_def mask_eq_exp_minus_1)
qed

lemma va_index_uint: "uint (va_pdi va) = uint va div 2 ^ 22" "uint (va_pti va) = uint va div 2 ^ 12 mod 2 ^ 10"
proof -
  show "uint (va_pdi va) = uint va div 2 ^ 22" by (simp add: va_pdi_def drop_bit_eq_div uint_div)
  have "va_pti va = take_bit 10 (drop_bit 12 va)"
    by (simp add: va_pti_def take_bit_eq_mask mask_eq_exp_minus_1)
  then show "uint (va_pti va) = uint va div 2 ^ 12 mod 2 ^ 10"
    by (simp add: take_bit_eq_mod drop_bit_eq_div uint_div uint_mod)
qed

lemma same_page_iff: "ppn va = ppn va' \<longleftrightarrow> va_pdi va = va_pdi va' \<and> va_pti va = va_pti va'"
proof -
  have d: "uint va div 4194304 = uint va div 4096 div 1024" for va :: u32
    by (simp add: zdiv_zmult2_eq [symmetric])
  have e: "x = y \<longleftrightarrow> x div 1024 = y div 1024 \<and> x mod 1024 = y mod 1024" for x y :: int
    using div_mult_mod_eq [of x 1024] div_mult_mod_eq [of y 1024] by (intro iffI) (simp, linarith)
  have "ppn va = ppn va' \<longleftrightarrow> uint va div 4096 = uint va' div 4096"
    by (simp add: word_uint_eq_iff ppn_uint)
  also have "\<dots> \<longleftrightarrow> uint (va_pdi va) = uint (va_pdi va') \<and> uint (va_pti va) = uint (va_pti va')"
    using e [of "uint va div 4096" "uint va' div 4096"] by (simp add: va_index_uint, simp only: d)
  finally show ?thesis by (simp add: word_uint_eq_iff)
qed

text \<open>The 1024 words of a frame.\<close>

lemma slot_uint:
  assumes "offset p = 0" "i < (1024 :: u32)"
  shows "uint (p + 4 * i) = uint p + 4 * uint i"
proof -
  obtain k where k: "uint p = 0x1000 * k" using assms(1) unfolding offset_0_iff dvd_def by blast
  have i: "uint i < 1024" "0 \<le> uint i" using assms(2) by (auto simp: word_less_def)
  have "k \<le> 0xFFFFF" using k uint_bounded [of p] by simp
  then have "uint p + 4 * uint i < 0x100000000" using k i by linarith
  then have "(uint p + 4 * uint i) mod 2 ^ 32 = uint p + 4 * uint i"
    using i uint_ge_0 [of p] by (intro mod_pos_pos_trivial) auto
  then show ?thesis by (simp add: uint_word_ariths mod_simps)
qed

lemma slot_in_frame:
  assumes "offset p = 0" "i < (1024 :: u32)"
  shows "p + 4 * i \<in> frame_words p"
proof -
  obtain k where k: "uint p = 0x1000 * k" using assms(1) unfolding offset_0_iff dvd_def by blast
  have "uint i < 1024" "0 \<le> uint i" using assms(2) by (auto simp: word_less_def)
  then show ?thesis
    using k slot_uint [OF assms] by (simp add: frame_words_def word_uint_eq_iff ppn_uint)
qed

lemma slot_inject:
  assumes "offset p = 0" "i < (1024 :: u32)" "j < 1024"
  shows "p + 4 * i = p + 4 * j \<longleftrightarrow> i = j"
  using slot_uint [OF assms(1,2)] slot_uint [OF assms(1,3)] by (auto simp: word_uint_eq_iff)

lemma slot_disjoint:
  assumes "offset p = 0" "offset q = 0" "p \<noteq> q" "i < (1024 :: u32)" "j < 1024"
  shows "p + 4 * i \<noteq> q + 4 * j"
  using slot_in_frame [of p i] slot_in_frame [of q j] frame_words_disjoint [of p q] assms by auto

text \<open>A frame with flag bits: the address is found again, and the flags.\<close>

lemma page_of_entry:
  assumes "offset f = 0" "x AND 0xFFFFF000 = (0 :: u32)"
  shows "pte_addr (f OR x) = f"
proof -
  have "(0xFFFFF000 OR 0xFFF :: u32) = - 1" by simp
  then have "f = f AND (0xFFFFF000 OR 0xFFF)" by (simp only: bit.conj_one_right)
  also have "\<dots> = (f AND 0xFFFFF000) OR offset f"
    by (simp only: bit.conj_disj_distrib offset_def)
  finally have "f AND 0xFFFFF000 = f" using assms(1) by simp
  then show ?thesis using assms(2) by (simp add: pte_addr_def bit.conj_disj_distrib2)
qed

lemma flag_of_entry:
  assumes "offset f = 0" "b AND 0xFFF = b"
  shows "(f OR x) AND b = x AND b"
proof -
  have "f AND b = (f AND 0xFFF) AND b" using assms(2) by (metis and.assoc and.commute)
  then have "f AND b = 0" using assms(1) by (simp add: offset_def)
  then show ?thesis by (simp add: bit.conj_disj_distrib2)
qed

lemma entry_simps:
  assumes "offset f = 0"
  shows "pte_addr (f OR 3) = f" "pte_addr (f OR 7) = f" "(f OR 3) AND 1 = 1" "(f OR 7) AND 1 = 1"
    "(f OR 3) AND 4 = 0" "(f OR 7) AND 4 = 4"
  using page_of_entry [OF assms] flag_of_entry [OF assms] by auto

section \<open>Address spaces\<close>

text \<open>
  A page directory whose frame is held, and whose present entries name page tables in other held
  frames, no table twice.
\<close>

definition present :: "(u32 \<Rightarrow> u32) \<Rightarrow> u32 \<Rightarrow> u32 \<Rightarrow> bool" where
  "present m pd i \<longleftrightarrow> m (pd + 4 * i) AND 1 \<noteq> 0"

definition table :: "(u32 \<Rightarrow> u32) \<Rightarrow> u32 \<Rightarrow> u32 \<Rightarrow> u32" where
  "table m pd i = pte_addr (m (pd + 4 * i))"

definition space_ok :: "u32 \<Rightarrow> phys \<Rightarrow> u32 \<Rightarrow> bool" where
  "space_ok lo s pd \<longleftrightarrow>
     phys_inv lo s \<and> pd \<in> held_frames lo s \<and>
     (\<forall>i < 1024. present (pm_mem s) pd i \<longrightarrow>
        table (pm_mem s) pd i \<in> held_frames lo s \<and> table (pm_mem s) pd i \<noteq> pd) \<and>
     (\<forall>i < 1024. \<forall>j < 1024. present (pm_mem s) pd i \<and> present (pm_mem s) pd j \<and>
        table (pm_mem s) pd i = table (pm_mem s) pd j \<longrightarrow> i = j)"

lemma walk_alt:
  "walk m pd va =
     (if present m pd (va_pdi va) then
        let pte = m (table m pd (va_pdi va) + 4 * va_pti va) in
        if pte AND 1 = 0 then None
        else Some (pte_addr pte OR offset va, m (pd + 4 * va_pdi va) AND 4 \<noteq> 0 \<and> pte AND 4 \<noteq> 0)
      else None)"
  by (simp add: walk_def present_def table_def Let_def)

lemma space_phys: "space_ok lo s pd \<Longrightarrow> phys_inv lo s \<and> pd \<in> held_frames lo s \<and> offset pd = 0"
  using held_offset by (auto simp: space_ok_def)

lemma space_table:
  assumes "space_ok lo s pd" "present (pm_mem s) pd i" "i < 1024"
  shows "table (pm_mem s) pd i \<in> held_frames lo s" "table (pm_mem s) pd i \<noteq> pd"
    and "offset (table (pm_mem s) pd i) = 0"
  using assms held_offset by (auto simp: space_ok_def)

lemma held_write:
  assumes "phys_inv lo s" "p \<in> held_frames lo s" "offset p = 0" "i < 1024"
  shows "phys_inv lo (write32 (p + 4 * i) v s)" "held_frames lo (write32 (p + 4 * i) v s) = held_frames lo s"
  using frames.store_ok [OF assms(1,2) slot_in_frame [OF assms(3,4)]] by auto

lemma pm_mem_write32 [simp]: "pm_mem (write32 a v s) = (pm_mem s)(a := v)"
  by (simp add: write32_def)

text \<open>Writing an entry of one of the page tables.\<close>

lemma space_write_pte:
  assumes sp: "space_ok lo s pd" and pi: "present (pm_mem s) pd (va_pdi va)"
    and s': "s' = write32 (table (pm_mem s) pd (va_pdi va) + 4 * va_pti va) v s"
  shows "space_ok lo s' pd" and "held_frames lo s' = held_frames lo s"
    and "\<And>va'. ppn va' \<noteq> ppn va \<Longrightarrow> walk (pm_mem s') pd va' = walk (pm_mem s) pd va'"
    and "pm_mem s' (pd + 4 * va_pdi va) = pm_mem s (pd + 4 * va_pdi va)"
    and "walk (pm_mem s') pd va = (if v AND 1 = 0 then None
      else Some (pte_addr v OR offset va, pm_mem s (pd + 4 * va_pdi va) AND 4 \<noteq> 0 \<and> v AND 4 \<noteq> 0))"
proof -
  let ?t = "table (pm_mem s) pd (va_pdi va)"
  note T = space_table [OF sp pi va_index_bounds(1)] and O = space_phys [OF sp]
  have same: "pm_mem s' (pd + 4 * i) = pm_mem s (pd + 4 * i)" if "i < 1024" for i
    using slot_disjoint [OF T(3) _ T(2) va_index_bounds(2) [of va] that] O by (auto simp: s')
  note W = held_write [OF _ T(1,3) va_index_bounds(2) [of va], of v]
  show held: "held_frames lo s' = held_frames lo s" using W O by (simp add: s')
  have inv: "phys_inv lo s'" using W O by (simp add: s')
  have PT: "present (pm_mem s') pd i = present (pm_mem s) pd i" "table (pm_mem s') pd i = table (pm_mem s) pd i"
    if "i < 1024" for i using same [OF that] by (auto simp: present_def table_def)
  then show "space_ok lo s' pd"
    using sp inv held unfolding space_ok_def by auto
  show "pm_mem s' (pd + 4 * va_pdi va) = pm_mem s (pd + 4 * va_pdi va)"
    by (rule same) (rule va_index_bounds)
  then show "walk (pm_mem s') pd va = (if v AND 1 = 0 then None
      else Some (pte_addr v OR offset va, pm_mem s (pd + 4 * va_pdi va) AND 4 \<noteq> 0 \<and> v AND 4 \<noteq> 0))"
    using pi PT [OF va_index_bounds(1) [of va]] by (simp add: walk_alt s' Let_def)
  show "walk (pm_mem s') pd va' = walk (pm_mem s) pd va'" if ne: "ppn va' \<noteq> ppn va" for va'
  proof (cases "present (pm_mem s) pd (va_pdi va')")
    case True
    have "table (pm_mem s) pd (va_pdi va') + 4 * va_pti va' \<noteq> ?t + 4 * va_pti va"
    proof (cases "va_pdi va' = va_pdi va")
      case True
      then show ?thesis
        using ne slot_inject [OF T(3) va_index_bounds(2) [of va'] va_index_bounds(2) [of va]]
        by (auto simp: same_page_iff)
    next
      case False
      then have "table (pm_mem s) pd (va_pdi va') \<noteq> ?t"
        using sp pi True va_index_bounds(1) unfolding space_ok_def by blast
      then show ?thesis
        using slot_disjoint [OF space_table(3) [OF sp True va_index_bounds(1)] T(3)] va_index_bounds(2)
        by blast
    qed
    then have "pm_mem s' (table (pm_mem s) pd (va_pdi va') + 4 * va_pti va') =
        pm_mem s (table (pm_mem s) pd (va_pdi va') + 4 * va_pti va')" by (simp add: s')
    then show ?thesis
      using PT [OF va_index_bounds(1) [of va']] same [OF va_index_bounds(1) [of va']]
      by (simp add: walk_alt Let_def)
  next
    case False
    then show ?thesis using PT [OF va_index_bounds(1) [of va']] by (simp add: walk_alt)
  qed
qed

text \<open>Installing a fresh page table.\<close>

lemma space_new_table:
  assumes sp: "space_ok lo s pd" and np: "\<not> present (pm_mem s) pd i" and i: "i < 1024"
    and a: "alloc_frame s = Inr (f, s1)" and x: "x = 3 \<or> x = 7"
    and s': "s' = write32 (pd + 4 * i) (f OR x) s1"
  shows "space_ok lo s' pd" and "held_frames lo s' = insert f (held_frames lo s)"
    and "f \<notin> held_frames lo s" and "\<And>va. walk (pm_mem s') pd va = walk (pm_mem s) pd va"
    and "present (pm_mem s') pd i" "table (pm_mem s') pd i = f"
    and "\<And>p k. p \<in> held_frames lo s \<Longrightarrow> p \<noteq> pd \<Longrightarrow> k \<in> frame_words p \<Longrightarrow> pm_mem s' k = pm_mem s k"
proof -
  note O = space_phys [OF sp]
  obtain fl where ok: "phys_ok lo s fl" using O by (auto simp: phys_inv_def)
  obtain fl' where f: "phys_ok lo s1 fl'" "f \<notin> held_frames lo s"
    "held_frames lo s1 = insert f (held_frames lo s)" "offset f = 0"
    and mem: "pm_mem s1 = (\<lambda>a. if a \<in> frame_words f then 0 else pm_mem s a)"
    by (rule alloc_frame_held [OF ok a]) blast
  show "f \<notin> held_frames lo s" by (rule f(2))
  have fpd: "f \<noteq> pd" using f(2) O by auto
  have kept: "pm_mem s1 k = pm_mem s k" if "p \<in> held_frames lo s" "k \<in> frame_words p" for p k
    using frame_words_disjoint [of p f] held_offset [OF that(1)] f(2,4) that mem by auto
  have pd1: "pm_mem s1 (pd + 4 * j) = pm_mem s (pd + 4 * j)" if "j < 1024" for j
    using kept [of pd] slot_in_frame [of pd j] O that by auto
  have W: "phys_inv lo s'" "held_frames lo s' = held_frames lo s1"
    using held_write [of lo s1 pd i "f OR x"] O f i by (auto simp: s' phys_inv_def)
  show held: "held_frames lo s' = insert f (held_frames lo s)" using W f by simp
  show "pm_mem s' k = pm_mem s k" if "p \<in> held_frames lo s" "p \<noteq> pd" "k \<in> frame_words p" for p k
    using kept [OF that(1,3)] slot_in_frame [of pd i] i O frame_words_disjoint [of p pd]
      held_offset [OF that(1)] that by (auto simp: s')
  note kept' = this
  have at: "pm_mem s' (pd + 4 * i) = f OR x" by (simp add: s')
  have other: "pm_mem s' (pd + 4 * j) = pm_mem s (pd + 4 * j)" if "j < 1024" "j \<noteq> i" for j
    using slot_inject [of pd j i] O that i pd1 by (simp add: s')
  show pres: "present (pm_mem s') pd i" and tab: "table (pm_mem s') pd i = f"
    using x entry_simps [OF f(4)] by (auto simp: present_def table_def at)
  have PT: "present (pm_mem s') pd j = present (pm_mem s) pd j" "table (pm_mem s') pd j = table (pm_mem s) pd j"
    if "j < 1024" "j \<noteq> i" for j using other [OF that] by (auto simp: present_def table_def)
  show "space_ok lo s' pd"
    unfolding space_ok_def
  proof (intro conjI allI impI)
    fix j k
    assume jk: "j < 1024" "k < 1024" and
      e: "present (pm_mem s') pd j \<and> present (pm_mem s') pd k \<and> table (pm_mem s') pd j = table (pm_mem s') pd k"
    have fresh: "table (pm_mem s) pd l \<noteq> f" if "present (pm_mem s) pd l" "l < 1024" for l
      using space_table(1) [OF sp that] f(2) by auto
    then show "j = k"
      using e sp tab PT jk unfolding space_ok_def by metis
  next
    fix j assume j: "j < 1024" "present (pm_mem s') pd j"
    show "table (pm_mem s') pd j \<in> held_frames lo s'"
      using j sp PT [of j] held tab by (cases "j = i") (auto simp: space_ok_def)
    show "table (pm_mem s') pd j \<noteq> pd"
      using j sp PT [of j] fpd tab by (cases "j = i") (auto simp: space_ok_def)
  qed (use W O held in auto)
  show "walk (pm_mem s') pd va = walk (pm_mem s) pd va" for va
  proof (cases "va_pdi va = i")
    case True
    have "f + 4 * va_pti va \<noteq> pd + 4 * i"
      using slot_disjoint [OF f(4) _ fpd va_index_bounds(2) i] O by auto
    moreover have "pm_mem s1 (f + 4 * va_pti va) = 0"
      using slot_in_frame [OF f(4) va_index_bounds(2)] by (simp add: mem)
    ultimately have "pm_mem s' (f + 4 * va_pti va) = 0" by (simp add: s')
    then show ?thesis using True np pres tab by (simp add: walk_alt)
  next
    case False
    note P = PT [OF va_index_bounds(1) False]
    show ?thesis
    proof (cases "present (pm_mem s) pd (va_pdi va)")
      case True
      note T = space_table [OF sp True va_index_bounds(1)]
      have "pm_mem s' (table (pm_mem s) pd (va_pdi va) + 4 * va_pti va) =
          pm_mem s (table (pm_mem s) pd (va_pdi va) + 4 * va_pti va)"
        by (rule kept' [OF T(1,2) slot_in_frame [OF T(3) va_index_bounds(2)]])
      then show ?thesis using P other [OF va_index_bounds(1) False] by (simp add: walk_alt Let_def)
    next
      case False
      then show ?thesis using P by (simp add: walk_alt)
    qed
  qed
qed

text \<open>Handing out a frame leaves an address space as it is.\<close>

lemma space_alloc:
  assumes sp: "space_ok lo s pd" and a: "alloc_frame s = Inr (f, s')"
  shows "space_ok lo s' pd" and "held_frames lo s' = insert f (held_frames lo s)"
    and "f \<notin> held_frames lo s" "offset f = 0" "\<forall>k \<in> frame_words f. pm_mem s' k = 0"
    and "\<And>va. walk (pm_mem s') pd va = walk (pm_mem s) pd va"
    and "\<And>i. i < 1024 \<Longrightarrow> pm_mem s' (pd + 4 * i) = pm_mem s (pd + 4 * i)"
proof -
  note O = space_phys [OF sp]
  obtain fl where ok: "phys_ok lo s fl" using O by (auto simp: phys_inv_def)
  obtain fl' where f: "phys_ok lo s' fl'" "f \<notin> held_frames lo s"
    "held_frames lo s' = insert f (held_frames lo s)" "offset f = 0"
    and mem: "pm_mem s' = (\<lambda>a. if a \<in> frame_words f then 0 else pm_mem s a)"
    by (rule alloc_frame_held [OF ok a]) blast
  have kept: "pm_mem s' k = pm_mem s k" if "p \<in> held_frames lo s" "k \<in> frame_words p" for p k
    using frame_words_disjoint [of p f] held_offset [OF that(1)] f(2,4) that mem by auto
  show pd: "pm_mem s' (pd + 4 * i) = pm_mem s (pd + 4 * i)" if "i < 1024" for i
    using kept [of pd] slot_in_frame [of pd i] O that by auto
  then have PT: "present (pm_mem s') pd i = present (pm_mem s) pd i"
    "table (pm_mem s') pd i = table (pm_mem s) pd i" if "i < 1024" for i
    using that by (auto simp: present_def table_def)
  have "phys_inv lo s'" using f by (auto simp: phys_inv_def)
  then show "space_ok lo s' pd" using sp f(3) PT unfolding space_ok_def by auto
  show "held_frames lo s' = insert f (held_frames lo s)" "f \<notin> held_frames lo s" "offset f = 0" by fact+
  show "\<forall>k \<in> frame_words f. pm_mem s' k = 0" by (simp add: mem)
  show "walk (pm_mem s') pd va = walk (pm_mem s) pd va" for va
  proof (cases "present (pm_mem s) pd (va_pdi va)")
    case True
    note T = space_table [OF sp True va_index_bounds(1)]
    have "pm_mem s' (table (pm_mem s) pd (va_pdi va) + 4 * va_pti va) =
        pm_mem s (table (pm_mem s) pd (va_pdi va) + 4 * va_pti va)"
      by (rule kept [OF T(1) slot_in_frame [OF T(3) va_index_bounds(2)]])
    then show ?thesis using PT pd va_index_bounds(1) [of va] by (simp add: walk_alt Let_def)
  next
    case False
    then show ?thesis using PT va_index_bounds(1) [of va] by (simp add: walk_alt)
  qed
qed

lemma special_alt: "va = ioAPIC c \<or> va = localAPIC c \<or> va < 0x80000000 \<longleftrightarrow> is_special c va"
  by (auto simp: is_special_def)

lemma entry_pa:
  assumes "offset pa = 0" "x = 3 \<or> x = 7"
  shows "pte_addr (pa OR x) = pa" "(pa OR x) AND 1 \<noteq> 0" "(pa OR x) AND 4 \<noteq> 0 \<longleftrightarrow> x = 7"
  using assms(2) entry_simps [OF assms(1)] by auto

lemma vmm_map_ok:
  assumes sp: "space_ok lo s pd" and pa: "offset pa = 0" and m: "vmm_map c pd va pa s = Inr s'"
  shows "space_ok lo s' pd" and "held_frames lo s \<subseteq> held_frames lo s'"
    and "walk (pm_mem s') pd va = Some (pa OR offset va, \<not> is_special c va \<and>
      (\<not> present (pm_mem s) pd (va_pdi va) \<or> pm_mem s (pd + 4 * va_pdi va) AND 4 \<noteq> 0))"
    and "\<And>va'. ppn va' \<noteq> ppn va \<Longrightarrow> walk (pm_mem s') pd va' = walk (pm_mem s) pd va'"
    and "\<And>p k. p \<in> held_frames lo s \<Longrightarrow> p \<noteq> pd \<Longrightarrow>
      \<forall>i < 1024. present (pm_mem s) pd i \<longrightarrow> table (pm_mem s) pd i \<noteq> p \<Longrightarrow>
      k \<in> frame_words p \<Longrightarrow> pm_mem s' k = pm_mem s k"
proof -
  let ?x = "if is_special c va then 3 else 7 :: u32"
  let ?s' = "\<lambda>s1. write32 (table (pm_mem s1) pd (va_pdi va) + 4 * va_pti va) (pa OR ?x) s1"
  have x: "?x = 3 \<or> ?x = 7" by simp
  note E = entry_pa [OF pa x] and B = va_index_bounds
  obtain s1 where s1: "s' = ?s' s1" "space_ok lo s1 pd" "present (pm_mem s1) pd (va_pdi va)"
    and H: "held_frames lo s \<subseteq> held_frames lo s1"
    and W: "\<And>va'. walk (pm_mem s1) pd va' = walk (pm_mem s) pd va'"
    and U: "pm_mem s1 (pd + 4 * va_pdi va) AND 4 \<noteq> 0 \<longleftrightarrow>
      (if present (pm_mem s) pd (va_pdi va) then pm_mem s (pd + 4 * va_pdi va) AND 4 \<noteq> 0 else \<not> is_special c va)"
    and K: "\<And>p k. p \<in> held_frames lo s \<Longrightarrow> p \<noteq> pd \<Longrightarrow> k \<in> frame_words p \<Longrightarrow> pm_mem s1 k = pm_mem s k"
    and F: "present (pm_mem s) pd (va_pdi va) \<and> s1 = s \<or> table (pm_mem s1) pd (va_pdi va) \<notin> held_frames lo s"
  proof (cases "present (pm_mem s) pd (va_pdi va)")
    case True
    then have "s' = ?s' s"
      using m by (simp add: vmm_map_def map_pde_def special_alt present_def table_def read32_def pte_addr_def Let_def)
    then show ?thesis using sp True that [of s] by simp
  next
    case False
    then obtain f t where a: "alloc_frame s = Inr (f, t)"
      using m by (auto simp: vmm_map_def map_pde_def present_def read32_def rbind_Inr_conv)
    let ?s1 = "write32 (pd + 4 * va_pdi va) (f OR ?x) t"
    note N = space_new_table [OF sp False B(1) a x refl]
    have "s' = ?s' ?s1"
      using False m a
      by (simp add: vmm_map_def map_pde_def special_alt present_def table_def read32_def pte_addr_def Let_def)
    moreover have "offset f = 0" by (rule space_alloc(4) [OF sp a])
    then have "pm_mem ?s1 (pd + 4 * va_pdi va) AND 4 \<noteq> 0 \<longleftrightarrow> \<not> is_special c va"
      using entry_simps [of f] by simp
    ultimately show ?thesis using N False that [of ?s1] by auto
  qed
  note S = space_write_pte [OF s1(2,3,1)]
  show "space_ok lo s' pd" by (rule S)
  show "held_frames lo s \<subseteq> held_frames lo s'" using S(2) H by simp
  show "walk (pm_mem s') pd va' = walk (pm_mem s) pd va'" if "ppn va' \<noteq> ppn va" for va'
    using S(3) [OF that] W by simp
  show "walk (pm_mem s') pd va = Some (pa OR offset va, \<not> is_special c va \<and>
      (\<not> present (pm_mem s) pd (va_pdi va) \<or> pm_mem s (pd + 4 * va_pdi va) AND 4 \<noteq> 0))"
    using S(5) E U by auto
  show "pm_mem s' k = pm_mem s k"
    if p: "p \<in> held_frames lo s" "p \<noteq> pd" "k \<in> frame_words p"
      "\<forall>i < 1024. present (pm_mem s) pd i \<longrightarrow> table (pm_mem s) pd i \<noteq> p" for p k
  proof -
    let ?t = "table (pm_mem s1) pd (va_pdi va)"
    have "?t \<noteq> p" using F p(1,4) B(1) by auto
    then have "?t + 4 * va_pti va \<notin> frame_words p"
      using slot_in_frame [OF space_table(3) [OF s1(2,3) B(1)] B(2)]
        frame_words_disjoint [OF space_table(3) [OF s1(2,3) B(1)] held_offset [OF p(1)]] by blast
    then show ?thesis using K [OF p(1-3)] p(3) by (auto simp: s1(1))
  qed
qed

lemma vmm_map_total:
  assumes "present (pm_mem s) pd (va_pdi va) \<or> alloc_frame s \<noteq> Inl (Panic ''no more frames'')"
    and "space_ok lo s pd"
  shows "\<exists>s'. vmm_map c pd va pa s = Inr s'"
proof (cases "present (pm_mem s) pd (va_pdi va)")
  case True
  then show ?thesis by (auto simp: vmm_map_def map_pde_def present_def read32_def Let_def)
next
  case False
  obtain fl where ok: "phys_ok lo s fl" using assms(2) by (auto simp: space_ok_def phys_inv_def)
  obtain f t where "alloc_frame s = Inr (f, t)"
    using assms(1) False by (cases rule: alloc_frame_ok [OF ok]) auto
  then show ?thesis using False by (auto simp: vmm_map_def map_pde_def present_def read32_def Let_def)
qed

section \<open>Properties\<close>

lemma framedown_offset: "offset (framedown va) = 0"
  using framedown_uint [of va] by (simp add: offset_0_iff)

lemma framedown_ppn: "ppn (framedown va) = ppn va"
  using framedown_uint [of va] by (simp add: word_uint_eq_iff ppn_uint)

lemma walk_page:
  assumes "ppn va = ppn va'" "offset va = 0" "walk m pd va = Some (f, u)"
  shows "walk m pd va' = Some (f OR offset va', u)"
  using assms unfolding same_page_iff walk_def by (auto simp: Let_def split: if_splits)

text \<open>A directory without entries, in the first frame of a range of four.\<close>

definition demo_space :: phys where
  "demo_space = bzero_frame 0x600000 (demo_phys\<lparr>pm_avail := 0x601000\<rparr>)"

lemma demo_space_alloc: "alloc_frame demo_phys = Inr (0x600000, demo_space)"
  by (simp add: demo_space_def alloc_frame_def take_frame_def demo_phys_def offset_def FRAME_SIZE_def)

lemma demo_space_empty: "\<not> present (pm_mem demo_space) 0x600000 i" if "i < 1024"
proof -
  obtain fl where "pm_mem demo_space = (\<lambda>a. if a \<in> frame_words 0x600000 then 0 else pm_mem demo_phys a)"
    by (rule alloc_frame_held [OF demo_phys_ok demo_space_alloc]) auto
  then show ?thesis using slot_in_frame [of "0x600000" i] that by (simp add: present_def offset_def)
qed

lemma demo_space_ok: "space_ok VMM_FRAMES demo_space 0x600000"
proof -
  obtain fl where "phys_ok VMM_FRAMES demo_space fl" "0x600000 \<in> held_frames VMM_FRAMES demo_space"
    by (rule alloc_frame_held [OF demo_phys_ok demo_space_alloc]) auto
  then show ?thesis using demo_space_empty by (auto simp: space_ok_def phys_inv_def)
qed

lemma demo_space_frames: "alloc_frame demo_space \<noteq> Inl e"
  by (simp add: alloc_frame_def take_frame_def demo_space_def bzero_frame_def demo_phys_def offset_def)

lemma vmm_map_panics:
  assumes "space_ok lo s pd" "vmm_map c pd va pa s = Inl e"
  shows "e = Panic ''no more frames''"
proof (cases "\<not> present (pm_mem s) pd (va_pdi va) \<and> alloc_frame s = Inl (Panic ''no more frames'')")
  case True
  then show ?thesis using assms(2) by (simp add: vmm_map_def map_pde_def present_def read32_def)
next
  case False
  then show ?thesis using vmm_map_total [of s pd va lo c pa] assms by auto
qed

text \<open>The page fault handler, once it has a frame and the mapping is done.\<close>

lemma page_fault_maps:
  assumes sp: "space_ok lo (cpu_phys v) pd" and cr3: "cpu_cr3 v = pd" and va: "0x80000000 \<le> framedown fva"
    and a: "alloc_frame (cpu_phys v) = Inr (f, s1)" and m: "vmm_map c pd (framedown fva) f s1 = Inr s2"
  shows "vmm_pageFault c pd pd fva v = Inr (Resume (v\<lparr>cpu_phys := s2\<rparr>))" "space_ok lo s2 pd"
    and "f \<notin> held_frames lo (cpu_phys v)" "\<forall>k \<in> frame_words f. pm_mem s2 k = 0"
    and "walk (pm_mem s2) pd fva = Some (f OR offset fva, \<not> is_special c (framedown fva) \<and>
        (\<not> present (pm_mem (cpu_phys v)) pd (va_pdi fva) \<or> pm_mem (cpu_phys v) (pd + 4 * va_pdi fva) AND 4 \<noteq> 0))"
    and "ppn va' = ppn fva \<or> walk (pm_mem s2) pd va' = walk (pm_mem (cpu_phys v)) pd va'"
proof -
  let ?s = "cpu_phys v" and ?va = "framedown fva"
  have same: "va_pdi ?va = va_pdi fva" using framedown_ppn same_page_iff by blast
  note A = space_alloc [OF sp a]
  note M = vmm_map_ok [OF A(1,4) m]
  have pt: "present (pm_mem s1) pd (va_pdi ?va) = present (pm_mem ?s) pd (va_pdi fva)"
    "pm_mem s1 (pd + 4 * va_pdi ?va) = pm_mem ?s (pd + 4 * va_pdi fva)"
    using A(7) [OF va_index_bounds(1) [of ?va]] same by (simp_all add: present_def)
  have tables: "table (pm_mem s1) pd i \<noteq> f" if "i < 1024" "present (pm_mem s1) pd i" for i
  proof -
    have "present (pm_mem ?s) pd i" "table (pm_mem s1) pd i = table (pm_mem ?s) pd i"
      using A(7) [OF that(1)] that(2) by (simp_all add: present_def table_def)
    then show ?thesis using space_table(1) [OF sp _ that(1)] A(3) by auto
  qed
  have "f \<noteq> pd" using A(3) space_phys [OF sp] by auto
  then show "\<forall>k \<in> frame_words f. pm_mem s2 k = 0" using M(5) [of f] A(2,5) tables by auto
  show "walk (pm_mem s2) pd fva = Some (f OR offset fva, \<not> is_special c ?va \<and>
      (\<not> present (pm_mem ?s) pd (va_pdi fva) \<or> pm_mem ?s (pd + 4 * va_pdi fva) AND 4 \<noteq> 0))"
    using walk_page [OF framedown_ppn framedown_offset] M(3) pt framedown_offset by simp
  show "vmm_pageFault c pd pd fva v = Inr (Resume (v\<lparr>cpu_phys := s2\<rparr>))"
    using m a cr3 va by (simp add: vmm_pageFault_def Let_def)
  show "ppn va' = ppn fva \<or> walk (pm_mem s2) pd va' = walk (pm_mem ?s) pd va'"
    using M(4) [of va'] A(6) framedown_ppn by auto
  show "space_ok lo s2 pd" "f \<notin> held_frames lo ?s" using M(1) A(3) by auto
qed

text \<open>
  C28. \<open>map\<close> makes the processor translate \<open>va\<close> to the frame it was given, for user mode exactly
  when \<open>va\<close> is neither below 0x80000000 nor an APIC page and the page table, if it was there already,
  is open to user mode; the translation of every other page stays as it was, and the address space
  stays well-formed. It fails only for want of a frame for a page table.
\<close>

theorem map_walk:
  assumes "space_ok lo s pd" "offset pa = 0"
  shows "if \<not> present (pm_mem s) pd (va_pdi va) \<and> alloc_frame s = Inl (Panic ''no more frames'')
    then vmm_map c pd va pa s = Inl (Panic ''no more frames'')
    else \<exists>s'. vmm_map c pd va pa s = Inr s' \<and> space_ok lo s' pd \<and>
      walk (pm_mem s') pd va = Some (pa OR offset va, \<not> is_special c va \<and>
        (\<not> present (pm_mem s) pd (va_pdi va) \<or> pm_mem s (pd + 4 * va_pdi va) AND 4 \<noteq> 0)) \<and>
      (\<forall>va'. ppn va' = ppn va \<or> walk (pm_mem s') pd va' = walk (pm_mem s) pd va')"
proof (cases "\<not> present (pm_mem s) pd (va_pdi va) \<and> alloc_frame s = Inl (Panic ''no more frames'')")
  case True
  then show ?thesis by (simp add: vmm_map_def map_pde_def present_def read32_def)
next
  case False
  then obtain s' where s': "vmm_map c pd va pa s = Inr s'"
    using vmm_map_total [of s pd va lo c pa] assms(1) by auto
  show ?thesis using False s' vmm_map_ok(1,3,4) [OF assms s'] by (simp only: if_False) blast
qed

lemma map_walk_witness:
  "\<exists>s'. vmm_map demo_config 0x600000 0x80001000 0x700000 demo_space = Inr s' \<and>
    walk (pm_mem s') 0x600000 0x80001000 = Some (0x700000, True)"
proof -
  have e: "\<not> present (pm_mem demo_space) 0x600000 (va_pdi 0x80001000)"
    by (rule demo_space_empty) (rule va_index_bounds)
  show ?thesis
    using map_walk [OF demo_space_ok, of "0x700000" "0x80001000" demo_config] e demo_space_frames
    by (auto simp: offset_def is_special_def demo_config_def)
qed

text \<open>
  C19. A page fault at or above 0x80000000 by the process that runs: unless the frames are used up,
  the handler returns, the page of the faulting address is translated to a frame that nobody held
  and that is zero, every other page is translated as before, and user mode may use the page
  exactly when it is not an APIC page and its page table is open to user mode.
\<close>

theorem page_fault_backed:
  assumes sp: "space_ok lo (cpu_phys v) pd" and cr3: "cpu_cr3 v = pd" and hi: "0x80000000 \<le> fva"
  shows "vmm_pageFault c pd pd fva v = Inl (Panic ''no more frames'') \<or>
    (\<exists>v' f. vmm_pageFault c pd pd fva v = Inr (Resume v') \<and> space_ok lo (cpu_phys v') pd \<and>
      f \<notin> held_frames lo (cpu_phys v) \<and> (\<forall>k \<in> frame_words f. pm_mem (cpu_phys v') k = 0) \<and>
      walk (pm_mem (cpu_phys v')) pd fva = Some (f OR offset fva, \<not> is_special c (framedown fva) \<and>
        (\<not> present (pm_mem (cpu_phys v)) pd (va_pdi fva) \<or>
         pm_mem (cpu_phys v) (pd + 4 * va_pdi fva) AND 4 \<noteq> 0)) \<and>
      (\<forall>va'. ppn va' = ppn fva \<or>
        walk (pm_mem (cpu_phys v')) pd va' = walk (pm_mem (cpu_phys v)) pd va'))"
proof -
  let ?s = "cpu_phys v" and ?va = "framedown fva"
  have "0x80000 \<le> uint fva div 0x1000" using hi by (simp add: word_le_def)
  then have va: "0x80000000 \<le> ?va" using framedown_uint [of fva] by (simp add: word_le_def)
  obtain fl where ok: "phys_ok lo ?s fl" using sp by (auto simp: space_ok_def phys_inv_def)
  show ?thesis
  proof (cases "alloc_frame ?s")
    case (Inl e)
    then have "e = Panic ''no more frames''" by (cases rule: alloc_frame_ok [OF ok]) auto
    then show ?thesis using Inl cr3 va by (simp add: vmm_pageFault_def Let_def)
  next
    case (Inr q)
    then obtain f s1 where a: "alloc_frame ?s = Inr (f, s1)" by (cases q) auto
    show ?thesis
    proof (cases "vmm_map c pd ?va f s1")
      case (Inl e)
      then show ?thesis
        using vmm_map_panics [OF space_alloc(1) [OF sp a] Inl] a cr3 va by (simp add: vmm_pageFault_def Let_def)
    next
      case (Inr s2)
      show ?thesis using page_fault_maps [OF sp cr3 va a Inr] by auto
    qed
  qed
qed

lemma page_fault_backed_witness:
  "\<exists>v'. vmm_pageFault demo_config 0x600000 0x600000 0x80001234
      \<lparr>cpu_phys = demo_space, cpu_cr3 = 0x600000, cpu_flushed = []\<rparr> = Inr (Resume v')"
proof -
  let ?v = "\<lparr>cpu_phys = demo_space, cpu_cr3 = 0x600000, cpu_flushed = []\<rparr>"
  have a: "alloc_frame demo_space = Inr (0x601000, bzero_frame 0x601000 (demo_space\<lparr>pm_avail := 0x602000\<rparr>))"
    by (simp add: alloc_frame_def take_frame_def demo_space_def bzero_frame_def demo_phys_def offset_def FRAME_SIZE_def)
  have b: "alloc_frame (bzero_frame 0x601000 (demo_space\<lparr>pm_avail := 0x602000\<rparr>)) \<noteq> Inl e" for e
    by (simp add: alloc_frame_def take_frame_def demo_space_def bzero_frame_def demo_phys_def offset_def FRAME_SIZE_def)
  have "vmm_pageFault demo_config 0x600000 0x600000 0x80001234 ?v \<noteq> Inl (Panic ''no more frames'')"
    using a b vmm_map_total [OF _ space_alloc(1) [OF demo_space_ok a], of "framedown 0x80001234" demo_config "0x601000"]
    by (auto simp: vmm_pageFault_def Let_def framedown_def FRAME_SIZE_def offset_def)
  then show ?thesis
    using page_fault_backed [of VMM_FRAMES ?v "0x600000" "0x80001234" demo_config] demo_space_ok by auto
qed

text \<open>
  When a process touches a page whose page table is there but closed to user mode, as is the
  one \<open>make_pd\<close> makes for the APIC pages, the handler takes a frame, maps it and returns, and user
  mode still may not use the page: the access faults again, and each round holds one more frame.
\<close>

theorem closed_region_refaults:
  assumes "space_ok lo (cpu_phys v) pd" "cpu_cr3 v = pd" "0x80000000 \<le> fva"
    and "present (pm_mem (cpu_phys v)) pd (va_pdi fva)"
    and "pm_mem (cpu_phys v) (pd + 4 * va_pdi fva) AND 4 = 0"
    and "vmm_pageFault c pd pd fva v = Inr (Resume v')"
  shows "(\<exists>a. walk (pm_mem (cpu_phys v')) pd fva = Some (a, False)) \<and>
    held_frames lo (cpu_phys v) \<subset> held_frames lo (cpu_phys v')"
proof -
  let ?s = "cpu_phys v" and ?va = "framedown fva"
  obtain f s1 s2 where a: "alloc_frame ?s = Inr (f, s1)" and m: "vmm_map c pd ?va f s1 = Inr s2"
    and v': "v' = v\<lparr>cpu_phys := s2\<rparr>"
    using assms(2,6) by (auto simp: vmm_pageFault_def Let_def rbind_Inr_conv split: if_splits)
  note A = space_alloc [OF assms(1) a] and M = vmm_map_ok [OF space_alloc(1,4) [OF assms(1) a] m]
  have same: "va_pdi ?va = va_pdi fva" using framedown_ppn same_page_iff by blast
  have pde: "pm_mem s1 (pd + 4 * va_pdi ?va) = pm_mem ?s (pd + 4 * va_pdi fva)"
    using A(7) [OF va_index_bounds(1) [of ?va]] same by simp
  then have "walk (pm_mem s2) pd ?va = Some (f OR offset ?va, False)"
    using M(3) assms(4,5) by (simp add: present_def)
  then have "walk (pm_mem s2) pd fva = Some (f OR offset fva, False)"
    using walk_page [OF framedown_ppn framedown_offset] framedown_offset by simp
  moreover have "held_frames lo ?s \<subset> held_frames lo s2"
    using A(2,3) M(2) by auto
  ultimately show ?thesis by (simp add: v')
qed

text \<open>The directory after \<open>map(pd, kConfig.ioAPIC, kConfig.ioAPIC)\<close>.\<close>

definition demo_apic :: phys where
  "demo_apic = write32 (0x601000 + 4 * va_pti 0xFEC00000) (0xFEC00000 OR 3)
     (write32 (0x600000 + 4 * va_pdi 0xFEC00000) (0x601000 OR 3)
       (bzero_frame 0x601000 (demo_space\<lparr>pm_avail := 0x602000\<rparr>)))"

lemma demo_apic_map: "vmm_map demo_config 0x600000 0xFEC00000 0xFEC00000 demo_space = Inr demo_apic"
proof -
  have "pm_mem demo_space (0x600000 + 4 * va_pdi 0xFEC00000) AND 1 = 0"
    using demo_space_empty [OF va_index_bounds(1) [of "0xFEC00000"]] by (simp add: present_def)
  moreover have "alloc_frame demo_space = Inr (0x601000, bzero_frame 0x601000 (demo_space\<lparr>pm_avail := 0x602000\<rparr>))"
    by (simp add: alloc_frame_def take_frame_def demo_space_def bzero_frame_def demo_phys_def offset_def FRAME_SIZE_def)
  ultimately show ?thesis
    by (simp add: vmm_map_def map_pde_def read32_def demo_apic_def demo_config_def Let_def)
qed

lemma closed_region_refaults_witness:
  "\<exists>v' a. vmm_pageFault demo_config 0x600000 0x600000 0xFEC01000
      \<lparr>cpu_phys = demo_apic, cpu_cr3 = 0x600000, cpu_flushed = []\<rparr> = Inr (Resume v') \<and>
    walk (pm_mem (cpu_phys v')) 0x600000 0xFEC01000 = Some (a, False)"
proof -
  let ?v = "\<lparr>cpu_phys = demo_apic, cpu_cr3 = 0x600000, cpu_flushed = []\<rparr>"
  have sp: "space_ok VMM_FRAMES demo_apic 0x600000"
    by (rule vmm_map_ok(1) [OF demo_space_ok _ demo_apic_map]) (simp add: offset_def)
  have pde: "pm_mem demo_apic (0x600000 + 4 * va_pdi 0xFEC01000) = 0x601003"
    by (simp add: demo_apic_def va_pdi_def va_pti_def)
  have pr: "present (pm_mem demo_apic) 0x600000 (va_pdi 0xFEC01000)"
    using pde by (simp add: present_def)
  have al: "alloc_frame demo_apic = Inr (0x602000, bzero_frame 0x602000 (demo_apic\<lparr>pm_avail := 0x603000\<rparr>))"
    by (simp add: alloc_frame_def take_frame_def demo_apic_def demo_space_def bzero_frame_def write32_def
      demo_phys_def offset_def FRAME_SIZE_def)
  let ?s = "bzero_frame 0x602000 (demo_apic\<lparr>pm_avail := 0x603000\<rparr>)"
  have "present (pm_mem ?s) 0x600000 (va_pdi 0xFEC01000)"
    using pr space_alloc(7) [OF sp al va_index_bounds(1) [of "0xFEC01000"]] by (simp add: present_def)
  then obtain s' where "vmm_map demo_config 0x600000 0xFEC01000 0x602000 ?s = Inr s'"
    using vmm_map_total [of ?s "0x600000" "0xFEC01000" VMM_FRAMES] space_alloc(1) [OF sp al] by blast
  then have f: "vmm_pageFault demo_config 0x600000 0x600000 0xFEC01000 ?v = Inr (Resume (?v\<lparr>cpu_phys := s'\<rparr>))"
    by (simp add: vmm_pageFault_def al framedown_def FRAME_SIZE_def Let_def)
  then show ?thesis
    using closed_region_refaults [of VMM_FRAMES ?v "0x600000" "0xFEC01000", OF _ _ _ _ _ f] sp pr pde by auto
qed

text \<open>A fault below 0x80000000 ends the process with status 1 and changes nothing.\<close>

theorem low_fault_exits:
  assumes "cpu_cr3 v = pd" "fva < 0x80000000"
  shows "vmm_pageFault c pd pd fva v = Inr (ExitProcess 1)"
proof -
  have "uint fva div 0x1000 < 0x80000" using assms(2) by (simp add: word_less_def)
  then have "\<not> 0x80000000 \<le> framedown fva" using framedown_uint [of fva] by (simp add: word_le_def)
  then show ?thesis using assms(1) by (simp add: vmm_pageFault_def Let_def)
qed

lemma low_fault_exits_witness:
  "vmm_pageFault demo_config 0x600000 0x600000 0x10
    \<lparr>cpu_phys = demo_space, cpu_cr3 = 0x600000, cpu_flushed = []\<rparr> = Inr (ExitProcess 1)"
  by (rule low_fault_exits) simp_all

end
