(* ===== verification/Snprintf.thy ===== *)
theory Snprintf
  imports Prelude
begin

text \<open>
  The formatter behind \<open>Debug::printf\<close>: \<open>kernel/snprintf.cc\<close>, of which \<open>nikshita.dir/sbin/printf.c\<close> is a
  copy. The state machine \<open>dopr\<close> and the conversions \<open>fmtstr\<close>, \<open>fmtint\<close> and \<open>fmtfp\<close> write to a stream,
  which is the list of the characters put so far.
\<close>

section \<open>The code\<close>

text \<open>The format flags.\<close>

definition DP_F_MINUS :: u32 where "DP_F_MINUS = 1"
definition DP_F_PLUS :: u32 where "DP_F_PLUS = 2"
definition DP_F_SPACE :: u32 where "DP_F_SPACE = 4"
definition DP_F_NUM :: u32 where "DP_F_NUM = 8"
definition DP_F_ZERO :: u32 where "DP_F_ZERO = 16"
definition DP_F_UP :: u32 where "DP_F_UP = 32"
definition DP_F_UNSIGNED :: u32 where "DP_F_UNSIGNED = 64"

definition has_flag :: "u32 \<Rightarrow> u32 \<Rightarrow> bool" where
  "has_flag flags f \<longleftrightarrow> flags AND f \<noteq> 0"

text \<open>The buffer and \<open>currlen\<close>.\<close>

record ostream =
  os_out :: string
  os_len :: int

definition dopr_outch :: "char \<Rightarrow> ostream \<Rightarrow> ostream" where
  "dopr_outch c b = b\<lparr>os_len := os_len b + 1, os_out := os_out b @ [c]\<rparr>"

fun outch_times :: "nat \<Rightarrow> char \<Rightarrow> ostream \<Rightarrow> ostream" where
  "outch_times 0 c b = b"
| "outch_times (Suc n) c b = outch_times n c (dopr_outch c b)"

definition isdigit :: "char \<Rightarrow> bool" where
  "isdigit c \<longleftrightarrow> of_char c \<ge> (48 :: int) \<and> of_char c \<le> (57 :: int)"

definition char_to_int :: "char \<Rightarrow> int" where
  "char_to_int c = of_char c - 48"

text \<open>
  \<open>fmtstr\<close>: \<open>None\<close> is the null pointer. The three loops count \<open>padlen\<close> down (or up) and \<open>cnt\<close> up;
  they return the new \<open>cnt\<close>.
\<close>

fun fmtstr_pad :: "nat \<Rightarrow> int \<Rightarrow> int \<Rightarrow> ostream \<Rightarrow> int \<times> ostream" where
  "fmtstr_pad 0 cnt mx b = (cnt, b)"
| "fmtstr_pad (Suc n) cnt mx b =
     (if cnt < mx then fmtstr_pad n (cnt + 1) mx (dopr_outch CHR '' '' b) else (cnt, b))"

fun fmtstr_copy :: "string \<Rightarrow> int \<Rightarrow> int \<Rightarrow> ostream \<Rightarrow> int \<times> ostream" where
  "fmtstr_copy [] cnt mx b = (cnt, b)"
| "fmtstr_copy (c # cs) cnt mx b =
     (if cnt < mx then fmtstr_copy cs (cnt + 1) mx (dopr_outch c b) else (cnt, b))"

definition fmtstr :: "string option \<Rightarrow> u32 \<Rightarrow> int \<Rightarrow> int \<Rightarrow> ostream \<Rightarrow> ostream" where
  "fmtstr value flags mn mx b =
     (let str = (case value of None \<Rightarrow> ''<NULL>'' | Some v \<Rightarrow> v);
          strln = int (length str);
          padlen = (if mn - strln < 0 then 0 else mn - strln);
          padlen = (if has_flag flags DP_F_MINUS then - padlen else padlen);
          (cnt1, b1) = fmtstr_pad (nat padlen) 0 mx b;
          (cnt2, b2) = fmtstr_copy str cnt1 mx b1;
          (cnt3, b3) = fmtstr_pad (nat (- padlen)) cnt2 mx b2
      in b3)"

definition digit_char :: "bool \<Rightarrow> u32 \<Rightarrow> char" where
  "digit_char caps d =
     (if caps then ''0123456789ABCDEF'' else ''0123456789abcdef'') ! unat d"

text \<open>The \<open>do\<close> loop that fills \<open>convert\<close>, least significant digit first, at most \<open>n\<close> of them.\<close>

fun convert_digits :: "bool \<Rightarrow> u32 \<Rightarrow> nat \<Rightarrow> u32 \<Rightarrow> string" where
  "convert_digits caps base 0 uvalue = []"
| "convert_digits caps base (Suc n) uvalue =
     digit_char caps (uvalue mod base) #
     (if uvalue div base \<noteq> 0 then convert_digits caps base n (uvalue div base) else [])"

definition sign_of :: "int \<Rightarrow> u32 \<Rightarrow> char option" where
  "sign_of value flags =
     (if has_flag flags DP_F_UNSIGNED then None
      else if value < 0 then Some CHR ''-''
      else if has_flag flags DP_F_PLUS then Some CHR ''+''
      else if has_flag flags DP_F_SPACE then Some CHR '' ''
      else None)"

text \<open>The padding: \<open>(zpadlen, spadlen)\<close>, the second negative for left justification.\<close>

definition fmtint_pads :: "int \<Rightarrow> int \<Rightarrow> u32 \<Rightarrow> bool \<Rightarrow> int \<Rightarrow> int \<times> int" where
  "fmtint_pads mn mx flags sv place =
     (let zpadlen = mx - place;
          spadlen = mn - max mx place - (if sv then 1 else 0);
          zpadlen = (if zpadlen < 0 then 0 else zpadlen);
          spadlen = (if spadlen < 0 then 0 else spadlen);
          (zpadlen, spadlen) = (if has_flag flags DP_F_ZERO then (max zpadlen spadlen, 0)
                                else (zpadlen, spadlen))
      in (zpadlen, if has_flag flags DP_F_MINUS then - spadlen else spadlen))"

text \<open>The output: spaces, sign, zeros, the digits from the last one back, left justified spaces.\<close>

definition fmtint_emit :: "int \<Rightarrow> int \<Rightarrow> char option \<Rightarrow> string \<Rightarrow> ostream \<Rightarrow> ostream" where
  "fmtint_emit zpadlen spadlen signvalue convert b =
     (let b1 = outch_times (nat spadlen) CHR '' '' b;
          b2 = (case signvalue of None \<Rightarrow> b1 | Some c \<Rightarrow> dopr_outch c b1);
          b3 = outch_times (nat zpadlen) CHR ''0'' b2;
          b4 = fold dopr_outch (rev convert) b3
      in outch_times (nat (- spadlen)) CHR '' '' b4)"

definition fmtint_uvalue :: "int \<Rightarrow> u32 \<Rightarrow> u32" where
  "fmtint_uvalue value flags =
     (if \<not> has_flag flags DP_F_UNSIGNED \<and> value < 0 then word_of_int (- value) else word_of_int value)"

definition fmtint :: "int \<Rightarrow> u32 \<Rightarrow> int \<Rightarrow> int \<Rightarrow> u32 \<Rightarrow> ostream \<Rightarrow> ostream" where
  "fmtint value base mn mx flags b =
     (let mx = (if mx < 0 then 0 else mx);
          signvalue = sign_of value flags;
          convert = convert_digits (has_flag flags DP_F_UP) base 20 (fmtint_uvalue value flags);
          place = (if length convert = 20 then 19 else length convert);
          (zpadlen, spadlen) = fmtint_pads mn mx flags (signvalue \<noteq> None) (int place)
      in fmtint_emit zpadlen spadlen signvalue (take place convert) b)"

text \<open>
  What \<open>fmtfp\<close> asks of the floating point hardware: the value is a \<open>long double\<close>, of type \<open>'d\<close>.
\<close>

record 'd fpu =
  fp_neg :: "'d \<Rightarrow> 'd"
  fp_of_int :: "int \<Rightarrow> 'd"
  fp_to_long :: "'d \<Rightarrow> int"
  fp_sub :: "'d \<Rightarrow> 'd \<Rightarrow> 'd"
  fp_mul :: "'d \<Rightarrow> 'd \<Rightarrow> 'd"
  fp_less :: "'d \<Rightarrow> 'd \<Rightarrow> bool"
  fp_ge :: "'d \<Rightarrow> 'd \<Rightarrow> bool"
  fp_half :: 'd

definition abs_val :: "'d fpu \<Rightarrow> 'd \<Rightarrow> 'd" where
  "abs_val F value = (if fp_less F value (fp_of_int F 0) then fp_neg F value else value)"

text \<open>\<open>pow10\<close> counts \<open>exp\<close> down to 0; a negative \<open>exp\<close>, which does not occur, would not end.\<close>

fun pow10 :: "'d fpu \<Rightarrow> nat \<Rightarrow> 'd \<Rightarrow> 'd" where
  "pow10 F 0 result = result"
| "pow10 F (Suc n) result = pow10 F n (fp_mul F result (fp_of_int F 10))"

definition xround :: "'d fpu \<Rightarrow> 'd \<Rightarrow> int" where
  "xround F value =
     (let intpart = fp_to_long F value;
          value = fp_sub F value (fp_of_int F intpart)
      in if fp_ge F value (fp_half F) then intpart + 1 else intpart)"

text \<open>The decimal digits of a non-negative \<open>long\<close>, least significant first, at most \<open>n\<close>.\<close>

fun fp_digits :: "nat \<Rightarrow> int \<Rightarrow> string" where
  "fp_digits 0 v = []"
| "fp_digits (Suc n) v =
     ''0123456789'' ! nat (v mod 10) # (if v div 10 \<noteq> 0 then fp_digits n (v div 10) else [])"

text \<open>
  What \<open>fmtfp\<close> computes before it writes: the precision, the sign, the digits of both parts, least significant first,
  and the padding, negative for left justification.
\<close>

definition fmtfp_parts :: "'d fpu \<Rightarrow> 'd \<Rightarrow> int \<Rightarrow> int \<Rightarrow> u32 \<Rightarrow>
    int \<times> char option \<times> string \<times> string \<times> int \<times> int" where
  "fmtfp_parts F fvalue mn mx flags =
     (let mx = (if mx < 0 then 6 else mx);
          ufvalue = abs_val F fvalue;
          signvalue = (if fp_less F fvalue (fp_of_int F 0) then Some CHR ''-''
                       else if has_flag flags DP_F_PLUS then Some CHR ''+''
                       else if has_flag flags DP_F_SPACE then Some CHR '' '' else None);
          intpart = fp_to_long F ufvalue;
          mx = (if mx > 9 then 9 else mx);
          p10 = pow10 F (nat mx) (fp_of_int F 1);
          fracpart = xround F (fp_mul F p10 (fp_sub F ufvalue (fp_of_int F intpart)));
          (intpart, fracpart) =
            (if fp_ge F (fp_of_int F fracpart) p10
             then (intpart + 1, fp_to_long F (fp_sub F (fp_of_int F fracpart) p10))
             else (intpart, fracpart));
          iconvert = take 19 (fp_digits 20 intpart); iplace = length iconvert;
          fconvert = take 19 (fp_digits 20 fracpart); fplace = length fconvert;
          padlen = mn - int iplace - mx - 1 - (if signvalue \<noteq> None then 1 else 0);
          zpadlen = mx - int fplace;
          zpadlen = (if zpadlen < 0 then 0 else zpadlen);
          padlen = (if padlen < 0 then 0 else padlen);
          padlen = (if has_flag flags DP_F_MINUS then - padlen else padlen)
      in (mx, signvalue, iconvert, fconvert, padlen, zpadlen))"

text \<open>The output: zeros or spaces, sign, integer part, point and fraction, zeros, left justified spaces.\<close>

definition fmtfp_emit :: "bool \<Rightarrow> int \<Rightarrow> char option \<Rightarrow> string \<Rightarrow> string \<Rightarrow> int \<Rightarrow> int \<Rightarrow> ostream \<Rightarrow> ostream" where
  "fmtfp_emit zero mx signvalue iconvert fconvert padlen zpadlen b =
     (let (b, signvalue, padlen) =
            (if zero \<and> padlen > 0 then
               (case signvalue of
                  Some c \<Rightarrow> (outch_times (nat (padlen - 1)) CHR ''0'' (dopr_outch c b), None, 0)
                | None \<Rightarrow> (outch_times (nat padlen) CHR ''0'' b, None, 0))
             else (b, signvalue, padlen));
          b = outch_times (nat padlen) CHR '' '' b;
          b = (case signvalue of None \<Rightarrow> b | Some c \<Rightarrow> dopr_outch c b);
          b = fold dopr_outch (rev iconvert) b;
          b = (if mx > 0 then fold dopr_outch (rev fconvert) (dopr_outch CHR ''.'' b) else b);
          b = outch_times (nat zpadlen) CHR ''0'' b
      in outch_times (nat (- padlen)) CHR '' '' b)"

definition fmtfp :: "'d fpu \<Rightarrow> 'd \<Rightarrow> int \<Rightarrow> int \<Rightarrow> u32 \<Rightarrow> ostream \<Rightarrow> ostream" where
  "fmtfp F fvalue mn mx flags b =
     (let (mx, signvalue, iconvert, fconvert, padlen, zpadlen) = fmtfp_parts F fvalue mn mx flags
      in fmtfp_emit (has_flag flags DP_F_ZERO) mx signvalue iconvert fconvert padlen zpadlen b)"

text \<open>
  The variable arguments, as they lie on the stack: an integer or pointer, a pointer to a string, a
  floating point number. \<open>va_arg\<close> with another type, or with no argument left, is a fault; so is
  reading the format past its terminating null.
\<close>

datatype 'd vararg = VInt u32 | VStr string | VDouble 'd

datatype dp_state = DP_S_DEFAULT | DP_S_FLAGS | DP_S_MIN | DP_S_DOT | DP_S_MAX | DP_S_MOD | DP_S_CONV | DP_S_DONE

datatype dp_cflag = DP_C_NONE | DP_C_SHORT | DP_C_LONG | DP_C_LDOUBLE

text \<open>
  The local variables of \<open>dopr\<close>. \<open>dp_fmt\<close> is what \<open>format\<close> points to, without the null, or \<open>None\<close>
  when it points past the null; \<open>dp_stored\<close> lists what \<open>%n\<close> has stored.
\<close>

record 'd dopr =
  dp_ch :: char
  dp_fmt :: "string option"
  dp_args :: "'d vararg list"
  dp_state :: dp_state
  dp_min :: int
  dp_max :: int
  dp_flags :: u32
  dp_cflags :: dp_cflag
  dp_out :: ostream
  dp_stored :: "(u32 \<times> dp_cflag \<times> int) list"

definition NUL :: char where
  "NUL = CHR 0x00"

definition dopr_next :: "'d dopr \<Rightarrow> 'd dopr res" where
  "dopr_next s =
     (case dp_fmt s of
        None \<Rightarrow> Inl OutOfBounds
      | Some [] \<Rightarrow> Inr (s\<lparr>dp_ch := NUL, dp_fmt := None\<rparr>)
      | Some (c # cs) \<Rightarrow> Inr (s\<lparr>dp_ch := c, dp_fmt := Some cs\<rparr>))"

definition va_word :: "'d dopr \<Rightarrow> (u32 \<times> 'd dopr) res" where
  "va_word s = (case dp_args s of VInt w # as \<Rightarrow> Inr (w, s\<lparr>dp_args := as\<rparr>) | _ \<Rightarrow> Inl BadVarArg)"

definition va_str :: "'d dopr \<Rightarrow> (string option \<times> 'd dopr) res" where
  "va_str s =
     (case dp_args s of
        VStr v # as \<Rightarrow> Inr (Some v, s\<lparr>dp_args := as\<rparr>)
      | VInt w # as \<Rightarrow> if w = 0 then Inr (None, s\<lparr>dp_args := as\<rparr>) else Inl BadVarArg
      | _ \<Rightarrow> Inl BadVarArg)"

definition va_double :: "'d dopr \<Rightarrow> ('d \<times> 'd dopr) res" where
  "va_double s = (case dp_args s of VDouble d # as \<Rightarrow> Inr (d, s\<lparr>dp_args := as\<rparr>) | _ \<Rightarrow> Inl BadVarArg)"

definition add_flag :: "u32 \<Rightarrow> 'd dopr \<Rightarrow> 'd dopr" where
  "add_flag f s = s\<lparr>dp_flags := dp_flags s OR f\<rparr>"

text \<open>An integer conversion: short, long and plain arguments are all one 32-bit word.\<close>

definition conv_int :: "u32 \<Rightarrow> 'd dopr \<Rightarrow> 'd dopr res" where
  "conv_int base s =
     rbind (va_word s) (\<lambda>(w, s1).
     Inr (s1\<lparr>dp_out := fmtint (sint w) base (dp_min s1) (dp_max s1) (dp_flags s1) (dp_out s1)\<rparr>))"

text \<open>The inner \<open>switch\<close> of \<open>DP_S_CONV\<close>.\<close>

definition dopr_conv :: "'d fpu \<Rightarrow> int \<Rightarrow> 'd dopr \<Rightarrow> 'd dopr res" where
  "dopr_conv F maxlen s =
     (let ch = dp_ch s in
      if ch = CHR ''d'' \<or> ch = CHR ''i'' then conv_int 10 s
      else if ch = CHR ''o'' then conv_int 8 (add_flag DP_F_UNSIGNED s)
      else if ch = CHR ''u'' then conv_int 10 (add_flag DP_F_UNSIGNED s)
      else if ch = CHR ''X'' then conv_int 16 (add_flag DP_F_UNSIGNED (add_flag DP_F_UP s))
      else if ch = CHR ''x'' then conv_int 16 (add_flag DP_F_UNSIGNED s)
      else if ch = CHR ''f'' then
        rbind (va_double s) (\<lambda>(d, s1).
        Inr (s1\<lparr>dp_out := fmtfp F d (dp_min s1) (dp_max s1) (dp_flags s1) (dp_out s1)\<rparr>))
      else if ch = CHR ''E'' \<or> ch = CHR ''G'' then
        rbind (va_double (add_flag DP_F_UP s)) (\<lambda>(d, s1). Inr s1)
      else if ch = CHR ''e'' \<or> ch = CHR ''g'' then rbind (va_double s) (\<lambda>(d, s1). Inr s1)
      else if ch = CHR ''c'' then
        rbind (va_word s) (\<lambda>(w, s1). Inr (s1\<lparr>dp_out := dopr_outch (char_of (unat w)) (dp_out s1)\<rparr>))
      else if ch = CHR ''s'' then
        rbind (va_str s) (\<lambda>(v, s1).
          let mx = (if dp_max s1 < 0 then maxlen else dp_max s1)
          in Inr (s1\<lparr>dp_max := mx, dp_out := fmtstr v (dp_flags s1) (dp_min s1) mx (dp_out s1)\<rparr>))
      else if ch = CHR ''p'' then conv_int 16 s
      else if ch = CHR ''n'' then
        rbind (va_word s) (\<lambda>(w, s1).
        Inr (s1\<lparr>dp_stored := dp_stored s1 @ [(w, dp_cflags s1, os_len (dp_out s1))]\<rparr>))
      else if ch = CHR ''%'' then Inr (s\<lparr>dp_out := dopr_outch ch (dp_out s)\<rparr>)
      else if ch = CHR ''w'' then dopr_next s
      else Inr s)"

text \<open>One turn of the loop, for a state that the test at its head has not ended.\<close>

definition dopr_turn :: "'d fpu \<Rightarrow> int \<Rightarrow> 'd dopr \<Rightarrow> 'd dopr res" where
  "dopr_turn F maxlen s =
     (let ch = dp_ch s in
      case dp_state s of
        DP_S_DEFAULT \<Rightarrow>
          dopr_next (if ch = CHR ''%'' then s\<lparr>dp_state := DP_S_FLAGS\<rparr>
                     else s\<lparr>dp_out := dopr_outch ch (dp_out s)\<rparr>)
      | DP_S_FLAGS \<Rightarrow>
          if ch = CHR ''-'' then dopr_next (add_flag DP_F_MINUS s)
          else if ch = CHR ''+'' then dopr_next (add_flag DP_F_PLUS s)
          else if ch = CHR '' '' then dopr_next (add_flag DP_F_SPACE s)
          else if ch = CHR ''#'' then dopr_next (add_flag DP_F_NUM s)
          else if ch = CHR ''0'' then dopr_next (add_flag DP_F_ZERO s)
          else Inr (s\<lparr>dp_state := DP_S_MIN\<rparr>)
      | DP_S_MIN \<Rightarrow>
          if isdigit ch then dopr_next (s\<lparr>dp_min := 10 * dp_min s + char_to_int ch\<rparr>)
          else if ch = CHR ''*'' then
            rbind (va_word s) (\<lambda>(w, s1). dopr_next (s1\<lparr>dp_min := sint w, dp_state := DP_S_DOT\<rparr>))
          else Inr (s\<lparr>dp_state := DP_S_DOT\<rparr>)
      | DP_S_DOT \<Rightarrow>
          if ch = CHR ''.'' then dopr_next (s\<lparr>dp_state := DP_S_MAX\<rparr>)
          else Inr (s\<lparr>dp_state := DP_S_MOD\<rparr>)
      | DP_S_MAX \<Rightarrow>
          if isdigit ch then
            dopr_next (s\<lparr>dp_max := 10 * (if dp_max s < 0 then 0 else dp_max s) + char_to_int ch\<rparr>)
          else if ch = CHR ''*'' then
            rbind (va_word s) (\<lambda>(w, s1). dopr_next (s1\<lparr>dp_max := sint w, dp_state := DP_S_MOD\<rparr>))
          else Inr (s\<lparr>dp_state := DP_S_MOD\<rparr>)
      | DP_S_MOD \<Rightarrow>
          rbind (if ch = CHR ''h'' then dopr_next (s\<lparr>dp_cflags := DP_C_SHORT\<rparr>)
                 else if ch = CHR ''l'' then dopr_next (s\<lparr>dp_cflags := DP_C_LONG\<rparr>)
                 else if ch = CHR ''L'' then dopr_next (s\<lparr>dp_cflags := DP_C_LDOUBLE\<rparr>)
                 else Inr s) (\<lambda>s1. Inr (s1\<lparr>dp_state := DP_S_CONV\<rparr>))
      | DP_S_CONV \<Rightarrow>
          rbind (dopr_conv F maxlen s) (\<lambda>s1.
          rbind (dopr_next s1) (\<lambda>s2.
          Inr (s2\<lparr>dp_state := DP_S_DEFAULT, dp_flags := 0, dp_cflags := DP_C_NONE, dp_min := 0, dp_max := -1\<rparr>)))
      | DP_S_DONE \<Rightarrow> Inr s)"

partial_function (option) dopr_loop :: "'d fpu \<Rightarrow> int \<Rightarrow> 'd dopr \<Rightarrow> 'd dopr res option" where
  "dopr_loop F maxlen s =
     (if dp_state s = DP_S_DONE then Some (Inr s)
      else if dp_ch s = NUL \<or> os_len (dp_out s) \<ge> maxlen then
        dopr_loop F maxlen (s\<lparr>dp_state := DP_S_DONE\<rparr>)
      else case dopr_turn F maxlen s of
             Inl e \<Rightarrow> Some (Inl e)
           | Inr s' \<Rightarrow> dopr_loop F maxlen s')"

definition dopr_init :: "string \<Rightarrow> 'd vararg list \<Rightarrow> 'd dopr" where
  "dopr_init fmt args =
     \<lparr>dp_ch = NUL, dp_fmt = Some fmt, dp_args = args, dp_state = DP_S_DEFAULT, dp_min = 0,
      dp_max = -1, dp_flags = 0, dp_cflags = DP_C_NONE, dp_out = \<lparr>os_out = [], os_len = 0\<rparr>,
      dp_stored = []\<rparr>"

definition vsnprintf :: "'d fpu \<Rightarrow> int \<Rightarrow> string \<Rightarrow> 'd vararg list \<Rightarrow> string res option" where
  "vsnprintf F maxlen fmt args =
     (case dopr_next (dopr_init fmt args) of
        Inl e \<Rightarrow> Some (Inl e)
      | Inr s \<Rightarrow> map_option (\<lambda>r. rbind r (\<lambda>s. Inr (os_out (dp_out s)))) (dopr_loop F maxlen s))"

text \<open>\<open>Debug::vprintf\<close>, and the \<open>vprintf\<close> of the user programs.\<close>

definition debug_vprintf :: "'d fpu \<Rightarrow> bool \<Rightarrow> string \<Rightarrow> 'd vararg list \<Rightarrow> string res option" where
  "debug_vprintf F sink fmt args = (if sink then vsnprintf F 1000 fmt args else Some (Inr []))"

definition user_vprintf :: "'d fpu \<Rightarrow> string \<Rightarrow> 'd vararg list \<Rightarrow> (string \<times> int) res option" where
  "user_vprintf F fmt args =
     map_option (\<lambda>r. rbind r (\<lambda>out. Inr (out, 1))) (vsnprintf F 1000 fmt args)"

end
