(* ===== verification/Printf_Facts.thy ===== *)
theory Printf_Facts
  imports Snprintf
begin

text \<open>
  What the formatter guarantees: it terminates, it copies text, integers can be read back, fields
  have their width; and where it falls short: pointers with the top bit set, the length limit, a
  format that ends in \<open>%w\<close>.
\<close>

section \<open>Termination\<close>

definition dopr_left :: "'d dopr \<Rightarrow> nat" where
  "dopr_left s = (case dp_fmt s of None \<Rightarrow> 0 | Some cs \<Rightarrow> Suc (length cs))"

fun state_rank :: "dp_state \<Rightarrow> nat" where
  "state_rank DP_S_FLAGS = 5" | "state_rank DP_S_MIN = 4" | "state_rank DP_S_DOT = 3"
| "state_rank DP_S_MAX = 2" | "state_rank DP_S_MOD = 1" | "state_rank _ = 0"

definition dopr_measure :: "'d dopr \<Rightarrow> nat" where
  "dopr_measure s = 8 * dopr_left s + state_rank (dp_state s)"

lemma dopr_next_left:
  "dopr_next s = Inr s' \<Longrightarrow> dopr_left s = Suc (dopr_left s') \<and> dp_state s' = dp_state s"
  by (auto simp: dopr_next_def dopr_left_def split: option.splits list.splits)

lemma va_fmt:
  "va_word s = Inr (w, s') \<Longrightarrow> dp_fmt s' = dp_fmt s"
  "va_str s = Inr (v, s') \<Longrightarrow> dp_fmt s' = dp_fmt s"
  "va_double s = Inr (d, s') \<Longrightarrow> dp_fmt s' = dp_fmt s"
  by (auto simp: va_word_def va_str_def va_double_def split: list.splits vararg.splits if_splits)

lemma dopr_conv_left: "dopr_conv F maxlen s = Inr s' \<Longrightarrow> dopr_left s' \<le> dopr_left s"
  by (auto simp: dopr_conv_def conv_int_def add_flag_def rbind_Inr_conv Let_def dopr_left_def
    dest!: va_fmt dopr_next_left [unfolded dopr_left_def] split: if_splits)

lemma rank_le: "state_rank st \<le> 5"
  by (cases st) auto

lemma dopr_turn_measure:
  assumes "dopr_turn F maxlen s = Inr s'" "dp_state s \<noteq> DP_S_DONE"
  shows "dopr_measure s' < dopr_measure s"
proof -
  have nx: "dopr_measure t' < dopr_measure s" if "dopr_next t = Inr t'" "dp_fmt t = dp_fmt s" for t t'
  proof -
    have "dopr_left t = dopr_left s" using that(2) by (simp add: dopr_left_def)
    then show ?thesis
      using dopr_next_left [OF that(1)] rank_le [of "dp_state t'"] by (simp add: dopr_measure_def)
  qed
  have st: "dopr_measure (s\<lparr>dp_state := st\<rparr>) < dopr_measure s" if "state_rank st < state_rank (dp_state s)" for st
    using that by (simp add: dopr_measure_def dopr_left_def)
  have mv: "dopr_measure (t\<lparr>dp_state := DP_S_CONV\<rparr>) \<le> dopr_measure t" for t :: "'a dopr"
    by (simp add: dopr_measure_def dopr_left_def)
  show ?thesis
  proof (cases "dp_state s")
    case DP_S_DEFAULT
    then show ?thesis using assms by (auto simp: dopr_turn_def Let_def intro: nx split: if_splits)
  next
    case DP_S_FLAGS
    then show ?thesis using assms by (auto simp: dopr_turn_def add_flag_def Let_def intro: nx st split: if_splits)
  next
    case DP_S_MIN
    then show ?thesis using assms
      by (auto simp: dopr_turn_def Let_def rbind_Inr_conv dest!: va_fmt intro: nx st split: if_splits)
  next
    case DP_S_DOT
    then show ?thesis using assms by (auto simp: dopr_turn_def Let_def intro: nx st split: if_splits)
  next
    case DP_S_MAX
    then show ?thesis using assms
      by (auto simp: dopr_turn_def Let_def rbind_Inr_conv dest!: va_fmt intro: nx st split: if_splits)
  next
    case DP_S_MOD
    then show ?thesis using assms
      by (auto simp: dopr_turn_def Let_def rbind_Inr_conv split: if_splits intro: st le_less_trans [OF mv nx])
  next
    case DP_S_CONV
    then obtain s1 s2 where "dopr_conv F maxlen s = Inr s1" "dopr_next s1 = Inr s2"
      "s' = s2\<lparr>dp_state := DP_S_DEFAULT, dp_flags := 0, dp_cflags := DP_C_NONE, dp_min := 0, dp_max := -1\<rparr>"
      using assms by (auto simp: dopr_turn_def rbind_Inr_conv)
    then show ?thesis using dopr_conv_left [of F maxlen s s1] dopr_next_left [of s1 s2]
      by (simp add: dopr_measure_def dopr_left_def)
  qed (use assms in auto)
qed

lemma dopr_loop_total: "\<exists>r. dopr_loop F maxlen s = Some r"
proof (induction "dopr_measure s" arbitrary: s rule: less_induct)
  case less
  show ?case
  proof (cases "dp_state s = DP_S_DONE \<or> dp_ch s = NUL \<or> os_len (dp_out s) \<ge> maxlen")
    case True
    have "dopr_loop F maxlen (s\<lparr>dp_state := DP_S_DONE\<rparr>) = Some (Inr (s\<lparr>dp_state := DP_S_DONE\<rparr>))"
      by (simp add: dopr_loop.simps)
    then show ?thesis using True by (subst dopr_loop.simps) auto
  next
    case False
    then show ?thesis
      using less dopr_turn_measure [of F maxlen s]
      by (subst dopr_loop.simps) (auto split: sum.split)
  qed
qed

section \<open>Digits\<close>

text \<open>The value of a digit, and of a numeral in a base, most significant digit first.\<close>

definition digit_value :: "char \<Rightarrow> int" where
  "digit_value c =
     (if c \<in> set ''0123456789'' then of_char c - 48
      else if c \<in> set ''abcdef'' then of_char c - 87 else of_char c - 55)"

definition read_digits :: "int \<Rightarrow> string \<Rightarrow> int" where
  "read_digits base cs = foldl (\<lambda>v c. v * base + digit_value c) 0 cs"

text \<open>A numeral with an optional minus sign.\<close>

definition read_signed :: "int \<Rightarrow> string \<Rightarrow> int" where
  "read_signed base cs =
     (case cs of [] \<Rightarrow> 0
      | c # cs' \<Rightarrow> if c = CHR ''-'' then - read_digits base cs' else read_digits base cs)"

lemma read_digits_snoc: "read_digits base (cs @ [c]) = read_digits base cs * base + digit_value c"
  by (simp add: read_digits_def)

lemma digit_table:
  "list_all (\<lambda>(n, c). digit_value c = int n \<and> c \<noteq> CHR ''-'') (List.enumerate 0 ''0123456789ABCDEF'')"
  "list_all (\<lambda>(n, c). digit_value c = int n \<and> c \<noteq> CHR ''-'') (List.enumerate 0 ''0123456789abcdef'')"
  by (simp_all add: digit_value_def)

lemma digit_value_digit_char:
  assumes "uint d < 16"
  shows "digit_value (digit_char caps d) = uint d" "digit_char caps d \<noteq> CHR ''-''"
proof -
  have u: "int (unat d) = uint d" by simp
  then have d: "unat d < 16" using assms by linarith
  define cs where "cs = (if caps then ''0123456789ABCDEF'' else ''0123456789abcdef'')"
  have "list_all (\<lambda>(n, c). digit_value c = int n \<and> c \<noteq> CHR ''-'') (List.enumerate 0 cs)"
  proof (cases caps)
    case True
    then show ?thesis unfolding cs_def using digit_table(1) by (simp only: if_True)
  next
    case False
    then show ?thesis unfolding cs_def using digit_table(2) by (simp only: if_False)
  qed
  moreover have "length cs = 16" by (simp add: cs_def)
  ultimately have "digit_value (cs ! unat d) = int (unat d) \<and> cs ! unat d \<noteq> CHR ''-''"
    using d by (auto simp: list_all_length nth_enumerate_eq)
  then show "digit_value (digit_char caps d) = uint d" "digit_char caps d \<noteq> CHR ''-''"
    by (auto simp: digit_char_def cs_def)
qed

lemma read_convert:
  assumes "2 \<le> uint base" "uint base \<le> 16" "uint u < uint base ^ n"
  shows "read_digits (uint base) (rev (convert_digits caps base n u)) = uint u"
  using assms
proof (induction n arbitrary: u)
  case 0
  then have "uint u < 1" by simp
  then have "uint u = 0" using uint_ge_0 [of u] by linarith
  then show ?case by (simp add: read_digits_def)
next
  case (Suc n)
  have b: "base \<noteq> 0" using Suc.prems(1) by auto
  have m: "uint (u mod base) = uint u mod uint base" "uint (u div base) = uint u div uint base"
    by (simp_all add: uint_mod uint_div)
  have "uint u mod uint base < 16" using Suc.prems pos_mod_bound [of "uint base" "uint u"] by linarith
  then have d: "digit_value (digit_char caps (u mod base)) = uint u mod uint base"
    using digit_value_digit_char m by simp
  show ?case
  proof (cases "u div base = 0")
    case True
    then have "uint u div uint base = 0" using m by simp
    then have "uint u mod uint base = uint u" using mult_div_mod_eq [of "uint base" "uint u"] by simp
    then show ?thesis using True d by (simp add: read_digits_def)
  next
    case False
    have "uint u div uint base * uint base \<le> uint u"
      using Suc.prems(1) by (simp add: minus_mod_eq_div_mult [symmetric])
    then have "uint u div uint base * uint base < uint base ^ n * uint base"
      using Suc.prems(3) by (simp add: mult.commute)
    then have "uint u div uint base < uint base ^ n"
      using Suc.prems(1) by (simp add: mult_less_cancel_right)
    then have "read_digits (uint base) (rev (convert_digits caps base n (u div base))) = uint u div uint base"
      using Suc.IH [of "u div base"] Suc.prems m by simp
    then show ?thesis using False d by (simp add: read_digits_snoc)
  qed
qed

lemma convert_length:
  assumes "8 \<le> uint base"
  shows "uint u < 8 ^ n \<Longrightarrow> n \<noteq> 0 \<Longrightarrow> length (convert_digits caps base m u) \<le> n"
proof (induction m arbitrary: u n)
  case (Suc m)
  obtain k where k: "n = Suc k" using Suc.prems(2) by (cases n) auto
  have "uint (u div base) = uint u div uint base" by (simp add: uint_div)
  also have "\<dots> \<le> uint u div 8" using assms by (intro zdiv_mono2) auto
  finally have s: "uint (u div base) < 8 ^ k" using Suc.prems k by simp
  show ?case
  proof (cases "u div base = 0")
    case False
    then have "uint (u div base) \<noteq> 0" by (simp add: word_uint_eq_iff)
    then have "0 < uint (u div base)" using uint_ge_0 [of "u div base"] by linarith
    then have "k \<noteq> 0" using s by (cases k) auto
    then show ?thesis using False Suc.IH [OF s] k by simp
  qed (use k in simp)
qed simp

lemma convert_nonempty: "convert_digits caps base (Suc n) u \<noteq> []"
  by simp

lemma convert_no_minus:
  assumes "0 < uint base" "uint base \<le> 16"
  shows "CHR ''-'' \<notin> set (convert_digits caps base n u)"
proof (induction n arbitrary: u)
  case (Suc n)
  have "uint (u mod base) < 16"
    using assms(2) pos_mod_bound [OF assms(1), of "uint u"] by (simp add: uint_mod)
  then show ?case using Suc digit_value_digit_char(2) [of "u mod base" caps] by auto
qed simp

section \<open>Output\<close>

lemma outch_times_out:
  "os_out (outch_times n c b) = os_out b @ replicate n c" "os_len (outch_times n c b) = os_len b + int n"
  by (induction n arbitrary: b) (auto simp: dopr_outch_def replicate_append_same [symmetric])

lemma fold_outch_out:
  "os_out (fold dopr_outch cs b) = os_out b @ cs" "os_len (fold dopr_outch cs b) = os_len b + int (length cs)"
  by (induction cs arbitrary: b) (auto simp: dopr_outch_def)

lemma dopr_outch_out [simp]: "os_out (dopr_outch c b) = os_out b @ [c]"
  by (simp add: dopr_outch_def)

text \<open>The digits and the sign \<open>fmtint\<close> prints.\<close>

definition numeral_string :: "u32 \<Rightarrow> u32 \<Rightarrow> u32 \<Rightarrow> string" where
  "numeral_string base flags u = rev (convert_digits (has_flag flags DP_F_UP) base 20 u)"

definition sign_string :: "int \<Rightarrow> u32 \<Rightarrow> string" where
  "sign_string value flags = (case sign_of value flags of None \<Rightarrow> [] | Some c \<Rightarrow> [c])"

lemma numeral_length:
  assumes "8 \<le> uint base" shows "1 \<le> length (numeral_string base flags u)" "length (numeral_string base flags u) \<le> 11"
proof -
  have "uint u < 8 ^ 11" using uint_bounded [of u] by simp
  from convert_length [OF assms this]
  show "length (numeral_string base flags u) \<le> 11" by (simp add: numeral_string_def)
  show "1 \<le> length (numeral_string base flags u)"
    using convert_nonempty [of _ base 19 u] by (simp add: numeral_string_def Suc_le_eq)
qed

lemma numeral_read:
  assumes "8 \<le> uint base" "uint base \<le> 16"
  shows "read_digits (uint base) (numeral_string base flags u) = uint u"
proof -
  have "uint u < 8 ^ 20" using uint_bounded [of u] by simp
  also have "8 ^ 20 \<le> uint base ^ 20" using assms by (intro power_mono) auto
  finally show ?thesis using read_convert [of base u 20] assms by (simp add: numeral_string_def)
qed

lemma fmtint_emit_out:
  "os_out (fmtint_emit z s sg ds b) = os_out b @ replicate (nat s) CHR '' '' @
     (case sg of None \<Rightarrow> [] | Some c \<Rightarrow> [c]) @ replicate (nat z) CHR ''0'' @ rev ds @ replicate (nat (- s)) CHR '' ''"
  by (simp add: fmtint_emit_def Let_def outch_times_out fold_outch_out split: option.split)

lemma fmtint_out:
  assumes "8 \<le> uint base"
  shows "os_out (fmtint value base mn mx flags b) =
    (let ds = numeral_string base flags (fmtint_uvalue value flags);
         (z, s) = fmtint_pads mn (if mx < 0 then 0 else mx) flags (sign_string value flags \<noteq> []) (int (length ds))
     in os_out b @ replicate (nat s) CHR '' '' @ sign_string value flags @ replicate (nat z) CHR ''0'' @ ds @
        replicate (nat (- s)) CHR '' '')"
proof -
  let ?ds = "numeral_string base flags (fmtint_uvalue value flags)"
  have cd: "convert_digits (has_flag flags DP_F_UP) base 20 (fmtint_uvalue value flags) = rev ?ds"
    by (simp add: numeral_string_def)
  have "length ?ds \<noteq> 20" using numeral_length(2) [OF assms, of flags "fmtint_uvalue value flags"] by simp
  moreover have "sign_of value flags \<noteq> None \<longleftrightarrow> sign_string value flags \<noteq> []"
    by (auto simp: sign_string_def split: option.splits)
  ultimately show ?thesis
    unfolding fmtint_def Let_def cd
    by (simp add: fmtint_emit_out sign_string_def split: prod.split)
qed

lemma fmtint_pads_plain: "1 \<le> n \<Longrightarrow> fmtint_pads 0 0 flags sv n = (0, 0)"
  by (simp add: fmtint_pads_def Let_def)

lemma fmtint_plain:
  assumes "8 \<le> uint base" "mx \<le> 0"
  shows "os_out (fmtint value base 0 mx flags b) =
    os_out b @ sign_string value flags @ numeral_string base flags (fmtint_uvalue value flags)"
proof -
  have "1 \<le> int (length (numeral_string base flags (fmtint_uvalue value flags)))"
    using numeral_length(1) [OF assms(1)] by (metis of_nat_1 of_nat_le_iff)
  moreover have "(if mx < 0 then 0 else mx) = 0" using assms(2) by simp
  ultimately show ?thesis by (simp only: fmtint_out [OF assms(1)] Let_def fmtint_pads_plain) simp
qed

text \<open>Field width and precision, without the zero flag.\<close>

lemma fmtint_pads_field:
  assumes "\<not> has_flag flags DP_F_ZERO" "0 \<le> mx"
  shows "fmtint_pads mn mx flags sv n =
    (max 0 (mx - n),
     if has_flag flags DP_F_MINUS then - max 0 (mn - max mx n - (if sv then 1 else 0))
     else max 0 (mn - max mx n - (if sv then 1 else 0)))"
  using assms by (simp add: fmtint_pads_def Let_def max_def)

section \<open>Running the state machine\<close>

lemma dopr_loop_turn:
  "dp_state s \<noteq> DP_S_DONE \<Longrightarrow> dp_ch s \<noteq> NUL \<Longrightarrow> os_len (dp_out s) < maxlen \<Longrightarrow>
   dopr_loop F maxlen s = (case dopr_turn F maxlen s of Inl e \<Rightarrow> Some (Inl e) | Inr s' \<Rightarrow> dopr_loop F maxlen s')"
  by (subst dopr_loop.simps) simp

lemma dopr_loop_end:
  "dp_ch s = NUL \<or> maxlen \<le> os_len (dp_out s) \<Longrightarrow>
   \<exists>s'. dopr_loop F maxlen s = Some (Inr s') \<and> dp_out s' = dp_out s"
proof (cases "dp_state s = DP_S_DONE")
  case True
  then show ?thesis by (simp add: dopr_loop.simps)
next
  case False
  assume "dp_ch s = NUL \<or> maxlen \<le> os_len (dp_out s)"
  then show ?thesis
    using False by (subst dopr_loop.simps) (auto simp: dopr_loop.simps [of F maxlen "s\<lparr>dp_state := DP_S_DONE\<rparr>"])
qed

lemma dopr_loop_nul:
  "dp_ch s = NUL \<Longrightarrow>
   map_option (\<lambda>r. rbind r (\<lambda>s. Inr (os_out (dp_out s)))) (dopr_loop F maxlen s) = Some (Inr (os_out (dp_out s)))"
  using dopr_loop_end [of s maxlen F] by auto

text \<open>A format that is one conversion character after a percent sign.\<close>

definition conv_chars :: string where
  "conv_chars = ''diouXxfEeGgcspn%w''"

lemma vsnprintf_conv:
  assumes "0 < maxlen" "c \<in> set conv_chars"
  shows "vsnprintf F maxlen [CHR ''%'', c] args =
    (let s = (dopr_init [] args)\<lparr>dp_ch := c, dp_state := DP_S_CONV\<rparr>
     in case rbind (dopr_conv F maxlen s) dopr_next of
          Inl e \<Rightarrow> Some (Inl e)
        | Inr s' \<Rightarrow> map_option (\<lambda>r. rbind r (\<lambda>s. Inr (os_out (dp_out s))))
            (dopr_loop F maxlen (s'\<lparr>dp_state := DP_S_DEFAULT, dp_flags := 0, dp_cflags := DP_C_NONE, dp_min := 0, dp_max := -1\<rparr>)))"
proof -
  have c: "c \<noteq> NUL" "c \<notin> set ''-+ #0*.hlL''" "\<not> isdigit c"
    using assms(2) by (auto simp: conv_chars_def NUL_def isdigit_def)
  show ?thesis
    using c assms(1)
    by (simp add: vsnprintf_def dopr_init_def dopr_next_def Let_def dopr_loop_turn dopr_turn_def NUL_def)
      (auto simp: rbind_def dopr_next_def NUL_def split: sum.splits)
qed

lemma vsnprintf_int:
  assumes "0 < maxlen" "c \<in> set ''dioupxX''"
  shows "vsnprintf F maxlen [CHR ''%'', c] [VInt w] =
    (let base = (if c = CHR ''o'' then 8 else if c \<in> set ''diu'' then 10 else 16);
         flags = (if c \<in> set ''dip'' then 0 else if c = CHR ''X'' then DP_F_UP OR DP_F_UNSIGNED else DP_F_UNSIGNED)
     in Some (Inr (sign_string (sint w) flags @ numeral_string base flags (fmtint_uvalue (sint w) flags))))"
proof -
  have c: "c \<in> set conv_chars" using assms(2) by (auto simp: conv_chars_def)
  have "c \<in> {CHR ''d'', CHR ''i'', CHR ''o'', CHR ''u'', CHR ''p'', CHR ''x'', CHR ''X''}"
    using assms(2) by auto
  then show ?thesis
    unfolding vsnprintf_conv [OF assms(1) c] Let_def
    by (elim insertE emptyE)
      (simp add: dopr_init_def dopr_conv_def conv_int_def va_word_def add_flag_def dopr_next_def
        dopr_loop_nul fmtint_plain)+
qed

section \<open>Properties\<close>

text \<open>The formatting of text without conversions, from the character the loop is at.\<close>

lemma dopr_loop_text:
  assumes "list_all (\<lambda>c. c \<noteq> CHR ''%'' \<and> c \<noteq> NUL) (c # cs)"
  shows "dp_ch s = c \<Longrightarrow> dp_fmt s = Some cs \<Longrightarrow> dp_state s = DP_S_DEFAULT \<Longrightarrow>
    \<exists>s'. dopr_loop F maxlen s = Some (Inr s') \<and>
      os_out (dp_out s') = os_out (dp_out s) @ take (nat (maxlen - os_len (dp_out s))) (c # cs)"
  using assms
proof (induction cs arbitrary: c s)
  case Nil
  show ?case
  proof (cases "os_len (dp_out s) < maxlen")
    case True
    let ?s = "s\<lparr>dp_out := dopr_outch c (dp_out s), dp_ch := NUL, dp_fmt := None\<rparr>"
    have "dopr_loop F maxlen s = dopr_loop F maxlen ?s"
      using Nil True by (simp add: dopr_loop_turn dopr_turn_def dopr_next_def)
    moreover obtain s' where "dopr_loop F maxlen ?s = Some (Inr s')" "dp_out s' = dp_out ?s"
      using dopr_loop_end [of ?s maxlen F] by auto
    moreover have "nat (maxlen - os_len (dp_out s)) = Suc (nat (maxlen - os_len (dp_out s) - 1))"
      using True by simp
    ultimately show ?thesis by simp
  next
    case False
    then show ?thesis using dopr_loop_end [of s maxlen F] by auto
  qed
next
  case (Cons d ds)
  show ?case
  proof (cases "os_len (dp_out s) < maxlen")
    case True
    let ?s = "s\<lparr>dp_out := dopr_outch c (dp_out s), dp_ch := d, dp_fmt := Some ds\<rparr>"
    have "dopr_loop F maxlen s = dopr_loop F maxlen ?s"
      using Cons.prems True by (simp add: dopr_loop_turn dopr_turn_def dopr_next_def)
    moreover obtain s' where "dopr_loop F maxlen ?s = Some (Inr s')"
      "os_out (dp_out s') = os_out (dp_out ?s) @ take (nat (maxlen - os_len (dp_out ?s))) (d # ds)"
      using Cons.IH [where c = d and s = ?s] Cons.prems by auto
    moreover have "nat (maxlen - os_len (dp_out s)) = Suc (nat (maxlen - os_len (dp_out ?s)))"
      using True by (simp add: dopr_outch_def)
    ultimately show ?thesis by simp
  next
    case False
    then show ?thesis using dopr_loop_end [of s maxlen F] by auto
  qed
qed

text \<open>
  Formatting terminates on every format, argument list and limit: it produces a string or stops
  at a fault.
\<close>

theorem vsnprintf_total: "\<exists>r. vsnprintf F maxlen fmt args = Some r"
proof (cases "dopr_next (dopr_init fmt args)")
  case (Inr s)
  then show ?thesis using dopr_loop_total [of F maxlen s] by (auto simp: vsnprintf_def)
qed (simp add: vsnprintf_def)

text \<open>Text without conversions is copied up to the limit.\<close>

theorem vsnprintf_text:
  assumes "list_all (\<lambda>c. c \<noteq> CHR ''%'' \<and> c \<noteq> NUL) fmt"
  shows "vsnprintf F maxlen fmt args = Some (Inr (take (nat maxlen) fmt))"
proof (cases fmt)
  case Nil
  then show ?thesis
    by (simp add: vsnprintf_def dopr_init_def dopr_next_def dopr_loop_nul)
next
  case (Cons c cs)
  then show ?thesis
    using dopr_loop_text [of c cs "(dopr_init (c # cs) args)\<lparr>dp_ch := c, dp_fmt := Some cs\<rparr>" F maxlen] assms
    by (auto simp: vsnprintf_def dopr_init_def dopr_next_def)
qed

lemma vsnprintf_text_witness: "\<forall>F :: 'd fpu. vsnprintf F 3 ''hello'' [] = Some (Inr ''hel'')"
proof
  fix F :: "'d fpu"
  show "vsnprintf F 3 ''hello'' [] = Some (Inr ''hel'')"
    using vsnprintf_text [of "''hello''" F 3 "[]"] by (simp add: NUL_def eval_nat_numeral)
qed

lemma read_signed_digits:
  "CHR ''-'' \<notin> set ds \<Longrightarrow> ds \<noteq> [] \<Longrightarrow> read_signed base ds = read_digits base ds"
  by (cases ds) (auto simp: read_signed_def)

lemma numeral_string_minus:
  "8 \<le> uint base \<Longrightarrow> uint base \<le> 16 \<Longrightarrow> CHR ''-'' \<notin> set (numeral_string base flags u)"
  using convert_no_minus [of base] by (simp add: numeral_string_def)

lemma uint_neg_sint: "sint (w :: u32) < 0 \<Longrightarrow> uint (word_of_int (- sint w) :: u32) = - sint w"
proof -
  assume n: "sint w < 0"
  have "- (2 ^ 31) \<le> sint w" using sint_ge [of w] by simp
  then show ?thesis using n by (intro u32_uint) auto
qed

lemma signed_output:
  fixes base w :: u32
  assumes "8 \<le> uint base" "uint base \<le> 16"
  shows "read_signed (uint base) (sign_string (sint w) 0 @ numeral_string base 0 (fmtint_uvalue (sint w) 0)) = sint w"
    and "sint w < 0 \<Longrightarrow> sign_string (sint w) 0 = ''-''"
proof -
  note N = numeral_read [OF assms, of 0] numeral_string_minus [OF assms, of 0]
    numeral_length(1) [OF assms(1), of 0 "fmtint_uvalue (sint w) 0"]
  show "sint w < 0 \<Longrightarrow> sign_string (sint w) 0 = ''-''"
    by (simp add: sign_string_def sign_of_def has_flag_def)
  show "read_signed (uint base) (sign_string (sint w) 0 @ numeral_string base 0 (fmtint_uvalue (sint w) 0)) = sint w"
  proof (cases "sint w < 0")
    case True
    then show ?thesis
      using N(1) uint_neg_sint [OF True]
      by (simp add: sign_string_def sign_of_def has_flag_def fmtint_uvalue_def read_signed_def)
  next
    case False
    then have "uint w = sint w" using uint_bounded [of w] by (auto simp: sint_u32 split: if_splits)
    then have v: "fmtint_uvalue (sint w) 0 = w" "sign_string (sint w) 0 = []"
      using False by (auto simp: sign_string_def sign_of_def has_flag_def fmtint_uvalue_def word_uint_eq_iff)
    have "numeral_string base 0 w \<noteq> []" using numeral_length(1) [OF assms(1), of 0 w] by auto
    then show ?thesis
      using read_signed_digits [OF numeral_string_minus [OF assms, of 0 w]] numeral_read [OF assms, of 0 w]
        \<open>uint w = sint w\<close> v by simp
  qed
qed

text \<open>
  C20. Reading back what \<open>%d\<close> prints gives the argument as a signed number, and reading back what
  \<open>%u\<close>, \<open>%x\<close> and \<open>%o\<close> print gives it as an unsigned number, for every 32-bit argument.
\<close>

theorem integer_roundtrip:
  assumes "0 < maxlen"
  shows "(\<exists>out. vsnprintf F maxlen ''%d'' [VInt w] = Some (Inr out) \<and> read_signed 10 out = sint w) \<and>
    (\<exists>out. vsnprintf F maxlen ''%u'' [VInt w] = Some (Inr out) \<and> read_digits 10 out = uint w) \<and>
    (\<exists>out. vsnprintf F maxlen ''%x'' [VInt w] = Some (Inr out) \<and> read_digits 16 out = uint w) \<and>
    (\<exists>out. vsnprintf F maxlen ''%o'' [VInt w] = Some (Inr out) \<and> read_digits 8 out = uint w)"
proof -
  have U: "sign_string v DP_F_UNSIGNED = []" "fmtint_uvalue (sint w) DP_F_UNSIGNED = w" for v
    by (simp_all add: sign_string_def sign_of_def has_flag_def DP_F_UNSIGNED_def fmtint_uvalue_def)
  show ?thesis
    using signed_output(1) [of 10 w] numeral_read [of 10] numeral_read [of 16] numeral_read [of 8]
    by (simp add: vsnprintf_int [OF assms] U)
qed

lemma integer_roundtrip_witness: "\<forall>F :: 'd fpu. \<exists>out. vsnprintf F 10 ''%d'' [VInt 0x80000000] = Some (Inr out) \<and> read_signed 10 out = - 2147483648"
proof
  fix F :: "'d fpu"
  show "\<exists>out. vsnprintf F 10 ''%d'' [VInt 0x80000000] = Some (Inr out) \<and> read_signed 10 out = - 2147483648"
    using integer_roundtrip [of 10 F "0x80000000"] by simp
qed

text \<open>
  The field of an integer conversion, for bases 8 to 16 and without the zero flag: blanks, the
  sign, zeros up to the precision, the digits, blanks, with the blanks on one side only and the whole
  at least as wide as the field width and exactly as wide when there are blanks.
\<close>

theorem fmtint_field:
  assumes "8 \<le> uint base" "\<not> has_flag flags DP_F_ZERO"
  shows "\<exists>sp rp zs ds. os_out (fmtint value base mn mx flags b) =
      os_out b @ replicate sp CHR '' '' @ sign_string value flags @ zs @ ds @ replicate rp CHR '' '' \<and>
    ds = numeral_string base flags (fmtint_uvalue value flags) \<and>
    zs = replicate (nat mx - length ds) CHR ''0'' \<and>
    sp + length (sign_string value flags @ zs @ ds) + rp =
      max (nat mn) (length (sign_string value flags @ zs @ ds)) \<and>
    (if has_flag flags DP_F_MINUS then sp = 0 else rp = 0)"
proof -
  let ?ds = "numeral_string base flags (fmtint_uvalue value flags)" and ?sg = "sign_string value flags"
  let ?mx = "if mx < 0 then 0 else mx"
  let ?zs = "replicate (nat mx - length ?ds) CHR ''0''"
  define k where "k = max 0 (mn - max ?mx (int (length ?ds)) - (if ?sg \<noteq> [] then 1 else 0))"
  define sp where "sp = (if has_flag flags DP_F_MINUS then 0 else nat k)"
  define rp where "rp = (if has_flag flags DP_F_MINUS then nat k else 0)"
  have z: "nat (max 0 (?mx - int (length ?ds))) = nat mx - length ?ds" by (auto simp: max_def)
  have P: "fmtint_pads mn ?mx flags (?sg \<noteq> []) (int (length ?ds)) =
      (max 0 (?mx - int (length ?ds)), if has_flag flags DP_F_MINUS then - k else k)"
    unfolding k_def by (rule fmtint_pads_field [OF assms(2)]) simp
  have "os_out (fmtint value base mn mx flags b) =
      os_out b @ replicate sp CHR '' '' @ ?sg @ ?zs @ ?ds @ replicate rp CHR '' ''"
    unfolding fmtint_out [OF assms(1)] Let_def P prod.case z
    by (simp add: sp_def rp_def k_def)
  note out = this
  have "int (length ?sg) = (if ?sg \<noteq> [] then 1 else 0)"
    by (auto simp: sign_string_def split: option.splits)
  moreover have "max ?mx (int (length ?ds)) = int (length ?zs + length ?ds)" by auto
  ultimately have k: "k = max 0 (mn - int (length (?sg @ ?zs @ ?ds)))"
    by (simp only: k_def length_append of_nat_add diff_diff_eq ac_simps)
  have "sp + rp = nat k" by (simp add: sp_def rp_def)
  then have "sp + length (?sg @ ?zs @ ?ds) + rp = max (nat mn) (length (?sg @ ?zs @ ?ds))"
    unfolding k by linarith
  moreover have "if has_flag flags DP_F_MINUS then sp = 0 else rp = 0" by (simp add: sp_def rp_def)
  ultimately show ?thesis using out by blast
qed

lemma fmtint_field_witness:
  "\<exists>sp rp zs ds. os_out (fmtint (-42) 10 8 4 DP_F_MINUS \<lparr>os_out = [], os_len = 0\<rparr>) =
      replicate sp CHR '' '' @ ''-'' @ zs @ ds @ replicate rp CHR '' '' \<and> sp = 0"
  using fmtint_field [of 10 DP_F_MINUS "-42" 8 4 "\<lparr>os_out = [], os_len = 0\<rparr>"]
  by (auto simp: has_flag_def DP_F_MINUS_def DP_F_ZERO_def DP_F_UNSIGNED_def sign_string_def sign_of_def)

text \<open>
  \<open>%p\<close> prints an address at or above 0x80000000, which is where user memory lies, as a
  negative number: a minus sign and the digits of its two's complement.
\<close>

theorem pointer_negative:
  assumes "0 < maxlen" "0x80000000 \<le> w"
  shows "\<exists>ds. vsnprintf F maxlen ''%p'' [VInt w] = Some (Inr (CHR ''-'' # ds)) \<and>
    read_digits 16 ds = 2 ^ 32 - uint w"
proof -
  have u: "2 ^ 31 \<le> uint w" using assms(2) by (simp add: word_le_def)
  have s: "sint w = uint w - 2 ^ 32" using u by (simp add: sint_u32)
  then have n: "sint w < 0" using uint_bounded [of w] by simp
  have "sign_string (sint w) 0 = ''-''" by (rule signed_output(2) [of 16 w]) (use n in auto)
  moreover have "read_digits 16 (numeral_string 16 0 (fmtint_uvalue (sint w) 0)) = - sint w"
    using numeral_read [of 16 0] uint_neg_sint [OF n] n by (simp add: fmtint_uvalue_def has_flag_def)
  ultimately show ?thesis using s by (simp add: vsnprintf_int [OF assms(1)])
qed

lemma pointer_negative_witness: "\<forall>F :: 'd fpu. \<exists>ds. vsnprintf F 10 ''%p'' [VInt 0x80000000] = Some (Inr (CHR ''-'' # ds))"
proof
  fix F :: "'d fpu"
  show "\<exists>ds. vsnprintf F 10 ''%p'' [VInt 0x80000000] = Some (Inr (CHR ''-'' # ds))"
    using pointer_negative [of 10 "0x80000000" F] by auto
qed

lemma convert_digits_numeral:
  "convert_digits caps base (numeral k) u = digit_char caps (u mod base) #
     (if u div base \<noteq> 0 then convert_digits caps base (pred_numeral k) (u div base) else [])"
  by (simp add: numeral_eq_Suc)

text \<open>A limit of one character does not stop a conversion from printing ten.\<close>

lemma maxlen_overrun: "vsnprintf F 1 ''%u'' [VInt 0xFFFFFFFF] = Some (Inr ''4294967295'')"
  by (simp add: vsnprintf_int sign_string_def sign_of_def has_flag_def DP_F_UNSIGNED_def DP_F_UP_def
    fmtint_uvalue_def numeral_string_def digit_char_def convert_digits_numeral)

text \<open>A format that ends in \<open>%w\<close> is read past its terminating null.\<close>

lemma percent_w_overrun: "0 < maxlen \<Longrightarrow> vsnprintf F maxlen ''%w'' args = Some (Inl OutOfBounds)"
  by (simp add: vsnprintf_conv conv_chars_def dopr_conv_def dopr_init_def dopr_next_def Let_def)

section \<open>Fractions\<close>

text \<open>Hundredths in place of the floating point hardware.\<close>

definition cent_fpu :: "int fpu" where
  "cent_fpu = \<lparr>fp_neg = uminus, fp_of_int = (\<lambda>n. 100 * n), fp_to_long = (\<lambda>x. x div 100), fp_sub = (-),
     fp_mul = (\<lambda>x y. x * y div 100), fp_less = (<), fp_ge = (\<ge>), fp_half = 50\<rparr>"

text \<open>
  The zeros that should stand before the digits of the fraction are written after them: 1.05 to two places prints as
  1.5 does.
\<close>

lemma fraction_zeros_misplaced:
  "fmtfp cent_fpu 105 0 2 0 \<lparr>os_out = [], os_len = 0\<rparr> = \<lparr>os_out = ''1.50'', os_len = 4\<rparr>"
  "fmtfp cent_fpu 150 0 2 0 \<lparr>os_out = [], os_len = 0\<rparr> = \<lparr>os_out = ''1.50'', os_len = 4\<rparr>"
  by code_simp+

end
