(* ===== verification/Queue.thy ===== *)
theory Queue
  imports Prelude
begin

text \<open>
  The intrusive queue of \<open>kernel/queue.h\<close>: \<open>first\<close>, \<open>last\<close>, and the \<open>next\<close> field of the elements, which all
  queues an element may be in share. The bodies run while the queue's lock is held. The interface,
  stated as a locale, is that of a FIFO list next to which other queues stay as they are.
\<close>

section \<open>The code\<close>

type_synonym links = "nat \<Rightarrow> nat option"

record queue =
  q_first :: "nat option"
  q_last :: "nat option"

definition queue_init :: queue where
  "queue_init = \<lparr>q_first = None, q_last = None\<rparr>"

definition queue_add :: "nat \<Rightarrow> queue \<times> links \<Rightarrow> (queue \<times> links) res" where
  "queue_add t qn =
     (let (q, nx) = qn; nx1 = nx(t := None) in
      case q_first q of
        None \<Rightarrow> Inr (q\<lparr>q_first := Some t, q_last := Some t\<rparr>, nx1)
      | Some _ \<Rightarrow>
          (case q_last q of
             None \<Rightarrow> Inl NullDeref
           | Some l \<Rightarrow> Inr (q\<lparr>q_last := Some t\<rparr>, nx1(l := Some t))))"

definition queue_remove :: "queue \<times> links \<Rightarrow> nat option \<times> queue \<times> links" where
  "queue_remove qn =
     (let (q, nx) = qn in
      case q_first q of
        None \<Rightarrow> (None, q, nx)
      | Some it \<Rightarrow>
          let q1 = q\<lparr>q_first := nx it\<rparr>
          in (Some it, if q_first q1 = None then q1\<lparr>q_last := None\<rparr> else q1, nx))"

definition queue_remove_all :: "queue \<times> links \<Rightarrow> nat option \<times> queue \<times> links" where
  "queue_remove_all qn = (let (q, nx) = qn in (q_first q, \<lparr>q_first = None, q_last = None\<rparr>, nx))"

section \<open>What a queue holds\<close>

fun chain :: "links \<Rightarrow> nat option \<Rightarrow> nat list \<Rightarrow> bool" where
  "chain nx p [] = (p = None)"
| "chain nx p (x # xs) = (p = Some x \<and> chain nx (nx x) xs)"

definition queue_rep :: "queue \<Rightarrow> links \<Rightarrow> nat list \<Rightarrow> bool" where
  "queue_rep q nx xs \<longleftrightarrow>
     chain nx (q_first q) xs \<and> distinct xs \<and> q_last q = (if xs = [] then None else Some (last xs))"

lemma chain_upd: "t \<notin> set xs \<Longrightarrow> chain (nx(t := v)) p xs = chain nx p xs"
  by (induction xs arbitrary: p) auto

lemma chain_unique: "chain nx p xs \<Longrightarrow> chain nx p ys \<Longrightarrow> xs = ys"
proof (induction xs arbitrary: p ys)
  case Nil
  then show ?case by (cases ys) auto
next
  case (Cons x xs)
  then show ?case by (cases ys) auto
qed

lemma chain_snoc:
  "chain nx p xs \<Longrightarrow> xs \<noteq> [] \<Longrightarrow> distinct xs \<Longrightarrow> t \<notin> set xs \<Longrightarrow>
   chain (nx(t := None, last xs := Some t)) p (xs @ [t])"
proof (induction xs arbitrary: p)
  case (Cons x xs)
  show ?case
  proof (cases "xs = []")
    case True
    then show ?thesis using Cons.prems by auto
  next
    case False
    then have "last xs \<noteq> x" using Cons.prems(3) by auto
    then show ?thesis using Cons False by auto
  qed
qed simp

lemma queue_rep_init: "queue_rep queue_init nx []"
  by (simp add: queue_rep_def queue_init_def)

text \<open>\<open>last\<close> is where a queue's own writes to \<open>next\<close> go, so disjoint queues do not meet.\<close>

lemma queue_add_ok:
  assumes "queue_rep q nx xs" "t \<notin> set xs"
  obtains q' nx' where "queue_add t (q, nx) = Inr (q', nx')" "queue_rep q' nx' (xs @ [t])"
    and "\<And>r ys. queue_rep r nx ys \<Longrightarrow> set ys \<inter> set xs = {} \<Longrightarrow> t \<notin> set ys \<Longrightarrow> queue_rep r nx' ys"
proof (cases "xs = []")
  case True
  then have "queue_add t (q, nx) = Inr (q\<lparr>q_first := Some t, q_last := Some t\<rparr>, nx(t := None))"
    using assms by (simp add: queue_rep_def queue_add_def)
  then show ?thesis using True assms by (intro that) (auto simp: queue_rep_def chain_upd)
next
  case False
  then obtain x where x: "q_first q = Some x" using assms(1) by (cases xs) (auto simp: queue_rep_def)
  let ?nx = "nx(t := None, last xs := Some t)"
  have "queue_add t (q, nx) = Inr (q\<lparr>q_last := Some t\<rparr>, ?nx)"
    using assms False x by (simp add: queue_rep_def queue_add_def)
  moreover have "queue_rep (q\<lparr>q_last := Some t\<rparr>) ?nx (xs @ [t])"
    using assms False chain_snoc [of nx "q_first q" xs t] by (simp add: queue_rep_def)
  moreover have "queue_rep r ?nx ys"
    if "queue_rep r nx ys" "set ys \<inter> set xs = {}" "t \<notin> set ys" for r ys
  proof -
    have "last xs \<notin> set ys" using that(2) False by auto
    then show ?thesis using that by (simp add: queue_rep_def chain_upd)
  qed
  ultimately show ?thesis by (rule that)
qed

lemma queue_remove_ok:
  assumes "queue_rep q nx xs"
  shows "queue_remove (q, nx) = (case xs of [] \<Rightarrow> (None, q, nx)
    | x # ys \<Rightarrow> (Some x, q\<lparr>q_first := nx x, q_last := if ys = [] then None else q_last q\<rparr>, nx))"
    and "xs = x # ys \<Longrightarrow> queue_rep (q\<lparr>q_first := nx x, q_last := if ys = [] then None else q_last q\<rparr>) nx ys"
proof -
  have "nx x = None \<longleftrightarrow> ys = []" if "xs = x # ys" for x ys
    using assms that by (cases ys) (auto simp: queue_rep_def)
  then show "queue_remove (q, nx) = (case xs of [] \<Rightarrow> (None, q, nx)
    | x # ys \<Rightarrow> (Some x, q\<lparr>q_first := nx x, q_last := if ys = [] then None else q_last q\<rparr>, nx))"
    using assms by (cases xs) (auto simp: queue_rep_def queue_remove_def)
  show "xs = x # ys \<Longrightarrow> queue_rep (q\<lparr>q_first := nx x, q_last := if ys = [] then None else q_last q\<rparr>) nx ys"
    using assms by (auto simp: queue_rep_def)
qed

lemma queue_remove_all_ok:
  assumes "queue_rep q nx xs"
  shows "queue_remove_all (q, nx) = (case xs of [] \<Rightarrow> None | x # _ \<Rightarrow> Some x, queue_init, nx)"
    and "chain nx (case xs of [] \<Rightarrow> None | x # _ \<Rightarrow> Some x) xs"
  using assms by (auto simp: queue_remove_all_def queue_rep_def queue_init_def split: list.splits)

section \<open>The interface\<close>

text \<open>
  A FIFO container whose state lies in a store that others use too: \<open>rep q s xs\<close> says that \<open>q\<close> holds
  \<open>xs\<close> in the store \<open>s\<close>.
\<close>

locale fifo =
  fixes rep :: "'q \<Rightarrow> 's \<Rightarrow> 'a list \<Rightarrow> bool"
    and enq :: "'a \<Rightarrow> 'q \<times> 's \<Rightarrow> ('q \<times> 's) res"
    and deq :: "'q \<times> 's \<Rightarrow> 'a option \<times> 'q \<times> 's"
  assumes enq_rep: "rep q s xs \<Longrightarrow> x \<notin> set xs \<Longrightarrow>
      \<exists>q' s'. enq x (q, s) = Inr (q', s') \<and> rep q' s' (xs @ [x]) \<and>
        (\<forall>r ys. rep r s ys \<and> set ys \<inter> set xs = {} \<and> x \<notin> set ys \<longrightarrow> rep r s' ys)"
    and deq_empty: "rep q s [] \<Longrightarrow> deq (q, s) = (None, q, s)"
    and deq_rep: "rep q s (x # xs) \<Longrightarrow> \<exists>q'. deq (q, s) = (Some x, q', s) \<and> rep q' s xs"
begin

fun enq_all :: "'a list \<Rightarrow> 'q \<times> 's \<Rightarrow> ('q \<times> 's) res" where
  "enq_all [] qs = Inr qs"
| "enq_all (x # xs) qs = rbind (enq x qs) (enq_all xs)"

fun deq_all :: "nat \<Rightarrow> 'q \<times> 's \<Rightarrow> 'a list \<times> 'q \<times> 's" where
  "deq_all 0 qs = ([], qs)"
| "deq_all (Suc n) qs =
     (case deq qs of (None, qs') \<Rightarrow> ([], qs') | (Some x, qs') \<Rightarrow> let (xs, r) = deq_all n qs' in (x # xs, r))"

lemma enq_all_rep:
  "rep q s ys \<Longrightarrow> distinct (ys @ xs) \<Longrightarrow> \<exists>q' s'. enq_all xs (q, s) = Inr (q', s') \<and> rep q' s' (ys @ xs)"
proof (induction xs arbitrary: q s ys)
  case (Cons x xs)
  obtain q1 s1 where "enq x (q, s) = Inr (q1, s1)" "rep q1 s1 (ys @ [x])"
    using enq_rep [OF Cons.prems(1), of x] Cons.prems(2) by auto
  then show ?case using Cons.IH [of q1 s1 "ys @ [x]"] Cons.prems(2) by auto
qed simp

lemma deq_all_rep: "rep q s xs \<Longrightarrow> \<exists>r. deq_all (length xs) (q, s) = (xs, r)"
proof (induction xs arbitrary: q)
  case (Cons x xs)
  obtain q' where "deq (q, s) = (Some x, q', s)" "rep q' s xs" using deq_rep [OF Cons.prems] by blast
  then show ?case using Cons.IH [of q'] by (auto simp: Let_def split: prod.split)
qed simp

lemma first_in_first_out:
  assumes "rep q s []" "distinct xs"
  shows "\<exists>q' s' r. enq_all xs (q, s) = Inr (q', s') \<and> deq_all (length xs) (q', s') = (xs, r)"
proof -
  obtain q' s' where "enq_all xs (q, s) = Inr (q', s')" "rep q' s' xs"
    using enq_all_rep [OF assms(1), of xs] assms(2) by auto
  then show ?thesis using deq_all_rep by blast
qed

end

interpretation tcb_queue: fifo queue_rep queue_add queue_remove
proof
  fix q s and xs :: "nat list" and x
  assume a: "queue_rep q s xs" "x \<notin> set xs"
  obtain q' s' where w: "queue_add x (q, s) = Inr (q', s')" "queue_rep q' s' (xs @ [x])"
    and "\<And>r ys. queue_rep r s ys \<Longrightarrow> set ys \<inter> set xs = {} \<Longrightarrow> x \<notin> set ys \<Longrightarrow> queue_rep r s' ys"
    by (rule queue_add_ok [OF a]) blast
  then show "\<exists>q' s'. queue_add x (q, s) = Inr (q', s') \<and> queue_rep q' s' (xs @ [x]) \<and>
      (\<forall>r ys. queue_rep r s ys \<and> set ys \<inter> set xs = {} \<and> x \<notin> set ys \<longrightarrow> queue_rep r s' ys)"
    by blast
next
  fix q s assume "queue_rep q s []"
  then show "queue_remove (q, s) = (None, q, s)" by (simp add: queue_remove_ok(1))
next
  fix q s and x :: nat and xs assume a: "queue_rep q s (x # xs)"
  show "\<exists>q'. queue_remove (q, s) = (Some x, q', s) \<and> queue_rep q' s xs"
    using queue_remove_ok [OF a] by auto
qed

end
