(* ===== verification/Threads.thy ===== *)
theory Threads
  imports Queue
begin

text \<open>
  Threads and semaphores: \<open>kernel/threads.h\<close>, \<open>kernel/threads.cc\<close>, \<open>kernel/semaphore.h\<close>. A thread is named by
  the address of its TCB. Every operation is one step of the core that runs it: what other cores do
  in between touches neither the thread that blocks nor the one it switches to, because neither is
  in a queue at that time.
\<close>

section \<open>The code\<close>

record semaphore =
  sem_count :: u64
  sem_waiting :: queue

text \<open>
  \<open>th_next\<close> is the \<open>next\<close> field of every TCB; \<open>th_active\<close> and \<open>th_idle\<close> are indexed by core; \<open>th_sems\<close> holds
  the semaphores by address; \<open>th_deleted\<close> lists the TCBs that were deleted.
\<close>

record kernel =
  th_next :: links
  readyQ :: queue
  zombies :: queue
  activeThreads :: "nat list"
  idleThreads :: "nat list"
  th_sems :: "nat \<Rightarrow> semaphore"
  th_deleted :: "nat list"

definition isIdle :: "kernel \<Rightarrow> nat \<Rightarrow> bool" where
  "isIdle s t \<longleftrightarrow> t \<in> set (idleThreads s)"

definition current :: "nat \<Rightarrow> kernel \<Rightarrow> nat" where
  "current c s = activeThreads s ! c"

definition schedule :: "nat \<Rightarrow> kernel \<Rightarrow> kernel res" where
  "schedule t s =
     (if \<not> isIdle s t then
        rbind (queue_add t (readyQ s, th_next s)) (\<lambda>(q, nx).
        Inr (s\<lparr>readyQ := q, th_next := nx\<rparr>))
      else Inr s)"

datatype block_option = MustBlock | CanReturn

text \<open>
  \<open>block\<close> on core \<open>c\<close>: the action \<open>f\<close> runs on the stack of the next thread, after the switch, and is
  given the thread that blocks. An idle thread that must block and finds no work tries again: that
  is a step that changes nothing.
\<close>

definition block :: "block_option \<Rightarrow> (nat \<Rightarrow> kernel \<Rightarrow> kernel res) \<Rightarrow> nat \<Rightarrow> kernel \<Rightarrow> kernel res" where
  "block opt f c s =
     (let me = current c s;
          (next_tcb, q, nx) = queue_remove (readyQ s, th_next s)
      in case next_tcb of
           None \<Rightarrow>
             if opt = CanReturn then Inr s
             else if isIdle s me then Inr s
             else f me (s\<lparr>activeThreads := (activeThreads s)[c := idleThreads s ! c]\<rparr>)
         | Some t \<Rightarrow>
             f me (s\<lparr>readyQ := q, th_next := nx, activeThreads := (activeThreads s)[c := t]\<rparr>))"

definition yield :: "nat \<Rightarrow> kernel \<Rightarrow> kernel res" where
  "yield c s = block CanReturn schedule c s"

definition bury :: "nat \<Rightarrow> kernel \<Rightarrow> kernel res" where
  "bury me s =
     (if \<not> isIdle s me then
        rbind (queue_add me (zombies s, th_next s)) (\<lambda>(q, nx).
        Inr (s\<lparr>zombies := q, th_next := nx\<rparr>))
      else Inr s)"

definition stop :: "nat \<Rightarrow> kernel \<Rightarrow> kernel res" where
  "stop c s = block MustBlock bury c s"

definition sem_wait :: "nat \<Rightarrow> nat \<Rightarrow> kernel \<Rightarrow> kernel res" where
  "sem_wait i me s =
     rbind (ASSERT (\<not> isIdle s me)) (\<lambda>_.
     rbind (queue_add me (sem_waiting (th_sems s i), th_next s)) (\<lambda>(q, nx).
     Inr (s\<lparr>th_sems := (th_sems s)(i := (th_sems s i)\<lparr>sem_waiting := q\<rparr>), th_next := nx\<rparr>)))"

definition sem_down :: "nat \<Rightarrow> nat \<Rightarrow> kernel \<Rightarrow> kernel res" where
  "sem_down i c s =
     (if sem_count (th_sems s i) > 0
      then Inr (s\<lparr>th_sems := (th_sems s)(i := (th_sems s i)\<lparr>sem_count := sem_count (th_sems s i) - 1\<rparr>)\<rparr>)
      else block MustBlock (sem_wait i) c s)"

definition sem_up :: "nat \<Rightarrow> kernel \<Rightarrow> kernel res" where
  "sem_up i s =
     (let (next_tcb, q, nx) = queue_remove (sem_waiting (th_sems s i), th_next s) in
      case next_tcb of
        None \<Rightarrow> Inr (s\<lparr>th_sems := (th_sems s)(i := (th_sems s i)\<lparr>sem_count := sem_count (th_sems s i) + 1\<rparr>)\<rparr>)
      | Some t \<Rightarrow> schedule t (s\<lparr>th_sems := (th_sems s)(i := (th_sems s i)\<lparr>sem_waiting := q\<rparr>), th_next := nx\<rparr>))"

partial_function (option) delete_zombies :: "kernel \<Rightarrow> kernel option" where
  "delete_zombies s =
     (case queue_remove (zombies s, th_next s) of
        (None, q, nx) \<Rightarrow> Some s
      | (Some t, q, nx) \<Rightarrow>
          delete_zombies (s\<lparr>zombies := q, th_next := nx, th_deleted := t # th_deleted s\<rparr>))"

text \<open>
  \<open>thread\<close> with the address \<open>t\<close> that \<open>operator new\<close> gave the TCB, which may be that of a deleted one.
\<close>

definition thread_create :: "nat \<Rightarrow> kernel \<Rightarrow> kernel res option" where
  "thread_create t s =
     map_option (\<lambda>s1. schedule t (s1\<lparr>th_deleted := removeAll t (th_deleted s1)\<rparr>)) (delete_zombies s)"

text \<open>\<open>threadsInit\<close>, before the reaper thread is made: \<open>idles\<close> are the idle threads of the cores.\<close>

definition threads_init :: "nat list \<Rightarrow> (nat \<Rightarrow> u64) \<Rightarrow> kernel" where
  "threads_init idles counts =
     \<lparr>th_next = (\<lambda>_. None), readyQ = queue_init, zombies = queue_init,
      activeThreads = idles, idleThreads = idles,
      th_sems = (\<lambda>i. \<lparr>sem_count = counts i, sem_waiting = queue_init\<rparr>), th_deleted = []\<rparr>"

section \<open>The invariant\<close>

text \<open>Where a thread that is not an idle thread can be.\<close>

datatype place = Nowhere | Running nat | Ready | Zombie | Waiting nat | Deleted

text \<open>
  \<open>pl\<close> gives every thread one place, and the queues, the cores and the list of deleted threads
  agree with it. A semaphore has waiting threads only when its count is zero.
\<close>

record ghost =
  g_ready :: "nat list"
  g_zombies :: "nat list"
  g_waiting :: "nat \<Rightarrow> nat list"
  g_place :: "nat \<Rightarrow> place"

definition cores_ok :: "nat list \<Rightarrow> nat list \<Rightarrow> (nat \<Rightarrow> place) \<Rightarrow> bool" where
  "cores_ok acts idles pl \<longleftrightarrow>
     length acts = length idles \<and>
     (\<forall>t c. pl t = Running c \<longrightarrow> c < length acts \<and> acts ! c = t) \<and>
     (\<forall>c < length acts. acts ! c \<notin> set idles \<longrightarrow> pl (acts ! c) = Running c) \<and>
     (\<forall>t \<in> set idles. pl t = Nowhere) \<and>
     (\<forall>c < length acts. acts ! c \<in> set idles \<longrightarrow> acts ! c = idles ! c)"

definition lists_ok :: "kernel \<Rightarrow> ghost \<Rightarrow> bool" where
  "lists_ok s g \<longleftrightarrow>
     set (g_ready g) = {t. g_place g t = Ready} \<and> set (g_zombies g) = {t. g_place g t = Zombie} \<and>
     (\<forall>i. set (g_waiting g i) = {t. g_place g t = Waiting i}) \<and>
     set (th_deleted s) = {t. g_place g t = Deleted} \<and> distinct (th_deleted s)"

definition reps_ok :: "kernel \<Rightarrow> ghost \<Rightarrow> bool" where
  "reps_ok s g \<longleftrightarrow>
     queue_rep (readyQ s) (th_next s) (g_ready g) \<and>
     queue_rep (zombies s) (th_next s) (g_zombies g) \<and>
     (\<forall>i. queue_rep (sem_waiting (th_sems s i)) (th_next s) (g_waiting g i)) \<and>
     (\<forall>i. sem_count (th_sems s i) \<noteq> 0 \<longrightarrow> g_waiting g i = [])"

definition threads_ok :: "kernel \<Rightarrow> ghost \<Rightarrow> bool" where
  "threads_ok s g \<longleftrightarrow>
     cores_ok (activeThreads s) (idleThreads s) (g_place g) \<and> lists_ok s g \<and> reps_ok s g"

definition threads_inv :: "kernel \<Rightarrow> bool" where
  "threads_inv s \<longleftrightarrow> (\<exists>g. threads_ok s g)"

lemma threads_init_ok:
  "threads_ok (threads_init idles counts)
     \<lparr>g_ready = [], g_zombies = [], g_waiting = (\<lambda>_. []), g_place = (\<lambda>_. Nowhere)\<rparr>"
  by (auto simp: threads_ok_def cores_ok_def lists_ok_def reps_ok_def threads_init_def queue_rep_init)

section \<open>Moving a thread from place to place\<close>

definition off_core :: "place \<Rightarrow> bool" where
  "off_core p \<longleftrightarrow> (\<forall>c. p \<noteq> Running c)"

lemma off_core_simps [simp]:
  "off_core Nowhere" "off_core Ready" "off_core Zombie" "off_core (Waiting i)" "off_core Deleted"
  "\<not> off_core (Running c)"
  by (auto simp: off_core_def)

lemma cores_ok_move:
  "cores_ok acts idles pl \<Longrightarrow> off_core (pl t) \<Longrightarrow> t \<notin> set idles \<Longrightarrow> off_core p \<Longrightarrow>
   cores_ok acts idles (pl(t := p))"
  by (auto simp: cores_ok_def off_core_def)

lemma cores_ok_idle: "cores_ok acts idles pl \<Longrightarrow> pl t \<noteq> Nowhere \<Longrightarrow> t \<notin> set idles"
  by (auto simp: cores_ok_def)

text \<open>A core leaves its thread and runs another: one that is nowhere, or its own idle thread.\<close>

lemma cores_ok_switch:
  assumes ok: "cores_ok acts idles pl" and c: "c < length acts"
    and t: "t \<notin> set idles \<and> pl t = Nowhere \<or> t = idles ! c"
  shows "cores_ok (acts[c := t]) idles
    (\<lambda>x. if x = t \<and> t \<notin> set idles then Running c else if x = acts ! c then Nowhere else pl x)"
proof -
  have run: "\<And>x d. pl x = Running d \<Longrightarrow> d < length acts \<and> acts ! d = x"
    and act: "\<And>d. d < length acts \<Longrightarrow> acts ! d \<notin> set idles \<Longrightarrow> pl (acts ! d) = Running d"
    and idle: "\<And>x. x \<in> set idles \<Longrightarrow> pl x = Nowhere"
    and len: "length acts = length idles"
    and own: "\<And>d. d < length acts \<Longrightarrow> acts ! d \<in> set idles \<Longrightarrow> acts ! d = idles ! d"
    using ok by (auto simp: cores_ok_def)
  let ?p = "\<lambda>x. if x = t \<and> t \<notin> set idles then Running c else if x = acts ! c then Nowhere else pl x"
  have tp: "pl t = Nowhere" using t idle c len by auto
  have R1: "d < length acts \<and> acts[c := t] ! d = x" if "?p x = Running d" for x d
  proof (cases "x = t \<and> t \<notin> set idles")
    case True
    then show ?thesis using that c by simp
  next
    case False
    then have "x \<noteq> acts ! c" "pl x = Running d" using that by (auto split: if_splits)
    then have "d < length acts" "acts ! d = x" "d \<noteq> c" using run [of x d] by auto
    then show ?thesis by simp
  qed
  have R2: "?p (acts[c := t] ! d) = Running d" if "d < length acts" "acts[c := t] ! d \<notin> set idles" for d
  proof (cases "d = c")
    case True
    then show ?thesis using that by simp
  next
    case False
    then have p: "pl (acts ! d) = Running d" using act that by simp
    moreover have "acts ! d \<noteq> acts ! c"
    proof
      assume e: "acts ! d = acts ! c"
      then have "pl (acts ! c) = Running c" using act [of c] c p that False by simp
      then show False using p e False by simp
    qed
    moreover have "acts ! d \<noteq> t" using p tp by auto
    ultimately show ?thesis using False by simp
  qed
  have I: "?p x = Nowhere" if "x \<in> set idles" for x using that idle by auto
  have A: "acts[c := t] ! d = idles ! d" if "d < length acts" "acts[c := t] ! d \<in> set idles" for d
    using that t own [of d] by (cases "d = c") auto
  show ?thesis
    unfolding cores_ok_def using R1 R2 I A len by (simp del: if_split)
qed

lemma cores_ok_place:
  assumes "cores_ok acts idles pl" "c < length acts"
  shows "pl (acts ! c) = (if acts ! c \<in> set idles then Nowhere else Running c)"
  using assms by (auto simp: cores_ok_def)

lemma switch_ok:
  assumes ok: "threads_ok s g" and c: "c < length (activeThreads s)"
    and t: "t \<notin> set (idleThreads s) \<and> g_place g t = Nowhere \<or> t = idleThreads s ! c"
  shows "threads_ok (s\<lparr>activeThreads := (activeThreads s)[c := t]\<rparr>)
    (g\<lparr>g_place := (\<lambda>x. if x = t \<and> t \<notin> set (idleThreads s) then Running c
       else if x = activeThreads s ! c then Nowhere else g_place g x)\<rparr>)"
proof -
  have C: "cores_ok (activeThreads s) (idleThreads s) (g_place g)" and L: "lists_ok s g" and Q: "reps_ok s g"
    using ok by (auto simp: threads_ok_def)
  let ?p = "\<lambda>x. if x = t \<and> t \<notin> set (idleThreads s) then Running c
       else if x = activeThreads s ! c then Nowhere else g_place g x"
  have "g_place g t = Nowhere" using t C c by (auto simp: cores_ok_def)
  moreover have "g_place g (activeThreads s ! c) \<in> {Running c, Nowhere}"
    using cores_ok_place [OF C c] by simp
  ultimately have keep: "(?p x = v) = (g_place g x = v)" if "off_core v" "v \<noteq> Nowhere" for x v
    using that by (auto simp: off_core_def)
  have "{x. ?p x = v} = {x. g_place g x = v}" if "off_core v" "v \<noteq> Nowhere" for v
    using keep [OF that] by blast
  then have "lists_ok (s\<lparr>activeThreads := (activeThreads s)[c := t]\<rparr>) (g\<lparr>g_place := ?p\<rparr>)"
    using L by (simp add: lists_ok_def del: if_split)
  then show ?thesis
    using cores_ok_switch [OF C c t] Q by (simp add: threads_ok_def reps_ok_def)
qed

text \<open>A thread taken from the front of a queue is nowhere for a moment.\<close>

lemma queue_take:
  assumes "queue_rep q nx (t # R)"
  obtains q' where "queue_remove (q, nx) = (Some t, q', nx)" "queue_rep q' nx R" "t \<notin> set R"
proof -
  obtain q' where "queue_remove (q, nx) = (Some t, q', nx)" "queue_rep q' nx R"
    using tcb_queue.deq_rep [OF assms] by blast
  moreover have "t \<notin> set R" using assms by (simp add: queue_rep_def)
  ultimately show ?thesis by (rule that)
qed

lemma set_tail: "set (t # R) = {x. f x = v} \<Longrightarrow> t \<notin> set R \<Longrightarrow> w \<noteq> v \<Longrightarrow> set R = {x. (f(t := w)) x = v}"
  by auto

lemma set_other: "S = {x. f x = u} \<Longrightarrow> f t \<noteq> u \<Longrightarrow> w \<noteq> u \<Longrightarrow> S = {x. (f(t := w)) x = u}"
  by auto

lemma take_ready:
  assumes ok: "threads_ok s g" and r: "g_ready g = t # R"
  obtains q where "queue_remove (readyQ s, th_next s) = (Some t, q, th_next s)"
    and "threads_ok (s\<lparr>readyQ := q\<rparr>) (g\<lparr>g_ready := R, g_place := (g_place g)(t := Nowhere)\<rparr>)"
    and "t \<notin> set (idleThreads s)"
proof -
  have C: "cores_ok (activeThreads s) (idleThreads s) (g_place g)" and L: "lists_ok s g" and Q: "reps_ok s g"
    using ok by (auto simp: threads_ok_def)
  have "queue_rep (readyQ s) (th_next s) (t # R)" using Q r by (simp add: reps_ok_def)
  then obtain q where q: "queue_remove (readyQ s, th_next s) = (Some t, q, th_next s)"
    "queue_rep q (th_next s) R" "t \<notin> set R" by (rule queue_take)
  have sr: "set (t # R) = {x. g_place g x = Ready}" using L r by (simp add: lists_ok_def)
  then have p: "g_place g t = Ready" by auto
  have i: "t \<notin> set (idleThreads s)" using cores_ok_idle [OF C, of t] p by simp
  have "cores_ok (activeThreads s) (idleThreads s) ((g_place g)(t := Nowhere))"
    using cores_ok_move [OF C _ i] p by simp
  moreover have "lists_ok (s\<lparr>readyQ := q\<rparr>) (g\<lparr>g_ready := R, g_place := (g_place g)(t := Nowhere)\<rparr>)"
    using L set_tail [OF sr q(3)] set_other [where f = "g_place g" and t = t and w = Nowhere] p
    by (simp add: lists_ok_def)
  ultimately show ?thesis
    using that q i Q by (simp add: threads_ok_def reps_ok_def)
qed

lemma take_zombie:
  assumes ok: "threads_ok s g" and r: "g_zombies g = t # R"
  obtains q where "queue_remove (zombies s, th_next s) = (Some t, q, th_next s)"
    and "threads_ok (s\<lparr>zombies := q, th_deleted := t # th_deleted s\<rparr>)
      (g\<lparr>g_zombies := R, g_place := (g_place g)(t := Deleted)\<rparr>)"
proof -
  have C: "cores_ok (activeThreads s) (idleThreads s) (g_place g)" and L: "lists_ok s g" and Q: "reps_ok s g"
    using ok by (auto simp: threads_ok_def)
  have "queue_rep (zombies s) (th_next s) (t # R)" using Q r by (simp add: reps_ok_def)
  then obtain q where q: "queue_remove (zombies s, th_next s) = (Some t, q, th_next s)"
    "queue_rep q (th_next s) R" "t \<notin> set R" by (rule queue_take)
  have sr: "set (t # R) = {x. g_place g x = Zombie}" using L r by (simp add: lists_ok_def)
  then have p: "g_place g t = Zombie" by auto
  have i: "t \<notin> set (idleThreads s)" using cores_ok_idle [OF C, of t] p by simp
  have "cores_ok (activeThreads s) (idleThreads s) ((g_place g)(t := Deleted))"
    using cores_ok_move [OF C _ i] p by simp
  moreover have "set (t # th_deleted s) = {x. ((g_place g)(t := Deleted)) x = Deleted}" "t \<notin> set (th_deleted s)"
    using L p by (auto simp: lists_ok_def)
  then have "lists_ok (s\<lparr>zombies := q, th_deleted := t # th_deleted s\<rparr>)
      (g\<lparr>g_zombies := R, g_place := (g_place g)(t := Deleted)\<rparr>)"
    using L set_tail [OF sr q(3)] set_other [where f = "g_place g" and t = t and w = Deleted] p
    by (simp add: lists_ok_def)
  ultimately show ?thesis
    using that q i Q by (simp add: threads_ok_def reps_ok_def)
qed

lemma take_waiting:
  assumes ok: "threads_ok s g" and r: "g_waiting g i = t # R"
  obtains q where "queue_remove (sem_waiting (th_sems s i), th_next s) = (Some t, q, th_next s)"
    and "threads_ok (s\<lparr>th_sems := (th_sems s)(i := (th_sems s i)\<lparr>sem_waiting := q\<rparr>)\<rparr>)
      (g\<lparr>g_waiting := (g_waiting g)(i := R), g_place := (g_place g)(t := Nowhere)\<rparr>)"
    and "t \<notin> set (idleThreads s)"
proof -
  have C: "cores_ok (activeThreads s) (idleThreads s) (g_place g)" and L: "lists_ok s g" and Q: "reps_ok s g"
    using ok by (auto simp: threads_ok_def)
  have "queue_rep (sem_waiting (th_sems s i)) (th_next s) (t # R)" using Q r by (metis reps_ok_def)
  then obtain q where q: "queue_remove (sem_waiting (th_sems s i), th_next s) = (Some t, q, th_next s)"
    "queue_rep q (th_next s) R" "t \<notin> set R" by (rule queue_take)
  have sr: "set (t # R) = {x. g_place g x = Waiting i}" using L r by (metis lists_ok_def)
  then have p: "g_place g t = Waiting i" by auto
  have i: "t \<notin> set (idleThreads s)" using cores_ok_idle [OF C, of t] p by simp
  have c: "sem_count (th_sems s i) = 0" using Q r by (auto simp: reps_ok_def)
  have "cores_ok (activeThreads s) (idleThreads s) ((g_place g)(t := Nowhere))"
    using cores_ok_move [OF C _ i] p by simp
  moreover have "set (((g_waiting g)(i := R)) j) = {x. ((g_place g)(t := Nowhere)) x = Waiting j}" for j
    using L p set_tail [OF sr q(3), of Nowhere] by (cases "j = i") (auto simp: lists_ok_def)
  then have "lists_ok (s\<lparr>th_sems := (th_sems s)(i := (th_sems s i)\<lparr>sem_waiting := q\<rparr>)\<rparr>)
      (g\<lparr>g_waiting := (g_waiting g)(i := R), g_place := (g_place g)(t := Nowhere)\<rparr>)"
    using L set_other [where f = "g_place g" and t = t and w = Nowhere] p by (simp add: lists_ok_def)
  moreover have "reps_ok (s\<lparr>th_sems := (th_sems s)(i := (th_sems s i)\<lparr>sem_waiting := q\<rparr>)\<rparr>)
      (g\<lparr>g_waiting := (g_waiting g)(i := R), g_place := (g_place g)(t := Nowhere)\<rparr>)"
    using Q q c by (simp add: reps_ok_def)
  ultimately show ?thesis using that q i by (simp add: threads_ok_def)
qed

text \<open>A thread that is nowhere is put at the end of a queue; the other queues stay as they are.\<close>

lemma set_add: "S = {x. f x = v} \<Longrightarrow> f t \<noteq> v \<Longrightarrow> insert t S = {x. (f(t := v)) x = v}"
  by auto

lemma lists_nowhere:
  assumes "lists_ok s g" "g_place g t = Nowhere"
  shows "t \<notin> set (g_ready g)" "t \<notin> set (g_zombies g)" "t \<notin> set (g_waiting g i)"
  using assms by (auto simp: lists_ok_def)

lemma lists_disjoint:
  assumes "lists_ok s g"
  shows "set (g_ready g) \<inter> set (g_zombies g) = {}" "set (g_zombies g) \<inter> set (g_ready g) = {}"
    "set (g_ready g) \<inter> set (g_waiting g i) = {}" "set (g_waiting g i) \<inter> set (g_ready g) = {}"
    "set (g_zombies g) \<inter> set (g_waiting g i) = {}" "set (g_waiting g i) \<inter> set (g_zombies g) = {}"
    "i \<noteq> j \<Longrightarrow> set (g_waiting g i) \<inter> set (g_waiting g j) = {}"
  using assms by (auto simp: lists_ok_def)

lemma add_ready:
  assumes ok: "threads_ok s g" and p: "g_place g t = Nowhere" and i: "t \<notin> set (idleThreads s)"
  obtains s' where "schedule t s = Inr s'"
    and "threads_ok s' (g\<lparr>g_ready := g_ready g @ [t], g_place := (g_place g)(t := Ready)\<rparr>)"
    and "activeThreads s' = activeThreads s" "idleThreads s' = idleThreads s" "th_deleted s' = th_deleted s"
proof -
  have C: "cores_ok (activeThreads s) (idleThreads s) (g_place g)" and L: "lists_ok s g" and Q: "reps_ok s g"
    using ok by (auto simp: threads_ok_def)
  note N = lists_nowhere [OF L p] and D = lists_disjoint [OF L]
  have "queue_rep (readyQ s) (th_next s) (g_ready g)" using Q by (simp add: reps_ok_def)
  from queue_add_ok [OF this N(1)] obtain q nx where q: "queue_add t (readyQ s, th_next s) = Inr (q, nx)"
    "queue_rep q nx (g_ready g @ [t])"
    and fr: "\<And>r ys. queue_rep r (th_next s) ys \<Longrightarrow> set ys \<inter> set (g_ready g) = {} \<Longrightarrow> t \<notin> set ys \<Longrightarrow> queue_rep r nx ys"
    by metis
  let ?s = "s\<lparr>readyQ := q, th_next := nx\<rparr>" and ?g = "g\<lparr>g_ready := g_ready g @ [t], g_place := (g_place g)(t := Ready)\<rparr>"
  have "cores_ok (activeThreads s) (idleThreads s) ((g_place g)(t := Ready))"
    using cores_ok_move [OF C _ i] p by simp
  moreover have "lists_ok ?s ?g"
    using L set_add [where f = "g_place g" and t = t and v = Ready]
      set_other [where f = "g_place g" and t = t and w = Ready] p by (simp add: lists_ok_def)
  moreover have "reps_ok ?s ?g"
    using Q q(2) fr N D by (simp add: reps_ok_def)
  ultimately have "threads_ok ?s ?g" by (simp add: threads_ok_def)
  then show ?thesis using that [of ?s] q(1) i by (simp add: schedule_def isIdle_def)
qed

lemma add_zombie:
  assumes ok: "threads_ok s g" and p: "g_place g t = Nowhere" and i: "t \<notin> set (idleThreads s)"
  obtains s' where "bury t s = Inr s'"
    and "threads_ok s' (g\<lparr>g_zombies := g_zombies g @ [t], g_place := (g_place g)(t := Zombie)\<rparr>)"
    and "activeThreads s' = activeThreads s" "idleThreads s' = idleThreads s"
proof -
  have C: "cores_ok (activeThreads s) (idleThreads s) (g_place g)" and L: "lists_ok s g" and Q: "reps_ok s g"
    using ok by (auto simp: threads_ok_def)
  note N = lists_nowhere [OF L p] and D = lists_disjoint [OF L]
  have "queue_rep (zombies s) (th_next s) (g_zombies g)" using Q by (simp add: reps_ok_def)
  from queue_add_ok [OF this N(2)] obtain q nx where q: "queue_add t (zombies s, th_next s) = Inr (q, nx)"
    "queue_rep q nx (g_zombies g @ [t])"
    and fr: "\<And>r ys. queue_rep r (th_next s) ys \<Longrightarrow> set ys \<inter> set (g_zombies g) = {} \<Longrightarrow> t \<notin> set ys \<Longrightarrow> queue_rep r nx ys"
    by metis
  let ?s = "s\<lparr>zombies := q, th_next := nx\<rparr>" and ?g = "g\<lparr>g_zombies := g_zombies g @ [t], g_place := (g_place g)(t := Zombie)\<rparr>"
  have "cores_ok (activeThreads s) (idleThreads s) ((g_place g)(t := Zombie))"
    using cores_ok_move [OF C _ i] p by simp
  moreover have "lists_ok ?s ?g"
    using L set_add [where f = "g_place g" and t = t and v = Zombie]
      set_other [where f = "g_place g" and t = t and w = Zombie] p by (simp add: lists_ok_def)
  moreover have "reps_ok ?s ?g"
    using Q q(2) fr N D by (simp add: reps_ok_def)
  ultimately have "threads_ok ?s ?g" by (simp add: threads_ok_def)
  then show ?thesis using that [of ?s] q(1) i by (simp add: bury_def isIdle_def)
qed

lemma add_waiting:
  assumes ok: "threads_ok s g" and p: "g_place g t = Nowhere" and i: "t \<notin> set (idleThreads s)"
    and z: "sem_count (th_sems s k) = 0"
  obtains s' where "sem_wait k t s = Inr s'"
    and "threads_ok s' (g\<lparr>g_waiting := (g_waiting g)(k := g_waiting g k @ [t]), g_place := (g_place g)(t := Waiting k)\<rparr>)"
    and "activeThreads s' = activeThreads s" "idleThreads s' = idleThreads s"
proof -
  have C: "cores_ok (activeThreads s) (idleThreads s) (g_place g)" and L: "lists_ok s g" and Q: "reps_ok s g"
    using ok by (auto simp: threads_ok_def)
  note N = lists_nowhere [OF L p] and D = lists_disjoint [OF L]
  let ?w = "sem_waiting (th_sems s k)"
  have "queue_rep ?w (th_next s) (g_waiting g k)" using Q by (simp add: reps_ok_def)
  from queue_add_ok [OF this N(3)] obtain q nx where q: "queue_add t (?w, th_next s) = Inr (q, nx)"
    "queue_rep q nx (g_waiting g k @ [t])"
    and fr: "\<And>r ys. queue_rep r (th_next s) ys \<Longrightarrow> set ys \<inter> set (g_waiting g k) = {} \<Longrightarrow> t \<notin> set ys \<Longrightarrow> queue_rep r nx ys"
    by metis
  let ?s = "s\<lparr>th_sems := (th_sems s)(k := (th_sems s k)\<lparr>sem_waiting := q\<rparr>), th_next := nx\<rparr>"
  let ?g = "g\<lparr>g_waiting := (g_waiting g)(k := g_waiting g k @ [t]), g_place := (g_place g)(t := Waiting k)\<rparr>"
  have "cores_ok (activeThreads s) (idleThreads s) ((g_place g)(t := Waiting k))"
    using cores_ok_move [OF C _ i] p by simp
  moreover have "set (((g_waiting g)(k := g_waiting g k @ [t])) j) = {x. ((g_place g)(t := Waiting k)) x = Waiting j}" for j
    using L p by (cases "j = k") (auto simp: lists_ok_def)
  then have "lists_ok ?s ?g"
    using L set_other [where f = "g_place g" and t = t and w = "Waiting k"] p by (simp add: lists_ok_def)
  moreover have "reps_ok ?s ?g"
    using Q q(2) fr N D z by (simp add: reps_ok_def)
  ultimately have "threads_ok ?s ?g" by (simp add: threads_ok_def)
  then show ?thesis using that [of ?s] q(1) i by (simp add: sem_wait_def isIdle_def)
qed

section \<open>The operations keep the invariant\<close>

lemma threads_cores:
  assumes "threads_ok s g" "c < length (activeThreads s)"
  shows "g_place g (current c s) = (if isIdle s (current c s) then Nowhere else Running c)"
    and "isIdle s (current c s) \<Longrightarrow> current c s = idleThreads s ! c"
    and "length (activeThreads s) = length (idleThreads s)"
  using assms by (auto simp: threads_ok_def cores_ok_def current_def isIdle_def)

text \<open>
  \<open>block\<close>: it returns or spins with the state unchanged, or it switches to the head of the ready queue
  or to the idle thread and runs the action in a state where the blocked thread is nowhere.
\<close>

lemma block_cases:
  assumes ok: "threads_ok s g" and c: "c < length (activeThreads s)"
  obtains (stay) "g_ready g = []" "opt = CanReturn \<or> isIdle s (current c s)" "block opt f c s = Inr s"
  | (idle) s1 g1 where "g_ready g = []" "opt = MustBlock" "\<not> isIdle s (current c s)"
      "block opt f c s = f (current c s) s1" "threads_ok s1 g1" "g_place g1 (current c s) = Nowhere"
      "s1 = s\<lparr>activeThreads := (activeThreads s)[c := idleThreads s ! c]\<rparr>"
      "g_ready g1 = []" "g_waiting g1 = g_waiting g"
  | (switch) t R s1 g1 q where "g_ready g = t # R" "block opt f c s = f (current c s) s1" "threads_ok s1 g1"
      "g_place g1 (current c s) = Nowhere"
      "s1 = s\<lparr>readyQ := q, activeThreads := (activeThreads s)[c := t]\<rparr>"
      "g_ready g1 = R" "g_waiting g1 = g_waiting g" "t \<notin> set (idleThreads s)"
proof (cases "g_ready g")
  case Nil
  have "queue_rep (readyQ s) (th_next s) []" using ok Nil by (simp add: threads_ok_def reps_ok_def)
  then have e: "queue_remove (readyQ s, th_next s) = (None, readyQ s, th_next s)" by (rule tcb_queue.deq_empty)
  show ?thesis
  proof (cases "opt = CanReturn \<or> isIdle s (current c s)")
    case True
    then show ?thesis using stay Nil e by (auto simp: block_def Let_def)
  next
    case False
    let ?g = "g\<lparr>g_place := (\<lambda>x. if x = idleThreads s ! c \<and> idleThreads s ! c \<notin> set (idleThreads s) then Running c
       else if x = activeThreads s ! c then Nowhere else g_place g x)\<rparr>"
    have "threads_ok (s\<lparr>activeThreads := (activeThreads s)[c := idleThreads s ! c]\<rparr>) ?g"
      by (rule switch_ok [OF ok c]) simp
    moreover have "opt = MustBlock" using False by (cases opt) auto
    moreover have "idleThreads s ! c \<in> set (idleThreads s)" using c threads_cores(3) [OF ok c] by simp
    ultimately show ?thesis
      using idle [OF Nil, of _ ?g] False e Nil by (simp add: block_def current_def Let_def)
  qed
next
  case (Cons t R)
  obtain q where q: "queue_remove (readyQ s, th_next s) = (Some t, q, th_next s)"
    "threads_ok (s\<lparr>readyQ := q\<rparr>) (g\<lparr>g_ready := R, g_place := (g_place g)(t := Nowhere)\<rparr>)"
    "t \<notin> set (idleThreads s)"
    by (rule take_ready [OF ok Cons])
  let ?g0 = "g\<lparr>g_ready := R, g_place := (g_place g)(t := Nowhere)\<rparr>"
  let ?g = "?g0\<lparr>g_place := (\<lambda>x. if x = t \<and> t \<notin> set (idleThreads s) then Running c
       else if x = activeThreads s ! c then Nowhere else g_place ?g0 x)\<rparr>"
  have sw: "threads_ok (s\<lparr>readyQ := q, activeThreads := (activeThreads s)[c := t]\<rparr>) ?g"
    using switch_ok [OF q(2), of c t] c q(3) by (simp cong: if_cong)
  have "g_place g t = Ready" using ok Cons by (auto simp: threads_ok_def lists_ok_def)
  then have "current c s \<noteq> t" using threads_cores(1) [OF ok c] by (auto split: if_splits)
  then have "g_place ?g (current c s) = Nowhere" by (simp add: current_def)
  then show ?thesis
    using switch [OF Cons _ sw] q by (simp add: block_def Let_def)
qed

lemma yield_ok:
  assumes ok: "threads_ok s g" and c: "c < length (activeThreads s)"
  shows "\<exists>s' g'. yield c s = Inr s' \<and> threads_ok s' g'"
  using ok c
proof (cases rule: block_cases [where f = schedule and opt = CanReturn])
  case stay
  then show ?thesis using ok by (auto simp: yield_def)
next
  case (switch t R s1 g1 q)
  show ?thesis
  proof (cases "current c s \<in> set (idleThreads s1)")
    case True
    then show ?thesis using switch by (auto simp: yield_def schedule_def isIdle_def)
  next
    case False
    obtain s' where "schedule (current c s) s1 = Inr s'"
      "threads_ok s' (g1\<lparr>g_ready := g_ready g1 @ [current c s], g_place := (g_place g1)(current c s := Ready)\<rparr>)"
      by (rule add_ready [OF switch(3,4) False])
    then show ?thesis using switch(2) unfolding yield_def by metis
  qed
qed simp

lemma stop_ok:
  assumes ok: "threads_ok s g" and c: "c < length (activeThreads s)"
  shows "\<exists>s' g'. stop c s = Inr s' \<and> threads_ok s' g'"
proof -
  have bury: "\<exists>s' g'. bury (current c s) s1 = Inr s' \<and> threads_ok s' g'"
    if "threads_ok s1 g1" "g_place g1 (current c s) = Nowhere" for s1 g1
  proof (cases "current c s \<in> set (idleThreads s1)")
    case True
    then show ?thesis using that by (auto simp: bury_def isIdle_def)
  next
    case False
    then show ?thesis using add_zombie [OF that False] by metis
  qed
  show ?thesis
    using ok c
  proof (cases rule: block_cases [where f = bury and opt = MustBlock])
    case stay
    then show ?thesis using ok by (auto simp: stop_def)
  next
    case (idle s1 g1)
    then show ?thesis using bury [OF idle(5,6)] by (simp add: stop_def)
  next
    case (switch t R s1 g1 q)
    then show ?thesis using bury [OF switch(3,4)] by (simp add: stop_def)
  qed
qed

lemma sem_set_ok:
  assumes "threads_ok s g" "g_waiting g i = [] \<or> n = 0"
  shows "threads_ok (s\<lparr>th_sems := (th_sems s)(i := (th_sems s i)\<lparr>sem_count := n\<rparr>)\<rparr>) g"
  using assms by (auto simp: threads_ok_def lists_ok_def reps_ok_def)

lemma sem_down_ok:
  assumes ok: "threads_ok s g" and c: "c < length (activeThreads s)" and me: "\<not> isIdle s (current c s)"
  shows "\<exists>s' g'. sem_down i c s = Inr s' \<and> threads_ok s' g'"
proof (cases "sem_count (th_sems s i) > 0")
  case True
  then have "g_waiting g i = []" using ok by (auto simp: threads_ok_def reps_ok_def)
  then show ?thesis using True sem_set_ok [OF ok] by (auto simp: sem_down_def)
next
  case False
  then have z: "sem_count (th_sems s i) = 0" by (simp add: word_neq_0_conv [symmetric])
  have wait: "\<exists>s' g'. sem_wait i (current c s) s1 = Inr s' \<and> threads_ok s' g'"
    if "threads_ok s1 g1" "g_place g1 (current c s) = Nowhere" "th_sems s1 = th_sems s"
      "idleThreads s1 = idleThreads s" for s1 g1
  proof -
    have i: "current c s \<notin> set (idleThreads s1)" using me that(4) by (simp add: isIdle_def)
    have z1: "sem_count (th_sems s1 i) = 0" using z that(3) by simp
    show ?thesis by (rule add_waiting [OF that(1,2) i z1]) blast
  qed
  show ?thesis
    using ok c
  proof (cases rule: block_cases [where f = "sem_wait i" and opt = MustBlock])
    case stay
    then show ?thesis using me by simp
  next
    case (idle s1 g1)
    then show ?thesis using wait [OF idle(5,6)] False by (simp add: sem_down_def)
  next
    case (switch t R s1 g1 q)
    then show ?thesis using wait [OF switch(3,4)] False by (simp add: sem_down_def)
  qed
qed

lemma sem_up_wakes:
  assumes ok: "threads_ok s g" and w: "g_waiting g i = t # R"
  obtains s' g' where "sem_up i s = Inr s'" "threads_ok s' g'" "g_ready g' = g_ready g @ [t]"
    and "g_waiting g' = (g_waiting g)(i := R)" "activeThreads s' = activeThreads s"
proof -
  obtain q where q: "queue_remove (sem_waiting (th_sems s i), th_next s) = (Some t, q, th_next s)"
    and ok1: "threads_ok (s\<lparr>th_sems := (th_sems s)(i := (th_sems s i)\<lparr>sem_waiting := q\<rparr>)\<rparr>)
      (g\<lparr>g_waiting := (g_waiting g)(i := R), g_place := (g_place g)(t := Nowhere)\<rparr>)"
    and i: "t \<notin> set (idleThreads s)"
    by (rule take_waiting [OF ok w])
  let ?s = "s\<lparr>th_sems := (th_sems s)(i := (th_sems s i)\<lparr>sem_waiting := q\<rparr>)\<rparr>"
  let ?g = "g\<lparr>g_waiting := (g_waiting g)(i := R), g_place := (g_place g)(t := Nowhere)\<rparr>"
  have p: "g_place ?g t = Nowhere" and i': "t \<notin> set (idleThreads ?s)" using i by simp_all
  obtain s' where s': "schedule t ?s = Inr s'"
    "threads_ok s' (?g\<lparr>g_ready := g_ready ?g @ [t], g_place := (g_place ?g)(t := Ready)\<rparr>)"
    "activeThreads s' = activeThreads ?s"
    by (rule add_ready [OF ok1 p i'])
  show ?thesis by (rule that [OF _ s'(2)]) (use q s' in \<open>simp_all add: sem_up_def Let_def\<close>)
qed

lemma sem_up_counts:
  assumes ok: "threads_ok s g" and w: "g_waiting g i = []"
  shows "sem_up i s = Inr (s\<lparr>th_sems := (th_sems s)(i := (th_sems s i)\<lparr>sem_count := sem_count (th_sems s i) + 1\<rparr>)\<rparr>)"
proof -
  have "queue_rep (sem_waiting (th_sems s i)) (th_next s) []"
    using ok w by (metis threads_ok_def reps_ok_def)
  then show ?thesis by (simp add: sem_up_def tcb_queue.deq_empty Let_def)
qed

lemma sem_up_ok:
  assumes ok: "threads_ok s g"
  shows "\<exists>s' g'. sem_up i s = Inr s' \<and> threads_ok s' g'"
proof (cases "g_waiting g i")
  case Nil
  then show ?thesis using sem_up_counts [OF ok Nil] sem_set_ok [OF ok] by metis
next
  case (Cons t R)
  show ?thesis by (rule sem_up_wakes [OF ok Cons]) blast
qed

lemma delete_zombies_ok:
  assumes "threads_ok s g"
  shows "\<exists>s' g'. delete_zombies s = Some s' \<and> threads_ok s' g' \<and> g_zombies g' = [] \<and>
    th_deleted s' = rev (g_zombies g) @ th_deleted s \<and> activeThreads s' = activeThreads s \<and>
    idleThreads s' = idleThreads s \<and> (\<forall>t. g_place g t = Nowhere \<longrightarrow> g_place g' t = Nowhere) \<and>
    (\<forall>t. g_place g t = Deleted \<longrightarrow> g_place g' t = Deleted)"
  using assms
proof (induction "g_zombies g" arbitrary: s g)
  case Nil
  then have "queue_rep (zombies s) (th_next s) []" by (simp add: threads_ok_def reps_ok_def)
  then show ?case using Nil by (subst delete_zombies.simps) (auto simp: tcb_queue.deq_empty)
next
  case (Cons t R)
  obtain q where q: "queue_remove (zombies s, th_next s) = (Some t, q, th_next s)"
    "threads_ok (s\<lparr>zombies := q, th_deleted := t # th_deleted s\<rparr>)
      (g\<lparr>g_zombies := R, g_place := (g_place g)(t := Deleted)\<rparr>)"
    by (rule take_zombie [OF Cons.prems Cons.hyps(2) [symmetric]])
  have "g_place g t = Zombie" using Cons.prems Cons.hyps(2) [symmetric] by (auto simp: threads_ok_def lists_ok_def)
  moreover have "delete_zombies s = delete_zombies (s\<lparr>zombies := q, th_deleted := t # th_deleted s\<rparr>)"
    using q(1) by (subst delete_zombies.simps) simp
  moreover have "\<forall>x. g_place g x = Nowhere \<longrightarrow> x \<noteq> t" using calculation(1) by auto
  moreover from Cons.hyps(1) [OF _ q(2)] obtain s' g' where
    "delete_zombies (s\<lparr>zombies := q, th_deleted := t # th_deleted s\<rparr>) = Some s'" "threads_ok s' g'"
    "g_zombies g' = []" "th_deleted s' = rev R @ t # th_deleted s" "activeThreads s' = activeThreads s"
    "idleThreads s' = idleThreads s" "\<forall>x. x \<noteq> t \<and> g_place g x = Nowhere \<longrightarrow> g_place g' x = Nowhere"
    "\<forall>x. x = t \<or> g_place g x = Deleted \<longrightarrow> g_place g' x = Deleted" by auto
  moreover have "rev (g_zombies g) = rev R @ [t]" using Cons.hyps(2) [symmetric] by simp
  ultimately show ?case by (intro exI [of _ s'] exI [of _ g']) auto
qed

lemma thread_create_ok:
  assumes ok: "threads_ok s g" and t: "t \<notin> set (idleThreads s)" "g_place g t \<in> {Nowhere, Deleted}"
  shows "\<exists>s' g'. thread_create t s = Some (Inr s') \<and> threads_ok s' g' \<and> g_place g' t = Ready"
proof -
  obtain s1 g1 where z: "delete_zombies s = Some s1" "threads_ok s1 g1" "idleThreads s1 = idleThreads s"
    "g_place g1 t \<in> {Nowhere, Deleted}"
    using delete_zombies_ok [OF ok] t(2) by fastforce
  let ?s = "s1\<lparr>th_deleted := removeAll t (th_deleted s1)\<rparr>" and ?g = "g1\<lparr>g_place := (g_place g1)(t := Nowhere)\<rparr>"
  have C: "cores_ok (activeThreads s1) (idleThreads s1) (g_place g1)" and L: "lists_ok s1 g1" and Q: "reps_ok s1 g1"
    using z(2) by (auto simp: threads_ok_def)
  have "cores_ok (activeThreads s1) (idleThreads s1) ((g_place g1)(t := Nowhere))"
    using cores_ok_move [OF C] z t by auto
  moreover have "lists_ok ?s ?g"
    using L z(4) by (auto simp: lists_ok_def distinct_removeAll)
  moreover have "reps_ok ?s ?g" using Q by (simp add: reps_ok_def)
  ultimately have ok1: "threads_ok ?s ?g" by (simp add: threads_ok_def)
  obtain s' where "schedule t ?s = Inr s'"
    "threads_ok s' (?g\<lparr>g_ready := g_ready ?g @ [t], g_place := (g_place ?g)(t := Ready)\<rparr>)"
    by (rule add_ready [OF ok1]) (use t z in auto)
  then show ?thesis using z(1) by (intro exI conjI) (auto simp: thread_create_def)
qed

section \<open>Reachable states\<close>

text \<open>
  A thread that may be created is not an idle thread and, in every reading of the state, has no
  place or is deleted.
\<close>

definition fresh_thread :: "kernel \<Rightarrow> nat \<Rightarrow> bool" where
  "fresh_thread s t \<longleftrightarrow>
     t \<notin> set (idleThreads s) \<and> (\<forall>g. threads_ok s g \<longrightarrow> g_place g t \<in> {Nowhere, Deleted})"

inductive kernel_step :: "kernel \<Rightarrow> kernel \<Rightarrow> bool" where
  step_yield: "c < length (activeThreads s) \<Longrightarrow> yield c s = Inr s' \<Longrightarrow> kernel_step s s'"
| step_stop: "c < length (activeThreads s) \<Longrightarrow> stop c s = Inr s' \<Longrightarrow> kernel_step s s'"
| step_down: "c < length (activeThreads s) \<Longrightarrow> \<not> isIdle s (current c s) \<Longrightarrow> sem_down i c s = Inr s' \<Longrightarrow>
    kernel_step s s'"
| step_up: "sem_up i s = Inr s' \<Longrightarrow> kernel_step s s'"
| step_reap: "delete_zombies s = Some s' \<Longrightarrow> kernel_step s s'"
| step_create: "fresh_thread s t \<Longrightarrow> thread_create t s = Some (Inr s') \<Longrightarrow> kernel_step s s'"

inductive kernel_reachable :: "kernel \<Rightarrow> kernel \<Rightarrow> bool" for s0 where
  start: "kernel_reachable s0 s0"
| more: "kernel_reachable s0 s \<Longrightarrow> kernel_step s s' \<Longrightarrow> kernel_reachable s0 s'"

inductive_cases kernel_stepE: "kernel_step s s'"

lemma kernel_step_inv:
  assumes "kernel_step s s'" "threads_inv s"
  shows "threads_inv s'"
proof -
  obtain g where ok: "threads_ok s g" using assms(2) by (auto simp: threads_inv_def)
  from assms(1) show ?thesis
  proof (cases rule: kernel_step.cases)
    case (step_yield c)
    then show ?thesis using yield_ok [OF ok] by (fastforce simp: threads_inv_def)
  next
    case (step_stop c)
    then show ?thesis using stop_ok [OF ok] by (fastforce simp: threads_inv_def)
  next
    case (step_down c i)
    then show ?thesis using sem_down_ok [OF ok step_down(1,2), of i] by (auto simp: threads_inv_def)
  next
    case (step_up i)
    then show ?thesis using sem_up_ok [OF ok, of i] by (fastforce simp: threads_inv_def)
  next
    case step_reap
    then show ?thesis using delete_zombies_ok [OF ok] by (fastforce simp: threads_inv_def)
  next
    case (step_create t)
    then have "t \<notin> set (idleThreads s)" "g_place g t \<in> {Nowhere, Deleted}"
      using ok by (auto simp: fresh_thread_def)
    from thread_create_ok [OF ok this] show ?thesis using step_create(2) by (auto simp: threads_inv_def)
  qed
qed

lemma distinct_filterI:
  "(\<And>i j. i < length xs \<Longrightarrow> j < length xs \<Longrightarrow> P (xs ! i) \<Longrightarrow> xs ! i = xs ! j \<Longrightarrow> i = j) \<Longrightarrow>
   distinct (filter P xs)"
proof (induction xs)
  case (Cons x xs)
  have "distinct (filter P xs)" using Cons.IH Cons.prems [of "Suc _" "Suc _"] by auto
  moreover have "x \<notin> set (filter P xs)"
  proof
    assume "x \<in> set (filter P xs)"
    then obtain j where "j < length xs" "xs ! j = x" "P x" by (auto simp: in_set_conv_nth)
    then show False using Cons.prems [of 0 "Suc j"] by simp
  qed
  ultimately show ?case by auto
qed simp

section \<open>Properties\<close>

text \<open>The threads that run, and those of the lists, are different.\<close>

lemma lists_distinct:
  assumes ok: "threads_ok s g"
  shows "distinct (filter (\<lambda>t. \<not> isIdle s t) (activeThreads s) @ g_ready g @ g_zombies g @ th_deleted s)"
    and "set (g_waiting g i) \<inter> set (filter (\<lambda>t. \<not> isIdle s t) (activeThreads s) @ g_ready g @ g_zombies g @ th_deleted s) = {}"
proof -
  have C: "cores_ok (activeThreads s) (idleThreads s) (g_place g)" and L: "lists_ok s g" and Q: "reps_ok s g"
    using ok by (auto simp: threads_ok_def)
  let ?A = "filter (\<lambda>t. \<not> isIdle s t) (activeThreads s)"
  have place: "g_place g (activeThreads s ! c) = Running c"
    if "c < length (activeThreads s)" "\<not> isIdle s (activeThreads s ! c)" for c
    using that C by (simp add: cores_ok_def isIdle_def)
  have run: "\<exists>c. g_place g t = Running c" if A: "t \<in> set ?A" for t
  proof -
    from A have "t \<in> set (activeThreads s)" "\<not> isIdle s t" by auto
    then obtain c where "c < length (activeThreads s)" "t = activeThreads s ! c" "\<not> isIdle s t"
      unfolding in_set_conv_nth by blast
    then show ?thesis using place by auto
  qed
  have "distinct ?A"
  proof (rule distinct_filterI)
    fix i j assume a: "i < length (activeThreads s)" "j < length (activeThreads s)"
      "\<not> isIdle s (activeThreads s ! i)" "activeThreads s ! i = activeThreads s ! j"
    have "\<not> isIdle s (activeThreads s ! j)" using a(3,4) by metis
    from place [OF a(1,3)] place [OF a(2) this] show "i = j" by (metis a(4) place.inject(1))
  qed
  moreover have "distinct (g_ready g)" "distinct (g_zombies g)" "distinct (th_deleted s)"
    using Q L by (auto simp: reps_ok_def queue_rep_def lists_ok_def)
  moreover have off: "set ?A \<inter> {t. g_place g t = p} = {}" if "off_core p" for p
    using run that by (fastforce simp: off_core_def)
  then have "set ?A \<inter> set (g_ready g) = {}" "set ?A \<inter> set (g_zombies g) = {}"
    "set ?A \<inter> set (th_deleted s) = {}" "\<And>i. set ?A \<inter> set (g_waiting g i) = {}"
    using L by (simp_all add: lists_ok_def)
  moreover have "set (g_ready g) \<inter> set (th_deleted s) = {}" "set (g_zombies g) \<inter> set (th_deleted s) = {}"
    "\<And>i. set (g_waiting g i) \<inter> set (th_deleted s) = {}"
    using L by (auto simp: lists_ok_def)
  ultimately show "distinct (?A @ g_ready g @ g_zombies g @ th_deleted s)"
    and "set (g_waiting g i) \<inter> set (?A @ g_ready g @ g_zombies g @ th_deleted s) = {}"
    using lists_disjoint [OF L] by (simp_all add: Int_Un_distrib Int_Un_distrib2 Int_commute)
qed

text \<open>
  C3. In every state reachable from the start every thread that is not an idle thread is in at most
  one place: the threads that cores run, the ready queue, the zombies, the threads that wait for a
  semaphore and the deleted threads are all different, no queue has a cycle, and a semaphore with
  waiting threads has count zero.
\<close>

theorem threads_accounted:
  assumes "kernel_reachable (threads_init idles counts) s"
  shows "\<exists>R Z W. queue_rep (readyQ s) (th_next s) R \<and> queue_rep (zombies s) (th_next s) Z \<and>
    (\<forall>i. queue_rep (sem_waiting (th_sems s i)) (th_next s) (W i)) \<and>
    distinct (filter (\<lambda>t. \<not> isIdle s t) (activeThreads s) @ R @ Z @ th_deleted s) \<and>
    (\<forall>i. set (W i) \<inter> set (filter (\<lambda>t. \<not> isIdle s t) (activeThreads s) @ R @ Z @ th_deleted s) = {}) \<and>
    (\<forall>i j. i = j \<or> set (W i) \<inter> set (W j) = {}) \<and>
    (\<forall>i. sem_count (th_sems s i) = 0 \<or> W i = [])"
proof -
  have "threads_inv s" using assms
  proof (induction rule: kernel_reachable.induct)
    case start
    show ?case using threads_init_ok by (auto simp: threads_inv_def)
  next
    case (more s s')
    then show ?case using kernel_step_inv by blast
  qed
  then obtain g where ok: "threads_ok s g" by (auto simp: threads_inv_def)
  have L: "lists_ok s g" and Q: "reps_ok s g" using ok by (auto simp: threads_ok_def)
  have "\<forall>i j. i = j \<or> set (g_waiting g i) \<inter> set (g_waiting g j) = {}"
    using lists_disjoint(7) [OF L] by blast
  moreover have "\<forall>i. sem_count (th_sems s i) = 0 \<or> g_waiting g i = []"
    using Q by (auto simp: reps_ok_def)
  ultimately show ?thesis
    using Q lists_distinct [OF ok] by (intro exI [of _ "g_ready g"] exI [of _ "g_zombies g"] exI [of _ "g_waiting g"])
      (simp add: reps_ok_def)
qed

text \<open>Two cores, one of which runs thread 7, and a semaphore with count zero.\<close>

lemma demo_create: "\<exists>s. thread_create 7 (threads_init [1, 2] (\<lambda>_. 0)) = Some (Inr s) \<and>
    kernel_reachable (threads_init [1, 2] (\<lambda>_. 0)) s"
proof -
  let ?s = "threads_init [1, 2] (\<lambda>_. 0)"
  let ?g = "\<lparr>g_ready = [], g_zombies = [], g_waiting = (\<lambda>_. []), g_place = (\<lambda>_. Nowhere)\<rparr>"
  have i: "7 \<notin> set (idleThreads ?s)" by (simp add: threads_init_def)
  obtain s where s: "thread_create 7 ?s = Some (Inr s)"
    using thread_create_ok [OF threads_init_ok i] by auto
  have "g_place g 7 \<in> {Nowhere, Deleted}" if "threads_ok ?s g" for g
  proof -
    have "chain (th_next ?s) None xs \<longleftrightarrow> xs = []" for xs by (cases xs) auto
    then have "g_ready g = []" "g_zombies g = []" "\<And>i. g_waiting g i = []"
      using that by (auto simp: threads_ok_def reps_ok_def queue_rep_def threads_init_def queue_init_def)
    moreover have "g_place g 7 \<noteq> Running c" for c
    proof
      assume "g_place g 7 = Running c"
      then have "c < 2 \<and> [1, 2] ! c = (7 :: nat)"
        using that by (auto simp: threads_ok_def cores_ok_def threads_init_def numeral_2_eq_2)
      then show False by (auto simp: numeral_2_eq_2 less_Suc_eq)
    qed
    moreover have L: "lists_ok ?s g" using that by (simp add: threads_ok_def)
    ultimately have "{t. g_place g t = Ready} = {}" "{t. g_place g t = Zombie} = {}"
      "\<And>i. {t. g_place g t = Waiting i} = {}" "\<forall>c. g_place g 7 \<noteq> Running c"
      by (simp_all add: lists_ok_def)
    then show ?thesis by (cases "g_place g 7") auto
  qed
  then have "fresh_thread ?s 7" using i by (simp add: fresh_thread_def)
  then have "kernel_step ?s s" by (rule kernel_step.step_create [OF _ s])
  then have "kernel_reachable ?s s" by (rule kernel_reachable.more [OF kernel_reachable.start])
  then show ?thesis using s by blast
qed

lemma threads_accounted_witness:
  "\<exists>s R. thread_create 7 (threads_init [1, 2] (\<lambda>_. 0)) = Some (Inr s) \<and> queue_rep (readyQ s) (th_next s) R"
  using demo_create threads_accounted by blast

text \<open>\<open>yield\<close> with a thread ready.\<close>

lemma yield_switch:
  assumes "threads_ok s g" "c < length (activeThreads s)" "\<not> isIdle s (current c s)" "g_ready g = t # R"
  obtains s' g' where "yield c s = Inr s'" "threads_ok s' g'" "activeThreads s' = (activeThreads s)[c := t]"
    "idleThreads s' = idleThreads s" "g_ready g' = R @ [current c s]" "\<not> isIdle s t"
  using assms(1,2)
proof (cases rule: block_cases [where f = schedule and opt = CanReturn])
  case (switch t' R' s1 g1 q)
  have i: "current c s \<notin> set (idleThreads s1)" using assms(3) switch(5) by (simp add: isIdle_def)
  obtain s' where s': "schedule (current c s) s1 = Inr s'"
    "threads_ok s' (g1\<lparr>g_ready := g_ready g1 @ [current c s], g_place := (g_place g1)(current c s := Ready)\<rparr>)"
    "activeThreads s' = activeThreads s1" "idleThreads s' = idleThreads s1"
    by (rule add_ready [OF switch(3,4) i])
  then show ?thesis
    using that [of s'] switch(1,2,5,6,8) assms(4) by (simp add: yield_def isIdle_def)
qed (use assms(4) in simp_all)

lemma yield_alone:
  assumes "threads_ok s g" "c < length (activeThreads s)" "g_ready g = []"
  shows "yield c s = Inr s"
  using assms(1,2)
  by (cases rule: block_cases [where f = schedule and opt = CanReturn]) (use assms(3) in \<open>simp_all add: yield_def\<close>)

text \<open>
  \<open>yield\<close> is round robin: with threads ready the core runs the one that has been ready longest,
  and the thread that yields goes to the end of the ready queue; with none ready it returns.
\<close>

theorem yield_round_robin:
  assumes "threads_ok s g" "c < length (activeThreads s)" "\<not> isIdle s (current c s)"
  shows "case g_ready g of
      [] \<Rightarrow> yield c s = Inr s
    | t # R \<Rightarrow> \<exists>s' g'. yield c s = Inr s' \<and> threads_ok s' g' \<and> current c s' = t \<and>
        g_ready g' = R @ [current c s]"
proof (cases "g_ready g")
  case Nil
  then show ?thesis using yield_alone [OF assms(1,2)] by simp
next
  case (Cons t R)
  obtain s' g' where "yield c s = Inr s'" "threads_ok s' g'" "activeThreads s' = (activeThreads s)[c := t]"
    "g_ready g' = R @ [current c s]" by (rule yield_switch [OF assms Cons])
  then show ?thesis using Cons assms(2) by (auto simp: current_def)
qed

text \<open>Core 0 runs thread 7, thread 8 is ready.\<close>

definition demo_kernel :: kernel where
  "demo_kernel = (threads_init [1, 2] (\<lambda>_. 0))\<lparr>activeThreads := [7, 2],
     readyQ := \<lparr>q_first = Some 8, q_last = Some 8\<rparr>\<rparr>"

lemma demo_kernel_ok:
  "threads_ok demo_kernel \<lparr>g_ready = [8], g_zombies = [], g_waiting = (\<lambda>_. []),
     g_place = (\<lambda>t. if t = 7 then Running 0 else if t = 8 then Ready else Nowhere)\<rparr>"
  by (auto simp: demo_kernel_def threads_ok_def cores_ok_def lists_ok_def reps_ok_def threads_init_def
    queue_rep_def queue_init_def less_Suc_eq)

lemma yield_round_robin_witness: "\<exists>s'. yield 0 demo_kernel = Inr s' \<and> current 0 s' = 8"
  using yield_round_robin [OF demo_kernel_ok, of 0]
  by (auto simp: isIdle_def current_def demo_kernel_def threads_init_def)

end
