(* ===== verification/Ring_Buffers.thy ===== *)
theory Ring_Buffers
  imports Prelude
begin

text \<open>
  The two bounded buffers of the kernel: the byte pipe of \<open>kernel/Pipe.h\<close> with the file ends of
  \<open>kernel/PipeFile.h\<close>, and the typed buffer of \<open>kernel/bb.h\<close>. Both are rings guarded by semaphores, and
  both are shown to provide the same interface, a bounded FIFO list.
\<close>

section \<open>The interface\<close>

text \<open>\<open>rep s xs\<close>: the buffer holds \<open>xs\<close>. \<open>None\<close> is a caller that has to wait.\<close>

datatype 'a buffer_op = Put 'a | Get

fun buffer_run ::
  "('a \<Rightarrow> 's \<Rightarrow> 's option) \<Rightarrow> ('s \<Rightarrow> ('a \<times> 's) option) \<Rightarrow> 'a buffer_op list \<Rightarrow> 's \<Rightarrow> ('a list \<times> 's) option" where
  "buffer_run put get [] s = Some ([], s)"
| "buffer_run put get (Put x # ops) s =
     (case put x s of None \<Rightarrow> None | Some s' \<Rightarrow> buffer_run put get ops s')"
| "buffer_run put get (Get # ops) s =
     (case get s of
        None \<Rightarrow> None
      | Some (x, s') \<Rightarrow> map_option (\<lambda>(out, t). (x # out, t)) (buffer_run put get ops s'))"

fun puts :: "'a buffer_op list \<Rightarrow> 'a list" where
  "puts [] = []"
| "puts (Put x # ops) = x # puts ops"
| "puts (Get # ops) = puts ops"

locale bounded_fifo =
  fixes rep :: "'s \<Rightarrow> 'a list \<Rightarrow> bool"
    and cap :: nat
    and put :: "'a \<Rightarrow> 's \<Rightarrow> 's option"
    and get :: "'s \<Rightarrow> ('a \<times> 's) option"
  assumes rep_bound: "rep s xs \<Longrightarrow> length xs \<le> cap"
    and put_rep: "rep s xs \<Longrightarrow> length xs < cap \<Longrightarrow> \<exists>s'. put x s = Some s' \<and> rep s' (xs @ [x])"
    and put_full: "rep s xs \<Longrightarrow> length xs = cap \<Longrightarrow> put x s = None"
    and get_rep: "rep s (x # xs) \<Longrightarrow> \<exists>s'. get s = Some (x, s') \<and> rep s' xs"
    and get_empty: "rep s [] \<Longrightarrow> get s = None"
begin

lemma put_Some: "rep s xs \<Longrightarrow> put x s = Some s' \<Longrightarrow> rep s' (xs @ [x]) \<and> length xs < cap"
  using put_rep [of s xs x] put_full [of s xs x] rep_bound [of s xs] by (cases "length xs < cap") auto

lemma get_Some:
  assumes "rep s xs" "get s = Some (x, s')"
  obtains ys where "xs = x # ys" "rep s' ys"
proof (cases xs)
  case Nil
  then show ?thesis using get_empty [of s] assms by simp
next
  case (Cons y ys)
  then show ?thesis using get_rep [of s y ys] assms that by auto
qed

text \<open>What was taken, followed by what is left, is what was there, followed by what was put.\<close>

lemma history:
  "rep s xs \<Longrightarrow> buffer_run put get ops s = Some (out, s') \<Longrightarrow> \<exists>ys. rep s' ys \<and> out @ ys = xs @ puts ops"
proof (induction ops arbitrary: s xs out)
  case (Cons op ops)
  show ?case
  proof (cases op)
    case (Put x)
    then obtain s1 where s1: "put x s = Some s1" "buffer_run put get ops s1 = Some (out, s')"
      using Cons.prems(2) by (auto split: option.splits)
    then show ?thesis using Cons.IH [of s1 "xs @ [x]" out] put_Some [OF Cons.prems(1) s1(1)] Put by simp
  next
    case Get
    then obtain x s1 out1 where s1: "get s = Some (x, s1)" "buffer_run put get ops s1 = Some (out1, s')"
      "out = x # out1" using Cons.prems(2) by (auto split: option.splits)
    obtain ys where "xs = x # ys" "rep s1 ys" by (rule get_Some [OF Cons.prems(1) s1(1)])
    then show ?thesis using Cons.IH [of s1 ys out1] s1 Get by auto
  qed
qed auto

end

section \<open>Rings\<close>

text \<open>The \<open>n\<close> elements of a ring from index \<open>r\<close> on.\<close>

definition ring :: "'a list \<Rightarrow> nat \<Rightarrow> nat \<Rightarrow> 'a list" where
  "ring buf r n = map (\<lambda>k. buf ! ((r + k) mod length buf)) [0..<n]"

lemma ring_length [simp]: "length (ring buf r n) = n"
  by (simp add: ring_def)

lemma ring_0 [simp]: "ring buf r 0 = []"
  by (simp add: ring_def)

lemma mod_neq_later: "i < j \<Longrightarrow> j < i + n \<Longrightarrow> i mod n \<noteq> j mod (n :: nat)"
proof
  assume a: "i < j" "j < i + n" "i mod n = j mod n"
  then have "n dvd j - i" using mod_eq_dvd_iff_nat [of i j n] by simp
  then show False using a(1,2) by (auto dest: dvd_imp_le)
qed

lemma ring_put:
  assumes "n < length buf"
  shows "ring (buf[(r + n) mod length buf := x]) r (Suc n) = ring buf r n @ [x]"
proof -
  have pos: "0 < length buf" using assms by linarith
  have ne: "(r + n) mod length buf \<noteq> (r + k) mod length buf" if "k < n" for k
    using mod_neq_later [of "r + k" "r + n" "length buf"] that assms by auto
  show ?thesis
    using ne pos by (simp add: ring_def nth_list_update)
qed

lemma ring_get:
  assumes "0 < n" "r < length buf"
  shows "ring buf r n = buf ! r # ring buf ((r + 1) mod length buf) (n - 1)"
proof -
  obtain m where n: "n = Suc m" using assms(1) by (cases n) auto
  have "ring buf r (Suc m) = buf ! (r mod length buf) # map (\<lambda>k. buf ! ((r + Suc k) mod length buf)) [0..<m]"
    by (simp add: ring_def upt_conv_Cons map_Suc_upt [symmetric] del: upt_Suc)
  moreover have "(r + Suc k) mod length buf = ((r + 1) mod length buf + k) mod length buf" for k
    by (simp add: mod_add_left_eq)
  ultimately show ?thesis using assms(2) n by (simp add: ring_def)
qed

section \<open>The pipe\<close>

definition MAX_BUFFER_SIZE :: nat where
  "MAX_BUFFER_SIZE = 1024"

text \<open>
  The semaphores are their counts: whoever is inside \<open>read\<close> or \<open>write\<close> holds \<open>lock\<close>, so nobody waits on
  \<open>read_sem\<close> or \<open>write_sem\<close>, and a \<open>down\<close> at zero would never return.
\<close>

record pipe =
  p_buffer :: "u8 list"
  read_index :: nat
  write_index :: nat
  p_count :: nat
  read_sem :: nat
  write_sem :: nat
  p_lock :: nat

definition pipe_init :: "u8 list \<Rightarrow> pipe" where
  "pipe_init garbage =
     \<lparr>p_buffer = garbage, read_index = 0, write_index = 0, p_count = 0, read_sem = 0,
      write_sem = MAX_BUFFER_SIZE, p_lock = 1\<rparr>"

definition count_down :: "nat \<Rightarrow> nat option" where
  "count_down n = (if n > 0 then Some (n - 1) else None)"

text \<open>The bodies of the two loops.\<close>

definition pipe_put :: "u8 \<Rightarrow> pipe \<Rightarrow> pipe option" where
  "pipe_put b p =
     (case count_down (write_sem p) of
        None \<Rightarrow> None
      | Some w \<Rightarrow>
          Some (p\<lparr>write_sem := w, p_buffer := (p_buffer p)[write_index p := b], p_count := p_count p + 1,
            write_index := (write_index p + 1) mod MAX_BUFFER_SIZE, read_sem := read_sem p + 1\<rparr>))"

definition pipe_get :: "pipe \<Rightarrow> (u8 \<times> pipe) option" where
  "pipe_get p =
     (case count_down (read_sem p) of
        None \<Rightarrow> None
      | Some r \<Rightarrow>
          Some (p_buffer p ! read_index p,
            p\<lparr>read_sem := r, p_count := p_count p - 1,
              read_index := (read_index p + 1) mod MAX_BUFFER_SIZE, write_sem := write_sem p + 1\<rparr>))"

text \<open>\<open>n\<close> iterations are left, \<open>i\<close> were made.\<close>

fun pipe_write_loop :: "nat \<Rightarrow> nat \<Rightarrow> u8 list \<Rightarrow> pipe \<Rightarrow> (int \<times> pipe) res option" where
  "pipe_write_loop 0 i data p = Some (Inr (int i, p))"
| "pipe_write_loop (Suc n) i data p =
     (if p_count p < MAX_BUFFER_SIZE then
        if i < length data then
          (case pipe_put (data ! i) p of None \<Rightarrow> None | Some p' \<Rightarrow> pipe_write_loop n (i + 1) data p')
        else Some (Inl OutOfBounds)
      else Some (Inr (int i, p)))"

definition pipe_write :: "u8 list \<Rightarrow> int \<Rightarrow> pipe \<Rightarrow> (int \<times> pipe) res option" where
  "pipe_write data sz p =
     (case count_down (p_lock p) of
        None \<Rightarrow> None
      | Some l \<Rightarrow>
          map_option (\<lambda>r. rbind r (\<lambda>(k, q). Inr (k, q\<lparr>p_lock := p_lock q + 1\<rparr>)))
            (pipe_write_loop (nat sz) 0 data (p\<lparr>p_lock := l\<rparr>)))"

text \<open>The bytes \<open>read\<close> stores at \<open>data\<close>; their number is what it returns.\<close>

fun pipe_read_loop :: "nat \<Rightarrow> pipe \<Rightarrow> (u8 list \<times> pipe) option" where
  "pipe_read_loop 0 p = Some ([], p)"
| "pipe_read_loop (Suc n) p =
     (if p_count p > 0 then
        (case pipe_get p of
           None \<Rightarrow> None
         | Some (b, p') \<Rightarrow> map_option (\<lambda>(bs, q). (b # bs, q)) (pipe_read_loop n p'))
      else Some ([], p))"

definition pipe_read :: "int \<Rightarrow> pipe \<Rightarrow> (u8 list \<times> pipe) option" where
  "pipe_read sz p =
     (case count_down (p_lock p) of
        None \<Rightarrow> None
      | Some l \<Rightarrow>
          map_option (\<lambda>(bs, q). (bs, q\<lparr>p_lock := p_lock q + 1\<rparr>)) (pipe_read_loop (nat sz) (p\<lparr>p_lock := l\<rparr>)))"

text \<open>
  \<open>PipeFile\<close>: mode 0 reads, mode 1 writes, the pipe may be null. \<open>size_t\<close> becomes \<open>int\<close>. A read that
  fails stores nothing.
\<close>

definition pipe_file_read :: "int \<Rightarrow> u32 \<Rightarrow> pipe option \<Rightarrow> (int \<times> u8 list \<times> pipe option) option" where
  "pipe_file_read mode n my_pipe =
     (case my_pipe of
        None \<Rightarrow> Some (-1, [], None)
      | Some p \<Rightarrow>
          if mode \<noteq> 0 then Some (-1, [], Some p)
          else map_option (\<lambda>(bs, q). (int (length bs), bs, Some q)) (pipe_read (sint n) p))"

definition pipe_file_write :: "int \<Rightarrow> u8 list \<Rightarrow> u32 \<Rightarrow> pipe option \<Rightarrow> (int \<times> pipe option) res option" where
  "pipe_file_write mode data n my_pipe =
     (case my_pipe of
        None \<Rightarrow> Some (Inr (-1, None))
      | Some p \<Rightarrow>
          if mode \<noteq> 1 then Some (Inr (-1, Some p))
          else map_option (\<lambda>r. rbind r (\<lambda>(k, q). Inr (k, Some q))) (pipe_write data (sint n) p))"

definition pipe_rep :: "pipe \<Rightarrow> u8 list \<Rightarrow> bool" where
  "pipe_rep p xs \<longleftrightarrow>
     length (p_buffer p) = MAX_BUFFER_SIZE \<and> p_count p \<le> MAX_BUFFER_SIZE \<and>
     read_index p < MAX_BUFFER_SIZE \<and> write_index p = (read_index p + p_count p) mod MAX_BUFFER_SIZE \<and>
     read_sem p = p_count p \<and> write_sem p = MAX_BUFFER_SIZE - p_count p \<and>
     xs = ring (p_buffer p) (read_index p) (p_count p)"

lemma pipe_put_rep:
  assumes "pipe_rep p xs" "length xs < MAX_BUFFER_SIZE"
  shows "\<exists>p'. pipe_put b p = Some p' \<and> pipe_rep p' (xs @ [b]) \<and> p_lock p' = p_lock p"
proof -
  have "p_count p < length (p_buffer p)" using assms by (simp add: pipe_rep_def)
  from ring_put [OF this, of "read_index p" b] show ?thesis
    using assms by (auto simp: pipe_rep_def pipe_put_def count_down_def mod_Suc_eq)
qed

lemma pipe_get_rep:
  assumes "pipe_rep p (x # xs)"
  shows "\<exists>p'. pipe_get p = Some (x, p') \<and> pipe_rep p' xs \<and> p_lock p' = p_lock p"
proof -
  have c: "p_count p = Suc (length xs)" using assms by (auto simp: pipe_rep_def dest: arg_cong [where f = length])
  have "(read_index p + 1) mod MAX_BUFFER_SIZE + length xs = (read_index p + 1) mod MAX_BUFFER_SIZE + (p_count p - 1)"
    using c by simp
  moreover have "((read_index p + 1) mod MAX_BUFFER_SIZE + (p_count p - 1)) mod MAX_BUFFER_SIZE =
      (read_index p + p_count p) mod MAX_BUFFER_SIZE"
    using c by (simp add: mod_add_left_eq)
  ultimately show ?thesis
    using assms ring_get [of "p_count p" "read_index p" "p_buffer p"] c
    by (auto simp: pipe_rep_def pipe_get_def count_down_def MAX_BUFFER_SIZE_def)
qed

interpretation pipe_fifo: bounded_fifo pipe_rep MAX_BUFFER_SIZE pipe_put pipe_get
proof
  fix p xs assume "pipe_rep p xs"
  then show "length xs \<le> MAX_BUFFER_SIZE" by (simp add: pipe_rep_def)
next
  fix p xs b assume "pipe_rep p xs" "length xs < MAX_BUFFER_SIZE"
  then show "\<exists>p'. pipe_put b p = Some p' \<and> pipe_rep p' (xs @ [b])" using pipe_put_rep by blast
next
  fix p xs b assume "pipe_rep p xs" "length xs = MAX_BUFFER_SIZE"
  then show "pipe_put b p = None" by (simp add: pipe_rep_def pipe_put_def count_down_def)
next
  fix p x xs assume "pipe_rep p (x # xs)"
  then show "\<exists>p'. pipe_get p = Some (x, p') \<and> pipe_rep p' xs" using pipe_get_rep by blast
next
  fix p assume "pipe_rep p []"
  then have "p_count p = 0" by (auto simp: pipe_rep_def dest: arg_cong [where f = length])
  then show "pipe_get p = None" using \<open>pipe_rep p []\<close> by (simp add: pipe_rep_def pipe_get_def count_down_def)
qed

lemma pipe_count: "pipe_rep p xs \<Longrightarrow> p_count p = length xs"
  by (simp add: pipe_rep_def)

lemma pipe_rep_lock [simp]: "pipe_rep (p\<lparr>p_lock := l\<rparr>) xs = pipe_rep p xs"
  by (simp add: pipe_rep_def)

lemma pipe_write_loop_rep:
  assumes "pipe_rep p xs" "i + n \<le> length data"
  shows "\<exists>p'. pipe_write_loop n i data p = Some (Inr (int (i + min n (MAX_BUFFER_SIZE - length xs)), p')) \<and>
    pipe_rep p' (xs @ take (min n (MAX_BUFFER_SIZE - length xs)) (drop i data)) \<and> p_lock p' = p_lock p"
  using assms
proof (induction n arbitrary: i p xs)
  case (Suc n)
  show ?case
  proof (cases "length xs < MAX_BUFFER_SIZE")
    case True
    obtain p1 where p1: "pipe_put (data ! i) p = Some p1" "pipe_rep p1 (xs @ [data ! i])" "p_lock p1 = p_lock p"
      using pipe_put_rep [OF Suc.prems(1) True] by blast
    have m: "min (Suc n) (MAX_BUFFER_SIZE - length xs) = Suc (min n (MAX_BUFFER_SIZE - length (xs @ [data ! i])))"
      using True by simp
    have "drop i data = data ! i # drop (Suc i) data" using Suc.prems(2) by (simp add: Cons_nth_drop_Suc)
    then show ?thesis
      using Suc.IH [OF p1(2), of "Suc i"] Suc.prems p1 True m pipe_count [OF Suc.prems(1)] by auto
  next
    case False
    then show ?thesis using Suc.prems pipe_count [OF Suc.prems(1)] by simp
  qed
qed simp

lemma pipe_read_loop_rep:
  assumes "pipe_rep p xs"
  shows "\<exists>p'. pipe_read_loop n p = Some (take n xs, p') \<and> pipe_rep p' (drop n xs) \<and> p_lock p' = p_lock p"
  using assms
proof (induction n arbitrary: p xs)
  case (Suc n)
  show ?case
  proof (cases xs)
    case Nil
    then show ?thesis using Suc.prems pipe_count [OF Suc.prems] by simp
  next
    case (Cons x ys)
    obtain p1 where p1: "pipe_get p = Some (x, p1)" "pipe_rep p1 ys" "p_lock p1 = p_lock p"
      using pipe_get_rep [OF Suc.prems [unfolded Cons]] by blast
    then show ?thesis using Suc.IH [OF p1(2)] Cons pipe_count [OF Suc.prems] by auto
  qed
qed simp

section \<open>The bounded buffer\<close>

text \<open>
  \<open>BoundedBuffer\<close>: every \<open>put\<close> and \<open>get\<close> is one step, which waits when its first semaphore is zero; \<open>lock\<close>
  is free between steps.
\<close>

record 'a bounded =
  bb_head :: u32
  bb_n :: u32
  nEmpty :: nat
  nFull :: nat
  bb_lock :: nat
  bb_N :: u32
  bb_data :: "'a list"

definition bb_init :: "u32 \<Rightarrow> 'a list \<Rightarrow> 'a bounded" where
  "bb_init N garbage =
     \<lparr>bb_head = 0, bb_n = 0, nEmpty = unat N, nFull = 0, bb_lock = 1, bb_N = N, bb_data = garbage\<rparr>"

definition bb_put :: "'a \<Rightarrow> 'a bounded \<Rightarrow> 'a bounded option" where
  "bb_put t b =
     Option.bind (count_down (nEmpty b)) (\<lambda>e.
     Option.bind (count_down (bb_lock b)) (\<lambda>l.
       let b1 = b\<lparr>nEmpty := e, bb_lock := l\<rparr>;
           b2 = b1\<lparr>bb_data := (bb_data b1)[unat ((bb_head b1 + bb_n b1) mod bb_N b1) := t]\<rparr>;
           b3 = b2\<lparr>bb_n := bb_n b2 + 1\<rparr>
       in Some (b3\<lparr>bb_lock := bb_lock b3 + 1, nFull := nFull b3 + 1\<rparr>)))"

definition bb_get :: "'a bounded \<Rightarrow> ('a \<times> 'a bounded) option" where
  "bb_get b =
     Option.bind (count_down (nFull b)) (\<lambda>f.
     Option.bind (count_down (bb_lock b)) (\<lambda>l.
       let b1 = b\<lparr>nFull := f, bb_lock := l\<rparr>;
           out = bb_data b1 ! unat (bb_head b1);
           b2 = b1\<lparr>bb_head := (bb_head b1 + 1) mod bb_N b1\<rparr>;
           b3 = b2\<lparr>bb_n := bb_n b2 - 1\<rparr>
       in Some (out, b3\<lparr>bb_lock := bb_lock b3 + 1, nEmpty := nEmpty b3 + 1\<rparr>)))"

definition bb_rep :: "nat \<Rightarrow> 'a bounded \<Rightarrow> 'a list \<Rightarrow> bool" where
  "bb_rep N b xs \<longleftrightarrow>
     N \<le> 2 ^ 31 \<and> unat (bb_N b) = N \<and> length (bb_data b) = N \<and> bb_lock b = 1 \<and>
     length xs \<le> N \<and> unat (bb_n b) = length xs \<and> (N = 0 \<or> unat (bb_head b) < N) \<and>
     nFull b = length xs \<and> nEmpty b = N - length xs \<and>
     xs = ring (bb_data b) (unat (bb_head b)) (length xs)"

lemma unat_sum_small: "unat (a :: u32) + unat b < 2 ^ 32 \<Longrightarrow> unat (a + b) = unat a + unat b"
  by (simp add: unat_word_ariths)

lemma bb_put_rep:
  assumes "bb_rep N b xs" "length xs < N"
  shows "\<exists>b'. bb_put x b = Some b' \<and> bb_rep N b' (xs @ [x])"
proof -
  have r: "N \<le> 2 ^ 31" "unat (bb_N b) = N" "length (bb_data b) = N" "unat (bb_n b) = length xs"
    "unat (bb_head b) < N" "xs = ring (bb_data b) (unat (bb_head b)) (length xs)"
    using assms by (auto simp: bb_rep_def)
  have "unat (bb_head b) + unat (bb_n b) < 2 ^ 32" using r assms(2) by simp
  from unat_sum_small [OF this]
  have i: "unat ((bb_head b + bb_n b) mod bb_N b) = (unat (bb_head b) + length xs) mod N"
    using r by (simp add: unat_mod)
  have n: "unat (bb_n b + 1) = Suc (length xs)"
    using unat_sum_small [of "bb_n b" 1] r assms(2) by simp
  have "ring ((bb_data b)[(unat (bb_head b) + length xs) mod N := x]) (unat (bb_head b)) (Suc (length xs)) = xs @ [x]"
    using ring_put [of "length xs" "bb_data b" "unat (bb_head b)" x] r assms(2) by simp
  then show ?thesis
    using assms r i n by (auto simp: bb_put_def bb_rep_def count_down_def Let_def)
qed

lemma bb_get_rep:
  assumes "bb_rep N b (x # xs)"
  shows "\<exists>b'. bb_get b = Some (x, b') \<and> bb_rep N b' xs"
proof -
  have r: "N \<le> 2 ^ 31" "unat (bb_N b) = N" "length (bb_data b) = N" "unat (bb_n b) = Suc (length xs)"
    "unat (bb_head b) < N" "x # xs = ring (bb_data b) (unat (bb_head b)) (Suc (length xs))"
    using assms by (auto simp: bb_rep_def)
  have "unat ((bb_head b + 1) mod bb_N b) = (unat (bb_head b) + 1) mod N"
    using unat_sum_small [of "bb_head b" 1] r by (simp add: unat_mod)
  moreover have "unat (bb_n b - 1) = length xs"
    using r(4) by (simp add: unat_sub word_le_nat_alt)
  moreover have "x = bb_data b ! unat (bb_head b)"
    "xs = ring (bb_data b) ((unat (bb_head b) + 1) mod N) (length xs)"
    using ring_get [of "Suc (length xs)" "unat (bb_head b)" "bb_data b"] r by auto
  ultimately show ?thesis
    using assms r by (auto simp: bb_get_def bb_rep_def count_down_def Let_def)
qed

interpretation bounded_buffer: bounded_fifo "bb_rep N" N bb_put bb_get for N
proof
  fix b :: "'a bounded" and xs assume "bb_rep N b xs"
  then show "length xs \<le> N" by (simp add: bb_rep_def)
next
  fix b :: "'a bounded" and xs x assume "bb_rep N b xs" "length xs < N"
  then show "\<exists>b'. bb_put x b = Some b' \<and> bb_rep N b' (xs @ [x])" by (rule bb_put_rep)
next
  fix b :: "'a bounded" and xs x assume "bb_rep N b xs" "length xs = N"
  then show "bb_put x b = None" by (simp add: bb_rep_def bb_put_def count_down_def)
next
  fix b :: "'a bounded" and x xs assume "bb_rep N b (x # xs)"
  then show "\<exists>b'. bb_get b = Some (x, b') \<and> bb_rep N b' xs" by (rule bb_get_rep)
next
  fix b :: "'a bounded" assume "bb_rep N b []"
  then show "bb_get b = None" by (simp add: bb_rep_def bb_get_def count_down_def)
qed

section \<open>Properties\<close>

lemma pipe_init_rep: "length garbage = MAX_BUFFER_SIZE \<Longrightarrow> pipe_rep (pipe_init garbage) [] \<and> p_lock (pipe_init garbage) = 1"
  by (simp add: pipe_rep_def pipe_init_def MAX_BUFFER_SIZE_def)

text \<open>
  C22. A pipe is a bounded FIFO of bytes that never blocks its caller: \<open>write\<close> of \<open>n\<close> bytes appends as
  many of them as fit into 1024 and returns their number, \<open>read\<close> of \<open>n\<close> bytes returns the oldest
  \<open>n\<close>, or all when there are fewer, and removes them; both leave the lock free.
\<close>

theorem pipe_stream:
  assumes "pipe_rep p xs" "p_lock p = 1" "0 \<le> n" "nat n \<le> length data"
  shows "(\<exists>p'. pipe_write data n p = Some (Inr (int (min (nat n) (MAX_BUFFER_SIZE - length xs)), p')) \<and>
      pipe_rep p' (xs @ take (min (nat n) (MAX_BUFFER_SIZE - length xs)) data) \<and> p_lock p' = 1) \<and>
    (\<exists>p'. pipe_read n p = Some (take (nat n) xs, p') \<and> pipe_rep p' (drop (nat n) xs) \<and> p_lock p' = 1)"
proof -
  obtain q where "pipe_write_loop (nat n) 0 data (p\<lparr>p_lock := 0\<rparr>) = Some (Inr (int (min (nat n) (MAX_BUFFER_SIZE - length xs)), q))"
    "pipe_rep q (xs @ take (min (nat n) (MAX_BUFFER_SIZE - length xs)) data)" "p_lock q = 0"
    using pipe_write_loop_rep [of "p\<lparr>p_lock := 0\<rparr>" xs 0 "nat n" data] assms by auto
  moreover obtain r where "pipe_read_loop (nat n) (p\<lparr>p_lock := 0\<rparr>) = Some (take (nat n) xs, r)"
    "pipe_rep r (drop (nat n) xs)" "p_lock r = 0"
    using pipe_read_loop_rep [of "p\<lparr>p_lock := 0\<rparr>" xs "nat n"] assms by auto
  ultimately show ?thesis
    using assms(2) by (simp add: pipe_write_def pipe_read_def count_down_def)
qed

lemma pipe_stream_witness:
  "\<exists>p'. pipe_write [1, 2, 3] 2 (pipe_init (replicate MAX_BUFFER_SIZE 0)) = Some (Inr (2, p')) \<and> pipe_rep p' [1, 2]"
  using pipe_stream [of "pipe_init (replicate MAX_BUFFER_SIZE 0)" "[]" 2 "[1, 2, 3]"]
    pipe_init_rep [of "replicate MAX_BUFFER_SIZE 0"]
  by (auto simp: MAX_BUFFER_SIZE_def)

text \<open>
  C23. Through a bounded buffer of at most \<open>2 ^ 31\<close> places everything comes out in the order it went in:
  in any run from an empty buffer, what was taken and what is left are together what was put.
\<close>

theorem bounded_buffer_history:
  assumes "unat N \<le> 2 ^ 31" "length garbage = unat N"
    and "buffer_run bb_put bb_get ops (bb_init N garbage) = Some (out, b)"
  shows "\<exists>ys. bb_rep (unat N) b ys \<and> out @ ys = puts ops \<and> length ys \<le> unat N"
proof -
  have "bb_rep (unat N) (bb_init N garbage) []"
    using assms(1,2) by (auto simp: bb_rep_def bb_init_def)
  from bounded_buffer.history [OF this assms(3)] show ?thesis
    by (auto simp: bb_rep_def)
qed

lemma bounded_buffer_history_witness:
  "\<exists>b. buffer_run bb_put bb_get [Put 5, Put 6, Get] (bb_init 2 [0, 0 :: nat]) = Some ([5], b) \<and> bb_rep 2 b [6]"
proof -
  obtain b where b: "buffer_run bb_put bb_get [Put 5, Put 6, Get] (bb_init 2 [0, 0 :: nat]) = Some ([5], b)"
    by (simp add: bb_put_def bb_get_def bb_init_def count_down_def Let_def)
  then show ?thesis using bounded_buffer_history [of 2 "[0, 0]" _ "[5]" b] by fastforce
qed

end
