(* ===== verification/Block_IO.thy ===== *)
theory Block_IO
  imports Prelude
begin

text \<open>
  Block devices (\<open>kernel/block_io.h\<close>, \<open>kernel/block_io.cc\<close>). The abstract class \<open>BlockIO\<close> is the record
  of what its virtual functions answer; \<open>read\<close> and \<open>read_all\<close> are the byte-granular routines it
  derives from \<open>read_block\<close>. A read returns its \<open>int64_t\<close> result together with the bytes it put at the
  start of the caller's buffer. The interface \<open>block_device\<close> says when a device serves a given
  sequence of bytes, and what \<open>read_all\<close> then returns.
\<close>

section \<open>The class\<close>

record block_io =
  block_size :: u32
  size_in_bytes :: u32
  read_block :: "u32 \<Rightarrow> u8 list res"

definition size_in_blocks :: "block_io \<Rightarrow> u32 res" where
  "size_in_blocks d =
     (if block_size d = 0 then Inl DivideError
      else Inr ((size_in_bytes d + block_size d - 1) div block_size d))"

definition blockio_read :: "block_io \<Rightarrow> u32 \<Rightarrow> u32 \<Rightarrow> (int \<times> u8 list) res" where
  "blockio_read d offset desired_n =
     (let sz = size_in_bytes d in
      if sz < offset then Inr (-1, [])
      else if offset = sz then Inr (0, [])
      else if block_size d = 0 then Inl DivideError
      else
        let n = min desired_n (sz - offset);
            block_number = offset div block_size d;
            offset_in_block = offset mod block_size d;
            actual_n = min (block_size d - offset_in_block) n
        in rbind (ASSERT (actual_n \<le> n)) (\<lambda>_.
           rbind (ASSERT (offset + actual_n \<le> sz)) (\<lambda>_.
           if actual_n = block_size d then
             rbind (ASSERT (offset_in_block = 0)) (\<lambda>_.
             rbind (read_block d block_number) (\<lambda>buffer. Inr (uint actual_n, buffer)))
           else
             rbind (ASSERT (offset_in_block + actual_n \<le> block_size d)) (\<lambda>_.
             rbind (read_block d block_number) (\<lambda>temp.
             Inr (uint actual_n, take (unat actual_n) (drop (unat offset_in_block) temp)))))))"

lemma blockio_read_bounded:
  assumes "blockio_read d offset n = Inr (cnt, bytes)"
  shows "cnt \<le> uint n" "cnt < 2 ^ 32"
proof -
  have "cnt \<le> uint n \<and> cnt < 2 ^ 32"
    using assms uint_bounded [of n] order_trans [OF _ uint_ge_0 [of n], of "-1"]
    by (auto simp: blockio_read_def Let_def rbind_Inr_conv word_le_def min_def split: if_splits)
  then show "cnt \<le> uint n" "cnt < 2 ^ 32" by auto
qed

text \<open>The loop of \<open>read_all\<close>: every round reads at least one byte and at most \<open>n\<close>.\<close>

function blockio_read_all :: "block_io \<Rightarrow> u32 \<Rightarrow> u32 \<Rightarrow> (int \<times> u8 list) res" where
  "blockio_read_all d offset n =
     (if n = 0 then Inr (0, [])
      else case blockio_read d offset n of
        Inl e \<Rightarrow> Inl e
      | Inr (cnt, bytes) \<Rightarrow>
          if cnt < 0 then Inr (cnt, bytes)
          else if cnt = 0 then Inr (0, bytes)
          else case blockio_read_all d (offset + word_of_int cnt) (n - word_of_int cnt) of
            Inl e \<Rightarrow> Inl e
          | Inr (c, others) \<Rightarrow> Inr (if c < 0 then c else cnt + c, bytes @ others))"
  by pat_completeness auto
termination
proof (relation "measure (\<lambda>(d, offset, n). unat n)", goal_cases)
  case 1
  show ?case by simp
next
  case (2 d offset n p cnt bytes)
  have b: "cnt \<le> uint n" "cnt < 2 ^ 32" using blockio_read_bounded [of d offset n cnt bytes] 2 by auto
  have pos: "0 < cnt" using 2 by simp
  have u: "uint (word_of_int cnt :: u32) = cnt" using b pos by (simp add: u32_uint)
  have "(word_of_int cnt :: u32) \<le> n" using b u by (simp add: word_le_def)
  moreover have "0 < unat (word_of_int cnt :: u32)" using u pos by (simp add: unat_eq_nat_uint)
  ultimately have "unat (n - word_of_int cnt) < unat n" by (simp add: unat_sub word_le_nat_alt)
  then show ?case by simp
qed

declare blockio_read_all.simps [simp del]

text \<open>The template \<open>read(offset, thing)\<close>: all the bytes of the object or a panic.\<close>

definition blockio_read_object :: "block_io \<Rightarrow> u32 \<Rightarrow> u32 \<Rightarrow> u8 list res" where
  "blockio_read_object d offset sizeof =
     rbind (blockio_read_all d offset sizeof) (\<lambda>(cnt, bytes).
     rbind (ASSERT (cnt = uint sizeof)) (\<lambda>_. Inr bytes))"

section \<open>The interface\<close>

locale block_device =
  fixes dev :: "'d \<Rightarrow> block_io"
    and ok :: "'d \<Rightarrow> bool"
    and extent :: "'d \<Rightarrow> nat"
    and content :: "'d \<Rightarrow> nat \<Rightarrow> u8"
  assumes block_size_pos: "ok d \<Longrightarrow> 0 < unat (block_size (dev d))"
    and read_block_content: "ok d \<Longrightarrow> unat b * unat (block_size (dev d)) < unat (size_in_bytes (dev d)) \<Longrightarrow>
      unat b * unat (block_size (dev d)) < extent d \<Longrightarrow> read_block (dev d) b = Inr (map (content d)
        [unat b * unat (block_size (dev d)) ..< unat b * unat (block_size (dev d)) + unat (block_size (dev d))])"
begin

lemma read_content:
  assumes ok: "ok d" and off: "unat offset < unat (size_in_bytes (dev d))" "unat offset < extent d" and n: "0 < unat n"
  shows "\<exists>k. 0 < k \<and> k \<le> unat n \<and> unat offset + k \<le> unat (size_in_bytes (dev d)) \<and>
     blockio_read (dev d) offset n = Inr (int k, map (content d) [unat offset ..< unat offset + k])"
proof -
  let ?B = "block_size (dev d)" and ?S = "size_in_bytes (dev d)"
  define q r where "q = unat offset div unat ?B" and "r = unat offset mod unat ?B"
  define a where "a = min (?B - offset mod ?B) (min n (?S - offset))"
  note B = block_size_pos [OF ok]
  have qr: "q * unat ?B + r = unat offset" "r < unat ?B" using B by (simp_all add: q_def r_def)
  have uq: "unat (offset div ?B) = q" and ur: "unat (offset mod ?B) = r"
    by (simp_all add: q_def r_def unat_div unat_mod)
  have "offset mod ?B \<le> ?B" using qr(2) ur by (simp add: word_le_nat_alt)
  then have u1: "unat (?B - offset mod ?B) = unat ?B - r" using ur by (simp add: unat_sub)
  have u2: "unat (?S - offset) = unat ?S - unat offset" using off(1) by (simp add: unat_sub word_le_nat_alt)
  have ua: "unat a = min (unat ?B - r) (min (unat n) (unat ?S - unat offset))"
    unfolding a_def u1 [symmetric] u2 [symmetric] by (auto simp: min_def word_le_nat_alt)
  then have bounds: "0 < unat a" "unat a \<le> unat n" "unat offset + unat a \<le> unat ?S" "r + unat a \<le> unat ?B"
    using off(1) n qr(2) by auto
  have S: "unat ?S < 2 ^ 32" using u32_unat [of ?S] by simp
  have B32: "unat ?B < 2 ^ 32" using u32_unat [of ?B] by simp
  have uo: "unat (offset + a) = unat offset + unat a"
    using bounds S by (intro unat_add_bounded) simp
  have urb: "unat (offset mod ?B + a) = r + unat a"
    using bounds(4) B32 ur by (subst unat_add_bounded) simp_all
  have A1: "a \<le> min n (?S - offset)" unfolding a_def by (rule min.cobounded2)
  have A2: "offset + a \<le> ?S" using uo bounds by (simp add: word_le_nat_alt)
  have A3: "a = ?B \<Longrightarrow> offset mod ?B = 0"
    using bounds(4) ur by (simp add: unat_eq_zero [symmetric])
  have A4: "offset mod ?B + a \<le> ?B" using urb bounds(4) by (simp add: word_le_nat_alt)
  have "q * unat ?B < unat ?S" "q * unat ?B < extent d" using qr off by linarith+
  then have rb: "read_block (dev d) (offset div ?B) = Inr (map (content d) [q * unat ?B ..< q * unat ?B + unat ?B])"
    using read_block_content [OF ok, of "offset div ?B"] uq by simp
  have part: "take (unat a) (drop r (map (content d) [q * unat ?B ..< q * unat ?B + unat ?B])) =
      map (content d) [unat offset ..< unat offset + unat a]"
    using qr bounds(4) by (simp add: drop_map take_map)
  have whole: "a = ?B \<Longrightarrow> map (content d) [q * unat ?B ..< q * unat ?B + unat ?B] =
      map (content d) [unat offset ..< unat offset + unat a]"
    using A3 ur qr(1) by simp
  have nz: "\<not> ?S < offset" "offset \<noteq> ?S" "?B \<noteq> 0"
    using off(1) B by (auto simp: word_less_nat_alt)
  have "blockio_read (dev d) offset n =
      Inr (uint a, map (content d) [unat offset ..< unat offset + unat a])"
  proof (cases "a = ?B")
    case True
    show ?thesis
      unfolding blockio_read_def Let_def a_def [symmetric] if_P [OF True]
      by (simp only: nz if_False A1 A2 A3 [OF True] rb ASSERT_simps rbind_simps whole [OF True] simp_thms)
  next
    case False
    show ?thesis
      unfolding blockio_read_def Let_def a_def [symmetric] if_not_P [OF False]
      by (simp only: nz if_False A1 A2 A4 rb ur ASSERT_simps rbind_simps part simp_thms)
  qed
  then have "blockio_read (dev d) offset n =
      Inr (int (unat a), map (content d) [unat offset ..< unat offset + unat a])"
    by (simp only: uint_nat)
  then show ?thesis
    using bounds(1-3) by blast
qed

text \<open>\<open>read_all\<close> delivers exactly the bytes asked for, cut off at the end of the device, when all of
  them are among the bytes it really serves.\<close>

theorem read_all_content:
  assumes ok: "ok d" and "unat offset \<le> unat (size_in_bytes (dev d))"
    and "unat offset + min (unat n) (unat (size_in_bytes (dev d)) - unat offset) \<le> extent d"
  shows "blockio_read_all (dev d) offset n =
    Inr (int (min (unat n) (unat (size_in_bytes (dev d)) - unat offset)),
         map (content d) [unat offset ..< unat offset + min (unat n) (unat (size_in_bytes (dev d)) - unat offset)])"
  using assms(2,3)
proof (induction "unat n" arbitrary: n offset rule: less_induct)
  case less
  let ?S = "size_in_bytes (dev d)"
  show ?case
  proof (cases "n = 0 \<or> offset = ?S")
    case True
    then show ?thesis
      by (subst blockio_read_all.simps) (auto simp: blockio_read_def)
  next
    case False
    then have nz: "n \<noteq> 0" and n: "0 < unat n" and "unat offset \<noteq> unat ?S"
      using u32_unat_eqI [of offset ?S] by (auto simp: unat_gt_0)
    with less.prems(1) have lt: "unat offset < unat ?S" by simp
    with less.prems(2) n have lt': "unat offset < extent d" by (auto simp: min_def split: if_splits)
    obtain k where k: "0 < k" "k \<le> unat n" "unat offset + k \<le> unat ?S"
        "blockio_read (dev d) offset n = Inr (int k, map (content d) [unat offset ..< unat offset + k])"
      using read_content [OF ok lt lt' n] by blast
    have S: "unat ?S < 2 ^ 32" using u32_unat [of ?S] by simp
    define w :: u32 where "w = of_nat k"
    have w: "unat w = k" using u32_unat_of_int [of k] k S by (simp add: w_def)
    have uo: "unat (offset + w) = unat offset + k"
      using k S w by (simp add: unat_add_bounded)
    have un: "unat (n - w) = unat n - k"
      using k w by (simp add: unat_sub word_le_nat_alt)
    have IH: "blockio_read_all (dev d) (offset + w) (n - w) =
        Inr (int (min (unat n - k) (unat ?S - (unat offset + k))),
          map (content d) [unat offset + k ..< unat offset + k + min (unat n - k) (unat ?S - (unat offset + k))])"
      using less.hyps [of "n - w" "offset + w"] k un uo less.prems(2) by (auto simp: min_def split: if_splits)
    have len: "k + min (unat n - k) (unat ?S - (unat offset + k)) = min (unat n) (unat ?S - unat offset)"
      using k by simp
    have len': "int k + int (min (unat n - k) (unat ?S - (unat offset + k))) =
        int (min (unat n) (unat ?S - unat offset))"
      unfolding len [symmetric] by (rule of_nat_add [symmetric])
    have app: "[unat offset ..< unat offset + k] @
        [unat offset + k ..< unat offset + k + min (unat n - k) (unat ?S - (unat offset + k))] =
        [unat offset ..< unat offset + min (unat n) (unat ?S - unat offset)]"
      unfolding len [symmetric] add.assoc [symmetric] by (rule upt_add_eq_append [symmetric]) simp
    show ?thesis
      using k(1) nz
      by (subst blockio_read_all.simps)
        (simp add: k(4) w_def [symmetric] IH len' map_append [symmetric] app del: map_append)
  qed
qed

corollary read_object_content:
  assumes "ok d" "unat offset + unat sizeof \<le> unat (size_in_bytes (dev d))"
    "unat offset + unat sizeof \<le> extent d"
  shows "blockio_read_object (dev d) offset sizeof =
    Inr (map (content d) [unat offset ..< unat offset + unat sizeof])"
proof -
  have "min (unat sizeof) (unat (size_in_bytes (dev d)) - unat offset) = unat sizeof"
    using assms(2) by simp
  then show ?thesis
    using read_all_content [of d offset sizeof] assms by (simp add: blockio_read_object_def)
qed

lemma read_past_end:
  assumes "size_in_bytes (dev d) < offset"
  shows "blockio_read_all (dev d) offset n = (if n = 0 then Inr (0, []) else Inr (-1, []))"
  using assms by (subst blockio_read_all.simps) (simp add: blockio_read_def)

end

text \<open>A device together with the number of bytes it really has (the size it claims may be larger) and
  those bytes; devices stacked on another one (\<open>Ext2\<close>) are described over such triples.\<close>

definition serves :: "block_io \<times> nat \<times> (nat \<Rightarrow> u8) \<Rightarrow> bool" where
  "serves dc \<longleftrightarrow> 0 < unat (block_size (fst dc)) \<and>
     (\<forall>b. unat b * unat (block_size (fst dc)) < unat (size_in_bytes (fst dc)) \<and>
        unat b * unat (block_size (fst dc)) < fst (snd dc) \<longrightarrow>
       read_block (fst dc) b = Inr (map (snd (snd dc))
         [unat b * unat (block_size (fst dc)) ..< unat b * unat (block_size (fst dc)) + unat (block_size (fst dc))]))"

interpretation served: block_device fst serves "fst \<circ> snd" "snd \<circ> snd"
  by unfold_locales (auto simp: serves_def)

section \<open>Little-endian objects in a byte buffer\<close>

definition get16 :: "u8 list \<Rightarrow> nat \<Rightarrow> u16" where
  "get16 bytes i = ucast (bytes ! i) OR push_bit 8 (ucast (bytes ! (i + 1)))"

definition get32 :: "u8 list \<Rightarrow> nat \<Rightarrow> u32" where
  "get32 bytes i = ucast (bytes ! i) OR push_bit 8 (ucast (bytes ! (i + 1))) OR
     push_bit 16 (ucast (bytes ! (i + 2))) OR push_bit 24 (ucast (bytes ! (i + 3)))"

definition put16 :: "u16 \<Rightarrow> u8 list" where
  "put16 w = [ucast w, ucast (drop_bit 8 w)]"

definition put32 :: "u32 \<Rightarrow> u8 list" where
  "put32 w = [ucast w, ucast (drop_bit 8 w), ucast (drop_bit 16 w), ucast (drop_bit 24 w)]"

lemma length_put [simp]: "length (put16 h) = 2" "length (put32 w) = 4"
  by (simp_all add: put16_def put32_def)

lemma get16_put16: "get16 (put16 w) 0 = w"
  by (rule bit_word_eqI) (auto simp: get16_def put16_def bit_simps)

lemma get32_put32: "get32 (put32 w) 0 = w"
proof (rule bit_word_eqI)
  fix n :: nat
  assume n: "n < LENGTH(32)"
  consider "n < 8" | "8 \<le> n \<and> n < 16" | "16 \<le> n \<and> n < 24" | "24 \<le> n" by linarith
  then show "bit (get32 (put32 w) 0) n = bit w n"
    using n by cases (auto simp: get32_def put32_def bit_simps)
qed

lemma u8_high_bits: "\<not> bit (a :: u8) (8 + n)" "\<not> bit (a :: u8) (16 + n)" "\<not> bit (a :: u8) (24 + n)"
  by (auto dest!: bit_imp_le_length)

lemma put32_get32: "length bytes = 4 \<Longrightarrow> put32 (get32 bytes 0) = bytes"
proof -
  assume "length bytes = 4"
  then obtain a b c d where e: "bytes = [a, b, c, d]"
    by (auto simp: length_Suc_conv numeral_eq_Suc)
  show ?thesis
    unfolding e get32_def put32_def
    by (simp, intro conjI; rule bit_word_eqI; auto simp: bit_simps u8_high_bits)
qed

lemma get_append:
  "i + 2 \<le> length xs \<Longrightarrow> get16 (xs @ ys) i = get16 xs i"
  "i + 4 \<le> length xs \<Longrightarrow> get32 (xs @ ys) i = get32 xs i"
  by (auto simp: get16_def get32_def nth_append)

lemma get_drop:
  "i + 2 \<le> length xs - n \<Longrightarrow> n \<le> length xs \<Longrightarrow> get16 (drop n xs) i = get16 xs (n + i)"
  "i + 4 \<le> length xs - n \<Longrightarrow> n \<le> length xs \<Longrightarrow> get32 (drop n xs) i = get32 xs (n + i)"
  by (auto simp: get16_def get32_def add.assoc)

end
