(* ===== verification/Ide.thy ===== *)
theory Ide
  imports Block_IO
begin

text \<open>
  The polling IDE driver (\<open>kernel/ide.h\<close>, \<open>kernel/ide.cc\<close>). The drive is hardware: it is a parameter
  of the model, which answers each input instruction as a function of all the port accesses made
  before it. The driver's own part is the sequence of port accesses it makes and what it does with
  the answers. The polling loops take a bound on the number of polls.
\<close>

section \<open>Port input and output\<close>

datatype io_event = OutB u32 u8 | InB u32 | InL u32

record ide_device =
  in_b :: "io_event list \<Rightarrow> u32 \<Rightarrow> u8"
  in_l :: "io_event list \<Rightarrow> u32 \<Rightarrow> u32"

text \<open>The port accesses made so far, the most recent first, and the read counter.\<close>

record ide_state =
  port_trace :: "io_event list"
  nRead :: u32

definition outb :: "u32 \<Rightarrow> u8 \<Rightarrow> ide_state \<Rightarrow> ide_state" where
  "outb p v s = s\<lparr>port_trace := OutB p v # port_trace s\<rparr>"

section \<open>The driver\<close>

definition sector_size :: u32 where
  "sector_size = 512"

definition ide_size_in_bytes :: u32 where
  "ide_size_in_bytes = NOT 0"

definition controller :: "u32 \<Rightarrow> u32" where
  "controller drive = drop_bit 1 drive AND 1"

definition channel :: "u32 \<Rightarrow> u32" where
  "channel drive = drive AND 1"

definition ports :: "u32 list" where
  "ports = [0x1f0, 0x170]"

definition port :: "u32 \<Rightarrow> u32" where
  "port drive = ports ! unat (controller drive)"

definition getStatus :: "ide_device \<Rightarrow> u32 \<Rightarrow> ide_state \<Rightarrow> u8 \<times> ide_state" where
  "getStatus D drive s =
     (in_b D (port_trace s) (port drive + 7), s\<lparr>port_trace := InB (port drive + 7) # port_trace s\<rparr>)"

definition ERR :: u8 where "ERR = 0x01"
definition DRQ :: u8 where "DRQ = 0x08"
definition DF :: u8 where "DF = 0x20"
definition DRDY :: u8 where "DRDY = 0x40"
definition BSY :: u8 where "BSY = 0x80"

text \<open>\<open>while ((getStatus(drive) & BSY) != 0) pause();\<close> and \<open>while ((getStatus(drive) & DRQ) == 0) pause();\<close>\<close>

fun wait_not_busy :: "nat \<Rightarrow> ide_device \<Rightarrow> u32 \<Rightarrow> ide_state \<Rightarrow> ide_state res" where
  "wait_not_busy 0 D drive s = Inl OutOfFuel"
| "wait_not_busy (Suc fuel) D drive s =
     (let (status, s') = getStatus D drive s in
      if status AND BSY \<noteq> 0 then wait_not_busy fuel D drive s' else Inr s')"

fun wait_data :: "nat \<Rightarrow> ide_device \<Rightarrow> u32 \<Rightarrow> ide_state \<Rightarrow> ide_state res" where
  "wait_data 0 D drive s = Inl OutOfFuel"
| "wait_data (Suc fuel) D drive s =
     (let (status, s') = getStatus D drive s in
      if status AND DRQ = 0 then wait_data fuel D drive s' else Inr s')"

definition waitForDrive :: "nat \<Rightarrow> ide_device \<Rightarrow> u32 \<Rightarrow> ide_state \<Rightarrow> ide_state res" where
  "waitForDrive fuel D drive s =
     (let (status, s') = getStatus D drive s in
      if status AND (ERR OR DF) \<noteq> 0 then Inl (Panic ''drive error'')
      else if status AND DRDY = 0 then Inl (Panic ''drive is not ready'')
      else wait_not_busy fuel D drive s')"

fun read_words :: "nat \<Rightarrow> ide_device \<Rightarrow> u32 \<Rightarrow> ide_state \<Rightarrow> u8 list \<times> ide_state" where
  "read_words 0 D base s = ([], s)"
| "read_words (Suc n) D base s =
     (let w = in_l D (port_trace s) base;
          (bytes, s') = read_words n D base (s\<lparr>port_trace := InL base # port_trace s\<rparr>)
      in (put32 w @ bytes, s'))"

definition ide_issue_read :: "u32 \<Rightarrow> u32 \<Rightarrow> ide_state \<Rightarrow> ide_state" where
  "ide_issue_read drive sector s =
     (let base = port drive; ch = channel drive in
      outb (base + 7) 0x20
       (outb (base + 6) (ucast (0xE0 OR push_bit 4 ch OR (drop_bit 24 sector AND 0xf)))
        (outb (base + 5) (ucast (drop_bit 16 sector))
         (outb (base + 4) (ucast (drop_bit 8 sector))
          (outb (base + 3) (ucast sector)
           (outb (base + 2) 1 s))))))"

definition ide_read_block :: "nat \<Rightarrow> ide_device \<Rightarrow> u32 \<Rightarrow> u32 \<Rightarrow> ide_state \<Rightarrow> (u8 list \<times> ide_state) res" where
  "ide_read_block fuel D drive sector s =
     rbind (waitForDrive fuel D drive (s\<lparr>nRead := nRead s + 1\<rparr>)) (\<lambda>s1.
     rbind (waitForDrive fuel D drive (ide_issue_read drive sector s1)) (\<lambda>s2.
     rbind (wait_data fuel D drive s2) (\<lambda>s3.
     Inr (read_words (unat (sector_size div 4)) D (port drive) s3))))"

text \<open>The block device that the rest of the kernel sees: what a read gives, started in state \<open>s\<close>.\<close>

definition ide_block_io :: "nat \<Rightarrow> ide_device \<Rightarrow> u32 \<Rightarrow> ide_state \<Rightarrow> block_io" where
  "ide_block_io fuel D drive s =
     \<lparr>block_size = sector_size, size_in_bytes = ide_size_in_bytes,
      read_block = (\<lambda>sector. rbind (ide_read_block fuel D drive sector s) (\<lambda>(bytes, s'). Inr bytes))\<rparr>"

section \<open>What an ATA drive does\<close>

text \<open>
  The drive's registers are what was last written to its ports. \<open>last_command\<close> is the last byte written to
  the command register and the accesses before it, as long as only inputs followed; \<open>words_taken\<close>
  counts the data words read since.
\<close>

definition drive_status :: "ide_device \<Rightarrow> u32 \<Rightarrow> io_event list \<Rightarrow> u8" where
  "drive_status D drive t = in_b D t (port drive + 7)"

fun written :: "io_event list \<Rightarrow> u32 \<Rightarrow> u8" where
  "written [] p = 0"
| "written (OutB q v # t) p = (if q = p then v else written t p)"
| "written (_ # t) p = written t p"

fun last_command :: "io_event list \<Rightarrow> u32 \<Rightarrow> (u8 \<times> io_event list) option" where
  "last_command [] b = None"
| "last_command (OutB q v # t) b = (if q = b + 7 then Some (v, t) else None)"
| "last_command (_ # t) b = last_command t b"

fun words_taken :: "io_event list \<Rightarrow> u32 \<Rightarrow> nat" where
  "words_taken [] b = 0"
| "words_taken (OutB q v # t) b = (if q = b + 7 then 0 else words_taken t b)"
| "words_taken (InL q # t) b = (if q = b then Suc (words_taken t b) else words_taken t b)"
| "words_taken (InB q # t) b = words_taken t b"

definition lba_register :: "io_event list \<Rightarrow> u32 \<Rightarrow> u32" where
  "lba_register t b = ucast (written t (b + 3)) OR push_bit 8 (ucast (written t (b + 4))) OR
     push_bit 16 (ucast (written t (b + 5))) OR push_bit 24 (ucast (written t (b + 6)) AND 0xf)"

definition image_word :: "(nat \<Rightarrow> u8) \<Rightarrow> nat \<Rightarrow> u32" where
  "image_word img p = get32 (map img [p ..< p + 4]) 0"

text \<open>The byte \<open>v\<close>, written to the command register after \<open>t\<close>, starts a read of one sector of this drive.\<close>

definition reads_sector :: "u32 \<Rightarrow> u8 \<Rightarrow> io_event list \<Rightarrow> bool" where
  "reads_sector drive v t \<longleftrightarrow> v = 0x20 \<and> written t (port drive + 2) = 1 \<and>
     written t (port drive + 6) AND 0xF0 = (if channel drive = 0 then 0xE0 else 0xF0)"

definition reading_sector :: "u32 \<Rightarrow> io_event list \<Rightarrow> bool" where
  "reading_sector drive t \<longleftrightarrow>
     (case last_command t (port drive) of Some (v, t') \<Rightarrow> reads_sector drive v t' | None \<Rightarrow> False)"

definition addressed :: "u32 \<Rightarrow> io_event list \<Rightarrow> nat" where
  "addressed drive t =
     (case last_command t (port drive) of Some (v, t') \<Rightarrow> unat (lba_register t' (port drive)) | None \<Rightarrow> 0)"

text \<open>
  The PIO protocol of the ATA specification, for a drive of \<open>cap\<close> sectors with the bytes \<open>img\<close>. After
  finitely many polls the drive is not busy, and polling does not make it busy again. While it is busy
  the other status bits mean nothing, and nothing is said of them here. Once it is not busy, a read of
  an existing sector shows data request and drive ready, without an error, until the 128 data words
  have been taken in order, and a read of a sector it does not have shows an error and no data request.
\<close>

definition ata_drive :: "ide_device \<Rightarrow> u32 \<Rightarrow> nat \<Rightarrow> nat \<Rightarrow> (nat \<Rightarrow> u8) \<Rightarrow> bool" where
  "ata_drive D drive fuel cap img \<longleftrightarrow>
     (\<forall>t. \<exists>k<fuel. drive_status D drive (replicate k (InB (port drive + 7)) @ t) AND BSY = 0) \<and>
     (\<forall>t. drive_status D drive t AND BSY = 0 \<longrightarrow> drive_status D drive (InB (port drive + 7) # t) AND BSY = 0) \<and>
     (\<forall>t. reading_sector drive t \<and> drive_status D drive t AND BSY = 0 \<and> addressed drive t < cap \<and>
        words_taken t (port drive) < 128 \<longrightarrow>
       drive_status D drive t AND DRQ \<noteq> 0 \<and> drive_status D drive t AND (ERR OR DF) = 0 \<and> drive_status D drive t AND DRDY \<noteq> 0 \<and>
       in_l D t (port drive) = image_word img (512 * addressed drive t + 4 * words_taken t (port drive)) \<and>
       (words_taken t (port drive) < 127 \<longrightarrow> drive_status D drive (InL (port drive) # t) AND BSY = 0)) \<and>
     (\<forall>t. reading_sector drive t \<and> drive_status D drive t AND BSY = 0 \<and> cap \<le> addressed drive t \<longrightarrow>
       drive_status D drive t AND ERR \<noteq> 0 \<and> drive_status D drive t AND DRQ = 0)"

text \<open>
  The driver looks at the error and ready bits once, at its first look at the status register, busy or
  not. Whether it panics on a drive therefore depends on what the drive shows while it is busy:
  \<open>drive_ready\<close> is a drive that keeps showing drive ready and no error as long as every command it was
  given was a read of a sector it has.
\<close>

fun good_history :: "u32 \<Rightarrow> nat \<Rightarrow> io_event list \<Rightarrow> bool" where
  "good_history drive cap [] = True"
| "good_history drive cap (OutB q v # t) =
     ((q = port drive + 7 \<longrightarrow> reads_sector drive v t \<and> unat (lba_register t (port drive)) < cap) \<and>
      good_history drive cap t)"
| "good_history drive cap (_ # t) = good_history drive cap t"

definition drive_ready :: "ide_device \<Rightarrow> u32 \<Rightarrow> nat \<Rightarrow> bool" where
  "drive_ready D drive cap \<longleftrightarrow>
     (\<forall>t. good_history drive cap t \<longrightarrow> drive_status D drive t AND (ERR OR DF) = 0 \<and> drive_status D drive t AND DRDY \<noteq> 0)"

section \<open>The driver against the drive\<close>

lemma trace_polls [simp]:
  "written (replicate k (InB q) @ t) p = written t p"
  "last_command (replicate k (InB q) @ t) p = last_command t p"
  "words_taken (replicate k (InB q) @ t) b = words_taken t b"
  "good_history drive cap (replicate k (InB q) @ t) = good_history drive cap t"
  by (induction k) auto

lemma reading_polls [simp]:
  "reading_sector drive (replicate k (InB q) @ t) = reading_sector drive t"
  "addressed drive (replicate k (InB q) @ t) = addressed drive t"
  by (simp_all add: reading_sector_def addressed_def)

lemma reading_input [simp]:
  "reading_sector drive (InL q # t) = reading_sector drive t"
  "addressed drive (InL q # t) = addressed drive t"
  by (simp_all add: reading_sector_def addressed_def)

lemma getStatus_status:
  "getStatus D drive s = (drive_status D drive (port_trace s), s\<lparr>port_trace := InB (port drive + 7) # port_trace s\<rparr>)"
  by (simp add: getStatus_def drive_status_def)

text \<open>Polling ends, with the drive not busy; a shorter bound on the polls only runs out earlier.\<close>

lemma wait_not_busy_ends:
  assumes stays: "\<forall>t. drive_status D drive t AND BSY = 0 \<longrightarrow> drive_status D drive (InB (port drive + 7) # t) AND BSY = 0"
  shows "\<exists>k<fuel. drive_status D drive (replicate k (InB (port drive + 7)) @ port_trace s) AND BSY = 0 \<Longrightarrow>
   \<exists>j. wait_not_busy fuel D drive s = Inr (s\<lparr>port_trace := replicate j (InB (port drive + 7)) @ port_trace s\<rparr>) \<and>
     drive_status D drive (replicate j (InB (port drive + 7)) @ port_trace s) AND BSY = 0"
proof (induction fuel arbitrary: s)
  case (Suc fuel)
  let ?p = "InB (port drive + 7)"
  define s' where "s' = s\<lparr>port_trace := ?p # port_trace s\<rparr>"
  show ?case
  proof (cases "drive_status D drive (port_trace s) AND BSY = 0")
    case True
    then show ?thesis
      using stays by (intro exI [of _ 1]) (simp add: getStatus_status)
  next
    case False
    obtain k where k: "k < Suc fuel" "drive_status D drive (replicate k ?p @ port_trace s) AND BSY = 0"
      using Suc.prems by blast
    then obtain m where m: "k = Suc m" using False by (cases k) auto
    have "drive_status D drive (replicate m ?p @ port_trace s') AND BSY = 0"
      using k(2) by (simp add: m s'_def replicate_app_Cons_same)
    then obtain j where "wait_not_busy fuel D drive s' = Inr (s'\<lparr>port_trace := replicate j ?p @ port_trace s'\<rparr>)"
      "drive_status D drive (replicate j ?p @ port_trace s') AND BSY = 0"
      using Suc.IH [of s'] k(1) m by auto
    then show ?thesis
      using False by (intro exI [of _ "Suc j"])
        (simp add: getStatus_status s'_def replicate_app_Cons_same)
  qed
qed simp

lemma wait_not_busy_fuel:
  "wait_not_busy fuel D drive s = Inr s' \<Longrightarrow>
    wait_not_busy n D drive s = Inr s' \<or> wait_not_busy n D drive s = Inl OutOfFuel"
proof (induction fuel arbitrary: n s)
  case (Suc fuel)
  then show ?case
    by (cases n) (auto simp: getStatus_status split: if_splits)
qed simp

lemma waitForDrive_fuel:
  "waitForDrive fuel D drive s = Inr s' \<Longrightarrow>
    waitForDrive n D drive s = Inr s' \<or> waitForDrive n D drive s = Inl OutOfFuel"
  by (auto simp: waitForDrive_def getStatus_status dest: wait_not_busy_fuel [where n = n] split: if_splits)

lemma wait_data_at_once:
  assumes "drive_status D drive (port_trace s) AND DRQ \<noteq> 0"
  shows "wait_data (Suc n) D drive s = Inr (s\<lparr>port_trace := InB (port drive + 7) # port_trace s\<rparr>)"
  using assms by (simp add: getStatus_status)

lemma wait_data_never:
  "\<forall>k. drive_status D drive (replicate k (InB (port drive + 7)) @ port_trace s) AND DRQ = 0 \<Longrightarrow>
    wait_data n D drive s = Inl OutOfFuel"
proof (induction n arbitrary: s)
  case (Suc n)
  let ?s = "s\<lparr>port_trace := InB (port drive + 7) # port_trace s\<rparr>"
  have "\<forall>k. drive_status D drive (replicate k (InB (port drive + 7)) @ port_trace ?s) AND DRQ = 0"
  proof
    fix k
    show "drive_status D drive (replicate k (InB (port drive + 7)) @ port_trace ?s) AND DRQ = 0"
      using Suc.prems [rule_format, of "Suc k"] by (simp add: replicate_app_Cons_same)
  qed
  then show ?case
    using Suc.IH [of ?s] Suc.prems [rule_format, of 0] by (simp add: getStatus_status)
qed simp

lemma waitForDrive_ends:
  assumes "ata_drive D drive fuel cap img"
    and "drive_status D drive (port_trace s) AND (ERR OR DF) = 0" "drive_status D drive (port_trace s) AND DRDY \<noteq> 0"
  obtains j where "waitForDrive fuel D drive s = Inr (s\<lparr>port_trace := replicate j (InB (port drive + 7)) @ port_trace s\<rparr>)"
    and "drive_status D drive (replicate j (InB (port drive + 7)) @ port_trace s) AND BSY = 0"
proof -
  let ?p = "InB (port drive + 7)"
  define s' where "s' = s\<lparr>port_trace := ?p # port_trace s\<rparr>"
  have b: "\<exists>k<fuel. drive_status D drive (replicate k ?p @ port_trace s') AND BSY = 0"
    and stays: "\<forall>t. drive_status D drive t AND BSY = 0 \<longrightarrow> drive_status D drive (?p # t) AND BSY = 0"
    using assms(1) unfolding ata_drive_def by blast+
  obtain j where "wait_not_busy fuel D drive s' = Inr (s'\<lparr>port_trace := replicate j ?p @ port_trace s'\<rparr>)"
    "drive_status D drive (replicate j ?p @ port_trace s') AND BSY = 0"
    using wait_not_busy_ends [OF stays b] by blast
  moreover have "getStatus D drive s = (drive_status D drive (port_trace s), s')"
    by (simp add: getStatus_status s'_def)
  ultimately show ?thesis
    using that [of "Suc j"] assms(2,3) by (simp add: waitForDrive_def s'_def replicate_app_Cons_same)
qed

lemma port_cases: "port drive = 0x1f0 \<or> port drive = 0x170"
proof -
  have "controller drive = 0 \<or> controller drive = 1"
    unfolding controller_def by (simp add: and_one_eq mod_2_eq_odd)
  then show ?thesis by (auto simp: port_def ports_def)
qed

lemma channel_cases: "channel drive = 0 \<or> channel drive = 1"
  unfolding channel_def by (simp add: and_one_eq mod_2_eq_odd)

lemma bits8:
  assumes "n < (8 :: nat)"
  obtains "n = 0" | "n = 1" | "n = 2" | "n = 3" | "n = 4" | "n = 5" | "n = 6" | "n = 7"
  using assms by linarith

lemma device_register:
  fixes h :: u32
  assumes "ch = 0 \<or> ch = (1 :: u32)"
  defines "r \<equiv> ucast (0xE0 OR push_bit 4 ch OR (h AND 0xf)) :: u8"
  shows "r AND 0xF0 = (if ch = 0 then 0xE0 else 0xF0)" and "ucast r AND 0xf = h AND 0xf"
proof -
  have e: "0xf = (mask 4 :: u32)" by (simp add: mask_eq_exp_minus_1)
  show "r AND 0xF0 = (if ch = 0 then 0xE0 else 0xF0)"
  proof (rule bit_word_eqI)
    fix n :: nat
    assume "n < LENGTH(8)"
    then have "n < 8" by simp
    then show "bit (r AND 0xF0) n = bit (if ch = 0 then 0xE0 else 0xF0 :: u8) n"
      using assms(1) unfolding r_def by (cases rule: bits8) (auto simp: bit_simps)
  qed
  show "ucast r AND 0xf = h AND 0xf"
  proof (rule bit_word_eqI)
    fix n :: nat
    assume "n < LENGTH(32)"
    show "bit (ucast r AND 0xf :: u32) n = bit (h AND 0xf) n"
    proof (cases "n < 4")
      case True
      then have "n < 8" by simp
      then show ?thesis
        using assms(1) True unfolding r_def by (cases rule: bits8) (auto simp: bit_simps)
    next
      case False
      then show ?thesis unfolding e by (simp add: bit_simps)
    qed
  qed
qed

lemma lba_pieces:
  "ucast (ucast w :: u8) OR push_bit 8 (ucast (ucast (drop_bit 8 w) :: u8)) OR
   push_bit 16 (ucast (ucast (drop_bit 16 w) :: u8)) OR push_bit 24 (drop_bit 24 w AND 0xf) = (w :: u32) AND 0x0FFFFFFF"
proof (rule bit_word_eqI)
  have e: "0xf = (mask 4 :: u32)" "0x0FFFFFFF = (mask 28 :: u32)" by (simp_all add: mask_eq_exp_minus_1)
  fix n :: nat
  assume n: "n < LENGTH(32)"
  consider "n < 8" | "8 \<le> n \<and> n < 16" | "16 \<le> n \<and> n < 24" | "24 \<le> n" by linarith
  then show "bit (ucast (ucast w :: u8) OR push_bit 8 (ucast (ucast (drop_bit 8 w) :: u8)) OR
   push_bit 16 (ucast (ucast (drop_bit 16 w) :: u8)) OR push_bit 24 (drop_bit 24 w AND 0xf)) n = bit (w AND 0x0FFFFFFF) n"
    using n unfolding e by cases (auto simp: bit_simps)
qed

lemma sector_registers:
  assumes "t = port_trace (ide_issue_read drive sector s)"
  shows "reading_sector drive t" "words_taken t (port drive) = 0"
    "addressed drive t = unat (sector AND 0x0FFFFFFF)"
    "good_history drive cap t \<longleftrightarrow> unat (sector AND 0x0FFFFFFF) < cap \<and> good_history drive cap (port_trace s)"
proof -
  define r6 :: u8 where "r6 = ucast (0xE0 OR push_bit 4 (channel drive) OR (drop_bit 24 sector AND 0xf))"
  define t' where "t' = OutB (port drive + 6) r6 #
      OutB (port drive + 5) (ucast (drop_bit 16 sector)) # OutB (port drive + 4) (ucast (drop_bit 8 sector)) #
      OutB (port drive + 3) (ucast sector) # OutB (port drive + 2) 1 # port_trace s"
  have t: "t = OutB (port drive + 7) 0x20 # t'"
    by (simp add: assms ide_issue_read_def Let_def outb_def r6_def t'_def)
  have r: "written t' (port drive + 6) = r6"
     "written t' (port drive + 5) = ucast (drop_bit 16 sector)" "written t' (port drive + 4) = ucast (drop_bit 8 sector)"
     "written t' (port drive + 3) = ucast sector" "written t' (port drive + 2) = 1"
    unfolding t'_def by simp_all
  have "r6 AND 0xF0 = (if channel drive = 0 then 0xE0 else 0xF0)"
    unfolding r6_def by (rule device_register(1) [OF channel_cases])
  then have reads: "reads_sector drive 0x20 t'" by (simp add: reads_sector_def r)
  then show "reading_sector drive t" by (simp add: reading_sector_def t)
  show "words_taken t (port drive) = 0" by (simp add: t)
  have lba: "lba_register t' (port drive) = sector AND 0x0FFFFFFF"
    unfolding lba_register_def r r6_def device_register(2) [OF channel_cases] by (rule lba_pieces)
  then show "addressed drive t = unat (sector AND 0x0FFFFFFF)" by (simp add: addressed_def t)
  have "good_history drive cap t' = good_history drive cap (port_trace s)" by (simp add: t'_def)
  then show "good_history drive cap t \<longleftrightarrow> unat (sector AND 0x0FFFFFFF) < cap \<and> good_history drive cap (port_trace s)"
    by (simp add: t lba reads)
qed

lemma image_bytes: "put32 (image_word img p) = map img [p ..< p + 4]"
  unfolding image_word_def by (rule put32_get32) simp

lemma read_words_image:
  assumes "ata_drive D drive fuel cap img" "reading_sector drive (port_trace s)"
    and "drive_status D drive (port_trace s) AND BSY = 0" "addressed drive (port_trace s) < cap"
    and "words_taken (port_trace s) (port drive) + Suc n \<le> 128"
    and "p = 512 * addressed drive (port_trace s) + 4 * words_taken (port_trace s) (port drive)"
  shows "fst (read_words (Suc n) D (port drive) s) = map img [p ..< p + 4 * Suc n] \<and>
    nRead (snd (read_words (Suc n) D (port drive) s)) = nRead s \<and>
    good_history drive cap' (port_trace (snd (read_words (Suc n) D (port drive) s))) = good_history drive cap' (port_trace s)"
  using assms(2-6)
proof (induction n arbitrary: s p)
  case 0
  have w: "in_l D (port_trace s) (port drive) = image_word img p"
    using assms(1) 0 unfolding ata_drive_def by auto
  show ?case by (simp add: w image_bytes)
next
  case (Suc n)
  define s' where "s' = s\<lparr>port_trace := InL (port drive) # port_trace s\<rparr>"
  have w: "in_l D (port_trace s) (port drive) = image_word img p" "drive_status D drive (port_trace s') AND BSY = 0"
    using assms(1) Suc.prems unfolding ata_drive_def s'_def by auto
  have IH: "fst (read_words (Suc n) D (port drive) s') = map img [p + 4 ..< p + 4 + 4 * Suc n] \<and>
    nRead (snd (read_words (Suc n) D (port drive) s')) = nRead s' \<and>
    good_history drive cap' (port_trace (snd (read_words (Suc n) D (port drive) s'))) = good_history drive cap' (port_trace s')"
    using Suc.prems w(2) by (intro Suc.IH) (simp_all add: s'_def)
  have app: "[p ..< p + 4] @ [p + 4 ..< p + 4 + 4 * Suc n] = [p ..< p + 4 * Suc (Suc n)]"
    using upt_add_eq_append [of p "p + 4" "4 * Suc n"] by (simp add: add.assoc)
  have "read_words (Suc (Suc n)) D (port drive) s =
      (put32 (image_word img p) @ fst (read_words (Suc n) D (port drive) s'), snd (read_words (Suc n) D (port drive) s'))"
    by (simp only: read_words.simps(2) [of "Suc n"] Let_def w(1) s'_def case_prod_beta)
  then show ?case
    using IH by (simp only: fst_conv snd_conv image_bytes map_append [symmetric] app) (simp add: s'_def)
qed

text \<open>The part of a read after the command: what it returns depends on the first status it sees and on
  whether the drive has the sector.\<close>

lemma read_after_command:
  assumes drive: "ata_drive D drive fuel cap img" and q: "q = ide_issue_read drive sector s1"
    and st: "drive_status D drive (port_trace q) AND (ERR OR DF) = 0" "drive_status D drive (port_trace q) AND DRDY \<noteq> 0"
  obtains s2 where "waitForDrive fuel D drive q = Inr s2"
    and "unat (sector AND 0x0FFFFFFF) < cap \<Longrightarrow> 0 < fuel \<and>
      (\<exists>s3. wait_data fuel D drive s2 = Inr s3 \<and>
        fst (read_words 128 D (port drive) s3) =
          map img [512 * unat (sector AND 0x0FFFFFFF) ..< 512 * unat (sector AND 0x0FFFFFFF) + 512] \<and>
        nRead (snd (read_words 128 D (port drive) s3)) = nRead s1 \<and>
        (good_history drive cap (port_trace s1) \<longrightarrow>
          good_history drive cap (port_trace (snd (read_words 128 D (port drive) s3)))))"
    and "cap \<le> unat (sector AND 0x0FFFFFFF) \<Longrightarrow> wait_data n D drive s2 = Inl OutOfFuel"
proof -
  let ?p = "InB (port drive + 7)"
  note regs = sector_registers [of "port_trace q" drive sector s1, OF q [THEN arg_cong]]
  obtain j where s2: "waitForDrive fuel D drive q = Inr (q\<lparr>port_trace := replicate j ?p @ port_trace q\<rparr>)"
      "drive_status D drive (replicate j ?p @ port_trace q) AND BSY = 0"
    using waitForDrive_ends [OF drive st] by blast
  define s2 where "s2 = q\<lparr>port_trace := replicate j ?p @ port_trace q\<rparr>"
  have t2: "reading_sector drive (port_trace s2)" "words_taken (port_trace s2) (port drive) = 0"
    "addressed drive (port_trace s2) = unat (sector AND 0x0FFFFFFF)" "drive_status D drive (port_trace s2) AND BSY = 0"
    using s2(2) by (simp_all add: s2_def regs)
  have stays: "\<forall>t. drive_status D drive t AND BSY = 0 \<longrightarrow> drive_status D drive (?p # t) AND BSY = 0"
    using drive unfolding ata_drive_def by blast
  have fuel: "0 < fuel" using drive unfolding ata_drive_def by (metis less_zeroE neq0_conv)
  have n1: "nRead q = nRead s1" by (simp add: q ide_issue_read_def Let_def outb_def)
  show ?thesis
  proof (rule that [of s2])
    show "waitForDrive fuel D drive q = Inr s2" using s2(1) by (simp add: s2_def)
  next
    assume c: "unat (sector AND 0x0FFFFFFF) < cap"
    have "drive_status D drive (port_trace s2) AND DRQ \<noteq> 0"
      using drive t2 c unfolding ata_drive_def by auto
    moreover obtain f where f: "fuel = Suc f" using fuel by (cases fuel) auto
    ultimately have s3: "wait_data fuel D drive s2 = Inr (s2\<lparr>port_trace := ?p # port_trace s2\<rparr>)"
      by (simp only: f wait_data_at_once simp_thms)
    define s3 where "s3 = s2\<lparr>port_trace := ?p # port_trace s2\<rparr>"
    have poll: "reading_sector drive (?p # t) = reading_sector drive t" "addressed drive (?p # t) = addressed drive t"
      "good_history drive cap (?p # t) = good_history drive cap t" for t
      using reading_polls [of drive 1 "port drive + 7" t] by simp_all
    have t3: "reading_sector drive (port_trace s3)" "words_taken (port_trace s3) (port drive) = 0"
      "addressed drive (port_trace s3) = unat (sector AND 0x0FFFFFFF)" "drive_status D drive (port_trace s3) AND BSY = 0"
      using t2 stays by (simp_all add: s3_def poll)
    have g: "good_history drive cap (port_trace s3) \<longleftrightarrow> good_history drive cap (port_trace s1)"
      using c by (simp add: s3_def s2_def regs)
    have "fst (read_words (Suc 127) D (port drive) s3) =
        map img [512 * unat (sector AND 0x0FFFFFFF) ..< 512 * unat (sector AND 0x0FFFFFFF) + 4 * Suc 127] \<and>
      nRead (snd (read_words (Suc 127) D (port drive) s3)) = nRead s3 \<and>
      good_history drive cap (port_trace (snd (read_words (Suc 127) D (port drive) s3))) = good_history drive cap (port_trace s3)"
      using c by (intro read_words_image [OF drive t3(1,4)]) (simp_all add: t3)
    moreover have "nRead s3 = nRead s1" by (simp add: s3_def s2_def n1)
    moreover have "Suc 127 = 128" "4 * Suc 127 = 512" by simp_all
    ultimately show "0 < fuel \<and> (\<exists>s3. wait_data fuel D drive s2 = Inr s3 \<and>
        fst (read_words 128 D (port drive) s3) =
          map img [512 * unat (sector AND 0x0FFFFFFF) ..< 512 * unat (sector AND 0x0FFFFFFF) + 512] \<and>
        nRead (snd (read_words 128 D (port drive) s3)) = nRead s1 \<and>
        (good_history drive cap (port_trace s1) \<longrightarrow>
          good_history drive cap (port_trace (snd (read_words 128 D (port drive) s3)))))"
      using s3 fuel g by (intro conjI exI [of _ s3]) (simp_all only: s3_def [symmetric] simp_thms)
  next
    assume c: "cap \<le> unat (sector AND 0x0FFFFFFF)"
    have idle: "drive_status D drive (replicate k ?p @ port_trace s2) AND BSY = 0" for k
      by (induction k) (use t2(4) stays in auto)
    have "\<forall>k. drive_status D drive (replicate k ?p @ port_trace s2) AND DRQ = 0"
    proof
      fix k
      have "reading_sector drive (replicate k ?p @ port_trace s2)" "cap \<le> addressed drive (replicate k ?p @ port_trace s2)"
        using t2 c by simp_all
      with idle [of k] drive show "drive_status D drive (replicate k ?p @ port_trace s2) AND DRQ = 0"
        unfolding ata_drive_def by blast
    qed
    then show "wait_data n D drive s2 = Inl OutOfFuel" by (rule wait_data_never)
  qed
qed

text \<open>
  The outcomes of a read. The error and ready bits are looked at when the routine starts and once more
  after the command; data request is then polled for without looking at them again, so that a drive that
  reports an error any later is polled for ever.
\<close>

definition first_panic :: "u8 \<Rightarrow> fault option" where
  "first_panic st = (if st AND (ERR OR DF) \<noteq> 0 then Some (Panic ''drive error'')
     else if st AND DRDY = 0 then Some (Panic ''drive is not ready'') else None)"

lemma waitForDrive_panic: "first_panic (drive_status D drive (port_trace s)) = Some e \<Longrightarrow> waitForDrive n D drive s = Inl e"
  by (auto simp: waitForDrive_def getStatus_status first_panic_def split: if_splits)

lemma ide_read_outcome:
  assumes drive: "ata_drive D drive fuel cap img" and st: "first_panic (drive_status D drive (port_trace s)) = None"
  shows "\<exists>s1. waitForDrive fuel D drive (s\<lparr>nRead := nRead s + 1\<rparr>) = Inr s1 \<and>
    good_history drive cap (port_trace s1) = good_history drive cap (port_trace s) \<and>
    (case first_panic (drive_status D drive (port_trace (ide_issue_read drive sector s1))) of
       Some e \<Rightarrow> ide_read_block fuel D drive sector s = Inl e
     | None \<Rightarrow>
        if unat (sector AND 0x0FFFFFFF) < cap
        then \<exists>s'. ide_read_block fuel D drive sector s =
            Inr (map img [512 * unat (sector AND 0x0FFFFFFF) ..< 512 * unat (sector AND 0x0FFFFFFF) + 512], s') \<and>
          nRead s' = nRead s + 1 \<and> (good_history drive cap (port_trace s) \<longrightarrow> good_history drive cap (port_trace s'))
        else \<forall>n. ide_read_block n D drive sector s = Inl OutOfFuel)"
proof -
  let ?s = "s\<lparr>nRead := nRead s + 1\<rparr>" and ?p = "InB (port drive + 7)"
  have "drive_status D drive (port_trace ?s) AND (ERR OR DF) = 0" "drive_status D drive (port_trace ?s) AND DRDY \<noteq> 0"
    using st by (auto simp: first_panic_def split: if_splits)
  from waitForDrive_ends [OF drive this]
  obtain i where "waitForDrive fuel D drive ?s = Inr (?s\<lparr>port_trace := replicate i ?p @ port_trace ?s\<rparr>)" by blast
  moreover define s1 where "s1 = ?s\<lparr>port_trace := replicate i ?p @ port_trace ?s\<rparr>"
  ultimately have s1: "waitForDrive fuel D drive ?s = Inr s1" by simp
  have t1: "nRead s1 = nRead s + 1" "good_history drive cap (port_trace s1) = good_history drive cap (port_trace s)"
    by (simp_all add: s1_def)
  define q where "q = ide_issue_read drive sector s1"
  have words: "unat (sector_size div 4) = 128" by (simp add: sector_size_def)
  have st2: "drive_status D drive (port_trace q) AND (ERR OR DF) = 0" "drive_status D drive (port_trace q) AND DRDY \<noteq> 0"
    if "first_panic (drive_status D drive (port_trace q)) = None"
    using that by (auto simp: first_panic_def split: if_splits)
  have panics: "ide_read_block fuel D drive sector s = Inl e" if "first_panic (drive_status D drive (port_trace q)) = Some e" for e
    using that by (simp add: ide_read_block_def s1 q_def [symmetric] waitForDrive_panic)
  have data: "\<exists>s'. ide_read_block fuel D drive sector s =
        Inr (map img [512 * unat (sector AND 0x0FFFFFFF) ..< 512 * unat (sector AND 0x0FFFFFFF) + 512], s') \<and>
      nRead s' = nRead s + 1 \<and> (good_history drive cap (port_trace s) \<longrightarrow> good_history drive cap (port_trace s'))"
    if ok: "first_panic (drive_status D drive (port_trace q)) = None" and c: "unat (sector AND 0x0FFFFFFF) < cap"
  proof -
    obtain s2 s3 where r: "waitForDrive fuel D drive q = Inr s2" "wait_data fuel D drive s2 = Inr s3"
      "fst (read_words 128 D (port drive) s3) =
          map img [512 * unat (sector AND 0x0FFFFFFF) ..< 512 * unat (sector AND 0x0FFFFFFF) + 512]"
      "nRead (snd (read_words 128 D (port drive) s3)) = nRead s1"
      "good_history drive cap (port_trace s1) \<longrightarrow>
          good_history drive cap (port_trace (snd (read_words 128 D (port drive) s3)))"
      using read_after_command [OF drive q_def st2 [OF ok]] c by metis
    have "ide_read_block fuel D drive sector s = Inr (read_words 128 D (port drive) s3)"
      by (simp only: ide_read_block_def s1 rbind_simps q_def [symmetric] r(1,2) words)
    then show ?thesis
      using r(3-5) t1 by (intro exI [of _ "snd (read_words 128 D (port drive) s3)"]) (simp add: prod_eq_iff)
  qed
  have never: "ide_read_block n D drive sector s = Inl OutOfFuel"
    if ok: "first_panic (drive_status D drive (port_trace q)) = None" and c: "\<not> unat (sector AND 0x0FFFFFFF) < cap" for n
  proof -
    obtain s2 where r: "waitForDrive fuel D drive q = Inr s2" "wait_data n D drive s2 = Inl OutOfFuel"
      using read_after_command [OF drive q_def st2 [OF ok], where n = n] c by (metis not_less)
    show ?thesis
      using waitForDrive_fuel [OF s1, of n] waitForDrive_fuel [OF r(1), of n] r(2)
      by (auto simp: ide_read_block_def q_def [symmetric])
  qed
  show ?thesis
    using s1 t1(2) panics data never
    by (intro exI [of _ s1]) (simp only: q_def [symmetric] simp_thms split: option.split if_split, blast)
qed

text \<open>On a drive that stays ready, every read of an existing sector succeeds, one after the other.\<close>

lemma ide_read_ready:
  assumes drive: "ata_drive D drive fuel cap img" "drive_ready D drive cap" "good_history drive cap (port_trace s)"
    and c: "unat (sector AND 0x0FFFFFFF) < cap"
  shows "\<exists>s'. ide_read_block fuel D drive sector s =
      Inr (map img [512 * unat (sector AND 0x0FFFFFFF) ..< 512 * unat (sector AND 0x0FFFFFFF) + 512], s') \<and>
    nRead s' = nRead s + 1 \<and> good_history drive cap (port_trace s')"
proof -
  have ok: "first_panic (drive_status D drive t) = None" if "good_history drive cap t" for t
    using drive(2) that by (auto simp: drive_ready_def first_panic_def)
  obtain s1 where s1: "good_history drive cap (port_trace s1) = good_history drive cap (port_trace s)"
    "case first_panic (drive_status D drive (port_trace (ide_issue_read drive sector s1))) of
       Some e \<Rightarrow> ide_read_block fuel D drive sector s = Inl e
     | None \<Rightarrow>
        if unat (sector AND 0x0FFFFFFF) < cap
        then \<exists>s'. ide_read_block fuel D drive sector s =
            Inr (map img [512 * unat (sector AND 0x0FFFFFFF) ..< 512 * unat (sector AND 0x0FFFFFFF) + 512], s') \<and>
          nRead s' = nRead s + 1 \<and> (good_history drive cap (port_trace s) \<longrightarrow> good_history drive cap (port_trace s'))
        else \<forall>n. ide_read_block n D drive sector s = Inl OutOfFuel"
    using ide_read_outcome [OF drive(1) ok [OF drive(3)], of sector] by blast
  have "good_history drive cap (port_trace (ide_issue_read drive sector s1))"
    using s1(1) drive(3) c by (simp add: sector_registers(4) [OF refl])
  from s1(2) [unfolded ok [OF this] option.case if_P [OF c]] show ?thesis
    using drive(3) by blast
qed

section \<open>The drive as a block device\<close>

record ide_unit =
  unit_fuel :: nat
  unit_device :: ide_device
  unit_drive :: u32
  unit_sectors :: nat
  unit_image :: "nat \<Rightarrow> u8"
  unit_state :: ide_state

definition unit_io :: "ide_unit \<Rightarrow> block_io" where
  "unit_io u = ide_block_io (unit_fuel u) (unit_device u) (unit_drive u) (unit_state u)"

definition unit_extent :: "ide_unit \<Rightarrow> nat" where
  "unit_extent u = 512 * unit_sectors u"

definition unit_ok :: "ide_unit \<Rightarrow> bool" where
  "unit_ok u \<longleftrightarrow> ata_drive (unit_device u) (unit_drive u) (unit_fuel u) (unit_sectors u) (unit_image u) \<and>
     drive_ready (unit_device u) (unit_drive u) (unit_sectors u) \<and>
     good_history (unit_drive u) (unit_sectors u) (port_trace (unit_state u))"

lemma lba28: "unat (b :: u32) * 512 < 2 ^ 32 \<Longrightarrow> b AND 0x0FFFFFFF = b"
proof -
  assume "unat b * 512 < 2 ^ 32"
  then have "unat b < 2 ^ 28" by simp
  moreover have "0x0FFFFFFF = (mask 28 :: u32)" by (simp add: mask_eq_exp_minus_1)
  ultimately show ?thesis
    by (metis take_bit_eq_mask take_bit_nat_eq_self u32_unat_eqI unsigned_take_bit_eq)
qed

interpretation ide_disk: block_device unit_io unit_ok unit_extent unit_image
proof unfold_locales
  fix u :: ide_unit and b :: u32
  assume ok: "unit_ok u"
  show "0 < unat (block_size (unit_io u))"
    by (simp add: unit_io_def ide_block_io_def sector_size_def)
  assume "unat b * unat (block_size (unit_io u)) < unat (size_in_bytes (unit_io u))"
    and "unat b * unat (block_size (unit_io u)) < unit_extent u"
  then have "unat b * 512 < unat ide_size_in_bytes" and c: "unat b < unit_sectors u"
    by (simp_all add: unit_io_def ide_block_io_def sector_size_def unit_extent_def)
  then have "unat b * 512 < 2 ^ 32" using u32_unat by (metis less_trans)
  then have "b AND 0x0FFFFFFF = b" by (rule lba28)
  then show "read_block (unit_io u) b = Inr (map (unit_image u)
      [unat b * unat (block_size (unit_io u)) ..< unat b * unat (block_size (unit_io u)) + unat (block_size (unit_io u))])"
    using ide_read_ready [of "unit_device u" "unit_drive u" "unit_fuel u" "unit_sectors u" "unit_image u" "unit_state u" b]
      ok [unfolded unit_ok_def] c
    by (auto simp: unit_io_def ide_block_io_def sector_size_def mult.commute)
qed

section \<open>Properties\<close>

lemma ide_size_nat: "unat ide_size_in_bytes = 4294967295"
  by (simp add: ide_size_in_bytes_def unsigned_minus_1_eq_mask mask_eq_exp_minus_1)

text \<open>A drive of \<open>cap\<close> sectors that is never busy, and one that is busy, showing drive ready, until it is
  polled once after a command.\<close>

definition demo_status :: "nat \<Rightarrow> io_event list \<Rightarrow> u32 \<Rightarrow> u8" where
  "demo_status cap t b =
     (case last_command t b of
        Some (v, t') \<Rightarrow> if unat (lba_register t' b) < cap then DRDY OR DRQ else DRDY OR ERR
      | None \<Rightarrow> DRDY OR DRQ)"

definition demo_words :: "(nat \<Rightarrow> u8) \<Rightarrow> io_event list \<Rightarrow> u32 \<Rightarrow> u32" where
  "demo_words img t b =
     (case last_command t b of
        Some (v, t') \<Rightarrow> image_word img (512 * unat (lba_register t' b) + 4 * words_taken t b)
      | None \<Rightarrow> 0)"

definition demo_drive :: "nat \<Rightarrow> (nat \<Rightarrow> u8) \<Rightarrow> ide_device" where
  "demo_drive cap img = \<lparr>in_b = (\<lambda>t p. demo_status cap t (p - 7)), in_l = demo_words img\<rparr>"

definition slow_drive :: "nat \<Rightarrow> (nat \<Rightarrow> u8) \<Rightarrow> ide_device" where
  "slow_drive cap img =
     \<lparr>in_b = (\<lambda>t p. case t of OutB q v # t' \<Rightarrow> BSY OR DRDY | _ \<Rightarrow> demo_status cap t (p - 7)), in_l = demo_words img\<rparr>"

lemmas status_bits = DRDY_def DRQ_def ERR_def DF_def BSY_def

lemma demo_status_bits:
  "demo_status cap t b AND BSY = 0" "demo_status cap t b AND DRDY \<noteq> 0"
  "reading_sector drive t \<Longrightarrow> addressed drive t < cap \<Longrightarrow>
    demo_status cap t (port drive) AND DRQ \<noteq> 0 \<and> demo_status cap t (port drive) AND (ERR OR DF) = 0"
  "reading_sector drive t \<Longrightarrow> cap \<le> addressed drive t \<Longrightarrow>
    demo_status cap t (port drive) AND ERR \<noteq> 0 \<and> demo_status cap t (port drive) AND DRQ = 0"
  "reading_sector drive t \<Longrightarrow>
    demo_words img t (port drive) = image_word img (512 * addressed drive t + 4 * words_taken t (port drive))"
  by (auto simp: demo_status_def demo_words_def reading_sector_def addressed_def status_bits split: option.splits)

lemma demo_drive_ok:
  assumes "0 < fuel"
  shows "ata_drive (demo_drive cap img) drive fuel cap img"
  unfolding ata_drive_def
  using assms demo_status_bits(1-2) demo_status_bits(3-5) [of drive]
  by (intro conjI allI impI exI [of _ 0]) (auto simp: drive_status_def demo_drive_def)

lemma good_command:
  "good_history drive cap t \<Longrightarrow> last_command t (port drive) = Some (v, t') \<Longrightarrow> unat (lba_register t' (port drive)) < cap"
  by (induction t rule: good_history.induct [of _ drive cap]) (auto split: if_splits)

lemma demo_drive_ready: "drive_ready (demo_drive cap img) drive cap"
  unfolding drive_ready_def drive_status_def demo_drive_def
  by (auto simp: demo_status_def status_bits split: option.splits dest: good_command)

lemma slow_drive_status:
  "drive_status (slow_drive cap img) drive t =
     (case t of OutB q v # t' \<Rightarrow> BSY OR DRDY | _ \<Rightarrow> demo_status cap t (port drive))"
  by (simp add: drive_status_def slow_drive_def split: list.split io_event.split)

lemma slow_drive_ok: "ata_drive (slow_drive cap img) drive 2 cap img"
proof -
  have w: "in_l (slow_drive cap img) t b = demo_words img t b" for t b by (simp add: slow_drive_def)
  have e: "drive_status (slow_drive cap img) drive t = demo_status cap t (port drive)"
    if "drive_status (slow_drive cap img) drive t AND BSY = 0" for t
    using that by (auto simp: slow_drive_status status_bits split: list.splits io_event.splits)
  have i: "drive_status (slow_drive cap img) drive (InB q # t) AND BSY = 0"
    "drive_status (slow_drive cap img) drive (InL q # t) AND BSY = 0" for q t
    by (simp_all add: slow_drive_status demo_status_bits(1))
  have "\<exists>k<2. drive_status (slow_drive cap img) drive (replicate k (InB (port drive + 7)) @ t) AND BSY = 0" for t
    by (intro exI [of _ 1]) (simp add: i)
  moreover have "drive_status (slow_drive cap img) drive (InB (port drive + 7) # t) AND BSY = 0" for t
    by (rule i)
  moreover have "drive_status (slow_drive cap img) drive t AND DRQ \<noteq> 0 \<and> drive_status (slow_drive cap img) drive t AND (ERR OR DF) = 0 \<and>
      drive_status (slow_drive cap img) drive t AND DRDY \<noteq> 0"
    if "reading_sector drive t" "drive_status (slow_drive cap img) drive t AND BSY = 0" "addressed drive t < cap" for t
    unfolding e [OF that(2)] using demo_status_bits(3) [OF that(1,3)] demo_status_bits(2) by blast
  moreover have "drive_status (slow_drive cap img) drive t AND ERR \<noteq> 0 \<and> drive_status (slow_drive cap img) drive t AND DRQ = 0"
    if "reading_sector drive t" "drive_status (slow_drive cap img) drive t AND BSY = 0" "cap \<le> addressed drive t" for t
    unfolding e [OF that(2)] using demo_status_bits(4) [OF that(1,3)] .
  ultimately show ?thesis
    unfolding ata_drive_def w using demo_status_bits(5) [of drive] i(2) by blast
qed

text \<open>
  C24. Reading a block of an ATA drive, whatever port accesses came before and however long the drive
  is busy. A first status with an error, or without drive ready, panics, before the command and after it.
  Otherwise, when the drive has the sector that the low 28 bits of the block number select, the read
  returns its 512 bytes and is counted; when the drive does not have it, the error that the drive
  reports is never looked at, and the read never returns, whatever the bound on the polls.
\<close>

theorem ide_block_read:
  assumes "ata_drive D drive fuel cap img"
  shows "case first_panic (drive_status D drive (port_trace s)) of
      Some e \<Rightarrow> ide_read_block fuel D drive sector s = Inl e
    | None \<Rightarrow> \<exists>s1. waitForDrive fuel D drive (s\<lparr>nRead := nRead s + 1\<rparr>) = Inr s1 \<and>
       (case first_panic (drive_status D drive (port_trace (ide_issue_read drive sector s1))) of
          Some e \<Rightarrow> ide_read_block fuel D drive sector s = Inl e
        | None \<Rightarrow>
           if unat (sector AND 0x0FFFFFFF) < cap
           then \<exists>s'. ide_read_block fuel D drive sector s =
               Inr (map img [512 * unat (sector AND 0x0FFFFFFF) ..< 512 * unat (sector AND 0x0FFFFFFF) + 512], s') \<and>
             nRead s' = nRead s + 1
           else \<forall>n. ide_read_block n D drive sector s = Inl OutOfFuel)"
proof (cases "first_panic (drive_status D drive (port_trace s))")
  case None
  obtain s1 where s1: "waitForDrive fuel D drive (s\<lparr>nRead := nRead s + 1\<rparr>) = Inr s1"
    "case first_panic (drive_status D drive (port_trace (ide_issue_read drive sector s1))) of
       Some e \<Rightarrow> ide_read_block fuel D drive sector s = Inl e
     | None \<Rightarrow>
        if unat (sector AND 0x0FFFFFFF) < cap
        then \<exists>s'. ide_read_block fuel D drive sector s =
            Inr (map img [512 * unat (sector AND 0x0FFFFFFF) ..< 512 * unat (sector AND 0x0FFFFFFF) + 512], s') \<and>
          nRead s' = nRead s + 1 \<and> (good_history drive cap (port_trace s) \<longrightarrow> good_history drive cap (port_trace s'))
        else \<forall>n. ide_read_block n D drive sector s = Inl OutOfFuel"
    using ide_read_outcome [OF assms None, of sector] by blast
  then show ?thesis
    unfolding None option.case
    by (intro exI [of _ s1] conjI) (auto split: option.splits if_splits)
qed (simp add: ide_read_block_def waitForDrive_panic)

text \<open>Sector 3 of the drive is read with the block number 0xF0000003; sector 4 panics on the drive that
  is never busy, and is polled for ever on the other one.\<close>

theorem ide_block_read_witness:
  "(\<exists>s'. ide_read_block 2 (slow_drive 4 of_nat) 1 0xF0000003 \<lparr>port_trace = [InB 0], nRead = 7\<rparr> =
      Inr (map of_nat [1536 ..< 2048], s') \<and> nRead s' = 8) \<and>
    (\<forall>n. ide_read_block n (slow_drive 4 of_nat) 1 0xF0000004 \<lparr>port_trace = [InB 0], nRead = 7\<rparr> = Inl OutOfFuel) \<and>
    ide_read_block 1 (demo_drive 4 of_nat) 1 0xF0000004 \<lparr>port_trace = [], nRead = 7\<rparr> = Inl (Panic ''drive error'')"
proof -
  let ?s = "\<lparr>port_trace = [InB 0], nRead = 7\<rparr>" and ?r = "\<lparr>port_trace = [], nRead = 7\<rparr>"
  have issued: "port_trace (ide_issue_read d sector s1) = OutB (port d + 7) 0x20 # tl (port_trace (ide_issue_read d sector s1))"
    for d sector s1 by (simp add: ide_issue_read_def Let_def outb_def)
  have busy: "first_panic (drive_status (slow_drive 4 of_nat) 1 (port_trace (ide_issue_read 1 sector s1))) = None" for sector s1
    by (subst issued) (simp add: slow_drive_status first_panic_def status_bits)
  have none: "first_panic (drive_status (slow_drive 4 of_nat) 1 [InB 0]) = None"
    "first_panic (drive_status (demo_drive 4 of_nat) 1 []) = None"
    by (simp_all add: slow_drive_status, simp_all add: drive_status_def demo_drive_def demo_status_def first_panic_def status_bits)
  have err: "first_panic (drive_status (demo_drive 4 of_nat) 1 (port_trace (ide_issue_read 1 0xF0000004 s1))) = Some (Panic ''drive error'')"
    for s1
  proof -
    note regs = sector_registers [where drive = 1 and sector = "0xF0000004" and s = s1, OF refl]
    have "drive_status (demo_drive 4 of_nat) 1 (port_trace (ide_issue_read 1 0xF0000004 s1)) AND ERR \<noteq> 0"
      using demo_status_bits(4) [OF regs(1), of 4] regs(3) by (simp add: drive_status_def demo_drive_def)
    then show ?thesis by (auto simp: first_panic_def bit.conj_disj_distrib or_eq_0_iff)
  qed
  show ?thesis
    using ide_block_read [OF slow_drive_ok [of 4 of_nat 1], of ?s "0xF0000003"]
      ide_block_read [OF slow_drive_ok [of 4 of_nat 1], of ?s "0xF0000004"]
      ide_block_read [OF demo_drive_ok [of 1 4 of_nat 1], of ?r "0xF0000004"]
    by (simp add: none busy err)
qed

text \<open>
  Reading any range of bytes that the drive has (the range cut off at the size the driver claims)
  returns exactly those bytes of the disk, whatever sectors they span.
\<close>

theorem disk_read_all:
  assumes "ata_drive D drive fuel cap img" "drive_ready D drive cap" "good_history drive cap (port_trace s)"
    and "unat offset + min (unat n) (unat ide_size_in_bytes - unat offset) \<le> 512 * cap"
  shows "blockio_read_all (ide_block_io fuel D drive s) offset n =
    Inr (int (min (unat n) (unat ide_size_in_bytes - unat offset)),
      map img [unat offset ..< unat offset + min (unat n) (unat ide_size_in_bytes - unat offset)])"
proof -
  define u where "u = \<lparr>unit_fuel = fuel, unit_device = D, unit_drive = drive, unit_sectors = cap, unit_image = img, unit_state = s\<rparr>"
  have u: "unit_ok u" "unit_io u = ide_block_io fuel D drive s" "unit_image u = img" "unit_extent u = 512 * cap"
    using assms by (simp_all add: u_def unit_ok_def unit_io_def unit_extent_def)
  have sz: "size_in_bytes (ide_block_io fuel D drive s) = ide_size_in_bytes"
    by (simp add: ide_block_io_def)
  have "offset \<le> ide_size_in_bytes" by (simp add: ide_size_in_bytes_def)
  then have "unat offset \<le> unat ide_size_in_bytes" by (simp only: word_le_nat_alt)
  then show ?thesis
    using ide_disk.read_all_content [OF u(1), of offset n] assms(4) by (simp only: u(2-4) sz)
qed

theorem disk_read_all_witness:
  "blockio_read_all (ide_block_io 1 (demo_drive 2 of_nat) 0 \<lparr>port_trace = [], nRead = 0\<rparr>) 510 4 =
    Inr (4, [254, 255, 0, 1])"
  using disk_read_all [OF demo_drive_ok demo_drive_ready, of 1 0 2 "\<lparr>port_trace = [], nRead = 0\<rparr>" 510 4 of_nat]
  by (simp add: ide_size_nat upt_rec)

end
