(* ===== verification/Ext2.thy ===== *)
theory Ext2
  imports Ide
begin

text \<open>
  The read-only file system (\<open>kernel/ext2.h\<close>, \<open>kernel/ext2.cc\<close>): the on-disk structures, an i-node as
  a block device over the drive, directories, symbolic links, mounting, and path lookup. Names and
  paths are C strings: byte lists with their terminating zero. Allocation of the temporary buffers
  is assumed to succeed. The scan of a directory takes a bound on the number of its records, because
  a record length of zero on the disk makes it endless.
\<close>

declare rbind_cong [fundef_cong]

section \<open>On-disk structures\<close>

record super_block =
  sb_inodes_count :: u32
  sb_blocks_count :: u32
  sb_reserved_blocks_count :: u32
  sb_free_blocks_count :: u32
  sb_free_inodes_count :: u32
  sb_first_data_block :: u32
  sb_log_block_size :: u32
  sb_log_frag_size :: u32
  sb_blocks_per_group :: u32
  sb_frags_per_group :: u32
  sb_inodes_per_group :: u32
  sb_magic :: u16
  sb_first_inode :: u32
  sb_inode_size :: u16

definition sizeof_super_block :: u32 where
  "sizeof_super_block = 140"

definition decode_super_block :: "u8 list \<Rightarrow> super_block" where
  "decode_super_block b =
     \<lparr>sb_inodes_count = get32 b 0, sb_blocks_count = get32 b 4, sb_reserved_blocks_count = get32 b 8,
      sb_free_blocks_count = get32 b 12, sb_free_inodes_count = get32 b 16, sb_first_data_block = get32 b 20,
      sb_log_block_size = get32 b 24, sb_log_frag_size = get32 b 28, sb_blocks_per_group = get32 b 32,
      sb_frags_per_group = get32 b 36, sb_inodes_per_group = get32 b 40, sb_magic = get16 b 56,
      sb_first_inode = get32 b 84, sb_inode_size = get16 b 88\<rparr>"

record block_group =
  bg_block_bitmap :: u32
  bg_inode_bitmap :: u32
  bg_inode_table :: u32
  bg_free_blocks_count :: u16
  bg_free_inodes_count :: u16
  bg_used_dirs_count :: u16

definition sizeof_block_group :: u32 where
  "sizeof_block_group = 32"

definition decode_block_group :: "u8 list \<Rightarrow> block_group" where
  "decode_block_group b =
     \<lparr>bg_block_bitmap = get32 b 0, bg_inode_bitmap = get32 b 4, bg_inode_table = get32 b 8,
      bg_free_blocks_count = get16 b 12, bg_free_inodes_count = get16 b 14, bg_used_dirs_count = get16 b 16\<rparr>"

text \<open>\<open>block_refs\<close> are the consecutive words \<open>direct0\<close> to \<open>direct11\<close> and \<open>indirect_1\<close> to \<open>indirect_3\<close>.\<close>

record node_data =
  nd_mode :: u16
  nd_uid :: u16
  nd_size_low :: u32
  nd_gid :: u16
  nd_n_links :: u16
  nd_n_sectors :: u32
  nd_flags :: u32
  nd_block_refs :: "u32 list"

definition sizeof_node_data :: u32 where
  "sizeof_node_data = 128"

definition decode_node_data :: "u8 list \<Rightarrow> node_data" where
  "decode_node_data b =
     \<lparr>nd_mode = get16 b 0, nd_uid = get16 b 2, nd_size_low = get32 b 4, nd_gid = get16 b 24,
      nd_n_links = get16 b 26, nd_n_sectors = get32 b 28, nd_flags = get32 b 32,
      nd_block_refs = map (\<lambda>i. get32 b (40 + 4 * i)) [0..<15]\<rparr>"

definition get_type :: "node_data \<Rightarrow> u16" where
  "get_type nd = drop_bit 12 (nd_mode nd)"

definition is_dir :: "node_data \<Rightarrow> bool" where
  "is_dir nd \<longleftrightarrow> get_type nd = 4"

definition is_file :: "node_data \<Rightarrow> bool" where
  "is_file nd \<longleftrightarrow> get_type nd = 8"

definition is_symlink :: "node_data \<Rightarrow> bool" where
  "is_symlink nd \<longleftrightarrow> get_type nd = 0xa"

section \<open>I-nodes as block devices\<close>

record ext2_node =
  node_ide :: block_io
  node_number :: u32
  node_block_size :: u32
  node_data :: node_data

definition node_read_block :: "ext2_node \<Rightarrow> u32 \<Rightarrow> u8 list res" where
  "node_read_block node index =
     (let bs = node_block_size node; nd = node_data node in
      if bs div 512 = 0 then Inl DivideError
      else rbind (ASSERT (index < nd_n_sectors nd div (bs div 512))) (\<lambda>_.
        let refs_per_block = bs div 4 in
        rbind
          (if index < 12 then Inr (nd_block_refs nd ! unat index)
           else if index < 12 + refs_per_block then
             rbind (blockio_read_object (node_ide node) (nd_block_refs nd ! 12 * bs + (index - 12) * 4) 4)
               (\<lambda>b. Inr (get32 b 0))
           else Inl (Panic ''index = %d''))
        (\<lambda>block_index.
        rbind (blockio_read_all (node_ide node) (block_index * bs) bs) (\<lambda>(cnt, bytes).
        rbind (ASSERT (cnt = uint bs)) (\<lambda>_. Inr bytes)))))"

definition node_io :: "ext2_node \<Rightarrow> block_io" where
  "node_io node =
     \<lparr>block_size = node_block_size node, size_in_bytes = nd_size_low (node_data node),
      read_block = node_read_block node\<rparr>"

definition get_symbol :: "ext2_node \<Rightarrow> u8 list res" where
  "get_symbol node =
     rbind (ASSERT (is_symlink (node_data node))) (\<lambda>_.
     let sz = nd_size_low (node_data node) in
     if sz \<le> 60 then Inr (take (unat sz) (concat (map put32 (nd_block_refs (node_data node)))))
     else rbind (blockio_read_all (node_io node) 0 sz) (\<lambda>(cnt, bytes).
       rbind (ASSERT (cnt = uint sz)) (\<lambda>_. Inr bytes)))"

section \<open>Directories\<close>

text \<open>The calls that \<open>entries\<close> makes to its argument, in order: i-number and zero-terminated name.\<close>

fun entries_loop :: "nat \<Rightarrow> ext2_node \<Rightarrow> u32 \<Rightarrow> (u32 \<times> u8 list) list res" where
  "entries_loop fuel node offset =
     (if \<not> offset < nd_size_low (node_data node) then Inr []
      else case fuel of 0 \<Rightarrow> Inl OutOfFuel
      | Suc fuel' \<Rightarrow>
        rbind (blockio_read_object (node_io node) offset 4) (\<lambda>b.
        let inode = get32 b 0 in
        rbind (blockio_read_object (node_io node) (offset + 4) 2) (\<lambda>b.
        let total_size = get16 b 0 in
        rbind (blockio_read_object (node_io node) (offset + 6) 1) (\<lambda>b.
        let name_length = b ! 0 in
        rbind (blockio_read_all (node_io node) (offset + 8) (ucast name_length)) (\<lambda>(cnt, name).
        rbind (ASSERT (cnt = uint name_length)) (\<lambda>_.
        rbind (entries_loop fuel' node (offset + ucast total_size)) (\<lambda>rest.
        Inr ((inode, name @ [0]) # rest))))))))"

declare entries_loop.simps [simp del]

definition entries :: "nat \<Rightarrow> ext2_node \<Rightarrow> (u32 \<times> u8 list) list res" where
  "entries fuel node =
     rbind (ASSERT (is_dir (node_data node))) (\<lambda>_. entries_loop fuel node 0)"

fun streq :: "u8 list \<Rightarrow> u8 list \<Rightarrow> bool res" where
  "streq (x # xs) (y # ys) =
     (if x \<noteq> y then Inr False else if x = 0 then Inr True else streq xs ys)"
| "streq xs ys = Inl OutOfBounds"

fun find_entry :: "u8 list \<Rightarrow> (u32 \<times> u8 list) list \<Rightarrow> u32 \<Rightarrow> u32 res" where
  "find_entry name [] out = Inr out"
| "find_entry name ((number, nm) # es) out =
     rbind (streq name nm) (\<lambda>eq. find_entry name es (if eq then number else out))"

definition node_find :: "nat \<Rightarrow> ext2_node \<Rightarrow> u8 list \<Rightarrow> u32 res" where
  "node_find fuel node name = rbind (entries fuel node) (\<lambda>es. find_entry name es 0)"

definition entry_count :: "nat \<Rightarrow> ext2_node \<Rightarrow> u32 res" where
  "entry_count fuel node =
     rbind (ASSERT (is_dir (node_data node))) (\<lambda>_.
     rbind (entries fuel node) (\<lambda>es. Inr (foldl (\<lambda>count e. count + 1) 0 es)))"

section \<open>The file system\<close>

record ext2 =
  fs_ide :: block_io
  fs_blockSize :: u32
  fs_numberOfNodes :: u32
  fs_numberOfBlocks :: u32
  fs_iNodeSize :: u32
  fs_nGroups :: u32
  fs_iNodeTables :: "u32 list"
  fs_iNodesPerGroup :: u32

definition get_node :: "ext2 \<Rightarrow> u32 \<Rightarrow> ext2_node res" where
  "get_node fs number =
     rbind (ASSERT (0 < number)) (\<lambda>_.
     rbind (ASSERT (number \<le> fs_numberOfNodes fs)) (\<lambda>_.
     let index = number - 1 in
     if fs_iNodesPerGroup fs = 0 then Inl DivideError else
     let groupIndex = index div fs_iNodesPerGroup fs in
     rbind (ASSERT (groupIndex < fs_nGroups fs)) (\<lambda>_.
     let indexInGroup = index mod fs_iNodesPerGroup fs; iTableBase = fs_iNodeTables fs ! unat groupIndex in
     rbind (ASSERT (iTableBase \<le> fs_numberOfBlocks fs)) (\<lambda>_.
     let nodeOffset = iTableBase * fs_blockSize fs + indexInGroup * fs_iNodeSize fs in
     rbind (blockio_read_object (fs_ide fs) nodeOffset sizeof_node_data) (\<lambda>b.
     Inr \<lparr>node_ide = fs_ide fs, node_number = number, node_block_size = fs_blockSize fs,
       node_data = decode_node_data b\<rparr>)))))"

text \<open>The constructor; the second component is the member \<open>root\<close>.\<close>

definition mount :: "block_io \<Rightarrow> (ext2 \<times> ext2_node) res" where
  "mount ide =
     rbind (blockio_read_object ide 1024 sizeof_super_block) (\<lambda>b.
     let sb = decode_super_block b in
     if 32 \<le> sb_log_block_size sb + 10 then Inl Undefined else
     let blockSize = push_bit (unat (sb_log_block_size sb + 10)) 1 in
     if sb_blocks_per_group sb = 0 then Inl DivideError else
     let nGroups = (sb_blocks_count sb + sb_blocks_per_group sb - 1) div sb_blocks_per_group sb in
     rbind (ASSERT (sb_blocks_count sb \<le> nGroups * sb_blocks_per_group sb)) (\<lambda>_.
     let superBlockNumber = 1024 div blockSize; groupTableNumber = superBlockNumber + 1;
         groupTableSize = sizeof_block_group * nGroups in
     rbind (blockio_read_all ide (groupTableNumber * blockSize) groupTableSize) (\<lambda>(cnt, groupTable).
     rbind (ASSERT (cnt = uint groupTableSize)) (\<lambda>_.
     let iNodeTables = map (\<lambda>i. bg_inode_table (decode_block_group (drop (32 * i) groupTable))) [0..<unat nGroups];
         fs = \<lparr>fs_ide = ide, fs_blockSize = blockSize, fs_numberOfNodes = sb_inodes_count sb,
           fs_numberOfBlocks = sb_blocks_count sb, fs_iNodeSize = ucast (sb_inode_size sb), fs_nGroups = nGroups,
           fs_iNodeTables = iNodeTables, fs_iNodesPerGroup = sb_inodes_per_group sb\<rparr> in
     rbind (get_node fs 2) (\<lambda>root. Inr (fs, root))))))"

section \<open>Paths\<close>

fun skip_slashes :: "u8 list \<Rightarrow> u8 list" where
  "skip_slashes [] = []"
| "skip_slashes (c # cs) = (if c = 47 then skip_slashes cs else c # cs)"

text \<open>The inner loop of \<open>Ext2::find\<close>, with \<open>i\<close> characters already in the buffer \<open>part\<close>.\<close>

fun take_part :: "nat \<Rightarrow> u8 list \<Rightarrow> (u8 list \<times> u8 list) res" where
  "take_part i [] = Inl OutOfBounds"
| "take_part i (c # cs) =
     (if c = 0 \<or> c = 47 then Inr ([], c # cs)
      else rbind (ASSERT (i < 256)) (\<lambda>_.
        rbind (take_part (i + 1) cs) (\<lambda>(part, rest). Inr (c # part, rest))))"

lemma length_skip_slashes: "length (skip_slashes cs) \<le> length cs"
  by (induction cs) auto

lemma take_part_split: "take_part i cs = Inr (part, rest) \<Longrightarrow> cs = part @ rest"
  by (induction i cs arbitrary: part rest rule: take_part.induct)
    (auto simp: rbind_Inr_conv split: if_splits)

lemma skip_slashes_Cons: "skip_slashes path = c # cs \<Longrightarrow> c \<noteq> 47 \<and> length (c # cs) \<le> length path"
proof (induction path)
  case (Cons a path)
  then show ?case by (cases "a = 47") auto
qed simp

lemma take_part_progress:
  "take_part i (c # cs) = Inr (part, rest) \<Longrightarrow> c \<noteq> 0 \<Longrightarrow> c \<noteq> 47 \<Longrightarrow> length rest < length (c # cs)"
  using take_part_split [of i "c # cs" part rest]
  by (auto simp: rbind_Inr_conv dest: arg_cong [where f = length])

function ext2_find :: "nat \<Rightarrow> ext2 \<Rightarrow> ext2_node option \<Rightarrow> u8 list \<Rightarrow> ext2_node option res" where
  "ext2_find fuel fs current path =
     (case skip_slashes path of
        [] \<Rightarrow> Inl OutOfBounds
      | c # cs \<Rightarrow>
         (case current of
            None \<Rightarrow> Inr None
          | Some node \<Rightarrow>
             if c = 0 then Inr (Some node)
             else rbind (take_part 0 (c # cs)) (\<lambda>(part, rest).
               rbind (node_find fuel node (part @ [0])) (\<lambda>number.
               if number = 0 then Inr None
               else rbind (get_node fs number) (\<lambda>next. ext2_find fuel fs (Some next) rest)))))"
  by pat_completeness auto
termination
proof (relation "measure (\<lambda>(fuel, fs, current, path). length path)", goal_cases)
  case 1
  show ?case by simp
next
  case (2 fuel fs current path c cs node p part rest number nxt)
  then have "length rest < length (c # cs)" "length (c # cs) \<le> length path"
    using skip_slashes_Cons [of path c cs] take_part_progress [of 0 c cs part rest] by auto
  then show ?case by simp
qed

declare ext2_find.simps [simp del]

section \<open>File contents\<close>

text \<open>The blocks of a file through its block references, over a drive that serves \<open>img\<close>.\<close>

definition node_block_index :: "(nat \<Rightarrow> u8) \<Rightarrow> ext2_node \<Rightarrow> nat \<Rightarrow> u32" where
  "node_block_index img node k =
     (if k < 12 then nd_block_refs (node_data node) ! k
      else get32 (map (img \<circ> (+) (unat (nd_block_refs (node_data node) ! 12) * unat (node_block_size node) + 4 * (k - 12)))
        [0..<4]) 0)"

definition node_content :: "(nat \<Rightarrow> u8) \<times> ext2_node \<Rightarrow> nat \<Rightarrow> u8" where
  "node_content p i =
     fst p (unat (node_block_index (fst p) (snd p) (i div unat (node_block_size (snd p)))) * unat (node_block_size (snd p))
       + i mod unat (node_block_size (snd p)))"

text \<open>Every block of the file is counted by \<open>n_sectors\<close>, reached by the direct references or the first
  indirect block, and lies on the drive, of which \<open>ext\<close> bytes exist.\<close>

definition node_layout :: "nat \<Rightarrow> (nat \<Rightarrow> u8) \<Rightarrow> ext2_node \<Rightarrow> bool" where
  "node_layout ext img node \<longleftrightarrow>
     (let bs = unat (node_block_size node); drive = min ext (unat (size_in_bytes (node_ide node))) in
      512 \<le> bs \<and> bs < 2 ^ 31 \<and>
      (\<forall>k. k * bs < unat (nd_size_low (node_data node)) \<longrightarrow>
         k < unat (nd_n_sectors (node_data node)) div (bs div 512) \<and> k < 12 + bs div 4 \<and>
         (12 \<le> k \<longrightarrow> unat (nd_block_refs (node_data node) ! 12) * bs + 4 * (k - 12) + 4 \<le> drive) \<and>
         unat (node_block_index img node k) * bs + bs \<le> drive))"

definition node_ok :: "(nat \<Rightarrow> u8) \<times> ext2_node \<Rightarrow> bool" where
  "node_ok p \<longleftrightarrow> (\<exists>ext. serves (node_ide (snd p), ext, fst p) \<and> node_layout ext (fst p) (snd p))"

lemma node_okI: "serves (node_ide node, ext, img) \<Longrightarrow> node_layout ext img node \<Longrightarrow> node_ok (img, node)"
  by (auto simp: node_ok_def)

lemma u32_mult: "unat a * unat b < 2 ^ 32 \<Longrightarrow> unat (a * b :: u32) = unat a * unat b"
  by (simp add: unat_word_ariths)

lemma node_read_block_content:
  assumes ok: "node_ok (img, node)" and b: "unat b * unat (node_block_size node) < unat (nd_size_low (node_data node))"
  shows "node_read_block node b = Inr (map (node_content (img, node))
    [unat b * unat (node_block_size node) ..< unat b * unat (node_block_size node) + unat (node_block_size node)])"
proof -
  define bs where "bs = node_block_size node"
  define B where "B = unat bs"
  obtain ext where node: "serves (node_ide node, ext, img)" "node_layout ext img node"
    using ok by (auto simp: node_ok_def)
  let ?drive = "min ext (unat (size_in_bytes (node_ide node)))" and ?nd = "node_data node"
  have srv: "serves (node_ide node, ext, img)" and B: "512 \<le> B" "B < 2 ^ 31"
    and k: "unat b < unat (nd_n_sectors ?nd) div (B div 512)" "unat b < 12 + B div 4"
      "12 \<le> unat b \<Longrightarrow> unat (nd_block_refs ?nd ! 12) * B + 4 * (unat b - 12) + 4 \<le> ?drive"
      "unat (node_block_index img node (unat b)) * B + B \<le> ?drive"
    using node b unfolding node_layout_def Let_def B_def bs_def by auto
  have D: "unat (size_in_bytes (node_ide node)) < 2 ^ 32" by (rule u32_unat)
  have d512: "unat (bs div 512) = B div 512" "unat (bs div 4) = B div 4" by (simp_all add: B_def unat_div)
  have nz: "bs div 512 \<noteq> 0" using d512(1) B(1) by (metis div_greater_zero_iff less_numeral_extra(3) unsigned_0 zero_less_numeral)
  have A: "b < nd_n_sectors ?nd div (bs div 512)"
    using k(1) by (simp add: word_less_nat_alt unat_div flip: B_def)
  have refs: "unat (12 + bs div 4) = 12 + B div 4"
    using B(2) by (subst unat_add_bounded) (simp_all add: d512)
  have idx: "(if b < 12 then Inr (nd_block_refs ?nd ! unat b)
      else if b < 12 + bs div 4 then
        rbind (blockio_read_object (node_ide node) (nd_block_refs ?nd ! 12 * bs + (b - 12) * 4) 4) (\<lambda>x. Inr (get32 x 0))
      else Inl (Panic ''index = %d'')) = Inr (node_block_index img node (unat b))"
  proof (cases "b < 12")
    case True
    then show ?thesis by (simp add: node_block_index_def word_less_nat_alt)
  next
    case False
    then have ge: "12 \<le> unat b" by (simp add: word_less_nat_alt)
    note in_drive = k(3) [OF ge]
    let ?m = "nd_block_refs ?nd ! 12"
    have u1: "unat (?m * bs) = unat ?m * B"
      using in_drive D unfolding B_def by (intro u32_mult) simp
    have u2: "unat (b - 12) = unat b - 12"
      using ge by (simp add: unat_sub word_le_nat_alt)
    have u3: "unat ((b - 12) * 4) = 4 * (unat b - 12)"
      using in_drive D u2 by (subst u32_mult) simp_all
    have u4: "unat (?m * bs + (b - 12) * 4) = unat ?m * B + 4 * (unat b - 12)"
      using in_drive D u1 u3 by (subst unat_add_bounded) simp_all
    have "b < 12 + bs div 4" using k(2) refs by (simp add: word_less_nat_alt)
    moreover have "blockio_read_object (node_ide node) (?m * bs + (b - 12) * 4) 4 =
        Inr (map img [unat ?m * B + 4 * (unat b - 12) ..< unat ?m * B + 4 * (unat b - 12) + 4])"
      using served.read_object_content [of "(node_ide node, ext, img)" "?m * bs + (b - 12) * 4" 4] srv in_drive u4 by simp
    ultimately show ?thesis
      using False ge by (simp add: node_block_index_def B_def bs_def upt_rec)
  qed
  let ?i = "node_block_index img node (unat b)"
  have u5: "unat (?i * bs) = unat ?i * B"
    using k(4) D B(1) unfolding B_def by (intro u32_mult) simp
  have rd: "blockio_read_all (node_ide node) (?i * bs) bs =
      Inr (int B, map img [unat ?i * B ..< unat ?i * B + B])"
  proof -
    have "min B (unat (size_in_bytes (node_ide node)) - unat ?i * B) = B"
      using k(4) by (intro min_absorb1 add_le_imp_le_diff) (simp add: add.commute)
    then show ?thesis
      using served.read_all_content [of "(node_ide node, ext, img)" "?i * bs" bs] srv k(4) u5
      by (simp add: B_def [symmetric])
  qed
  have cont: "map (node_content (img, node)) [unat b * B ..< unat b * B + B] = map img [unat ?i * B ..< unat ?i * B + B]"
    using B(1) by (intro nth_equalityI) (auto simp: node_content_def B_def [symmetric] bs_def [symmetric])
  have "int B = uint bs" by (simp add: B_def)
  then show ?thesis
    unfolding node_read_block_def Let_def bs_def [symmetric] B_def [symmetric] cont
    by (simp only: nz if_False A idx rd rbind_simps ASSERT_simps prod.case simp_thms \<open>int B = uint bs\<close>)
qed

interpretation inode: block_device "node_io \<circ> snd" node_ok "\<lambda>p. unat (nd_size_low (node_data (snd p)))" node_content
proof unfold_locales
  fix p :: "(nat \<Rightarrow> u8) \<times> ext2_node" and b :: u32
  assume ok: "node_ok p"
  then show "0 < unat (block_size ((node_io \<circ> snd) p))"
    by (auto simp: node_ok_def node_layout_def Let_def node_io_def)
  assume "unat b * unat (block_size ((node_io \<circ> snd) p)) < unat (size_in_bytes ((node_io \<circ> snd) p))"
  then show "read_block ((node_io \<circ> snd) p) b = Inr (map (node_content p)
      [unat b * unat (block_size ((node_io \<circ> snd) p)) ..<
       unat b * unat (block_size ((node_io \<circ> snd) p)) + unat (block_size ((node_io \<circ> snd) p))])"
    using node_read_block_content [of "fst p" "snd p" b] ok by (simp add: node_io_def)
qed

lemma node_io_simps [simp]:
  "block_size (node_io node) = node_block_size node"
  "size_in_bytes (node_io node) = nd_size_low (node_data node)"
  by (simp_all add: node_io_def)

section \<open>Directory contents\<close>

text \<open>What a directory holds: i-number, name, file type, and the padding up to the next record.\<close>

record dir_record =
  dr_inode :: u32
  dr_name :: "u8 list"
  dr_type :: u8
  dr_pad :: "u8 list"

definition dr_size :: "dir_record \<Rightarrow> nat" where
  "dr_size r = 8 + length (dr_name r) + length (dr_pad r)"

definition dr_valid :: "dir_record \<Rightarrow> bool" where
  "dr_valid r \<longleftrightarrow> 0 \<notin> set (dr_name r) \<and> length (dr_name r) < 256 \<and> dr_size r < 2 ^ 16"

definition encode_record :: "dir_record \<Rightarrow> u8 list" where
  "encode_record r = put32 (dr_inode r) @ put16 (of_nat (dr_size r)) @ [of_nat (length (dr_name r)), dr_type r] @
     dr_name r @ dr_pad r"

definition encode_dir :: "dir_record list \<Rightarrow> u8 list" where
  "encode_dir rs = concat (map encode_record rs)"

text \<open>The last record of the name counts; 0 stands for none.\<close>

definition dir_lookup :: "dir_record list \<Rightarrow> u8 list \<Rightarrow> u32" where
  "dir_lookup rs name =
     (case filter (\<lambda>r. dr_name r = name) rs of [] \<Rightarrow> 0 | ms \<Rightarrow> dr_inode (last ms))"

lemma length_encode_record [simp]: "length (encode_record r) = dr_size r"
  by (simp add: encode_record_def dr_size_def)

lemma slice:
  assumes "map c [o1 ..< s] = xs @ ys" "i + n \<le> length xs"
  shows "map c [o1 + i ..< o1 + i + n] = take n (drop i xs)"
proof -
  have len: "length xs \<le> s - o1"
    using arg_cong [OF assms(1), of length] by simp
  have "take n (drop i (map c [o1 ..< s])) = take n (drop i xs)"
    using assms by simp
  moreover have "take n (drop i (map c [o1 ..< s])) = map c [o1 + i ..< o1 + i + n]"
  proof (cases "n = 0")
    case False
    then have "o1 + i + n \<le> s" using assms(2) len by linarith
    then show ?thesis by (simp add: drop_map take_map take_upt)
  qed simp
  ultimately show ?thesis by simp
qed

lemma record_reads:
  assumes ok: "node_ok p" and dev: "node_io (snd p) = d" and size: "nd_size_low (node_data (snd p)) = S"
    and c: "map (node_content p) [unat off ..< unat S] = encode_record r @ ys" and r: "dr_valid r"
  shows "blockio_read_object d off 4 = Inr (put32 (dr_inode r))"
    "blockio_read_object d (off + 4) 2 = Inr (put16 (of_nat (dr_size r)))"
    "blockio_read_object d (off + 6) 1 = Inr [of_nat (length (dr_name r))]"
    "blockio_read_all d (off + 8) (of_nat (length (dr_name r))) = Inr (int (length (dr_name r)), dr_name r)"
    "unat (off + of_nat (dr_size r)) = unat off + dr_size r" "unat off + dr_size r \<le> unat S"
proof -
  have len: "unat off + dr_size r \<le> unat S"
    using arg_cong [OF c, of length] by (simp add: dr_size_def)
  then show "unat off + dr_size r \<le> unat S" .
  have S: "unat S < 2 ^ 32" by (rule u32_unat)
  have sz: "8 + length (dr_name r) \<le> dr_size r" "dr_size r < 2 ^ 16" "length (dr_name r) < 256"
    using r by (auto simp: dr_valid_def dr_size_def)
  have us: "unat (of_nat (dr_size r) :: u32) = dr_size r" using sz by (simp add: unat_of_nat take_bit_nat_eq_self)
  have ul: "unat (of_nat (length (dr_name r)) :: u32) = length (dr_name r)"
    using sz by (simp add: unat_of_nat take_bit_nat_eq_self)
  show "unat (off + of_nat (dr_size r)) = unat off + dr_size r"
    using len S us by (subst unat_add_bounded) simp_all
  have o: "unat (off + 4) = unat off + 4" "unat (off + 6) = unat off + 6" "unat (off + 8) = unat off + 8"
    using len S sz by (simp_all add: unat_add_bounded)
  note obj = inode.read_object_content [of p, unfolded comp_def dev size, OF ok]
  have sd: "size_in_bytes d = S" using dev size by (simp flip: dev)
  show "blockio_read_object d off 4 = Inr (put32 (dr_inode r))"
    using obj [of off 4] slice [OF c, of 0 4] len sz sd by (simp add: encode_record_def)
  show "blockio_read_object d (off + 4) 2 = Inr (put16 (of_nat (dr_size r)))"
    using obj [of "off + 4" 2] slice [OF c, of 4 2] len sz sd o by (simp add: encode_record_def)
  show "blockio_read_object d (off + 6) 1 = Inr [of_nat (length (dr_name r))]"
    using obj [of "off + 6" 1] slice [OF c, of 6 1] len sz sd o by (simp add: encode_record_def)
  have "min (length (dr_name r)) (unat S - (unat off + 8)) = length (dr_name r)"
    using len sz by simp
  then show "blockio_read_all d (off + 8) (of_nat (length (dr_name r))) = Inr (int (length (dr_name r)), dr_name r)"
    using inode.read_all_content [of p "off + 8" "of_nat (length (dr_name r))", unfolded comp_def dev size, OF ok]
      slice [OF c, of 8 "length (dr_name r)"] len sz sd o ul by (simp add: encode_record_def)
qed

end
