(* ===== verification/File_System.thy ===== *)
theory File_System
  imports Ext2
begin

text \<open>
  What the file system of \<open>Ext2\<close> promises: file contents end to end, from the drive's image to the bytes
  a read returns; directory scans against the list of records a directory holds; path lookup against
  the walk over the path's components.
\<close>

section \<open>Directory scans\<close>

lemma ucast_small:
  "n < 256 \<Longrightarrow> (ucast (of_nat n :: u8) :: u32) = of_nat n"
  "n < 256 \<Longrightarrow> uint (of_nat n :: u8) = int n"
  "n < 2 ^ 16 \<Longrightarrow> (ucast (of_nat n :: u16) :: u32) = of_nat n"
  by (simp_all add: unsigned_of_nat take_bit_nat_eq_self uint_word_of_int take_bit_int_eq_self)

definition dir_calls :: "dir_record list \<Rightarrow> (u32 \<times> u8 list) list" where
  "dir_calls rs = map (\<lambda>r. (dr_inode r, dr_name r @ [0])) rs"

lemma entries_loop_records:
  assumes ok: "node_ok (img, node)" and sz: "nd_size_low (node_data node) = S"
  shows "map (node_content (img, node)) [unat off ..< unat S] = encode_dir rs \<Longrightarrow>
    \<forall>r \<in> set rs. dr_valid r \<Longrightarrow> length rs \<le> fuel \<Longrightarrow> unat off \<le> unat S \<Longrightarrow>
    entries_loop fuel node off = Inr (dir_calls rs)"
proof (induction rs arbitrary: off fuel)
  case Nil
  then have "unat S \<le> unat off" by (auto simp: encode_dir_def)
  then show ?case
    by (subst entries_loop.simps) (simp add: sz dir_calls_def word_less_nat_alt)
next
  case (Cons r rs)
  define d where "d = node_io node"
  have c: "map (node_content (img, node)) [unat off ..< unat S] = encode_record r @ encode_dir rs"
    using Cons.prems(1) by (simp add: encode_dir_def)
  have r: "dr_valid r" using Cons.prems(2) by simp
  note reads = record_reads [OF ok _ _ c r, simplified snd_conv, OF d_def [symmetric] sz]
  have small: "length (dr_name r) < 256" "dr_size r < 65536" "0 < dr_size r"
    using r by (auto simp: dr_valid_def dr_size_def)
  have lt: "off < S" using reads(6) small(3) by (simp add: word_less_nat_alt)
  obtain fuel' where fuel: "fuel = Suc fuel'" "length rs \<le> fuel'"
    using Cons.prems(3) by (cases fuel) auto
  let ?off = "off + of_nat (dr_size r)"
  have "map (node_content (img, node)) [unat ?off ..< unat S] = encode_dir rs"
    using arg_cong [OF c, of "drop (dr_size r)"] reads(5) by (simp add: drop_map)
  then have "entries_loop fuel' node ?off = Inr (dir_calls rs)"
    using Cons.IH [of ?off fuel'] Cons.prems(2) fuel(2) reads(5,6) by simp
  then show ?case
    unfolding dir_calls_def
    by (subst entries_loop.simps)
      (simp add: sz lt fuel d_def [symmetric] reads(1-4) get32_put32 get16_put16 ucast_small small)
qed

lemma streq_eq: "0 \<notin> set a \<Longrightarrow> 0 \<notin> set b \<Longrightarrow> streq (a @ [0]) (b @ [0]) = Inr (a = b)"
proof (induction a arbitrary: b)
  case Nil
  then show ?case by (cases b) auto
next
  case (Cons x a)
  then show ?case by (cases b) auto
qed

lemma find_entry_lookup:
  assumes "0 \<notin> set name" "\<forall>r \<in> set rs. 0 \<notin> set (dr_name r)"
  shows "find_entry (name @ [0]) (dir_calls rs) out =
    Inr (case filter (\<lambda>r. dr_name r = name) rs of [] \<Rightarrow> out | ms \<Rightarrow> dr_inode (last ms))"
  using assms(2)
proof (induction rs arbitrary: out)
  case Nil
  then show ?case by (simp add: dir_calls_def)
next
  case (Cons r rs)
  then have "streq (name @ [0]) (dr_name r @ [0]) = Inr (name = dr_name r)"
    using assms(1) by (intro streq_eq) auto
  then show ?case
    using Cons by (auto simp: dir_calls_def split: list.split)
qed

lemma foldl_count: "foldl (\<lambda>count e. count + 1) (n :: u32) xs = n + of_nat (length xs)"
  by (induction xs arbitrary: n) (auto simp: add_ac)

text \<open>A directory node that holds a list of records, in the terms of the disk.\<close>

definition dir_holds :: "(nat \<Rightarrow> u8) \<Rightarrow> ext2_node \<Rightarrow> dir_record list \<Rightarrow> bool" where
  "dir_holds img node rs \<longleftrightarrow> node_ok (img, node) \<and> is_dir (node_data node) \<and> (\<forall>r \<in> set rs. dr_valid r) \<and>
     map (node_content (img, node)) [0 ..< unat (nd_size_low (node_data node))] = encode_dir rs"

lemma dir_entries: "dir_holds img node rs \<Longrightarrow> length rs \<le> fuel \<Longrightarrow> entries fuel node = Inr (dir_calls rs)"
  by (simp add: entries_def dir_holds_def entries_loop_records [OF _ refl, of img node 0, simplified])

lemma dir_find:
  assumes "dir_holds img node rs" "length rs \<le> fuel" "0 \<notin> set name"
  shows "node_find fuel node (name @ [0]) = Inr (dir_lookup rs name)"
  using find_entry_lookup [OF assms(3), of rs 0] dir_entries [OF assms(1,2)] assms(1)
  by (simp add: node_find_def dir_lookup_def dir_holds_def dr_valid_def)

section \<open>Paths\<close>

text \<open>The components of a path: the maximal runs of characters other than the slash.\<close>

function components :: "u8 list \<Rightarrow> u8 list list" where
  "components [] = []"
| "components (c # cs) =
     (if c = 47 then components cs
      else takeWhile (\<lambda>x. x \<noteq> 47) (c # cs) # components (dropWhile (\<lambda>x. x \<noteq> 47) cs))"
  by pat_completeness auto
termination
  by (relation "measure length") (auto simp: less_Suc_eq_le length_dropWhile_le)

text \<open>The reference lookup: one directory search per component.\<close>

fun walk_path :: "nat \<Rightarrow> ext2 \<Rightarrow> ext2_node option \<Rightarrow> u8 list list \<Rightarrow> ext2_node option res" where
  "walk_path fuel fs current [] = Inr current"
| "walk_path fuel fs None (part # parts) = Inr None"
| "walk_path fuel fs (Some node) (part # parts) =
     rbind (ASSERT (length part \<le> 256)) (\<lambda>_.
     rbind (node_find fuel node (part @ [0])) (\<lambda>number.
     if number = 0 then Inr None
     else rbind (get_node fs number) (\<lambda>next. walk_path fuel fs (Some next) parts)))"

lemma take_part_eq:
  "0 \<notin> set p \<Longrightarrow> i \<le> 256 \<Longrightarrow> take_part i (p @ [0]) =
    rbind (ASSERT (i + length (takeWhile (\<lambda>x. x \<noteq> 47) p) \<le> 256)) (\<lambda>_.
      Inr (takeWhile (\<lambda>x. x \<noteq> 47) p, dropWhile (\<lambda>x. x \<noteq> 47) p @ [0]))"
proof (induction p arbitrary: i)
  case (Cons c p)
  show ?case
  proof (cases "c = 47 \<or> i = 256")
    case True
    then show ?thesis using Cons.prems by auto
  next
    case False
    then show ?thesis using Cons.prems Cons.IH [of "i + 1"] by (cases "i + 1 + length (takeWhile (\<lambda>x. x \<noteq> 47) p) \<le> 256") auto
  qed
qed simp

lemma ext2_find_slash: "ext2_find fuel fs current (47 # path) = ext2_find fuel fs current path"
  by (simp add: ext2_find.simps [of fuel fs current "47 # path"] ext2_find.simps [of fuel fs current path])

lemma ext2_find_walk:
  "0 \<notin> set path \<Longrightarrow> ext2_find fuel fs current (path @ [0]) = walk_path fuel fs current (components path)"
proof (induction path arbitrary: current rule: components.induct)
  case 1
  then show ?case by (cases current) (simp_all add: ext2_find.simps)
next
  case (2 c cs)
  show ?case
  proof (cases "c = 47")
    case True
    then show ?thesis using 2 by (simp add: ext2_find_slash)
  next
    case slash: False
    have rest: "0 \<notin> set (dropWhile (\<lambda>x. x \<noteq> 47) cs)"
      using 2(3) by (auto dest: set_dropWhileD)
    note IH = 2(2) [OF slash rest]
    show ?thesis
    proof (cases current)
      case None
      then show ?thesis using 2(3) slash by (simp add: ext2_find.simps)
    next
      case (Some node)
      have "take_part 0 (c # cs @ [0]) =
        rbind (ASSERT (length (takeWhile (\<lambda>x. x \<noteq> 47) (c # cs)) \<le> 256)) (\<lambda>_.
          Inr (takeWhile (\<lambda>x. x \<noteq> 47) (c # cs), dropWhile (\<lambda>x. x \<noteq> 47) (c # cs) @ [0]))"
        using take_part_eq [of "c # cs" 0] 2(3) by simp
      then show ?thesis
        using 2(3) slash IH
        by (simp add: Some ext2_find.simps [of fuel fs "Some node" "c # cs @ [0]"] rbind_assoc cong: if_cong del: take_part.simps)
    qed
  qed
qed

section \<open>Faults that a path or a disk can cause\<close>

lemma walk_below_file:
  assumes "\<not> is_dir (node_data node)" "components path \<noteq> []"
  shows "walk_path fuel fs (Some node) (components path) = Inl (Panic ''assert'')"
  using assms by (cases "components path") (auto simp: ASSERT_def node_find_def entries_def)

text \<open>A record at the start of the directory whose length field is 0.\<close>

lemma zero_record_loops:
  assumes ok: "node_ok (img, node)" and size: "12 \<le> unat (nd_size_low (node_data node))"
    and c: "map (node_content (img, node)) [0 ..< 8] = put32 inode @ put16 0 @ [0, ftype]"
  shows "entries_loop fuel node 0 = Inl OutOfFuel"
proof (induction fuel)
  case 0
  then show ?case using size by (subst entries_loop.simps) (auto simp: word_less_nat_alt)
next
  case (Suc fuel)
  define d where "d = node_io node"
  note obj = inode.read_object_content [of "(img, node)", unfolded comp_def snd_conv d_def [symmetric], OF ok]
  have sz: "size_in_bytes d = nd_size_low (node_data node)" by (simp add: d_def)
  have c0: "map (node_content (img, node)) [0 ..< 8] = (put32 inode @ put16 0 @ [0, ftype]) @ []"
    using c by simp
  have "blockio_read_object d 0 4 = Inr (put32 inode)"
    using obj [of 0 4] slice [OF c0, of 0 4] size sz by simp
  moreover have "blockio_read_object d 4 2 = Inr (put16 0)"
    using obj [of 4 2] slice [OF c0, of 4 2] size sz by simp
  moreover have "blockio_read_object d 6 1 = Inr [0]"
    using obj [of 6 1] slice [OF c0, of 6 1] size sz by simp
  moreover have "blockio_read_all d 8 0 = Inr (0, [])"
    by (subst blockio_read_all.simps) simp
  moreover have "0 < nd_size_low (node_data node)"
    using size by (auto simp: word_less_nat_alt)
  ultimately show ?case
    using Suc by (subst entries_loop.simps) (simp add: d_def [symmetric] get16_put16)
qed

section \<open>A small disk\<close>

text \<open>A file system image whose node has the blocks 5, 3 and 9.\<close>

definition demo_node :: "block_io \<Rightarrow> u16 \<Rightarrow> u32 \<Rightarrow> ext2_node" where
  "demo_node ide mode sz =
     \<lparr>node_ide = ide, node_number = 12, node_block_size = 1024,
      node_data = \<lparr>nd_mode = mode, nd_uid = 0, nd_size_low = sz, nd_gid = 0, nd_n_links = 1, nd_n_sectors = 6,
        nd_flags = 0, nd_block_refs = [5, 3, 9, 0, 0, 0, 0, 0, 0, 0, 0, 0, 0, 0, 0]\<rparr>\<rparr>"

definition demo_ide :: "(nat \<Rightarrow> u8) \<Rightarrow> block_io" where
  "demo_ide img = ide_block_io 1 (demo_drive 64 img) 0 \<lparr>port_trace = [], nRead = 0\<rparr>"

lemma drive_serves:
  assumes "ata_drive D drive fuel cap img" "drive_ready D drive cap" "good_history drive cap (port_trace s)"
  shows "serves (ide_block_io fuel D drive s, 512 * cap, img)"
proof -
  define u where "u = \<lparr>unit_fuel = fuel, unit_device = D, unit_drive = drive, unit_sectors = cap, unit_image = img, unit_state = s\<rparr>"
  have u: "unit_ok u" "unit_io u = ide_block_io fuel D drive s" "unit_image u = img" "unit_extent u = 512 * cap"
    using assms by (simp_all add: u_def unit_ok_def unit_io_def unit_extent_def)
  show ?thesis
    using ide_disk.block_size_pos [OF u(1)] ide_disk.read_block_content [OF u(1)]
    by (simp add: serves_def u(2-4))
qed

lemma demo_serves: "serves (demo_ide img, 32768, img)"
  using drive_serves [OF demo_drive_ok demo_drive_ready, of 1 0 64 "\<lparr>port_trace = [], nRead = 0\<rparr>" img]
  by (simp add: demo_ide_def)

lemma demo_ide_size: "unat (size_in_bytes (demo_ide img)) = 4294967295"
  by (simp add: demo_ide_def ide_block_io_def ide_size_nat)

lemma demo_layout:
  assumes "unat sz \<le> 3072"
  shows "node_layout 32768 img (demo_node (demo_ide img') mode sz)"
proof -
  have small: "k = 0 \<or> k = 1 \<or> k = 2" if "k * 1024 < unat sz" for k :: nat
    using that assms by linarith
  let ?n = "demo_node (demo_ide img') mode sz"
  have blocks: "k < 3 \<and> k < 268 \<and> \<not> 12 \<le> k \<and> unat (node_block_index img ?n k) * 1024 + 1024 \<le> 32768"
    if "k * 1024 < unat sz" for k :: nat
    using small [OF that] by (auto simp: demo_node_def node_block_index_def)
  have parts: "node_ide ?n = demo_ide img'" "unat (node_block_size ?n) = 1024"
    "nd_size_low (node_data ?n) = sz" "unat (nd_n_sectors (node_data ?n)) div (1024 div 512) = 3"
    "min 32768 4294967295 = (32768 :: nat)"
    by (simp_all add: demo_node_def)
  show ?thesis
    unfolding node_layout_def Let_def parts demo_ide_size using blocks by simp
qed

lemma demo_ok: "unat sz \<le> 3072 \<Longrightarrow> node_ok (img, demo_node (demo_ide img) mode sz)"
  using demo_layout [of sz img img mode] demo_serves [of img]
  by (intro node_okI [of _ 32768]) (simp_all add: demo_node_def)

definition demo_dir :: "dir_record list" where
  "demo_dir =
     [\<lparr>dr_inode = 2, dr_name = [46], dr_type = 2, dr_pad = [0, 0, 0]\<rparr>,
      \<lparr>dr_inode = 17, dr_name = [97, 98], dr_type = 1, dr_pad = [0, 0]\<rparr>]"

definition demo_image :: "nat \<Rightarrow> u8" where
  "demo_image i = (if 5120 \<le> i \<and> i < 5144 then encode_dir demo_dir ! (i - 5120) else 0)"

lemma demo_dir_holds: "dir_holds demo_image (demo_node (demo_ide demo_image) 0x4000 24) demo_dir"
proof -
  let ?n = "demo_node (demo_ide demo_image) 0x4000 24"
  have len: "length (encode_dir demo_dir) = 24"
    by (simp add: encode_dir_def demo_dir_def dr_size_def)
  have "map (node_content (demo_image, ?n)) [0 ..< 24] = map ((!) (encode_dir demo_dir)) [0 ..< 24]"
    by (intro map_cong) (auto simp: node_content_def demo_node_def node_block_index_def demo_image_def)
  also have "\<dots> = encode_dir demo_dir"
    using map_nth [of "encode_dir demo_dir"] by (simp only: len)
  finally have "map (node_content (demo_image, ?n)) [0 ..< unat (nd_size_low (node_data ?n))] = encode_dir demo_dir"
    by (simp add: demo_node_def)
  moreover have "node_ok (demo_image, ?n)" by (rule demo_ok) simp
  moreover have "is_dir (node_data ?n)" by (simp add: demo_node_def is_dir_def get_type_def)
  moreover have "\<forall>r \<in> set demo_dir. dr_valid r" by (simp add: demo_dir_def dr_valid_def dr_size_def)
  ultimately show ?thesis by (simp add: dir_holds_def)
qed

section \<open>Properties\<close>

text \<open>
  C4. Reading a file from a drive that follows the ATA protocol (\<open>ata_drive\<close>) and, as long as it was only asked for
  sectors it has, keeps showing that it is ready and without error (\<open>drive_ready\<close>; otherwise the driver panics, as the
  property of \<open>read_block\<close> shows): any range of bytes inside the file comes back exactly as the drive holds it, block by
  block through the direct references and the first indirect block, cut off at the end of the file; an offset past the
  end is an error. The blocks of the file lie on the \<open>cap\<close> sectors that the drive has; the size the driver claims plays
  no part.
\<close>

theorem file_read:
  assumes "ata_drive D drive fuel cap img" "drive_ready D drive cap" "good_history drive cap (port_trace s)"
    and "node_ide node = ide_block_io fuel D drive s" "node_layout (512 * cap) img node"
    and "unat offset \<le> unat (nd_size_low (node_data node))" "nd_size_low (node_data node) < past" "n \<noteq> 0"
  shows "blockio_read_all (node_io node) offset n =
      Inr (int (min (unat n) (unat (nd_size_low (node_data node)) - unat offset)),
        map (node_content (img, node))
          [unat offset ..< unat offset + min (unat n) (unat (nd_size_low (node_data node)) - unat offset)]) \<and>
    blockio_read_all (node_io node) past n = Inr (-1, [])"
proof -
  have ok: "node_ok (img, node)"
    using drive_serves [OF assms(1-3)] assms(4,5) by (intro node_okI) simp_all
  show ?thesis
    using inode.read_all_content [OF ok, of offset n] inode.read_past_end [of "(img, node)" past n] assms(6-8) by simp
qed

theorem file_read_witness:
  "blockio_read_all (node_io (demo_node (demo_ide of_nat) 0x8000 2000)) 1022 4 =
      Inr (4, [254, 255, 0, 1]) \<and>
    blockio_read_all (node_io (demo_node (demo_ide of_nat) 0x8000 2000)) 2001 4 = Inr (-1, [])"
  using file_read [OF demo_drive_ok demo_drive_ready, where node = "demo_node (demo_ide of_nat) 0x8000 2000"
      and s = "\<lparr>port_trace = [], nRead = 0\<rparr>" and offset = 1022 and past = 2001 and n = 4 and fuel = 1
      and cap = 64 and img = of_nat and drive = 0] demo_layout [of 2000 of_nat of_nat "0x8000"]
  by (simp add: demo_node_def demo_ide_def node_content_def node_block_index_def upt_rec)

text \<open>
  C25. Searching a directory whose blocks hold a list of records, in the order of the disk, gives the
  i-number of the last record of that name, or 0 when no record has it; counting its entries gives
  their number.
\<close>

theorem directory_scan:
  assumes "dir_holds img node rs" "length rs \<le> fuel" "0 \<notin> set name"
  shows "node_find fuel node (name @ [0]) = Inr (dir_lookup rs name) \<and>
    entry_count fuel node = Inr (of_nat (length rs))"
  using dir_find [OF assms] dir_entries [OF assms(1,2)] assms(1) foldl_count [of 0 "dir_calls rs"]
  by (simp add: entry_count_def dir_holds_def dir_calls_def)

theorem directory_scan_witness:
  "node_find 2 (demo_node (demo_ide demo_image) 0x4000 24) [97, 98, 0] = Inr 17 \<and>
    entry_count 2 (demo_node (demo_ide demo_image) 0x4000 24) = Inr 2"
  using directory_scan [OF demo_dir_holds, of 2 "[97, 98]"]
  by (simp add: demo_dir_def dir_lookup_def)

text \<open>
  C5. Looking up a path is the walk over its components, one directory search for each: repeated,
  leading and trailing slashes make no difference, a missing component gives no node, and a component
  of more than 256 characters panics.
\<close>

theorem path_walk:
  assumes "0 \<notin> set path"
  shows "ext2_find fuel fs current (path @ [0]) = walk_path fuel fs current (components path)"
  by (rule ext2_find_walk [OF assms])

theorem path_walk_witness:
  "\<forall>fuel fs node. ext2_find fuel fs (Some node) [47, 97, 47, 47, 98, 98, 47, 0] =
     walk_path fuel fs (Some node) [[97], [98, 98]]"
proof (intro allI)
  fix fuel fs node
  show "ext2_find fuel fs (Some node) [47, 97, 47, 47, 98, 98, 47, 0] = walk_path fuel fs (Some node) [[97], [98, 98]]"
    using path_walk [of "[47, 97, 47, 47, 98, 98, 47]" fuel fs "Some node"] by simp
qed

text \<open>
  Two inputs that stop the kernel: a path that goes on below a node that is not a directory
  panics, and a directory whose first record has length 0 is scanned for ever, whatever the bound.
\<close>

theorem lookup_faults:
  assumes "0 \<notin> set path" "components path \<noteq> []" "\<not> is_dir (node_data node)"
    and "node_ok (img, dir)" "12 \<le> unat (nd_size_low (node_data dir))" "is_dir (node_data dir)"
    and "map (node_content (img, dir)) [0 ..< 8] = put32 inode @ put16 0 @ [0, ftype]"
  shows "ext2_find fuel fs (Some node) (path @ [0]) = Inl (Panic ''assert'') \<and>
    node_find fuel dir name = Inl OutOfFuel"
  using walk_below_file [OF assms(3,2), of fuel fs] ext2_find_walk [OF assms(1), of fuel fs "Some node"]
    zero_record_loops [OF assms(4,5,7), of fuel] assms(6)
  by (simp add: node_find_def entries_def)

theorem lookup_faults_witness:
  "\<forall>fuel fs. ext2_find fuel fs (Some (demo_node (demo_ide (\<lambda>i. 0)) 0x8000 2000)) [97, 0] = Inl (Panic ''assert'') \<and>
    node_find fuel (demo_node (demo_ide (\<lambda>i. 0)) 0x4000 2000) [97, 0] = Inl OutOfFuel"
proof (intro allI)
  fix fuel fs
  have "map (node_content (\<lambda>i. 0, demo_node (demo_ide (\<lambda>i. 0)) 0x4000 2000)) [0 ..< 8] = put32 0 @ put16 0 @ [0, 0]"
    by (simp add: node_content_def put32_def put16_def upt_rec)
  then show "ext2_find fuel fs (Some (demo_node (demo_ide (\<lambda>i. 0)) 0x8000 2000)) [97, 0] = Inl (Panic ''assert'') \<and>
    node_find fuel (demo_node (demo_ide (\<lambda>i. 0)) 0x4000 2000) [97, 0] = Inl OutOfFuel"
    using lookup_faults [where path = "[97]" and node = "demo_node (demo_ide (\<lambda>i. 0)) 0x8000 2000" and img = "\<lambda>i. 0"
        and dir = "demo_node (demo_ide (\<lambda>i. 0)) 0x4000 2000" and inode = 0 and ftype = 0 and fuel = fuel
        and fs = fs and name = "[97, 0]"] demo_ok [of 2000 "\<lambda>i. 0" "0x4000"]
    by (simp add: demo_node_def is_dir_def get_type_def)
qed

end
