(* ===== verification/Elf.thy ===== *)
theory Elf
  imports File_System VMM
begin

text \<open>
  The program loader (\<open>kernel/elf.h\<close>, \<open>kernel/elf.cc\<close>). Memory is the address space of the running
  process, one byte per virtual address. A store of the loader to user memory succeeds: the page fault
  handler of \<open>VMM\<close> supplies a page that is not there yet. A store below it that no page backs ends the
  process in that handler. A store to the kernel's own memory or to an APIC page goes through, and may hit
  the loader itself: what follows is \<open>Undefined\<close> here.
\<close>

section \<open>Blocks of memory\<close>

type_synonym memory = "u32 \<Rightarrow> u8"

definition write_bytes :: "u32 \<Rightarrow> u8 list \<Rightarrow> memory \<Rightarrow> memory" where
  "write_bytes a bytes m = (\<lambda>x. if unat (x - a) < length bytes then bytes ! unat (x - a) else m x)"

text \<open>\<open>bzero\<close> (kernel/machine.S): \<open>n\<close> zero bytes from \<open>a\<close>. The count is signed, and a negative one stores
  nothing.\<close>

definition bzero :: "u32 \<Rightarrow> u32 \<Rightarrow> memory \<Rightarrow> memory" where
  "bzero a n m = write_bytes a (replicate (nat (sint n)) 0) m"

definition read_bytes :: "memory \<Rightarrow> u32 \<Rightarrow> nat \<Rightarrow> u8 list" where
  "read_bytes m a n = map (\<lambda>i. m (a + of_nat i)) [0..<n]"

section \<open>Stores of the kernel through user addresses\<close>

text \<open>Addresses that the shared part of the page directory leaves without a page (\<open>VMM::global_init\<close>), and
  the page fault handler does not supply.\<close>

definition no_page :: "Config \<Rightarrow> u32 \<Rightarrow> bool" where
  "no_page c a \<longleftrightarrow> a < 0x80000000 \<and> \<not> (FRAME_SIZE \<le> framedown a \<and> framedown a < memSize c)"

text \<open>Stores of consecutive bytes; \<open>None\<close> when the page fault handler has ended the process.\<close>

fun store_bytes :: "Config \<Rightarrow> u32 \<Rightarrow> u8 list \<Rightarrow> memory \<Rightarrow> memory option res" where
  "store_bytes c a [] m = Inr (Some m)"
| "store_bytes c a (b # bs) m =
     (if no_page c a then Inr None
      else if is_special c (framedown a) then Inl Undefined
      else store_bytes c (a + 1) bs (m(a := b)))"

definition unless_ended :: "'a option res \<Rightarrow> ('a \<Rightarrow> 'b option res) \<Rightarrow> 'b option res" where
  "unless_ended r f = rbind r (\<lambda>q. case q of None \<Rightarrow> Inr None | Some x \<Rightarrow> f x)"

lemma unless_ended_simps [simp]:
  "unless_ended (Inl e) f = Inl e" "unless_ended (Inr None) f = Inr None" "unless_ended (Inr (Some x)) f = f x"
  by (simp_all add: unless_ended_def)

section \<open>The loader\<close>

record elf_header =
  e_magic :: "u8 list"
  e_cls :: u8
  e_encoding :: u8
  e_header_version :: u8
  e_abi :: u8
  e_type :: u16
  e_machine :: u16
  e_version :: u32
  e_entry :: u32
  e_phoff :: u32
  e_shoff :: u32
  e_flags :: u32
  e_ehsize :: u16
  e_phentsize :: u16
  e_phnum :: u16

definition sizeof_elf_header :: u32 where
  "sizeof_elf_header = 52"

definition decode_elf_header :: "u8 list \<Rightarrow> elf_header" where
  "decode_elf_header b =
     \<lparr>e_magic = take 4 b, e_cls = b ! 4, e_encoding = b ! 5, e_header_version = b ! 6, e_abi = b ! 7,
      e_type = get16 b 16, e_machine = get16 b 18, e_version = get32 b 20, e_entry = get32 b 24,
      e_phoff = get32 b 28, e_shoff = get32 b 32, e_flags = get32 b 36, e_ehsize = get16 b 40,
      e_phentsize = get16 b 42, e_phnum = get16 b 44\<rparr>"

record program_header =
  p_type :: u32
  p_offset :: u32
  p_vaddr :: u32
  p_filesz :: u32
  p_memsz :: u32

definition sizeof_program_header :: u32 where
  "sizeof_program_header = 32"

definition decode_program_header :: "u8 list \<Rightarrow> program_header" where
  "decode_program_header b =
     \<lparr>p_type = get32 b 0, p_offset = get32 b 4, p_vaddr = get32 b 8, p_filesz = get32 b 16, p_memsz = get32 b 20\<rparr>"

text \<open>One segment: what \<open>read_all\<close> delivers is stored, its result is not looked at.\<close>

definition load_segment :: "Config \<Rightarrow> block_io \<Rightarrow> program_header \<Rightarrow> memory \<Rightarrow> memory option res" where
  "load_segment c file phdr m =
     (if p_type phdr = 1 then
        rbind (blockio_read_all file (p_offset phdr) (p_filesz phdr)) (\<lambda>(cnt, bytes).
        unless_ended (store_bytes c (p_vaddr phdr) bytes m) (\<lambda>m1.
        store_bytes c (p_vaddr phdr + p_filesz phdr) (replicate (nat (sint (p_memsz phdr - p_filesz phdr))) 0) m1))
      else Inr (Some m))"

fun load_segments :: "Config \<Rightarrow> block_io \<Rightarrow> nat \<Rightarrow> u32 \<Rightarrow> u32 \<Rightarrow> memory \<Rightarrow> memory option res" where
  "load_segments c file 0 hoff entsize m = Inr (Some m)"
| "load_segments c file (Suc n) hoff entsize m =
     rbind (blockio_read_object file hoff sizeof_program_header) (\<lambda>b.
     unless_ended (load_segment c file (decode_program_header b) m)
       (load_segments c file n (hoff + entsize) entsize))"

definition elf_load :: "Config \<Rightarrow> block_io \<Rightarrow> memory \<Rightarrow> (u32 \<times> memory) option res" where
  "elf_load c file m =
     rbind (blockio_read_object file 0 sizeof_elf_header) (\<lambda>b.
     let hdr = decode_elf_header b in
     unless_ended (load_segments c file (unat (e_phnum hdr)) (e_phoff hdr) (ucast (e_phentsize hdr)) m) (\<lambda>m'.
     Inr (Some (e_entry hdr, m'))))"

section \<open>What loading leaves in memory\<close>

text \<open>The segment's addresses, and the image it should have there.\<close>

definition in_segment :: "program_header \<Rightarrow> u32 \<Rightarrow> bool" where
  "in_segment p x \<longleftrightarrow> p_type p = 1 \<and> x - p_vaddr p < p_memsz p"

definition segment_byte :: "(nat \<Rightarrow> u8) \<Rightarrow> program_header \<Rightarrow> u32 \<Rightarrow> u8" where
  "segment_byte c p x =
     (if x - p_vaddr p < p_filesz p then c (unat (p_offset p) + unat (x - p_vaddr p)) else 0)"

text \<open>What is asked of a segment: its bytes are in the file, and it lies in user memory.\<close>

definition segment_fits :: "u32 \<Rightarrow> program_header \<Rightarrow> bool" where
  "segment_fits sz p \<longleftrightarrow> p_type p = 1 \<longrightarrow>
     p_filesz p \<le> p_memsz p \<and> p_memsz p < 0x80000000 \<and> unat (p_offset p) + unat (p_filesz p) \<le> unat sz"

definition segment_ok :: "Config \<Rightarrow> u32 \<Rightarrow> program_header \<Rightarrow> bool" where
  "segment_ok c sz p \<longleftrightarrow> segment_fits sz p \<and> (\<forall>x. in_segment p x \<longrightarrow> \<not> is_special c (framedown x))"

lemma low_special: "a < 0x80000000 \<Longrightarrow> is_special c (framedown a)"
proof -
  assume "a < 0x80000000"
  moreover have "framedown a \<le> a" by (simp add: framedown_def word_div_mult_le)
  ultimately have "framedown a < 0x80000000" by (rule le_less_trans [rotated])
  then show ?thesis by (simp add: is_special_def)
qed

lemma no_page_special: "no_page c a \<Longrightarrow> is_special c (framedown a)"
  by (simp add: no_page_def low_special)

lemma store_bytes_append:
  "store_bytes c a (xs @ ys) m = unless_ended (store_bytes c a xs m) (store_bytes c (a + of_nat (length xs)) ys)"
proof (induction xs arbitrary: a m)
  case (Cons x xs)
  show ?case by (simp add: Cons.IH add.assoc fun_upd_def)
qed simp

lemma store_bytes_ok:
  "\<forall>i < length bs. \<not> is_special c (framedown (a + of_nat i)) \<Longrightarrow> length bs < 2 ^ 32 \<Longrightarrow>
    store_bytes c a bs m = Inr (Some (write_bytes a bs m))"
proof (induction bs arbitrary: a m)
  case Nil
  then show ?case by (simp add: write_bytes_def)
next
  case (Cons b bs)
  have "\<forall>i < length bs. \<not> is_special c (framedown (a + 1 + of_nat i))"
  proof (intro allI impI)
    fix i assume i: "i < length bs"
    have e: "a + of_nat (Suc i) = a + 1 + of_nat i" by (simp only: of_nat_Suc add.assoc)
    show "\<not> is_special c (framedown (a + 1 + of_nat i))"
      unfolding e [symmetric] by (rule Cons.prems(1) [rule_format]) (simp add: i)
  qed
  then have IH: "store_bytes c (a + 1) bs (m(a := b)) = Inr (Some (write_bytes (a + 1) bs (m(a := b))))"
    using Cons.IH Cons.prems(2) by simp
  have "write_bytes (a + 1) bs (m(a := b)) x = write_bytes a (b # bs) m x" for x
  proof (cases "x = a")
    case True
    then show ?thesis using Cons.prems(2)
      by (simp add: write_bytes_def unsigned_minus_1_eq_mask mask_eq_exp_minus_1)
  next
    case False
    then have "x - a \<noteq> 0" by simp
    then have "unat (x - (a + 1)) = unat (x - a) - 1" "0 < unat (x - a)"
      by (simp_all add: unat_minus_one diff_diff_add [symmetric] unat_gt_0)
    then show ?thesis using False by (auto simp: write_bytes_def nth_Cons' not_less_eq)
  qed
  moreover have "\<not> is_special c (framedown a)" using Cons.prems(1) [rule_format, of 0] by simp
  ultimately show ?case using IH no_page_special by (auto simp: fun_eq_iff)
qed

lemma store_bytes_ends:
  assumes "i < length bs" "\<forall>j < i. \<not> is_special c (framedown (a + of_nat j))" "no_page c (a + of_nat i)"
    and "length bs < 2 ^ 32"
  shows "store_bytes c a bs m = Inr None"
proof -
  have "bs = take i bs @ bs ! i # drop (Suc i) bs" using assms(1) by (rule id_take_nth_drop)
  moreover have "store_bytes c a (take i bs @ bs ! i # drop (Suc i) bs) m = Inr None"
    using store_bytes_ok [of "take i bs" c a m] assms by (simp add: store_bytes_append)
  ultimately show ?thesis by simp
qed

text \<open>The bytes that a segment stores, one after the other from its address on.\<close>

definition segment_bytes :: "(nat \<Rightarrow> u8) \<Rightarrow> program_header \<Rightarrow> u8 list" where
  "segment_bytes f p = map (segment_byte f p) (map (\<lambda>i. p_vaddr p + of_nat i) [0 ..< unat (p_memsz p)])"

lemma length_segment_bytes [simp]: "length (segment_bytes f p) = unat (p_memsz p)"
  by (simp add: segment_bytes_def)

lemma segment_bytes_split:
  assumes "p_filesz p \<le> p_memsz p"
  shows "segment_bytes f p =
    map f [unat (p_offset p) ..< unat (p_offset p) + unat (p_filesz p)] @ replicate (unat (p_memsz p - p_filesz p)) 0"
proof (rule nth_equalityI)
  have le: "unat (p_filesz p) \<le> unat (p_memsz p)" and d: "unat (p_memsz p - p_filesz p) = unat (p_memsz p) - unat (p_filesz p)"
    using assms by (simp_all add: word_le_nat_alt unat_sub)
  then show "length (segment_bytes f p) =
      length (map f [unat (p_offset p) ..< unat (p_offset p) + unat (p_filesz p)] @ replicate (unat (p_memsz p - p_filesz p)) 0)"
    by simp
  fix i assume "i < length (segment_bytes f p)"
  then have i: "i < unat (p_memsz p)" by simp
  then have u: "unat (of_nat i :: u32) = i"
    using u32_unat [of "p_memsz p"] by (simp add: unat_of_nat take_bit_nat_eq_self)
  have "of_nat i < p_filesz p \<longleftrightarrow> i < unat (p_filesz p)" by (simp add: word_less_nat_alt u)
  then show "segment_bytes f p ! i =
      (map f [unat (p_offset p) ..< unat (p_offset p) + unat (p_filesz p)] @ replicate (unat (p_memsz p - p_filesz p)) 0) ! i"
    using i le d by (simp add: segment_bytes_def segment_byte_def u nth_append)
qed

lemma load_segment_stores:
  assumes ok: "node_ok (img, node)" and p: "segment_fits (nd_size_low (node_data node)) p" and l: "p_type p = 1"
  shows "load_segment c (node_io node) p m = store_bytes c (p_vaddr p) (segment_bytes (node_content (img, node)) p) m"
proof -
  define o1 n where "o1 = unat (p_offset p)" and "n = unat (p_filesz p)"
  have le: "p_filesz p \<le> p_memsz p" and small: "p_memsz p < 0x80000000"
    and sz: "o1 + n \<le> unat (nd_size_low (node_data node))"
    using p l by (auto simp: segment_fits_def o1_def n_def)
  have mn: "min n (unat (nd_size_low (node_data node)) - o1) = n" using sz by simp
  have rd: "blockio_read_all (node_io node) (p_offset p) (p_filesz p) =
      Inr (int n, map (node_content (img, node)) [o1 ..< o1 + n])"
    using inode.read_all_content [OF ok, of "p_offset p" "p_filesz p"] sz mn
    by (simp add: o1_def [symmetric] n_def [symmetric])
  have "p_memsz p - p_filesz p \<le> p_memsz p" using le by (rule word_sub_le)
  then have "p_memsz p - p_filesz p < 0x80000000" using small by (rule le_less_trans)
  then have "uint (p_memsz p - p_filesz p) < 2 ^ 31" by (simp add: word_less_def)
  then have "nat (sint (p_memsz p - p_filesz p)) = unat (p_memsz p - p_filesz p)"
    by (simp only: sint_u32 if_True unat_eq_nat_uint)
  then show ?thesis
    unfolding segment_bytes_split [OF le] store_bytes_append
    by (simp add: load_segment_def l rd o1_def n_def)
qed

lemma load_segment_image:
  assumes ok: "node_ok (img, node)" and p: "segment_ok c (nd_size_low (node_data node)) p"
  shows "load_segment c (node_io node) p m =
    Inr (Some (\<lambda>x. if in_segment p x then segment_byte (node_content (img, node)) p x else m x))"
proof (cases "p_type p = 1")
  case True
  let ?f = "node_content (img, node)"
  have inside: "in_segment p (p_vaddr p + of_nat i)" if "i < unat (p_memsz p)" for i
    using that u32_unat [of "p_memsz p"] True
    by (simp add: in_segment_def word_less_nat_alt unat_of_nat take_bit_nat_eq_self)
  have "store_bytes c (p_vaddr p) (segment_bytes ?f p) m = Inr (Some (write_bytes (p_vaddr p) (segment_bytes ?f p) m))"
    using p inside u32_unat [of "p_memsz p"] by (intro store_bytes_ok) (auto simp: segment_ok_def)
  moreover have "write_bytes (p_vaddr p) (segment_bytes ?f p) m x = (if in_segment p x then segment_byte ?f p x else m x)" for x
    using True by (simp add: write_bytes_def in_segment_def segment_bytes_def word_less_nat_alt)
  ultimately show ?thesis
    using load_segment_stores [OF ok _ True, of c m] p by (simp add: segment_ok_def fun_eq_iff)
next
  case False
  then show ?thesis by (simp add: load_segment_def in_segment_def)
qed

text \<open>A segment that reaches memory without a page before anything else that is not user memory.\<close>

definition segment_faults :: "Config \<Rightarrow> program_header \<Rightarrow> bool" where
  "segment_faults c p \<longleftrightarrow> p_type p = 1 \<and>
     (\<exists>i < unat (p_memsz p). no_page c (p_vaddr p + of_nat i) \<and>
       (\<forall>j < i. \<not> is_special c (framedown (p_vaddr p + of_nat j))))"

lemma load_segment_faults:
  assumes ok: "node_ok (img, node)" and p: "segment_fits (nd_size_low (node_data node)) p" and f: "segment_faults c p"
  shows "load_segment c (node_io node) p m = Inr None"
proof -
  obtain i where i: "i < unat (p_memsz p)" "no_page c (p_vaddr p + of_nat i)"
    "\<forall>j < i. \<not> is_special c (framedown (p_vaddr p + of_nat j))" and l: "p_type p = 1"
    using f by (auto simp: segment_faults_def)
  show ?thesis
    unfolding load_segment_stores [OF ok p l]
    using i u32_unat [of "p_memsz p"] by (intro store_bytes_ends [of i]) simp_all
qed

lemma unat_ucast16: "unat (ucast (w :: u16) :: u32) = unat w"
proof -
  have "unat w < 2 ^ 16" using unsigned_less [of w] by simp
  then have "unat w < 2 ^ 32" by simp
  then show ?thesis by (simp add: unsigned_ucast_eq take_bit_nat_eq_self)
qed

text \<open>The program headers of a file, and memory once they have been loaded in order.\<close>

definition program_headers :: "(nat \<Rightarrow> u8) \<Rightarrow> nat \<Rightarrow> nat \<Rightarrow> nat \<Rightarrow> program_header list" where
  "program_headers c hoff entsize n =
     map (\<lambda>k. decode_program_header (map c [hoff + k * entsize ..< hoff + k * entsize + 32])) [0..<n]"

definition loaded :: "(nat \<Rightarrow> u8) \<Rightarrow> program_header list \<Rightarrow> memory \<Rightarrow> memory" where
  "loaded c ps m = (\<lambda>x. case filter (\<lambda>p. in_segment p x) ps of
     [] \<Rightarrow> m x | qs \<Rightarrow> segment_byte c (last qs) x)"

lemma loaded_Nil [simp]: "loaded c [] m = m"
  by (simp add: loaded_def)

lemma loaded_Cons:
  "loaded c (p # ps) m = loaded c ps (\<lambda>x. if in_segment p x then segment_byte c p x else m x)"
  by (auto simp: loaded_def fun_eq_iff split: list.splits)

lemma program_headers_Suc:
  "program_headers c hoff entsize (Suc n) =
     decode_program_header (map c [hoff ..< hoff + 32]) # program_headers c (hoff + entsize) entsize n"
  unfolding program_headers_def upt_conv_Cons [OF zero_less_Suc]
  by (simp add: map_Suc_upt [symmetric] add_ac del: upt_Suc)

text \<open>The segments one after the other, over their headers.\<close>

fun load_each :: "Config \<Rightarrow> block_io \<Rightarrow> program_header list \<Rightarrow> memory \<Rightarrow> memory option res" where
  "load_each c file [] m = Inr (Some m)"
| "load_each c file (p # ps) m = unless_ended (load_segment c file p m) (load_each c file ps)"

lemma load_segments_each:
  assumes ok: "node_ok (img, node)" and S: "S = nd_size_low (node_data node)"
  shows "\<forall>k < n. unat hoff + k * unat entsize + 32 \<le> unat S \<Longrightarrow>
    load_segments c (node_io node) n hoff entsize m =
      load_each c (node_io node) (program_headers (node_content (img, node)) (unat hoff) (unat entsize) n) m"
proof (induction n arbitrary: hoff m)
  case 0
  then show ?case by (simp add: program_headers_def)
next
  case (Suc n)
  let ?f = "node_content (img, node)"
  have first: "unat hoff + 32 \<le> unat S" using Suc.prems [rule_format, of 0] by simp
  have rd: "blockio_read_object (node_io node) hoff sizeof_program_header = Inr (map ?f [unat hoff ..< unat hoff + 32])"
    using inode.read_object_content [OF ok, of hoff sizeof_program_header] first S by (simp add: sizeof_program_header_def)
  have rest: "load_segments c (node_io node) n (hoff + entsize) entsize =
      load_each c (node_io node) (program_headers ?f (unat hoff + unat entsize) (unat entsize) n)"
  proof (cases "n = 0")
    case False
    then have "unat hoff + 1 * unat entsize + 32 \<le> unat S" by (intro Suc.prems [rule_format]) simp
    then have u: "unat (hoff + entsize) = unat hoff + unat entsize"
      using u32_unat [of S] by (intro unat_add_bounded) simp
    have "\<forall>k < n. unat (hoff + entsize) + k * unat entsize + 32 \<le> unat S"
    proof (intro allI impI)
      fix k assume "k < n"
      then have "Suc k < Suc n" by simp
      then have "unat hoff + Suc k * unat entsize + 32 \<le> unat S" using Suc.prems by blast
      then show "unat (hoff + entsize) + k * unat entsize + 32 \<le> unat S" using u by simp
    qed
    from Suc.IH [OF this] show ?thesis by (simp only: u fun_eq_iff simp_thms)
  qed (simp add: fun_eq_iff program_headers_def)
  show ?case
    by (simp only: load_segments.simps rd rbind_simps program_headers_Suc load_each.simps rest)
qed

lemma load_each_image:
  assumes ok: "node_ok (img, node)"
  shows "\<forall>p \<in> set ps. segment_ok c (nd_size_low (node_data node)) p \<Longrightarrow>
    load_each c (node_io node) ps m = Inr (Some (loaded (node_content (img, node)) ps m))"
proof (induction ps arbitrary: m)
  case (Cons p ps)
  then show ?case using load_segment_image [OF ok, of c p] by (simp add: loaded_Cons)
qed simp

lemma load_each_faults:
  assumes ok: "node_ok (img, node)" and "segment_fits (nd_size_low (node_data node)) p" "segment_faults c p"
  shows "\<forall>q \<in> set ps. segment_ok c (nd_size_low (node_data node)) q \<Longrightarrow>
    load_each c (node_io node) (ps @ p # qs) m = Inr None"
proof (induction ps arbitrary: m)
  case Nil
  then show ?case using load_segment_faults [OF assms] by simp
next
  case (Cons q ps)
  then show ?case using load_segment_image [OF ok, of c q] by simp
qed

section \<open>Properties\<close>

text \<open>A file of one block, in block 5 of the drive.\<close>

definition demo_file :: "u8 list \<Rightarrow> ext2_node" where
  "demo_file bytes = demo_node (demo_ide (\<lambda>i. bytes ! (i - 5120))) 0x8000 (of_nat (length bytes))"

lemma demo_file_ok: "length bytes \<le> 1024 \<Longrightarrow> node_ok (\<lambda>i. bytes ! (i - 5120), demo_file bytes)"
  unfolding demo_file_def by (rule demo_ok) (simp add: unat_of_nat take_bit_nat_eq_self)

lemma demo_file_content: "i < 1024 \<Longrightarrow> node_content (\<lambda>i. bytes ! (i - 5120), demo_file bytes) i = bytes ! i"
  by (simp add: node_content_def demo_file_def demo_node_def node_block_index_def)

text \<open>An executable with one segment: two bytes at \<open>v\<close>, in four bytes of memory.\<close>

definition demo_program :: "u32 \<Rightarrow> u8 list" where
  "demo_program v = [0x7F, 0x45, 0x4C, 0x46, 1, 1, 1, 0, 0, 0, 0, 0, 0, 0, 0, 0] @ put16 2 @ put16 3 @ put32 1 @
     put32 0x80000000 @ put32 52 @ put32 0 @ put32 0 @ put16 52 @ put16 32 @ put16 1 @ [0, 0, 0, 0, 0, 0] @
     put32 1 @ put32 84 @ put32 v @ put32 0 @ put32 2 @ put32 4 @ put32 0 @ put32 0 @ [0xAB, 0xCD]"

text \<open>
  C26. Loading an executable whose program headers are in the file. When every loadable segment has its bytes in the
  file and lies in user memory, the entry point is returned and every address of a segment holds the file's byte,
  or zero from the segment's file size up to its memory size, the last segment that covers the address deciding;
  every other address keeps its byte. When a segment is the first that leaves user memory, and does so at an
  address that has no page, the page fault ends the process.
\<close>

theorem elf_load_image:
  assumes "node_ok (img, node)" "52 \<le> unat (nd_size_low (node_data node))"
    and "hdr = decode_elf_header (map (node_content (img, node)) [0 ..< 52])"
    and "\<forall>k < unat (e_phnum hdr). unat (e_phoff hdr) + k * unat (e_phentsize hdr) + 32 \<le> unat (nd_size_low (node_data node))"
    and "phs = program_headers (node_content (img, node)) (unat (e_phoff hdr)) (unat (e_phentsize hdr)) (unat (e_phnum hdr))"
  shows "((\<forall>p \<in> set phs. segment_ok c (nd_size_low (node_data node)) p) \<longrightarrow>
      elf_load c (node_io node) m = Inr (Some (e_entry hdr, loaded (node_content (img, node)) phs m))) \<and>
    (\<forall>ps p qs. phs = ps @ p # qs \<and> (\<forall>q \<in> set ps. segment_ok c (nd_size_low (node_data node)) q) \<and>
        segment_fits (nd_size_low (node_data node)) p \<and> segment_faults c p \<longrightarrow>
      elf_load c (node_io node) m = Inr None)"
proof -
  have u: "unat (ucast (e_phentsize hdr) :: u32) = unat (e_phentsize hdr)" by (rule unat_ucast16)
  have "blockio_read_object (node_io node) 0 sizeof_elf_header = Inr (map (node_content (img, node)) [0 ..< 52])"
    using inode.read_object_content [OF assms(1), of 0 sizeof_elf_header] assms(2) by (simp add: sizeof_elf_header_def)
  then have e: "elf_load c (node_io node) m =
      unless_ended (load_each c (node_io node) phs m) (\<lambda>m'. Inr (Some (e_entry hdr, m')))"
    using load_segments_each [OF assms(1) refl, of "unat (e_phnum hdr)" "e_phoff hdr" "ucast (e_phentsize hdr)" c m]
      assms(3-5) u by (simp add: elf_load_def Let_def)
  show ?thesis
    unfolding e using load_each_image [OF assms(1)] load_each_faults [OF assms(1)] by auto
qed

lemma demo_file_slice:
  assumes "i + n \<le> length bytes" "length bytes \<le> 1024"
  shows "map (node_content (\<lambda>i. bytes ! (i - 5120), demo_file bytes)) [i ..< i + n] = take n (drop i bytes)"
  using assms by (intro nth_equalityI) (auto simp: demo_file_content)

lemma demo_headers:
  "decode_elf_header (take 52 (demo_program v)) =
     \<lparr>e_magic = [0x7F, 0x45, 0x4C, 0x46], e_cls = 1, e_encoding = 1, e_header_version = 1, e_abi = 0,
      e_type = 2, e_machine = 3, e_version = 1, e_entry = 0x80000000, e_phoff = 52, e_shoff = 0, e_flags = 0,
      e_ehsize = 52, e_phentsize = 32, e_phnum = 1\<rparr>"
  "decode_program_header (take 32 (drop 52 (demo_program v))) =
     \<lparr>p_type = 1, p_offset = 84, p_vaddr = v, p_filesz = 2, p_memsz = 4\<rparr>"
proof -
  show "decode_elf_header (take 52 (demo_program v)) =
     \<lparr>e_magic = [0x7F, 0x45, 0x4C, 0x46], e_cls = 1, e_encoding = 1, e_header_version = 1, e_abi = 0,
      e_type = 2, e_machine = 3, e_version = 1, e_entry = 0x80000000, e_phoff = 52, e_shoff = 0, e_flags = 0,
      e_ehsize = 52, e_phentsize = 32, e_phnum = 1\<rparr>"
    by (simp add: demo_program_def decode_elf_header_def get16_def get32_def put16_def put32_def)
  have "get32 (put32 v) 0 = v" by (rule get32_put32)
  then show "decode_program_header (take 32 (drop 52 (demo_program v))) =
     \<lparr>p_type = 1, p_offset = 84, p_vaddr = v, p_filesz = 2, p_memsz = 4\<rparr>"
    by (simp add: demo_program_def decode_program_header_def get32_def put16_def put32_def)
qed

lemma demo_program_headers:
  "program_headers (node_content (\<lambda>i. demo_program v ! (i - 5120), demo_file (demo_program v))) 52 32 1 =
     [\<lparr>p_type = 1, p_offset = 84, p_vaddr = v, p_filesz = 2, p_memsz = 4\<rparr>]"
proof -
  have "length (demo_program v) = 86" by (simp add: demo_program_def)
  then show ?thesis
    using demo_file_slice [of 52 32 "demo_program v"]
    by (simp add: program_headers_def demo_headers del: upt_rec_numeral)
qed

text \<open>A segment in user memory; on a machine of 128 MB the address 0x20000000 has no page.\<close>

lemma demo_segment_ok:
  "segment_ok demo_config 86 \<lparr>p_type = 1, p_offset = 84, p_vaddr = 0x80000000, p_filesz = 2, p_memsz = 4\<rparr>"
proof -
  have "framedown x = 0x80000000" if "x - 0x80000000 < 4" for x
  proof -
    have "unat (x - 0x80000000) < 4" using that by (simp add: word_less_nat_alt)
    then consider "unat (x - 0x80000000) = 0" | "unat (x - 0x80000000) = 1" |
      "unat (x - 0x80000000) = 2" | "unat (x - 0x80000000) = 3" by linarith
    moreover have "x = 0x80000000 + of_nat (unat (x - 0x80000000))" by simp
    ultimately show ?thesis
      by cases (simp_all only: of_nat_0 of_nat_1 of_nat_numeral framedown_def FRAME_SIZE_def, simp_all)
  qed
  then show ?thesis
    by (auto simp: segment_ok_def segment_fits_def in_segment_def is_special_def demo_config_def)
qed

lemma demo_segment_faults:
  "segment_fits 86 \<lparr>p_type = 1, p_offset = 84, p_vaddr = 0x20000000, p_filesz = 2, p_memsz = 4\<rparr> \<and>
   segment_faults demo_config \<lparr>p_type = 1, p_offset = 84, p_vaddr = 0x20000000, p_filesz = 2, p_memsz = 4\<rparr>"
  by (auto simp: segment_fits_def segment_faults_def no_page_def framedown_def FRAME_SIZE_def demo_config_def
    intro!: exI [of _ 0])

theorem elf_load_image_witness:
  "(\<exists>m. elf_load demo_config (node_io (demo_file (demo_program 0x80000000))) (\<lambda>x. 7) = Inr (Some (0x80000000, m)) \<and>
     m 0x80000001 = 0xCD \<and> m 0x80000002 = 0 \<and> m 0x80000004 = 7) \<and>
   elf_load demo_config (node_io (demo_file (demo_program 0x20000000))) (\<lambda>x. 7) = Inr None"
proof -
  let ?c = "\<lambda>v. node_content (\<lambda>i. demo_program v ! (i - 5120), demo_file (demo_program v))"
  have len: "length (demo_program v) = 86" for v by (simp add: demo_program_def)
  have sz: "nd_size_low (node_data (demo_file (demo_program v))) = 86" for v
    by (simp add: demo_file_def demo_node_def len)
  have hdr: "map (?c v) [0 ..< 52] = take 52 (demo_program v)" for v
    using demo_file_slice [of 0 52 "demo_program v"] by (simp add: len del: upt_rec_numeral)
  have ok: "node_ok (\<lambda>i. demo_program v ! (i - 5120), demo_file (demo_program v))" for v
    by (rule demo_file_ok) (simp add: len)
  have "elf_load demo_config (node_io (demo_file (demo_program 0x80000000))) (\<lambda>x. 7) = Inr (Some (0x80000000, loaded (?c 0x80000000)
      [\<lparr>p_type = 1, p_offset = 84, p_vaddr = 0x80000000, p_filesz = 2, p_memsz = 4\<rparr>] (\<lambda>x. 7)))"
    using elf_load_image [OF ok [of "0x80000000"] _ refl _ refl, of demo_config "\<lambda>x. 7"]
    by (simp add: sz hdr demo_headers demo_program_headers demo_segment_ok del: upt_rec_numeral One_nat_def)
  moreover have "demo_program 0x80000000 ! 85 = 0xCD" by (simp add: demo_program_def put16_def put32_def)
  moreover have "elf_load demo_config (node_io (demo_file (demo_program 0x20000000))) (\<lambda>x. 7) = Inr None"
    using elf_load_image [OF ok [of "0x20000000"] _ refl _ refl, of demo_config "\<lambda>x. 7"] demo_segment_faults
    by (simp add: sz hdr demo_headers demo_program_headers Cons_eq_append_conv del: upt_rec_numeral One_nat_def)
  ultimately show ?thesis
    by (simp add: loaded_def in_segment_def segment_byte_def demo_file_content)
qed

end
