(* ===== verification/Files.thy ===== *)
theory Files
  imports Elf Ring_Buffers
begin

text \<open>
  Open files (\<open>kernel/file.h\<close>): the objects behind file descriptors, which are files of the file system
  (\<open>ActualFile\<close>, kernel/file_ext.h), the console (\<open>U8250File\<close>, kernel/u8250.h and u8250.cc) and the two
  ends of a pipe (\<open>PipeFile\<close>, kernel/PipeFile.h). The virtual functions are one definition each, by
  cases on the class. The console's line status register is polled until a byte can be sent or has
  arrived: \<open>con_in\<close> are the bytes that arrive, and a read with none left waits for ever.
\<close>

section \<open>Objects\<close>

datatype file_obj =
    ActualFile "ext2_node option" u32   \<comment> \<open>the node and \<open>totalOffset\<close>\<close>
  | U8250File
  | PipeFile nat int                    \<comment> \<open>the pipe and the mode\<close>

record console =
  con_in :: "u8 list"
  con_out :: "u8 list"

definition u8250_put :: "u8 \<Rightarrow> console \<Rightarrow> console" where
  "u8250_put c con = con\<lparr>con_out := con_out con @ [c]\<rparr>"

definition u8250_get :: "console \<Rightarrow> (u8 \<times> console) option" where
  "u8250_get con = (case con_in con of [] \<Rightarrow> None | c # cs \<Rightarrow> Some (c, con\<lparr>con_in := cs\<rparr>))"

definition node_of :: "ext2_node option \<Rightarrow> ext2_node res" where
  "node_of node = (case node of None \<Rightarrow> Inl NullDeref | Some n \<Rightarrow> Inr n)"

section \<open>Virtual functions\<close>

definition file_isFile :: "file_obj \<Rightarrow> bool res" where
  "file_isFile f = (case f of
     ActualFile node off \<Rightarrow> rbind (node_of node) (\<lambda>n. Inr (is_file (node_data n)))
   | U8250File \<Rightarrow> Inr True | PipeFile pipe mode \<Rightarrow> Inr True)"

definition file_isDirectory :: "file_obj \<Rightarrow> bool res" where
  "file_isDirectory f = (case f of
     ActualFile node off \<Rightarrow> rbind (node_of node) (\<lambda>n. Inr (is_dir (node_data n)))
   | U8250File \<Rightarrow> Inr False | PipeFile pipe mode \<Rightarrow> Inr False)"

definition file_size :: "file_obj \<Rightarrow> u32 res" where
  "file_size f = (case f of
     ActualFile node off \<Rightarrow> rbind (node_of node) (\<lambda>n. Inr (nd_size_low (node_data n)))
   | U8250File \<Rightarrow> Inr 0x7FFFFFFF | PipeFile pipe mode \<Rightarrow> Inr (-1))"

definition file_seek :: "u32 \<Rightarrow> file_obj \<Rightarrow> u32 \<times> file_obj" where
  "file_seek to f = (case f of
     ActualFile node off \<Rightarrow> (to, ActualFile node to)
   | U8250File \<Rightarrow> (to, f)
   | PipeFile pipe mode \<Rightarrow> (-1, f))"

text \<open>\<open>ActualFile::read\<close>: the result, the bytes stored at the buffer, and the new offset.\<close>

definition actual_read :: "u32 \<Rightarrow> u32 \<Rightarrow> ext2_node option \<Rightarrow> u32 \<Rightarrow> (u32 \<times> u8 list \<times> u32) res" where
  "actual_read addr n node totalOffset =
     (case node of
        None \<Rightarrow> Inr (-1, [], totalOffset)
      | Some nd \<Rightarrow>
          if addr < 0x80000000 then Inr (-1, [], totalOffset)
          else
            let sz = nd_size_low (node_data nd) in
            if totalOffset \<ge> sz \<or> n = 0 then Inr (0, [], totalOffset)
            else
              let bytes_read = (if n > sz - totalOffset then sz - totalOffset else n) in
              rbind (blockio_read_all (node_io nd) totalOffset bytes_read) (\<lambda>(cnt, bytes).
              Inr (bytes_read, bytes, totalOffset + bytes_read)))"

text \<open>
  Reading and writing through the base class. The state around the object is the process's memory,
  the pipes and the console; the answer is \<open>None\<close> when the call never comes back.
\<close>

record io_state =
  io_mem :: memory
  io_pipes :: "nat \<Rightarrow> pipe"
  io_console :: console

definition file_read :: "u32 \<Rightarrow> u32 \<Rightarrow> file_obj \<Rightarrow> io_state \<Rightarrow> (u32 \<times> file_obj \<times> io_state) res option" where
  "file_read buf n f s =
     (case f of
        ActualFile node off \<Rightarrow>
          Some (rbind (actual_read buf n node off) (\<lambda>(r, bytes, off').
            Inr (r, ActualFile node off', s\<lparr>io_mem := write_bytes buf bytes (io_mem s)\<rparr>)))
      | U8250File \<Rightarrow>
          (if n = 0 then Some (Inr (0, f, s))
           else case u8250_get (io_console s) of
             None \<Rightarrow> None
           | Some (c, con) \<Rightarrow> Some (Inr (1, f, s\<lparr>io_mem := write_bytes buf [c] (io_mem s), io_console := con\<rparr>)))
      | PipeFile i mode \<Rightarrow>
          (case pipe_file_read mode n (Some (io_pipes s i)) of
             None \<Rightarrow> None
           | Some (r, bytes, p) \<Rightarrow>
               Some (Inr (word_of_int r, f, s\<lparr>io_mem := write_bytes buf bytes (io_mem s),
                 io_pipes := (io_pipes s)(i := the p)\<rparr>))))"

definition file_write :: "u32 \<Rightarrow> u32 \<Rightarrow> file_obj \<Rightarrow> io_state \<Rightarrow> (u32 \<times> io_state) res option" where
  "file_write buf n f s =
     (case f of
        ActualFile node off \<Rightarrow> Some (Inr (-1, s))
      | U8250File \<Rightarrow>
          (if n = 0 then Some (Inr (0, s))
           else Some (Inr (1, s\<lparr>io_console := u8250_put (io_mem s buf) (io_console s)\<rparr>)))
      | PipeFile i mode \<Rightarrow>
          map_option (\<lambda>r. rbind r (\<lambda>(k, p). Inr (word_of_int k, s\<lparr>io_pipes := (io_pipes s)(i := the p)\<rparr>)))
            (pipe_file_write mode (read_bytes (io_mem s) buf (unat n)) n (Some (io_pipes s i))))"

end
