(* ===== verification/Process.thy ===== *)
theory Process
  imports Prelude
begin

text \<open>
  The descriptor tables of a process (\<open>kernel/process.h\<close>, \<open>kernel/process.cc\<close>): files, semaphores and
  children in three arrays of ten slots, named by integer ids that carry the kind in their upper bits.
  A \<open>Shared\<close> pointer is \<open>None\<close> when null and otherwise the number of the object it points to. The
  mutex serialises the operations, which are therefore single steps here.
\<close>

section \<open>The interface\<close>

text \<open>
  A table that gives out ids for objects. The laws make any run of it the run of a partial map:
  \<open>honest\<close> says what each operation answers when the map is \<open>m\<close>, \<open>replay\<close> what becomes of the map.
\<close>

datatype 'o table_op = Add 'o | Close u32 | Dup u32 u32

fun table_run ::
  "('o \<Rightarrow> 's \<Rightarrow> u32 \<times> 's) \<Rightarrow> (u32 \<Rightarrow> 's \<Rightarrow> u32 \<times> 's) \<Rightarrow> (u32 \<Rightarrow> u32 \<Rightarrow> 's \<Rightarrow> u32 \<times> 's) \<Rightarrow>
   'o table_op list \<Rightarrow> 's \<Rightarrow> u32 list \<times> 's" where
  "table_run add cl dup [] s = ([], s)"
| "table_run add cl dup (x # ops) s =
     (let (r, s') = (case x of Add h \<Rightarrow> add h s | Close i \<Rightarrow> cl i s | Dup i j \<Rightarrow> dup i j s);
          (rs, t) = table_run add cl dup ops s'
      in (r # rs, t))"

definition answer_ok :: "('o \<Rightarrow> u32 \<Rightarrow> bool) \<Rightarrow> (u32 \<Rightarrow> bool) \<Rightarrow> (u32 \<rightharpoonup> 'o) \<Rightarrow> 'o table_op \<Rightarrow> u32 \<Rightarrow> bool" where
  "answer_ok mine slot m x r =
     (case x of
        Add h \<Rightarrow> if r = -1 then \<forall>i. mine h i \<longrightarrow> m i \<noteq> None else mine h r \<and> m r = None
      | Close i \<Rightarrow> r = (if m i = None then -1 else 0)
      | Dup i j \<Rightarrow> r = (if i = j \<or> slot i \<and> slot j \<and> m i \<noteq> None then j else -1))"

definition map_step :: "'o table_op \<Rightarrow> u32 \<Rightarrow> (u32 \<rightharpoonup> 'o) \<Rightarrow> (u32 \<rightharpoonup> 'o)" where
  "map_step x r m =
     (case x of
        Add h \<Rightarrow> if r = -1 then m else m(r \<mapsto> h)
      | Close i \<Rightarrow> m(i := None)
      | Dup i j \<Rightarrow> if r = -1 then m else m(j := m i))"

fun honest :: "('o \<Rightarrow> u32 \<Rightarrow> bool) \<Rightarrow> (u32 \<Rightarrow> bool) \<Rightarrow> (u32 \<rightharpoonup> 'o) \<Rightarrow> 'o table_op list \<Rightarrow> u32 list \<Rightarrow> bool" where
  "honest mine slot m [] rs = (rs = [])"
| "honest mine slot m (x # ops) [] = False"
| "honest mine slot m (x # ops) (r # rs) =
     (answer_ok mine slot m x r \<and> honest mine slot (map_step x r m) ops rs)"

fun replay :: "'o table_op list \<Rightarrow> u32 list \<Rightarrow> (u32 \<rightharpoonup> 'o) \<Rightarrow> (u32 \<rightharpoonup> 'o)" where
  "replay (x # ops) (r # rs) m = replay ops rs (map_step x r m)"
| "replay ops rs m = m"

locale id_table =
  fixes ok :: "'s \<Rightarrow> bool"
    and lookup :: "'s \<Rightarrow> u32 \<rightharpoonup> 'o"
    and mine :: "'o \<Rightarrow> u32 \<Rightarrow> bool"
    and slot :: "u32 \<Rightarrow> bool"
    and add :: "'o \<Rightarrow> 's \<Rightarrow> u32 \<times> 's"
    and cl :: "u32 \<Rightarrow> 's \<Rightarrow> u32 \<times> 's"
    and dup :: "u32 \<Rightarrow> u32 \<Rightarrow> 's \<Rightarrow> u32 \<times> 's"
  assumes add_law: "ok s \<Longrightarrow> add h s = (r, s') \<Longrightarrow>
      ok s' \<and> answer_ok mine slot (lookup s) (Add h) r \<and> lookup s' = map_step (Add h) r (lookup s)"
    and close_law: "ok s \<Longrightarrow> cl i s = (r, s') \<Longrightarrow>
      ok s' \<and> answer_ok mine slot (lookup s) (Close i) r \<and> lookup s' = map_step (Close i) r (lookup s)"
    and dup_law: "ok s \<Longrightarrow> dup i j s = (r, s') \<Longrightarrow>
      ok s' \<and> answer_ok mine slot (lookup s) (Dup i j) r \<and> lookup s' = map_step (Dup i j) r (lookup s)"
begin

lemma run_is_map:
  "ok s \<Longrightarrow> table_run add cl dup ops s = (rs, t) \<Longrightarrow>
   ok t \<and> honest mine slot (lookup s) ops rs \<and> lookup t = replay ops rs (lookup s)"
proof (induction ops arbitrary: s rs)
  case (Cons x ops)
  obtain r s' where step: "(case x of Add h \<Rightarrow> add h s | Close i \<Rightarrow> cl i s | Dup i j \<Rightarrow> dup i j s) = (r, s')"
    by fastforce
  obtain rs' where rs: "rs = r # rs'" "table_run add cl dup ops s' = (rs', t)"
    using Cons.prems(2) step by (auto split: prod.splits)
  have "ok s' \<and> answer_ok mine slot (lookup s) x r \<and> lookup s' = map_step x r (lookup s)"
    using step add_law [OF Cons.prems(1)] close_law [OF Cons.prems(1)] dup_law [OF Cons.prems(1)] by (cases x) auto
  then show ?case using Cons.IH [of s' rs'] rs by auto
qed simp

end

section \<open>State\<close>

record process =
  p_files :: "nat option list"
  p_sems :: "nat option list"
  p_children :: "nat option list"
  p_output :: nat
  p_pd :: u32

definition NSEM :: nat where "NSEM = 10"
definition NCHILD :: nat where "NCHILD = 10"
definition NFILE :: nat where "NFILE = 10"

definition FL :: u32 where "FL = 0x00000000"
definition PROC :: u32 where "PROC = 0x10000000"
definition SEM :: u32 where "SEM = 0x20000000"
definition INDEX_MASK :: u32 where "INDEX_MASK = 0x0FFFFFFF"

text \<open>The constructor, given the future and the page directory it makes, and the console file.\<close>

definition process_init :: "bool \<Rightarrow> nat \<Rightarrow> u32 \<Rightarrow> nat \<Rightarrow> process" where
  "process_init isInit out pd console =
     \<lparr>p_files = (if isInit then [Some console, Some console, Some console] @ replicate (NFILE - 3) None
                 else replicate NFILE None),
      p_sems = replicate NSEM None, p_children = replicate NCHILD None, p_output = out, p_pd = pd\<rparr>"

section \<open>Ids\<close>

definition getSemaphoreIndex :: "u32 \<Rightarrow> int" where
  "getSemaphoreIndex i =
     (let kind = i AND 0xF0000000; index = i AND INDEX_MASK in
      if kind \<noteq> SEM then -1 else if uint index \<ge> int NSEM then -1 else uint index)"

definition getChildIndex :: "u32 \<Rightarrow> int" where
  "getChildIndex i =
     (let kind = i AND 0xF0000000; index = i AND INDEX_MASK in
      if kind \<noteq> PROC then -1 else if uint index \<ge> int NCHILD then -1 else uint index)"

definition getFileIndex :: "u32 \<Rightarrow> int" where
  "getFileIndex i =
     (let kind = i AND 0xF0000000; index = i AND INDEX_MASK in
      if kind \<noteq> FL then -1 else if uint index \<ge> int NFILE then -1 else uint index)"

section \<open>Operations\<close>

text \<open>The loops that look for the first null slot.\<close>

fun free_slot :: "nat \<Rightarrow> nat option list \<Rightarrow> nat option" where
  "free_slot i [] = None"
| "free_slot i (None # xs) = Some i"
| "free_slot i (Some h # xs) = free_slot (Suc i) xs"

definition newSemaphore :: "nat \<Rightarrow> process \<Rightarrow> u32 \<times> process" where
  "newSemaphore h p =
     (case free_slot 0 (p_sems p) of
        None \<Rightarrow> (-1, p)
      | Some i \<Rightarrow> (SEM OR (of_nat i AND INDEX_MASK), p\<lparr>p_sems := (p_sems p)[i := Some h]\<rparr>))"

definition getSemaphore :: "u32 \<Rightarrow> process \<Rightarrow> nat option" where
  "getSemaphore i p =
     (let idx = i AND INDEX_MASK in
      if uint idx \<ge> int NSEM \<or> i AND 0xF0000000 \<noteq> 0x20000000 then None
      else p_sems p ! unat idx)"

definition getFile :: "u32 \<Rightarrow> process \<Rightarrow> nat option" where
  "getFile fd p =
     (let i = getFileIndex fd in
      if i < 0 then None else p_files p ! nat (sint fd))"

definition setFile :: "nat \<Rightarrow> process \<Rightarrow> u32 \<times> process" where
  "setFile h p =
     (case free_slot 0 (p_files p) of
        None \<Rightarrow> (-1, p)
      | Some i \<Rightarrow> (of_nat i, p\<lparr>p_files := (p_files p)[i := Some h]\<rparr>))"

definition close :: "u32 \<Rightarrow> process \<Rightarrow> u32 \<times> process" where
  "close i p =
     (let index = getSemaphoreIndex i in
      if index \<noteq> -1 then
        (if p_sems p ! nat index = None then (-1, p)
         else (0, p\<lparr>p_sems := (p_sems p)[nat index := None]\<rparr>))
      else let index = getChildIndex i in
      if index \<noteq> -1 then
        (if p_children p ! nat index = None then (-1, p)
         else (0, p\<lparr>p_children := (p_children p)[nat index := None]\<rparr>))
      else let index = getFileIndex i in
      if index \<noteq> -1 then
        (if p_files p ! nat index = None then (-1, p)
         else (0, p\<lparr>p_files := (p_files p)[nat index := None]\<rparr>))
      else (-1, p))"

definition dup2 :: "u32 \<Rightarrow> u32 \<Rightarrow> process \<Rightarrow> u32 \<times> process" where
  "dup2 oldfd newfd p =
     (if oldfd = newfd then (newfd, p)
      else if sint oldfd < 0 \<or> sint oldfd \<ge> int NFILE \<or> p_files p ! nat (sint oldfd) = None then (-1, p)
      else if sint newfd < 0 \<or> sint newfd \<ge> int NFILE then (-1, p)
      else
        let (r, p1) = close newfd p
        in (newfd, p1\<lparr>p_files := (p_files p1)[nat (sint newfd) := p_files p1 ! nat (sint oldfd)]\<rparr>))"

text \<open>The part of \<open>fork\<close> that is about the tables; the copy of the address space is in \<open>Fork\<close>.\<close>

definition fork_tables :: "nat \<Rightarrow> u32 \<Rightarrow> process \<Rightarrow> u32 \<times> process option \<times> process" where
  "fork_tables out pd p =
     (case free_slot 0 (p_children p) of
        None \<Rightarrow> (-1, None, p)
      | Some index \<Rightarrow>
          let child = process_init False out pd 0 in
          (PROC OR of_nat index,
           Some (child\<lparr>p_sems := p_sems p, p_files := p_files p\<rparr>),
           p\<lparr>p_children := (p_children p)[index := Some (p_output child)]\<rparr>))"

text \<open>\<open>wait\<close>: \<open>None\<close> while the child's future is not set; otherwise the result, the status that is
  stored through the pointer, and the process.\<close>

definition wait :: "(nat \<Rightarrow> u32 option) \<Rightarrow> u32 \<Rightarrow> process \<Rightarrow> (u32 \<times> u32 option \<times> process) option" where
  "wait futures i p =
     (let index = getChildIndex i in
      if index < 0 then Some (word_of_int index, None, p)
      else case p_children p ! nat index of
        None \<Rightarrow> Some (-1, None, p)
      | Some e \<Rightarrow>
          (case futures e of
             None \<Rightarrow> None
           | Some status \<Rightarrow> Some (0, Some status, p\<lparr>p_children := (p_children p)[nat index := None]\<rparr>)))"

section \<open>What an id stands for\<close>

datatype object = SemObj nat | ChildObj nat | FileObj nat

definition process_ok :: "process \<Rightarrow> bool" where
  "process_ok p \<longleftrightarrow> length (p_files p) = NFILE \<and> length (p_sems p) = NSEM \<and> length (p_children p) = NCHILD"

definition object_of :: "process \<Rightarrow> u32 \<Rightarrow> object option" where
  "object_of p i =
     (if uint i < 10 then map_option FileObj (p_files p ! unat i)
      else if 0x10000000 \<le> uint i \<and> uint i < 0x1000000A then map_option ChildObj (p_children p ! unat (i - 0x10000000))
      else if 0x20000000 \<le> uint i \<and> uint i < 0x2000000A then map_option SemObj (p_sems p ! unat (i - 0x20000000))
      else None)"

text \<open>The kind of an id is its number divided by \<open>2 ^ 28\<close>, the index the rest.\<close>

lemma id_parts:
  "uint (i AND 0xF0000000 :: u32) = 0x10000000 * (uint i div 0x10000000)"
  "uint (i AND INDEX_MASK) = uint i mod 0x10000000"
proof -
  have "0 \<le> uint i div 0x10000000" by (simp add: pos_imp_zdiv_nonneg_iff)
  have e: "0xF0000000 = NOT (mask 28 :: u32)" "INDEX_MASK = (mask 28 :: u32)"
    by (simp_all add: mask_eq_exp_minus_1 INDEX_MASK_def)
  have "i AND NOT (mask 28) = push_bit 28 (drop_bit 28 i)"
    by (rule bit_word_eqI) (auto simp: bit_simps)
  then have "i AND NOT (mask 28) = 0x10000000 * (i div 0x10000000)"
    by (simp add: push_bit_eq_mult drop_bit_eq_div mult.commute)
  moreover have "0 \<le> 0x10000000 * (uint i div 0x10000000)"
    "0x10000000 * (uint i div 0x10000000) < 0x100000000"
    using uint_bounded [of i] \<open>0 \<le> uint i div 0x10000000\<close> by simp_all
  ultimately show "uint (i AND 0xF0000000 :: u32) = 0x10000000 * (uint i div 0x10000000)"
    unfolding e
    by (simp add: uint_word_ariths uint_div mod_pos_pos_trivial)
  show "uint (i AND INDEX_MASK) = uint i mod 0x10000000"
    unfolding e take_bit_eq_mask [symmetric] by (simp add: unsigned_take_bit_eq take_bit_eq_mod uint_mod)
qed

lemma id_kind: "(i AND 0xF0000000 = k) \<longleftrightarrow> 0x10000000 * (uint i div 0x10000000) = uint (k :: u32)"
  by (metis id_parts(1) word_uint_eq_iff)

lemma index_cases:
  fixes i :: u32
  shows "getFileIndex i = (if uint i < 10 then uint i else -1)"
    and "getChildIndex i = (if 0x10000000 \<le> uint i \<and> uint i < 0x1000000A then uint i - 0x10000000 else -1)"
    and "getSemaphoreIndex i = (if 0x20000000 \<le> uint i \<and> uint i < 0x2000000A then uint i - 0x20000000 else -1)"
proof -
  define q r where "q = uint i div 0x10000000" and "r = uint i mod 0x10000000"
  have u: "uint i = 0x10000000 * q + r" "0 \<le> r" "r < 0x10000000" "0 \<le> q"
    by (simp_all add: q_def r_def pos_imp_zdiv_nonneg_iff)
  show "getFileIndex i = (if uint i < 10 then uint i else -1)"
    unfolding getFileIndex_def Let_def id_kind id_parts FL_def NFILE_def q_def [symmetric] r_def [symmetric]
    using u by auto
  show "getChildIndex i = (if 0x10000000 \<le> uint i \<and> uint i < 0x1000000A then uint i - 0x10000000 else -1)"
    unfolding getChildIndex_def Let_def id_kind id_parts PROC_def NCHILD_def q_def [symmetric] r_def [symmetric]
    using u by auto
  show "getSemaphoreIndex i = (if 0x20000000 \<le> uint i \<and> uint i < 0x2000000A then uint i - 0x20000000 else -1)"
    unfolding getSemaphoreIndex_def Let_def id_kind id_parts SEM_def NSEM_def q_def [symmetric] r_def [symmetric]
    using u by auto
qed

section \<open>The tables provide the interface\<close>

lemma free_slot_cases:
  "free_slot j xs = Some i \<Longrightarrow> j \<le> i \<and> i < j + length xs \<and> xs ! (i - j) = None"
  "free_slot j xs = None \<Longrightarrow> k < length xs \<Longrightarrow> xs ! k \<noteq> None"
proof -
  show "free_slot j xs = Some i \<Longrightarrow> j \<le> i \<and> i < j + length xs \<and> xs ! (i - j) = None"
  proof (induction j xs rule: free_slot.induct)
    case (3 j h xs)
    then have "Suc j \<le> i \<and> i < Suc j + length xs \<and> xs ! (i - Suc j) = None" by simp
    moreover from this have "i - j = Suc (i - Suc j)" by arith
    ultimately show ?case by simp
  qed auto
  show "free_slot j xs = None \<Longrightarrow> k < length xs \<Longrightarrow> xs ! k \<noteq> None"
  proof (induction j xs arbitrary: k rule: free_slot.induct)
    case (3 j h xs)
    then show ?case by (cases k) auto
  qed auto
qed

text \<open>The ids of a kind are consecutive numbers.\<close>

definition kind_base :: "object \<Rightarrow> u32" where
  "kind_base x = (case x of FileObj _ \<Rightarrow> FL | ChildObj _ \<Rightarrow> PROC | SemObj _ \<Rightarrow> SEM)"

definition of_kind :: "object \<Rightarrow> u32 \<Rightarrow> bool" where
  "of_kind x i \<longleftrightarrow> uint (kind_base x) \<le> uint i \<and> uint i < uint (kind_base x) + 10"

definition file_id :: "u32 \<Rightarrow> bool" where
  "file_id i \<longleftrightarrow> uint i < 10"

definition process_add :: "u32 \<Rightarrow> object \<Rightarrow> process \<Rightarrow> u32 \<times> process" where
  "process_add pd x p =
     (case x of
        SemObj h \<Rightarrow> newSemaphore h p
      | FileObj h \<Rightarrow> setFile h p
      | ChildObj h \<Rightarrow> (case fork_tables h pd p of (r, child, p') \<Rightarrow> (r, p')))"

lemma ten_cases:
  assumes "i < (10 :: nat)"
  obtains "i = 0" | "i = 1" | "i = 2" | "i = 3" | "i = 4" | "i = 5" | "i = 6" | "i = 7" | "i = 8" | "i = 9"
proof -
  have "i = 0 \<or> i = 1 \<or> i = 2 \<or> i = 3 \<or> i = 4 \<or> i = 5 \<or> i = 6 \<or> i = 7 \<or> i = 8 \<or> i = 9"
    using assms by arith
  then show ?thesis using that by blast
qed

lemma made_ids:
  assumes "i < 10"
  shows "SEM OR (of_nat i AND INDEX_MASK) = 0x20000000 + of_nat i" "PROC OR of_nat i = 0x10000000 + of_nat i"
  using assms by (cases rule: ten_cases; simp add: SEM_def PROC_def INDEX_MASK_def)+

lemma id_slot:
  assumes "uint b \<le> uint (j :: u32)"
  shows "unat (j - b) = nat (uint j - uint b)"
proof -
  have "uint (j - b) = uint j - uint b"
    using assms by uint_arith
  then show ?thesis by (metis nat_uint_eq)
qed

lemma id_number: "uint b \<le> 0x20000000 \<Longrightarrow> k < 10 \<Longrightarrow> uint (b + of_nat k :: u32) = uint b + int k"
proof -
  assume b: "uint b \<le> 0x20000000" and k: "k < 10"
  have "uint (of_nat k :: u32) = int k" using u32_uint [of "int k"] k by simp
  moreover have "(uint b + int k) mod 0x100000000 = uint b + int k"
    using b k uint_ge_0 [of b] by (intro mod_pos_pos_trivial) linarith+
  ultimately show ?thesis by (simp add: uint_word_ariths)
qed

lemma object_of_alt:
  "object_of p i =
     (if of_kind (FileObj 0) i then map_option FileObj (p_files p ! nat (uint i))
      else if of_kind (ChildObj 0) i then map_option ChildObj (p_children p ! nat (uint i - 0x10000000))
      else if of_kind (SemObj 0) i then map_option SemObj (p_sems p ! nat (uint i - 0x20000000))
      else None)"
  using id_slot [of "0x10000000" i] id_slot [of "0x20000000" i]
  by (auto simp: object_of_def of_kind_def kind_base_def FL_def PROC_def SEM_def)

lemma of_kind_simps [simp]:
  "of_kind (FileObj h) i \<longleftrightarrow> uint i < 10"
  "of_kind (ChildObj h) i \<longleftrightarrow> 0x10000000 \<le> uint i \<and> uint i < 0x1000000A"
  "of_kind (SemObj h) i \<longleftrightarrow> 0x20000000 \<le> uint i \<and> uint i < 0x2000000A"
  by (simp_all add: of_kind_def kind_base_def FL_def PROC_def SEM_def)

text \<open>Writing one slot changes the map at one id.\<close>

lemma object_of_slot:
  assumes "process_ok p" "k < 10"
  shows "object_of (p\<lparr>p_files := (p_files p)[k := x]\<rparr>) = (object_of p)(of_nat k := map_option FileObj x)"
    and "object_of (p\<lparr>p_children := (p_children p)[k := x]\<rparr>) =
      (object_of p)(0x10000000 + of_nat k := map_option ChildObj x)"
    and "object_of (p\<lparr>p_sems := (p_sems p)[k := x]\<rparr>) =
      (object_of p)(0x20000000 + of_nat k := map_option SemObj x)"
proof -
  have len: "length (p_files p) = 10" "length (p_children p) = 10" "length (p_sems p) = 10"
    using assms by (simp_all add: process_ok_def NFILE_def NCHILD_def NSEM_def)
  have u: "uint (of_nat k :: u32) = int k" "uint (0x10000000 + of_nat k :: u32) = 0x10000000 + int k"
      "uint (0x20000000 + of_nat k :: u32) = 0x20000000 + int k"
    using id_number [of 0 k] id_number [of "0x10000000" k] id_number [of "0x20000000" k] assms(2) by simp_all
  show "object_of (p\<lparr>p_files := (p_files p)[k := x]\<rparr>) = (object_of p)(of_nat k := map_option FileObj x)"
    using assms(2) len u by (auto simp: fun_eq_iff object_of_alt word_uint_eq_iff nth_list_update)
  show "object_of (p\<lparr>p_children := (p_children p)[k := x]\<rparr>) =
      (object_of p)(0x10000000 + of_nat k := map_option ChildObj x)"
    using assms(2) len u by (auto simp: fun_eq_iff object_of_alt word_uint_eq_iff nth_list_update)
  show "object_of (p\<lparr>p_sems := (p_sems p)[k := x]\<rparr>) =
      (object_of p)(0x20000000 + of_nat k := map_option SemObj x)"
    using assms(2) len u by (auto simp: fun_eq_iff object_of_alt word_uint_eq_iff nth_list_update)
qed

lemma process_lengths:
  "process_ok p \<Longrightarrow> length (p_files p) = 10 \<and> length (p_children p) = 10 \<and> length (p_sems p) = 10"
  by (simp add: process_ok_def NFILE_def NCHILD_def NSEM_def)

lemma not_minus_one:
  "i < 10 \<Longrightarrow> (of_nat i :: u32) \<noteq> -1" "i < 10 \<Longrightarrow> 0x10000000 + (of_nat i :: u32) \<noteq> -1"
  "i < 10 \<Longrightarrow> 0x20000000 + (of_nat i :: u32) \<noteq> -1"
proof -
  have m: "uint (-1 :: u32) = 0xFFFFFFFF" by (simp add: unsigned_minus_1_eq_mask mask_eq_exp_minus_1)
  show "i < 10 \<Longrightarrow> (of_nat i :: u32) \<noteq> -1" using id_number [of 0 i] m by (intro notI) simp
  show "i < 10 \<Longrightarrow> 0x10000000 + (of_nat i :: u32) \<noteq> -1"
    using id_number [of "0x10000000" i] m by (intro notI) (simp only:, simp)
  show "i < 10 \<Longrightarrow> 0x20000000 + (of_nat i :: u32) \<noteq> -1"
    using id_number [of "0x20000000" i] m by (intro notI) (simp only:, simp)
qed

lemma small_unat: "uint (i :: u32) < int n \<longleftrightarrow> unat i < n"
  by (metis of_nat_less_iff uint_nat)

lemma add_ok:
  assumes ok: "process_ok p" and a: "process_add pd x p = (r, p')"
  shows "process_ok p' \<and> answer_ok of_kind file_id (object_of p) (Add x) r \<and>
    object_of p' = map_step (Add x) r (object_of p)"
proof -
  note L = process_lengths [OF ok] and slot = object_of_slot [OF ok]
  have full: "map_option f (xs ! k) \<noteq> None" if "free_slot 0 xs = None" "k < length xs" for f k and xs :: "nat option list"
    using free_slot_cases(2) [OF that] by simp
  show ?thesis
  proof (cases x)
    case (SemObj h)
    show ?thesis
    proof (cases "free_slot 0 (p_sems p)")
      case None
      then have "r = -1" "p' = p" using a SemObj by (simp_all add: process_add_def newSemaphore_def)
      moreover have "object_of p i \<noteq> None" if "of_kind (SemObj h) i" for i
        using that L full [OF None, of "nat (uint i - 0x20000000)"] by (auto simp: object_of_alt)
      ultimately show ?thesis using ok SemObj by (auto simp: answer_ok_def map_step_def)
    next
      case (Some k)
      then have k: "k < 10" "p_sems p ! k = None" using free_slot_cases(1) [OF Some] L by auto
      then have "r = 0x20000000 + of_nat k" "p' = p\<lparr>p_sems := (p_sems p)[k := Some h]\<rparr>"
        using a SemObj Some by (simp_all add: process_add_def newSemaphore_def made_ids)
      then show ?thesis
        using k slot(3) [of k] not_minus_one(3) [of k] id_number [of "0x20000000" k] SemObj ok
        by (auto simp: answer_ok_def map_step_def object_of_alt process_ok_def)
    qed
  next
    case (ChildObj h)
    show ?thesis
    proof (cases "free_slot 0 (p_children p)")
      case None
      then have "r = -1" "p' = p" using a ChildObj by (simp_all add: process_add_def fork_tables_def)
      moreover have "object_of p i \<noteq> None" if "of_kind (ChildObj h) i" for i
        using that L full [OF None, of "nat (uint i - 0x10000000)"] by (auto simp: object_of_alt)
      ultimately show ?thesis using ok ChildObj by (auto simp: answer_ok_def map_step_def)
    next
      case (Some k)
      then have k: "k < 10" "p_children p ! k = None" using free_slot_cases(1) [OF Some] L by auto
      then have "r = 0x10000000 + of_nat k" "p' = p\<lparr>p_children := (p_children p)[k := Some h]\<rparr>"
        using a ChildObj Some by (auto simp: process_add_def fork_tables_def made_ids process_init_def Let_def)
      then show ?thesis
        using k slot(2) [of k] not_minus_one(2) [of k] id_number [of "0x10000000" k] ChildObj ok
        by (auto simp: answer_ok_def map_step_def object_of_alt process_ok_def)
    qed
  next
    case (FileObj h)
    show ?thesis
    proof (cases "free_slot 0 (p_files p)")
      case None
      then have "r = -1" "p' = p" using a FileObj by (simp_all add: process_add_def setFile_def)
      moreover have "object_of p i \<noteq> None" if "of_kind (FileObj h) i" for i
        using that L full [OF None, of "unat i"] small_unat [of i 10] by (auto simp: object_of_alt)
      ultimately show ?thesis using ok FileObj by (auto simp: answer_ok_def map_step_def)
    next
      case (Some k)
      then have k: "k < 10" "p_files p ! k = None" using free_slot_cases(1) [OF Some] L by auto
      then have "r = of_nat k" "p' = p\<lparr>p_files := (p_files p)[k := Some h]\<rparr>"
        using a FileObj Some by (simp_all add: process_add_def setFile_def)
      then show ?thesis
        using k slot(1) [of k] not_minus_one(1) [of k] id_number [of 0 k] FileObj ok
        by (auto simp: answer_ok_def map_step_def object_of_alt process_ok_def)
    qed
  qed
qed

lemma id_of_number:
  fixes b i :: u32
  assumes "uint b \<le> 0x20000000" "uint b \<le> uint i" "uint i < uint b + 10"
  shows "\<exists>k < 10. i = b + of_nat k"
proof (intro exI conjI)
  show k: "nat (uint i - uint b) < 10" using assms by linarith
  show "i = b + of_nat (nat (uint i - uint b))"
    using id_number [OF assms(1) k] assms(2) by (simp add: word_uint_eq_iff)
qed

lemma id_cases:
  obtains (sem) k where "k < 10" "i = 0x20000000 + of_nat k" | (child) k where "k < 10" "i = 0x10000000 + of_nat k"
    | (fl) k where "k < 10" "i = of_nat k" | (none) "\<not> of_kind (SemObj 0) i" "\<not> of_kind (ChildObj 0) i" "\<not> of_kind (FileObj 0) i"
  using id_of_number [of "0x20000000" i] id_of_number [of "0x10000000" i] id_of_number [of 0 i] by auto

lemma close_ok:
  assumes ok: "process_ok p" and c: "close i p = (r, p')"
  shows "process_ok p' \<and> answer_ok of_kind file_id (object_of p) (Close i) r \<and>
    object_of p' = map_step (Close i) r (object_of p)"
proof -
  note L = process_lengths [OF ok]
  have drop: "object_of p i = None \<Longrightarrow> map_step (Close i) r (object_of p) = object_of p" for r
    by (auto simp: map_step_def)
  show ?thesis
  proof (cases rule: id_cases [of i])
    case (sem k)
    then have u: "uint i = 0x20000000 + int k" using id_number [of "0x20000000" k] by simp
    then show ?thesis
      using c ok sem object_of_slot(3) [OF ok sem(1)] drop
      by (auto simp: close_def index_cases answer_ok_def map_step_def object_of_alt process_ok_def Let_def split: if_splits)
  next
    case (child k)
    then have u: "uint i = 0x10000000 + int k" using id_number [of "0x10000000" k] by simp
    then show ?thesis
      using c ok child object_of_slot(2) [OF ok child(1)] drop
      by (auto simp: close_def index_cases answer_ok_def map_step_def object_of_alt process_ok_def Let_def split: if_splits)
  next
    case (fl k)
    then have u: "uint i = int k" using id_number [of 0 k] by simp
    then show ?thesis
      using c ok fl object_of_slot(1) [OF ok fl(1)] drop
      by (auto simp: close_def index_cases answer_ok_def map_step_def object_of_alt process_ok_def Let_def split: if_splits)
  next
    case none
    then have "object_of p i = None" by (auto simp: object_of_alt)
    moreover have "r = -1" "p' = p" using c none by (auto simp: close_def index_cases)
    ultimately show ?thesis using ok drop by (auto simp: answer_ok_def)
  qed
qed

lemma file_descriptor: "sint (i :: u32) < 0 \<or> int NFILE \<le> sint i \<longleftrightarrow> \<not> uint i < 10"
  using uint_bounded [of i] by (auto simp: sint_u32 NFILE_def)

lemma dup2_ok:
  assumes ok: "process_ok p" and c: "dup2 i j p = (r, p')"
  shows "process_ok p' \<and> answer_ok of_kind file_id (object_of p) (Dup i j) r \<and>
    object_of p' = map_step (Dup i j) r (object_of p)"
proof -
  note L = process_lengths [OF ok]
  have files: "object_of p k = map_option FileObj (p_files p ! unat k)" if "uint k < 10" for k
    using that by (simp add: object_of_alt)
  consider (same) "i = j" | (bad) "i \<noteq> j" "\<not> (file_id i \<and> file_id j \<and> object_of p i \<noteq> None)"
    | (good) "i \<noteq> j" "file_id i" "file_id j" "object_of p i \<noteq> None" by blast
  then show ?thesis
  proof cases
    case same
    then show ?thesis using c ok by (auto simp: dup2_def answer_ok_def map_step_def)
  next
    case bad
    then have "r = -1 \<and> p' = p"
      using c files [of i] file_descriptor [of i] file_descriptor [of j]
      by (auto simp: dup2_def file_id_def sint_u32 split: if_splits)
    then show ?thesis using bad ok by (auto simp: answer_ok_def map_step_def)
  next
    case good
    then have fd: "uint i < 10" "uint j < 10" and ij: "unat i \<noteq> unat j"
      using u32_unat_eqI by (auto simp: file_id_def)
    have s: "sint i = uint i" "sint j = uint j" using fd by (simp_all add: sint_u32)
    have open_i: "p_files p ! unat i \<noteq> None" using good(4) files [OF fd(1)] by auto
    obtain q p1 where cl: "close j p = (q, p1)" by fastforce
    have len: "unat i < 10" "unat j < 10" using fd small_unat [of _ 10] by auto
    have "p1 = p \<or> p1 = p\<lparr>p_files := (p_files p)[unat j := None]\<rparr>"
      using cl fd by (auto simp: close_def index_cases Let_def split: if_splits)
    moreover have "r = j \<and> p' = p1\<lparr>p_files := (p_files p1)[unat j := p_files p1 ! unat i]\<rparr>"
      using c good fd s open_i cl by (auto simp: dup2_def NFILE_def)
    ultimately have p': "r = j \<and> p' = p\<lparr>p_files := (p_files p)[unat j := p_files p ! unat i]\<rparr>"
      using ij by auto
    have jn: "j \<noteq> -1" using fd(2) by (auto simp: unsigned_minus_1_eq_mask mask_eq_exp_minus_1)
    have "of_nat (unat j) = j" by simp
    then show ?thesis
      using object_of_slot(1) [OF ok len(2), of "p_files p ! unat i"] p' good files [OF fd(1)] ok jn
      by (auto simp: answer_ok_def map_step_def process_ok_def)
  qed
qed

interpretation process_table: id_table process_ok object_of of_kind file_id "process_add pd" close dup2 for pd
  by unfold_locales (use add_ok close_ok dup2_ok in blast)+

section \<open>Properties\<close>

text \<open>The empty process, and the handlers an id leads to.\<close>

lemma init_ok: "process_ok (process_init isInit out pd console)"
  by (simp add: process_ok_def process_init_def NFILE_def NSEM_def NCHILD_def)

lemma get_object:
  assumes "process_ok p"
  shows "map_option SemObj (getSemaphore i p) = (if of_kind (SemObj 0) i then object_of p i else None)"
    and "map_option FileObj (getFile i p) = (if of_kind (FileObj 0) i then object_of p i else None)"
proof -
  have "uint (i AND INDEX_MASK) \<noteq> -1" using uint_ge_0 [of "i AND INDEX_MASK"] by linarith
  then have "getSemaphore i p = (if getSemaphoreIndex i = -1 then None else p_sems p ! nat (getSemaphoreIndex i))"
    by (auto simp: getSemaphore_def getSemaphoreIndex_def Let_def NSEM_def SEM_def)
  then show "map_option SemObj (getSemaphore i p) = (if of_kind (SemObj 0) i then object_of p i else None)"
    by (auto simp: object_of_alt index_cases)
  show "map_option FileObj (getFile i p) = (if of_kind (FileObj 0) i then object_of p i else None)"
    by (auto simp: getFile_def index_cases object_of_alt sint_u32)
qed

lemma fork_slot:
  assumes ok: "process_ok p" and f: "fork_tables out pd p = (i, Some child, p1)"
  obtains k where "k < 10" "i = 0x10000000 + of_nat k" "p_children p ! k = None"
    "p1 = p\<lparr>p_children := (p_children p)[k := Some out]\<rparr>"
    "child = (process_init False out pd 0)\<lparr>p_sems := p_sems p, p_files := p_files p\<rparr>"
proof (cases "free_slot 0 (p_children p)")
  case None
  then show ?thesis using f by (simp add: fork_tables_def)
next
  case (Some k)
  then have k: "k < 10" "p_children p ! k = None"
    using free_slot_cases(1) [OF Some] process_lengths [OF ok] by auto
  have o: "p_output (process_init False out pd 0) = out" by (simp add: process_init_def)
  show ?thesis
  proof (rule that [OF k(1) _ k(2)])
    show "i = 0x10000000 + of_nat k" "p1 = p\<lparr>p_children := (p_children p)[k := Some out]\<rparr>"
      "child = (process_init False out pd 0)\<lparr>p_sems := p_sems p, p_files := p_files p\<rparr>"
      using f Some k made_ids(2) [of k] o by (auto simp: fork_tables_def Let_def)
  qed
qed

lemma wait_child:
  assumes "k < 10" "i = 0x10000000 + of_nat k" "p_children p ! k = Some e"
  shows "wait futures i p = (case futures e of None \<Rightarrow> None
    | Some status \<Rightarrow> Some (0, Some status, p\<lparr>p_children := (p_children p)[k := None]\<rparr>))"
  using assms id_number [of "0x10000000" k] by (simp add: wait_def index_cases Let_def cong: option.case_cong)

text \<open>
  C27. Whatever sequence of openings (semaphores, files, children), closings and duplications a process
  makes, its tables are a partial map from ids to objects: an opening answers an id of its kind that
  names nothing yet, or -1 when all ten of the kind are in use; close answers 0 exactly for the ids in
  use and frees that id only; dup2 gives the new descriptor the old one's file. The semaphore and file
  that the system calls find under an id are the ones the map has there.
\<close>

theorem descriptor_tables:
  "case table_run (process_add pd') close dup2 ops (process_init isInit out pd console) of (answers, p) \<Rightarrow>
     process_ok p \<and>
     honest of_kind file_id (object_of (process_init isInit out pd console)) ops answers \<and>
     object_of p = replay ops answers (object_of (process_init isInit out pd console)) \<and>
     map_option SemObj (getSemaphore i p) = (if of_kind (SemObj 0) i then object_of p i else None) \<and>
     map_option FileObj (getFile i p) = (if of_kind (FileObj 0) i then object_of p i else None)"
proof -
  obtain rs p where r: "table_run (process_add pd') close dup2 ops (process_init isInit out pd console) = (rs, p)"
    by fastforce
  note run = process_table.run_is_map [OF init_ok r]
  then show ?thesis
    unfolding r prod.case using get_object [of p i] by blast
qed

text \<open>
  A child inherits its parent's files and semaphores and no children; the id that fork answers is
  one the parent did not use, wait on it blocks while the child runs, then answers 0 with the child's
  exit status and gives the id back, so that the parent's tables are as before the fork and a second
  wait answers -1.
\<close>

theorem fork_wait_roundtrip:
  assumes "process_ok p" "fork_tables out pd p = (i, Some child, p1)"
    and "futures out = None" "futures' out = Some status"
  shows "object_of p i = None \<and>
    object_of child = (\<lambda>d. if of_kind (ChildObj 0) d then None else object_of p d) \<and>
    wait futures i p1 = None \<and>
    (\<exists>p2. wait futures' i p1 = Some (0, Some status, p2) \<and> object_of p2 = object_of p \<and>
      wait futures' i p2 = Some (-1, None, p2))"
proof -
  obtain k where k: "k < 10" "i = 0x10000000 + of_nat k" "p_children p ! k = None"
    "p1 = p\<lparr>p_children := (p_children p)[k := Some out]\<rparr>"
    "child = (process_init False out pd 0)\<lparr>p_sems := p_sems p, p_files := p_files p\<rparr>"
    using fork_slot [OF assms(1,2)] by blast
  have u: "uint i = 0x10000000 + int k" using id_number [of "0x10000000" k] k by simp
  have child_at: "p_children p1 ! k = Some out" using k(1,4) process_lengths [OF assms(1)] by simp
  have restored: "p1\<lparr>p_children := (p_children p1)[k := None]\<rparr> = p"
    using k(3,4) list_update_id [of "p_children p" k] by simp
  have none: "object_of p i = None" using u k(1,3) by (simp add: object_of_alt)
  have "object_of child = (\<lambda>d. if of_kind (ChildObj 0) d then None else object_of p d)"
    unfolding k(5)
    by (auto simp: fun_eq_iff object_of_alt process_init_def NCHILD_def)
  moreover have "wait futures' i p = Some (-1, None, p)"
    using u k(1,3) by (simp add: wait_def index_cases)
  ultimately show ?thesis
    using none wait_child [OF k(1,2) child_at] assms(3,4) restored by simp
qed

theorem fork_wait_roundtrip_witness:
  "object_of (process_init True 1 0 9) 0x10000000 = None \<and>
    (\<exists>p1 p2. fork_tables 5 0 (process_init True 1 0 9) =
        (0x10000000, Some ((process_init False 5 0 0)\<lparr>p_files := p_files (process_init True 1 0 9)\<rparr>), p1) \<and>
      wait (\<lambda>e. Some 42) 0x10000000 p1 = Some (0, Some 42, p2) \<and>
      object_of p2 = object_of (process_init True 1 0 9))"
proof -
  define p where "p = process_init True 1 0 9"
  have sems: "p_sems p = p_sems (process_init False 5 0 0)" "p_children p = replicate 10 None"
    by (simp_all add: p_def process_init_def NCHILD_def)
  have "fork_tables 5 0 p = (0x10000000, Some ((process_init False 5 0 0)\<lparr>p_sems := p_sems p, p_files := p_files p\<rparr>),
      p\<lparr>p_children := (p_children p)[0 := Some 5]\<rparr>)"
    by (simp add: fork_tables_def sems numeral_eq_Suc) (simp add: PROC_def process_init_def)
  note f = this
  from fork_wait_roundtrip [OF init_ok [of True 1 0 9, folded p_def] f, of "\<lambda>e. None" "\<lambda>e. Some 42" 42]
  show ?thesis unfolding p_def [symmetric]
    by (metis (no_types, lifting) f sems(1) process.surjective process.update_convs(2) process.select_convs(2))
qed

end
