(* ===== verification/Sys.thy ===== *)
theory Sys
  imports Files Process VMM
begin

text \<open>
  System calls (\<open>kernel/sys.cc\<close>): one definition per case of \<open>sysHandler\<close>, and \<open>SYS::exec\<close>. The handler
  sees the memory of the calling process, user and kernel, as one function from addresses to bytes;
  objects that processes share are numbered. A call answers a value, waits, ends the process, enters a
  new program, or halts the machine. Strings and argument lists in user memory end with a zero; scans
  for it, for a slash and along symbolic links take the bound \<open>env_fuel\<close>. Memory that a call touches is
  there (the page fault handler supplies it), except for the stores of the program loader, and allocation
  in the kernel succeeds.
\<close>

section \<open>State\<close>

record kernel_env =
  env_fs :: ext2
  env_root :: ext2_node
  env_config :: Config
  env_cwd :: u32                          \<comment> \<open>where the literal ''sbin/testfolder'' is\<close>
  env_empty :: u32                        \<comment> \<open>where the literal of length 0 is\<close>
  env_fuel :: nat
  env_room :: "nat \<Rightarrow> nat \<Rightarrow> nat"           \<comment> \<open>bytes in the block that an allocation gets\<close>
  env_heap_tail :: "nat \<Rightarrow> nat \<Rightarrow> u8"     \<comment> \<open>bytes behind the copy of an argument\<close>
  env_new_pd :: "nat \<Rightarrow> u32"

record sys =
  s_io :: io_state
  s_proc :: process
  s_objects :: "nat \<Rightarrow> file_obj"
  s_sems :: "nat \<Rightarrow> nat \<times> nat"           \<comment> \<open>count, number of waiting threads\<close>
  s_futures :: "nat \<Rightarrow> u32 option"
  s_next :: nat
  s_threads :: "(process \<times> u32 \<times> u32 \<times> memory) list"

datatype sys_outcome =
  Return u32 sys | Waits sys | Exits sys | EnterUser u32 u32 sys | Shutdown

abbreviation s_mem :: "sys \<Rightarrow> memory" where
  "s_mem s \<equiv> io_mem (s_io s)"

definition set_mem :: "memory \<Rightarrow> sys \<Rightarrow> sys" where
  "set_mem m s = s\<lparr>s_io := (s_io s)\<lparr>io_mem := m\<rparr>\<rparr>"

definition store32 :: "u32 \<Rightarrow> u32 \<Rightarrow> memory \<Rightarrow> memory" where
  "store32 a w m = write_bytes a (put32 w) m"

text \<open>\<open>memcpy\<close>, a byte after the other.\<close>

fun copy_mem :: "u32 \<Rightarrow> u32 \<Rightarrow> nat \<Rightarrow> memory \<Rightarrow> memory" where
  "copy_mem d src 0 m = m"
| "copy_mem d src (Suc n) m = copy_mem (d + 1) (src + 1) n (m(d := m src))"

text \<open>The characters of a C string before its terminator; \<open>K::strlen\<close> is their number.\<close>

fun c_string :: "nat \<Rightarrow> memory \<Rightarrow> u32 \<Rightarrow> u8 list res" where
  "c_string 0 m a = Inl OutOfFuel"
| "c_string (Suc k) m a =
     (if m a = 0 then Inr [] else rbind (c_string k m (a + 1)) (\<lambda>cs. Inr (m a # cs)))"

definition strlen :: "nat \<Rightarrow> memory \<Rightarrow> u32 \<Rightarrow> nat res" where
  "strlen fuel m a = rbind (c_string fuel m a) (\<lambda>cs. Inr (length cs))"

text \<open>The words \<open>userEsp[i], userEsp[i + 1], \<dots>\<close> before the first null.\<close>

fun words_until_null :: "nat \<Rightarrow> memory \<Rightarrow> u32 \<Rightarrow> u32 list res" where
  "words_until_null 0 m a = Inl OutOfFuel"
| "words_until_null (Suc k) m a =
     (if load32 m a = 0 then Inr []
      else rbind (words_until_null k m (a + 4)) (\<lambda>ws. Inr (load32 m a # ws)))"

definition user_arg :: "u32 \<Rightarrow> nat \<Rightarrow> sys \<Rightarrow> u32" where
  "user_arg esp k s = load32 (s_mem s) (esp + 4 * of_nat k)"

section \<open>exec\<close>

definition elf_error :: "elf_header \<Rightarrow> u32 option" where
  "elf_error h =
     (if e_magic h \<noteq> [0x7F, 0x45, 0x4C, 0x46] then Some (-3)
      else if e_encoding h \<noteq> 1 then Some (-4)
      else if e_cls h \<noteq> 1 then Some (-5)
      else if e_abi h \<noteq> 0 then Some (-6)
      else if e_type h \<noteq> 2 then Some (-7)
      else if e_version h \<noteq> 1 then Some (-8)
      else if e_phoff h = 0 then Some (-9)
      else None)"

text \<open>\<open>clear_private\<close> as the process sees it: its pages are gone, and come back as zeros.\<close>

definition clear_private :: "Config \<Rightarrow> memory \<Rightarrow> memory" where
  "clear_private c m = (\<lambda>a. if is_special c (framedown a) then m a else 0)"

text \<open>The loop that copies the strings, from the last to the first, and records their addresses.\<close>

definition string_size :: "nat \<Rightarrow> nat" where
  "string_size len = (let sz = len + 1 in sz + (4 - sz mod 4))"

fun push_strings :: "(nat \<Rightarrow> nat \<Rightarrow> u8) \<Rightarrow> nat \<Rightarrow> u8 list list \<Rightarrow> u32 \<Rightarrow> memory \<Rightarrow> u32 list \<times> u32 \<times> memory" where
  "push_strings tail 0 argv sp m = ([], sp, m)"
| "push_strings tail (Suc k) argv sp m =
     (let str = argv ! k; sz = string_size (length str);
          elem = str @ [0] @ map (tail k) [0..<sz - (length str + 1)];
          sp1 = sp - of_nat sz;
          (addresses, sp2, m2) = push_strings tail k argv sp1 (write_bytes sp1 elem m)
      in (addresses @ [sp1], sp2, m2))"

fun push_words :: "u32 list \<Rightarrow> u32 \<Rightarrow> memory \<Rightarrow> u32 \<times> memory" where
  "push_words [] sp m = (sp, m)"
| "push_words (w # ws) sp m = push_words ws (sp - 4) (store32 (sp - 4) w m)"

definition exec_stack :: "(nat \<Rightarrow> nat \<Rightarrow> u8) \<Rightarrow> u8 list list \<Rightarrow> memory \<Rightarrow> u32 \<times> memory" where
  "exec_stack tail argv m =
     (let (addresses, sp1, m1) = push_strings tail (length argv) argv 0xefffe000 m;
          sp2 = sp1 - 4; m2 = bzero sp2 4 m1;
          (sp3, m3) = push_words (rev addresses) sp2 m2;
          sp4 = sp3 - 4; m4 = store32 sp4 (sp4 + 4) m3;
          sp5 = sp4 - 4; m5 = store32 sp5 (of_nat (length argv)) m4
      in (sp5, m5))"

definition sys_exit :: "u32 \<Rightarrow> sys \<Rightarrow> sys_outcome res" where
  "sys_exit status s =
     (let out = p_output (s_proc s) in
      rbind (ASSERT (s_futures s out = None)) (\<lambda>_.
      Inr (Exits (s\<lparr>s_futures := (s_futures s)(out := Some status)\<rparr>))))"

text \<open>\<open>SYS::exec\<close>; a page fault in the loader that the handler cannot serve ends the process with status 1.\<close>

definition sys_exec :: "kernel_env \<Rightarrow> u8 list \<Rightarrow> u8 list list \<Rightarrow> sys \<Rightarrow> sys_outcome res" where
  "sys_exec env path argv s =
     rbind (ext2_find (env_fuel env) (env_fs env) (Some (env_root env)) (path @ [0])) (\<lambda>found.
     case found of
       None \<Rightarrow> Inr (Return (-1) s)
     | Some node \<Rightarrow>
         if \<not> is_file (node_data node) then Inr (Return (-2) s)
         else rbind (blockio_read_object (node_io node) 0 sizeof_elf_header) (\<lambda>b.
           case elf_error (decode_elf_header b) of
             Some e \<Rightarrow> Inr (Return e s)
           | None \<Rightarrow>
               let (sp, m) = exec_stack (env_heap_tail env) argv (clear_private (env_config env) (s_mem s)) in
               rbind (elf_load (env_config env) (node_io node) m) (\<lambda>loaded.
               case loaded of
                 None \<Rightarrow> sys_exit 1 s
               | Some (e, m') \<Rightarrow> Inr (EnterUser e sp (set_mem m' s)))))"

text \<open>
  The copies that \<open>execl\<close> and \<open>execvp\<close> make, the \<open>k\<close>-th argument at \<open>a\<close>: \<open>strlen\<close> bytes are allocated and the
  terminator is stored behind them. When the block that the allocation gets (\<open>env_room\<close>, in bytes: the block
  that \<open>malloc\<close> chooses may be larger than the request) has no byte left for it, it overwrites a tag of the heap.
\<close>

definition copy_argument :: "kernel_env \<Rightarrow> nat \<Rightarrow> u8 list \<Rightarrow> u8 list res" where
  "copy_argument env k str = (if env_room env k (length str) \<le> length str then Inl OutOfBounds else Inr str)"

fun copy_arguments :: "kernel_env \<Rightarrow> nat \<Rightarrow> memory \<Rightarrow> u32 list \<Rightarrow> u8 list list res" where
  "copy_arguments env k m [] = Inr []"
| "copy_arguments env k m (a # as) =
     rbind (c_string (env_fuel env) m a) (\<lambda>str.
     rbind (copy_argument env k str) (\<lambda>elem.
     rbind (copy_arguments env (Suc k) m as) (\<lambda>rest. Inr (elem # rest))))"

definition sys_execl :: "kernel_env \<Rightarrow> nat \<Rightarrow> u32 \<Rightarrow> sys \<Rightarrow> sys_outcome res" where
  "sys_execl env first esp s =
     rbind (words_until_null (env_fuel env) (s_mem s) (esp + 4 * of_nat first)) (\<lambda>args.
     if user_arg esp (first + length args - 1) s = 0 then Inr (Return (-1) s)
     else rbind (copy_arguments env 0 (s_mem s) args) (\<lambda>argv.
       rbind (c_string (env_fuel env) (s_mem s) (user_arg esp 1 s)) (\<lambda>path.
       sys_exec env path argv s)))"

text \<open>\<open>execvp\<close>, the same with the arguments from the fifth word of the caller's stack on.\<close>

definition sys_execvp :: "kernel_env \<Rightarrow> u32 \<Rightarrow> sys \<Rightarrow> sys_outcome res" where
  [simp]: "sys_execvp env esp s = sys_execl env 5 esp s"

section \<open>The other calls\<close>

text \<open>Pointers that the calls refuse: kernel memory and the two APIC pages' first bytes.\<close>

definition bad_buffer :: "u32 \<Rightarrow> bool" where
  "bad_buffer p \<longleftrightarrow> p < 0x80000000 \<or> p = 0xFEC00000 \<or> p = 0xFEE00000"

definition finish_write :: "sys \<Rightarrow> (u32 \<times> io_state) res option \<Rightarrow> sys_outcome res" where
  "finish_write s r =
     (case r of None \<Rightarrow> Inr (Waits s) | Some q \<Rightarrow> rbind q (\<lambda>(k, io). Inr (Return k (s\<lparr>s_io := io\<rparr>))))"

definition sys_write :: "u32 \<Rightarrow> u32 \<Rightarrow> u32 \<Rightarrow> sys \<Rightarrow> sys_outcome res" where
  "sys_write fd buf nbyte s =
     (if bad_buffer buf then Inr (Return (-1) s)
      else case getFile fd (s_proc s) of
        None \<Rightarrow> Inr (Return (-1) s)
      | Some h \<Rightarrow> finish_write s (file_write buf nbyte (s_objects s h) (s_io s)))"

definition sys_fork :: "kernel_env \<Rightarrow> u32 \<Rightarrow> u32 \<Rightarrow> sys \<Rightarrow> sys_outcome res" where
  "sys_fork env pc esp s =
     (let (r, child, p) = fork_tables (s_next s) (env_new_pd env (s_next s)) (s_proc s) in
      case child of
        None \<Rightarrow> Inr (Return r s)
      | Some c \<Rightarrow>
          Inr (Return r (s\<lparr>s_proc := p, s_next := s_next s + 1, s_futures := (s_futures s)(s_next s := None),
            s_threads := s_threads s @ [(c, pc, esp, s_mem s)]\<rparr>)))"

definition sys_sem :: "u32 \<Rightarrow> sys \<Rightarrow> sys_outcome res" where
  "sys_sem init s =
     (let (r, p) = newSemaphore (s_next s) (s_proc s) in
      if r = -1 then Inr (Return r s)
      else Inr (Return r (s\<lparr>s_proc := p, s_next := s_next s + 1,
        s_sems := (s_sems s)(s_next s := (unat init, 0))\<rparr>)))"

text \<open>The semaphores of \<open>Threads\<close>, as their counts and the numbers of their waiting threads.\<close>

definition sem_up_count :: "nat \<times> nat \<Rightarrow> nat \<times> nat" where
  "sem_up_count cw = (case cw of (c, w) \<Rightarrow> if w = 0 then (c + 1, w) else (c, w - 1))"

definition sys_up :: "u32 \<Rightarrow> sys \<Rightarrow> sys_outcome res" where
  "sys_up i s =
     (case getSemaphore i (s_proc s) of
        None \<Rightarrow> Inr (Return (-1) s)
      | Some h \<Rightarrow> Inr (Return 0 (s\<lparr>s_sems := (s_sems s)(h := sem_up_count (s_sems s h))\<rparr>)))"

definition sys_down :: "u32 \<Rightarrow> sys \<Rightarrow> sys_outcome res" where
  "sys_down i s =
     (case getSemaphore i (s_proc s) of
        None \<Rightarrow> Inr (Return (-1) s)
      | Some h \<Rightarrow>
          (case s_sems s h of (c, w) \<Rightarrow>
             if c > 0 then Inr (Return 0 (s\<lparr>s_sems := (s_sems s)(h := (c - 1, w))\<rparr>))
             else Inr (Waits (s\<lparr>s_sems := (s_sems s)(h := (c, w + 1))\<rparr>))))"

definition sys_close :: "u32 \<Rightarrow> sys \<Rightarrow> sys_outcome res" where
  "sys_close i s = (let (r, p) = close i (s_proc s) in Inr (Return r (s\<lparr>s_proc := p\<rparr>)))"

definition sys_wait :: "u32 \<Rightarrow> u32 \<Rightarrow> sys \<Rightarrow> sys_outcome res" where
  "sys_wait i ptr s =
     (if ptr < 0x80000000 then Inr (Return (-1) s)
      else case wait (s_futures s) i (s_proc s) of
        None \<Rightarrow> Inr (Waits s)
      | Some (r, status, p) \<Rightarrow>
          (case status of
             None \<Rightarrow> Inr (Return r s)
           | Some v \<Rightarrow> Inr (Return r (set_mem (store32 ptr v (s_mem s)) (s\<lparr>s_proc := p\<rparr>)))))"

text \<open>\<open>setFile(Shared<File>(new ...))\<close>.\<close>

definition open_object :: "file_obj \<Rightarrow> sys \<Rightarrow> u32 \<times> sys" where
  "open_object f s =
     (let (r, p) = setFile (s_next s) (s_proc s)
      in (r, s\<lparr>s_proc := p, s_next := s_next s + 1, s_objects := (s_objects s)(s_next s := f)\<rparr>))"

text \<open>The loop of \<open>open\<close> that follows symbolic links from the root.\<close>

fun follow_links :: "nat \<Rightarrow> kernel_env \<Rightarrow> ext2_node option \<Rightarrow> ext2_node option res" where
  "follow_links fuel env node =
     (case node of
        None \<Rightarrow> Inl NullDeref
      | Some nd \<Rightarrow>
          if \<not> is_symlink (node_data nd) then Inr (Some nd)
          else case fuel of 0 \<Rightarrow> Inl OutOfFuel
          | Suc k \<Rightarrow>
              rbind (get_symbol nd) (\<lambda>name.
              rbind (ext2_find (env_fuel env) (env_fs env) (Some (env_root env)) (name @ [0])) (follow_links k env)))"

declare follow_links.simps [simp del]

definition sys_open :: "kernel_env \<Rightarrow> u32 \<Rightarrow> sys \<Rightarrow> sys_outcome res" where
  "sys_open env path s =
     rbind (c_string (env_fuel env) (s_mem s) path) (\<lambda>p.
     rbind (ext2_find (env_fuel env) (env_fs env) (Some (env_root env)) (p @ [0])) (\<lambda>found.
     if found = None \<or> p = [] then Inr (Return (-1) s)
     else rbind (follow_links (env_fuel env) env found) (\<lambda>node.
       if node = None then Inr (Return (-1) s)
       else let (r, s') = open_object (ActualFile node 0) s in Inr (Return r s'))))"

definition sys_len :: "u32 \<Rightarrow> sys \<Rightarrow> sys_outcome res" where
  "sys_len fd s =
     (case getFile fd (s_proc s) of
        None \<Rightarrow> Inr (Return (-1) s)
      | Some h \<Rightarrow> rbind (file_size (s_objects s h)) (\<lambda>n. Inr (Return n s)))"

definition finish_read :: "sys \<Rightarrow> nat \<Rightarrow> (u32 \<times> file_obj \<times> io_state) res option \<Rightarrow> (u32 \<Rightarrow> u32) \<Rightarrow> sys_outcome res" where
  "finish_read s h r answer =
     (case r of
        None \<Rightarrow> Inr (Waits s)
      | Some q \<Rightarrow> rbind q (\<lambda>(k, f, io).
          Inr (Return (answer k) (s\<lparr>s_io := io, s_objects := (s_objects s)(h := f)\<rparr>))))"

definition sys_read :: "u32 \<Rightarrow> u32 \<Rightarrow> u32 \<Rightarrow> sys \<Rightarrow> sys_outcome res" where
  "sys_read fd buf n s =
     (if bad_buffer buf then Inr (Return (-1) s)
      else if fd = 1 then Inr (Return (-1) s)
      else case getFile fd (s_proc s) of
        None \<Rightarrow> Inr (Return (-1) s)
      | Some h \<Rightarrow> finish_read s h (file_read buf n (s_objects s h) (s_io s)) id)"

definition sys_seek :: "u32 \<Rightarrow> u32 \<Rightarrow> sys \<Rightarrow> sys_outcome res" where
  "sys_seek fd off s =
     (if fd = 1 then Inr (Return (-1) s)
      else case getFile fd (s_proc s) of
        None \<Rightarrow> Inl NullDeref
      | Some h \<Rightarrow>
          (let (r, f) = file_seek off (s_objects s h)
           in Inr (Return r (s\<lparr>s_objects := (s_objects s)(h := f)\<rparr>))))"

definition sys_opendir :: "kernel_env \<Rightarrow> u32 \<Rightarrow> sys \<Rightarrow> sys_outcome res" where
  "sys_opendir env path s =
     rbind (c_string (env_fuel env) (s_mem s) path) (\<lambda>p.
     rbind (ext2_find (env_fuel env) (env_fs env) (Some (env_root env)) (p @ [0])) (\<lambda>found.
     case found of
       None \<Rightarrow> Inl NullDeref
     | Some node \<Rightarrow>
         if p = [] then Inr (Return (-1) s)
         else let (r, s') = open_object (ActualFile (Some node) 0) s in Inr (Return r s')))"

definition sys_readdir :: "u32 \<Rightarrow> u32 \<Rightarrow> u32 \<Rightarrow> sys \<Rightarrow> sys_outcome res" where
  "sys_readdir fd buf off s =
     (case getFile fd (s_proc s) of
        None \<Rightarrow> Inl NullDeref
      | Some h \<Rightarrow>
          (let (r, f) = file_seek off (s_objects s h)
           in finish_read s h (file_read buf 1024 f (s_io s)) (\<lambda>bytes. if 0 < sint bytes then buf else 0)))"

definition sys_dup2 :: "u32 \<Rightarrow> u32 \<Rightarrow> sys \<Rightarrow> sys_outcome res" where
  "sys_dup2 oldfd newfd s = (let (r, p) = dup2 oldfd newfd (s_proc s) in Inr (Return r (s\<lparr>s_proc := p\<rparr>)))"

text \<open>The buffer of a new pipe is not initialised: its bytes are a parameter.\<close>

definition sys_pipe :: "u8 list \<Rightarrow> u32 \<Rightarrow> sys \<Rightarrow> sys_outcome res" where
  "sys_pipe garbage fds s =
     (let i = s_next s; io = s_io s;
          s0 = s\<lparr>s_next := i + 1, s_io := io\<lparr>io_pipes := (io_pipes io)(i := pipe_init garbage)\<rparr>\<rparr>;
          (read_fd, s1) = open_object (PipeFile i 0) s0;
          (write_fd, s2) = open_object (PipeFile i 1) s1
      in if sint read_fd < 0 \<or> sint write_fd < 0 then Inr (Return (-1) s2)
         else Inr (Return 0 (set_mem (write_bytes fds (put32 read_fd @ put32 write_fd) (s_mem s2)) s2)))"

definition sys_pwd :: "kernel_env \<Rightarrow> u32 \<Rightarrow> sys \<Rightarrow> sys_outcome res" where
  "sys_pwd env buffer s =
     rbind (strlen (env_fuel env) (s_mem s) (env_cwd env)) (\<lambda>n.
     let m = copy_mem buffer (env_cwd env) n (s_mem s)
     in Inr (Return 0 (set_mem (write_bytes (buffer + of_nat n) [0] m) s)))"

definition set_cwd :: "kernel_env \<Rightarrow> u32 \<Rightarrow> memory \<Rightarrow> memory res" where
  "set_cwd env new_cwd m =
     rbind (strlen (env_fuel env) m new_cwd) (\<lambda>n.
     Inr (write_bytes (env_cwd env + of_nat n) [0] (copy_mem (env_cwd env) new_cwd n m)))"

text \<open>\<open>while (curr_cwd[index] != '/') index--;\<close>\<close>

fun last_slash :: "nat \<Rightarrow> memory \<Rightarrow> u32 \<Rightarrow> int \<Rightarrow> int res" where
  "last_slash fuel m cwd i =
     (if m (cwd + word_of_int i) = 47 then Inr i
      else case fuel of 0 \<Rightarrow> Inl OutOfFuel | Suc k \<Rightarrow> last_slash k m cwd (i - 1))"

declare last_slash.simps [simp del]

definition sys_cd :: "kernel_env \<Rightarrow> u32 \<Rightarrow> u32 \<Rightarrow> sys \<Rightarrow> sys_outcome res" where
  "sys_cd env added_path path_checked s =
     (let fuel = env_fuel env; cwd = env_cwd env; m = s_mem s in
      if path_checked = 0 then
        rbind (strlen fuel m added_path) (\<lambda>added_length.
        if added_length = 2 \<and> m added_path = 46 \<and> m (added_path + 1) = 46 then
          rbind (strlen fuel m cwd) (\<lambda>sz.
          rbind (last_slash fuel m cwd (int sz - 1)) (\<lambda>index.
          Inr (Return 0 (set_mem (if index \<noteq> 0 then copy_mem added_path cwd (unat (word_of_int index :: u32)) m else m) s))))
        else if added_length = 1 \<and> m added_path = 46 then Inr (Return 0 s)
        else
          let stored = env_empty env;
              m1 = write_bytes (stored + of_nat added_length) [0] (copy_mem stored added_path added_length m)
          in rbind (strlen fuel m1 cwd) (\<lambda>prev_len.
             let m2 = copy_mem added_path cwd prev_len m1;
                 m3 = write_bytes (added_path + of_nat prev_len) [47] m2;
                 m4 = copy_mem (added_path + of_nat prev_len + 1) stored added_length m3;
                 m5 = write_bytes (added_path + of_nat (prev_len + 1 + added_length)) [0] m4
             in Inr (Return 0 (set_mem m5 s))))
      else rbind (set_cwd env added_path m) (\<lambda>m'. Inr (Return 0 (set_mem m' s))))"

section \<open>The handler\<close>

definition sysHandler :: "kernel_env \<Rightarrow> u8 list \<Rightarrow> u32 \<Rightarrow> u32 \<Rightarrow> u32 \<Rightarrow> sys \<Rightarrow> sys_outcome res" where
  "sysHandler env garbage eax pc esp s =
     (let a = (\<lambda>k. user_arg esp k s) in
      if eax = 0 then sys_exit (a 1) s
      else if eax = 1 then sys_write (a 1) (a 2) (a 3) s
      else if eax = 2 then sys_fork env pc esp s
      else if eax = 3 then sys_sem (a 1) s
      else if eax = 4 then sys_up (a 1) s
      else if eax = 5 then sys_down (a 1) s
      else if eax = 6 then sys_close (a 1) s
      else if eax = 7 then Inr Shutdown
      else if eax = 8 then sys_wait (a 1) (a 2) s
      else if eax = 9 then sys_execl env 2 esp s
      else if eax = 10 then sys_open env (a 1) s
      else if eax = 11 then sys_len (a 1) s
      else if eax = 12 then sys_read (a 1) (a 2) (a 3) s
      else if eax = 13 then sys_seek (a 1) (a 2) s
      else if eax = 14 then sys_execvp env esp s
      else if eax = 15 then sys_opendir env (a 1) s
      else if eax = 16 then sys_readdir (a 1) (a 2) (a 3) s
      else if eax = 17 then sys_dup2 (a 1) (a 2) s
      else if eax = 18 then sys_pipe garbage (a 1) s
      else if eax = 19 then sys_pwd env (a 1) s
      else if eax = 20 then sys_cd env (a 1) (a 2) s
      else Inr (Return (-1) s))"

end
