(* ===== verification/Sys_Facts.thy ===== *)
theory Sys_Facts
  imports Sys
begin

text \<open>
  What the system calls of \<open>Sys\<close> achieve: the stack a new program finds, sequences of reads through a
  descriptor, the working directory, and the calls that fault.
\<close>

section \<open>Reading and writing blocks of memory\<close>

lemma in_block:
  fixes x a :: u32
  assumes "unat a + n \<le> 2 ^ 32"
  shows "unat (x - a) < n \<longleftrightarrow> unat a \<le> unat x \<and> unat x < unat a + n"
proof (cases "unat a \<le> unat x")
  case True
  then show ?thesis by (auto simp: unat_sub word_le_nat_alt)
next
  case False
  then have "unat (x - a) = 2 ^ 32 + unat x - unat a"
    using unat_sub_if' [of x a] by (simp add: word_le_nat_alt) 
  then show ?thesis using assms False by auto
qed

lemma read_write_same:
  "length bs \<le> 2 ^ 32 \<Longrightarrow> read_bytes (write_bytes a bs m) a (length bs) = bs"
  by (rule nth_equalityI) (simp_all add: read_bytes_def write_bytes_def unat_of_nat take_bit_nat_eq_self)

lemma bzero_write:
  assumes "0 \<le> sint n"
  shows "bzero a n m = write_bytes a (replicate (unat n) 0) m"
proof -
  have "uint n < 2 ^ 32" using uint_bounded [of n] by simp
  then have "uint n < 2 ^ 31" using assms sint_u32 [of n] by (metis diff_less_0_iff_less not_less)
  then have "nat (sint n) = unat n" by (simp only: sint_u32 if_True unat_eq_nat_uint)
  then show ?thesis by (simp only: bzero_def)
qed

lemma load32_bytes: "load32 m a = get32 (read_bytes m a 4) 0"
  by (simp add: load32_def get32_def read_bytes_def upt_rec)

lemma load32_store32 [simp]: "load32 (store32 a w m) a = w"
  using read_write_same [of "put32 w" a m] by (simp add: load32_bytes store32_def get32_put32)

text \<open>\<open>m'\<close> differs from \<open>m\<close> at most between two addresses.\<close>

definition changed_within :: "nat \<Rightarrow> nat \<Rightarrow> memory \<Rightarrow> memory \<Rightarrow> bool" where
  "changed_within lo hi m m' \<longleftrightarrow> (\<forall>x. unat x < lo \<or> hi \<le> unat x \<longrightarrow> m' x = m x)"

lemma changed_refl [simp]: "changed_within lo hi m m"
  by (simp add: changed_within_def)

lemma changed_below:
  "changed_within a b m m' \<Longrightarrow> changed_within c a m' m'' \<Longrightarrow> c \<le> a \<Longrightarrow> a \<le> b \<Longrightarrow>
   changed_within c b m m''"
  by (auto simp: changed_within_def)

lemma changed_mono: "changed_within lo hi m m' \<Longrightarrow> lo' \<le> lo \<Longrightarrow> hi \<le> hi' \<Longrightarrow> changed_within lo' hi' m m'"
  by (auto simp: changed_within_def)

lemma changed_write: "unat a + length bs \<le> 2 ^ 32 \<Longrightarrow> changed_within (unat a) (unat a + length bs) m (write_bytes a bs m)"
  unfolding changed_within_def write_bytes_def using in_block [of a "length bs"] by auto

lemma unat_add_nat: "unat a + i < 2 ^ 32 \<Longrightarrow> unat (a + of_nat i :: u32) = unat a + i"
  by (subst unat_add_bounded) (simp_all add: unat_of_nat take_bit_nat_eq_self)

lemma changed_read:
  assumes "changed_within lo hi m m'" "unat a + n \<le> lo \<or> hi \<le> unat a" "unat a + n \<le> 2 ^ 32"
  shows "read_bytes m' a n = read_bytes m a n"
proof -
  have "m' (a + of_nat i) = m (a + of_nat i)" if "i < n" for i
    using assms that unat_add_nat [of a i] by (auto simp: changed_within_def)
  then show ?thesis by (simp add: read_bytes_def)
qed

lemma changed_load:
  "changed_within lo hi m m' \<Longrightarrow> unat a + 4 \<le> lo \<or> hi \<le> unat a \<Longrightarrow> unat a + 4 \<le> 2 ^ 32 \<Longrightarrow>
   load32 m' a = load32 m a"
  using changed_read [of lo hi m m' a 4] by (simp add: load32_bytes)

lemma unat_minus: "n \<le> unat a \<Longrightarrow> unat (a - of_nat n :: u32) = unat a - n"
proof -
  assume n: "n \<le> unat a"
  have "unat (of_nat n :: u32) = n" using n u32_unat [of a] by (simp add: unat_of_nat take_bit_nat_eq_self)
  then show ?thesis using n by (simp add: unat_sub word_le_nat_alt)
qed

text \<open>A string in memory.\<close>

lemma c_string_read:
  "read_bytes m a (length str + 1) = str @ [0] \<Longrightarrow> 0 \<notin> set str \<Longrightarrow> length str < fuel \<Longrightarrow>
   c_string fuel m a = Inr str"
proof (induction str arbitrary: a fuel)
  case Nil
  then show ?case by (cases fuel) (simp_all add: read_bytes_def)
next
  case (Cons c str)
  have r: "read_bytes m a (length (c # str) + 1) = m a # read_bytes m (a + 1) (length str + 1)"
    unfolding read_bytes_def
    by (simp add: upt_conv_Cons map_Suc_upt [symmetric] add.assoc del: upt_Suc)
  then show ?case using Cons by (cases fuel) auto
qed

section \<open>The stack of a new program\<close>

lemma string_size_bounds: "len + 1 < string_size len" "string_size len \<le> len + 5" "4 dvd string_size len"
proof -
  show "len + 1 < string_size len" "string_size len \<le> len + 5" by (simp_all add: string_size_def Let_def)
  have "(len + 1) mod 4 \<le> 4" by simp
  then show "4 dvd string_size len"
    unfolding string_size_def Let_def by presburger
qed

definition strings_size :: "u8 list list \<Rightarrow> nat" where
  "strings_size argv = sum_list (map (\<lambda>s. string_size (length s)) argv)"

lemma push_strings_layout:
  "push_strings tail k argv sp m = (addrs, sp', m') \<Longrightarrow> k \<le> length argv \<Longrightarrow>
   strings_size (take k argv) \<le> unat sp \<Longrightarrow>
   length addrs = k \<and> unat sp' = unat sp - strings_size (take k argv) \<and> changed_within (unat sp') (unat sp) m m' \<and>
   (\<forall>i < k. unat sp' \<le> unat (addrs ! i) \<and> unat (addrs ! i) + length (argv ! i) + 1 \<le> unat sp \<and>
     read_bytes m' (addrs ! i) (length (argv ! i) + 1) = argv ! i @ [0])"
proof (induction k arbitrary: sp m addrs)
  case 0
  then show ?case by (simp add: strings_size_def)
next
  case (Suc k)
  define str sz where "str = argv ! k" and "sz = string_size (length str)"
  define elem where "elem = str @ [0] @ map (tail k) [0..<sz - (length str + 1)]"
  define sp1 where "sp1 = sp - of_nat sz"
  obtain as where p: "push_strings tail k argv sp1 (write_bytes sp1 elem m) = (as, sp', m')" "addrs = as @ [sp1]"
    using Suc.prems(1) by (auto simp: Let_def str_def sz_def elem_def sp1_def split: prod.splits)
  have sizes: "strings_size (take (Suc k) argv) = strings_size (take k argv) + sz"
    using Suc.prems(2) by (simp add: take_Suc_conv_app_nth strings_size_def sz_def str_def)
  note B = string_size_bounds [of "length str", folded sz_def]
  have el: "length elem = sz" using B(1) by (simp add: elem_def)
  have u1: "unat sp1 = unat sp - sz" "sz \<le> unat sp" using Suc.prems(3) sizes by (simp_all add: sp1_def unat_minus)
  have top: "unat sp1 + sz \<le> 2 ^ 32" using u1 u32_unat [of sp] by simp
  have room: "k \<le> length argv" "strings_size (take k argv) \<le> unat sp1"
    using Suc.prems(2,3) sizes u1 by simp_all
  have IH: "length as = k" "unat sp' = unat sp1 - strings_size (take k argv)"
    "changed_within (unat sp') (unat sp1) (write_bytes sp1 elem m) m'"
    "\<forall>i < k. unat sp' \<le> unat (as ! i) \<and> unat (as ! i) + length (argv ! i) + 1 \<le> unat sp1 \<and>
      read_bytes m' (as ! i) (length (argv ! i) + 1) = argv ! i @ [0]"
    using Suc.IH [OF p(1) room] by blast+
  have c1: "changed_within (unat sp1) (unat sp) m (write_bytes sp1 elem m)"
    using changed_write [of sp1 elem m] el top u1 by simp
  have "changed_within (unat sp') (unat sp) m m'"
    using changed_below [OF c1 IH(3)] IH(2) u1 by simp
  moreover have "read_bytes m' sp1 (length str + 1) = str @ [0]"
  proof -
    have "read_bytes m' sp1 (length str + 1) = read_bytes (write_bytes sp1 elem m) sp1 (length str + 1)"
      using IH(3) top B(1) by (intro changed_read) auto
    also have "\<dots> = take (length str + 1) (read_bytes (write_bytes sp1 elem m) sp1 (length elem))"
      using B(1) by (simp add: read_bytes_def el take_map)
    also have "\<dots> = str @ [0]"
      using read_write_same [of elem sp1 m] el top by (simp add: elem_def)
    finally show ?thesis .
  qed
  ultimately show ?case
    using IH(1,2,4) u1 sizes p(2) B(1)
    by (auto simp: nth_append less_Suc_eq str_def [symmetric])
qed

lemma push_words_layout:
  "push_words ws sp m = (sp', m') \<Longrightarrow> 4 * length ws \<le> unat sp \<Longrightarrow>
   unat sp' = unat sp - 4 * length ws \<and> changed_within (unat sp') (unat sp) m m' \<and>
   (\<forall>i < length ws. load32 m' (sp - of_nat (4 * Suc i)) = ws ! i)"
proof (induction ws arbitrary: sp m)
  case Nil
  then show ?case by simp
next
  case (Cons w ws)
  define sp1 where "sp1 = sp - 4"
  have u1: "unat sp1 = unat sp - 4" "4 \<le> unat sp" using Cons.prems(2) unat_minus [of 4 sp] by (simp_all add: sp1_def)
  have p: "push_words ws sp1 (store32 sp1 w m) = (sp', m')" using Cons.prems(1) by (simp add: sp1_def)
  have room: "4 * length ws \<le> unat sp1" using Cons.prems(2) u1 by simp
  have top: "unat sp1 + 4 \<le> 2 ^ 32" using u1 u32_unat [of sp] by simp
  have IH: "unat sp' = unat sp1 - 4 * length ws" "changed_within (unat sp') (unat sp1) (store32 sp1 w m) m'"
    "\<forall>i < length ws. load32 m' (sp1 - of_nat (4 * Suc i)) = ws ! i"
    using Cons.IH [OF p room] by blast+
  have c1: "changed_within (unat sp1) (unat sp) m (store32 sp1 w m)"
    using changed_write [of sp1 "put32 w" m] top u1 by (simp add: store32_def)
  have "changed_within (unat sp') (unat sp) m m'"
    using changed_below [OF c1 IH(2)] IH(1) u1 by simp
  moreover have "load32 m' sp1 = w"
    using changed_load [OF IH(2), of sp1] top by simp
  moreover have "sp1 - of_nat (4 * Suc i) = sp - of_nat (4 * Suc (Suc i))" for i
    by (simp add: sp1_def algebra_simps)
  ultimately show ?case
    using IH u1 by (auto simp: sp1_def nth_Cons algebra_simps split: nat.split)
qed

text \<open>What the program's entry code expects at the stack pointer.\<close>

definition argv_block :: "nat \<Rightarrow> memory \<Rightarrow> u32 \<Rightarrow> u8 list list \<Rightarrow> bool" where
  "argv_block fuel m sp argv \<longleftrightarrow>
     load32 m sp = of_nat (length argv) \<and> load32 m (sp + 4) = sp + 8 \<and>
     (\<forall>i < length argv. c_string fuel m (load32 m (sp + 8 + of_nat (4 * i))) = Inr (argv ! i)) \<and>
     load32 m (sp + 8 + of_nat (4 * length argv)) = 0"

lemma strings_size_aligned: "4 dvd strings_size argv"
  using string_size_bounds(3) by (induction argv) (auto simp: strings_size_def)

lemma exec_stack_layout:
  assumes e: "exec_stack tail argv m = (sp, m')"
    and room: "strings_size argv + 4 * length argv + 12 \<le> 0x6fffe000"
    and str: "\<forall>s \<in> set argv. 0 \<notin> set s \<and> length s < fuel"
  shows "argv_block fuel m' sp argv \<and> unat sp mod 4 = 0 \<and> 0x80000000 \<le> unat sp \<and>
    changed_within (unat sp) 0xefffe000 m m'"
proof -
  define n where "n = length argv"
  obtain as sp1 m1 where 1: "push_strings tail n argv 0xefffe000 m = (as, sp1, m1)"
    by (metis prod_cases3)
  have r: "n \<le> length argv" "strings_size (take n argv) \<le> unat (0xefffe000 :: u32)" "take n argv = argv"
    "unat (0xefffe000 :: u32) = 0xefffe000" using room by (simp_all add: n_def)
  have L: "length as = n" "unat sp1 = 0xefffe000 - strings_size argv" "changed_within (unat sp1) 0xefffe000 m m1"
    "\<forall>i < n. unat sp1 \<le> unat (as ! i) \<and> unat (as ! i) + length (argv ! i) + 1 \<le> 0xefffe000 \<and>
      read_bytes m1 (as ! i) (length (argv ! i) + 1) = argv ! i @ [0]"
    using push_strings_layout [OF 1 r(1,2), unfolded r(3,4)] by blast+
  define sp2 m2 where "sp2 = sp1 - 4" and "m2 = bzero sp2 4 m1"
  have u2: "unat sp2 = unat sp1 - 4" using unat_minus [of 4 sp1] L(2) room by (simp add: sp2_def)
  obtain sp3 m3 where 3: "push_words (rev as) sp2 m2 = (sp3, m3)" by fastforce
  define sp4 m4 where "sp4 = sp3 - 4" and "m4 = store32 sp4 (sp4 + 4) m3"
  have sp: "sp = sp4 - 4" "m' = store32 sp (of_nat n) m4"
    using e 1 3 by (auto simp: exec_stack_def n_def sp2_def m2_def sp4_def m4_def Let_def)
  have room4: "4 * length (rev as) \<le> unat sp2" using u2 L(1,2) room by (simp add: n_def)
  have W: "unat sp3 = unat sp2 - 4 * n" "changed_within (unat sp3) (unat sp2) m2 m3"
    "\<forall>i < n. load32 m3 (sp2 - of_nat (4 * Suc i)) = rev as ! i"
    using push_words_layout [OF 3 room4, unfolded length_rev L(1)] by blast+
  have u4: "unat sp4 = unat sp3 - 4" and u5: "unat sp = unat sp4 - 4"
    using unat_minus [of 4 sp3] unat_minus [of 4 sp4] W(1) u2 L(2) room by (simp_all add: sp4_def sp(1) n_def)
  have top: "unat sp1 \<le> 0xefffe000" using L(2) by simp
  have low: "unat sp + 12 + 4 * n = unat sp1" "0x80000000 \<le> unat sp"
    using u5 u4 W(1) u2 L(2) room by (simp_all add: n_def)
  have c2: "changed_within (unat sp2) (unat sp1) m1 m2"
    using changed_write [of sp2 "replicate 4 0" m1] u2 low top by (simp add: m2_def bzero_write sint_u32)
  have c4: "changed_within (unat sp4) (unat sp3) m3 m4"
    using changed_write [of sp4 "put32 (sp4 + 4)" m3] u4 low W(1) u2 top by (simp add: m4_def store32_def)
  have c5: "changed_within (unat sp) (unat sp4) m4 m'"
    using changed_write [of sp "put32 (of_nat n)" m4] u5 u4 low W(1) u2 top by (simp add: sp(2) store32_def)
  have c35: "changed_within (unat sp) (unat sp3) m3 m'"
    using changed_below [OF c4 c5] u5 u4 by simp
  have c25: "changed_within (unat sp) (unat sp2) m2 m'"
    using changed_below [OF W(2) c35] u5 u4 W(1) by simp
  have c15: "changed_within (unat sp) (unat sp1) m1 m'"
    using changed_below [OF c2 c25] u5 u4 W(1) u2 by simp
  have all: "changed_within (unat sp) 0xefffe000 m m'"
    using changed_below [OF L(3) c15] low top by simp
  have a5: "load32 m' sp = of_nat n" by (simp add: sp(2))
  have e4: "sp + 4 = sp4" "sp4 + 4 = sp + 8" by (simp_all add: sp(1))
  have "load32 m' sp4 = load32 m4 sp4"
    using u4 low W(1) u2 top by (intro changed_load [OF c5]) auto
  then have a4: "load32 m' (sp + 4) = sp + 8"
    by (simp add: m4_def e4)
  have e3: "sp + 8 = sp3" by (simp add: sp(1) sp4_def)
  have e2: "sp3 + of_nat (4 * i) = sp2 - of_nat (4 * (n - i))" if "i \<le> n" for i
  proof (rule u32_unat_eqI)
    have "unat (sp3 + of_nat (4 * i)) = unat sp3 + 4 * i"
      using that W(1) u2 low top by (intro unat_add_nat) simp
    moreover have "unat (sp2 - of_nat (4 * (n - i))) = unat sp2 - 4 * (n - i)"
      using room4 L(1) by (intro unat_minus) simp
    ultimately show "unat (sp3 + of_nat (4 * i)) = unat (sp2 - of_nat (4 * (n - i)))"
      using that W(1) room4 L(1) by simp
  qed
  have u3: "unat (sp3 + of_nat (4 * i)) = unat sp3 + 4 * i" if "i \<le> n" for i
    using that W(1) u2 low top by (intro unat_add_nat) simp
  have args: "load32 m' (sp + 8 + of_nat (4 * i)) = as ! i" if i: "i < n" for i
  proof -
    have "load32 m' (sp3 + of_nat (4 * i)) = load32 m3 (sp3 + of_nat (4 * i))"
      using u3 [of i] i W(1) u2 low top by (intro changed_load [OF c35]) auto
    also have "\<dots> = load32 m3 (sp2 - of_nat (4 * Suc (n - Suc i)))"
      using e2 [of i] i by (simp add: Suc_diff_Suc del: of_nat_mult)
    also have "\<dots> = as ! i"
      using W(3) i L(1) by (simp add: rev_nth del: of_nat_mult mult_Suc_right)
    finally show ?thesis by (simp only: e3)
  qed
  have strings: "c_string fuel m' (as ! i) = Inr (argv ! i)" if i: "i < n" for i
  proof -
    have b: "unat sp1 \<le> unat (as ! i)" "unat (as ! i) + length (argv ! i) + 1 \<le> 0xefffe000"
      "read_bytes m1 (as ! i) (length (argv ! i) + 1) = argv ! i @ [0]" using L(4) i by auto
    have "read_bytes m' (as ! i) (length (argv ! i) + 1) = argv ! i @ [0]"
      using changed_read [OF c15, of "as ! i" "length (argv ! i) + 1"] b by simp
    then show ?thesis using str i by (intro c_string_read) (auto simp: n_def)
  qed
  have "load32 m' sp2 = load32 m2 sp2"
    using u2 low top by (intro changed_load [OF c25]) auto
  also have "\<dots> = 0"
    using read_write_same [of "replicate 4 0" sp2 m1]
    by (simp add: load32_bytes m2_def bzero_write sint_u32) (simp add: get32_def)
  finally have null: "load32 m' (sp + 8 + of_nat (4 * n)) = 0"
    using e2 [of n] by (simp add: e3)
  have "4 dvd unat sp1" using strings_size_aligned [of argv] L(2) room by (simp add: dvd_diff_nat)
  then have "4 dvd unat sp + 12 + 4 * n" using low(1) by simp
  then have "unat sp mod 4 = 0" by presburger
  then show ?thesis
    using a5 a4 args strings null all low(2) by (simp add: argv_block_def n_def [symmetric] del: of_nat_mult)
qed

section \<open>Reading a file through a descriptor\<close>

text \<open>A run of \<open>read\<close> calls into one buffer: the bytes each leaves there, one after the other.\<close>

fun read_calls :: "u32 \<Rightarrow> u32 \<Rightarrow> u32 list \<Rightarrow> sys \<Rightarrow> (u8 list \<times> sys) res" where
  "read_calls fd buf [] s = Inr ([], s)"
| "read_calls fd buf (n # ns) s =
     rbind (sys_read fd buf n s) (\<lambda>r.
       case r of
         Return k s' \<Rightarrow>
           rbind (read_calls fd buf ns s') (\<lambda>(bs, t). Inr (read_bytes (s_mem s') buf (unat k) @ bs, t))
       | _ \<Rightarrow> Inl OutOfFuel)"

definition reads_file :: "(nat \<Rightarrow> u8) \<Rightarrow> ext2_node \<Rightarrow> u32 \<Rightarrow> nat \<Rightarrow> u32 \<Rightarrow> sys \<Rightarrow> bool" where
  "reads_file img node fd h off s \<longleftrightarrow>
     node_ok (img, node) \<and> getFile fd (s_proc s) = Some h \<and> s_objects s h = ActualFile (Some node) off \<and>
     unat off \<le> unat (nd_size_low (node_data node))"

lemma actual_read_content:
  fixes n :: u32
  assumes ok: "node_ok (img, node)" and addr: "\<not> addr < 0x80000000"
    and le: "unat off \<le> unat (nd_size_low (node_data node))"
  defines "k \<equiv> min (unat n) (unat (nd_size_low (node_data node)) - unat off)"
  shows "\<exists>w. unat w = k \<and> unat (off + w) = unat off + k \<and>
    actual_read addr n (Some node) off = Inr (w, map (node_content (img, node)) [unat off ..< unat off + k], off + w)"
proof -
  let ?S = "nd_size_low (node_data node)"
  define w where "w = (if n > ?S - off then ?S - off else n)"
  have d: "unat (?S - off) = unat ?S - unat off" using le by (simp add: unat_sub word_le_nat_alt)
  have w: "unat w = k" by (auto simp: w_def k_def d word_less_nat_alt)
  have wo: "unat (off + w) = unat off + k"
    using w le u32_unat [of ?S] by (subst unat_add_bounded) (simp_all add: k_def)
  have kw: "min (unat w) (unat ?S - unat off) = k" by (simp add: w k_def)
  have rd: "blockio_read_all (node_io node) off w = Inr (int k, map (node_content (img, node)) [unat off ..< unat off + k])"
    using inode.read_all_content [OF ok, of off w] le kw by simp
  show ?thesis
  proof (cases "off \<ge> ?S \<or> n = 0")
    case True
    then have "k = 0" by (auto simp: k_def word_le_nat_alt)
    then show ?thesis using True addr by (intro exI [of _ 0]) (simp add: actual_read_def Let_def)
  next
    case False
    then show ?thesis
      using addr rd w wo by (intro exI [of _ w]) (simp add: actual_read_def Let_def flip: w_def)
  qed
qed

text \<open>What a call may change.\<close>

abbreviation printed :: "sys \<Rightarrow> u8 list" where
  "printed s \<equiv> con_out (io_console (s_io s))"

abbreviation typed :: "sys \<Rightarrow> u8 list" where
  "typed s \<equiv> con_in (io_console (s_io s))"

text \<open>\<open>s'\<close> differs from \<open>s\<close> in the memory at \<open>A\<close>, in the objects \<open>H\<close>, and in what the console has sent.\<close>

definition alike :: "u32 set \<Rightarrow> nat set \<Rightarrow> sys \<Rightarrow> sys \<Rightarrow> bool" where
  "alike A H s s' \<longleftrightarrow>
     s_proc s' = s_proc s \<and> s_sems s' = s_sems s \<and> s_futures s' = s_futures s \<and> s_next s' = s_next s \<and>
     s_threads s' = s_threads s \<and> io_pipes (s_io s') = io_pipes (s_io s) \<and> typed s' = typed s \<and>
     (\<forall>h. h \<notin> H \<longrightarrow> s_objects s' h = s_objects s h) \<and> (\<forall>x. x \<notin> A \<longrightarrow> s_mem s' x = s_mem s x)"

lemma alike_refl [simp]: "alike A H s s"
  by (simp add: alike_def)

lemma alike_trans: "alike A H s s1 \<Longrightarrow> alike A H s1 s2 \<Longrightarrow> alike A H s s2"
  by (simp add: alike_def)

lemma alike_mono: "alike A H s s' \<Longrightarrow> A \<subseteq> A' \<Longrightarrow> H \<subseteq> H' \<Longrightarrow> alike A' H' s s'"
  unfolding alike_def by blast

lemma alike_proc: "alike A H s s' \<Longrightarrow> s_proc s' = s_proc s"
  by (simp add: alike_def)

lemma read_once:
  fixes n :: u32
  assumes r: "reads_file img node fd h off s" and fd: "fd \<noteq> 1" and buf: "\<not> bad_buffer buf"
  defines "k \<equiv> min (unat n) (unat (nd_size_low (node_data node)) - unat off)"
  shows "\<exists>w s'. sys_read fd buf n s = Inr (Return w s') \<and> unat w = k \<and> unat (off + w) = unat off + k \<and>
    read_bytes (s_mem s') buf k = map (node_content (img, node)) [unat off ..< unat off + k] \<and>
    reads_file img node fd h (off + w) s' \<and> alike {x. unat (x - buf) < k} {h} s s' \<and> printed s' = printed s"
proof -
  have le: "unat off \<le> unat (nd_size_low (node_data node))" and ok: "node_ok (img, node)"
    using r by (simp_all add: reads_file_def)
  obtain w where w: "unat w = k" "unat (off + w) = unat off + k"
    "actual_read buf n (Some node) off = Inr (w, map (node_content (img, node)) [unat off ..< unat off + k], off + w)"
    using actual_read_content [OF ok _ le, of buf n] buf unfolding k_def by (auto simp: bad_buffer_def)
  let ?bs = "map (node_content (img, node)) [unat off ..< unat off + k]"
  let ?s' = "s\<lparr>s_io := (s_io s)\<lparr>io_mem := write_bytes buf ?bs (s_mem s)\<rparr>,
      s_objects := (s_objects s)(h := ActualFile (Some node) (off + w))\<rparr>"
  have "sys_read fd buf n s = Inr (Return w ?s')"
    using r buf fd w(3) by (simp add: sys_read_def reads_file_def finish_read_def file_read_def)
  moreover have "length ?bs \<le> 2 ^ 32" using w(1) u32_unat [of w] by simp
  then have "read_bytes (s_mem ?s') buf k = ?bs"
    using read_write_same [of ?bs buf "s_mem s"] by simp
  moreover have "unat off + k \<le> unat (nd_size_low (node_data node))" using le by (simp add: k_def)
  then have "reads_file img node fd h (off + w) ?s'"
    using r w(2) by (simp add: reads_file_def)
  moreover have "alike {x. unat (x - buf) < k} {h} s ?s'" "printed ?s' = printed s"
    by (auto simp: alike_def write_bytes_def)
  ultimately show ?thesis using w(1,2) by blast
qed

lemma read_many:
  assumes fd: "fd \<noteq> 1" and buf: "\<not> bad_buffer buf"
  shows "reads_file img node fd h off s \<Longrightarrow>
    \<exists>s' off'. read_calls fd buf ns s = Inr (map (node_content (img, node)) [unat off ..< unat off'], s') \<and>
      unat off' = min (unat off + sum_list (map unat ns)) (unat (nd_size_low (node_data node))) \<and>
      reads_file img node fd h off' s'"
proof (induction ns arbitrary: s off)
  case Nil
  then show ?case by (auto simp: reads_file_def intro!: exI [of _ off])
next
  case (Cons n ns)
  define k where "k = min (unat n) (unat (nd_size_low (node_data node)) - unat off)"
  obtain w s1 where 1: "sys_read fd buf n s = Inr (Return w s1)" "unat w = k" "unat (off + w) = unat off + k"
    "read_bytes (s_mem s1) buf k = map (node_content (img, node)) [unat off ..< unat off + k]"
    "reads_file img node fd h (off + w) s1"
    using read_once [OF Cons.prems fd buf, of n] unfolding k_def by blast
  obtain s' off' where 2: "read_calls fd buf ns s1 = Inr (map (node_content (img, node)) [unat (off + w) ..< unat off'], s')"
    "unat off' = min (unat (off + w) + sum_list (map unat ns)) (unat (nd_size_low (node_data node)))"
    "reads_file img node fd h off' s'"
    using Cons.IH [OF 1(5)] by blast
  have le: "unat off \<le> unat (nd_size_low (node_data node))" using Cons.prems by (simp add: reads_file_def)
  have "unat off + k \<le> unat off'" using 1(3) 2(2) le by (simp add: k_def)
  then have app: "[unat off ..< unat off + k] @ [unat off + k ..< unat off'] = [unat off ..< unat off']"
    using upt_add_eq_append [of "unat off" "unat off + k" "unat off' - (unat off + k)"] by simp
  have "read_calls fd buf (n # ns) s = Inr (map (node_content (img, node)) [unat off ..< unat off'], s')"
    using 1(1,2,4) 2(1) 1(3) by (simp add: app [symmetric] del: map_append) simp
  moreover have "unat off' = min (unat off + sum_list (map unat (n # ns))) (unat (nd_size_low (node_data node)))"
    using 2(2) 1(3) le by (simp add: k_def)
  ultimately show ?case using 2(3) by blast
qed

end
