(* ===== verification/Sys_Claims.thy ===== *)
theory Sys_Claims
  imports Sys_Facts
begin

text \<open>The properties of the system calls, with the states that witness them.\<close>

section \<open>Strings and the working directory\<close>

lemma c_string_inv:
  "c_string fuel m a = Inr str \<Longrightarrow>
   read_bytes m a (length str + 1) = str @ [0] \<and> 0 \<notin> set str \<and> length str < fuel"
proof (induction fuel arbitrary: a str)
  case (Suc k)
  show ?case
  proof (cases "m a = 0")
    case True
    then show ?thesis using Suc.prems by (auto simp: read_bytes_def)
  next
    case False
    then obtain cs where cs: "c_string k m (a + 1) = Inr cs" "str = m a # cs"
      using Suc.prems by (auto simp: rbind_Inr_conv)
    have "read_bytes m a (length str + 1) = m a # read_bytes m (a + 1) (length cs + 1)"
      unfolding read_bytes_def cs(2)
      by (simp add: upt_conv_Cons map_Suc_upt [symmetric] add.assoc del: upt_Suc)
    then show ?thesis using Suc.IH [OF cs(1)] False cs(2) by auto
  qed
qed simp

text \<open>Ranges of \<open>n\<close> bytes that do not overlap; a copy from one to the other.\<close>

definition apart :: "u32 \<Rightarrow> u32 \<Rightarrow> nat \<Rightarrow> bool" where
  "apart d src n \<longleftrightarrow> (\<forall>i < n. \<forall>j < n. d + of_nat i \<noteq> src + of_nat j)"

lemma copy_mem_at:
  assumes "apart d src n" "n \<le> 2 ^ 32"
  shows "copy_mem d src n m x = (if \<exists>i < n. x = d + of_nat i then m (src + (x - d)) else m x)"
  using assms
proof (induction n arbitrary: d src m)
  case (Suc n)
  have ap: "d + of_nat i \<noteq> src + of_nat j" if "i < Suc n" "j < Suc n" for i j
    using Suc.prems(1) that by (simp add: apart_def)
  have "apart (d + 1) (src + 1) n"
    unfolding apart_def
  proof (intro allI impI)
    fix i j assume "i < n" "j < n"
    then have "d + of_nat (Suc i) \<noteq> src + of_nat (Suc j)" by (intro ap) simp_all
    then show "d + 1 + of_nat i \<noteq> src + 1 + of_nat j" by (simp only: of_nat_Suc add.assoc not_False_eq_True)
  qed
  then have IH: "copy_mem (d + 1) (src + 1) n (m(d := m src)) x =
      (if \<exists>i < n. x = d + 1 + of_nat i then (m(d := m src)) (src + 1 + (x - (d + 1))) else (m(d := m src)) x)"
    using Suc.IH Suc.prems(2) by simp
  have split: "(\<exists>i < Suc n. x = d + of_nat i) \<longleftrightarrow> x = d \<or> (\<exists>i < n. x = d + 1 + of_nat i)"
    by (auto simp: Ex_less_Suc2 add.assoc)
  show ?case
  proof (cases "\<exists>i < n. x = d + 1 + of_nat i")
    case True
    then obtain i where i: "i < n" "x = d + 1 + of_nat i" by blast
    have "d + of_nat 0 \<noteq> src + of_nat (Suc i)" by (rule ap) (use i(1) in simp_all)
    then have "d \<noteq> src + (1 + of_nat i)" by (simp only: semiring_1_class.of_nat_simps(1,2) add_0_right not_False_eq_True)
    then have ne: "src + (1 + of_nat i) \<noteq> d" by (rule not_sym)
    have "x - (d + 1) = of_nat i" unfolding i(2) by (rule add_diff_cancel_left')
    moreover have "x - d = 1 + of_nat i" unfolding i(2) add.assoc by (rule add_diff_cancel_left')
    ultimately have "x - (d + 1) = of_nat i" "x - d = 1 + of_nat i" .
    then show ?thesis unfolding copy_mem.simps(2) IH split using True ne by (simp only: add.assoc fun_upd_apply if_True if_False simp_thms)
  next
    case False
    then show ?thesis unfolding copy_mem.simps(2) IH split by auto
  qed
qed simp

lemma copied_string:
  assumes "read_bytes m src (length str) = str" "length str < 2 ^ 32" "apart d src (length str)"
  shows "read_bytes (write_bytes (d + of_nat (length str)) [0] (copy_mem d src (length str) m)) d (length str + 1) = str @ [0]"
proof -
  have "write_bytes (d + of_nat (length str)) [0] (copy_mem d src (length str) m) (d + of_nat i) = (str @ [0]) ! i"
    if i: "i \<le> length str" for i
  proof (cases "i = length str")
    case True
    then show ?thesis by (simp add: write_bytes_def)
  next
    case False
    have "(of_nat i :: u32) \<noteq> of_nat (length str)"
      using False i assms(2) by (simp add: word_of_nat_eq_iff take_bit_nat_eq_self)
    then have "0 < unat (of_nat i - of_nat (length str) :: u32)" by (simp add: unat_gt_0)
    moreover have "copy_mem d src (length str) m (d + of_nat i) = m (src + of_nat i)"
    proof -
      have "\<exists>k < length str. d + of_nat i = d + (of_nat k :: u32)" using i False by (intro exI [of _ i]) simp
      then show ?thesis using copy_mem_at [OF assms(3)] assms(2) by simp
    qed
    moreover have "m (src + of_nat i) = str ! i"
      using i False arg_cong [OF assms(1), of "\<lambda>l. l ! i"] by (simp add: read_bytes_def)
    ultimately show ?thesis using i False by (simp add: write_bytes_def nth_append)
  qed
  then show ?thesis
    unfolding read_bytes_def by (intro nth_equalityI) (simp_all del: upt_Suc)
qed

lemma set_cwd_string:
  assumes "c_string fuel m p = Inr str" "length str < 2 ^ 32" "env_fuel env = fuel" "apart (env_cwd env) p (length str)"
  shows "\<exists>m'. set_cwd env p m = Inr m' \<and> read_bytes m' (env_cwd env) (length str + 1) = str @ [0]"
proof -
  have "take (length str) (read_bytes m p (length str + 1)) = read_bytes m p (length str)"
    by (simp add: read_bytes_def)
  then have "read_bytes m p (length str) = str" using c_string_inv [OF assms(1)] by simp
  from copied_string [OF this assms(2,4)] show ?thesis
    using assms(1,3) by (simp add: set_cwd_def strlen_def)
qed

lemma pwd_string:
  assumes "read_bytes (s_mem t) (env_cwd env) (length str + 1) = str @ [0]" "0 \<notin> set str"
    and "length str < env_fuel env" "length str < 2 ^ 32" "apart buffer (env_cwd env) (length str)"
  shows "\<exists>t'. sys_pwd env buffer t = Inr (Return 0 t') \<and> c_string (env_fuel env) (s_mem t') buffer = Inr str"
proof -
  have "take (length str) (read_bytes (s_mem t) (env_cwd env) (length str + 1)) =
      read_bytes (s_mem t) (env_cwd env) (length str)" by (simp add: read_bytes_def)
  then have r: "read_bytes (s_mem t) (env_cwd env) (length str) = str" using assms(1) by simp
  show ?thesis
    using c_string_read [OF assms(1-3)] c_string_read [OF copied_string [OF r assms(4,5)] assms(2,3)]
    by (simp add: sys_pwd_def strlen_def set_mem_def Let_def)
qed

section \<open>A demonstration system\<close>

text \<open>A disk with the root directory of \<open>File_System\<close>, in which i-node 17 is a symbolic link.\<close>

definition link_image :: "nat \<Rightarrow> u8" where
  "link_image i = (if i = 9217 then 0xA0 else if i = 9220 then 1 else if i = 9256 then 120 else demo_image i)"

definition demo_fs :: ext2 where
  "demo_fs = \<lparr>fs_ide = demo_ide link_image, fs_blockSize = 1024, fs_numberOfNodes = 32, fs_numberOfBlocks = 100,
     fs_iNodeSize = 128, fs_nGroups = 1, fs_iNodeTables = [7], fs_iNodesPerGroup = 32\<rparr>"

definition demo_env :: kernel_env where
  "demo_env = \<lparr>env_fs = demo_fs, env_root = demo_node (demo_ide link_image) 0x4000 24, env_config = demo_config,
     env_cwd = 0x1000, env_empty = 0x2000, env_fuel = 20, env_room = (\<lambda>k n. n + 1), env_heap_tail = (\<lambda>i j. 0), env_new_pd = (\<lambda>i. 0)\<rparr>"

text \<open>Memory with \<open>/ab\<close> at 0x80000010 and \<open>zz\<close> at 0x80000020; descriptor 3 is a file.\<close>

definition demo_memory :: memory where
  "demo_memory = write_bytes 0x80000010 [97, 98, 0] (write_bytes 0x80000020 [122, 122, 0] (\<lambda>a. 0))"

definition demo_sys :: sys where
  "demo_sys =
     \<lparr>s_io = \<lparr>io_mem = demo_memory, io_pipes = (\<lambda>i. pipe_init (replicate 1024 0)), io_console = \<lparr>con_in = [], con_out = []\<rparr>\<rparr>,
      s_proc = (process_init True 1 0 9)\<lparr>p_files := [Some 9, Some 9, Some 9, Some 7, None, None, None, None, None, None]\<rparr>,
      s_objects = (\<lambda>h. if h = 9 then U8250File else ActualFile (Some (demo_node (demo_ide of_nat) 0x8000 2000)) 0),
      s_sems = (\<lambda>h. (0, 0)), s_futures = (\<lambda>h. None), s_next = 10, s_threads = []\<rparr>"

lemma demo_strings:
  "c_string 20 demo_memory 0x80000010 = Inr [97, 98]" "c_string 20 demo_memory 0x80000020 = Inr [122, 122]"
proof -
  have "read_bytes demo_memory 0x80000010 3 = [97, 98, 0]" "read_bytes demo_memory 0x80000020 3 = [122, 122, 0]"
    by (simp_all add: read_bytes_def demo_memory_def write_bytes_def upt_rec)
  then show "c_string 20 demo_memory 0x80000010 = Inr [97, 98]" "c_string 20 demo_memory 0x80000020 = Inr [122, 122]"
    by (auto intro!: c_string_read simp: numeral_3_eq_3)
qed

section \<open>Properties\<close>

text \<open>
  Successive reads from a descriptor that is open on a file of the disk deliver the bytes of the
  file in order, each call up to as many as it asked for, until the end of the file, where reads
  deliver nothing; the descriptor's offset is always behind the last byte delivered.
\<close>

theorem descriptor_reads:
  assumes "reads_file img node fd h off s" "fd \<noteq> 1" "\<not> bad_buffer buf"
  shows "\<exists>s' off'. read_calls fd buf ns s = Inr (map (node_content (img, node)) [unat off ..< unat off'], s') \<and>
      unat off' = min (unat off + sum_list (map unat ns)) (unat (nd_size_low (node_data node))) \<and>
      s_objects s' h = ActualFile (Some node) off' \<and> getFile fd (s_proc s') = Some h"
  using read_many [OF assms(2,3,1), of ns] by (auto simp: reads_file_def)

theorem descriptor_reads_witness:
  "\<exists>s'. read_calls 3 0x80000000 [2, 3] demo_sys = Inr ([0, 1, 2, 3, 4], s') \<and>
     s_objects s' 7 = ActualFile (Some (demo_node (demo_ide of_nat) 0x8000 2000)) 5"
proof -
  let ?n = "demo_node (demo_ide of_nat) 0x8000 2000"
  have "reads_file of_nat ?n 3 7 0 demo_sys"
    using demo_ok [of 2000 of_nat "0x8000"]
    by (simp add: reads_file_def demo_sys_def getFile_def index_cases sint_u32)
  from descriptor_reads [OF this, of "0x80000000" "[2, 3]"]
  obtain s' off' where r: "read_calls 3 0x80000000 [2, 3] demo_sys = Inr (map (node_content (of_nat, ?n)) [0 ..< unat off'], s')"
    "unat off' = 5" "s_objects s' 7 = ActualFile (Some ?n) off'"
    by (auto simp: bad_buffer_def demo_node_def)
  then have "off' = 5" by (intro u32_unat_eqI) simp
  then show ?thesis
    using r by (simp add: node_content_def demo_node_def node_block_index_def upt_rec)
qed

text \<open>
  C11. The stack that exec builds for a new program: at the stack pointer the number of arguments,
  above it the pointer to the argument vector, which has one pointer for each argument to a copy of
  that argument as a C string, in order, and then a null pointer. The stack pointer is aligned to four
  bytes, lies in user memory, and nothing outside the stack is touched.
\<close>

theorem exec_argument_stack:
  assumes "exec_stack tail argv m = (sp, m')"
    and "strings_size argv + 4 * length argv + 12 \<le> 0x6fffe000"
    and "\<forall>s \<in> set argv. 0 \<notin> set s \<and> length s < fuel"
  shows "argv_block fuel m' sp argv \<and> unat sp mod 4 = 0 \<and> 0x80000000 \<le> unat sp \<and>
    changed_within (unat sp) 0xefffe000 m m'"
  by (rule exec_stack_layout [OF assms])

theorem exec_argument_stack_witness:
  "\<exists>m sp. exec_stack (\<lambda>i j. 9) [[108, 115], [97]] (\<lambda>a. 7) = (sp, m) \<and> load32 m sp = 2 \<and>
     c_string 5 m (load32 m (sp + 8)) = Inr [108, 115] \<and> c_string 5 m (load32 m (sp + 12)) = Inr [97]"
proof -
  obtain sp m where e: "exec_stack (\<lambda>i j. 9) [[108, 115], [97]] (\<lambda>a. 7) = (sp, m)" by fastforce
  have "argv_block 5 m sp [[108, 115], [97]]"
    using exec_argument_stack [OF e, of 5] by (simp add: strings_size_def string_size_def)
  then have "load32 m sp = 2 \<and> c_string 5 m (load32 m (sp + 8)) = Inr [108, 115] \<and>
      c_string 5 m (load32 m (sp + 12)) = Inr [97]"
    unfolding argv_block_def by (auto dest: spec [of _ 0] spec [of _ 1] simp: add.assoc)
  with e show ?thesis by blast
qed

text \<open>
  cd followed by pwd gives back the path, and not only in the process that called cd: the path is
  written over the one literal that every process's working directory points to, so that any process
  which runs with this kernel memory is told the same path.
\<close>

theorem working_directory:
  assumes "c_string (env_fuel env) (s_mem s) path = Inr str" "length str < 2 ^ 32" "checked \<noteq> 0"
    and "apart (env_cwd env) path (length str)" "apart buffer (env_cwd env) (length str)"
  shows "\<exists>s'. sys_cd env path checked s = Inr (Return 0 s') \<and>
    (\<exists>u. sys_pwd env buffer s' = Inr (Return 0 u) \<and> c_string (env_fuel env) (s_mem u) buffer = Inr str) \<and>
    (\<exists>u. sys_pwd env buffer (set_mem (s_mem s') other) = Inr (Return 0 u) \<and>
       c_string (env_fuel env) (s_mem u) buffer = Inr str)"
proof -
  obtain m' where m': "set_cwd env path (s_mem s) = Inr m'"
    "read_bytes m' (env_cwd env) (length str + 1) = str @ [0]"
    using set_cwd_string [OF assms(1,2) refl assms(4)] by blast
  note str = c_string_inv [OF assms(1)]
  have "read_bytes (s_mem (set_mem m' t)) (env_cwd env) (length str + 1) = str @ [0]" for t
    using m'(2) by (simp add: set_mem_def)
  then have "\<exists>u. sys_pwd env buffer (set_mem m' t) = Inr (Return 0 u) \<and>
      c_string (env_fuel env) (s_mem u) buffer = Inr str" for t
    using pwd_string str assms(2,5) by blast
  moreover have "set_mem (s_mem (set_mem m' s)) other = set_mem m' other" by (simp add: set_mem_def)
  ultimately show ?thesis
    using m'(1) assms(3) by (simp add: sys_cd_def Let_def)
qed

theorem working_directory_witness:
  "\<exists>s' u. sys_cd demo_env 0x80000020 1 demo_sys = Inr (Return 0 s') \<and>
     sys_pwd demo_env 0x80001000 (set_mem (s_mem s') (demo_sys\<lparr>s_proc := process_init False 3 0 0\<rparr>)) =
       Inr (Return 0 u) \<and>
     c_string 20 (s_mem u) 0x80001000 = Inr [122, 122]"
proof -
  have "apart 0x1000 0x80000020 (Suc (Suc 0))" "apart 0x80001000 0x1000 (Suc (Suc 0))"
    by (auto simp: apart_def less_Suc_eq)
  then show ?thesis
    using working_directory [of demo_env demo_sys "0x80000020" "[122, 122]" 1 "0x80001000"
        "demo_sys\<lparr>s_proc := process_init False 3 0 0\<rparr>"] demo_strings
    by (auto simp: demo_env_def demo_sys_def)
qed

end
