(* ===== verification/Locks.thy ===== *)
theory Locks
  imports Prelude
begin

text \<open>
  The locks of \<open>kernel/atomic.h\<close>, one machine operation at a time: any number of threads, each with its own
  EFLAGS register, run \<open>lock\<close> and \<open>unlock\<close> in any interleaving. The three locks share the argument that an atomic
  exchange on \<open>taken\<close> admits one thread (\<open>locale exchange_lock\<close>); that interrupts come back the way
  they were is particular to the interrupt-safe ones.
\<close>

section \<open>Interrupts and atomics\<close>

text \<open>Bit 9 of EFLAGS is the interrupt flag; \<open>cli\<close> and \<open>sti\<close> clear and set it.\<close>

definition cli :: "u32 \<Rightarrow> u32" where
  "cli flags = unset_bit 9 flags"

definition sti :: "u32 \<Rightarrow> u32" where
  "sti flags = set_bit 9 flags"

definition isDisabled :: "u32 \<Rightarrow> bool" where
  "isDisabled flags \<longleftrightarrow> flags AND 0x200 = 0"

definition disable :: "u32 \<Rightarrow> bool \<times> u32" where
  "disable flags =
     (let wasDisabled = isDisabled flags
      in (wasDisabled, if \<not> wasDisabled then cli flags else flags))"

definition restore :: "bool \<Rightarrow> u32 \<Rightarrow> u32" where
  "restore wasDisabled flags = (if \<not> wasDisabled then sti flags else flags)"

definition protect :: "(u32 \<times> 's \<Rightarrow> u32 \<times> 's) \<Rightarrow> u32 \<times> 's \<Rightarrow> u32 \<times> 's" where
  "protect work st =
     (let (was, flags) = disable (fst st);
          (flags', s') = work (flags, snd st)
      in (restore was flags', s'))"

text \<open>The operations of \<open>Atomic\<close>: what they return, and the value they leave.\<close>

definition exchange :: "'a \<Rightarrow> 'a \<Rightarrow> 'a \<times> 'a" where
  "exchange v value = (value, v)"

definition fetch_add :: "u32 \<Rightarrow> u32 \<Rightarrow> u32 \<times> u32" where
  "fetch_add inc value = (value, value + inc)"

definition add_fetch :: "u32 \<Rightarrow> u32 \<Rightarrow> u32 \<times> u32" where
  "add_fetch inc value = (value + inc, value + inc)"

lemma isDisabled_bit: "isDisabled flags \<longleftrightarrow> \<not> bit flags 9"
  using bit_iff_and_push_bit_not_eq_0 [of flags 9] by (simp add: isDisabled_def)

lemma isDisabled_simps [simp]: "isDisabled (cli flags)" "\<not> isDisabled (sti flags)"
  by (simp_all add: isDisabled_bit cli_def sti_def bit_simps)

lemma disable_facts: "fst (disable flags) = isDisabled flags" "isDisabled (snd (disable flags))"
  by (simp_all add: disable_def Let_def)

lemma restore_disabled: "isDisabled flags \<Longrightarrow> isDisabled (restore was flags) = was"
  by (simp add: restore_def)

text \<open>Work that leaves the interrupt flag alone runs with interrupts off, and the flag comes back.\<close>

lemma protect_flag:
  assumes "\<And>fl s. isDisabled fl \<Longrightarrow> isDisabled (fst (work (fl, s)))"
  shows "isDisabled (fst (protect work (flags, s))) = isDisabled flags"
proof -
  obtain fl' s' where w: "work (snd (disable flags), s) = (fl', s')" by fastforce
  then have "isDisabled fl'" using assms [OF disable_facts(2)] by (metis fst_conv)
  then show ?thesis
    using w by (simp add: protect_def case_prod_beta' Let_def disable_facts restore_disabled)
qed

section \<open>The three locks\<close>

subsection \<open>SpinLock\<close>

datatype spin_pc = Spin_Out | Spin_Loop | Spin_In

record spinlock =
  spin_taken :: bool
  spin_pc :: "nat \<Rightarrow> spin_pc"

text \<open>The next operation of thread \<open>t\<close>: call \<open>lock\<close>, one turn of its loop, or \<open>unlock\<close>.\<close>

definition spin_run :: "nat \<Rightarrow> spinlock \<Rightarrow> spinlock" where
  "spin_run t s =
     (case spin_pc s t of
        Spin_Out \<Rightarrow> s\<lparr>spin_pc := (spin_pc s)(t := Spin_Loop)\<rparr>
      | Spin_Loop \<Rightarrow>
          let (old, new) = exchange True (spin_taken s)
          in s\<lparr>spin_taken := new, spin_pc := (spin_pc s)(t := if old then Spin_Loop else Spin_In)\<rparr>
      | Spin_In \<Rightarrow> s\<lparr>spin_taken := False, spin_pc := (spin_pc s)(t := Spin_Out)\<rparr>)"

definition spin_init :: spinlock where
  "spin_init = \<lparr>spin_taken = False, spin_pc = (\<lambda>_. Spin_Out)\<rparr>"

subsection \<open>InterruptSafeLock\<close>

text \<open>
  A thread is outside, at the top of the loop of \<open>lock\<close>, after \<open>disable\<close> (\<open>Masked\<close>), after an exchange that won
  (\<open>Won\<close>) or did not (\<open>Missed\<close>), inside, after \<open>unlock\<close> has read \<open>was\<close> (\<open>Leaving\<close>), or after it has reset \<open>taken\<close>
  (\<open>Cleared\<close>). The local variable \<open>wasDisabled\<close> is the argument. \<open>isl_entry\<close> is not in the program: it notes for
  every thread whether interrupts were off when it called \<open>lock\<close>.
\<close>

datatype isl_pc =
    Outside | Trying | Masked bool | Won bool | Missed bool | Inside | Leaving bool | Cleared bool

record isl =
  isl_taken :: bool
  isl_was :: bool
  isl_pc :: "nat \<Rightarrow> isl_pc"
  isl_flags :: "nat \<Rightarrow> u32"
  isl_entry :: "nat \<Rightarrow> bool"

definition isl_goto :: "nat \<Rightarrow> isl_pc \<Rightarrow> isl \<Rightarrow> isl" where
  "isl_goto t pc s = s\<lparr>isl_pc := (isl_pc s)(t := pc)\<rparr>"

definition isl_set_flags :: "nat \<Rightarrow> u32 \<Rightarrow> isl \<Rightarrow> isl" where
  "isl_set_flags t fl s = s\<lparr>isl_flags := (isl_flags s)(t := fl)\<rparr>"

definition isl_lock :: "nat \<Rightarrow> isl \<Rightarrow> isl" where
  "isl_lock t s =
     (case isl_pc s t of
        Outside \<Rightarrow> isl_goto t Trying (s\<lparr>isl_entry := (isl_entry s)(t := isDisabled (isl_flags s t))\<rparr>)
      | Trying \<Rightarrow>
          let (wasDisabled, fl) = disable (isl_flags s t)
          in isl_goto t (Masked wasDisabled) (isl_set_flags t fl s)
      | Masked wasDisabled \<Rightarrow>
          let (old, new) = exchange True (isl_taken s)
          in isl_goto t (if \<not> old then Won wasDisabled else Missed wasDisabled) (s\<lparr>isl_taken := new\<rparr>)
      | Won wasDisabled \<Rightarrow> isl_goto t Inside (s\<lparr>isl_was := wasDisabled\<rparr>)
      | Missed wasDisabled \<Rightarrow>
          isl_goto t Trying (isl_set_flags t (restore wasDisabled (isl_flags s t)) s)
      | _ \<Rightarrow> s)"

definition isl_unlock :: "nat \<Rightarrow> isl \<Rightarrow> isl" where
  "isl_unlock t s =
     (case isl_pc s t of
        Inside \<Rightarrow> isl_goto t (Leaving (isl_was s)) s
      | Leaving wasDisabled \<Rightarrow> isl_goto t (Cleared wasDisabled) (s\<lparr>isl_taken := False\<rparr>)
      | Cleared wasDisabled \<Rightarrow>
          isl_goto t Outside (isl_set_flags t (restore wasDisabled (isl_flags s t)) s)
      | _ \<Rightarrow> s)"

text \<open>
  An event is the next operation of a thread, or a change of the flags by a thread that is outside.
\<close>

datatype lock_event = Run nat | Flags nat u32

fun unlocking :: "isl_pc \<Rightarrow> bool" where
  "unlocking Inside = True"
| "unlocking (Leaving w) = True"
| "unlocking (Cleared w) = True"
| "unlocking _ = False"

fun isl_step :: "lock_event \<Rightarrow> isl \<Rightarrow> isl" where
  "isl_step (Run t) s = (if unlocking (isl_pc s t) then isl_unlock t s else isl_lock t s)"
| "isl_step (Flags t fl) s = (if isl_pc s t = Outside then isl_set_flags t fl s else s)"

definition isl_init :: "(nat \<Rightarrow> u32) \<Rightarrow> isl" where
  "isl_init flags =
     \<lparr>isl_taken = False, isl_was = False, isl_pc = (\<lambda>_. Outside), isl_flags = flags,
      isl_entry = (\<lambda>_. False)\<rparr>"

fun owning :: "isl_pc \<Rightarrow> bool" where
  "owning (Won w) = True"
| "owning Inside = True"
| "owning (Leaving w) = True"
| "owning _ = False"

definition isl_owns :: "isl \<Rightarrow> nat \<Rightarrow> bool" where
  "isl_owns s t = owning (isl_pc s t)"

subsection \<open>ISL\<close>

text \<open>
  The flexible lock: \<open>lock\<close> returns \<open>wasDisabled\<close> to its caller and \<open>unlock\<close> is told whether to disable
  interrupts. \<open>Flex_In w\<close> is a thread inside whose call returned \<open>w\<close>, \<open>Flex_Cleared d\<close> one whose \<open>unlock(d)\<close>
  has reset \<open>taken\<close>.
\<close>

datatype flex_pc =
    Flex_Out | Flex_Trying | Flex_Masked bool | Flex_Missed bool | Flex_In bool | Flex_Cleared bool

record flex =
  flex_taken :: bool
  flex_pc :: "nat \<Rightarrow> flex_pc"
  flex_flags :: "nat \<Rightarrow> u32"

definition flex_put :: "nat \<Rightarrow> flex_pc \<Rightarrow> u32 \<Rightarrow> flex \<Rightarrow> flex" where
  "flex_put t pc fl s =
     s\<lparr>flex_pc := (flex_pc s)(t := pc), flex_flags := (flex_flags s)(t := fl)\<rparr>"

text \<open>The argument \<open>d\<close> is the one of \<open>unlock\<close>; the other operations do not read it.\<close>

definition flex_run :: "nat \<times> bool \<Rightarrow> flex \<Rightarrow> flex" where
  "flex_run e s =
     (let t = fst e; d = snd e; fl = flex_flags s t in
      case flex_pc s t of
        Flex_Out \<Rightarrow> flex_put t Flex_Trying fl s
      | Flex_Trying \<Rightarrow> let (wasDisabled, fl') = disable fl in flex_put t (Flex_Masked wasDisabled) fl' s
      | Flex_Masked wasDisabled \<Rightarrow>
          let (old, new) = exchange True (flex_taken s)
          in flex_put t (if \<not> old then Flex_In wasDisabled else Flex_Missed wasDisabled) fl (s\<lparr>flex_taken := new\<rparr>)
      | Flex_Missed wasDisabled \<Rightarrow> flex_put t Flex_Trying (restore wasDisabled fl) s
      | Flex_In wasDisabled \<Rightarrow> flex_put t (Flex_Cleared d) fl (s\<lparr>flex_taken := False\<rparr>)
      | Flex_Cleared d' \<Rightarrow> flex_put t Flex_Out (if d' then cli fl else sti fl) s)"

definition flex_init :: "(nat \<Rightarrow> u32) \<Rightarrow> flex" where
  "flex_init flags = \<lparr>flex_taken = False, flex_pc = (\<lambda>_. Flex_Out), flex_flags = flags\<rparr>"

section \<open>Mutual exclusion\<close>

text \<open>The lock word is set exactly while some thread owns the lock, and one thread owns it at most.\<close>

definition exclusive :: "bool \<Rightarrow> (nat \<Rightarrow> bool) \<Rightarrow> bool" where
  "exclusive taken owns \<longleftrightarrow> (taken \<longleftrightarrow> (\<exists>t. owns t)) \<and> (\<forall>t u. owns t \<longrightarrow> owns u \<longrightarrow> t = u)"

locale exchange_lock =
  fixes step :: "'e \<Rightarrow> 's \<Rightarrow> 's"
    and who :: "'e \<Rightarrow> nat"
    and taken :: "'s \<Rightarrow> bool"
    and owns :: "'s \<Rightarrow> nat \<Rightarrow> bool"
  assumes others: "u \<noteq> who e \<Longrightarrow> owns (step e s) u = owns s u"
    and gain: "\<not> owns s (who e) \<Longrightarrow> owns (step e s) (who e) \<Longrightarrow> \<not> taken s \<and> taken (step e s)"
    and keep: "owns (step e s) (who e) = owns s (who e) \<Longrightarrow> taken (step e s) = taken s"
    and release: "owns s (who e) \<Longrightarrow> \<not> owns (step e s) (who e) \<Longrightarrow> \<not> taken (step e s)"
begin

lemma exclusive_step:
  assumes "exclusive (taken s) (owns s)"
  shows "exclusive (taken (step e s)) (owns (step e s))"
proof -
  let ?t = "who e" and ?s' = "step e s"
  consider (same) "owns ?s' ?t = owns s ?t" | (gained) "\<not> owns s ?t" "owns ?s' ?t"
    | (released) "owns s ?t" "\<not> owns ?s' ?t" by blast
  then show ?thesis
  proof cases
    case same
    then have "owns ?s' = owns s" using others by (intro ext) (metis)
    then show ?thesis using assms keep [OF same] by simp
  next
    case gained
    then have "owns ?s' u \<longleftrightarrow> u = ?t" for u
      using gain [OF gained] others [of u e s] assms by (auto simp: exclusive_def)
    then show ?thesis using gain [OF gained] by (auto simp: exclusive_def)
  next
    case released
    then have "\<not> owns ?s' u" for u
      using others [of u e s] assms by (cases "u = ?t") (auto simp: exclusive_def)
    then show ?thesis using release [OF released] by (auto simp: exclusive_def)
  qed
qed

lemma exclusive_run: "exclusive (taken s) (owns s) \<Longrightarrow> exclusive (taken (fold step es s)) (owns (fold step es s))"
  by (induction es arbitrary: s) (auto intro: exclusive_step)

end

fun event_thread :: "lock_event \<Rightarrow> nat" where
  "event_thread (Run t) = t"
| "event_thread (Flags t fl) = t"

lemmas isl_ops = isl_lock_def isl_unlock_def isl_goto_def isl_set_flags_def exchange_def

interpretation spin: exchange_lock spin_run id spin_taken "\<lambda>s t. spin_pc s t = Spin_In"
  by unfold_locales (auto simp: spin_run_def exchange_def split: spin_pc.splits if_splits)

interpretation safe: exchange_lock isl_step event_thread isl_taken isl_owns
proof (unfold_locales, goal_cases)
  case (1 u e s)
  then show ?case
    by (cases e) (auto simp: isl_ops isl_owns_def case_prod_beta Let_def split: isl_pc.splits)
next
  case (2 s e)
  then show ?case
    by (cases e; cases "isl_pc s (event_thread e)")
      (auto simp: isl_ops isl_owns_def case_prod_beta Let_def split: if_splits)
next
  case (3 e s)
  then show ?case
    by (cases e; cases "isl_pc s (event_thread e)")
      (auto simp: isl_ops isl_owns_def case_prod_beta Let_def split: if_splits)
next
  case (4 s e)
  then show ?case
    by (cases e; cases "isl_pc s (event_thread e)")
      (auto simp: isl_ops isl_owns_def case_prod_beta Let_def split: if_splits)
qed

interpretation flexible: exchange_lock flex_run fst flex_taken "\<lambda>s t. \<exists>w. flex_pc s t = Flex_In w"
  by unfold_locales
    (auto simp: flex_run_def flex_put_def exchange_def case_prod_beta Let_def split: flex_pc.splits if_splits)

section \<open>The interrupt flag\<close>

text \<open>
  One assertion per program point: \<open>e\<close> is whether interrupts were off at the call, \<open>was\<close> the field of the lock, \<open>d\<close>
  whether they are off now.
\<close>

fun flag_note :: "bool \<Rightarrow> bool \<Rightarrow> bool \<Rightarrow> isl_pc \<Rightarrow> bool" where
  "flag_note e was d Outside = True"
| "flag_note e was d Trying = (d = e)"
| "flag_note e was d (Masked w) = (w = e \<and> d)"
| "flag_note e was d (Won w) = (w = e \<and> d)"
| "flag_note e was d (Missed w) = (w = e \<and> d)"
| "flag_note e was d Inside = (was = e \<and> d)"
| "flag_note e was d (Leaving w) = (w = e \<and> d)"
| "flag_note e was d (Cleared w) = (w = e \<and> d)"

definition isl_inv :: "isl \<Rightarrow> bool" where
  "isl_inv s \<longleftrightarrow> exclusive (isl_taken s) (isl_owns s) \<and>
     (\<forall>t. flag_note (isl_entry s t) (isl_was s) (isDisabled (isl_flags s t)) (isl_pc s t))"

lemma isl_step_other:
  assumes "u \<noteq> event_thread e"
  shows "isl_pc (isl_step e s) u = isl_pc s u" "isl_flags (isl_step e s) u = isl_flags s u"
    "isl_entry (isl_step e s) u = isl_entry s u"
  using assms by (cases e; auto simp: isl_ops case_prod_beta Let_def split: isl_pc.splits)+

text \<open>Only the thread that has just won writes \<open>was\<close>.\<close>

lemma isl_was_write:
  "isl_was (isl_step e s) \<noteq> isl_was s \<Longrightarrow> owning (isl_pc s (event_thread e)) \<and> isl_pc s (event_thread e) \<noteq> Inside"
  by (cases e) (auto simp: isl_ops case_prod_beta Let_def split: isl_pc.splits if_splits)

lemma flag_note_was: "pc \<noteq> Inside \<Longrightarrow> flag_note e was d pc = flag_note e was' d pc"
  by (cases pc) auto

lemma isl_step_own:
  assumes "flag_note (isl_entry s t) (isl_was s) (isDisabled (isl_flags s t)) (isl_pc s t)" "t = event_thread e"
  shows "flag_note (isl_entry (isl_step e s) t) (isl_was (isl_step e s))
    (isDisabled (isl_flags (isl_step e s) t)) (isl_pc (isl_step e s) t)"
  using assms
  by (cases e; cases "isl_pc s t")
    (auto simp: isl_ops case_prod_beta Let_def disable_facts restore_disabled)

lemma isl_inv_step:
  assumes "isl_inv s"
  shows "isl_inv (isl_step e s)"
  unfolding isl_inv_def
proof (intro conjI allI)
  have x: "exclusive (isl_taken s) (isl_owns s)" using assms by (simp add: isl_inv_def)
  then show "exclusive (isl_taken (isl_step e s)) (isl_owns (isl_step e s))"
    by (rule safe.exclusive_step)
  fix t
  have n: "flag_note (isl_entry s t) (isl_was s) (isDisabled (isl_flags s t)) (isl_pc s t)"
    using assms by (simp add: isl_inv_def)
  show "flag_note (isl_entry (isl_step e s) t) (isl_was (isl_step e s))
    (isDisabled (isl_flags (isl_step e s) t)) (isl_pc (isl_step e s) t)"
  proof (cases "t = event_thread e")
    case True
    then show ?thesis using isl_step_own n by blast
  next
    case False
    have "isl_was (isl_step e s) = isl_was s \<or> isl_pc s t \<noteq> Inside"
    proof (rule ccontr)
      assume a: "\<not> ?thesis"
      then have "isl_owns s (event_thread e)" "isl_owns s t"
        using isl_was_write [of e s] by (auto simp: isl_owns_def)
      then show False using x False by (auto simp: exclusive_def)
    qed
    then show ?thesis
    proof
      assume "isl_was (isl_step e s) = isl_was s"
      then show ?thesis using n by (simp only: isl_step_other [OF False])
    next
      assume "isl_pc s t \<noteq> Inside"
      then show ?thesis using n flag_note_was [of "isl_pc s t"] by (simp only: isl_step_other [OF False]) blast
    qed
  qed
qed

lemma isl_init_inv: "isl_inv (isl_init flags)"
  by (auto simp: isl_inv_def isl_init_def exclusive_def isl_owns_def)

lemma isl_inv_run: "isl_inv s \<Longrightarrow> isl_inv (fold isl_step es s)"
  by (induction es arbitrary: s) (auto intro: isl_inv_step)

text \<open>A thread that runs while the lock is free has it after three operations.\<close>

lemma isl_free_lock:
  assumes "isl_pc s t = Trying" "\<not> isl_taken s"
  shows "isl_pc (fold isl_step [Run t, Run t, Run t] s) t = Inside"
  using assms by (simp add: isl_ops case_prod_beta Let_def)

section \<open>The property\<close>

text \<open>
  C8. The interrupt-safe lock, under every interleaving of any number of threads, from any flags:
  at most one thread owns it, and that thread runs with interrupts off; a thread spins with the
  interrupt flag it came with; when \<open>unlock\<close> returns, the flag is what it was at the call of \<open>lock\<close>; and a thread
  that finds the lock free gets it in three operations.
\<close>

theorem interrupt_safe_lock:
  assumes "s = fold isl_step es (isl_init flags)"
  shows "(isl_owns s t \<longrightarrow> isDisabled (isl_flags s t) \<and> (\<forall>u. isl_owns s u \<longrightarrow> u = t)) \<and>
    (isl_pc s t = Trying \<longrightarrow> isDisabled (isl_flags s t) = isl_entry s t) \<and>
    (isl_pc s t = Cleared w \<longrightarrow> isl_pc (isl_step (Run t) s) t = Outside \<and>
       isDisabled (isl_flags (isl_step (Run t) s) t) = isl_entry s t) \<and>
    (isl_pc s t = Trying \<and> \<not> isl_taken s \<longrightarrow> isl_pc (fold isl_step [Run t, Run t, Run t] s) t = Inside)"
proof -
  have inv: "isl_inv s" unfolding assms by (rule isl_inv_run [OF isl_init_inv])
  then have n: "flag_note (isl_entry s t) (isl_was s) (isDisabled (isl_flags s t)) (isl_pc s t)"
    and x: "exclusive (isl_taken s) (isl_owns s)" by (auto simp: isl_inv_def)
  have "isDisabled (isl_flags s t)" if "isl_owns s t"
    using n that by (cases "isl_pc s t") (auto simp: isl_owns_def)
  moreover have "isl_pc (isl_step (Run t) s) t = Outside \<and>
    isDisabled (isl_flags (isl_step (Run t) s) t) = isl_entry s t" if "isl_pc s t = Cleared w"
    using n that by (simp add: isl_ops restore_disabled)
  ultimately show ?thesis using n x isl_free_lock by (auto simp: exclusive_def)
qed

text \<open>Thread 0, with interrupts on, and thread 1, with interrupts off, both call \<open>lock\<close>; thread 1 wins.\<close>

definition demo_schedule :: "lock_event list" where
  "demo_schedule = [Run 0, Run 1, Run 0, Run 1, Run 1, Run 0, Run 1, Run 0]"

definition demo_isl :: isl where
  "demo_isl = fold isl_step demo_schedule (isl_init (\<lambda>t. if t = 0 then 0x200 else 0))"

lemma isl_step_at:
  "isl_pc s t = Outside \<Longrightarrow> isl_step (Run t) s =
     s\<lparr>isl_pc := (isl_pc s)(t := Trying), isl_entry := (isl_entry s)(t := isDisabled (isl_flags s t))\<rparr>"
  "isl_pc s t = Trying \<Longrightarrow> isl_step (Run t) s =
     s\<lparr>isl_pc := (isl_pc s)(t := Masked (isDisabled (isl_flags s t))),
       isl_flags := (isl_flags s)(t := snd (disable (isl_flags s t)))\<rparr>"
  "isl_pc s t = Masked w \<Longrightarrow> isl_step (Run t) s =
     s\<lparr>isl_pc := (isl_pc s)(t := if \<not> isl_taken s then Won w else Missed w), isl_taken := True\<rparr>"
  "isl_pc s t = Won w \<Longrightarrow> isl_step (Run t) s = s\<lparr>isl_pc := (isl_pc s)(t := Inside), isl_was := w\<rparr>"
  "isl_pc s t = Missed w \<Longrightarrow> isl_step (Run t) s =
     s\<lparr>isl_pc := (isl_pc s)(t := Trying), isl_flags := (isl_flags s)(t := restore w (isl_flags s t))\<rparr>"
  by (simp_all add: isl_ops case_prod_beta Let_def disable_facts)

lemma demo_isl_pcs: "isl_pc demo_isl 1 = Inside" "isl_pc demo_isl 0 = Trying" "isl_entry demo_isl 0 = False"
proof -
  have d: "isDisabled 0x200 = False" "isDisabled 0 = True" by (simp_all add: isDisabled_def)
  show "isl_pc demo_isl 1 = Inside" "isl_pc demo_isl 0 = Trying" "isl_entry demo_isl 0 = False"
    by (simp_all add: demo_isl_def demo_schedule_def isl_init_def isl_step_at(1,2)
      isl_step_at(3-5) [where w = True] isl_step_at(3-5) [where w = False] d del: isl_step.simps)
qed

lemma interrupt_safe_lock_witness:
  "isl_owns demo_isl 1 \<and> isDisabled (isl_flags demo_isl 1) \<and> \<not> isDisabled (isl_flags demo_isl 0)"
  using interrupt_safe_lock [OF demo_isl_def, of 1] interrupt_safe_lock [OF demo_isl_def, of 0] demo_isl_pcs
  by (simp add: isl_owns_def)

end
