(* ===== verification/Shared_Ptr.thy ===== *)
theory Shared_Ptr
  imports Locks
begin

text \<open>
  The reference-counting pointer of \<open>kernel/shared.h\<close>. A \<open>Shared\<close> variable is a slot that holds the address of an
  object or null; the objects carry their \<open>ref_count\<close>. Every constructor, assignment and the destructor is an
  operation on the slots, and touching the count of an object that was deleted is a fault. Objects
  whose own destructor drops further references are not modelled.
\<close>

section \<open>The code\<close>

text \<open>
  \<open>sp_slots\<close> has an entry for every \<open>Shared\<close> variable that exists; \<open>sp_alive\<close> are the addresses of the objects
  that were made and not deleted.
\<close>

record refs =
  sp_count :: "nat \<Rightarrow> u32"
  sp_alive :: "nat set"
  sp_slots :: "nat \<Rightarrow> nat option option"

definition sp_ptr :: "nat \<Rightarrow> refs \<Rightarrow> nat option" where
  "sp_ptr d s = (case sp_slots s d of Some p \<Rightarrow> p | None \<Rightarrow> None)"

definition sp_set :: "nat \<Rightarrow> nat option \<Rightarrow> refs \<Rightarrow> refs" where
  "sp_set d p s = s\<lparr>sp_slots := (sp_slots s)(d \<mapsto> p)\<rparr>"

definition shared_drop :: "nat \<Rightarrow> refs \<Rightarrow> refs res" where
  "shared_drop d s =
     (case sp_ptr d s of
        None \<Rightarrow> Inr s
      | Some x \<Rightarrow>
          if x \<notin> sp_alive s then Inl Undefined
          else
            let (new_count, c) = add_fetch (- 1) (sp_count s x);
                s1 = s\<lparr>sp_count := (sp_count s)(x := c)\<rparr>
            in if new_count = 0
               then Inr (sp_set d None (s1\<lparr>sp_alive := sp_alive s1 - {x}\<rparr>))
               else Inr s1)"

definition shared_add :: "nat \<Rightarrow> refs \<Rightarrow> refs res" where
  "shared_add d s =
     (case sp_ptr d s of
        None \<Rightarrow> Inr s
      | Some x \<Rightarrow>
          if x \<notin> sp_alive s then Inl Undefined
          else Inr (s\<lparr>sp_count := (sp_count s)(x := snd (add_fetch 1 (sp_count s x)))\<rparr>))"

text \<open>The constructors from a raw pointer, without argument, copying and moving; the destructor.\<close>

definition shared_raw :: "nat \<Rightarrow> nat option \<Rightarrow> refs \<Rightarrow> refs res" where
  "shared_raw d it s = shared_add d (sp_set d it s)"

definition shared_null :: "nat \<Rightarrow> refs \<Rightarrow> refs res" where
  "shared_null d s = Inr (sp_set d None s)"

definition shared_copy :: "nat \<Rightarrow> nat \<Rightarrow> refs \<Rightarrow> refs res" where
  "shared_copy d rhs s = shared_add d (sp_set d (sp_ptr rhs s) s)"

definition shared_move :: "nat \<Rightarrow> nat \<Rightarrow> refs \<Rightarrow> refs res" where
  "shared_move d rhs s = Inr (sp_set rhs None (sp_set d (sp_ptr rhs s) s))"

definition shared_destroy :: "nat \<Rightarrow> refs \<Rightarrow> refs res" where
  "shared_destroy d s =
     rbind (shared_drop d s) (\<lambda>s1. Inr (s1\<lparr>sp_slots := (sp_slots s1)(d := None)\<rparr>))"

text \<open>The three assignments.\<close>

definition assign_raw :: "nat \<Rightarrow> nat option \<Rightarrow> refs \<Rightarrow> refs res" where
  "assign_raw d rhs s =
     (if sp_ptr d s \<noteq> rhs
      then rbind (shared_drop d s) (\<lambda>s1. shared_add d (sp_set d rhs s1))
      else Inr s)"

definition assign_copy :: "nat \<Rightarrow> nat \<Rightarrow> refs \<Rightarrow> refs res" where
  "assign_copy d rhs s =
     (let other_ptr = sp_ptr rhs s in
      if sp_ptr d s \<noteq> other_ptr
      then rbind (shared_drop d s) (\<lambda>s1. shared_add d (sp_set d other_ptr s1))
      else Inr s)"

definition assign_move :: "nat \<Rightarrow> nat \<Rightarrow> refs \<Rightarrow> refs res" where
  "assign_move d rhs s =
     rbind (shared_drop d s) (\<lambda>s1. Inr (sp_set rhs None (sp_set d (sp_ptr rhs s1) s1)))"

text \<open>\<open>make\<close>, where \<open>operator new\<close> returns \<open>x\<close> and the constructor of the object sets its count to 0.\<close>

definition shared_make :: "nat \<Rightarrow> nat \<Rightarrow> refs \<Rightarrow> refs res" where
  "shared_make d x s =
     shared_raw d (Some x) (s\<lparr>sp_alive := insert x (sp_alive s), sp_count := (sp_count s)(x := 0)\<rparr>)"

section \<open>The invariant\<close>

text \<open>The slots that hold the address \<open>x\<close>: the count of every object is their number.\<close>

definition holders :: "refs \<Rightarrow> nat \<Rightarrow> nat set" where
  "holders s x = {d. sp_slots s d = Some (Some x)}"

definition refs_ok :: "refs \<Rightarrow> bool" where
  "refs_ok s \<longleftrightarrow> finite (dom (sp_slots s)) \<and> card (dom (sp_slots s)) < 2 ^ 32 \<and>
     (\<forall>x \<in> sp_alive s. unat (sp_count s x) = card (holders s x)) \<and>
     (\<forall>x. holders s x \<noteq> {} \<longrightarrow> x \<in> sp_alive s)"

lemma holders_dom: "holders s x \<subseteq> dom (sp_slots s)"
  by (auto simp: holders_def)

lemma holders_card: "refs_ok s \<Longrightarrow> finite (holders s x) \<and> card (holders s x) < 2 ^ 32"
  using holders_dom [of s x] card_mono [of "dom (sp_slots s)" "holders s x"]
  by (auto simp: refs_ok_def intro: finite_subset)

lemma holders_set: "holders (sp_set d p s) x = (if p = Some x then insert d (holders s x) else holders s x - {d})"
  by (auto simp: holders_def sp_set_def)

lemma sp_set_simps [simp]:
  "sp_alive (sp_set d p s) = sp_alive s" "sp_count (sp_set d p s) = sp_count s"
  "sp_ptr d (sp_set d p s) = p" "sp_set d p (sp_set d q s) = sp_set d p s"
  "dom (sp_slots (sp_set d p s)) = insert d (dom (sp_slots s))"
  by (auto simp: sp_set_def sp_ptr_def)

lemma sp_set_same: "d \<in> dom (sp_slots s) \<Longrightarrow> sp_set d (sp_ptr d s) s = s"
  by (auto simp: sp_set_def sp_ptr_def fun_upd_idem)

lemma ptr_holders: "d \<in> dom (sp_slots s) \<Longrightarrow> sp_ptr d s = Some x \<longleftrightarrow> d \<in> holders s x"
  by (auto simp: holders_def sp_ptr_def)

text \<open>A slot set to null while the counts are adjusted: what \<open>drop\<close> leaves, what \<open>add\<close> starts from.\<close>

lemma shared_drop_ok:
  assumes ok: "refs_ok s" and d: "d \<in> dom (sp_slots s)"
  obtains s1 where "shared_drop d s = Inr s1" "refs_ok (sp_set d None s1)"
    "\<And>e. e \<noteq> d \<Longrightarrow> sp_slots s1 e = sp_slots s e" "dom (sp_slots s1) = dom (sp_slots s)"
    "sp_alive s1 = sp_alive s - {x. holders s x = {d}}"
    "sp_ptr d s1 = sp_ptr d s \<or> sp_ptr d s1 = None"
proof (cases "sp_ptr d s")
  case None
  then have "shared_drop d s = Inr s" by (simp add: shared_drop_def)
  moreover have "sp_set d None s = s" using sp_set_same [OF d] None by simp
  moreover have "holders s x \<noteq> {d}" for x using ptr_holders [OF d] None by auto
  ultimately show ?thesis using that [of s] ok by simp
next
  case (Some x)
  have only: "y = x" if "d \<in> holders s y" for y
    using ptr_holders [OF d, of y] Some that by simp
  have x: "d \<in> holders s x" "x \<in> sp_alive s"
    using ptr_holders [OF d] Some ok by (auto simp: refs_ok_def)
  let ?c = "sp_count s x - 1"
  have n: "unat (sp_count s x) = card (holders s x)" "0 < card (holders s x)"
    using x ok holders_card [OF ok, of x] by (auto simp: refs_ok_def card_gt_0_iff)
  have c: "unat ?c = card (holders s x) - 1"
    using n by (metis One_nat_def Suc_leI unat_minus_one unsigned_0 less_numeral_extra(3))
  let ?s0 = "s\<lparr>sp_count := (sp_count s)(x := ?c)\<rparr>"
  let ?s1 = "if holders s x = {d} then sp_set d None (?s0\<lparr>sp_alive := sp_alive s - {x}\<rparr>) else ?s0"
  have z: "?c = 0 \<longleftrightarrow> holders s x = {d}"
  proof -
    have "?c = 0 \<longleftrightarrow> card (holders s x) = 1" using c n by (metis One_nat_def Suc_pred unat_eq_zero diff_self_eq_0)
    then show ?thesis using x(1) by (auto simp: card_1_singleton_iff)
  qed
  have del: "{y. holders s y = {d}} = (if holders s x = {d} then {x} else {})"
    using only by auto
  have "shared_drop d s = Inr ?s1"
    using Some x z by (simp add: shared_drop_def add_fetch_def Let_def)
  moreover have "refs_ok (sp_set d None ?s1)"
  proof -
    have h: "holders (sp_set d None ?s1) y = holders s y - {d}" for y
      by (auto simp: holders_set holders_def sp_set_def)
    have a: "sp_alive (sp_set d None ?s1) = sp_alive s - (if holders s x = {d} then {x} else {})"
      by simp
    have k: "sp_count (sp_set d None ?s1) = (sp_count s)(x := ?c)" by simp
    have dd: "dom (sp_slots (sp_set d None ?s1)) = dom (sp_slots s)"
      using d by (auto simp: sp_set_def)
    have e: "holders s y - {d} = holders s y" if "y \<noteq> x" for y using only that by auto
    have "unat (((sp_count s)(x := ?c)) y) = card (holders s y - {d})" if "y \<in> sp_alive s" for y
      using that ok c x(1) e holders_card [OF ok, of x] by (cases "y = x") (auto simp: refs_ok_def)
    moreover have "y \<in> sp_alive s \<and> \<not> (holders s x = {d} \<and> y = x)" if "holders s y - {d} \<noteq> {}" for y
      using that ok by (auto simp: refs_ok_def)
    ultimately show ?thesis
      using ok unfolding refs_ok_def h a k dd by auto
  qed
  ultimately show ?thesis
    using that [of ?s1] d Some del by (auto simp: sp_set_def sp_ptr_def split: if_splits)
qed

lemma shared_add_ok:
  assumes ok: "refs_ok (sp_set d None s)" and p: "\<And>x. p = Some x \<Longrightarrow> x \<in> sp_alive s"
  obtains s2 where "shared_add d (sp_set d p s) = Inr s2" "refs_ok s2"
    "sp_slots s2 = (sp_slots s)(d \<mapsto> p)" "sp_alive s2 = sp_alive s"
proof (cases p)
  case None
  then have "shared_add d (sp_set d p s) = Inr (sp_set d p s)" by (simp add: shared_add_def)
  then show ?thesis using that [of "sp_set d p s"] ok None by (simp add: sp_set_def)
next
  case (Some x)
  let ?t = "sp_set d None s"
  let ?s2 = "(sp_set d p s)\<lparr>sp_count := (sp_count s)(x := sp_count s x + 1)\<rparr>"
  have x: "x \<in> sp_alive s" using p Some by simp
  have h: "holders ?s2 y = (if y = x then insert d (holders ?t x) else holders ?t y)" for y
    using Some by (auto simp: holders_def sp_set_def)
  have nd: "d \<notin> holders ?t x" by (simp add: holders_set)
  have fin: "finite (holders ?t x)" using holders_card [OF ok] by simp
  have "insert d (holders ?t x) \<subseteq> dom (sp_slots ?t)" using holders_dom [of ?t x] by simp
  then have "card (insert d (holders ?t x)) < 2 ^ 32"
    using ok card_mono [of "dom (sp_slots ?t)" "insert d (holders ?t x)"] by (auto simp: refs_ok_def)
  then have lt: "card (holders ?t x) + 1 < 2 ^ 32" using nd fin by simp
  have "unat (sp_count s x) = card (holders ?t x)" using ok x by (simp add: refs_ok_def)
  then have c: "unat (sp_count s x + 1) = card (insert d (holders ?t x))"
    using lt nd fin unat_add_bounded [of "sp_count s x" 1] by simp
  have "shared_add d (sp_set d p s) = Inr ?s2"
    using Some x by (simp add: shared_add_def add_fetch_def)
  moreover have "refs_ok ?s2"
  proof -
    have "unat (sp_count ?s2 y) = card (holders ?s2 y)" if "y \<in> sp_alive s" for y
      using that ok c by (cases "y = x") (auto simp: h refs_ok_def)
    moreover have "y \<in> sp_alive s" if "holders ?s2 y \<noteq> {}" for y
      using that ok x by (cases "y = x") (auto simp: h refs_ok_def)
    moreover have "dom (sp_slots ?s2) = dom (sp_slots ?t)" by (simp add: sp_set_def)
    ultimately show ?thesis using ok by (auto simp: refs_ok_def)
  qed
  ultimately show ?thesis using that [of ?s2] by (simp add: sp_set_def)
qed

section \<open>Operations\<close>

text \<open>
  The operations a program can apply, and when it may: a constructor makes a variable that did not
  exist, the others work on variables that do, and a raw pointer points to an object. \<open>New\<close> is \<open>operator new\<close>
  on its own, as in \<open>Shared<File>(new PipeFile(...))\<close>.
\<close>

datatype shared_op =
    New nat | Raw nat "nat option" | Null nat | Copy nat nat | Move nat nat | Destroy nat
  | Assign_Raw nat "nat option" | Assign_Copy nat nat | Assign_Move nat nat | Make nat nat

fun shared_exec :: "shared_op \<Rightarrow> refs \<Rightarrow> refs res" where
  "shared_exec (New x) s = Inr (s\<lparr>sp_alive := insert x (sp_alive s), sp_count := (sp_count s)(x := 0)\<rparr>)"
| "shared_exec (Raw d p) s = shared_raw d p s"
| "shared_exec (Null d) s = shared_null d s"
| "shared_exec (Copy d e) s = shared_copy d e s"
| "shared_exec (Move d e) s = shared_move d e s"
| "shared_exec (Destroy d) s = shared_destroy d s"
| "shared_exec (Assign_Raw d p) s = assign_raw d p s"
| "shared_exec (Assign_Copy d e) s = assign_copy d e s"
| "shared_exec (Assign_Move d e) s = assign_move d e s"
| "shared_exec (Make d x) s = shared_make d x s"

definition points :: "nat option \<Rightarrow> refs \<Rightarrow> bool" where
  "points p s \<longleftrightarrow> (case p of None \<Rightarrow> True | Some x \<Rightarrow> x \<in> sp_alive s)"

fun legal :: "shared_op \<Rightarrow> refs \<Rightarrow> bool" where
  "legal (New x) s = (x \<notin> sp_alive s)"
| "legal (Raw d p) s = (d \<notin> dom (sp_slots s) \<and> points p s)"
| "legal (Null d) s = (d \<notin> dom (sp_slots s))"
| "legal (Copy d e) s = (d \<notin> dom (sp_slots s) \<and> e \<in> dom (sp_slots s))"
| "legal (Move d e) s = (d \<notin> dom (sp_slots s) \<and> e \<in> dom (sp_slots s))"
| "legal (Destroy d) s = (d \<in> dom (sp_slots s))"
| "legal (Assign_Raw d p) s = (d \<in> dom (sp_slots s) \<and> points p s)"
| "legal (Assign_Copy d e) s = (d \<in> dom (sp_slots s) \<and> e \<in> dom (sp_slots s))"
| "legal (Assign_Move d e) s = (d \<in> dom (sp_slots s) \<and> e \<in> dom (sp_slots s))"
| "legal (Make d x) s = (d \<notin> dom (sp_slots s) \<and> x \<notin> sp_alive s)"

fun made :: "shared_op \<Rightarrow> nat set" where
  "made (New x) = {x}"
| "made (Make d x) = {x}"
| "made _ = {}"

text \<open>
  What every operation must do: no fault, the invariant, and exactly those objects deleted whose last
  reference it removed.
\<close>

definition sound_step :: "nat set \<Rightarrow> refs \<Rightarrow> refs res \<Rightarrow> bool" where
  "sound_step new s r \<longleftrightarrow>
     (case r of
        Inl _ \<Rightarrow> False
      | Inr s' \<Rightarrow> refs_ok s' \<and>
          sp_alive s' = (sp_alive s \<union> new) - {x. holders s x \<noteq> {} \<and> holders s' x = {}})"

lemma fresh_ok:
  assumes "refs_ok s" "d \<notin> dom (sp_slots s)" "card (dom (sp_slots s)) + 1 < 2 ^ 32"
  shows "refs_ok (sp_set d None s)"
proof -
  have "holders (sp_set d None s) x = holders s x" for x
    using assms(2) by (auto simp: holders_def sp_set_def)
  then show ?thesis using assms by (simp add: refs_ok_def)
qed

lemma fresh_holders: "d \<notin> dom (sp_slots s) \<Longrightarrow> d \<notin> holders s x"
  by (auto simp: holders_def)

lemma holders_other:
  "(\<And>e. e \<noteq> d \<Longrightarrow> sp_slots s1 e = sp_slots s e) \<Longrightarrow> holders s1 x - {d} = holders s x - {d}"
  by (auto simp: holders_def)

text \<open>A constructor that copies a pointer takes no reference away.\<close>

lemma construct_ok:
  assumes "refs_ok s" "d \<notin> dom (sp_slots s)" "card (dom (sp_slots s)) + 1 < 2 ^ 32" "points p s"
  shows "sound_step {} s (shared_add d (sp_set d p s))"
proof -
  have "x \<in> sp_alive s" if "p = Some x" for x using assms(4) that by (simp add: points_def)
  then obtain s2 where s2: "shared_add d (sp_set d p s) = Inr s2" "refs_ok s2"
    "sp_slots s2 = (sp_slots s)(d \<mapsto> p)" "sp_alive s2 = sp_alive s"
    using shared_add_ok [OF fresh_ok [OF assms(1-3)], of p] by blast
  have "holders s x \<subseteq> holders s2 x" for x
    using assms(2) s2(3) by (auto simp: holders_def)
  then show ?thesis using s2 by (auto simp: sound_step_def)
qed

text \<open>Dropping the old reference and taking a new one that is not the same.\<close>

lemma reassign_ok:
  assumes ok: "refs_ok s" and d: "d \<in> dom (sp_slots s)" and p: "points p s" "sp_ptr d s \<noteq> p"
  shows "sound_step {} s (rbind (shared_drop d s) (\<lambda>s1. shared_add d (sp_set d p s1)))"
proof -
  obtain s1 where s1: "shared_drop d s = Inr s1" "refs_ok (sp_set d None s1)"
    "\<And>e. e \<noteq> d \<Longrightarrow> sp_slots s1 e = sp_slots s e" "dom (sp_slots s1) = dom (sp_slots s)"
    "sp_alive s1 = sp_alive s - {x. holders s x = {d}}"
    by (rule shared_drop_ok [OF ok d]) blast
  have "x \<in> sp_alive s1" if "p = Some x" for x
    using that p s1(5) ptr_holders [OF d, of x] by (auto simp: points_def)
  then obtain s2 where s2: "shared_add d (sp_set d p s1) = Inr s2" "refs_ok s2"
    "sp_slots s2 = (sp_slots s1)(d \<mapsto> p)" "sp_alive s2 = sp_alive s1"
    using shared_add_ok [OF s1(2), of p] by blast
  have h: "holders s2 x = (if p = Some x then insert d (holders s x) else holders s x - {d})" for x
    using s1(3) s2(3) by (auto simp: holders_def)
  have "{x. holders s x = {d}} = {x. holders s x \<noteq> {} \<and> holders s2 x = {}}"
    using ptr_holders [OF d] p(2) by (auto simp: h)
  then show ?thesis using s1(1,5) s2 by (simp add: sound_step_def)
qed

text \<open>Moving a pointer from one slot to another that holds none.\<close>

lemma move_ok:
  assumes ok: "refs_ok (sp_set d None s)" and e: "e \<in> dom (sp_slots s)" "d \<noteq> e"
  shows "refs_ok (sp_set e None (sp_set d (sp_ptr e s) s))"
    and "holders (sp_set e None (sp_set d (sp_ptr e s) s)) x =
      (if e \<in> holders s x then insert d (holders s x - {e}) else holders s x - {d})"
proof -
  let ?t = "sp_set d None s" and ?s' = "sp_set e None (sp_set d (sp_ptr e s) s)"
  have h: "holders ?s' x = (if e \<in> holders s x then insert d (holders s x - {e}) else holders s x - {d})" for x
    using ptr_holders [OF e(1), of x] e(2) by (auto simp: holders_set)
  show "holders ?s' x = (if e \<in> holders s x then insert d (holders s x - {e}) else holders s x - {d})"
    by (rule h)
  have t: "holders ?t x = holders s x - {d}" for x by (simp add: holders_set)
  have "card (holders ?s' x) = card (holders ?t x)" for x
  proof (cases "e \<in> holders s x")
    case True
    have f: "finite (holders s x - {d})" using holders_card [OF ok, of x] by (simp add: t)
    have "insert d (holders s x - {e}) = insert d ((holders s x - {d}) - {e})" by auto
    then show ?thesis using True e(2) f card_Suc_Diff1 [OF f, of e] by (simp add: h t)
  qed (simp add: h t)
  moreover have "holders ?s' x \<noteq> {} \<longleftrightarrow> holders ?t x \<noteq> {}" for x using e(2) by (auto simp: h t)
  moreover have "dom (sp_slots ?s') = dom (sp_slots ?t)" using e by auto
  ultimately show "refs_ok ?s'" using ok unfolding refs_ok_def by simp
qed

lemma new_ok:
  assumes "refs_ok s" "x \<notin> sp_alive s"
  shows "refs_ok (s\<lparr>sp_alive := insert x (sp_alive s), sp_count := (sp_count s)(x := 0)\<rparr>)"
proof -
  have "holders s x = {}" using assms by (auto simp: refs_ok_def)
  then show ?thesis using assms by (auto simp: refs_ok_def holders_def)
qed

lemma make_ok:
  assumes "refs_ok s" "d \<notin> dom (sp_slots s)" "x \<notin> sp_alive s" "card (dom (sp_slots s)) + 1 < 2 ^ 32"
  shows "sound_step {x} s (shared_make d x s)"
proof -
  let ?s0 = "s\<lparr>sp_alive := insert x (sp_alive s), sp_count := (sp_count s)(x := 0)\<rparr>"
  have "sound_step {} ?s0 (shared_add d (sp_set d (Some x) ?s0))"
    using assms by (intro construct_ok new_ok) (simp_all add: points_def)
  moreover have "holders ?s0 y = holders s y" for y by (simp add: holders_def)
  ultimately show ?thesis
    by (simp add: sound_step_def shared_make_def shared_raw_def split: sum.splits)
qed

lemma destroy_ok:
  assumes ok: "refs_ok s" and d: "d \<in> dom (sp_slots s)"
  shows "sound_step {} s (shared_destroy d s)"
proof -
  obtain s1 where s1: "shared_drop d s = Inr s1" "refs_ok (sp_set d None s1)"
    "\<And>e. e \<noteq> d \<Longrightarrow> sp_slots s1 e = sp_slots s e" "dom (sp_slots s1) = dom (sp_slots s)"
    "sp_alive s1 = sp_alive s - {x. holders s x = {d}}"
    by (rule shared_drop_ok [OF ok d]) blast
  let ?s' = "s1\<lparr>sp_slots := (sp_slots s1)(d := None)\<rparr>"
  have h: "holders ?s' x = holders s x - {d}" "holders ?s' x = holders (sp_set d None s1) x" for x
    using s1(3) by (auto simp: holders_def sp_set_def split: if_splits)
  let ?D = "dom (sp_slots (sp_set d None s1))"
  have D: "dom (sp_slots ?s') = ?D - {d}" by auto
  have "finite ?D" "card ?D < 2 ^ 32" using s1(2) unfolding refs_ok_def by blast+
  then have "finite (?D - {d})" "card (?D - {d}) < 2 ^ 32"
    using card_Diff1_le [of ?D d] by auto
  then have "refs_ok ?s'"
    using s1(2) unfolding refs_ok_def h(2) D by simp
  moreover have "{x. holders s x = {d}} = {x. holders s x \<noteq> {} \<and> holders ?s' x = {}}"
    by (auto simp: h(1))
  ultimately show ?thesis using s1(1,5) by (simp add: shared_destroy_def sound_step_def)
qed

lemma assign_move_ok:
  assumes ok: "refs_ok s" and d: "d \<in> dom (sp_slots s)" and e: "e \<in> dom (sp_slots s)"
  shows "sound_step {} s (assign_move d e s)"
proof -
  obtain s1 where s1: "shared_drop d s = Inr s1" "refs_ok (sp_set d None s1)"
    "\<And>f. f \<noteq> d \<Longrightarrow> sp_slots s1 f = sp_slots s f" "dom (sp_slots s1) = dom (sp_slots s)"
    "sp_alive s1 = sp_alive s - {x. holders s x = {d}}"
    by (rule shared_drop_ok [OF ok d]) blast
  let ?s' = "sp_set e None (sp_set d (sp_ptr e s1) s1)"
  have "refs_ok ?s' \<and> (\<forall>x. (holders ?s' x = {}) = (holders s x - {d} = {}))"
  proof (cases "d = e")
    case True
    then have "?s' = sp_set d None s1" by simp
    then show ?thesis using s1(2) holders_other [of d s1 s, OF s1(3)] by (simp add: holders_set)
  next
    case False
    have e1: "e \<in> dom (sp_slots s1)" using e s1(4) by simp
    have "holders s1 x - {d} = holders s x - {d}" for x by (rule holders_other [OF s1(3)])
    moreover have "(holders ?s' x = {}) = (holders s1 x - {d} = {})" for x
      using False by (auto simp: move_ok(2) [OF s1(2) e1 False])
    ultimately show ?thesis using move_ok(1) [OF s1(2) e1 False] by simp
  qed
  moreover from this have "{x. holders s x = {d}} = {x. holders s x \<noteq> {} \<and> holders ?s' x = {}}" by auto
  ultimately show ?thesis using s1(1,5) by (simp add: assign_move_def sound_step_def)
qed

lemma unchanged_ok: "refs_ok s \<Longrightarrow> sound_step {} s (Inr s)"
  by (auto simp: sound_step_def)

lemma points_slot: "refs_ok s \<Longrightarrow> points (sp_ptr e s) s"
  by (auto simp: points_def sp_ptr_def refs_ok_def holders_def split: option.splits)

lemma shared_op_sound:
  assumes ok: "refs_ok s" and l: "legal op s" and room: "card (dom (sp_slots s)) + 1 < 2 ^ 32"
  shows "sound_step (made op) s (shared_exec op s)"
proof (cases op)
  case (New x)
  then show ?thesis
    using new_ok [OF ok, of x] l by (auto simp: sound_step_def holders_def)
next
  case (Null d)
  then have "d \<notin> dom (sp_slots s)" using l by simp
  then have h: "holders (sp_set d None s) x = holders s x" for x
    using fresh_holders [of d s x] by (simp add: holders_set)
  show ?thesis
    using fresh_ok [OF ok _ room, of d] Null l by (auto simp: sound_step_def shared_null_def h)
next
  case (Move d e)
  then have de: "d \<notin> dom (sp_slots s)" "e \<in> dom (sp_slots s)" "d \<noteq> e" using l by auto
  note t = fresh_ok [OF ok de(1) room]
  show ?thesis
    using move_ok [OF t de(2,3)] fresh_holders [OF de(1)] Move
    by (auto simp: sound_step_def shared_move_def)
next
  case (Assign_Raw d p)
  then show ?thesis
    using reassign_ok [OF ok, of d p] unchanged_ok [OF ok] l by (simp add: assign_raw_def)
next
  case (Assign_Copy d e)
  then show ?thesis
    using reassign_ok [OF ok, of d "sp_ptr e s"] unchanged_ok [OF ok] points_slot [OF ok] l
    by (simp add: assign_copy_def Let_def)
qed (use l construct_ok [OF ok] points_slot [OF ok] room make_ok [OF ok] destroy_ok [OF ok]
  assign_move_ok [OF ok] in \<open>simp_all add: shared_raw_def shared_copy_def\<close>)

section \<open>The property\<close>

definition shared_run :: "shared_op list \<Rightarrow> refs res \<Rightarrow> refs res" where
  "shared_run ops r = fold (\<lambda>op r. rbind r (shared_exec op)) ops r"

text \<open>A run of operations each of which is legal when it is applied, with room for its variables.\<close>

fun legal_run :: "shared_op list \<Rightarrow> refs \<Rightarrow> bool" where
  "legal_run [] s = True"
| "legal_run (op # ops) s =
     (legal op s \<and> card (dom (sp_slots s)) + 1 < 2 ^ 32 \<and>
      (case shared_exec op s of Inl _ \<Rightarrow> True | Inr s' \<Rightarrow> legal_run ops s'))"

text \<open>
  C9. Reference counting is sound: through any legal run of \<open>Shared\<close> operations no deleted object is
  touched, the count of every object stays the number of variables that point to it, no variable points to a deleted
  object, and each operation deletes exactly the objects whose last reference it removes.
\<close>

theorem shared_sound:
  assumes "refs_ok s" "legal_run ops s"
  shows "\<exists>s'. shared_run ops (Inr s) = Inr s' \<and> refs_ok s' \<and>
    (\<forall>op. legal op s' \<longrightarrow> card (dom (sp_slots s')) + 1 < 2 ^ 32 \<longrightarrow>
       (\<exists>s''. shared_exec op s' = Inr s'' \<and>
         sp_alive s'' = (sp_alive s' \<union> made op) - {x. holders s' x \<noteq> {} \<and> holders s'' x = {}}))"
  using assms
proof (induction ops arbitrary: s)
  case Nil
  then show ?case
    using shared_op_sound [of s] by (fastforce simp: shared_run_def sound_step_def split: sum.splits)
next
  case (Cons op ops)
  then have "sound_step (made op) s (shared_exec op s)" by (auto intro!: shared_op_sound)
  then obtain s1 where "shared_exec op s = Inr s1" "refs_ok s1"
    by (auto simp: sound_step_def split: sum.splits)
  then show ?case using Cons.IH [of s1] Cons.prems by (simp add: shared_run_def)
qed

text \<open>
  \<open>Shared<Thing> a = make(...); Shared<Thing> b = a; a = nullptr; b = new Thing;\<close> deletes the first
  object at the last step.
\<close>

definition no_refs :: refs where
  "no_refs = \<lparr>sp_count = (\<lambda>_. 0), sp_alive = {}, sp_slots = (\<lambda>_. None)\<rparr>"

lemma shared_sound_witness:
  "\<exists>s'. shared_run [Make 1 7, Copy 2 1, Assign_Raw 1 None, New 8, Assign_Raw 2 (Some 8)] (Inr no_refs) = Inr s' \<and>
    refs_ok s' \<and> sp_alive s' = {8}"
proof -
  note defs = no_refs_def shared_make_def shared_raw_def shared_add_def sp_set_def sp_ptr_def
    shared_copy_def assign_raw_def shared_drop_def add_fetch_def points_def
  have "refs_ok no_refs" by (simp add: refs_ok_def no_refs_def holders_def)
  moreover have "legal_run [Make 1 7, Copy 2 1, Assign_Raw 1 None, New 8, Assign_Raw 2 (Some 8)] no_refs"
    by (simp add: defs)
  ultimately obtain s' where s': "shared_run [Make 1 7, Copy 2 1, Assign_Raw 1 None, New 8, Assign_Raw 2 (Some 8)]
      (Inr no_refs) = Inr s'" "refs_ok s'"
    using shared_sound by blast
  moreover have "sp_alive s' = {8}"
    using s'(1) by (auto simp: shared_run_def defs)
  ultimately show ?thesis by blast
qed

end
