(* ===== verification/Gates.thy ===== *)
theory Gates
  imports Locks
begin

text \<open>
  Synchronisation by a semaphore that is raised once and then handed from thread to thread: the one-shot
  \<open>Barrier\<close> of \<open>kernel/barrier.h\<close> and the \<open>Future\<close> of \<open>kernel/future.h\<close>. Every thread that passes does \<open>down\<close> and
  then \<open>up\<close>. The argument they share is \<open>locale gate\<close>. A semaphore is its count here: \<open>down\<close> is a step that can be
  taken when the count is not zero; that the waiting threads are woken in turn is shown in \<open>Threads\<close>.
\<close>

section \<open>The interface\<close>

text \<open>
  A gate that is closed has no token; once open it has one, on the semaphore or in the hands of the thread
  between its \<open>down\<close> and its \<open>up\<close>.
\<close>

definition gate_ok :: "u64 \<Rightarrow> (nat \<Rightarrow> bool) \<Rightarrow> bool \<Rightarrow> bool" where
  "gate_ok sem holding opened \<longleftrightarrow>
     (if opened then (sem = 1 \<and> (\<forall>t. \<not> holding t)) \<or> (sem = 0 \<and> (\<exists>t. \<forall>u. holding u \<longleftrightarrow> u = t))
      else sem = 0 \<and> (\<forall>t. \<not> holding t))"

locale gate =
  fixes inv :: "'s \<Rightarrow> bool"
    and step :: "nat \<Rightarrow> 's \<Rightarrow> 's \<Rightarrow> bool"
    and sem :: "'s \<Rightarrow> u64"
    and holding :: "'s \<Rightarrow> nat \<Rightarrow> bool"
    and opened :: "'s \<Rightarrow> bool"
  assumes others: "inv s \<Longrightarrow> step t s s' \<Longrightarrow> u \<noteq> t \<Longrightarrow> holding s' u = holding s u"
    and down: "inv s \<Longrightarrow> step t s s' \<Longrightarrow> \<not> holding s t \<Longrightarrow> holding s' t \<Longrightarrow>
      sem s \<noteq> 0 \<and> sem s' = sem s - 1 \<and> (opened s \<longrightarrow> opened s')"
    and up: "inv s \<Longrightarrow> step t s s' \<Longrightarrow> holding s t \<Longrightarrow> \<not> holding s' t \<Longrightarrow>
      sem s' = sem s + 1 \<and> (opened s \<longrightarrow> opened s')"
    and other: "inv s \<Longrightarrow> step t s s' \<Longrightarrow> holding s' t = holding s t \<Longrightarrow>
      sem s' = sem s \<and> opened s' = opened s \<or> \<not> opened s \<and> opened s' \<and> sem s' = sem s + 1"
begin

lemma gate_step:
  assumes "inv s" "step t s s'" "gate_ok (sem s) (holding s) (opened s)"
  shows "gate_ok (sem s') (holding s') (opened s')"
proof -
  note o = others [OF assms(1,2)]
  consider (same) "holding s' t = holding s t" | (passed) "\<not> holding s t" "holding s' t"
    | (left) "holding s t" "\<not> holding s' t" by blast
  then show ?thesis
  proof cases
    case same
    then have "holding s' = holding s" using o by (intro ext) metis
    then show ?thesis using other [OF assms(1,2) same] assms(3) by (auto simp: gate_ok_def)
  next
    case passed
    then have "sem s \<noteq> 0" "sem s' = sem s - 1" "opened s \<longrightarrow> opened s'" using down [OF assms(1,2)] by auto
    moreover from this have "opened s" "sem s = 1" "\<forall>u. \<not> holding s u"
      using assms(3) by (auto simp: gate_ok_def split: if_splits)
    ultimately show ?thesis using o passed by (auto simp: gate_ok_def intro!: exI [of _ t])
  next
    case left
    then have "sem s' = sem s + 1" "opened s \<longrightarrow> opened s'" using up [OF assms(1,2)] by auto
    moreover from left have "opened s" "sem s = 0" "\<forall>u. holding s u \<longleftrightarrow> u = t"
      using assms(3) by (auto simp: gate_ok_def split: if_splits)
    moreover from this have "\<not> holding s' u" for u using o [of u] left by (cases "u = t") auto
    ultimately show ?thesis by (auto simp: gate_ok_def)
  qed
qed

end

section \<open>Barrier\<close>

text \<open>
  A thread has not called \<open>sync\<close> (\<open>B_Out\<close>), has counted down to 0 (\<open>B_Last\<close>) or not (\<open>B_Wait\<close>), has its token
  (\<open>B_Pass\<close>), or has returned (\<open>B_Done\<close>).
\<close>

datatype sync_pc = B_Out | B_Last | B_Wait | B_Pass | B_Done

record barrier =
  b_count :: u32
  b_sem :: u64
  b_pc :: "nat \<Rightarrow> sync_pc"

definition barrier_init :: "u32 \<Rightarrow> barrier" where
  "barrier_init count = \<lparr>b_count = count, b_sem = 0, b_pc = (\<lambda>_. B_Out)\<rparr>"

definition barrier_sync :: "nat \<Rightarrow> barrier \<Rightarrow> barrier res" where
  "barrier_sync t s =
     (case b_pc s t of
        B_Out \<Rightarrow>
          let (x, c) = add_fetch (- 1) (b_count s) in
          if sint x < 0 then Inl (Panic ''count went negative in barrier'')
          else Inr (s\<lparr>b_count := c, b_pc := (b_pc s)(t := if x = 0 then B_Last else B_Wait)\<rparr>)
      | B_Last \<Rightarrow> Inr (s\<lparr>b_sem := b_sem s + 1, b_pc := (b_pc s)(t := B_Done)\<rparr>)
      | B_Wait \<Rightarrow>
          if b_sem s > 0 then Inr (s\<lparr>b_sem := b_sem s - 1, b_pc := (b_pc s)(t := B_Pass)\<rparr>) else Inr s
      | B_Pass \<Rightarrow> Inr (s\<lparr>b_sem := b_sem s + 1, b_pc := (b_pc s)(t := B_Done)\<rparr>)
      | B_Done \<Rightarrow> Inr s)"

section \<open>Future\<close>

text \<open>
  One thread calls \<open>set\<close> and any number of others call \<open>get\<close>. Before each operation of \<open>set\<close>: the assertion, the store of
  the value, the store of \<open>isReady\<close>, \<open>up\<close>; of \<open>get\<close>: the test, \<open>down\<close>, \<open>up\<close>, the load of the value.
\<close>

datatype 'v future_pc =
    F_Assert 'v | F_Store 'v | F_Ready 'v | F_Up 'v | F_SetDone 'v
  | F_Test | F_Down | F_Pass | F_Load | F_Got 'v

record 'v future =
  f_sem :: u64
  f_ready :: bool
  f_val :: 'v
  f_pc :: "nat \<Rightarrow> 'v future_pc"

definition future_goto :: "nat \<Rightarrow> 'v future_pc \<Rightarrow> 'v future \<Rightarrow> 'v future" where
  "future_goto t pc s = s\<lparr>f_pc := (f_pc s)(t := pc)\<rparr>"

definition future_set :: "nat \<Rightarrow> 'v future \<Rightarrow> 'v future res" where
  "future_set t s =
     (case f_pc s t of
        F_Assert v \<Rightarrow> rbind (ASSERT (\<not> f_ready s)) (\<lambda>_. Inr (future_goto t (F_Store v) s))
      | F_Store v \<Rightarrow> Inr (future_goto t (F_Ready v) (s\<lparr>f_val := v\<rparr>))
      | F_Ready v \<Rightarrow> Inr (future_goto t (F_Up v) (s\<lparr>f_ready := True\<rparr>))
      | F_Up v \<Rightarrow> Inr (future_goto t (F_SetDone v) (s\<lparr>f_sem := f_sem s + 1\<rparr>))
      | _ \<Rightarrow> Inr s)"

definition future_get :: "nat \<Rightarrow> 'v future \<Rightarrow> 'v future res" where
  "future_get t s =
     (case f_pc s t of
        F_Test \<Rightarrow> Inr (future_goto t (if \<not> f_ready s then F_Down else F_Load) s)
      | F_Down \<Rightarrow>
          if f_sem s > 0 then Inr (future_goto t F_Pass (s\<lparr>f_sem := f_sem s - 1\<rparr>)) else Inr s
      | F_Pass \<Rightarrow> Inr (future_goto t F_Load (s\<lparr>f_sem := f_sem s + 1\<rparr>))
      | F_Load \<Rightarrow> Inr (future_goto t (F_Got (f_val s)) s)
      | _ \<Rightarrow> Inr s)"

definition future_run :: "nat \<Rightarrow> 'v future \<Rightarrow> 'v future res" where
  "future_run t s = rbind (future_set t s) (future_get t)"

text \<open>The constructor leaves the value undefined: it is \<open>u\<close>.\<close>

definition future_init :: "nat \<Rightarrow> 'v \<Rightarrow> 'v \<Rightarrow> 'v future" where
  "future_init setter v u =
     \<lparr>f_sem = 0, f_ready = False, f_val = u, f_pc = (\<lambda>t. if t = setter then F_Assert v else F_Test)\<rparr>"

section \<open>The barrier as a gate\<close>

definition b_opened :: "barrier \<Rightarrow> bool" where
  "b_opened s \<longleftrightarrow> (\<exists>t. b_pc s t = B_Pass \<or> b_pc s t = B_Done)"

definition arrived :: "barrier \<Rightarrow> nat set" where
  "arrived s = {t. b_pc s t \<noteq> B_Out}"

text \<open>
  While the count is above zero the gate is shut; at zero one thread is the last, or the gate is open.
\<close>

definition barrier_ok :: "u32 \<Rightarrow> barrier \<Rightarrow> bool" where
  "barrier_ok n s \<longleftrightarrow>
     finite (arrived s) \<and> card (arrived s) + unat (b_count s) = unat n \<and>
     gate_ok (b_sem s) (\<lambda>t. b_pc s t = B_Pass) (b_opened s) \<and>
     (\<forall>t u. b_pc s t = B_Last \<longrightarrow> b_pc s u = B_Last \<longrightarrow> t = u) \<and>
     (b_count s = 0 \<longleftrightarrow> (\<exists>t. b_pc s t = B_Last) \<or> b_opened s) \<and>
     (b_opened s \<longrightarrow> (\<forall>t. b_pc s t \<noteq> B_Last))"

inductive barrier_runs :: "u32 \<Rightarrow> barrier \<Rightarrow> bool" for n where
  start: "barrier_runs n (barrier_init n)"
| step: "barrier_runs n s \<Longrightarrow> barrier_sync t s = Inr s' \<Longrightarrow> barrier_runs n s'"

lemma barrier_syncE:
  assumes "barrier_sync t s = Inr s'"
  obtains (arrive) c where "b_pc s t = B_Out" "c = b_count s - 1" "0 \<le> sint c"
      "s' = s\<lparr>b_count := c, b_pc := (b_pc s)(t := if c = 0 then B_Last else B_Wait)\<rparr>"
  | (last) "b_pc s t = B_Last" "s' = s\<lparr>b_sem := b_sem s + 1, b_pc := (b_pc s)(t := B_Done)\<rparr>"
  | (pass) "b_pc s t = B_Wait" "b_sem s \<noteq> 0" "s' = s\<lparr>b_sem := b_sem s - 1, b_pc := (b_pc s)(t := B_Pass)\<rparr>"
  | (leave) "b_pc s t = B_Pass" "s' = s\<lparr>b_sem := b_sem s + 1, b_pc := (b_pc s)(t := B_Done)\<rparr>"
  | (stay) "s' = s"
  using assms
  by (auto simp: barrier_sync_def add_fetch_def Let_def word_gt_0 split: sync_pc.splits if_splits)

lemma b_opened_move:
  assumes "b_pc s t \<noteq> B_Pass" "b_pc s t \<noteq> B_Done" "b_pc s' = (b_pc s)(t := p)"
  shows "b_opened s' \<longleftrightarrow> p = B_Pass \<or> p = B_Done \<or> b_opened s"
proof -
  have "(\<exists>u. u \<noteq> t \<and> (b_pc s u = B_Pass \<or> b_pc s u = B_Done)) \<longleftrightarrow> b_opened s"
    using assms(1,2) unfolding b_opened_def by metis
  then show ?thesis unfolding assms(3) b_opened_def by (auto simp: b_opened_def)
qed

interpretation barrier_gate: gate "\<lambda>s. b_opened s \<longrightarrow> (\<forall>t. b_pc s t \<noteq> B_Last)"
  "\<lambda>t s s'. barrier_sync t s = Inr s'" b_sem "\<lambda>s t. b_pc s t = B_Pass" b_opened
proof (unfold_locales, goal_cases)
  case (1 s t s' u)
  then show ?case by (elim barrier_syncE) auto
next
  case (2 s t s')
  from 2(2) show ?case by (cases rule: barrier_syncE) (use 2 in \<open>auto simp: b_opened_def split: if_splits\<close>)
next
  case (3 s t s')
  from 3(2) show ?case by (cases rule: barrier_syncE) (use 3 in \<open>auto simp: b_opened_def split: if_splits\<close>)
next
  case (4 s t s')
  from 4(2) show ?case
  proof (cases rule: barrier_syncE)
    case (arrive c)
    then have "b_opened s' = b_opened s" by (subst b_opened_move [of s t]) (auto split: if_splits)
    then show ?thesis using arrive by simp
  next
    case last
    then have "b_opened s'" by (subst b_opened_move [of s t]) auto
    then show ?thesis using last 4(1) by auto
  qed (use 4 in \<open>auto simp: b_opened_def\<close>)
qed

lemma barrier_arrive_ok:
  assumes ok: "barrier_ok n s" and n: "0 < sint n" and t: "b_pc s t = B_Out"
    and c: "c = b_count s - 1" "0 \<le> sint c"
    and s': "s' = s\<lparr>b_count := c, b_pc := (b_pc s)(t := if c = 0 then B_Last else B_Wait)\<rparr>"
  shows "barrier_ok n s'"
proof -
  have fin: "finite (arrived s)" and k: "card (arrived s) + unat (b_count s) = unat n"
    and z: "b_count s = 0 \<longleftrightarrow> (\<exists>t. b_pc s t = B_Last) \<or> b_opened s"
    using ok by (auto simp: barrier_ok_def)
  have nz: "b_count s \<noteq> 0" using c by auto
  then have "unat c = unat (b_count s) - 1" "0 < unat (b_count s)"
    using c(1) unat_minus_one by (auto simp: unat_gt_0)
  moreover have "arrived s' = insert t (arrived s)" "t \<notin> arrived s"
    using s' t by (auto simp: arrived_def)
  ultimately have "finite (arrived s')" "card (arrived s') + unat (b_count s') = unat n"
    using fin k s' by auto
  moreover have "b_opened s' = b_opened s" using s' t by (subst b_opened_move [of s t]) (auto split: if_splits)
  moreover have "(\<lambda>u. b_pc s' u = B_Pass) = (\<lambda>u. b_pc s u = B_Pass)" using s' t by auto
  ultimately show ?thesis
    using ok nz z s' by (auto simp: barrier_ok_def)
qed

lemma barrier_ok_step:
  assumes ok: "barrier_ok n s" and n: "0 < sint n" and st: "barrier_sync t s = Inr s'"
  shows "barrier_ok n s'"
proof -
  have g: "gate_ok (b_sem s') (\<lambda>t. b_pc s' t = B_Pass) (b_opened s')"
    using barrier_gate.gate_step [OF _ st] ok by (simp add: barrier_ok_def)
  from st show ?thesis
  proof (cases rule: barrier_syncE)
    case (arrive c)
    then show ?thesis using barrier_arrive_ok [OF ok n] by blast
  next
    case last
    then have "arrived s' = arrived s" "b_opened s'" "b_count s' = b_count s"
      "b_pc s' u = (if u = t then B_Done else b_pc s u)" for u
      by (auto simp: arrived_def b_opened_def)
    then show ?thesis using ok g last(1) by (auto simp: barrier_ok_def)
  next
    case pass
    have "b_opened s" using pass(2) ok by (auto simp: barrier_ok_def gate_ok_def split: if_splits)
    moreover have "arrived s' = arrived s" "b_opened s'" "b_count s' = b_count s"
      "b_pc s' u = (if u = t then B_Pass else b_pc s u)" for u
      using pass by (auto simp: arrived_def b_opened_def)
    ultimately show ?thesis using ok g by (auto simp: barrier_ok_def)
  next
    case leave
    then have "b_opened s" by (auto simp: b_opened_def)
    moreover have "arrived s' = arrived s" "b_opened s'" "b_count s' = b_count s"
      "b_pc s' u = (if u = t then B_Done else b_pc s u)" for u
      using leave by (auto simp: arrived_def b_opened_def)
    ultimately show ?thesis using ok g by (auto simp: barrier_ok_def)
  qed (use ok in simp)
qed

lemma barrier_init_ok: "0 < sint n \<Longrightarrow> barrier_ok n (barrier_init n)"
  by (auto simp: barrier_ok_def barrier_init_def arrived_def b_opened_def gate_ok_def)

lemma barrier_runs_ok: "barrier_runs n s \<Longrightarrow> 0 < sint n \<Longrightarrow> barrier_ok n s"
  by (induction rule: barrier_runs.induct) (auto intro: barrier_init_ok barrier_ok_step)

text \<open>The operations the threads that have arrived still have to do.\<close>

fun steps_left :: "sync_pc \<Rightarrow> nat" where
  "steps_left B_Out = 0"
| "steps_left B_Last = 1"
| "steps_left B_Wait = 2"
| "steps_left B_Pass = 1"
| "steps_left B_Done = 0"

definition pending :: "barrier \<Rightarrow> nat" where
  "pending s = (\<Sum>t \<in> arrived s. steps_left (b_pc s t))"

lemma pending_less:
  assumes "finite (arrived s)" "t \<in> arrived s" "b_pc s' = (b_pc s)(t := p)" "p \<noteq> B_Out"
    "steps_left p < steps_left (b_pc s t)"
  shows "pending s' < pending s" "arrived s' = arrived s"
proof -
  show a: "arrived s' = arrived s" using assms(2-4) by (auto simp: arrived_def)
  show "pending s' < pending s"
    unfolding pending_def a by (rule sum_strict_mono_ex1) (use assms in auto)
qed

lemma barrier_progress:
  assumes ok: "barrier_ok n s" and z: "b_count s = 0" and t: "t \<in> arrived s" "b_pc s t \<noteq> B_Done"
  shows "\<exists>u s'. barrier_sync u s = Inr s' \<and> pending s' < pending s \<and> arrived s' = arrived s \<and> b_count s' = 0"
proof -
  have fin: "finite (arrived s)" using ok by (simp add: barrier_ok_def)
  have run: ?thesis if "b_pc s u = q" "q \<in> {B_Last, B_Pass} \<or> q = B_Wait \<and> b_sem s \<noteq> 0" for u q
  proof -
    have u: "u \<in> arrived s" using that by (auto simp: arrived_def)
    let ?p = "if q = B_Wait then B_Pass else B_Done"
    let ?s' = "s\<lparr>b_sem := (if q = B_Wait then b_sem s - 1 else b_sem s + 1), b_pc := (b_pc s)(u := ?p)\<rparr>"
    have "barrier_sync u s = Inr ?s'" using that by (auto simp: barrier_sync_def word_gt_0)
    moreover have "pending ?s' < pending s" "arrived ?s' = arrived s"
      by (rule pending_less [OF fin u, of _ ?p]; use that in auto)+
    ultimately show ?thesis using z by fastforce
  qed
  show ?thesis
  proof (cases "\<exists>u. b_pc s u \<in> {B_Last, B_Pass}")
    case True
    then show ?thesis using run by blast
  next
    case False
    then have "b_opened s" "\<forall>u. b_pc s u \<noteq> B_Pass" using ok z by (auto simp: barrier_ok_def)
    then have "b_sem s \<noteq> 0" using ok by (auto simp: barrier_ok_def gate_ok_def)
    moreover have "b_pc s t = B_Wait" using t False by (cases "b_pc s t") (auto simp: arrived_def)
    ultimately show ?thesis using run by blast
  qed
qed

definition barrier_run :: "nat list \<Rightarrow> barrier \<Rightarrow> barrier res" where
  "barrier_run ts s = fold (\<lambda>t r. rbind r (barrier_sync t)) ts (Inr s)"

lemma barrier_finishes:
  "barrier_ok n s \<Longrightarrow> 0 < sint n \<Longrightarrow> b_count s = 0 \<Longrightarrow>
   \<exists>ts s'. barrier_run ts s = Inr s' \<and> arrived s' = arrived s \<and> (\<forall>t \<in> arrived s. b_pc s' t = B_Done)"
proof (induction "pending s" arbitrary: s rule: less_induct)
  case less
  show ?case
  proof (cases "\<forall>t \<in> arrived s. b_pc s t = B_Done")
    case True
    then show ?thesis by (intro exI [of _ "[]"]) (simp add: barrier_run_def)
  next
    case False
    then obtain u s1 where s1: "barrier_sync u s = Inr s1" "pending s1 < pending s" "arrived s1 = arrived s"
      "b_count s1 = 0"
      using barrier_progress [OF less.prems(1,3)] by blast
    obtain ts s' where "barrier_run ts s1 = Inr s'" "arrived s' = arrived s1" "\<forall>t \<in> arrived s1. b_pc s' t = B_Done"
      using less.hyps [OF s1(2) barrier_ok_step [OF less.prems(1,2) s1(1)] less.prems(2) s1(4)] by blast
    then show ?thesis
      using s1 by (intro exI [of _ "u # ts"]) (simp add: barrier_run_def)
  qed
qed

text \<open>
  A barrier of \<open>n\<close> threads: nobody returns from \<open>sync\<close>, or gets past its \<open>down\<close>, before \<open>n\<close> threads have
  called it; when they have, they can all return; and one call more panics.
\<close>

theorem barrier_releases:
  assumes "barrier_runs n s" "0 < sint n"
  shows "((\<exists>t. b_pc s t = B_Pass \<or> b_pc s t = B_Done) \<longrightarrow> card (arrived s) = unat n) \<and>
    (card (arrived s) = unat n \<longrightarrow>
       (\<exists>ts s'. barrier_run ts s = Inr s' \<and> (\<forall>t \<in> arrived s. b_pc s' t = B_Done)) \<and>
       (\<forall>t. b_pc s t = B_Out \<longrightarrow> barrier_sync t s = Inl (Panic ''count went negative in barrier'')))"
proof -
  have ok: "barrier_ok n s" by (rule barrier_runs_ok [OF assms])
  then have k: "card (arrived s) + unat (b_count s) = unat n" by (simp add: barrier_ok_def)
  have "card (arrived s) = unat n" if "\<exists>t. b_pc s t = B_Pass \<or> b_pc s t = B_Done"
    using that ok k by (auto simp: barrier_ok_def b_opened_def)
  moreover have z: "b_count s = 0" if "card (arrived s) = unat n"
    using that k by (simp add: unat_eq_zero)
  moreover have "sint (- 1 :: u32) < 0" by simp
  moreover have "\<exists>ts s'. barrier_run ts s = Inr s' \<and> (\<forall>t \<in> arrived s. b_pc s' t = B_Done)"
    if "card (arrived s) = unat n"
    using barrier_finishes [OF ok assms(2) z [OF that]] by blast
  ultimately show ?thesis by (simp add: barrier_sync_def add_fetch_def Let_def)
qed

lemma barrier_releases_witness:
  "barrier_runs 1 (barrier_init 1\<lparr>b_count := 0, b_pc := (\<lambda>_. B_Out)(4 := B_Last)\<rparr>) \<and>
    (\<exists>ts s'. barrier_run ts (barrier_init 1\<lparr>b_count := 0, b_pc := (\<lambda>_. B_Out)(4 := B_Last)\<rparr>) = Inr s' \<and> b_pc s' 4 = B_Done)"
proof -
  let ?s = "barrier_init 1\<lparr>b_count := 0, b_pc := (\<lambda>_. B_Out)(4 := B_Last)\<rparr>"
  have "barrier_sync 4 (barrier_init 1) = Inr ?s"
    by (simp add: barrier_sync_def barrier_init_def add_fetch_def Let_def)
  then have r: "barrier_runs 1 ?s" by (rule barrier_runs.step [OF barrier_runs.start])
  moreover have "arrived ?s = {4}" by (auto simp: arrived_def)
  ultimately show ?thesis using barrier_releases [OF r] by auto
qed

section \<open>The future as a gate\<close>

definition future_ok :: "nat \<Rightarrow> 'v \<Rightarrow> 'v future \<Rightarrow> bool" where
  "future_ok setter v s \<longleftrightarrow>
     f_pc s setter \<in> {F_Assert v, F_Store v, F_Ready v, F_Up v, F_SetDone v} \<and>
     (\<forall>t. t \<noteq> setter \<longrightarrow> f_pc s t \<in> {F_Test, F_Down, F_Pass, F_Load, F_Got v}) \<and>
     gate_ok (f_sem s) (\<lambda>t. f_pc s t = F_Pass) (f_pc s setter = F_SetDone v) \<and>
     (f_ready s \<longleftrightarrow> f_pc s setter \<in> {F_Up v, F_SetDone v}) \<and>
     (f_pc s setter \<in> {F_Ready v, F_Up v, F_SetDone v} \<longrightarrow> f_val s = v) \<and>
     (\<forall>t. f_pc s t \<in> {F_Pass, F_Load, F_Got v} \<longrightarrow> f_ready s)"

lemmas future_ops = future_run_def future_set_def future_get_def future_goto_def

text \<open>One operation of the thread that sets, and of one that gets.\<close>

lemma future_set_step:
  assumes "future_ok setter v s"
  shows "\<exists>p x r n. p \<in> {F_Store v, F_Ready v, F_Up v, F_SetDone v} \<and>
    future_run setter s = Inr (s\<lparr>f_sem := n, f_ready := r, f_val := x, f_pc := (f_pc s)(setter := p)\<rparr>) \<and>
    (r \<longleftrightarrow> p \<in> {F_Up v, F_SetDone v}) \<and> (p \<in> {F_Ready v, F_Up v, F_SetDone v} \<longrightarrow> x = v) \<and>
    (f_ready s \<longrightarrow> r) \<and> n = (if p = F_SetDone v \<and> f_pc s setter \<noteq> F_SetDone v then f_sem s + 1 else f_sem s) \<and>
    (f_pc s setter = F_SetDone v \<longrightarrow> p = F_SetDone v)"
proof -
  consider "f_pc s setter = F_Assert v" "\<not> f_ready s" | "f_pc s setter = F_Store v" "\<not> f_ready s"
    | "f_pc s setter = F_Ready v" "\<not> f_ready s" "f_val s = v"
    | "f_pc s setter = F_Up v" "f_ready s" "f_val s = v" | "f_pc s setter = F_SetDone v" "f_ready s" "f_val s = v"
    using assms by (auto simp: future_ok_def)
  then show ?thesis
  proof cases
    case 1
    then show ?thesis
      by (intro exI [of _ "F_Store v"] exI [of _ "f_val s"] exI [of _ False] exI [of _ "f_sem s"])
        (simp add: future_ops)
  next
    case 2
    then show ?thesis
      by (intro exI [of _ "F_Ready v"] exI [of _ v] exI [of _ False] exI [of _ "f_sem s"])
        (simp add: future_ops)
  next
    case 3
    then show ?thesis
      by (intro exI [of _ "F_Up v"] exI [of _ v] exI [of _ True] exI [of _ "f_sem s"])
        (simp add: future_ops)
  next
    case 4
    then show ?thesis
      by (intro exI [of _ "F_SetDone v"] exI [of _ v] exI [of _ True] exI [of _ "f_sem s + 1"])
        (simp add: future_ops)
  next
    case 5
    then show ?thesis
      by (intro exI [of _ "F_SetDone v"] exI [of _ v] exI [of _ True] exI [of _ "f_sem s"])
        (simp add: future_ops fun_upd_idem)
  qed
qed

lemma future_get_step:
  assumes "future_ok setter v s" "t \<noteq> setter"
  shows "\<exists>p n. p \<in> {F_Test, F_Down, F_Pass, F_Load, F_Got v} \<and>
    future_run t s = Inr (s\<lparr>f_sem := n, f_pc := (f_pc s)(t := p)\<rparr>) \<and>
    (p \<in> {F_Pass, F_Load, F_Got v} \<longrightarrow> f_ready s) \<and>
    (f_pc s t \<noteq> F_Pass \<and> p = F_Pass \<longrightarrow> f_sem s \<noteq> 0 \<and> n = f_sem s - 1) \<and>
    (f_pc s t = F_Pass \<longrightarrow> p \<noteq> F_Pass \<and> n = f_sem s + 1) \<and>
    (f_pc s t \<noteq> F_Pass \<and> p \<noteq> F_Pass \<longrightarrow> n = f_sem s)"
proof -
  have r: "f_sem s \<noteq> 0 \<Longrightarrow> f_ready s" "f_ready s \<Longrightarrow> f_val s = v"
    using assms(1) by (auto simp: future_ok_def gate_ok_def split: if_splits)
  have g: "f_pc s t \<in> {F_Pass, F_Load, F_Got v} \<Longrightarrow> f_ready s" using assms(1) by (auto simp: future_ok_def)
  have "f_pc s t \<in> {F_Test, F_Down, F_Pass, F_Load, F_Got v}" using assms by (auto simp: future_ok_def)
  then consider "f_pc s t = F_Test" | "f_pc s t = F_Down" | "f_pc s t = F_Pass" | "f_pc s t = F_Load" | "f_pc s t = F_Got v"
    by auto
  then show ?thesis
  proof cases
    case 1
    then show ?thesis
      by (intro exI [of _ "if \<not> f_ready s then F_Down else F_Load"] exI [of _ "f_sem s"]) (simp add: future_ops)
  next
    case 2
    then show ?thesis
      using r(1) by (intro exI [of _ "if f_sem s > 0 then F_Pass else F_Down"]
        exI [of _ "if f_sem s > 0 then f_sem s - 1 else f_sem s"]) (simp add: future_ops word_gt_0 fun_upd_idem)
  next
    case 3
    then show ?thesis using g
      by (intro exI [of _ F_Load] exI [of _ "f_sem s + 1"]) (simp add: future_ops)
  next
    case 4
    then show ?thesis using g r(2)
      by (intro exI [of _ "F_Got v"] exI [of _ "f_sem s"]) (simp add: future_ops)
  next
    case 5
    then show ?thesis using g
      by (intro exI [of _ "F_Got v"] exI [of _ "f_sem s"]) (simp add: future_ops fun_upd_idem)
  qed
qed

lemma future_run_other: "future_run t s = Inr s' \<Longrightarrow> u \<noteq> t \<Longrightarrow> f_pc s' u = f_pc s u"
  by (auto simp: future_ops rbind_Inr_conv split: future_pc.splits if_splits)

interpretation future_gate: gate "future_ok setter v" "\<lambda>t s s'. future_run t s = Inr s'"
  f_sem "\<lambda>s t. f_pc s t = F_Pass" "\<lambda>s. f_pc s setter = F_SetDone v" for setter v
proof (unfold_locales, goal_cases)
  case (1 s t s' u)
  then show ?case using future_run_other by metis
next
  case (2 s t s')
  then have t: "t \<noteq> setter" using future_set_step [OF 2(1)] by auto
  then show ?case using future_get_step [OF 2(1) t] 2 by auto
next
  case (3 s t s')
  then have t: "t \<noteq> setter" by (auto simp: future_ok_def)
  then show ?case using future_get_step [OF 3(1) t] 3 by auto
next
  case (4 s t s')
  show ?case
  proof (cases "t = setter")
    case True
    obtain p x r n where
      "future_run setter s = Inr (s\<lparr>f_sem := n, f_ready := r, f_val := x, f_pc := (f_pc s)(setter := p)\<rparr>)"
      "n = (if p = F_SetDone v \<and> f_pc s setter \<noteq> F_SetDone v then f_sem s + 1 else f_sem s)"
      "f_pc s setter = F_SetDone v \<longrightarrow> p = F_SetDone v"
      using future_set_step [OF 4(1)] by blast
    then show ?thesis using 4(2) True by (cases "p = F_SetDone v"; cases "f_pc s setter = F_SetDone v") auto
  next
    case False
    obtain p n where "future_run t s = Inr (s\<lparr>f_sem := n, f_pc := (f_pc s)(t := p)\<rparr>)"
      "f_pc s t = F_Pass \<longrightarrow> p \<noteq> F_Pass" "f_pc s t \<noteq> F_Pass \<and> p \<noteq> F_Pass \<longrightarrow> n = f_sem s"
      using future_get_step [OF 4(1) False] by blast
    then show ?thesis using 4(2,3) False by auto
  qed
qed

lemma future_ok_step:
  assumes ok: "future_ok setter v s"
  shows "\<exists>s'. future_run t s = Inr s' \<and> future_ok setter v s'"
proof (cases "t = setter")
  case True
  obtain p x r n where s': "p \<in> {F_Store v, F_Ready v, F_Up v, F_SetDone v}"
    "future_run setter s = Inr (s\<lparr>f_sem := n, f_ready := r, f_val := x, f_pc := (f_pc s)(setter := p)\<rparr>)"
    "r \<longleftrightarrow> p \<in> {F_Up v, F_SetDone v}" "p \<in> {F_Ready v, F_Up v, F_SetDone v} \<longrightarrow> x = v" "f_ready s \<longrightarrow> r"
    using future_set_step [OF ok] by blast
  have g: "gate_ok n (\<lambda>t. ((f_pc s)(setter := p)) t = F_Pass) (((f_pc s)(setter := p)) setter = F_SetDone v)"
    using future_gate.gate_step [OF ok s'(2)] ok unfolding future_ok_def by simp
  show ?thesis
    using True s' g ok unfolding future_ok_def by (intro exI conjI, simp) (simp_all, blast+)
next
  case False
  obtain p n where s': "p \<in> {F_Test, F_Down, F_Pass, F_Load, F_Got v}"
    "future_run t s = Inr (s\<lparr>f_sem := n, f_pc := (f_pc s)(t := p)\<rparr>)"
    "p \<in> {F_Pass, F_Load, F_Got v} \<longrightarrow> f_ready s"
    using future_get_step [OF ok False] by blast
  have g: "gate_ok n (\<lambda>u. ((f_pc s)(t := p)) u = F_Pass) (((f_pc s)(t := p)) setter = F_SetDone v)"
    using future_gate.gate_step [OF ok s'(2)] ok unfolding future_ok_def by simp
  have "future_ok setter v (s\<lparr>f_sem := n, f_pc := (f_pc s)(t := p)\<rparr>)"
    using False s' g ok unfolding future_ok_def by auto
  then show ?thesis using s'(2) by blast
qed

definition future_runs :: "nat list \<Rightarrow> 'v future \<Rightarrow> 'v future res" where
  "future_runs ts s = fold (\<lambda>t r. rbind r (future_run t)) ts (Inr s)"

lemma future_runs_simps [simp]:
  "future_runs [] s = Inr s" "future_runs (t # ts) s = rbind (future_run t s) (future_runs ts)"
proof -
  have e: "fold (\<lambda>t r. rbind r (future_run t)) ts (Inl e) = Inl e" for e and ts :: "nat list"
    by (induction ts) auto
  show "future_runs [] s = Inr s" by (simp add: future_runs_def)
  show "future_runs (t # ts) s = rbind (future_run t s) (future_runs ts)"
    by (cases "future_run t s") (simp_all add: future_runs_def e)
qed

lemma future_runs_append: "future_runs (xs @ ys) s = rbind (future_runs xs s) (future_runs ys)"
proof (induction xs arbitrary: s)
  case (Cons x xs)
  then show ?case by (cases "future_run x s") simp_all
qed simp

lemma future_init_ok: "future_ok setter v (future_init setter v u)"
  by (auto simp: future_ok_def future_init_def gate_ok_def)

lemma future_runs_ok: "future_ok setter v s \<Longrightarrow> \<exists>s'. future_runs ts s = Inr s' \<and> future_ok setter v s'"
proof (induction ts arbitrary: s)
  case (Cons t ts)
  obtain s1 where "future_run t s = Inr s1" "future_ok setter v s1"
    using future_ok_step [OF Cons.prems, of t] by blast
  then show ?case using Cons.IH [of s1] by simp
qed simp

lemma future_get_at:
  "f_pc s t = F_Test \<Longrightarrow> future_run t s = Inr (s\<lparr>f_pc := (f_pc s)(t := if \<not> f_ready s then F_Down else F_Load)\<rparr>)"
  "f_pc s t = F_Down \<Longrightarrow> future_run t s =
     (if f_sem s > 0 then Inr (s\<lparr>f_sem := f_sem s - 1, f_pc := (f_pc s)(t := F_Pass)\<rparr>) else Inr s)"
  "f_pc s t = F_Pass \<Longrightarrow> future_run t s = Inr (s\<lparr>f_sem := f_sem s + 1, f_pc := (f_pc s)(t := F_Load)\<rparr>)"
  "f_pc s t = F_Load \<Longrightarrow> future_run t s = Inr (s\<lparr>f_pc := (f_pc s)(t := F_Got (f_val s))\<rparr>)"
  "f_pc s t = F_Got w \<Longrightarrow> future_run t s = Inr s"
  by (simp_all add: future_ops)

text \<open>After \<open>set\<close> a thread that gets needs the token for at most one operation.\<close>

lemma future_delivers:
  assumes ok: "future_ok setter v s" and set: "f_pc s setter = F_SetDone v" and t: "t \<noteq> setter"
    and free: "f_sem s = 1 \<or> f_pc s t = F_Pass"
  shows "\<exists>s'. future_runs [t, t, t] s = Inr s' \<and> f_pc s' t = F_Got v"
proof -
  have r: "f_ready s" "f_val s = v" using ok set by (auto simp: future_ok_def)
  have "f_pc s t \<in> {F_Test, F_Down, F_Pass, F_Load, F_Got v}" using ok t by (auto simp: future_ok_def)
  then consider "f_pc s t = F_Test" | "f_pc s t = F_Down" | "f_pc s t = F_Pass" | "f_pc s t = F_Load" | "f_pc s t = F_Got v"
    by auto
  then show ?thesis
    by cases (use r free in \<open>simp_all add: future_get_at word_gt_0\<close>)
qed

lemma future_token:
  assumes ok: "future_ok setter v s" and set: "f_pc s setter = F_SetDone v"
    and no: "f_sem s \<noteq> 1"
  shows "\<exists>u s1. f_pc s u = F_Pass \<and> future_run u s = Inr s1 \<and> future_ok setter v s1 \<and> f_sem s1 = 1 \<and>
    f_pc s1 setter = F_SetDone v"
proof -
  obtain u where u: "f_pc s u = F_Pass" "f_sem s = 0"
    using ok set no by (auto simp: future_ok_def gate_ok_def)
  then have "future_run u s = Inr (s\<lparr>f_sem := 1, f_pc := (f_pc s)(u := F_Load)\<rparr>)"
    by (simp add: future_ops)
  moreover have "u \<noteq> setter" using u(1) set by auto
  ultimately show ?thesis using u(1) set future_ok_step [OF ok, of u] by auto
qed

text \<open>
  C29. A future delivers: under every interleaving of one \<open>set\<close> and any number of \<open>get\<close> no assertion fails; a \<open>get\<close>
  that returns does so after \<open>isReady\<close> was set and returns the value that was set; and when \<open>set\<close> has returned every
  \<open>get\<close> can return.
\<close>

theorem future_value:
  assumes "setter \<noteq> t"
  shows "\<exists>s. future_runs ts (future_init setter v u) = Inr s \<and>
    (\<forall>w. f_pc s t = F_Got w \<longrightarrow> w = v \<and> f_ready s) \<and>
    (f_pc s setter = F_SetDone v \<longrightarrow>
       (\<exists>us s'. future_runs us s = Inr s' \<and> f_pc s' t = F_Got v))"
proof -
  have "\<exists>s. future_runs ts (future_init setter v u) = Inr s \<and> future_ok setter v s"
    by (rule future_runs_ok [OF future_init_ok])
  then obtain s where s: "future_runs ts (future_init setter v u) = Inr s" and ok: "future_ok setter v s"
    by blast
  have "w = v \<and> f_ready s" if "f_pc s t = F_Got w" for w
    using that ok assms by (fastforce simp: future_ok_def)
  moreover have "\<exists>us s'. future_runs us s = Inr s' \<and> f_pc s' t = F_Got v" if set: "f_pc s setter = F_SetDone v"
  proof (cases "f_sem s = 1")
    case True
    then show ?thesis using future_delivers [OF ok set, of t] assms by metis
  next
    case False
    then obtain w s1 where w: "future_run w s = Inr s1" "future_ok setter v s1" "f_sem s1 = 1"
      "f_pc s1 setter = F_SetDone v"
      using future_token [OF ok set] by blast
    then obtain s' where "future_runs [t, t, t] s1 = Inr s'" "f_pc s' t = F_Got v"
      using future_delivers [OF w(2,4), of t] assms by metis
    then show ?thesis using w(1) by (intro exI [of _ "[w, t, t, t]"] exI [of _ s']) simp
  qed
  ultimately show ?thesis using s by blast
qed

text \<open>Thread 1 asks first and blocks, then thread 0 sets the value.\<close>

lemma future_value_witness:
  "\<exists>us s'. future_runs us (future_init 0 (42 :: u32) 0) = Inr s' \<and> f_pc s' 1 = F_Got 42"
proof -
  obtain s where s: "future_runs [1, 1, 0, 0, 0, 0] (future_init 0 (42 :: u32) 0) = Inr s"
    "f_pc s 0 = F_SetDone 42 \<longrightarrow> (\<exists>us s'. future_runs us s = Inr s' \<and> f_pc s' 1 = F_Got 42)"
    using future_value [of 0 1 "[1, 1, 0, 0, 0, 0]" "42 :: u32" 0] by auto
  have "f_pc s 0 = F_SetDone 42" using s(1) by (auto simp: future_ops future_init_def)
  then obtain us s' where us: "future_runs us s = Inr s'" "f_pc s' 1 = F_Got 42" using s(2) by blast
  have "future_runs ([1, 1, 0, 0, 0, 0] @ us) (future_init 0 (42 :: u32) 0) = Inr s'"
    using s(1) us(1) by (simp only: future_runs_append rbind_simps)
  then show ?thesis using us(2) by blast
qed

end
