(* ===== verification/Conditions.thy ===== *)
theory Conditions
  imports Locks
begin

text \<open>
  The condition variable of \<open>kernel/condition.h\<close> and the \<open>ReusableBarrier\<close> of \<open>kernel/barrier.h\<close> built on it. A step is
  what one thread does between taking the lock and releasing it, so the steps of different threads interleave
  exactly at the places where \<open>wait\<close> has let go of the lock; that the lock admits one thread is shown in
  \<open>Locks\<close>, and that the queues are lists in \<open>Queue\<close>. The lock word, what \<open>lock\<close> remembers, and the interrupt flag
  of every thread are part of the state, and every assertion of the two headers is in the steps.
\<close>

section \<open>Condition\<close>

record condition =
  cv_epoch :: u64
  cv_queue :: "nat list"

text \<open>The loop of \<open>notify\<close>: it moves up to \<open>limit\<close> threads to the ready queue.\<close>

fun notify_loop :: "u64 \<Rightarrow> u64 \<Rightarrow> nat list \<Rightarrow> nat list \<Rightarrow> nat list \<times> nat list" where
  "notify_loop i limit [] ready = ([], ready)"
| "notify_loop i limit (t # q) ready =
     (if i < limit then notify_loop (i + 1) limit q (ready @ [t]) else (t # q, ready))"

text \<open>The first argument is what \<open>isMine\<close> answers: the lock word, which nothing here changes.\<close>

definition notify :: "bool \<Rightarrow> u64 \<Rightarrow> condition \<Rightarrow> nat list \<Rightarrow> (condition \<times> nat list) res" where
  "notify isMine limit c ready =
     rbind (ASSERT isMine) (\<lambda>_.
     let (q, ready') = notify_loop 0 limit (cv_queue c) ready in
     rbind (ASSERT isMine) (\<lambda>_.
     Inr (c\<lparr>cv_epoch := cv_epoch c + 1, cv_queue := q\<rparr>, ready')))"

definition notifyOne :: "bool \<Rightarrow> condition \<Rightarrow> nat list \<Rightarrow> (condition \<times> nat list) res" where
  "notifyOne isMine c ready = notify isMine 1 c ready"

definition notifyAll :: "bool \<Rightarrow> condition \<Rightarrow> nat list \<Rightarrow> (condition \<times> nat list) res" where
  "notifyAll isMine c ready = notify isMine (NOT 0) c ready"

text \<open>
  \<open>wait\<close> reads the epoch before it releases the lock; this is what it does once the thread has blocked, with the
  lock taken again.
\<close>

definition wait_block :: "nat \<Rightarrow> u64 \<Rightarrow> condition \<Rightarrow> nat list \<Rightarrow> (condition \<times> nat list) res" where
  "wait_block me old_epoch c ready =
     (if cv_epoch c = old_epoch then Inr (c\<lparr>cv_queue := cv_queue c @ [me]\<rparr>, ready)
      else rbind (ASSERT (cv_epoch c > old_epoch)) (\<lambda>_. Inr (c, ready @ [me])))"

section \<open>ReusableBarrier\<close>

text \<open>
  A thread is away, has left the lock in \<open>wait\<close> and is about to block, or is asleep. The arguments are the local
  variables \<open>t\<close> of \<open>sync\<close> and \<open>old_epoch\<close> of \<open>wait\<close>.
\<close>

datatype rb_pc = Away | Blocking u64 u64 | Asleep u64

record rbarrier =
  rb_initial :: u32
  rb_count :: u32
  rb_epoch :: u64
  rb_new :: condition
  rb_taken :: bool
  rb_was :: bool
  rb_off :: "nat \<Rightarrow> bool"            \<comment> \<open>the thread runs with interrupts disabled\<close>
  rb_ready :: "nat list"
  rb_pc :: "nat \<Rightarrow> rb_pc"

text \<open>A new barrier, in a system whose threads run with interrupts enabled.\<close>

definition rb_init :: "u32 \<Rightarrow> rbarrier" where
  "rb_init count =
     \<lparr>rb_initial = count, rb_count = count, rb_epoch = 0, rb_new = \<lparr>cv_epoch = 0, cv_queue = []\<rparr>,
      rb_taken = False, rb_was = False, rb_off = (\<lambda>_. False), rb_ready = [], rb_pc = (\<lambda>_. Away)\<rparr>"

text \<open>\<open>lock\<close>, once the exchange has won, and \<open>unlock\<close>; a thread that finds the lock taken goes on spinning.\<close>

definition rb_lock :: "nat \<Rightarrow> rbarrier \<Rightarrow> rbarrier" where
  "rb_lock me s = s\<lparr>rb_taken := True, rb_was := rb_off s me, rb_off := (rb_off s)(me := True)\<rparr>"

definition rb_unlock :: "nat \<Rightarrow> rbarrier \<Rightarrow> rbarrier" where
  "rb_unlock me s = s\<lparr>rb_taken := False, rb_off := (if rb_was s then rb_off s else (rb_off s)(me := False))\<rparr>"

text \<open>\<open>wait\<close> up to the place where it calls \<open>block\<close>.\<close>

definition wait_enter :: "nat \<Rightarrow> u64 \<Rightarrow> rbarrier \<Rightarrow> rbarrier res" where
  "wait_enter me t s =
     rbind (ASSERT (rb_taken s)) (\<lambda>_.
     rbind (ASSERT (rb_off s me)) (\<lambda>_.
     let old_epoch = cv_epoch (rb_new s)
     in Inr (rb_unlock me (s\<lparr>rb_pc := (rb_pc s)(me := Blocking t old_epoch)\<rparr>))))"

text \<open>The test of the \<open>while\<close> loop with the lock held: wait again, or unlock and return.\<close>

definition rb_loop :: "nat \<Rightarrow> u64 \<Rightarrow> rbarrier \<Rightarrow> rbarrier res" where
  "rb_loop me t s =
     (if rb_epoch s \<le> t then wait_enter me t s
      else Inr (rb_unlock me (s\<lparr>rb_pc := (rb_pc s)(me := Away)\<rparr>)))"

definition rb_sync :: "nat \<Rightarrow> rbarrier \<Rightarrow> rbarrier res" where
  "rb_sync me s0 =
     (let s = rb_lock me s0 in
      rbind (ASSERT (rb_count s \<noteq> 0)) (\<lambda>_.
       let t = rb_epoch s;
           s1 = s\<lparr>rb_count := rb_count s - 1\<rparr>
       in if rb_count s1 = 0 then
            rbind (notifyAll (rb_taken s1) (rb_new s1) (rb_ready s1)) (\<lambda>(c, ready).
            Inr (rb_unlock me (s1\<lparr>rb_epoch := rb_epoch s1 + 1, rb_count := rb_initial s1, rb_new := c, rb_ready := ready\<rparr>)))
          else rb_loop me t s1))"

text \<open>
  \<open>wait\<close> from the place where \<open>block\<close> returns: it gets there with the interrupt flag that its thread had when it
  left. The function given to \<open>block\<close> runs before, on the core that the thread has left, with interrupts off.
\<close>

definition wait_leave :: "nat \<Rightarrow> u64 \<Rightarrow> rbarrier \<Rightarrow> rbarrier res" where
  "wait_leave me t s =
     rbind (ASSERT (\<not> rb_off s me)) (\<lambda>_.
     let s1 = rb_lock me s in
     rbind (ASSERT (rb_taken s1)) (\<lambda>_. rb_loop me t s1))"

datatype rb_event = Sync nat | Block nat | Resume nat

text \<open>A thread can call \<open>sync\<close>, block, or, when it is in the ready queue, run again inside \<open>wait\<close>.\<close>

fun rb_step :: "rb_event \<Rightarrow> rbarrier \<Rightarrow> rbarrier res" where
  "rb_step (Sync me) s = (if rb_pc s me = Away \<and> \<not> rb_taken s then rb_sync me s else Inr s)"
| "rb_step (Block me) s =
     (case rb_pc s me of
        Blocking t old_epoch \<Rightarrow>
          if rb_taken s then Inr s
          else rbind (wait_block me old_epoch (rb_new s) (rb_ready s)) (\<lambda>(c, ready).
            Inr (s\<lparr>rb_was := True, rb_new := c, rb_ready := ready, rb_pc := (rb_pc s)(me := Asleep t)\<rparr>))
      | _ \<Rightarrow> Inr s)"
| "rb_step (Resume me) s =
     (case rb_pc s me of
        Asleep t \<Rightarrow>
          if me \<in> set (rb_ready s) \<and> \<not> rb_taken s
          then wait_leave me t (s\<lparr>rb_ready := remove1 me (rb_ready s)\<rparr>) else Inr s
      | _ \<Rightarrow> Inr s)"

section \<open>The invariant\<close>

text \<open>The threads that wait for the round that is being counted.\<close>

definition in_round :: "rbarrier \<Rightarrow> nat set" where
  "in_round s = {t. (\<exists>old. rb_pc s t = Blocking (rb_epoch s) old) \<or> rb_pc s t = Asleep (rb_epoch s)}"

text \<open>
  The condition's queue holds the sleepers of this round and the ready queue those of earlier ones: no
  wakeup is lost. The epochs agree and do not exceed the number \<open>k\<close> of steps taken. Between steps the lock is
  free and interrupts are on in every thread.
\<close>

definition rb_ok :: "u32 \<Rightarrow> nat \<Rightarrow> rbarrier \<Rightarrow> bool" where
  "rb_ok n k s \<longleftrightarrow>
     \<not> rb_taken s \<and> (\<forall>t. \<not> rb_off s t) \<and> rb_initial s = n \<and> finite (in_round s) \<and> card (in_round s) + unat (rb_count s) = unat n \<and>
     rb_count s \<noteq> 0 \<and> cv_epoch (rb_new s) = rb_epoch s \<and> unat (rb_epoch s) \<le> k \<and>
     (\<forall>t e old. rb_pc s t = Blocking e old \<longrightarrow> e \<le> rb_epoch s \<and> old = e) \<and>
     (\<forall>t e. rb_pc s t = Asleep e \<longrightarrow> e \<le> rb_epoch s) \<and>
     distinct (cv_queue (rb_new s)) \<and> set (cv_queue (rb_new s)) = {t. rb_pc s t = Asleep (rb_epoch s)} \<and>
     distinct (rb_ready s) \<and> set (rb_ready s) = {t. \<exists>e. e < rb_epoch s \<and> rb_pc s t = Asleep e}"

lemma u64_unat: "unat (w :: u64) < 2 ^ 64"
  using unsigned_less [of w] by simp

lemma notify_loop_all:
  "unat i + length q \<le> unat limit \<Longrightarrow> notify_loop i limit q ready = ([], ready @ q)"
proof (induction q arbitrary: i ready)
  case (Cons t q)
  then have l: "unat i < unat limit" by simp
  then have "i < limit" by (simp add: word_less_nat_alt)
  moreover have "unat (i + 1) = Suc (unat i)"
    using l u64_unat [of limit] by (simp add: unat_word_ariths)
  ultimately show ?case using Cons by simp
qed simp

lemma notifyAll_all:
  "length (cv_queue c) < 2 ^ 64 \<Longrightarrow>
    notifyAll True c ready = Inr (c\<lparr>cv_epoch := cv_epoch c + 1, cv_queue := []\<rparr>, ready @ cv_queue c)"
proof -
  assume "length (cv_queue c) < 2 ^ 64"
  moreover have "unat (NOT 0 :: u64) = 2 ^ 64 - 1" by (simp add: unsigned_minus_1_eq_mask mask_eq_exp_minus_1)
  ultimately have "notify_loop 0 (NOT 0) (cv_queue c) ready = ([], ready @ cv_queue c)"
    by (intro notify_loop_all) simp
  then show ?thesis unfolding notifyAll_def notify_def by simp
qed

lemma u64_succ:
  assumes "unat (e :: u64) < 2 ^ 64 - 1"
  shows "unat (e + 1) = unat e + 1" "x < e + 1 \<longleftrightarrow> x \<le> e"
proof -
  show s: "unat (e + 1) = unat e + 1" using assms by (simp add: unat_word_ariths)
  show "x < e + 1 \<longleftrightarrow> x \<le> e" unfolding word_less_nat_alt word_le_nat_alt s by auto
qed

text \<open>The thread that completes the round.\<close>

lemma rb_sync_last:
  assumes ok: "rb_ok n k s" and k: "k < 2 ^ 64 - 1" and c: "rb_count s = 1" and n: "0 < unat n"
  shows "\<exists>s'. rb_sync me s = Inr s' \<and> rb_ok n (Suc k) s' \<and> rb_epoch s' = rb_epoch s + 1 \<and>
    in_round s' = {} \<and> rb_pc s' = rb_pc s"
proof -
  let ?q = "cv_queue (rb_new s)" and ?e = "rb_epoch s"
  have fin: "finite (in_round s)" and cnt: "card (in_round s) + unat (rb_count s) = unat n"
    and q: "distinct ?q" "set ?q = {t. rb_pc s t = Asleep ?e}"
    and r: "distinct (rb_ready s)" "set (rb_ready s) = {t. \<exists>e. e < ?e \<and> rb_pc s t = Asleep e}"
    and past: "\<And>t e old. rb_pc s t = Blocking e old \<Longrightarrow> e \<le> ?e \<and> old = e"
      "\<And>t e. rb_pc s t = Asleep e \<Longrightarrow> e \<le> ?e"
    and e: "unat ?e \<le> k" "cv_epoch (rb_new s) = ?e" and i: "rb_initial s = n"
    and free: "\<not> rb_taken s" "\<And>t. \<not> rb_off s t"
    using ok by (auto simp: rb_ok_def)
  have off: "(rb_off s)(me := False) = rb_off s" by (simp add: fun_upd_idem free(2))
  have ek: "unat ?e < 2 ^ 64 - 1" using e(1) k by linarith
  note lt = u64_succ(2) [OF ek]
  have "set ?q \<subseteq> in_round s" using q(2) by (auto simp: in_round_def)
  then have "length ?q \<le> card (in_round s)" using card_mono [OF fin] distinct_card [OF q(1)] by metis
  then have "length ?q < 2 ^ 64" using cnt u32_unat [of n] by simp
  then have all: "notifyAll True (rb_new s) (rb_ready s) = Inr ((rb_new s)\<lparr>cv_epoch := ?e + 1, cv_queue := []\<rparr>, rb_ready s @ ?q)"
    using notifyAll_all e(2) by simp
  let ?s' = "s\<lparr>rb_count := n, rb_epoch := ?e + 1, rb_new := (rb_new s)\<lparr>cv_epoch := ?e + 1, cv_queue := []\<rparr>,
    rb_taken := False, rb_was := False, rb_ready := rb_ready s @ ?q\<rparr>"
  have sync: "rb_sync me s = Inr ?s'"
    using all c i free off by (simp add: rb_sync_def rb_lock_def rb_unlock_def Let_def)
  have ne: "x \<noteq> ?e + 1" if "x \<le> ?e" for x using that lt [of x] by auto
  then have none: "in_round ?s' = {}" using past by (force simp: in_round_def)
  have "set (rb_ready s @ ?q) = {t. \<exists>e. e \<le> ?e \<and> rb_pc s t = Asleep e}"
    unfolding set_append q(2) r(2) using past(2) by (auto simp: order_le_less)
  moreover have "distinct (rb_ready s @ ?q)" using q r by auto
  moreover have "{t. rb_pc s t = Asleep (?e + 1)} = {}" using past(2) ne by blast
  moreover have "x \<le> ?e + 1" if "x \<le> ?e" for x using that lt [of x] by auto
  ultimately have "rb_ok n (Suc k) ?s'"
    unfolding rb_ok_def none using past n u64_succ(1) [OF ek] e(1) i free by (auto simp: lt unat_gt_0)
  then show ?thesis using sync none by auto
qed

text \<open>The others start to wait.\<close>

lemma rb_sync_wait:
  assumes ok: "rb_ok n k s" and c: "rb_count s \<noteq> 1" and me: "rb_pc s me = Away"
  shows "\<exists>s'. rb_sync me s = Inr s' \<and> rb_ok n (Suc k) s' \<and> rb_epoch s' = rb_epoch s \<and>
    in_round s' = insert me (in_round s) \<and> rb_pc s' = (rb_pc s)(me := Blocking (rb_epoch s) (rb_epoch s))"
proof -
  let ?e = "rb_epoch s"
  let ?s' = "s\<lparr>rb_count := rb_count s - 1, rb_taken := False, rb_was := False, rb_pc := (rb_pc s)(me := Blocking ?e ?e)\<rparr>"
  have fin: "finite (in_round s)" and cnt: "card (in_round s) + unat (rb_count s) = unat n" and nz: "rb_count s \<noteq> 0"
    and e: "cv_epoch (rb_new s) = ?e" and free: "\<not> rb_taken s" "\<And>t. \<not> rb_off s t"
    using ok by (auto simp: rb_ok_def)
  have off: "(rb_off s)(me := False) = rb_off s" by (simp add: fun_upd_idem free(2))
  have c0: "rb_count s - 1 \<noteq> 0" using c by auto
  have sync: "rb_sync me s = Inr ?s'"
    using nz c0 e free off by (simp add: rb_sync_def rb_loop_def wait_enter_def rb_lock_def rb_unlock_def Let_def)
  have in': "in_round ?s' = insert me (in_round s)" by (auto simp: in_round_def)
  have "me \<notin> in_round s" using me by (simp add: in_round_def)
  moreover have "unat (rb_count s - 1) = unat (rb_count s) - 1" "0 < unat (rb_count s)"
    using unat_minus_one [OF nz] nz by (auto simp: unat_gt_0)
  ultimately have "card (in_round ?s') + unat (rb_count s - 1) = unat n" using fin cnt in' by simp
  moreover have "{t. rb_pc ?s' t = Asleep ?e} = {t. rb_pc s t = Asleep ?e}" using me by auto
  moreover have "{t. \<exists>e. e < ?e \<and> rb_pc ?s' t = Asleep e} = {t. \<exists>e. e < ?e \<and> rb_pc s t = Asleep e}"
    using me by auto
  ultimately have "rb_ok n (Suc k) ?s'"
    using ok c0 fin in' unfolding rb_ok_def by (simp del: fun_upd_apply) auto
  then show ?thesis using sync in' by auto
qed

lemma rb_ok_mono: "rb_ok n k s \<Longrightarrow> k \<le> k' \<Longrightarrow> rb_ok n k' s"
  by (auto simp: rb_ok_def)

lemma rb_block_ok:
  assumes ok: "rb_ok n k s" and me: "rb_pc s me = Blocking e old"
  shows "\<exists>s'. rb_step (Block me) s = Inr s' \<and> rb_ok n k s' \<and> rb_epoch s' = rb_epoch s \<and>
    in_round s' = in_round s \<and> rb_pc s' = (rb_pc s)(me := Asleep e)"
proof -
  let ?E = "rb_epoch s"
  have eo: "e \<le> ?E" "old = e" and E: "cv_epoch (rb_new s) = ?E" using ok me by (auto simp: rb_ok_def)
  have q: "distinct (cv_queue (rb_new s))" "set (cv_queue (rb_new s)) = {t. rb_pc s t = Asleep ?E}"
    and r: "distinct (rb_ready s)" "set (rb_ready s) = {t. \<exists>e. e < ?E \<and> rb_pc s t = Asleep e}"
    using ok by (auto simp: rb_ok_def)
  have out: "me \<notin> set (cv_queue (rb_new s))" "me \<notin> set (rb_ready s)" using q(2) r(2) me by auto
  have free: "\<not> rb_taken s" using ok by (simp add: rb_ok_def)
  show ?thesis
  proof (cases "e = ?E")
    case True
    let ?s' = "s\<lparr>rb_was := True, rb_new := (rb_new s)\<lparr>cv_queue := cv_queue (rb_new s) @ [me]\<rparr>, rb_pc := (rb_pc s)(me := Asleep e)\<rparr>"
    have "rb_step (Block me) s = Inr ?s'" using me eo E True free by (simp add: wait_block_def)
    moreover have in': "in_round ?s' = in_round s" using me True eo by (auto simp: in_round_def)
    moreover have "set (cv_queue (rb_new s) @ [me]) = {t. ((rb_pc s)(me := Asleep e)) t = Asleep ?E}"
      using q(2) True by auto
    moreover have "{t. \<exists>x. x < ?E \<and> ((rb_pc s)(me := Asleep e)) t = Asleep x} = {t. \<exists>x. x < ?E \<and> rb_pc s t = Asleep x}"
      using me True by auto
    ultimately have "rb_ok n k ?s'" using ok out(1) q(1) eo unfolding rb_ok_def
      by (simp del: fun_upd_apply) (auto)
    then show ?thesis using \<open>rb_step (Block me) s = Inr ?s'\<close> in' by auto
  next
    case False
    then have lt: "e < ?E" using eo by simp
    let ?s' = "s\<lparr>rb_was := True, rb_ready := rb_ready s @ [me], rb_pc := (rb_pc s)(me := Asleep e)\<rparr>"
    have "rb_step (Block me) s = Inr ?s'" using me eo E lt free by (auto simp: wait_block_def)
    moreover have in': "in_round ?s' = in_round s" using me False by (auto simp: in_round_def)
    moreover have "{t. ((rb_pc s)(me := Asleep e)) t = Asleep ?E} = {t. rb_pc s t = Asleep ?E}"
      using me False by auto
    moreover have "set (rb_ready s @ [me]) = {t. \<exists>x. x < ?E \<and> ((rb_pc s)(me := Asleep e)) t = Asleep x}"
      using r(2) lt me by auto
    ultimately have "rb_ok n k ?s'" using ok out(2) r(1) eo unfolding rb_ok_def
      by (simp del: fun_upd_apply) (auto)
    then show ?thesis using \<open>rb_step (Block me) s = Inr ?s'\<close> in' by auto
  qed
qed

lemma rb_resume_ok:
  assumes ok: "rb_ok n k s" and me: "rb_pc s me = Asleep e" "e < rb_epoch s"
  shows "\<exists>s'. rb_step (Resume me) s = Inr s' \<and> rb_ok n k s' \<and> rb_epoch s' = rb_epoch s \<and>
    in_round s' = in_round s \<and> rb_pc s' = (rb_pc s)(me := Away)"
proof -
  let ?E = "rb_epoch s"
  have q: "set (cv_queue (rb_new s)) = {t. rb_pc s t = Asleep ?E}"
    and r: "distinct (rb_ready s)" "set (rb_ready s) = {t. \<exists>e. e < ?E \<and> rb_pc s t = Asleep e}"
    using ok by (auto simp: rb_ok_def)
  have free: "\<not> rb_taken s" "\<And>t. \<not> rb_off s t" using ok by (auto simp: rb_ok_def)
  have off: "(rb_off s)(me := False) = rb_off s" by (simp add: fun_upd_idem free(2))
  let ?s' = "s\<lparr>rb_taken := False, rb_was := False, rb_ready := remove1 me (rb_ready s), rb_pc := (rb_pc s)(me := Away)\<rparr>"
  have "me \<in> set (rb_ready s)" using r(2) me by auto
  then have step: "rb_step (Resume me) s = Inr ?s'"
    using me(1) free off not_le [THEN iffD2, OF me(2)] by (simp add: wait_leave_def rb_loop_def rb_lock_def rb_unlock_def Let_def)
  have in': "in_round ?s' = in_round s" using me by (auto simp: in_round_def)
  have "{t. ((rb_pc s)(me := Away)) t = Asleep ?E} = {t. rb_pc s t = Asleep ?E}" using me by auto
  moreover have "set (remove1 me (rb_ready s)) = {t. \<exists>x. x < ?E \<and> ((rb_pc s)(me := Away)) t = Asleep x}"
    using r by auto
  ultimately have "rb_ok n k ?s'" using ok in' r(1) unfolding rb_ok_def
    by (simp del: fun_upd_apply) (auto)
  then show ?thesis using step in' by auto
qed

fun rb_thread :: "rb_event \<Rightarrow> nat" where
  "rb_thread (Sync t) = t"
| "rb_thread (Block t) = t"
| "rb_thread (Resume t) = t"

lemma rb_step_ok:
  assumes ok: "rb_ok n k s" and k: "k < 2 ^ 64 - 1" and n: "0 < unat n"
  shows "\<exists>s'. rb_step ev s = Inr s' \<and> rb_ok n (Suc k) s' \<and>
    (\<forall>t. t \<noteq> rb_thread ev \<longrightarrow> rb_pc s' t = rb_pc s t) \<and>
    (rb_epoch s' = rb_epoch s \<and> in_round s \<subseteq> in_round s' \<or>
     rb_epoch s' = rb_epoch s + 1 \<and> in_round s' = {} \<and> card (in_round s) + 1 = unat n \<and>
       (\<exists>t. ev = Sync t \<and> rb_pc s t = Away))"
proof -
  have free: "\<not> rb_taken s" using ok by (simp add: rb_ok_def)
  have stay: ?thesis if "rb_step ev s = Inr s"
    using that rb_ok_mono [OF ok, of "Suc k"] by simp
  show ?thesis
  proof (cases ev)
    case (Sync t)
    show ?thesis
    proof (cases "rb_pc s t = Away")
      case True
      show ?thesis
      proof (cases "rb_count s = 1")
        case c: True
        then have "card (in_round s) + 1 = unat n" using ok by (simp add: rb_ok_def)
        then show ?thesis using rb_sync_last [OF ok k c n, of t] Sync True free by auto
      next
        case False
        then show ?thesis using rb_sync_wait [OF ok False True] Sync True free by auto
      qed
    qed (use stay Sync in simp)
  next
    case (Block t)
    show ?thesis
    proof (cases "\<exists>e old. rb_pc s t = Blocking e old")
      case True
      then show ?thesis using rb_block_ok [OF ok, of t] rb_ok_mono [of n k _ "Suc k"] Block by fastforce
    qed (use stay Block in \<open>auto split: rb_pc.split\<close>)
  next
    case (Resume t)
    show ?thesis
    proof (cases "\<exists>e. rb_pc s t = Asleep e \<and> e < rb_epoch s")
      case True
      then show ?thesis using rb_resume_ok [OF ok, of t] rb_ok_mono [of n k _ "Suc k"] Resume by fastforce
    next
      case False
      then have "t \<notin> set (rb_ready s)" using ok by (auto simp: rb_ok_def)
      then show ?thesis using stay Resume by (auto split: rb_pc.split)
    qed
  qed
qed

section \<open>Runs\<close>

text \<open>\<open>rb_runs n k s\<close>: \<open>k\<close> steps from a new barrier of \<open>n\<close> threads lead to \<open>s\<close>.\<close>

inductive rb_runs :: "u32 \<Rightarrow> nat \<Rightarrow> rbarrier \<Rightarrow> bool" for n where
  start: "rb_runs n 0 (rb_init n)"
| step: "rb_runs n k s \<Longrightarrow> rb_step ev s = Inr s' \<Longrightarrow> rb_runs n (Suc k) s'"

lemma rb_init_ok: "0 < unat n \<Longrightarrow> rb_ok n 0 (rb_init n)"
  by (auto simp: rb_ok_def rb_init_def in_round_def)

lemma rb_runs_ok: "rb_runs n k s \<Longrightarrow> k < 2 ^ 64 \<Longrightarrow> 0 < unat n \<Longrightarrow> rb_ok n k s"
proof (induction rule: rb_runs.induct)
  case (step k s ev s')
  then show ?case using rb_step_ok [of n k s ev] by auto
qed (rule rb_init_ok)

definition rb_run :: "rb_event list \<Rightarrow> rbarrier \<Rightarrow> rbarrier res" where
  "rb_run evs s = fold (\<lambda>ev r. rbind r (rb_step ev)) evs (Inr s)"

lemma rb_run_simps [simp]:
  "rb_run [] s = Inr s" "rb_run (ev # evs) s = rbind (rb_step ev s) (rb_run evs)"
proof -
  have e: "fold (\<lambda>ev r. rbind r (rb_step ev)) evs (Inl x) = Inl x" for x and evs :: "rb_event list"
    by (induction evs) auto
  show "rb_run [] s = Inr s" by (simp add: rb_run_def)
  show "rb_run (ev # evs) s = rbind (rb_step ev s) (rb_run evs)"
    by (cases "rb_step ev s") (simp_all add: rb_run_def e)
qed

lemma rb_run_append: "rb_run (xs @ ys) s = rbind (rb_run xs s) (rb_run ys)"
proof (induction xs arbitrary: s)
  case (Cons x xs)
  then show ?case by (cases "rb_step x s") simp_all
qed simp

text \<open>
  Steps of other threads leave a thread of a finished round as it is, and its round finished.
\<close>

lemma rb_run_others:
  assumes "rb_ok n k s" "k + length evs < 2 ^ 64" "0 < unat n" "\<forall>ev \<in> set evs. rb_thread ev \<noteq> t"
  shows "\<exists>s'. rb_run evs s = Inr s' \<and> rb_ok n (k + length evs) s' \<and> rb_pc s' t = rb_pc s t \<and> rb_epoch s \<le> rb_epoch s'"
  using assms
proof (induction evs arbitrary: s k)
  case (Cons ev evs)
  have k: "k < 2 ^ 64 - 1" using Cons.prems(2) by simp
  obtain s1 where s1: "rb_step ev s = Inr s1" "rb_ok n (Suc k) s1" "rb_pc s1 t = rb_pc s t"
    "rb_epoch s1 = rb_epoch s \<or> rb_epoch s1 = rb_epoch s + 1"
    using rb_step_ok [OF Cons.prems(1) k Cons.prems(3), of ev] Cons.prems(4) by auto
  have "unat (rb_epoch s) < 2 ^ 64 - 1" using Cons.prems(1) k by (auto simp: rb_ok_def)
  then have "rb_epoch s \<le> rb_epoch s1" using s1(4) u64_succ(2) [of "rb_epoch s" "rb_epoch s"] by auto
  then show ?case using Cons.IH [OF s1(2)] Cons.prems s1(1,3) by fastforce
qed simp

section \<open>The properties\<close>

text \<open>
  C30. The reusable barrier of \<open>n\<close> threads that run with interrupts enabled, under every interleaving of fewer than
  \<open>2^64\<close> steps: no assertion of \<open>sync\<close>, \<open>wait\<close> and \<open>notify\<close> fails; between steps the lock is free and interrupts are
  on again; the threads of the current round and the count add up to \<open>n\<close>; none of them leaves before the round
  ends; and it ends exactly when the \<open>n\<close>-th thread calls \<open>sync\<close>. A thread that sleeps with interrupts off, on the
  other hand, fails the assertion of \<open>wait\<close> when it is woken.
\<close>

theorem reusable_barrier_rounds:
  assumes "rb_runs n k s" "k < 2 ^ 64 - 1" "0 < unat n"
  shows "card (in_round s) + unat (rb_count s) = unat n \<and> rb_count s \<noteq> 0 \<and>
    \<not> rb_taken s \<and> (\<forall>t. \<not> rb_off s t) \<and>
    (\<exists>s'. rb_step ev s = Inr s' \<and>
      (if rb_epoch s' = rb_epoch s then in_round s \<subseteq> in_round s'
       else rb_epoch s' = rb_epoch s + 1 \<and> in_round s' = {} \<and> card (in_round s) + 1 = unat n \<and>
         (\<exists>t. ev = Sync t \<and> rb_pc s t = Away))) \<and>
    (\<forall>t e. rb_pc s t = Asleep e \<and> e < rb_epoch s \<longrightarrow>
      rb_step (Resume t) (s\<lparr>rb_off := (rb_off s)(t := True)\<rparr>) = Inl (Panic ''assert''))"
proof -
  have ok: "rb_ok n k s" using rb_runs_ok [OF assms(1)] assms(2,3) by simp
  then have "card (in_round s) + unat (rb_count s) = unat n" "rb_count s \<noteq> 0" "\<not> rb_taken s" "\<forall>t. \<not> rb_off s t"
    by (auto simp: rb_ok_def)
  moreover have "rb_step (Resume t) (s\<lparr>rb_off := (rb_off s)(t := True)\<rparr>) = Inl (Panic ''assert'')"
    if "rb_pc s t = Asleep e" "e < rb_epoch s" for t e
    using ok that by (auto simp: rb_ok_def wait_leave_def)
  moreover have "rb_epoch s + 1 \<noteq> rb_epoch s" by simp
  ultimately show ?thesis using rb_step_ok [OF ok assms(2,3), of ev] by auto
qed

text \<open>
  C31. No wakeup is lost: a thread that waits for a round that has ended, whether it is asleep or still on its
  way to block, returns from \<open>sync\<close> once it has had its two turns, whatever the other threads do before and
  between them.
\<close>

theorem reusable_barrier_wakes:
  assumes "rb_runs n k s" "0 < unat n" "rb_pc s t = Blocking e old \<or> rb_pc s t = Asleep e" "e < rb_epoch s"
    and "\<forall>ev \<in> set (evs @ evs'). rb_thread ev \<noteq> t" "k + length evs + length evs' + 2 < 2 ^ 64"
  shows "\<exists>s'. rb_run (evs @ Block t # evs' @ [Resume t]) s = Inr s' \<and> rb_pc s' t = Away"
proof -
  have "rb_ok n k s" using rb_runs_ok [OF assms(1) _ assms(2)] assms(6) by simp
  then obtain s1 where s1: "rb_run evs s = Inr s1" "rb_ok n (k + length evs) s1" "rb_pc s1 t = rb_pc s t"
    "rb_epoch s \<le> rb_epoch s1"
    using rb_run_others [of n k s evs t] assms by auto
  have "\<exists>s2. rb_step (Block t) s1 = Inr s2 \<and> rb_ok n (k + length evs) s2 \<and> rb_epoch s2 = rb_epoch s1 \<and> rb_pc s2 t = Asleep e"
  proof (cases "rb_pc s t = Asleep e")
    case True
    then show ?thesis using s1 by auto
  next
    case False
    then have "rb_pc s1 t = Blocking e old" using s1(3) assms(3) by simp
    then show ?thesis using rb_block_ok [OF s1(2)] by fastforce
  qed
  then obtain s2 where s2: "rb_step (Block t) s1 = Inr s2" "rb_ok n (k + length evs) s2"
    "rb_epoch s2 = rb_epoch s1" "rb_pc s2 t = Asleep e" by blast
  then obtain s3 where s3: "rb_run evs' s2 = Inr s3" "rb_ok n (k + length evs + length evs') s3"
    "rb_pc s3 t = Asleep e" "rb_epoch s2 \<le> rb_epoch s3"
    using rb_run_others [OF s2(2), of evs' t] assms by auto
  have "e < rb_epoch s3" using assms(4) s1(4) s2(3) s3(4) by auto
  then obtain s4 where "rb_step (Resume t) s3 = Inr s4" "rb_pc s4 t = Away"
    using rb_resume_ok [OF s3(2,3)] by auto
  then show ?thesis using s1(1) s2(1) s3(1) by (simp add: rb_run_append)
qed

text \<open>Two threads: 1 arrives and leaves the lock, 2 arrives and ends the round before 1 has blocked.\<close>

definition demo_round :: rbarrier where
  "demo_round = (rb_init 2)\<lparr>rb_epoch := 1, rb_new := \<lparr>cv_epoch = 1, cv_queue = []\<rparr>,
     rb_pc := (\<lambda>_. Away)(1 := Blocking 0 0)\<rparr>"

lemma demo_round_runs: "rb_runs 2 2 demo_round"
proof -
  have "rb_step (Sync 1) (rb_init 2) = Inr ((rb_init 2)\<lparr>rb_count := 1, rb_pc := (\<lambda>_. Away)(1 := Blocking 0 0)\<rparr>)"
    by (simp add: rb_sync_def rb_init_def rb_loop_def wait_enter_def rb_lock_def rb_unlock_def fun_upd_idem)
  moreover have "rb_step (Sync 2) ((rb_init 2)\<lparr>rb_count := 1, rb_pc := (\<lambda>_. Away)(1 := Blocking 0 0)\<rparr>) = Inr demo_round"
    by (simp add: rb_sync_def rb_init_def demo_round_def notifyAll_all rb_lock_def rb_unlock_def fun_upd_idem)
  ultimately have "rb_runs 2 (Suc (Suc 0)) demo_round"
    by (rule rb_runs.step [OF rb_runs.step [OF rb_runs.start]])
  then show ?thesis by (simp add: numeral_2_eq_2)
qed

text \<open>Then 1 blocks, and is put on the ready queue at once.\<close>

definition demo_woken :: rbarrier where
  "demo_woken = demo_round\<lparr>rb_was := True, rb_ready := [1], rb_pc := (\<lambda>_. Away)(1 := Asleep 0)\<rparr>"

lemma demo_woken_runs: "rb_runs 2 3 demo_woken"
proof -
  have "rb_step (Block 1) demo_round = Inr demo_woken"
    by (simp add: demo_woken_def demo_round_def rb_init_def wait_block_def)
  then have "rb_runs 2 (Suc 2) demo_woken" by (rule rb_runs.step [OF demo_round_runs])
  then show ?thesis by simp
qed

lemma reusable_barrier_rounds_witness:
  "card (in_round demo_woken) + unat (rb_count demo_woken) = 2 \<and> (\<exists>s'. rb_step (Resume 1) demo_woken = Inr s') \<and>
    rb_step (Resume 1) (demo_woken\<lparr>rb_off := (rb_off demo_woken)(1 := True)\<rparr>) = Inl (Panic ''assert'')"
proof -
  have "rb_pc demo_woken 1 = Asleep 0" "0 < rb_epoch demo_woken" by (simp_all add: demo_woken_def demo_round_def)
  then show ?thesis using reusable_barrier_rounds [OF demo_woken_runs, of "Resume 1"] by (auto simp del: rb_step.simps)
qed

lemma reusable_barrier_wakes_witness:
  "\<exists>s'. rb_run [Sync 2, Block 1, Block 2, Resume 1] demo_round = Inr s' \<and> rb_pc s' 1 = Away"
  using reusable_barrier_wakes [OF demo_round_runs, of 1 0 0 "[Sync 2]" "[Block 2]"]
  by (simp add: demo_round_def rb_init_def del: rb_run_simps)

end
