(* ===== verification/Semaphores.thy ===== *)
theory Semaphores
  imports Threads
begin

text \<open>
  The order in which a semaphore (\<open>kernel/semaphore.h\<close>) serves the threads that wait for it. A run is any sequence of
  \<open>down\<close> and \<open>up\<close>, on this semaphore and on others, and of threads that yield or stop. Its history is read off the
  code's own state: who blocks in \<open>down\<close>, and whom \<open>up\<close> takes off the waiting queue.
\<close>

section \<open>Runs and their histories\<close>

datatype sem_op = SemDown nat nat | SemUp nat | Yield nat | Stop nat

fun sem_step :: "sem_op \<Rightarrow> kernel \<Rightarrow> kernel res" where
  "sem_step (SemDown i c) s = sem_down i c s"
| "sem_step (SemUp i) s = sem_up i s"
| "sem_step (Yield c) s = yield c s"
| "sem_step (Stop c) s = stop c s"

fun sem_legal :: "sem_op \<Rightarrow> kernel \<Rightarrow> bool" where
  "sem_legal (SemDown i c) s \<longleftrightarrow> c < length (activeThreads s) \<and> \<not> isIdle s (current c s)"
| "sem_legal (SemUp i) s \<longleftrightarrow> True"
| "sem_legal (Yield c) s \<longleftrightarrow> c < length (activeThreads s)"
| "sem_legal (Stop c) s \<longleftrightarrow> c < length (activeThreads s)"

inductive sem_run :: "kernel \<Rightarrow> (kernel \<times> sem_op) list \<Rightarrow> kernel \<Rightarrow> bool" where
  none: "sem_run s [] s"
| some: "sem_legal op s \<Longrightarrow> sem_step op s = Inr s1 \<Longrightarrow> sem_run s1 h s' \<Longrightarrow> sem_run s ((s, op) # h) s'"

text \<open>
  The threads that an operation, carried out in a state, makes wait for semaphore \<open>i\<close>, those that it lets pass at
  once, and those that it wakes.
\<close>

fun begins_wait :: "nat \<Rightarrow> kernel \<times> sem_op \<Rightarrow> nat list" where
  "begins_wait i (s, SemDown j c) = (if j = i \<and> sem_count (th_sems s i) = 0 then [current c s] else [])"
| "begins_wait i (s, op) = []"

fun passes :: "nat \<Rightarrow> kernel \<times> sem_op \<Rightarrow> nat list" where
  "passes i (s, SemDown j c) = (if j = i \<and> sem_count (th_sems s i) \<noteq> 0 then [current c s] else [])"
| "passes i (s, op) = []"

fun wakes :: "nat \<Rightarrow> kernel \<times> sem_op \<Rightarrow> nat list" where
  "wakes i (s, SemUp j) =
     (if j = i then case fst (queue_remove (sem_waiting (th_sems s i), th_next s)) of None \<Rightarrow> [] | Some t \<Rightarrow> [t] else [])"
| "wakes i (s, op) = []"

definition ups :: "nat \<Rightarrow> (kernel \<times> sem_op) list \<Rightarrow> nat" where
  "ups i h = length (filter (\<lambda>(s, op). op = SemUp i) h)"

definition over :: "(kernel \<times> sem_op \<Rightarrow> nat list) \<Rightarrow> (kernel \<times> sem_op) list \<Rightarrow> nat list" where
  "over f h = concat (map f h)"

section \<open>One operation\<close>

lemma schedule_sems: "schedule t s = Inr s' \<Longrightarrow> th_sems s' = th_sems s"
  by (auto simp: schedule_def rbind_Inr_conv split: if_splits)

lemma bury_sems: "bury t s = Inr s' \<Longrightarrow> th_sems s' = th_sems s"
  by (auto simp: bury_def rbind_Inr_conv split: if_splits)

lemma sem_wait_count: "sem_wait i t s = Inr s' \<Longrightarrow> sem_count (th_sems s' j) = sem_count (th_sems s j)"
  by (auto simp: sem_wait_def rbind_Inr_conv)

text \<open>\<open>down\<close> on a count of zero: the thread goes to the end of the waiting queue.\<close>

lemma sem_down_waits:
  assumes ok: "threads_ok s g" and c: "c < length (activeThreads s)" and me: "\<not> isIdle s (current c s)"
    and z: "sem_count (th_sems s i) = 0"
  obtains s' g' where "sem_down i c s = Inr s'" "threads_ok s' g'"
    and "g_waiting g' = (g_waiting g)(i := g_waiting g i @ [current c s])"
    and "\<And>j. sem_count (th_sems s' j) = sem_count (th_sems s j)"
proof -
  let ?me = "current c s"
  have wait: "\<exists>s' g'. sem_wait i ?me s1 = Inr s' \<and> threads_ok s' g' \<and>
      g_waiting g' = (g_waiting g)(i := g_waiting g i @ [?me]) \<and> (\<forall>j. sem_count (th_sems s' j) = sem_count (th_sems s j))"
    if s1: "threads_ok s1 g1" "g_place g1 ?me = Nowhere"
      "th_sems s1 = th_sems s" "idleThreads s1 = idleThreads s" "g_waiting g1 = g_waiting g" for s1 g1
  proof -
    have i: "?me \<notin> set (idleThreads s1)" using me s1(4) by (simp add: isIdle_def)
    have z1: "sem_count (th_sems s1 i) = 0" using z s1(3) by simp
    obtain s' where s': "sem_wait i ?me s1 = Inr s'"
      "threads_ok s' (g1\<lparr>g_waiting := (g_waiting g1)(i := g_waiting g1 i @ [?me]), g_place := (g_place g1)(?me := Waiting i)\<rparr>)"
      by (rule add_waiting [OF s1(1,2) i z1])
    show ?thesis
      by (rule exI [of _ s'], rule exI, rule conjI [OF s'(1)], rule conjI [OF s'(2)])
        (use sem_wait_count [OF s'(1)] s1(3,5) in simp)
  qed
  have "\<exists>s' g'. block MustBlock (sem_wait i) c s = Inr s' \<and> threads_ok s' g' \<and>
      g_waiting g' = (g_waiting g)(i := g_waiting g i @ [?me]) \<and> (\<forall>j. sem_count (th_sems s' j) = sem_count (th_sems s j))"
    using ok c
  proof (cases rule: block_cases [where f = "sem_wait i" and opt = MustBlock])
    case stay
    then show ?thesis using me by simp
  next
    case (idle s1 g1)
    then show ?thesis using wait [OF idle(5,6)] by simp
  next
    case (switch t R s1 g1 q)
    then show ?thesis using wait [OF switch(3,4)] by simp
  qed
  then show ?thesis using that z by (auto simp: sem_down_def)
qed

text \<open>\<open>yield\<close> and \<open>stop\<close> leave the semaphores alone.\<close>

lemma yield_waiting:
  assumes ok: "threads_ok s g" and c: "c < length (activeThreads s)"
  shows "\<exists>s' g'. yield c s = Inr s' \<and> threads_ok s' g' \<and> g_waiting g' = g_waiting g \<and> th_sems s' = th_sems s"
  using ok c
proof (cases rule: block_cases [where f = schedule and opt = CanReturn])
  case stay
  then show ?thesis using ok by (auto simp: yield_def)
next
  case (switch t R s1 g1 q)
  show ?thesis
  proof (cases "current c s \<in> set (idleThreads s1)")
    case True
    then have "yield c s = Inr s1" using switch(2) by (simp add: yield_def schedule_def isIdle_def)
    then show ?thesis using switch(3,5,7) by (intro exI [of _ s1] exI [of _ g1]) simp
  next
    case False
    obtain s' where s': "schedule (current c s) s1 = Inr s'"
      "threads_ok s' (g1\<lparr>g_ready := g_ready g1 @ [current c s], g_place := (g_place g1)(current c s := Ready)\<rparr>)"
      by (rule add_ready [OF switch(3,4) False])
    have y: "yield c s = Inr s'" using s'(1) switch(2) by (simp add: yield_def)
    show ?thesis
      by (rule exI [of _ s'], rule exI, rule conjI [OF y], rule conjI [OF s'(2)])
        (use schedule_sems [OF s'(1)] switch(5,7) in simp)
  qed
qed simp

lemma stop_waiting:
  assumes ok: "threads_ok s g" and c: "c < length (activeThreads s)"
  shows "\<exists>s' g'. stop c s = Inr s' \<and> threads_ok s' g' \<and> g_waiting g' = g_waiting g \<and> th_sems s' = th_sems s"
proof -
  have bury: "\<exists>s' g'. bury (current c s) s1 = Inr s' \<and> threads_ok s' g' \<and> g_waiting g' = g_waiting g1 \<and> th_sems s' = th_sems s1"
    if s1: "threads_ok s1 g1" "g_place g1 (current c s) = Nowhere" for s1 g1
  proof (cases "current c s \<in> set (idleThreads s1)")
    case True
    then show ?thesis using s1 by (intro exI [of _ s1] exI [of _ g1]) (simp add: bury_def isIdle_def)
  next
    case False
    obtain s' where s': "bury (current c s) s1 = Inr s'"
      "threads_ok s' (g1\<lparr>g_zombies := g_zombies g1 @ [current c s], g_place := (g_place g1)(current c s := Zombie)\<rparr>)"
      by (rule add_zombie [OF s1 False])
    show ?thesis
      by (rule exI [of _ s'], rule exI, rule conjI [OF s'(1)], rule conjI [OF s'(2)])
        (use bury_sems [OF s'(1)] in simp)
  qed
  show ?thesis
    using ok c
  proof (cases rule: block_cases [where f = bury and opt = MustBlock])
    case stay
    then show ?thesis using ok by (auto simp: stop_def)
  next
    case (idle s1 g1)
    then show ?thesis using bury [OF idle(5,6)] by (simp add: stop_def)
  next
    case (switch t R s1 g1 q)
    then show ?thesis using bury [OF switch(3,4)] by (simp add: stop_def)
  qed
qed

lemma sem_up_sems: "sem_up i s = Inr s' \<Longrightarrow> fst (queue_remove (sem_waiting (th_sems s i), th_next s)) = Some t \<Longrightarrow>
    sem_count (th_sems s' j) = sem_count (th_sems s j)"
  by (auto simp: sem_up_def Let_def split: prod.splits dest!: schedule_sems)

text \<open>
  What an operation does to a waiting queue and its count: waiters are added at the end and taken from the front,
  and the count pays for those who pass and those who are woken.
\<close>

definition sem_effect :: "nat \<Rightarrow> kernel \<Rightarrow> ghost \<Rightarrow> sem_op \<Rightarrow> kernel \<Rightarrow> ghost \<Rightarrow> bool" where
  "sem_effect i s g op s' g' \<longleftrightarrow>
     g_waiting g i @ begins_wait i (s, op) = wakes i (s, op) @ g_waiting g' i \<and>
     sem_count (th_sems s' i) + of_nat (length (passes i (s, op)) + length (wakes i (s, op))) =
       sem_count (th_sems s i) + of_nat (ups i [(s, op)])"

lemma waiting_front:
  assumes "threads_ok s g"
  shows "fst (queue_remove (sem_waiting (th_sems s i), th_next s)) = (case g_waiting g i of [] \<Rightarrow> None | t # R \<Rightarrow> Some t)"
proof (cases "g_waiting g i")
  case Nil
  then have "queue_rep (sem_waiting (th_sems s i)) (th_next s) []" using assms by (metis threads_ok_def reps_ok_def)
  then show ?thesis using Nil by (simp add: tcb_queue.deq_empty)
next
  case (Cons t R)
  show ?thesis by (rule take_waiting [OF assms Cons]) (simp add: Cons)
qed

lemma sem_step_effect:
  assumes ok: "threads_ok s g" and l: "sem_legal op s"
  shows "\<exists>s' g'. sem_step op s = Inr s' \<and> threads_ok s' g' \<and> (\<forall>i. sem_effect i s g op s' g')"
proof (cases op)
  case (SemDown j c)
  then have c: "c < length (activeThreads s)" and me: "\<not> isIdle s (current c s)" using l by simp_all
  show ?thesis
  proof (cases "sem_count (th_sems s j) = 0")
    case True
    obtain s' g' where s': "sem_down j c s = Inr s'" "threads_ok s' g'"
      "g_waiting g' = (g_waiting g)(j := g_waiting g j @ [current c s])"
      "\<And>k. sem_count (th_sems s' k) = sem_count (th_sems s k)"
      using sem_down_waits [OF ok c me True] by blast
    show ?thesis
      using s' True SemDown by (intro exI [of _ s'] exI [of _ g']) (auto simp: sem_effect_def ups_def)
  next
    case False
    let ?s' = "s\<lparr>th_sems := (th_sems s)(j := (th_sems s j)\<lparr>sem_count := sem_count (th_sems s j) - 1\<rparr>)\<rparr>"
    have "g_waiting g j = []" using ok False by (auto simp: threads_ok_def reps_ok_def)
    then have "threads_ok ?s' g" by (intro sem_set_ok [OF ok]) simp
    moreover have "sem_down j c s = Inr ?s'" using False by (simp add: sem_down_def word_neq_0_conv)
    ultimately show ?thesis
      using SemDown False by (intro exI [of _ ?s'] exI [of _ g]) (auto simp: sem_effect_def ups_def)
  qed
next
  case (SemUp j)
  show ?thesis
  proof (cases "g_waiting g j")
    case Nil
    let ?s' = "s\<lparr>th_sems := (th_sems s)(j := (th_sems s j)\<lparr>sem_count := sem_count (th_sems s j) + 1\<rparr>)\<rparr>"
    have "sem_up j s = Inr ?s'" by (rule sem_up_counts [OF ok Nil])
    moreover have "threads_ok ?s' g" using Nil by (intro sem_set_ok [OF ok]) simp
    ultimately show ?thesis
      using SemUp Nil by (intro exI [of _ ?s'] exI [of _ g]) (auto simp: sem_effect_def ups_def waiting_front [OF ok])
  next
    case (Cons t R)
    obtain s' g' where s': "sem_up j s = Inr s'" "threads_ok s' g'" "g_waiting g' = (g_waiting g)(j := R)"
      by (rule sem_up_wakes [OF ok Cons])
    have "sem_count (th_sems s' k) = sem_count (th_sems s k)" for k
      using sem_up_sems [OF s'(1)] Cons by (simp add: waiting_front [OF ok])
    then show ?thesis
      using SemUp s' Cons by (intro exI [of _ s'] exI [of _ g']) (auto simp: sem_effect_def ups_def waiting_front [OF ok])
  qed
next
  case (Yield c)
  then have "c < length (activeThreads s)" using l by simp
  then obtain s' g' where "yield c s = Inr s'" "threads_ok s' g'" "g_waiting g' = g_waiting g" "th_sems s' = th_sems s"
    using yield_waiting [OF ok] by blast
  then show ?thesis using Yield by (intro exI [of _ s'] exI [of _ g']) (simp add: sem_effect_def ups_def)
next
  case (Stop c)
  then have "c < length (activeThreads s)" using l by simp
  then obtain s' g' where "stop c s = Inr s'" "threads_ok s' g'" "g_waiting g' = g_waiting g" "th_sems s' = th_sems s"
    using stop_waiting [OF ok] by blast
  then show ?thesis using Stop by (intro exI [of _ s'] exI [of _ g']) (simp add: sem_effect_def ups_def)
qed

section \<open>Runs\<close>

lemma over_simps [simp]: "over f [] = []" "over f (x # h) = f x @ over f h"
  by (simp_all add: over_def)

lemma ups_Cons: "ups i (x # h) = ups i [x] + ups i h"
  by (simp add: ups_def)

lemma sem_run_effect:
  "sem_run s h s' \<Longrightarrow> threads_ok s g \<Longrightarrow>
    \<exists>g'. threads_ok s' g' \<and> g_waiting g i @ over (begins_wait i) h = over (wakes i) h @ g_waiting g' i \<and>
      sem_count (th_sems s' i) + of_nat (length (over (passes i) h) + length (over (wakes i) h)) =
        sem_count (th_sems s i) + of_nat (ups i h)"
proof (induction arbitrary: g rule: sem_run.induct)
  case (none s)
  then show ?case by (intro exI [of _ g]) (simp add: ups_def)
next
  case (some op s s1 h s')
  obtain g1 where g1: "threads_ok s1 g1" "sem_effect i s g op s1 g1"
    using sem_step_effect [OF some.prems some.hyps(1)] some.hyps(2) by auto
  obtain g' where g': "threads_ok s' g'"
    "g_waiting g1 i @ over (begins_wait i) h = over (wakes i) h @ g_waiting g' i"
    "sem_count (th_sems s' i) + of_nat (length (over (passes i) h) + length (over (wakes i) h)) =
      sem_count (th_sems s1 i) + of_nat (ups i h)"
    using some.IH [OF g1(1)] by blast
  have w: "g_waiting g i @ begins_wait i (s, op) = wakes i (s, op) @ g_waiting g1 i"
    and n: "sem_count (th_sems s1 i) + of_nat (length (passes i (s, op)) + length (wakes i (s, op))) =
      sem_count (th_sems s i) + of_nat (ups i [(s, op)])"
    using g1(2) by (simp_all add: sem_effect_def)
  have "g_waiting g i @ over (begins_wait i) ((s, op) # h) = over (wakes i) ((s, op) # h) @ g_waiting g' i"
    using arg_cong [OF w, of "\<lambda>xs. xs @ over (begins_wait i) h"] g'(2) by simp
  moreover have "sem_count (th_sems s' i) +
      of_nat (length (over (passes i) ((s, op) # h)) + length (over (wakes i) ((s, op) # h))) =
      sem_count (th_sems s i) + of_nat (ups i ((s, op) # h))"
  proof -
    let ?a = "of_nat (length (passes i (s, op)) + length (wakes i (s, op))) :: u64"
    let ?b = "of_nat (length (over (passes i) h) + length (over (wakes i) h)) :: u64"
    have "sem_count (th_sems s' i) + of_nat (length (over (passes i) ((s, op) # h)) + length (over (wakes i) ((s, op) # h))) =
        (sem_count (th_sems s' i) + ?b) + ?a"
      by (simp add: algebra_simps)
    also have "\<dots> = (sem_count (th_sems s1 i) + ?a) + of_nat (ups i h)"
      unfolding g'(3) by (simp only: add_ac)
    also have "\<dots> = sem_count (th_sems s i) + of_nat (ups i ((s, op) # h))"
      unfolding n ups_Cons [of i "(s, op)" h] by (simp add: add_ac)
    finally show ?thesis .
  qed
  ultimately show ?case using g'(1) by blast
qed

section \<open>The property\<close>

text \<open>
  C21. A semaphore is first come, first served, whatever the threads do. Take the threads that wait at the start, and
  append those that block in \<open>down\<close>, in the order in which they do: this is the list of the threads that \<open>up\<close> has
  woken, in its order, followed by those that still wait. Every \<open>up\<close> is paid for: the count has grown by the number of
  calls of \<open>up\<close> less those that were let pass or woken. The thread that an \<open>up\<close> wakes goes to the end of the ready queue.
\<close>

theorem semaphore_fifo:
  assumes "threads_ok s g" "sem_run s h s'"
  shows "\<exists>g'. threads_ok s' g' \<and> queue_rep (sem_waiting (th_sems s' i)) (th_next s') (g_waiting g' i) \<and>
    g_waiting g i @ over (begins_wait i) h = over (wakes i) h @ g_waiting g' i \<and>
    sem_count (th_sems s' i) + of_nat (length (over (passes i) h) + length (over (wakes i) h)) =
      sem_count (th_sems s i) + of_nat (ups i h) \<and>
    (\<forall>t. fst (queue_remove (sem_waiting (th_sems s' i), th_next s')) = Some t \<longrightarrow>
      (\<exists>s'' g''. sem_up i s' = Inr s'' \<and> threads_ok s'' g'' \<and> g_ready g'' = g_ready g' @ [t]))"
proof -
  obtain g' where g': "threads_ok s' g'" "g_waiting g i @ over (begins_wait i) h = over (wakes i) h @ g_waiting g' i"
    "sem_count (th_sems s' i) + of_nat (length (over (passes i) h) + length (over (wakes i) h)) =
      sem_count (th_sems s i) + of_nat (ups i h)"
    using sem_run_effect [OF assms(2,1)] by blast
  have "\<exists>s'' g''. sem_up i s' = Inr s'' \<and> threads_ok s'' g'' \<and> g_ready g'' = g_ready g' @ [t]"
    if t: "fst (queue_remove (sem_waiting (th_sems s' i), th_next s')) = Some t" for t
  proof (cases "g_waiting g' i")
    case Nil
    then show ?thesis using t by (simp add: waiting_front [OF g'(1)])
  next
    case (Cons u R)
    then have "g_waiting g' i = t # R" using t by (simp add: waiting_front [OF g'(1)])
    then show ?thesis using sem_up_wakes [OF g'(1)] by metis
  qed
  moreover have "queue_rep (sem_waiting (th_sems s' i)) (th_next s') (g_waiting g' i)"
    using g'(1) by (metis threads_ok_def reps_ok_def)
  ultimately show ?thesis using g' by blast
qed

text \<open>
  Thread 7 runs on core 0, thread 8 is ready, the count is zero. 7 waits, so 8 runs and waits too; two calls of \<open>up\<close>
  wake 7, then 8, and a third adds one to the count.
\<close>

fun sem_exec :: "sem_op list \<Rightarrow> kernel \<Rightarrow> ((kernel \<times> sem_op) list \<times> kernel) option" where
  "sem_exec [] s = Some ([], s)"
| "sem_exec (op # ops) s =
     (if sem_legal op s then
        case sem_step op s of
          Inl e \<Rightarrow> None
        | Inr s1 \<Rightarrow> map_option (\<lambda>(h, s'). ((s, op) # h, s')) (sem_exec ops s1)
      else None)"

lemma sem_exec_run: "sem_exec ops s = Some (h, s') \<Longrightarrow> sem_run s h s'"
  by (induction ops arbitrary: s h s') (auto intro: sem_run.intros split: if_splits sum.splits)

lemma demo_ops:
  "case sem_exec [SemDown 0 0, SemDown 0 0, SemUp 0, SemUp 0, SemUp 0] demo_kernel of
     None \<Rightarrow> False
   | Some (h, s') \<Rightarrow> over (begins_wait 0) h = [7, 8] \<and> length (over (wakes 0) h) = 2 \<and> over (passes 0) h = [] \<and> ups 0 h = 3"
  by code_simp

lemma semaphore_fifo_witness:
  "\<exists>h s'. sem_run demo_kernel h s' \<and> over (begins_wait 0) h = [7, 8] \<and> over (wakes 0) h = [7, 8] \<and>
    sem_count (th_sems s' 0) = 1"
proof -
  obtain h s' where h: "sem_exec [SemDown 0 0, SemDown 0 0, SemUp 0, SemUp 0, SemUp 0] demo_kernel = Some (h, s')"
    "over (begins_wait 0) h = [7, 8]" "length (over (wakes 0) h) = 2" "over (passes 0) h = []" "ups 0 h = 3"
    using demo_ops by (auto split: option.splits)
  have run: "sem_run demo_kernel h s'" by (rule sem_exec_run [OF h(1)])
  note F = semaphore_fifo [OF demo_kernel_ok run, of 0]
  have "\<exists>W. [7, 8] = over (wakes 0) h @ W" using F h(2) by auto
  then have "over (wakes 0) h = [7, 8]"
    using h(3) by (metis append_eq_conv_conj length_Cons list.size(3) numeral_2_eq_2 take_all order_refl)
  moreover have "sem_count (th_sems s' 0) = 1"
    using F h(2-5) by (auto simp: demo_kernel_def threads_init_def)
  ultimately show ?thesis using run h(2) by blast
qed

end
