(* ===== verification/User_Heap.thy ===== *)
theory User_Heap
  imports Heap_Alloc "HOL-Library.Signed_Division"
begin

text \<open>
  The heap of the user programs, \<open>nikshita.dir/sbin/heap.c\<close>: the boundary tags and the free list of the kernel
  heap in a static array, but first fit, checks that report nothing, and a \<open>realloc\<close>. The functions that are the
  same as the kernel's, text and all (\<open>size\<close>, \<open>footerFromHeader\<close>, \<open>makeAvail\<close>, \<open>makeTaken\<close>, ...), are those of
  \<open>Heap\<close>, and so is the state.
\<close>

section \<open>The code\<close>

definition INTS :: int where
  "INTS = 0x100000"

text \<open>\<open>sanity\<close> looks for the same damage as the kernel's and returns its argument whatever it finds.\<close>

definition u_sanity :: "heap \<Rightarrow> int \<Rightarrow> int" where
  "u_sanity h i =
     (if h_safe h \<noteq> 0 then
        if i = 0 then 0
        else if i < 0 \<or> i \<ge> h_len h then i
        else
          let footer = footerFromHeader h i in
          if footer < 0 \<or> footer \<ge> h_len h then i
          else
            let hv = h_array h i; fv = h_array h footer in
            if hv \<noteq> fv then i
            else i
      else i)"

definition u_left :: "heap \<Rightarrow> int \<Rightarrow> int" where
  "u_left h i = u_sanity h (headerFromFooter h (i - 1))"

definition u_right :: "heap \<Rightarrow> int \<Rightarrow> int" where
  "u_right h i = u_sanity h (i + heap_size h i)"

definition next1 :: "heap \<Rightarrow> int \<Rightarrow> int" where
  "next1 h i = u_sanity h (h_array h (i + 1))"

definition prev1 :: "heap \<Rightarrow> int \<Rightarrow> int" where
  "prev1 h i = u_sanity h (h_array h (i + 2))"

definition u_remove :: "heap \<Rightarrow> int \<Rightarrow> heap" where
  "u_remove h i =
     (let prevIndex = prev1 h i;
          nextIndex = next1 h i;
          h1 = (if prevIndex = 0 then h\<lparr>h_avail := nextIndex\<rparr> else setNext h prevIndex nextIndex)
      in if nextIndex \<noteq> 0 then setPrev h1 nextIndex prevIndex else h1)"

text \<open>The array is static, so it starts as zeros, at the address the linker gives it.\<close>

definition heap_init :: "u32 \<Rightarrow> heap" where
  "heap_init array =
     (let h0 = \<lparr>h_array = (\<lambda>_. 0), h_len = INTS, h_safe = 1, h_avail = 0, h_base = array\<rparr>
      in makeTaken (makeAvail (makeTaken h0 0 2) 2 (h_len h0 - 4)) (h_len h0 - 2) 2)"

text \<open>The search of \<open>malloc\<close>: the first block that fits, or 0. \<open>None\<close> is a search that does not end.\<close>

partial_function (option) u_search :: "heap \<Rightarrow> int \<Rightarrow> int \<Rightarrow> int option" where
  "u_search h ints p =
     (if p = 0 then Some 0
      else if heap_size h p \<ge> ints then Some p
      else u_search h ints (next1 h p))"

definition u_take :: "heap \<Rightarrow> int \<Rightarrow> int \<Rightarrow> u32 \<times> heap" where
  "u_take h ints p =
     (let sz = heap_size h p;
          h1 = u_remove h p;
          extra = sz - ints;
          h2 = (if extra \<ge> 4 then makeAvail (makeTaken h1 p ints) (p + ints) extra
                else makeTaken h1 p sz)
      in (elem_addr h2 (p + 1), h2))"

definition u_malloc :: "heap \<Rightarrow> u32 \<Rightarrow> (u32 \<times> heap) option" where
  "u_malloc h bytes =
     (if bytes = 0 then Some (h_base h, h)
      else
        let ints = malloc_ints bytes
        in map_option (\<lambda>p. if p = 0 then (0, h) else u_take h ints p) (u_search h ints (h_avail h)))"

text \<open>Pointers are cast to \<open>long\<close> here: the difference is signed, and the division truncates towards zero.\<close>

definition u_index :: "heap \<Rightarrow> u32 \<Rightarrow> int" where
  "u_index h p = sint (p - h_base h) sdiv 4 - 1"

definition u_free :: "heap \<Rightarrow> u32 \<Rightarrow> heap" where
  "u_free h p =
     (if p = 0 then h
      else if p = h_base h then h
      else
        let idx = u_index h p in
        if \<not> isTaken h idx then h
        else
          let sz = heap_size h idx;
              leftIndex = u_left h idx;
              rightIndex = u_right h idx;
              (h1, idx1, sz1) =
                (if isAvail h leftIndex
                 then let h1 = u_remove h leftIndex in (h1, leftIndex, sz + heap_size h1 leftIndex)
                 else (h, idx, sz));
              (h2, sz2) =
                (if isAvail h1 rightIndex
                 then let h2 = u_remove h1 rightIndex in (h2, sz1 + heap_size h2 rightIndex)
                 else (h1, sz1))
          in makeAvail h2 idx1 sz2)"

text \<open>
  \<open>memcpy\<close> of \<open>m\<close> bytes between two places of the array that do not overlap, int by int; of the last int only
  the low bytes are copied when \<open>m\<close> is not a multiple of four.
\<close>

definition merge_int :: "nat \<Rightarrow> int \<Rightarrow> int \<Rightarrow> int" where
  "merge_int k old new =
     sint ((word_of_int old AND NOT (mask (8 * k))) OR (word_of_int new AND mask (8 * k)) :: u32)"

definition copy_int :: "int \<Rightarrow> int \<Rightarrow> nat \<Rightarrow> nat \<Rightarrow> heap \<Rightarrow> heap" where
  "copy_int dst src m j h =
     set_array h (dst + int j)
       (if 4 * (j + 1) \<le> m then h_array h (src + int j)
        else merge_int (m mod 4) (h_array h (dst + int j)) (h_array h (src + int j)))"

definition copy_ints :: "int \<Rightarrow> int \<Rightarrow> nat \<Rightarrow> heap \<Rightarrow> heap" where
  "copy_ints dst src m h = fold (copy_int dst src m) [0..<(m + 3) div 4] h"

definition u_realloc :: "heap \<Rightarrow> u32 \<Rightarrow> u32 \<Rightarrow> (u32 \<times> heap) option" where
  "u_realloc h p newSize =
     (if p = 0 then u_malloc h newSize
      else if newSize = 0 then Some (0, u_free h p)
      else
        let idx = u_index h p in
        if \<not> isTaken h idx then Some (0, h)
        else
          let sz = word_of_int (heap_size h idx * 4) :: u32 in
          map_option (\<lambda>(newPtr, h1).
            let m = (if newSize > sz then sz else newSize);
                h2 = (if newPtr \<noteq> 0
                      then copy_ints (u_index h1 newPtr + 1) (idx + 1) (nat (sint m)) h1
                      else h1)
            in (newPtr, u_free h2 p)) (u_malloc h newSize))"

section \<open>The kernel's operations, without the checks\<close>

text \<open>
  Where the kernel's checks pass, the operations of the two heaps are the same; so what \<open>Heap\<close> shows about a
  heap in order carries over.
\<close>

lemma u_sanity_id [simp]: "u_sanity h i = i"
  by (simp add: u_sanity_def Let_def)

lemma sanity_Inr: "sanity h i = Inr j \<Longrightarrow> j = i"
  by (auto simp: sanity_def Let_def split: if_splits)

lemma u_remove_eq: "heap_remove h i = Inr h' \<Longrightarrow> u_remove h i = h'"
  by (auto simp: heap_remove_def rbind_Inr_conv heap_prev_def heap_next_def u_remove_def prev1_def next1_def Let_def
    dest!: sanity_Inr)

lemma u_take_eq: "malloc_take h ints (heap_size h p) p = Inr r \<Longrightarrow> p \<noteq> 0 \<Longrightarrow> u_take h ints p = r"
  by (auto simp: malloc_take_def u_take_def rbind_Inr_conv Let_def dest!: u_remove_eq)

lemma u_free_eq:
  assumes "heap_free h p = Inr h'" "u_index h p = ptr_index h p"
  shows "u_free h p = h'"
proof (cases "p = 0 \<or> p = h_base h")
  case True
  then show ?thesis using assms(1) by (auto simp: heap_free_def u_free_def split: if_splits)
next
  case False
  then show ?thesis
    using assms
    by (auto simp: heap_free_def u_free_def rbind_Inr_conv Let_def merge_left_def merge_right_def heap_left_def
      heap_right_def u_left_def u_right_def split: if_splits prod.splits dest!: sanity_Inr u_remove_eq)
qed

section \<open>First fit\<close>

text \<open>The free blocks that are large enough, in the order of the list.\<close>

definition fitting :: "heap \<Rightarrow> int \<Rightarrow> int list \<Rightarrow> int list" where
  "fitting h n fl = filter (\<lambda>x. n \<le> h_array h x) fl"

lemma u_search_spec:
  assumes "heap_hole h xs s ys (us @ vs)"
  shows "u_search h n (hd (vs @ [0])) = Some (hd (fitting h n vs @ [0]))"
  using assms
proof (induction vs arbitrary: us)
  case Nil
  then show ?case by (simp add: u_search.simps fitting_def)
next
  case (Cons v vs)
  have L: "next1 h v = hd (vs @ [0])" "v \<noteq> 0"
    using hole_links [OF Cons.prems(1)] by (auto simp: next1_def)
  have "v \<in> set (frees 2 xs) \<or> v \<in> set (frees (2 + span xs + s) ys)"
    using Cons.prems(1) by (auto simp: heap_hole_def)
  then have pos: "h_array h v > 0"
    using Cons.prems(1) frees_pos by (fastforce simp: heap_hole_def)
  show ?case
    using L pos Cons.IH [of "us @ [v]"] Cons.prems(1)
    by (simp add: u_search.simps [of h n v] heap_size_def fitting_def)
qed

lemma u_malloc_spec:
  assumes ok: "heap_ok h bs fl" and "bytes \<noteq> 0"
  shows "fitting h (malloc_ints bytes) fl = [] \<Longrightarrow> u_malloc h bytes = Some (0, h)"
    and "fitting h (malloc_ints bytes) fl = x # cs \<Longrightarrow> \<exists>xs z ys h' fl'. bs = xs @ z # ys \<and> x = 2 + span xs \<and>
       malloc_ints bytes \<le> z \<and> u_malloc h bytes = Some (elem_addr h (3 + span xs), h') \<and>
       heap_ok h' (xs @ carve (malloc_ints bytes) z @ ys) fl' \<and>
       touches fl (2 + span xs) (2 + span xs + z) h h'"
proof -
  let ?n = "malloc_ints bytes"
  have H: "heap_hole h bs 0 [] ([] @ fl)" using ok by (simp add: heap_ok_def)
  have av: "h_avail h = hd (fl @ [0])" using H by (cases fl) (auto simp: heap_hole_def dll_def)
  have scan: "u_search h ?n (h_avail h) = Some (hd (fitting h ?n fl @ [0]))"
    unfolding av by (rule u_search_spec [OF H])
  show "u_malloc h bytes = Some (0, h)" if "fitting h ?n fl = []"
    using that scan assms(2) by (simp add: u_malloc_def Let_def)
  show "\<exists>xs z ys h' fl'. bs = xs @ z # ys \<and> x = 2 + span xs \<and>
       malloc_ints bytes \<le> z \<and> u_malloc h bytes = Some (elem_addr h (3 + span xs), h') \<and>
       heap_ok h' (xs @ carve (malloc_ints bytes) z @ ys) fl' \<and>
       touches fl (2 + span xs) (2 + span xs + z) h h'" if f: "fitting h ?n fl = x # cs"
  proof -
    have "x \<in> set (fitting h ?n fl)" using f by simp
    then have x: "x \<in> set fl" "?n \<le> h_array h x" by (auto simp: fitting_def)
    obtain xs z ys where w: "bs = xs @ z # ys" "x = 2 + span xs" "z = h_array h x" "z > 0"
      by (rule heap_ok_free_block [OF ok x(1)])
    have n: "4 \<le> ?n" "?n \<le> z" using malloc_ints_ge x(2) w(3) by auto
    obtain h' fl' where m: "malloc_take h ?n z (2 + span xs) = Inr (elem_addr h (3 + span xs), h')"
      "heap_ok h' (xs @ carve ?n z @ ys) fl'" "touches fl (2 + span xs) (2 + span xs + z) h h'"
      using malloc_take_spec [OF ok [unfolded w(1)] n] by metis
    have "heap_size h x = z" using w(3,4) by (simp add: heap_size_def)
    moreover have "x \<noteq> 0" using w(2) span_nonneg [of xs] by linarith
    ultimately have "u_take h ?n x = (elem_addr h (3 + span xs), h')"
      using u_take_eq [of h ?n x] m(1) w(2) by simp
    then have "u_malloc h bytes = Some (elem_addr h (3 + span xs), h')"
      using scan f assms(2) \<open>x \<noteq> 0\<close> by (simp add: u_malloc_def Let_def)
    then show ?thesis using w n m by blast
  qed
qed

section \<open>The interface\<close>

lemma u_index_payload:
  assumes ok: "heap_ok h (xs @ z # ys) fl" and len: "h_len h \<le> INTS"
  shows "u_index h (elem_addr h (3 + span xs)) = 2 + span xs"
proof -
  have l: "h_len h = span xs + \<bar>z\<bar> + span ys + 4" using heap_ok_len [OF ok] by simp
  then have b: "4 * (3 + span xs) < 2 ^ 31" "0 \<le> 4 * (3 + span xs)"
    using len span_nonneg [of ys] span_nonneg [of xs] heap_ok_big [OF ok, of z] by (auto simp: INTS_def)
  have "elem_addr h (3 + span xs) - h_base h = word_of_int (4 * (3 + span xs))"
    by (simp add: elem_addr_def)
  then have "sint (elem_addr h (3 + span xs) - h_base h) = 4 * (3 + span xs)"
    using u32_sint [of "4 * (3 + span xs)"] b by (simp only:)
  then show ?thesis using b(2) by (simp add: u_index_def signed_divide_int_def sgn_if)
qed

text \<open>The operations as a client sees them, that names its blocks by index and size.\<close>

definition ualloc :: "u32 \<Rightarrow> heap \<Rightarrow> ((int \<times> int) option \<times> heap) option" where
  "ualloc bytes h =
     map_option (\<lambda>(p, h').
       if p = 0 \<or> p = h_base h then (None, h')
       else let x = u_index h p in (Some (x, - h_array h' x), h')) (u_malloc h bytes)"

definition udealloc :: "int \<times> int \<Rightarrow> heap \<Rightarrow> heap option" where
  "udealloc b h = Some (u_free h (elem_addr h (fst b + 1)))"

lemma ualloc_cases:
  assumes ok: "heap_ok h bs fl" "h_len h \<le> INTS"
  obtains (none) "ualloc bytes h = Some (None, h)" "u_malloc h bytes = Some (if bytes = 0 then h_base h else 0, h)"
  | (some) xs z ys h' fl' where "bs = xs @ z # ys" "malloc_ints bytes \<le> z" "bytes \<noteq> 0"
      "u_malloc h bytes = Some (elem_addr h (3 + span xs), h')"
      "ualloc bytes h = Some (Some (2 + span xs, carved (malloc_ints bytes) z), h')"
      "heap_ok h' (xs @ carve (malloc_ints bytes) z @ ys) fl'"
      "touches fl (2 + span xs) (2 + span xs + z) h h'"
proof (cases "bytes = 0")
  case True
  then show ?thesis using none by (simp add: ualloc_def u_malloc_def)
next
  case False
  show ?thesis
  proof (cases "fitting h (malloc_ints bytes) fl")
    case Nil
    then show ?thesis using u_malloc_spec(1) [OF ok(1) False] none False by (simp add: ualloc_def)
  next
    case (Cons x cs)
    obtain xs z ys h' fl' where w: "bs = xs @ z # ys" "malloc_ints bytes \<le> z"
      "u_malloc h bytes = Some (elem_addr h (3 + span xs), h')"
      "heap_ok h' (xs @ carve (malloc_ints bytes) z @ ys) fl'"
      "touches fl (2 + span xs) (2 + span xs + z) h h'"
      using u_malloc_spec(2) [OF ok(1) False Cons] by blast
    note P = payload_ptr [OF ok(1) [unfolded w(1)]] u_index_payload [OF ok(1) [unfolded w(1)] ok(2)]
    have "tiled (h_array h') (2 + span xs) (carve (malloc_ints bytes) z @ ys)"
      using heap_ok_tiled [OF w(4)] by simp
    then have "h_array h' (2 + span xs) = - carved (malloc_ints bytes) z"
      unfolding carve_head by simp
    then have "ualloc bytes h = Some (Some (2 + span xs, carved (malloc_ints bytes) z), h')"
      using w(3) P by (simp add: ualloc_def Let_def)
    with w False show ?thesis by (intro some)
  qed
qed

lemma u_free_spec:
  assumes ok: "heap_ok h (xs @ z # ys) fl" "h_len h \<le> INTS" and z: "z < 0"
  obtains h' fl' where "u_free h (elem_addr h (3 + span xs)) = h'" "heap_ok h' (coalesce xs (- z) ys) fl'"
    "touches fl (2 + span xs - left_gap xs) (2 + span xs - z + right_gap ys) h h'"
proof -
  obtain h' fl' where "heap_free h (elem_addr h (3 + span xs)) = Inr h'" "heap_ok h' (coalesce xs (- z) ys) fl'"
    "touches fl (2 + span xs - left_gap xs) (2 + span xs - z + right_gap ys) h h'"
    by (rule heap_free_spec [OF ok(1) z])
  then show ?thesis
    using u_free_eq u_index_payload [OF ok] payload_ptr(3) [OF ok(1)] by (intro that) auto
qed

interpretation user_heap: tiled_heap INTS ualloc udealloc
proof (unfold_locales, goal_cases)
  case (1 h bs fl r)
  show ?case by (cases rule: ualloc_cases [OF 1, of r]) auto
next
  case (2 h xs z ys fl)
  obtain h' fl' where "u_free h (elem_addr h (3 + span xs)) = h'" "heap_ok h' (coalesce xs (- z) ys) fl'"
    "touches fl (2 + span xs - left_gap xs) (2 + span xs - z + right_gap ys) h h'"
    by (rule u_free_spec [OF 2])
  then show ?case by (auto simp: udealloc_def)
qed

section \<open>Initialisation and copies\<close>

lemma heap_init_ok:
  assumes "0 < uint array" "uint array + 4 * INTS \<le> 2 ^ 32"
  shows "heap_ok (heap_init array) [INTS - 4] [2]" "h_len (heap_init array) = INTS"
  using assms
  by (auto simp: heap_init_def heap_ok_def heap_hole_def makeTaken_def makeAvail_def INTS_def
      footerFromHeader_def heap_size_def setNext_def setPrev_def set_array_def Let_def dll_def)

abbreviation user_ok :: "heap \<Rightarrow> bool" where
  "user_ok h \<equiv> heap_inv h \<and> h_len h \<le> INTS"

lemma copy_int_store:
  "\<exists>v. copy_int dst src m j h = kstore (dst + int j) v h \<and> (4 * (j + 1) \<le> m \<longrightarrow> v = h_array h (src + int j))"
  by (auto simp: copy_int_def kstore_def)

text \<open>Copying into a live block is a sequence of stores into it.\<close>

lemma copy_into:
  assumes "user_ok h" "b \<in> heap_live h" "\<forall>j < c. dst + int j \<in> payload b"
    and "h' = fold (copy_int dst src m) [0..<c] h"
  shows "user_ok h' \<and> heap_live h' = heap_live h \<and> h_base h' = h_base h \<and>
    (\<forall>k. k \<notin> payload b \<longrightarrow> h_array h' k = h_array h k) \<and>
    (\<forall>j < c. 4 * (j + 1) \<le> m \<longrightarrow> src + int j \<notin> payload b \<longrightarrow> h_array h' (dst + int j) = h_array h (src + int j))"
  using assms(3,4)
proof (induction c arbitrary: h')
  case (Suc c)
  let ?h = "fold (copy_int dst src m) [0..<c] h"
  have IH: "user_ok ?h" "heap_live ?h = heap_live h" "h_base ?h = h_base h"
    "\<And>k. k \<notin> payload b \<Longrightarrow> h_array ?h k = h_array h k"
    "\<And>j. j < c \<Longrightarrow> 4 * (j + 1) \<le> m \<Longrightarrow> src + int j \<notin> payload b \<Longrightarrow>
       h_array ?h (dst + int j) = h_array h (src + int j)"
    using Suc.IH [OF _ refl] Suc.prems(1) by auto
  obtain v where v: "h' = kstore (dst + int c) v ?h" "4 * (c + 1) \<le> m \<Longrightarrow> v = h_array ?h (src + int c)"
    using copy_int_store [of dst src m c ?h] Suc.prems(2) by auto
  have "dst + int c \<in> payload b" using Suc.prems(1) by simp
  then have "user_ok h'" "heap_live h' = heap_live h" "h_array h' = (h_array ?h)(dst + int c := v)"
    using user_heap.store_ok [OF IH(1), of b "dst + int c" v] IH(2) assms(2) v(1) by auto
  moreover have "h_base h' = h_base h" using v(1) IH(3) by (simp add: kstore_def set_array_def)
  ultimately show ?case
    using IH(4,5) v(2) \<open>dst + int c \<in> payload b\<close> by (auto simp: less_Suc_eq)
qed (use assms in simp)

section \<open>realloc\<close>

text \<open>What \<open>realloc\<close> reads of a live block: its index and size.\<close>

lemma live_block:
  assumes ok: "user_ok h" and b: "(x, n) \<in> heap_live h"
  shows "u_index h (elem_addr h (x + 1)) = x" "isTaken h x" "heap_size h x = n" "0 < n" "n < 2 ^ 20"
    "elem_addr h (x + 1) \<noteq> 0" "elem_addr h (x + 1) \<noteq> h_base h"
proof -
  obtain bs fl where hok: "heap_ok h bs fl" using ok by (auto simp: heap_inv_def)
  then have "(x, n) \<in> takens 2 bs" using b heap_live_eq by simp
  then obtain xs ys where w: "bs = xs @ (- n) # ys" "x = 2 + span xs" "0 < n" by (rule takens_split)
  have x1: "x + 1 = 3 + span xs" using w(2) by simp
  note hok' = hok [unfolded w(1)]
  show "u_index h (elem_addr h (x + 1)) = x"
    unfolding x1 using u_index_payload [OF hok'] ok w(2) by simp
  show "elem_addr h (x + 1) \<noteq> 0" "elem_addr h (x + 1) \<noteq> h_base h"
    unfolding x1 using payload_ptr [OF hok'] by auto
  have "h_array h x = - n" using heap_ok_tiled [OF hok'] w(2) by simp
  then show "isTaken h x" "heap_size h x = n" "0 < n" using w(3) by (auto simp: isTaken_def heap_size_def)
  show "n < 2 ^ 20"
    using heap_ok_len [OF hok'] ok w(3) span_nonneg [of xs] span_nonneg [of ys] by (simp add: INTS_def)
qed

lemma copy_length:
  assumes "0 < n" "n < 2 ^ 20" "sz = (word_of_int (n * 4) :: u32)"
  shows "nat (sint (if newSize > sz then sz else newSize)) = min (unat newSize) (nat (4 * n))"
proof -
  have u: "uint sz = 4 * n" unfolding assms(3) by (subst u32_uint) (use assms(1,2) in auto)
  let ?m = "if newSize > sz then sz else newSize"
  have m: "uint ?m = min (uint newSize) (4 * n)" using u by (auto simp: word_less_def)
  then have "uint ?m < 2 ^ 31" using assms(2) by simp
  then have "sint ?m = min (uint newSize) (4 * n)" using m by (simp only: sint_u32 if_True)
  moreover have "nat (min (uint newSize) (4 * n)) = min (unat newSize) (nat (4 * n))"
  proof (cases "uint newSize \<le> 4 * n")
    case True
    then have "unat newSize \<le> nat (4 * n)" unfolding unat_eq_nat_uint by (rule nat_mono)
    then show ?thesis using True by (simp add: min_def)
  next
    case False
    then have "nat (4 * n) \<le> unat newSize" unfolding unat_eq_nat_uint by (intro nat_mono) simp
    then show ?thesis using False by (simp add: min_def)
  qed
  ultimately show ?thesis by simp
qed

lemma ceil_bound: "j < (m + 3) div 4 \<Longrightarrow> 4 * (int j + 1) \<le> int m + 3"
  by presburger

lemma full_below: "4 * (j + 1) \<le> m \<Longrightarrow> j < (m + 3) div (4 :: nat)"
  by presburger

text \<open>The new block, filled and then the only one of the two that stays.\<close>

lemma realloc_copy:
  assumes ok: "user_ok h" and b: "(x, n) \<in> heap_live h"
    and a: "ualloc newSize h = Some (Some (y, k), h1)" and room: "uint newSize \<le> 4 * (k - 2)"
    and h2: "h2 = copy_ints (y + 1) (x + 1) (min (unat newSize) (nat (4 * n))) h1"
  shows "user_ok h2 \<and> (y, k) \<notin> heap_live h \<and> heap_live h2 = insert (y, k) (heap_live h) \<and> h_base h2 = h_base h1 \<and>
    (\<forall>c \<in> heap_live h. \<forall>i \<in> payload c. h_array h2 i = h_array h i) \<and>
    (\<forall>j. int j < n - 2 \<longrightarrow> 4 * (int j + 1) \<le> uint newSize \<longrightarrow>
       y + 1 + int j \<in> payload (y, k) \<and> h_array h2 (y + 1 + int j) = h_array h (x + 1 + int j))"
proof -
  let ?m = "min (unat newSize) (nat (4 * n))"
  have h1: "user_ok h1" "(y, k) \<notin> heap_live h" "heap_live h1 = insert (y, k) (heap_live h)"
    using user_heap.alloc_some [OF ok a] by auto
  have frame: "h_array h1 i = h_array h i" if "c \<in> heap_live h" "i \<in> payload c" for c i
    using user_heap.alloc_frame [OF ok a that] .
  have apart: "i \<notin> payload (y, k)" if "c \<in> heap_live h" "i \<in> payload c" for c i
    using user_heap.disjoint [OF h1(1), of "(y, k)" c] h1(2,3) that by auto
  have in_new: "y + 1 + int j \<in> payload (y, k)" if "4 * (int j + 1) \<le> uint newSize + 3" for j
    using that room by (auto simp: payload_def)
  have "int ?m \<le> int (unat newSize)" by (simp only: of_nat_le_iff min.cobounded1)
  then have "int ?m \<le> uint newSize" by (simp only: uint_nat)
  then have "\<forall>j < (?m + 3) div 4. y + 1 + int j \<in> payload (y, k)"
    by (intro allI impI in_new order_trans [OF ceil_bound]) simp_all
  note C = copy_into [OF h1(1) _ this h2 [unfolded copy_ints_def]]
  have C': "user_ok h2" "heap_live h2 = heap_live h1" "h_base h2 = h_base h1"
    "\<And>i. i \<notin> payload (y, k) \<Longrightarrow> h_array h2 i = h_array h1 i"
    "\<And>j. j < (?m + 3) div 4 \<Longrightarrow> 4 * (j + 1) \<le> ?m \<Longrightarrow> x + 1 + int j \<notin> payload (y, k) \<Longrightarrow>
       h_array h2 (y + 1 + int j) = h_array h1 (x + 1 + int j)"
    using C h1(3) by auto
  have "y + 1 + int j \<in> payload (y, k) \<and> h_array h2 (y + 1 + int j) = h_array h (x + 1 + int j)"
    if j: "int j < n - 2" "4 * (int j + 1) \<le> uint newSize" for j
  proof -
    have old: "x + 1 + int j \<in> payload (x, n)" using j(1) by (auto simp: payload_def)
    have "4 * (j + 1) \<le> unat newSize" using j(2) by (simp only: unat_eq_nat_uint le_nat_iff uint_ge_0) simp
    moreover have "4 * (j + 1) \<le> nat (4 * n)" using j(1) by simp
    ultimately have "4 * (j + 1) \<le> ?m" by (simp only: min.bounded_iff)
    moreover from this have "j < (?m + 3) div 4" by (rule full_below)
    ultimately have "h_array h2 (y + 1 + int j) = h_array h1 (x + 1 + int j)"
      using apart [OF b old] by (intro C'(5))
    then show ?thesis using in_new [of j] j frame [OF b old] by simp
  qed
  moreover have "h_array h2 i = h_array h i" if "c \<in> heap_live h" "i \<in> payload c" for c i
    using C'(4) [OF apart [OF that]] frame [OF that] by simp
  ultimately show ?thesis using C'(1-3) h1(2,3) by blast
qed

lemma u_free_live:
  assumes "user_ok h" "b \<in> heap_live h"
  shows "user_ok (u_free h (elem_addr h (fst b + 1)))"
    "heap_live (u_free h (elem_addr h (fst b + 1))) = heap_live h - {b}"
    "\<forall>c \<in> heap_live h - {b}. \<forall>k \<in> payload c. h_array (u_free h (elem_addr h (fst b + 1))) k = h_array h k"
  using user_heap.dealloc_ok [OF assms] by (auto simp: udealloc_def)

lemma u_free_base:
  assumes "user_ok h" "b \<in> heap_live h"
  shows "h_base (u_free h (elem_addr h (fst b + 1))) = h_base h"
proof -
  obtain bs fl where ok: "heap_ok h bs fl" using assms(1) by (auto simp: heap_inv_def)
  then have "b \<in> takens 2 bs" using assms(2) heap_live_eq by simp
  then obtain h' fl' xs z ys where
    "udealloc b h = Some h'" "touches fl (2 + span xs - left_gap xs) (2 + span xs - z + right_gap ys) h h'"
    using user_heap.dealloc_live [OF ok] assms(1) by metis
  then show ?thesis by (auto simp: udealloc_def touches_def)
qed

section \<open>Properties\<close>

text \<open>
  C32. The user heap through any fair trace of \<open>malloc\<close>, \<open>free\<close> and stores, from its initial state on: no operation
  fails, the tiling invariant holds, and a block that the trace neither frees nor writes stays live
  with its contents.
\<close>

theorem user_heap_trace:
  assumes "user_ok h" "fair_run heap_live payload ualloc udealloc kstore ops h"
    and "b \<in> heap_live h" "list_all (spares b) ops"
  shows "(0 < uint array \<and> uint array + 4 * INTS \<le> 2 ^ 32 \<longrightarrow> user_ok (heap_init array)) \<and>
    (\<exists>h'. client_run ualloc udealloc kstore ops h = Some h' \<and> user_ok h' \<and>
       b \<in> heap_live h' \<and> (\<forall>k \<in> payload b. h_array h' k = h_array h k))"
  using heap_init_ok [of array] user_heap.run_spares [OF assms] by (auto simp: heap_inv_def)

text \<open>
  \<open>malloc\<close> is first fit: it takes the first block of the free list that is large enough, splits it when the
  rest is at least four ints, and returns null, changing nothing, when there is none.
\<close>

theorem user_malloc_first_fit:
  assumes "heap_ok h bs fl" "bytes \<noteq> 0"
  shows "case fitting h (malloc_ints bytes) fl of
      [] \<Rightarrow> u_malloc h bytes = Some (0, h)
    | x # _ \<Rightarrow> \<exists>xs z ys h' fl'. bs = xs @ z # ys \<and> x = 2 + span xs \<and> malloc_ints bytes \<le> z \<and>
        u_malloc h bytes = Some (elem_addr h (x + 1), h') \<and>
        heap_ok h' (xs @ carve (malloc_ints bytes) z @ ys) fl' \<and> touches fl x (x + z) h h'"
proof (cases "fitting h (malloc_ints bytes) fl")
  case Nil
  then show ?thesis using u_malloc_spec(1) [OF assms] by simp
next
  case (Cons x cs)
  then show ?thesis
    using u_malloc_spec(2) [OF assms Cons] by (fastforce simp: add.commute add.left_commute)
qed

text \<open>
  \<open>realloc\<close> of a live block to a size that \<open>malloc\<close> does not wrap. If there is room it returns a new block of
  at least that size which holds every whole int of the old contents that fits; the old block is freed and all others
  keep their contents. If there is none it returns null, and has freed the old block all the same.
\<close>

theorem realloc_moves:
  assumes ok: "user_ok h" and b: "(x, n) \<in> heap_live h" and sz: "newSize \<noteq> 0" "newSize \<le> 0xFFFFFFFC"
  shows "\<exists>q h'. u_realloc h (elem_addr h (x + 1)) newSize = Some (q, h') \<and> user_ok h' \<and>
    (if q = 0 then heap_live h' = heap_live h - {(x, n)}
     else \<exists>y k. q = elem_addr h' (y + 1) \<and> (y, k) \<notin> heap_live h \<and>
       heap_live h' = insert (y, k) (heap_live h - {(x, n)}) \<and> uint newSize \<le> 4 * (k - 2) \<and>
       (\<forall>j. int j < n - 2 \<longrightarrow> 4 * (int j + 1) \<le> uint newSize \<longrightarrow>
          h_array h' (y + 1 + int j) = h_array h (x + 1 + int j))) \<and>
    (\<forall>c \<in> heap_live h - {(x, n)}. \<forall>i \<in> payload c. h_array h' i = h_array h i)"
proof -
  let ?p = "elem_addr h (x + 1)" and ?m = "min (unat newSize) (nat (4 * n))"
  note L = live_block [OF ok b]
  obtain bs fl where hok: "heap_ok h bs fl" "h_len h \<le> INTS" using ok by (auto simp: heap_inv_def)
  show ?thesis
  proof (cases rule: ualloc_cases [OF hok, of newSize])
    case 1
    then have "u_malloc h newSize = Some (0, h)" using sz(1) by simp
    then have "u_realloc h ?p newSize = Some (0, u_free h ?p)"
      using L(1,2,6) sz(1) by (simp add: u_realloc_def Let_def)
    then show ?thesis using u_free_live [OF ok b] by simp
  next
    case (2 xs z ys h1 fl')
    let ?y = "2 + span xs" and ?k = "carved (malloc_ints newSize) z"
    let ?q = "elem_addr h (?y + 1)"
    define h2 where "h2 = copy_ints (?y + 1) (x + 1) ?m h1"
    have q: "u_malloc h newSize = Some (?q, h1)" "?q \<noteq> 0" "u_index h ?q = ?y"
      using 2(4) payload_ptr(1) [OF hok(1) [unfolded 2(1)]] u_index_payload [OF hok(1) [unfolded 2(1)] hok(2)]
      by (simp_all add: add.commute)
    have base: "h_base h1 = h_base h" using 2(7) by (simp add: touches_def)
    then have same: "u_index h1 = u_index h" "elem_addr h1 = elem_addr h"
      by (intro ext; simp add: u_index_def elem_addr_def)+
    have room: "uint newSize \<le> 4 * (?k - 2)"
      using malloc_ints_room [OF sz(2)] carved_bounds [OF malloc_ints_ge 2(2)] by auto
    note C = realloc_copy [OF ok b 2(5) room h2_def]
    have live2: "(x, n) \<in> heap_live h2" and ok2: "user_ok h2" using C b by auto
    have base2: "elem_addr h2 = elem_addr h"
      using C base by (intro ext) (simp add: elem_addr_def)
    have "u_realloc h ?p newSize = Some (?q, u_free h2 ?p)"
      by (simp only: u_realloc_def Let_def L q same sz(1) if_False if_True option.map prod.case simp_thms
        copy_length [OF L(4,5) refl] h2_def)
    moreover have f: "user_ok (u_free h2 ?p)" "heap_live (u_free h2 ?p) = heap_live h2 - {(x, n)}"
      "\<And>c i. c \<in> heap_live h2 - {(x, n)} \<Longrightarrow> i \<in> payload c \<Longrightarrow> h_array (u_free h2 ?p) i = h_array h2 i"
      using u_free_live [OF ok2 live2] base2 by auto
    moreover have "heap_live (u_free h2 ?p) = insert (?y, ?k) (heap_live h - {(x, n)})"
      using f(2) C b by auto
    moreover have "h_array (u_free h2 ?p) i = h_array h i" if "c \<in> heap_live h - {(x, n)}" "i \<in> payload c" for c i
      using f(3) [of c i] C that by auto
    moreover have "h_array (u_free h2 ?p) (?y + 1 + int j) = h_array h (x + 1 + int j)"
      if "int j < n - 2" "4 * (int j + 1) \<le> uint newSize" for j
    proof -
      have "?y + 1 + int j \<in> payload (?y, ?k)" "h_array h2 (?y + 1 + int j) = h_array h (x + 1 + int j)"
        using C that by blast+
      moreover have "(?y, ?k) \<in> heap_live h2 - {(x, n)}" using C b by auto
      ultimately show ?thesis using f(3) by metis
    qed
    moreover have "?q = elem_addr (u_free h2 ?p) (?y + 1)"
      using u_free_base [OF ok2 live2] base2 C base by (simp add: elem_addr_def)
    moreover have "(?y, ?k) \<notin> heap_live h" using C by blast
    ultimately show ?thesis using q(2) room by (metis (no_types, lifting))
  qed
qed

text \<open>The heap of \<open>Heap_Alloc\<close> with two live blocks serves as an example here too.\<close>

lemma demo_held_user: "user_ok demo_held"
  using demo_held_ok by (auto simp: heap_inv_def INTS_def demo_held_def demo_heap_def)

lemma user_heap_trace_witness:
  "user_ok (heap_init 0x10000) \<and>
    (\<exists>h'. client_run ualloc udealloc kstore [Dealloc (2, 6), Alloc 100] demo_held = Some h' \<and> (8, 6) \<in> heap_live h')"
proof -
  have "fair_run heap_live payload ualloc udealloc kstore [Dealloc (2, 6), Alloc 100] demo_held"
    by (simp add: demo_held_live split: option.split)
  then show ?thesis
    using user_heap_trace [OF demo_held_user, of "[Dealloc (2, 6), Alloc 100]" "(8, 6)" "0x10000"]
    by (auto simp: demo_held_live INTS_def)
qed

lemma user_malloc_first_fit_witness: "\<exists>h'. u_malloc demo_held 8 = Some (0x103C, h')"
proof -
  have "malloc_ints 8 = 4" by (simp add: malloc_ints_def)
  moreover have "h_array demo_held 14 = 16" using heap_ok_tiled [OF demo_held_ok] by simp
  ultimately have "fitting demo_held (malloc_ints 8) [14] = [14]" by (simp add: fitting_def)
  moreover have "elem_addr demo_held 15 = 0x103C" by (simp add: elem_addr_def demo_held_def)
  ultimately show ?thesis using user_malloc_first_fit [OF demo_held_ok, of 8] by auto
qed

lemma realloc_moves_witness:
  "\<exists>q h'. u_realloc demo_held 0x1024 8 = Some (q, h') \<and> user_ok h' \<and> (2, 6) \<in> heap_live h'"
proof -
  have "elem_addr demo_held (8 + 1) = 0x1024" by (simp add: elem_addr_def demo_held_def)
  then show ?thesis
    using realloc_moves [OF demo_held_user, of 8 6 8] by (auto simp: demo_held_live split: if_splits)
qed

end
