(* ===== verification/Fork.thy ===== *)
theory Fork
  imports VMM Process
begin

text \<open>
  The copy of the address space in \<open>Process::fork\<close> (\<open>kernel/process.cc\<close>): the child gets a page directory from
  \<open>make_pd\<close>, and for every private page of the parent a fresh frame with the same contents.
\<close>

section \<open>The code\<close>

text \<open>The two loops, over the entries of one page table and over the upper half of the directory.\<close>

fun fork_ptes :: "u32 \<Rightarrow> u32 \<Rightarrow> u32 list \<Rightarrow> phys \<Rightarrow> phys res" where
  "fork_ptes parent_pt child_pt [] s = Inr s"
| "fork_ptes parent_pt child_pt (pti # ptis) s =
     (let child_pte = read32 s (child_pt + 4 * pti) in
      if child_pte AND 1 = 1 then fork_ptes parent_pt child_pt ptis s
      else
        let parent_pte = read32 s (parent_pt + 4 * pti) in
        if parent_pte AND 1 = 0 then fork_ptes parent_pt child_pt ptis s
        else
          let parent_frame = parent_pte AND 0xFFFFF000 in
          rbind (alloc_frame s) (\<lambda>(child_frame, s1).
          let s2 = copy_words child_frame parent_frame (unat FRAME_SIZE div 4) s1;
              s3 = write32 (child_pt + 4 * pti) (child_frame OR 7) s2
          in fork_ptes parent_pt child_pt ptis s3))"

definition child_table :: "u32 \<Rightarrow> u32 \<Rightarrow> phys \<Rightarrow> (u32 \<times> phys) res" where
  "child_table child_pd pdi s =
     (let child_pde = read32 s (child_pd + 4 * pdi) in
      if child_pde AND 1 = 0 then
        rbind (alloc_frame s) (\<lambda>(child_pt, s1). Inr (child_pt, write32 (child_pd + 4 * pdi) (child_pt OR 7) s1))
      else Inr (child_pde AND 0xFFFFF000, s))"

fun fork_pdes :: "u32 \<Rightarrow> u32 \<Rightarrow> u32 list \<Rightarrow> phys \<Rightarrow> phys res" where
  "fork_pdes pd child_pd [] s = Inr s"
| "fork_pdes pd child_pd (pdi # pdis) s =
     (let parent_pde = read32 s (pd + 4 * pdi) in
      if parent_pde AND 1 = 0 then fork_pdes pd child_pd pdis s
      else
        let parent_pt = parent_pde AND 0xFFFFF000 in
        rbind (child_table child_pd pdi s) (\<lambda>(child_pt, s1).
        rbind (fork_ptes parent_pt child_pt (map word_of_nat [0..<1024]) s1) (\<lambda>s2.
        fork_pdes pd child_pd pdis s2)))"

text \<open>\<open>shared_pd\<close> is the directory of the kernel's half, \<open>gheith::shared\<close>.\<close>

definition fork_space :: "Config \<Rightarrow> u32 \<Rightarrow> u32 \<Rightarrow> phys \<Rightarrow> (u32 \<times> phys) res" where
  "fork_space c shared_pd pd s =
     rbind (make_pd c shared_pd s) (\<lambda>(child_pd, s1).
     rbind (fork_pdes pd child_pd (map word_of_nat [512..<1024]) s1) (\<lambda>s2.
     Inr (child_pd, s2)))"

text \<open>
  \<open>Process::fork\<close>: nothing happens without a free child slot; otherwise the child is made, its memory copied and
  its tables filled. The result is the id, the child, the parent and the memory.
\<close>

definition process_fork :: "Config \<Rightarrow> u32 \<Rightarrow> nat \<Rightarrow> process \<Rightarrow> phys \<Rightarrow> (u32 \<times> process option \<times> process \<times> phys) res" where
  "process_fork c shared_pd out p s =
     (if free_slot 0 (p_children p) = None then Inr (-1, None, p, s)
      else rbind (fork_space c shared_pd (p_pd p) s) (\<lambda>(child_pd, s1).
        let (id, child, p1) = fork_tables out child_pd p in Inr (id, child, p1, s1)))"

section \<open>Memory frame by frame\<close>

text \<open>Word \<open>i\<close> of the frame \<open>p\<close>.\<close>

definition fw :: "phys \<Rightarrow> u32 \<Rightarrow> u32 \<Rightarrow> u32" where
  "fw s p i = pm_mem s (p + 4 * i)"

lemma pte_addr_aligned: "offset (pte_addr e) = 0"
proof -
  have "(0xFFFFF000 AND 0xFFF :: u32) = 0" by simp
  then show ?thesis by (simp only: pte_addr_def offset_def and.assoc and_zero_eq)
qed

lemma fw_write:
  assumes "offset p = 0" "i < 1024" "offset q = 0" "j < 1024"
  shows "fw (write32 (p + 4 * i) v s) q j = (if q = p \<and> j = i then v else fw s q j)"
proof (cases "q = p")
  case True
  then show ?thesis using slot_inject [OF assms(1,4,2)] by (simp add: fw_def)
next
  case False
  then show ?thesis using slot_disjoint [OF assms(3,1) _ assms(4,2)] by (simp add: fw_def)
qed

lemma fw_alloc:
  assumes "phys_inv lo s" "alloc_frame s = Inr (f, s1)"
  shows "phys_inv lo s1" "f \<notin> held_frames lo s" "held_frames lo s1 = insert f (held_frames lo s)" "offset f = 0"
    and "\<And>q j. offset q = 0 \<Longrightarrow> j < 1024 \<Longrightarrow> fw s1 q j = (if q = f then 0 else fw s q j)"
proof -
  obtain fl where ok: "phys_ok lo s fl" using assms(1) by (auto simp: phys_inv_def)
  obtain fl' where f: "phys_ok lo s1 fl'" "f \<notin> held_frames lo s"
    "held_frames lo s1 = insert f (held_frames lo s)" "offset f = 0"
    and mem: "pm_mem s1 = (\<lambda>a. if a \<in> frame_words f then 0 else pm_mem s a)"
    by (rule alloc_frame_held [OF ok assms(2)]) blast
  show "phys_inv lo s1" "f \<notin> held_frames lo s" "held_frames lo s1 = insert f (held_frames lo s)" "offset f = 0"
    using f by (auto simp: phys_inv_def)
  show "fw s1 q j = (if q = f then 0 else fw s q j)" if "offset q = 0" "j < 1024" for q j
    using slot_in_frame [OF that] frame_words_disjoint [OF that(1) f(4)] by (auto simp: fw_def mem)
qed

text \<open>Copying the first \<open>n\<close> words of a frame to another held one.\<close>

lemma copy_words_last: "copy_words d src (Suc n) s =
    write32 (d + 4 * of_nat n) (read32 (copy_words d src n s) (src + 4 * of_nat n)) (copy_words d src n s)"
proof (induction n arbitrary: d src s)
  case (Suc n)
  let ?s1 = "write32 d (read32 s src) s"
  have "copy_words d src (Suc (Suc n)) s = copy_words (d + 4) (src + 4) (Suc n) ?s1" by (rule copy_words.simps)
  also have "\<dots> = write32 (d + 4 + 4 * of_nat n) (read32 (copy_words (d + 4) (src + 4) n ?s1) (src + 4 + 4 * of_nat n))
      (copy_words (d + 4) (src + 4) n ?s1)"
    by (rule Suc.IH)
  also have "copy_words (d + 4) (src + 4) n ?s1 = copy_words d src (Suc n) s" by (rule copy_words.simps [symmetric])
  finally show ?case by (simp only: of_nat_Suc distrib_left mult_1_right add.assoc)
qed simp

lemma small_slot: "n < 1024 \<Longrightarrow> (of_nat n :: u32) < 1024"
  by (simp add: word_less_nat_alt unat_of_nat)

lemma copy_words_fw:
  assumes "phys_inv lo s" "f \<in> held_frames lo s" "offset src = 0" "src \<noteq> f" "n \<le> 1024"
  shows "phys_inv lo (copy_words f src n s) \<and> held_frames lo (copy_words f src n s) = held_frames lo s \<and>
    (\<forall>q j. offset q = 0 \<longrightarrow> j < 1024 \<longrightarrow>
       fw (copy_words f src n s) q j = (if q = f \<and> unat j < n then fw s src j else fw s q j))"
  using assms(5)
proof (induction n)
  case (Suc n)
  define t where "t = copy_words f src n s"
  note of = held_offset [OF assms(2)]
  have n: "(of_nat n :: u32) < 1024" "unat (of_nat n :: u32) = n"
    using Suc.prems small_slot by (auto simp: unat_of_nat)
  have IH: "phys_inv lo t" "held_frames lo t = held_frames lo s"
    "\<And>q j. offset q = 0 \<Longrightarrow> j < 1024 \<Longrightarrow> fw t q j = (if q = f \<and> unat j < n then fw s src j else fw s q j)"
    using Suc unfolding t_def by auto
  have v: "read32 t (src + 4 * of_nat n) = fw s src (of_nat n)"
    using IH(3) [OF assms(3) n(1)] assms(4) by (simp add: fw_def read32_def)
  have step: "copy_words f src (Suc n) s = write32 (f + 4 * of_nat n) (fw s src (of_nat n)) t"
    by (simp only: copy_words_last v flip: t_def)
  have "fw (write32 (f + 4 * of_nat n) (fw s src (of_nat n)) t) q j =
      (if q = f \<and> unat j < Suc n then fw s src j else fw s q j)"
    if q: "offset q = 0" "j < 1024" for q j
  proof -
    have "j = of_nat n \<longleftrightarrow> unat j = n" using n(2) by (metis word_unat_eq_iff)
    then show ?thesis
      unfolding fw_write [OF of n(1) q] IH(3) [OF q] by (cases "q = f") (auto simp: less_Suc_eq)
  qed
  then show ?case
    using held_write [OF IH(1) _ of n(1)] assms(2) IH(2) unfolding step by simp
qed (use assms(1) in \<open>simp add: fw_def\<close>)

section \<open>One page table\<close>

text \<open>
  What happens to an entry: where the parent has a page and the child has none, the child gets a
  frame that was free, with the contents of the parent's; every other entry stays.
\<close>

definition needs_copy :: "u32 \<Rightarrow> u32 \<Rightarrow> bool" where
  "needs_copy old par \<longleftrightarrow> old AND 1 = 0 \<and> par AND 1 \<noteq> 0"

definition page_copied :: "u32 \<Rightarrow> phys \<Rightarrow> phys \<Rightarrow> u32 \<Rightarrow> u32 \<Rightarrow> u32 \<Rightarrow> bool" where
  "page_copied lo s s' old par new \<longleftrightarrow>
     (if needs_copy old par
      then \<exists>g. g \<in> held_frames lo s' \<and> g \<notin> held_frames lo s \<and> new = g OR 7 \<and>
             (\<forall>j < 1024. fw s' g j = fw s (pte_addr par) j)
      else new = old)"

definition keeps_frames :: "u32 \<Rightarrow> u32 set \<Rightarrow> phys \<Rightarrow> phys \<Rightarrow> bool" where
  "keeps_frames lo X s s' \<longleftrightarrow> phys_inv lo s' \<and> held_frames lo s \<subseteq> held_frames lo s' \<and>
     (\<forall>q \<in> held_frames lo s. q \<notin> X \<longrightarrow> (\<forall>j < 1024. fw s' q j = fw s q j))"

definition table_copied :: "u32 \<Rightarrow> u32 \<Rightarrow> u32 \<Rightarrow> u32 set \<Rightarrow> phys \<Rightarrow> phys \<Rightarrow> bool" where
  "table_copied lo pt ct I s s' \<longleftrightarrow> keeps_frames lo {ct} s s' \<and>
     (\<forall>i < 1024. if i \<in> I then page_copied lo s s' (fw s ct i) (fw s pt i) (fw s' ct i) else fw s' ct i = fw s ct i) \<and>
     (\<forall>i \<in> I. \<forall>k \<in> I. needs_copy (fw s ct i) (fw s pt i) \<and> needs_copy (fw s ct k) (fw s pt k) \<and>
        pte_addr (fw s' ct i) = pte_addr (fw s' ct k) \<longrightarrow> i = k) \<and>
     held_frames lo s' \<subseteq> held_frames lo s \<union> {pte_addr (fw s' ct k) | k. k \<in> I \<and> needs_copy (fw s ct k) (fw s pt k)}"

lemma and_one_cases: "(x :: u32) AND 1 = 1 \<longleftrightarrow> x AND 1 \<noteq> 0"
  by (simp add: and_one_eq odd_iff_mod_2_eq_one)

lemma page_copied_later:
  assumes c: "page_copied lo s1 s' old par new" and k: "keeps_frames lo X s s1"
    and p: "needs_copy old par \<Longrightarrow> pte_addr par \<in> held_frames lo s \<and> pte_addr par \<notin> X"
  shows "page_copied lo s s' old par new"
  using assms unfolding page_copied_def keeps_frames_def by (auto split: if_splits)

lemma page_copied_kept:
  assumes c: "page_copied lo s s1 old par new" and k: "keeps_frames lo X s1 s'"
    and x: "X \<subseteq> held_frames lo s"
  shows "page_copied lo s s' old par new"
proof (cases "needs_copy old par")
  case True
  then obtain g where g: "g \<in> held_frames lo s1" "g \<notin> held_frames lo s" "new = g OR 7"
    "\<forall>j < 1024. fw s1 g j = fw s (pte_addr par) j" using c by (auto simp: page_copied_def)
  moreover have "g \<notin> X" using g(2) x by blast
  ultimately show ?thesis using True k unfolding page_copied_def keeps_frames_def by (auto intro!: exI [of _ g])
qed (use c in \<open>simp add: page_copied_def\<close>)

lemma keeps_frames_trans:
  "keeps_frames lo X s s1 \<Longrightarrow> keeps_frames lo Y s1 s2 \<Longrightarrow> Y \<inter> held_frames lo s \<subseteq> X \<Longrightarrow> keeps_frames lo X s s2"
  unfolding keeps_frames_def by (auto simp: subset_iff)

text \<open>The body of the inner loop.\<close>

lemma copy_page:
  assumes inv: "phys_inv lo s" and ct: "ct \<in> held_frames lo s" and i: "i < 1024"
    and p: "p \<in> held_frames lo s" "p \<noteq> ct" and a: "alloc_frame s = Inr (f, s1)"
  defines "s3 \<equiv> write32 (ct + 4 * i) (f OR 7) (copy_words f p (unat FRAME_SIZE div 4) s1)"
  shows "keeps_frames lo {ct} s s3" "f \<in> held_frames lo s3" "f \<notin> held_frames lo s" "offset f = 0"
    and "fw s3 ct i = f OR 7" "\<And>k. k < 1024 \<Longrightarrow> k \<noteq> i \<Longrightarrow> fw s3 ct k = fw s ct k"
    and "\<And>j. j < 1024 \<Longrightarrow> fw s3 f j = fw s p j" "held_frames lo s3 = insert f (held_frames lo s)"
proof -
  note A = fw_alloc [OF inv a] and oc = held_offset [OF ct] and op = held_offset [OF p(1)]
  have n: "unat FRAME_SIZE div 4 \<le> 1024" by (simp add: FRAME_SIZE_def)
  have all: "unat j < unat FRAME_SIZE div 4" if "j < 1024" for j :: u32
    using that by (simp add: FRAME_SIZE_def word_less_nat_alt)
  let ?s2 = "copy_words f p (unat FRAME_SIZE div 4) s1"
  have "f \<noteq> p" "f \<noteq> ct" using A(2) p ct by auto
  have C: "phys_inv lo ?s2" "held_frames lo ?s2 = insert f (held_frames lo s)"
    "\<And>q j. offset q = 0 \<Longrightarrow> j < 1024 \<Longrightarrow> fw ?s2 q j = (if q = f then fw s p j else fw s q j)"
    using copy_words_fw [OF A(1) _ op _ n] A(3,5) op \<open>f \<noteq> p\<close> all by auto
  have W: "phys_inv lo s3" "held_frames lo s3 = insert f (held_frames lo s)"
    using held_write [OF C(1) _ oc i] C(2) ct unfolding s3_def by auto
  have F: "fw s3 q j = (if q = ct \<and> j = i then f OR 7 else if q = f then fw s p j else fw s q j)"
    if "offset q = 0" "j < 1024" for q j
    using fw_write [OF oc i that] C(3) [OF that] unfolding s3_def by auto
  show "keeps_frames lo {ct} s s3"
    using W F held_offset A(2) unfolding keeps_frames_def by auto
  show "f \<in> held_frames lo s3" "f \<notin> held_frames lo s" "offset f = 0" "held_frames lo s3 = insert f (held_frames lo s)"
    using W A by auto
  show "fw s3 ct i = f OR 7" "\<And>k. k < 1024 \<Longrightarrow> k \<noteq> i \<Longrightarrow> fw s3 ct k = fw s ct k"
    "\<And>j. j < 1024 \<Longrightarrow> fw s3 f j = fw s p j"
    using F oc A(4) i \<open>f \<noteq> ct\<close> by auto
qed

lemma fork_ptes_ok:
  assumes "phys_inv lo s" "ct \<in> held_frames lo s" "pt \<in> held_frames lo s" "pt \<noteq> ct"
    and "distinct xs" "\<forall>i \<in> set xs. i < 1024"
    and "\<forall>i \<in> set xs. needs_copy (fw s ct i) (fw s pt i) \<longrightarrow>
      pte_addr (fw s pt i) \<in> held_frames lo s \<and> pte_addr (fw s pt i) \<noteq> ct"
  shows "fork_ptes pt ct xs s = Inl (Panic ''no more frames'') \<or>
    (\<exists>s'. fork_ptes pt ct xs s = Inr s' \<and> table_copied lo pt ct (set xs) s s')"
  using assms
proof (induction xs arbitrary: s)
  case Nil
  then show ?case by (simp add: table_copied_def keeps_frames_def)
next
  case (Cons i xs)
  have i: "i < 1024" "i \<notin> set xs" using Cons.prems by auto
  show ?case
  proof (cases "needs_copy (fw s ct i) (fw s pt i)")
    case False
    then have e: "fork_ptes pt ct (i # xs) s = fork_ptes pt ct xs s"
      by (auto simp: needs_copy_def fw_def read32_def and_one_cases Let_def)
    have "table_copied lo pt ct (set (i # xs)) s s'" if "table_copied lo pt ct (set xs) s s'" for s'
      using that False i unfolding table_copied_def by (auto simp: page_copied_def)
    then show ?thesis
      unfolding e using Cons.IH [OF Cons.prems(1-4)] Cons.prems(5-7) by auto
  next
    case True
    let ?p = "pte_addr (fw s pt i)"
    have p: "?p \<in> held_frames lo s" "?p \<noteq> ct" using Cons.prems(7) True by auto
    obtain fl where ok: "phys_ok lo s fl" using Cons.prems(1) by (auto simp: phys_inv_def)
    show ?thesis
    proof (cases "alloc_frame s")
      case (Inl e)
      then have "e = Panic ''no more frames''" by (cases rule: alloc_frame_ok [OF ok]) auto
      then show ?thesis
        using Inl True by (simp add: needs_copy_def fw_def read32_def and_one_cases Let_def)
    next
      case (Inr q)
      then obtain f s1 where a: "alloc_frame s = Inr (f, s1)" by (cases q) auto
      define s3 where "s3 = write32 (ct + 4 * i) (f OR 7) (copy_words f ?p (unat FRAME_SIZE div 4) s1)"
      have e: "fork_ptes pt ct (i # xs) s = fork_ptes pt ct xs s3"
        using a True by (simp add: s3_def needs_copy_def fw_def read32_def pte_addr_def and_one_cases Let_def)
      note P = copy_page [OF Cons.prems(1,2) i(1) p a, folded s3_def]
      have K: "held_frames lo s \<subseteq> held_frames lo s3" "phys_inv lo s3"
        "\<And>q j. q \<in> held_frames lo s \<Longrightarrow> q \<noteq> ct \<Longrightarrow> j < 1024 \<Longrightarrow> fw s3 q j = fw s q j"
        using P(1) unfolding keeps_frames_def by auto
      have same: "fw s3 pt k = fw s pt k" if "k < 1024" for k
        using K(3) [OF Cons.prems(3,4) that] .
      have rest: "fw s3 ct k = fw s ct k" "fw s3 pt k = fw s pt k" if "k \<in> set xs" for k
        using that i Cons.prems(6) P(6) same by auto
      have "table_copied lo pt ct (set (i # xs)) s s'" if t: "table_copied lo pt ct (set xs) s3 s'" for s'
      proof -
        have k: "keeps_frames lo {ct} s3 s'" and ent: "\<And>k. k < 1024 \<Longrightarrow> if k \<in> set xs
            then page_copied lo s3 s' (fw s3 ct k) (fw s3 pt k) (fw s' ct k) else fw s' ct k = fw s3 ct k"
          and inj: "\<And>k l. k \<in> set xs \<Longrightarrow> l \<in> set xs \<Longrightarrow> needs_copy (fw s ct k) (fw s pt k) \<Longrightarrow>
            needs_copy (fw s ct l) (fw s pt l) \<Longrightarrow> pte_addr (fw s' ct k) = pte_addr (fw s' ct l) \<Longrightarrow> k = l"
          using t rest unfolding table_copied_def by auto
        have ctf: "fw s' ct i = f OR 7" using ent [OF i(1)] i(2) P(5) by simp
        have head: "page_copied lo s s' (fw s ct i) (fw s pt i) (fw s' ct i)"
          using True ctf k P(2,3,7) Cons.prems(2) unfolding page_copied_def keeps_frames_def
          by (intro iffD2 [OF if_P] exI [of _ f]) auto
        have tail: "page_copied lo s s' (fw s ct k) (fw s pt k) (fw s' ct k)" if "k \<in> set xs" for k
          using ent [of k] that rest [OF that] page_copied_later [OF _ P(1)] Cons.prems(6,7) by auto
        have fresh: "pte_addr (fw s' ct k) \<noteq> f" if nc: "k \<in> set xs" "needs_copy (fw s ct k) (fw s pt k)" for k
        proof -
          have "page_copied lo s3 s' (fw s ct k) (fw s pt k) (fw s' ct k)"
            using ent [of k] nc rest [OF nc(1)] Cons.prems(6) by auto
          then obtain g where "g \<in> held_frames lo s'" "g \<notin> held_frames lo s3" "fw s' ct k = g OR 7"
            using nc(2) by (auto simp: page_copied_def)
          then show ?thesis using P(2) entry_simps(2) [OF held_offset] by auto
        qed
        have "pte_addr (fw s' ct i) = f" using ctf entry_simps(2) [OF P(4)] by simp
        then have "k = l" if "k \<in> set (i # xs)" "l \<in> set (i # xs)" "needs_copy (fw s ct k) (fw s pt k)"
          "needs_copy (fw s ct l) (fw s pt l)" "pte_addr (fw s' ct k) = pte_addr (fw s' ct l)" for k l
          using that inj fresh by (metis set_ConsD)
        moreover have "fw s' ct k = fw s ct k" if "k < 1024" "k \<notin> set (i # xs)" for k
          using ent [OF that(1)] that(2) P(6) [OF that(1)] by auto
        moreover have "keeps_frames lo {ct} s s'" by (rule keeps_frames_trans [OF P(1) k]) auto
        moreover have "held_frames lo s' \<subseteq> held_frames lo s \<union>
            {pte_addr (fw s' ct k) | k. k \<in> set (i # xs) \<and> needs_copy (fw s ct k) (fw s pt k)}"
        proof
          fix q assume "q \<in> held_frames lo s'"
          then consider "q = f" | "q \<in> held_frames lo s"
            | k where "k \<in> set xs" "q = pte_addr (fw s' ct k)" "needs_copy (fw s3 ct k) (fw s3 pt k)"
            using t P(8) unfolding table_copied_def by blast
          then show "q \<in> held_frames lo s \<union> {pte_addr (fw s' ct k) | k. k \<in> set (i # xs) \<and> needs_copy (fw s ct k) (fw s pt k)}"
          proof cases
            case 1
            then have "q = pte_addr (fw s' ct i)" using ctf entry_simps(2) [OF P(4)] by simp
            then show ?thesis using True by auto
          qed (use rest in auto)
        qed
        ultimately show ?thesis
          using head tail unfolding table_copied_def by auto
      qed
      moreover have "fork_ptes pt ct xs s3 = Inl (Panic ''no more frames'') \<or>
          (\<exists>s'. fork_ptes pt ct xs s3 = Inr s' \<and> table_copied lo pt ct (set xs) s3 s')"
        using Cons.prems K rest by (intro Cons.IH) auto
      ultimately show ?thesis unfolding e by auto
    qed
  qed
qed

section \<open>The upper half of a directory\<close>

definition pte_at :: "phys \<Rightarrow> u32 \<Rightarrow> u32 \<Rightarrow> u32 \<Rightarrow> u32" where
  "pte_at s pd i k = (if fw s pd i AND 1 = 0 then 0 else fw s (pte_addr (fw s pd i)) k)"

text \<open>The directory and the page tables of the child's upper half.\<close>

definition child_frames :: "phys \<Rightarrow> u32 \<Rightarrow> u32 set" where
  "child_frames s cpd = insert cpd {pte_addr (fw s cpd i) | i. i \<in> {512..<1024} \<and> fw s cpd i AND 1 \<noteq> 0}"

definition child_ok :: "u32 \<Rightarrow> u32 set \<Rightarrow> phys \<Rightarrow> u32 \<Rightarrow> bool" where
  "child_ok lo H s cpd \<longleftrightarrow> phys_inv lo s \<and> H \<subseteq> held_frames lo s \<and>
     child_frames s cpd \<subseteq> held_frames lo s \<and> child_frames s cpd \<inter> H = {} \<and>
     (\<forall>i \<in> {512..<1024}. fw s cpd i AND 1 \<noteq> 0 \<longrightarrow> pte_addr (fw s cpd i) \<noteq> cpd \<and>
        (\<forall>k \<in> {512..<1024}. fw s cpd k AND 1 \<noteq> 0 \<and> pte_addr (fw s cpd i) = pte_addr (fw s cpd k) \<longrightarrow> i = k))"

text \<open>The outcome for the entries of the tables \<open>I\<close>.\<close>

definition to_copy :: "phys \<Rightarrow> u32 \<Rightarrow> u32 \<Rightarrow> u32 \<Rightarrow> u32 \<Rightarrow> bool" where
  "to_copy s pd cpd i k \<longleftrightarrow> needs_copy (pte_at s cpd i k) (pte_at s pd i k)"

text \<open>The frames that the pages of these tables were copied to.\<close>

definition new_pages :: "phys \<Rightarrow> u32 \<Rightarrow> phys \<Rightarrow> u32 \<Rightarrow> u32 set \<Rightarrow> u32 set" where
  "new_pages s pd s' cpd I = {pte_addr (pte_at s' cpd i k) | i k. i \<in> I \<and> k < 1024 \<and> to_copy s pd cpd i k}"

definition space_copied :: "u32 \<Rightarrow> u32 \<Rightarrow> u32 \<Rightarrow> u32 set \<Rightarrow> phys \<Rightarrow> phys \<Rightarrow> bool" where
  "space_copied lo pd cpd I s s' \<longleftrightarrow>
     keeps_frames lo (child_frames s cpd) s s' \<and> child_frames s' cpd \<inter> held_frames lo s \<subseteq> child_frames s cpd \<and>
     (\<forall>i \<in> {512..<1024}. fw s cpd i AND 1 \<noteq> 0 \<longrightarrow> fw s' cpd i = fw s cpd i) \<and>
     (\<forall>i \<in> {512..<1024}. fw s cpd i AND 1 = 0 \<and> fw s' cpd i AND 1 \<noteq> 0 \<longrightarrow> fw s' cpd i AND 4 \<noteq> 0) \<and>
     (\<forall>i \<in> {512..<1024}. \<forall>k < 1024.
        if i \<in> I then page_copied lo s s' (pte_at s cpd i k) (pte_at s pd i k) (pte_at s' cpd i k)
        else pte_at s' cpd i k = pte_at s cpd i k) \<and>
     (\<forall>i \<in> I. \<forall>k < 1024. to_copy s pd cpd i k \<longrightarrow> pte_addr (pte_at s' cpd i k) \<notin> child_frames s' cpd \<and>
        (\<forall>j \<in> I. \<forall>l < 1024. to_copy s pd cpd j l \<and> pte_addr (pte_at s' cpd i k) = pte_addr (pte_at s' cpd j l) \<longrightarrow>
           i = j \<and> k = l)) \<and>
     held_frames lo s' \<subseteq> held_frames lo s \<union> child_frames s' cpd \<union> new_pages s pd s' cpd I"

text \<open>\<open>H\<close> are the frames held before the fork: the parent's directory, tables and pages are among them.\<close>

definition parent_ok :: "u32 set \<Rightarrow> u32 \<Rightarrow> u32 \<Rightarrow> u32 set \<Rightarrow> phys \<Rightarrow> bool" where
  "parent_ok H pd cpd I s \<longleftrightarrow> pd \<in> H \<and>
     (\<forall>i \<in> I. fw s pd i AND 1 \<noteq> 0 \<longrightarrow> pte_addr (fw s pd i) \<in> H \<and>
        (\<forall>k < 1024. to_copy s pd cpd i k \<longrightarrow> pte_addr (pte_at s pd i k) \<in> H))"

lemma page_copiedD:
  assumes "page_copied lo s s' old par new" "needs_copy old par"
  shows "pte_addr new \<in> held_frames lo s'" "pte_addr new \<notin> held_frames lo s" "new = pte_addr new OR 7"
    and "\<And>j. j < 1024 \<Longrightarrow> fw s' (pte_addr new) j = fw s (pte_addr par) j"
proof -
  obtain g where g: "g \<in> held_frames lo s'" "g \<notin> held_frames lo s" "new = g OR 7"
    "\<forall>j < 1024. fw s' g j = fw s (pte_addr par) j" using assms by (auto simp: page_copied_def)
  moreover have "pte_addr new = g" using g(3) entry_simps(2) [OF held_offset [OF g(1)]] by simp
  ultimately show "pte_addr new \<in> held_frames lo s'" "pte_addr new \<notin> held_frames lo s" "new = pte_addr new OR 7"
    "\<And>j. j < 1024 \<Longrightarrow> fw s' (pte_addr new) j = fw s (pte_addr par) j" by auto
qed

lemma page_copied_after:
  assumes c: "page_copied lo s s1 old par new" and k: "keeps_frames lo X s1 s'"
    and x: "needs_copy old par \<Longrightarrow> pte_addr new \<notin> X"
  shows "page_copied lo s s' old par new"
proof (cases "needs_copy old par")
  case True
  note D = page_copiedD [OF c True]
  then show ?thesis using True k x unfolding page_copied_def keeps_frames_def
    by (auto intro!: exI [of _ "pte_addr new"])
qed (use c in \<open>simp add: page_copied_def\<close>)

lemma child_frames_table:
  "i \<in> {512..<1024} \<Longrightarrow> fw s cpd i AND 1 \<noteq> 0 \<Longrightarrow> pte_addr (fw s cpd i) \<in> child_frames s cpd"
  by (auto simp: child_frames_def)

lemma child_frames_self: "cpd \<in> child_frames s cpd"
  by (simp add: child_frames_def)

text \<open>Two ranges of tables, one after the other.\<close>

lemma parent_pte:
  assumes p: "parent_ok H pd cpd I s" and c: "child_ok lo H s cpd" and k: "keeps_frames lo (child_frames s cpd) s s'"
    and i: "i \<in> I" "I \<subseteq> {512..<1024}" and l: "l < 1024"
  shows "fw s' pd i = fw s pd i" "pte_at s' pd i l = pte_at s pd i l"
proof -
  have kept: "fw s' q j = fw s q j" if "q \<in> H" "j < 1024" for q j
    using that c k unfolding child_ok_def keeps_frames_def by blast
  have b: "i < 1024" using i by auto
  show e: "fw s' pd i = fw s pd i" using kept [OF _ b] p by (simp add: parent_ok_def)
  show "pte_at s' pd i l = pte_at s pd i l"
    using e kept [OF _ l] p i(1) by (auto simp: pte_at_def parent_ok_def)
qed

lemma space_copied_trans:
  assumes A: "space_copied lo pd cpd I s s1" and B: "space_copied lo pd cpd J s1 s'"
    and P: "parent_ok H pd cpd (I \<union> J) s" and C: "child_ok lo H s cpd"
    and d: "I \<inter> J = {}" and u: "I \<union> J \<subseteq> {512..<1024}"
  shows "space_copied lo pd cpd (I \<union> J) s s'"
proof -
  have KA: "keeps_frames lo (child_frames s cpd) s s1" and CA: "child_frames s1 cpd \<inter> held_frames lo s \<subseteq> child_frames s cpd"
    and LA: "\<And>i k. i \<in> {512..<1024} \<Longrightarrow> k < 1024 \<Longrightarrow>
        if i \<in> I then page_copied lo s s1 (pte_at s cpd i k) (pte_at s pd i k) (pte_at s1 cpd i k)
        else pte_at s1 cpd i k = pte_at s cpd i k"
    and NA: "\<And>i k. i \<in> I \<Longrightarrow> k < 1024 \<Longrightarrow> to_copy s pd cpd i k \<Longrightarrow> pte_addr (pte_at s1 cpd i k) \<notin> child_frames s1 cpd"
    and IA: "\<And>i k j l. i \<in> I \<Longrightarrow> k < 1024 \<Longrightarrow> to_copy s pd cpd i k \<Longrightarrow> j \<in> I \<Longrightarrow> l < 1024 \<Longrightarrow> to_copy s pd cpd j l \<Longrightarrow>
        pte_addr (pte_at s1 cpd i k) = pte_addr (pte_at s1 cpd j l) \<Longrightarrow> i = j \<and> k = l"
    using A unfolding space_copied_def by auto
  have KB: "keeps_frames lo (child_frames s1 cpd) s1 s'" and CB: "child_frames s' cpd \<inter> held_frames lo s1 \<subseteq> child_frames s1 cpd"
    and LB: "\<And>i k. i \<in> {512..<1024} \<Longrightarrow> k < 1024 \<Longrightarrow>
        if i \<in> J then page_copied lo s1 s' (pte_at s1 cpd i k) (pte_at s1 pd i k) (pte_at s' cpd i k)
        else pte_at s' cpd i k = pte_at s1 cpd i k"
    and NB: "\<And>i k. i \<in> J \<Longrightarrow> k < 1024 \<Longrightarrow> to_copy s1 pd cpd i k \<Longrightarrow> pte_addr (pte_at s' cpd i k) \<notin> child_frames s' cpd"
    and IB: "\<And>i k j l. i \<in> J \<Longrightarrow> k < 1024 \<Longrightarrow> to_copy s1 pd cpd i k \<Longrightarrow> j \<in> J \<Longrightarrow> l < 1024 \<Longrightarrow> to_copy s1 pd cpd j l \<Longrightarrow>
        pte_addr (pte_at s' cpd i k) = pte_addr (pte_at s' cpd j l) \<Longrightarrow> i = j \<and> k = l"
    using B unfolding space_copied_def by auto
  have H: "held_frames lo s \<subseteq> held_frames lo s1" using KA by (auto simp: keeps_frames_def)
  have K: "keeps_frames lo (child_frames s cpd) s s'" by (rule keeps_frames_trans [OF KA KB CA])
  have par: "pte_at s1 pd i k = pte_at s pd i k" if "i \<in> I \<union> J" "k < 1024" for i k
    using parent_pte(2) [OF P C KA that(1) u that(2)] .
  have tc: "to_copy s1 pd cpd i k = to_copy s pd cpd i k" "pte_at s1 cpd i k = pte_at s cpd i k"
    if ik: "i \<in> J" "k < 1024" for i k
  proof -
    have i: "i \<notin> I" "i \<in> {512..<1024}" "i \<in> I \<union> J" using d u ik by blast+
    show e: "pte_at s1 cpd i k = pte_at s cpd i k" using LA [OF i(2) ik(2)] i(1) by simp
    show "to_copy s1 pd cpd i k = to_copy s pd cpd i k" by (simp add: to_copy_def e par [OF i(3) ik(2)])
  qed
  have rangeI: "i \<in> {512..<1024}" "i \<notin> J" if "i \<in> I" for i using that d u by blast+
  have rangeJ: "i \<in> {512..<1024}" "i \<in> I \<union> J" if "i \<in> J" for i using that u by blast+
  have later: "pte_at s' cpd i k = pte_at s1 cpd i k" if "i \<in> I" "k < 1024" for i k
    using LB [OF rangeI(1) [OF that(1)] that(2)] rangeI(2) [OF that(1)] by simp
  have once: "page_copied lo s s1 (pte_at s cpd i k) (pte_at s pd i k) (pte_at s1 cpd i k)" if "i \<in> I" "k < 1024" for i k
    using LA [OF rangeI(1) [OF that(1)] that(2)] that(1) by simp
  have twice: "page_copied lo s1 s' (pte_at s cpd i k) (pte_at s pd i k) (pte_at s' cpd i k)" if "i \<in> J" "k < 1024" for i k
    using LB [OF rangeJ(1) [OF that(1)] that(2)] that(1) tc(2) [OF that] par [OF rangeJ(2) [OF that(1)] that(2)] by simp
  have first: "page_copied lo s s' (pte_at s cpd i k) (pte_at s pd i k) (pte_at s' cpd i k)"
    if "i \<in> I" "k < 1024" for i k
    using page_copied_after [OF once [OF that] KB] NA [OF that] later [OF that] by (simp add: to_copy_def)
  have second: "page_copied lo s s' (pte_at s cpd i k) (pte_at s pd i k) (pte_at s' cpd i k)"
    if ik: "i \<in> J" "k < 1024" for i k
  proof (rule page_copied_later [OF twice [OF ik] KA])
    assume n: "needs_copy (pte_at s cpd i k) (pte_at s pd i k)"
    then have "fw s pd i AND 1 \<noteq> 0" by (auto simp: needs_copy_def pte_at_def)
    then have "pte_addr (pte_at s pd i k) \<in> H" using P ik n by (auto simp: parent_ok_def to_copy_def)
    then show "pte_addr (pte_at s pd i k) \<in> held_frames lo s \<and> pte_addr (pte_at s pd i k) \<notin> child_frames s cpd"
      using C by (auto simp: child_ok_def)
  qed
  have inI: "pte_addr (pte_at s' cpd i k) \<in> held_frames lo s1" if "i \<in> I" "k < 1024" "to_copy s pd cpd i k" for i k
    using page_copiedD(1) [OF once [OF that(1,2)]] that(3) later [OF that(1,2)] by (simp add: to_copy_def)
  have inJ: "pte_addr (pte_at s' cpd i k) \<notin> held_frames lo s1" if "i \<in> J" "k < 1024" "to_copy s pd cpd i k" for i k
    using page_copiedD(2) [OF twice [OF that(1,2)]] that(3) by (simp add: to_copy_def)
  have fresh: "pte_addr (pte_at s' cpd i k) \<notin> child_frames s' cpd"
    if "i \<in> I \<union> J" "k < 1024" "to_copy s pd cpd i k" for i k
    using that NA [of i k] NB [of i k] tc [of i k] inI [of i k] later [of i k] CB by auto
  have inj: "i = j \<and> k = l" if pr: "i \<in> I \<union> J" "k < 1024" "to_copy s pd cpd i k" "j \<in> I \<union> J" "l < 1024"
    "to_copy s pd cpd j l" "pte_addr (pte_at s' cpd i k) = pte_addr (pte_at s' cpd j l)" for i k j l
  proof (cases "i \<in> I \<longleftrightarrow> j \<in> I")
    case True
    then show ?thesis
      using pr IA [of i k j l] IB [of i k j l] later [of i k] later [of j l] tc [of i k] tc [of j l] by auto
  next
    case False
    then show ?thesis using pr inI [of i k] inI [of j l] inJ [of i k] inJ [of j l] by auto
  qed
  have frames: "child_frames s' cpd \<inter> held_frames lo s \<subseteq> child_frames s cpd" using CB CA H by blast
  have pdes: "\<forall>i \<in> {512..<1024}. fw s cpd i AND 1 \<noteq> 0 \<longrightarrow> fw s' cpd i = fw s cpd i"
    "\<forall>i \<in> {512..<1024}. fw s cpd i AND 1 = 0 \<and> fw s' cpd i AND 1 \<noteq> 0 \<longrightarrow> fw s' cpd i AND 4 \<noteq> 0"
    using A B unfolding space_copied_def by (metis (no_types))+
  have ents: "if i \<in> I \<union> J then page_copied lo s s' (pte_at s cpd i k) (pte_at s pd i k) (pte_at s' cpd i k)
      else pte_at s' cpd i k = pte_at s cpd i k" if "i \<in> {512..<1024}" "k < 1024" for i k
    using first [of i k] second [of i k] LA [OF that] LB [OF that] that by simp
  have pdeB: "\<forall>i \<in> {512..<1024}. fw s1 cpd i AND 1 \<noteq> 0 \<longrightarrow> fw s' cpd i = fw s1 cpd i"
    and HA: "held_frames lo s1 \<subseteq> held_frames lo s \<union> child_frames s1 cpd \<union> new_pages s pd s1 cpd I"
    and HB: "held_frames lo s' \<subseteq> held_frames lo s1 \<union> child_frames s' cpd \<union> new_pages s1 pd s' cpd J"
    using A B unfolding space_copied_def by simp_all
  have tables: "child_frames s1 cpd \<subseteq> child_frames s' cpd"
  proof
    fix q assume "q \<in> child_frames s1 cpd"
    then consider "q = cpd" | i where "i \<in> {512..<1024}" "fw s1 cpd i AND 1 \<noteq> 0" "q = pte_addr (fw s1 cpd i)"
      by (auto simp: child_frames_def)
    then show "q \<in> child_frames s' cpd"
    proof cases
      case (2 i)
      then have "fw s' cpd i = fw s1 cpd i" using pdeB by blast
      then show ?thesis using child_frames_table [OF 2(1), of s' cpd] 2 by simp
    qed (simp add: child_frames_self)
  qed
  have pgI: "new_pages s pd s1 cpd I \<subseteq> new_pages s pd s' cpd (I \<union> J)"
  proof
    fix q assume "q \<in> new_pages s pd s1 cpd I"
    then obtain i k where "i \<in> I" "k < 1024" "to_copy s pd cpd i k" "q = pte_addr (pte_at s1 cpd i k)"
      by (auto simp: new_pages_def)
    then show "q \<in> new_pages s pd s' cpd (I \<union> J)" using later [of i k]
      unfolding new_pages_def by (intro CollectI exI [of _ i] exI [of _ k]) simp
  qed
  have pgJ: "new_pages s1 pd s' cpd J \<subseteq> new_pages s pd s' cpd (I \<union> J)"
    using tc(1) unfolding new_pages_def by blast
  have taken: "held_frames lo s' \<subseteq> held_frames lo s \<union> child_frames s' cpd \<union> new_pages s pd s' cpd (I \<union> J)"
    using HA HB tables pgI pgJ by blast
  show ?thesis
    unfolding space_copied_def using K frames pdes ents fresh inj taken by blast
qed

lemma child_frames_same:
  "\<forall>i \<in> {512..<1024}. fw s' cpd i = fw s cpd i \<Longrightarrow> child_frames s' cpd = child_frames s cpd"
  unfolding child_frames_def by (rule arg_cong [of _ _ "insert cpd"], rule Collect_cong) (metis (no_types))

lemma child_ok_same:
  assumes "child_ok lo H s cpd" "phys_inv lo s'" "held_frames lo s \<subseteq> held_frames lo s'"
    and e: "\<forall>i \<in> {512..<1024}. fw s' cpd i = fw s cpd i"
  shows "child_ok lo H s' cpd"
proof -
  have f: "child_frames s' cpd = child_frames s cpd" by (rule child_frames_same [OF e])
  show ?thesis using assms unfolding child_ok_def f by auto
qed

lemma child_tables:
  assumes "child_ok lo H s cpd" "i \<in> {512..<1024}" "fw s cpd i AND 1 \<noteq> 0"
  shows "pte_addr (fw s cpd i) \<in> held_frames lo s" "pte_addr (fw s cpd i) \<notin> H" "pte_addr (fw s cpd i) \<noteq> cpd"
    and "\<And>j. j \<in> {512..<1024} \<Longrightarrow> fw s cpd j AND 1 \<noteq> 0 \<Longrightarrow> pte_addr (fw s cpd i) = pte_addr (fw s cpd j) \<Longrightarrow> i = j"
  using assms child_frames_table [OF assms(2,3)] unfolding child_ok_def by blast+

lemma space_copied_emptyI:
  assumes "keeps_frames lo (child_frames s cpd) s s'" "child_frames s' cpd \<inter> held_frames lo s \<subseteq> child_frames s cpd"
    and "\<And>i. i \<in> {512..<1024} \<Longrightarrow> fw s cpd i AND 1 \<noteq> 0 \<Longrightarrow> fw s' cpd i = fw s cpd i"
    and "\<And>i. i \<in> {512..<1024} \<Longrightarrow> fw s cpd i AND 1 = 0 \<Longrightarrow> fw s' cpd i AND 1 \<noteq> 0 \<Longrightarrow> fw s' cpd i AND 4 \<noteq> 0"
    and "\<And>i k. i \<in> {512..<1024} \<Longrightarrow> k < 1024 \<Longrightarrow> pte_at s' cpd i k = pte_at s cpd i k"
    and "held_frames lo s' \<subseteq> held_frames lo s \<union> child_frames s' cpd"
  shows "space_copied lo pd cpd {} s s'"
  unfolding space_copied_def using assms by (simp only: empty_iff if_False ball_simps simp_thms) blast

lemma child_frames_insert:
  assumes i: "i \<in> {512..<1024}" "fw s cpd i AND 1 = 0" "fw s1 cpd i AND 1 \<noteq> 0"
    and old: "\<And>j. j \<in> {512..<1024} \<Longrightarrow> j \<noteq> i \<Longrightarrow> fw s1 cpd j = fw s cpd j"
  shows "child_frames s1 cpd = insert (pte_addr (fw s1 cpd i)) (child_frames s cpd)"
proof (intro equalityI subsetI)
  fix q assume "q \<in> child_frames s1 cpd"
  then show "q \<in> insert (pte_addr (fw s1 cpd i)) (child_frames s cpd)"
    using old child_frames_table by (fastforce simp: child_frames_def)
next
  fix q assume q: "q \<in> insert (pte_addr (fw s1 cpd i)) (child_frames s cpd)"
  then consider "q = pte_addr (fw s1 cpd i)" | "q = cpd"
    | j where "j \<in> {512..<1024}" "fw s cpd j AND 1 \<noteq> 0" "q = pte_addr (fw s cpd j)"
    by (auto simp: child_frames_def)
  then show "q \<in> child_frames s1 cpd"
  proof cases
    case (3 j)
    moreover have "j \<noteq> i" using 3(2) i(2) by auto
    ultimately show ?thesis using old child_frames_table [of j s1 cpd] by auto
  qed (use child_frames_table [OF i(1,3)] child_frames_self in auto)
qed

text \<open>A new page table in the child, with either kind of flags.\<close>

lemma new_table_ok:
  assumes C: "child_ok lo H s cpd" and i: "i \<in> {512..<1024}" and np: "fw s cpd i AND 1 = 0"
    and a: "alloc_frame s = Inr (f, t)" and x: "x = 3 \<or> x = 7"
  defines "s1 \<equiv> write32 (cpd + 4 * i) (f OR x) t"
  shows "child_ok lo H s1 cpd" "keeps_frames lo (child_frames s cpd) s s1"
    and "child_frames s1 cpd \<inter> held_frames lo s \<subseteq> child_frames s cpd"
    and "fw s1 cpd i = f OR x" "offset f = 0"
    and "\<And>j. j \<in> {512..<1024} \<Longrightarrow> j \<noteq> i \<Longrightarrow> fw s1 cpd j = fw s cpd j"
    and "\<And>j k. j \<in> {512..<1024} \<Longrightarrow> k < 1024 \<Longrightarrow> pte_at s1 cpd j k = pte_at s cpd j k"
    and "held_frames lo s1 \<subseteq> held_frames lo s \<union> child_frames s1 cpd" "child_frames s cpd \<subseteq> child_frames s1 cpd"
proof -
  have inv: "phys_inv lo s" and cpd: "cpd \<in> held_frames lo s" "offset cpd = 0"
    using C child_frames_self [of cpd s] held_offset by (auto simp: child_ok_def)
  note A = fw_alloc [OF inv a] and ib = i[unfolded atLeastLessThan_iff, THEN conjunct2]
  show "offset f = 0" by (rule A)
  have "f \<noteq> cpd" using A(2) cpd by auto
  have H: "held_frames lo s1 = insert f (held_frames lo s)" "phys_inv lo s1"
    using held_write [OF A(1) _ cpd(2) ib] A(3) cpd(1) unfolding s1_def by auto
  have F: "fw s1 q j = (if q = cpd \<and> j = i then f OR x else if q = f then 0 else fw s q j)"
    if "offset q = 0" "j < 1024" for q j
    using fw_write [OF cpd(2) ib that] A(5) [OF that] unfolding s1_def by auto
  show new: "fw s1 cpd i = f OR x" using F [OF cpd(2) ib] by simp
  show old: "fw s1 cpd j = fw s cpd j" if "j \<in> {512..<1024}" "j \<noteq> i" for j
    using F [OF cpd(2), of j] that \<open>f \<noteq> cpd\<close> by auto
  have addr: "pte_addr (fw s1 cpd i) = f" "fw s1 cpd i AND 1 \<noteq> 0"
    using new entry_simps [OF A(4)] x by auto
  have frames: "child_frames s1 cpd = insert f (child_frames s cpd)"
    using child_frames_insert [OF i np addr(2) old] addr(1) by simp
  then show "child_frames s1 cpd \<inter> held_frames lo s \<subseteq> child_frames s cpd" using A(2) by auto
  show "held_frames lo s1 \<subseteq> held_frames lo s \<union> child_frames s1 cpd" "child_frames s cpd \<subseteq> child_frames s1 cpd"
    unfolding frames H(1) by blast+
  have tab: "fw s1 cpd j AND 1 \<noteq> 0 \<Longrightarrow> pte_addr (fw s1 cpd j) \<noteq> cpd \<and>
      (\<forall>k \<in> {512..<1024}. fw s1 cpd k AND 1 \<noteq> 0 \<and> pte_addr (fw s1 cpd j) = pte_addr (fw s1 cpd k) \<longrightarrow> j = k)"
    if j: "j \<in> {512..<1024}" for j
  proof -
    have "pte_addr (fw s cpd k) \<noteq> f" if "k \<in> {512..<1024}" "fw s cpd k AND 1 \<noteq> 0" for k
      using child_tables(1) [OF C that] A(2) by auto
    then show "fw s1 cpd j AND 1 \<noteq> 0 \<Longrightarrow> pte_addr (fw s1 cpd j) \<noteq> cpd \<and>
      (\<forall>k \<in> {512..<1024}. fw s1 cpd k AND 1 \<noteq> 0 \<and> pte_addr (fw s1 cpd j) = pte_addr (fw s1 cpd k) \<longrightarrow> j = k)"
      using old addr(1) \<open>f \<noteq> cpd\<close> j child_tables(3,4) [OF C] by metis
  qed
  show "child_ok lo H s1 cpd"
    unfolding child_ok_def frames using C H A(2) tab by (auto simp: child_ok_def)
  show "keeps_frames lo (child_frames s cpd) s s1"
    using H F held_offset A(2) child_frames_self unfolding keeps_frames_def by auto
  show "pte_at s1 cpd j k = pte_at s cpd j k" if j: "j \<in> {512..<1024}" "k < 1024" for j k
  proof (cases "j = i")
    case True
    then show ?thesis
      using np addr F [OF A(4) j(2)] \<open>f \<noteq> cpd\<close> by (simp add: pte_at_def)
  next
    case False
    have "fw s1 (pte_addr (fw s cpd j)) k = fw s (pte_addr (fw s cpd j)) k" if p: "fw s cpd j AND 1 \<noteq> 0"
      using F [OF pte_addr_aligned j(2), of "fw s cpd j"] child_tables(1,3) [OF C j(1) p] A(2) by auto
    then show ?thesis using old [OF j(1) False] by (simp add: pte_at_def)
  qed
qed

text \<open>The page table for the child's entry.\<close>

lemma child_table_ok:
  assumes C: "child_ok lo H s cpd" and i: "i \<in> {512..<1024}"
  shows "child_table cpd i s = Inl (Panic ''no more frames'') \<or>
    (\<exists>ct s1. child_table cpd i s = Inr (ct, s1) \<and> child_ok lo H s1 cpd \<and> space_copied lo pd cpd {} s s1 \<and>
       fw s1 cpd i AND 1 \<noteq> 0 \<and> pte_addr (fw s1 cpd i) = ct)"
proof (cases "fw s cpd i AND 1 = 0")
  case False
  then have "child_table cpd i s = Inr (pte_addr (fw s cpd i), s)"
    by (simp add: child_table_def fw_def read32_def pte_addr_def Let_def)
  moreover have "space_copied lo pd cpd {} s s"
    by (rule space_copied_emptyI) (use C in \<open>simp_all add: keeps_frames_def child_ok_def\<close>)
  ultimately show ?thesis using C False by blast
next
  case True
  obtain fl where ok: "phys_ok lo s fl" using C by (auto simp: child_ok_def phys_inv_def)
  show ?thesis
  proof (cases "alloc_frame s")
    case (Inl e)
    then have "e = Panic ''no more frames''" by (cases rule: alloc_frame_ok [OF ok]) auto
    then show ?thesis using Inl True by (simp add: child_table_def fw_def read32_def Let_def)
  next
    case (Inr q)
    then obtain f t where a: "alloc_frame s = Inr (f, t)" by (cases q) auto
    define s1 where "s1 = write32 (cpd + 4 * i) (f OR 7) t"
    have e: "child_table cpd i s = Inr (f, s1)"
      using a True by (simp add: s1_def child_table_def fw_def read32_def Let_def)
    note N = new_table_ok [OF C i True a disjI2 [OF refl], folded s1_def]
    have addr: "pte_addr (fw s1 cpd i) = f" "fw s1 cpd i AND 1 \<noteq> 0" "fw s1 cpd i AND 4 \<noteq> 0"
      using N(4) entry_simps [OF N(5)] by auto
    have "space_copied lo pd cpd {} s s1"
    proof (rule space_copied_emptyI [OF N(2,3)])
      show "fw s1 cpd j = fw s cpd j" if "j \<in> {512..<1024}" "fw s cpd j AND 1 \<noteq> 0" for j
        using N(6) [OF that(1)] that(2) True by auto
      show "fw s1 cpd j AND 4 \<noteq> 0" if "j \<in> {512..<1024}" "fw s cpd j AND 1 = 0" "fw s1 cpd j AND 1 \<noteq> 0" for j
        using N(6) [OF that(1)] that(2,3) addr(3) by (cases "j = i") auto
    qed (rule N(7), assumption+, rule N(8))
    then show ?thesis using e N(1) addr by blast
  qed
qed

text \<open>The entries of one table.\<close>

lemma table_space:
  assumes C: "child_ok lo H s cpd" and i: "i \<in> {512..<1024}" "fw s cpd i AND 1 \<noteq> 0"
    and P: "parent_ok H pd cpd {i} s" "fw s pd i AND 1 \<noteq> 0"
    and T: "table_copied lo (pte_addr (fw s pd i)) (pte_addr (fw s cpd i)) {k. k < 1024} s s'"
  shows "child_ok lo H s' cpd \<and> space_copied lo pd cpd {i} s s'"
proof -
  let ?ct = "pte_addr (fw s cpd i)" and ?pt = "pte_addr (fw s pd i)"
  note ct = child_tables [OF C i] and K = T[unfolded table_copied_def, THEN conjunct1]
  have keep: "fw s' q j = fw s q j" if "q \<in> held_frames lo s" "q \<noteq> ?ct" "j < 1024" for q j
    using K that by (simp add: keeps_frames_def)
  have inv: "phys_inv lo s'" "held_frames lo s \<subseteq> held_frames lo s'" using K by (auto simp: keeps_frames_def)
  have cpd: "cpd \<in> held_frames lo s" using C child_frames_self by (auto simp: child_ok_def)
  have cf: "child_frames s cpd \<subseteq> held_frames lo s" using C by (simp add: child_ok_def)
  have pdes: "fw s' cpd j = fw s cpd j" if "j \<in> {512..<1024}" for j
    using keep [OF cpd ct(3) [symmetric]] that by simp
  have frames: "child_frames s' cpd = child_frames s cpd" by (rule child_frames_same) (simp add: pdes)
  have own: "pte_at s' cpd i k = fw s' ?ct k" "pte_at s cpd i k = fw s ?ct k" "pte_at s pd i k = fw s ?pt k" for k
    using i P(2) pdes [OF i(1)] by (simp_all add: pte_at_def)
  have ent: "page_copied lo s s' (pte_at s cpd i k) (pte_at s pd i k) (pte_at s' cpd i k)" if "k < 1024" for k
    using T that by (simp add: table_copied_def own)
  have other: "pte_at s' cpd j k = pte_at s cpd j k" if j: "j \<in> {512..<1024}" "j \<noteq> i" "k < 1024" for j k
  proof -
    have "fw s' (pte_addr (fw s cpd j)) k = fw s (pte_addr (fw s cpd j)) k" if p: "fw s cpd j AND 1 \<noteq> 0"
      by (rule keep [OF child_tables(1) [OF C j(1) p] _ j(3)]) (use ct(4) [OF j(1) p] j(2) in force)
    then show ?thesis using pdes [OF j(1)] by (simp add: pte_at_def)
  qed
  have cnt: "?ct \<in> child_frames s cpd" by (rule child_frames_table [OF i])
  have "keeps_frames lo (child_frames s cpd) s s'" using K cnt by (auto simp: keeps_frames_def)
  moreover have "\<forall>j \<in> {512..<1024}. \<forall>k < 1024.
      if j \<in> {i} then page_copied lo s s' (pte_at s cpd j k) (pte_at s pd j k) (pte_at s' cpd j k)
      else pte_at s' cpd j k = pte_at s cpd j k"
    using ent other by simp
  moreover have "pte_addr (pte_at s' cpd i k) \<notin> child_frames s' cpd" if "k < 1024" "to_copy s pd cpd i k" for k
    using page_copiedD(2) [OF ent [OF that(1)]] that(2) cf by (auto simp: to_copy_def frames)
  moreover have "k = l" if "k < 1024" "l < 1024" "to_copy s pd cpd i k" "to_copy s pd cpd i l"
    "pte_addr (pte_at s' cpd i k) = pte_addr (pte_at s' cpd i l)" for k l
    using T that by (simp add: table_copied_def to_copy_def own)
  moreover have "held_frames lo s' \<subseteq> held_frames lo s \<union> child_frames s' cpd \<union> new_pages s pd s' cpd {i}"
  proof
    fix q assume "q \<in> held_frames lo s'"
    then consider "q \<in> held_frames lo s" | k where "k < 1024" "q = pte_addr (fw s' ?ct k)" "needs_copy (fw s ?ct k) (fw s ?pt k)"
      using T by (auto simp: table_copied_def)
    then show "q \<in> held_frames lo s \<union> child_frames s' cpd \<union> new_pages s pd s' cpd {i}"
      by cases (auto simp: new_pages_def to_copy_def own)
  qed
  ultimately have "space_copied lo pd cpd {i} s s'"
    unfolding space_copied_def frames using pdes by (intro conjI; blast?) auto
  then show ?thesis using child_ok_same [OF C inv] pdes by blast
qed

lemma space_copied_absent:
  assumes "phys_inv lo s" "fw s pd i AND 1 = 0"
  shows "space_copied lo pd cpd {i} s s"
  using assms by (auto simp: space_copied_def keeps_frames_def page_copied_def to_copy_def needs_copy_def pte_at_def)

lemma parent_ok_later:
  assumes P: "parent_ok H pd cpd (I \<union> J) s" and C: "child_ok lo H s cpd" and A: "space_copied lo pd cpd I s s1"
    and d: "I \<inter> J = {}" and u: "I \<union> J \<subseteq> {512..<1024}"
  shows "parent_ok H pd cpd J s1"
proof -
  have K: "keeps_frames lo (child_frames s cpd) s s1" using A by (simp add: space_copied_def)
  have PJ: "parent_ok H pd cpd J s" and J: "J \<subseteq> {512..<1024}" using P u by (auto simp: parent_ok_def)
  have e: "fw s1 pd j = fw s pd j" "pte_at s1 pd j k = pte_at s pd j k" "pte_at s1 cpd j k = pte_at s cpd j k"
    if "j \<in> J" "k < 1024" for j k
  proof -
    show "fw s1 pd j = fw s pd j" "pte_at s1 pd j k = pte_at s pd j k"
      by (rule parent_pte [OF PJ C K that(1) J that(2)])+
    have "j \<in> {512..<1024}" "j \<notin> I" using that(1) d u by blast+
    then show "pte_at s1 cpd j k = pte_at s cpd j k" using A that(2) by (simp add: space_copied_def)
  qed
  have z: "(0 :: u32) < 1024" by simp
  show ?thesis
    using PJ unfolding parent_ok_def by (simp add: to_copy_def e e(1) [OF _ z])
qed

lemma index_list:
  assumes "b \<le> 1024"
  shows "set (map word_of_nat [a..<b]) = {i :: u32. a \<le> unat i \<and> unat i < b}" "distinct (map (word_of_nat :: nat \<Rightarrow> u32) [a..<b])"
proof -
  have u: "unat (word_of_nat n :: u32) = n" if "n < b" for n using that assms by (simp add: unat_of_nat)
  show "set (map word_of_nat [a..<b]) = {i :: u32. a \<le> unat i \<and> unat i < b}"
  proof (intro equalityI subsetI)
    fix i :: u32 assume "i \<in> {i. a \<le> unat i \<and> unat i < b}"
    then have "word_of_nat (unat i) \<in> (word_of_nat :: nat \<Rightarrow> u32) ` {a..<b}" by (intro imageI) simp
    then show "i \<in> set (map word_of_nat [a..<b])" by simp
  qed (auto simp: u)
  show "distinct (map (word_of_nat :: nat \<Rightarrow> u32) [a..<b])"
    by (auto simp: distinct_map intro!: inj_onI) (metis u)
qed

lemma table_indices: "set (map word_of_nat [0..<1024]) = {k :: u32. k < 1024}" "distinct (map (word_of_nat :: nat \<Rightarrow> u32) [0..<1024])"
  and upper_indices: "set (map word_of_nat [512..<1024]) = ({512..<1024} :: u32 set)"
    "distinct (map (word_of_nat :: nat \<Rightarrow> u32) [512..<1024])"
proof -
  have "{i :: u32. 0 \<le> unat i \<and> unat i < 1024} = {k. k < 1024}" by (auto simp: word_less_nat_alt)
  then show "set (map word_of_nat [0..<1024]) = {k :: u32. k < 1024}" by (rule trans [OF index_list(1) [OF order_refl]])
  have "{i :: u32. 512 \<le> unat i \<and> unat i < 1024} = {512..<1024}" by (auto simp: word_less_nat_alt word_le_nat_alt)
  then show "set (map word_of_nat [512..<1024]) = ({512..<1024} :: u32 set)" by (rule trans [OF index_list(1) [OF order_refl]])
qed (rule index_list(2) [OF order_refl])+

lemma fork_pdes_ok:
  assumes "child_ok lo H s cpd" "parent_ok H pd cpd (set xs) s" "distinct xs" "set xs \<subseteq> {512..<1024}"
  shows "fork_pdes pd cpd xs s = Inl (Panic ''no more frames'') \<or>
    (\<exists>s'. fork_pdes pd cpd xs s = Inr s' \<and> child_ok lo H s' cpd \<and> space_copied lo pd cpd (set xs) s s')"
  using assms
proof (induction xs arbitrary: s)
  case Nil
  then have "space_copied lo pd cpd {} s s"
    by (intro space_copied_emptyI) (simp_all add: keeps_frames_def child_ok_def)
  then show ?case using Nil by simp
next
  case (Cons i xs)
  note C = Cons.prems(1) and P = Cons.prems(2)
  have i: "i \<in> {512..<1024}" "i \<notin> set xs" using Cons.prems by auto
  have split: "set (i # xs) = {i} \<union> set xs" "{i} \<inter> set xs = {}" using i by auto
  have u: "{i} \<union> set xs \<subseteq> {512..<1024}" using Cons.prems(4) by simp
  have rest: "fork_pdes pd cpd (i # xs) s = Inl (Panic ''no more frames'') \<or>
      (\<exists>s'. fork_pdes pd cpd (i # xs) s = Inr s' \<and> child_ok lo H s' cpd \<and> space_copied lo pd cpd (set (i # xs)) s s')"
    if e: "fork_pdes pd cpd (i # xs) s = fork_pdes pd cpd xs s2" and C2: "child_ok lo H s2 cpd"
      and A: "space_copied lo pd cpd {i} s s2" for s2
  proof -
    note P' = P[unfolded split(1)]
    have "fork_pdes pd cpd xs s2 = Inl (Panic ''no more frames'') \<or>
      (\<exists>s'. fork_pdes pd cpd xs s2 = Inr s' \<and> child_ok lo H s' cpd \<and> space_copied lo pd cpd (set xs) s2 s')"
      using Cons.IH [OF C2 parent_ok_later [OF P' C A split(2) u]] Cons.prems(3,4) by simp
    then show ?thesis
      unfolding e split(1) using space_copied_trans [OF A _ P' C split(2) u] by blast
  qed
  show ?case
  proof (cases "fw s pd i AND 1 = 0")
    case True
    have "fork_pdes pd cpd (i # xs) s = fork_pdes pd cpd xs s"
      using True by (simp add: fw_def read32_def Let_def)
    then show ?thesis using rest C space_copied_absent [OF _ True] by (auto simp: child_ok_def)
  next
    case False
    note pt = False[unfolded fw_def, folded read32_def]
    from child_table_ok [OF C i(1), of pd] show ?thesis
    proof (elim disjE exE conjE)
      assume "child_table cpd i s = Inl (Panic ''no more frames'')"
      then show ?thesis using False by (simp add: fw_def read32_def Let_def)
    next
      fix ct s1
      assume t: "child_table cpd i s = Inr (ct, s1)" and C1: "child_ok lo H s1 cpd"
        and A1: "space_copied lo pd cpd {} s s1" and ct: "fw s1 cpd i AND 1 \<noteq> 0" "pte_addr (fw s1 cpd i) = ct"
      have P0: "parent_ok H pd cpd {i} s" using P by (simp add: parent_ok_def)
      have P1: "parent_ok H pd cpd {i} s1"
        by (rule parent_ok_later [OF _ C A1]) (use P0 i in auto)
      have K1: "keeps_frames lo (child_frames s cpd) s s1" using A1 by (simp add: space_copied_def)
      have same: "fw s1 pd i = fw s pd i"
        by (rule parent_pte(1) [OF P0 C K1, of i 0]) (use i in auto)
      let ?pt = "pte_addr (fw s pd i)"
      have e: "fork_pdes pd cpd (i # xs) s =
          rbind (fork_ptes ?pt ct (map word_of_nat [0..<1024]) s1) (fork_pdes pd cpd xs)"
        using False t by (simp add: fw_def read32_def pte_addr_def Let_def del: fork_ptes.simps)
      have held: "ct \<in> held_frames lo s1" "ct \<notin> H" using child_tables [OF C1 i(1) ct(1)] ct(2) by auto
      have inv: "phys_inv lo s1" "H \<subseteq> held_frames lo s1" using C1 by (auto simp: child_ok_def)
      have pin: "?pt \<in> H" using P0 False by (simp add: parent_ok_def)
      have pin': "?pt \<in> held_frames lo s1" "?pt \<noteq> ct" using pin inv(2) held(2) by auto
      have pages: "\<forall>k \<in> set (map word_of_nat [0..<1024]). needs_copy (fw s1 ct k) (fw s1 ?pt k) \<longrightarrow>
          pte_addr (fw s1 ?pt k) \<in> held_frames lo s1 \<and> pte_addr (fw s1 ?pt k) \<noteq> ct"
        unfolding table_indices(1)
      proof (intro ballI impI)
        fix k :: u32 assume k: "k \<in> {k. k < 1024}" "needs_copy (fw s1 ct k) (fw s1 ?pt k)"
        have "pte_at s1 cpd i k = fw s1 ct k" "pte_at s1 pd i k = fw s1 ?pt k"
          using ct False same by (simp_all add: pte_at_def)
        then have "pte_addr (fw s1 ?pt k) \<in> H"
          using P1 k False same by (auto simp: parent_ok_def to_copy_def)
        then show "pte_addr (fw s1 ?pt k) \<in> held_frames lo s1 \<and> pte_addr (fw s1 ?pt k) \<noteq> ct"
          using inv(2) held(2) by auto
      qed
      have "fork_ptes ?pt ct (map word_of_nat [0..<1024]) s1 = Inl (Panic ''no more frames'') \<or>
        (\<exists>s2. fork_ptes ?pt ct (map word_of_nat [0..<1024]) s1 = Inr s2 \<and> table_copied lo ?pt ct {k. k < 1024} s1 s2)"
        by (rule fork_ptes_ok [OF inv(1) held(1) pin' table_indices(2) _ pages, unfolded table_indices(1)]) simp
      then show ?thesis
      proof (elim disjE exE conjE)
        assume "fork_ptes ?pt ct (map word_of_nat [0..<1024]) s1 = Inl (Panic ''no more frames'')"
        then show ?thesis unfolding e by simp
      next
        fix s2
        assume f: "fork_ptes ?pt ct (map word_of_nat [0..<1024]) s1 = Inr s2"
          and "table_copied lo ?pt ct {k. k < 1024} s1 s2"
        then have T: "child_ok lo H s2 cpd \<and> space_copied lo pd cpd {i} s1 s2"
          by (intro table_space [OF C1 i(1) ct(1) P1]) (use ct(2) same False in auto)
        have "space_copied lo pd cpd ({} \<union> {i}) s s2"
          by (rule space_copied_trans [OF A1 conjunct2 [OF T] _ C]) (use P0 i in auto)
        then show ?thesis by (intro rest [of s2]) (use e f T in auto)
      qed
    qed
  qed
qed

section \<open>The new directory\<close>

text \<open>Writing an entry of one of the child's tables.\<close>

lemma set_entry_ok:
  fixes v :: u32
  assumes C: "child_ok lo H s cpd" and i: "i \<in> {512..<1024}" "fw s cpd i AND 1 \<noteq> 0" and k: "k < 1024"
  defines "s' \<equiv> write32 (pte_addr (fw s cpd i) + 4 * k) v s"
  shows "child_ok lo H s' cpd" "keeps_frames lo (child_frames s cpd) s s'"
    and "\<And>j. j \<in> {512..<1024} \<Longrightarrow> fw s' cpd j = fw s cpd j"
    and "\<And>j l. j \<in> {512..<1024} \<Longrightarrow> l < 1024 \<Longrightarrow>
      pte_at s' cpd j l = (if j = i \<and> l = k then v else pte_at s cpd j l)"
    and "held_frames lo s' = held_frames lo s"
proof -
  let ?ct = "pte_addr (fw s cpd i)"
  note ct = child_tables [OF C i] and o = pte_addr_aligned [of "fw s cpd i"]
  have cpd: "cpd \<in> held_frames lo s" using C child_frames_self by (auto simp: child_ok_def)
  have inv: "phys_inv lo s" using C by (simp add: child_ok_def)
  have W: "phys_inv lo s'" "held_frames lo s' = held_frames lo s"
    using held_write [OF inv ct(1) o k] unfolding s'_def by auto
  then show "held_frames lo s' = held_frames lo s" by blast
  have F: "fw s' q j = (if q = ?ct \<and> j = k then v else fw s q j)" if "offset q = 0" "j < 1024" for q j
    using fw_write [OF o k that] unfolding s'_def .
  show e: "fw s' cpd j = fw s cpd j" if "j \<in> {512..<1024}" for j
    using F [OF held_offset [OF cpd], of j] that ct(3) by auto
  show "child_ok lo H s' cpd" by (rule child_ok_same [OF C W(1)]) (use W(2) e in auto)
  show "keeps_frames lo (child_frames s cpd) s s'"
    using W F held_offset child_frames_table [OF i] unfolding keeps_frames_def by auto
  show "pte_at s' cpd j l = (if j = i \<and> l = k then v else pte_at s cpd j l)"
    if j: "j \<in> {512..<1024}" and l: "l < 1024" for j l
  proof (cases "j = i")
    case True
    then show ?thesis using i e F [OF o l] by (simp add: pte_at_def)
  next
    case False
    have "fw s' (pte_addr (fw s cpd j)) l = fw s (pte_addr (fw s cpd j)) l" if p: "fw s cpd j AND 1 \<noteq> 0"
      using F [OF pte_addr_aligned l, of "fw s cpd j"] ct(4) [OF j p] False by auto
    then show ?thesis using e [OF j] False by (simp add: pte_at_def)
  qed
qed

lemma kept_outside:
  assumes "keeps_frames lo X s s'" "X \<inter> H = {}" "H \<subseteq> held_frames lo s" "q \<in> H" "j < 1024"
  shows "fw s' q j = fw s q j"
  using assms unfolding keeps_frames_def by blast

text \<open>\<open>map\<close> of an APIC page.\<close>

lemma map_apic_ok:
  assumes C: "child_ok lo H s cpd" and va: "va_pdi va \<in> {512..<1024}" "offset va = 0" "va = ioAPIC c \<or> va = localAPIC c"
  shows "vmm_map c cpd va va s = Inl (Panic ''no more frames'') \<or>
    (\<exists>s'. vmm_map c cpd va va s = Inr s' \<and> child_ok lo H s' cpd \<and>
       (\<forall>q \<in> H. \<forall>j < 1024. fw s' q j = fw s q j) \<and> held_frames lo s \<subseteq> held_frames lo s' \<and>
       held_frames lo s' \<subseteq> held_frames lo s \<union> child_frames s' cpd \<and> child_frames s cpd \<subseteq> child_frames s' cpd \<and>
       (\<forall>j \<in> {512..<1024}. fw s' cpd j AND 1 \<noteq> 0 \<longleftrightarrow> fw s cpd j AND 1 \<noteq> 0 \<or> j = va_pdi va) \<and>
       (\<forall>j \<in> {512..<1024}. fw s' cpd j AND 4 \<noteq> 0 \<longrightarrow> fw s cpd j AND 4 \<noteq> 0) \<and>
       (\<forall>j \<in> {512..<1024}. \<forall>l < 1024. pte_at s' cpd j l =
          (if j = va_pdi va \<and> l = va_pti va then va OR 3 else pte_at s cpd j l)))"
proof -
  let ?i = "va_pdi va" and ?k = "va_pti va"
  have dis: "child_frames t cpd \<inter> H = {}" "H \<subseteq> held_frames lo t" if "child_ok lo H t cpd" for t
    using that by (auto simp: child_ok_def)
  have two: "\<exists>s'. vmm_map c cpd va va s = Inr s' \<and> child_ok lo H s' cpd \<and>
       (\<forall>q \<in> H. \<forall>j < 1024. fw s' q j = fw s q j) \<and> held_frames lo s \<subseteq> held_frames lo s' \<and>
       held_frames lo s' \<subseteq> held_frames lo s \<union> child_frames s' cpd \<and> child_frames s cpd \<subseteq> child_frames s' cpd \<and>
       (\<forall>j \<in> {512..<1024}. fw s' cpd j AND 1 \<noteq> 0 \<longleftrightarrow> fw s cpd j AND 1 \<noteq> 0 \<or> j = va_pdi va) \<and>
       (\<forall>j \<in> {512..<1024}. fw s' cpd j AND 4 \<noteq> 0 \<longrightarrow> fw s cpd j AND 4 \<noteq> 0) \<and>
       (\<forall>j \<in> {512..<1024}. \<forall>l < 1024. pte_at s' cpd j l =
          (if j = va_pdi va \<and> l = va_pti va then va OR 3 else pte_at s cpd j l))"
    if m: "map_pde c cpd va s = Inr (fw s1 cpd ?i, s1)" and C1: "child_ok lo H s1 cpd" and p: "fw s1 cpd ?i AND 1 \<noteq> 0"
      and h: "\<forall>q \<in> H. \<forall>j < 1024. fw s1 q j = fw s q j" "held_frames lo s \<subseteq> held_frames lo s1"
      and o: "\<forall>j \<in> {512..<1024}. j \<noteq> ?i \<longrightarrow> fw s1 cpd j = fw s cpd j"
      and u: "fw s1 cpd ?i AND 4 \<noteq> 0 \<longrightarrow> fw s cpd ?i AND 4 \<noteq> 0"
      and l: "\<forall>j \<in> {512..<1024}. \<forall>k < 1024. pte_at s1 cpd j k = pte_at s cpd j k"
      and taken: "held_frames lo s1 \<subseteq> held_frames lo s \<union> child_frames s1 cpd" "child_frames s cpd \<subseteq> child_frames s1 cpd" for s1
  proof -
    define s' where "s' = write32 (pte_addr (fw s1 cpd ?i) + 4 * ?k) (va OR 3) s1"
    have e: "vmm_map c cpd va va s = Inr s'"
      using m va(3) by (auto simp: vmm_map_def s'_def pte_addr_def)
    note S = set_entry_ok [OF C1 va(1) p va_index_bounds(2) [of va], where v = "va OR 3", folded s'_def]
    have "\<forall>q \<in> H. \<forall>j < 1024. fw s' q j = fw s q j"
      using h(1) kept_outside [OF S(2) dis [OF C1]] by simp
    moreover have "held_frames lo s \<subseteq> held_frames lo s'" using S(2) h(2) by (auto simp: keeps_frames_def)
    moreover have cf: "child_frames s' cpd = child_frames s1 cpd" by (rule child_frames_same) (intro ballI S(3))
    moreover have "held_frames lo s' \<subseteq> held_frames lo s \<union> child_frames s' cpd" "child_frames s cpd \<subseteq> child_frames s' cpd"
      using taken S(5) unfolding cf by simp_all
    moreover have "fw s' cpd j AND 1 \<noteq> 0 \<longleftrightarrow> fw s cpd j AND 1 \<noteq> 0 \<or> j = ?i"
      "fw s' cpd j AND 4 \<noteq> 0 \<longrightarrow> fw s cpd j AND 4 \<noteq> 0" if "j \<in> {512..<1024}" for j
    proof -
      have f: "fw s' cpd j = (if j = ?i then fw s1 cpd ?i else fw s cpd j)" using S(3) [OF that] o that by auto
      show "fw s' cpd j AND 1 \<noteq> 0 \<longleftrightarrow> fw s cpd j AND 1 \<noteq> 0 \<or> j = ?i" unfolding f using p by simp
      show "fw s' cpd j AND 4 \<noteq> 0 \<longrightarrow> fw s cpd j AND 4 \<noteq> 0" unfolding f using u by simp
    qed
    moreover have "pte_at s' cpd j k = (if j = ?i \<and> k = ?k then va OR 3 else pte_at s cpd j k)"
      if "j \<in> {512..<1024}" "k < 1024" for j k using S(4) [OF that] l that by simp
    ultimately show ?thesis using e S(1) by (intro exI [of _ s'] conjI) blast+
  qed
  show ?thesis
  proof (cases "fw s cpd ?i AND 1 = 0")
    case False
    then have "map_pde c cpd va s = Inr (fw s cpd ?i, s)"
      by (simp add: map_pde_def fw_def read32_def Let_def)
    from two [OF this C False] show ?thesis by simp
  next
    case True
    obtain fl where ok: "phys_ok lo s fl" using C by (auto simp: child_ok_def phys_inv_def)
    show ?thesis
    proof (cases "alloc_frame s")
      case (Inl e)
      then have "e = Panic ''no more frames''" by (cases rule: alloc_frame_ok [OF ok]) auto
      then show ?thesis using Inl True by (simp add: vmm_map_def map_pde_def fw_def read32_def Let_def)
    next
      case (Inr q)
      then obtain f t where a: "alloc_frame s = Inr (f, t)" by (cases q) auto
      define s1 where "s1 = write32 (cpd + 4 * ?i) (f OR 3) t"
      note N = new_table_ok [OF C va(1) True a disjI1 [OF refl], folded s1_def]
      have m: "map_pde c cpd va s = Inr (fw s1 cpd ?i, s1)"
        using True a va(3) N(4) by (auto simp: map_pde_def fw_def read32_def s1_def Let_def)
      have x: "fw s1 cpd ?i AND 1 \<noteq> 0" "fw s1 cpd ?i AND 4 = 0" using N(4) entry_simps [OF N(5)] by auto
      have "\<forall>q \<in> H. \<forall>j < 1024. fw s1 q j = fw s q j"
        using kept_outside [OF N(2) dis [OF C]] by (intro ballI allI impI)
      moreover have "held_frames lo s \<subseteq> held_frames lo s1" using N(2) by (simp add: keeps_frames_def)
      ultimately show ?thesis using two [OF m N(1) x(1)] N(6-9) x(2) by simp
    qed
  qed
qed

text \<open>
  The machine: at most 2GB of memory, so that the shared entries stay below the private half, and the
  pages of both APICs in the private half.
\<close>

definition machine_ok :: "Config \<Rightarrow> bool" where
  "machine_ok c \<longleftrightarrow> memSize c \<le> 0x80000000 \<and> offset (ioAPIC c) = 0 \<and> offset (localAPIC c) = 0 \<and>
     0x80000000 \<le> ioAPIC c \<and> 0x80000000 \<le> localAPIC c"

lemma upper_half: "va_pdi va \<in> {512..<1024} \<longleftrightarrow> 0x80000000 \<le> va"
proof -
  have "0x200 \<le> uint va div 0x400000 \<longleftrightarrow> 0x80000000 \<le> uint va" by linarith
  then show ?thesis using va_index_bounds(1) [of va] va_index_uint(1) [of va] by (simp add: word_le_def)
qed

lemma shared_entries:
  assumes "memSize c \<le> 0x80000000"
  shows "unat (4 * ((memSize c + 0x400000 - 1) div 0x400000)) div 4 \<le> 512"
proof -
  have m: "unat (memSize c) \<le> 0x80000000" using assms by (simp add: word_le_nat_alt)
  have e: "memSize c + 0x400000 - 1 = memSize c + 0x3FFFFF" by simp
  have "unat (memSize c + 0x3FFFFF) = unat (memSize c) + 0x3FFFFF"
    by (subst unat_add_bounded) (use m in simp_all)
  then have "unat ((memSize c + 0x3FFFFF) div 0x400000) \<le> 512" using m by (simp add: unat_div)
  then have "unat (4 * ((memSize c + 0x3FFFFF) div 0x400000)) = 4 * unat ((memSize c + 0x3FFFFF) div 0x400000)"
    by (simp add: unat_word_ariths)
  then show ?thesis using \<open>unat ((memSize c + 0x3FFFFF) div 0x400000) \<le> 512\<close> unfolding e by simp
qed

lemma empty_child:
  assumes "phys_inv lo s" "H \<subseteq> held_frames lo s" "cpd \<in> held_frames lo s" "cpd \<notin> H"
    and "\<And>i. i \<in> {512..<1024} \<Longrightarrow> fw s cpd i = 0"
  shows "child_ok lo H s cpd"
proof -
  have "child_frames s cpd = {cpd}" using assms(5) by (auto simp: child_frames_def)
  then show ?thesis using assms unfolding child_ok_def by simp
qed

definition apic_entry :: "Config \<Rightarrow> u32 \<Rightarrow> u32 \<Rightarrow> bool" where
  "apic_entry c i k \<longleftrightarrow> i = va_pdi (ioAPIC c) \<and> k = va_pti (ioAPIC c) \<or>
     i = va_pdi (localAPIC c) \<and> k = va_pti (localAPIC c)"

lemma make_pd_ok:
  assumes inv: "phys_inv lo s" and sh: "shared_pd \<in> held_frames lo s" and m: "machine_ok c"
  shows "make_pd c shared_pd s = Inl (Panic ''no more frames'') \<or>
    (\<exists>cpd s1. make_pd c shared_pd s = Inr (cpd, s1) \<and> child_ok lo (held_frames lo s) s1 cpd \<and>
       (\<forall>q \<in> held_frames lo s. \<forall>j < 1024. fw s1 q j = fw s q j) \<and>
       (\<forall>i \<in> {512..<1024}. fw s1 cpd i AND 1 \<noteq> 0 \<longleftrightarrow> i = va_pdi (ioAPIC c) \<or> i = va_pdi (localAPIC c)) \<and>
       (\<forall>i \<in> {512..<1024}. fw s1 cpd i AND 4 = 0) \<and>
       (\<forall>i \<in> {512..<1024}. \<forall>k < 1024. pte_at s1 cpd i k AND 1 \<noteq> 0 \<longleftrightarrow> apic_entry c i k) \<and>
       held_frames lo s1 \<subseteq> held_frames lo s \<union> child_frames s1 cpd)"
proof (cases "alloc_frame s")
  case (Inl e)
  obtain fl where ok: "phys_ok lo s fl" using inv by (auto simp: phys_inv_def)
  have "e = Panic ''no more frames''" using Inl by (cases rule: alloc_frame_ok [OF ok]) auto
  then show ?thesis using Inl by (simp add: make_pd_def)
next
  case (Inr q)
  then obtain cpd t where a: "alloc_frame s = Inr (cpd, t)" by (cases q) auto
  let ?n = "unat (4 * ((memSize c + 0x400000 - 1) div 0x400000)) div 4" and ?H = "held_frames lo s"
  define s2 where "s2 = copy_words cpd shared_pd ?n t"
  note A = fw_alloc [OF inv a]
  have n: "?n \<le> 512" by (rule shared_entries) (use m in \<open>simp add: machine_ok_def\<close>)
  have ne: "shared_pd \<noteq> cpd" using A(2) sh by auto
  have C: "phys_inv lo s2" "held_frames lo s2 = insert cpd ?H"
    "\<And>q j. offset q = 0 \<Longrightarrow> j < 1024 \<Longrightarrow> fw s2 q j = (if q = cpd \<and> unat j < ?n then fw t shared_pd j else fw t q j)"
    using copy_words_fw [OF A(1) _ held_offset [OF sh] ne, of ?n] n A(3) unfolding s2_def by auto
  have up: "fw s2 cpd i = 0" if "i \<in> {512..<1024}" for i
  proof -
    have "512 \<le> unat i" "i < 1024" using that by (auto simp: word_le_nat_alt)
    then show ?thesis using C(3) [OF A(4)] A(5) [OF A(4)] n by simp
  qed
  have H2: "fw s2 q j = fw s q j" if "q \<in> ?H" "j < 1024" for q j
    using C(3) [OF held_offset [OF that(1)] that(2)] A(5) [OF held_offset [OF that(1)] that(2)] that(1) A(2) by auto
  have C2: "child_ok lo ?H s2 cpd" by (rule empty_child) (use C A(2) up in auto)
  have e: "make_pd c shared_pd s =
      rbind (vmm_map c cpd (ioAPIC c) (ioAPIC c) s2) (\<lambda>s3.
      rbind (vmm_map c cpd (localAPIC c) (localAPIC c) s3) (\<lambda>s4. Inr (cpd, s4)))"
    by (simp add: make_pd_def a s2_def Let_def)
  have io: "va_pdi (ioAPIC c) \<in> {512..<1024}" "offset (ioAPIC c) = 0"
    and loc: "va_pdi (localAPIC c) \<in> {512..<1024}" "offset (localAPIC c) = 0"
    using m upper_half by (auto simp: machine_ok_def)
  from map_apic_ok [OF C2 io disjI1 [OF refl]] show ?thesis
  proof (elim disjE exE conjE)
    assume "vmm_map c cpd (ioAPIC c) (ioAPIC c) s2 = Inl (Panic ''no more frames'')"
    then show ?thesis unfolding e by simp
  next
    fix s3
    assume m3: "vmm_map c cpd (ioAPIC c) (ioAPIC c) s2 = Inr s3" and C3: "child_ok lo ?H s3 cpd"
      and T3: "held_frames lo s3 \<subseteq> held_frames lo s2 \<union> child_frames s3 cpd"
      and H3: "\<forall>q \<in> ?H. \<forall>j < 1024. fw s3 q j = fw s2 q j"
      and p3: "\<forall>j \<in> {512..<1024}. fw s3 cpd j AND 1 \<noteq> 0 \<longleftrightarrow> fw s2 cpd j AND 1 \<noteq> 0 \<or> j = va_pdi (ioAPIC c)"
      and u3: "\<forall>j \<in> {512..<1024}. fw s3 cpd j AND 4 \<noteq> 0 \<longrightarrow> fw s2 cpd j AND 4 \<noteq> 0"
      and l3: "\<forall>j \<in> {512..<1024}. \<forall>l < 1024. pte_at s3 cpd j l =
          (if j = va_pdi (ioAPIC c) \<and> l = va_pti (ioAPIC c) then ioAPIC c OR 3 else pte_at s2 cpd j l)"
    from map_apic_ok [OF C3 loc disjI2 [OF refl]] show ?thesis
    proof (elim disjE exE conjE)
      assume "vmm_map c cpd (localAPIC c) (localAPIC c) s3 = Inl (Panic ''no more frames'')"
      then show ?thesis unfolding e m3 by simp
    next
      fix s4
      assume m4: "vmm_map c cpd (localAPIC c) (localAPIC c) s3 = Inr s4" and C4: "child_ok lo ?H s4 cpd"
        and T4: "held_frames lo s4 \<subseteq> held_frames lo s3 \<union> child_frames s4 cpd" "child_frames s3 cpd \<subseteq> child_frames s4 cpd"
        and H4: "\<forall>q \<in> ?H. \<forall>j < 1024. fw s4 q j = fw s3 q j"
        and p4: "\<forall>j \<in> {512..<1024}. fw s4 cpd j AND 1 \<noteq> 0 \<longleftrightarrow> fw s3 cpd j AND 1 \<noteq> 0 \<or> j = va_pdi (localAPIC c)"
        and u4: "\<forall>j \<in> {512..<1024}. fw s4 cpd j AND 4 \<noteq> 0 \<longrightarrow> fw s3 cpd j AND 4 \<noteq> 0"
        and l4: "\<forall>j \<in> {512..<1024}. \<forall>l < 1024. pte_at s4 cpd j l =
          (if j = va_pdi (localAPIC c) \<and> l = va_pti (localAPIC c) then localAPIC c OR 3 else pte_at s3 cpd j l)"
      have r: "make_pd c shared_pd s = Inr (cpd, s4)" unfolding e m3 by (simp add: m4)
      have sm: "\<forall>q \<in> ?H. \<forall>j < 1024. fw s4 q j = fw s q j" using H4 H3 H2 by simp
      have pr: "\<forall>i \<in> {512..<1024}. fw s4 cpd i AND 1 \<noteq> 0 \<longleftrightarrow> i = va_pdi (ioAPIC c) \<or> i = va_pdi (localAPIC c)"
        using p4 p3 up by simp
      have us: "\<forall>i \<in> {512..<1024}. fw s4 cpd i AND 4 = 0" using u4 u3 up by fastforce
      have ap: "pte_at s4 cpd i k AND 1 \<noteq> 0 \<longleftrightarrow> apic_entry c i k" if "i \<in> {512..<1024}" "k < 1024" for i k
        using l4 l3 that up [OF that(1)] entry_simps(3) [OF io(2)] entry_simps(3) [OF loc(2)]
        by (auto simp: apic_entry_def pte_at_def)
      have tk: "held_frames lo s4 \<subseteq> ?H \<union> child_frames s4 cpd"
      proof
        fix q assume "q \<in> held_frames lo s4"
        then have "q \<in> held_frames lo s2 \<or> q \<in> child_frames s4 cpd" using T3 T4 by (meson UnE subsetD)
        then show "q \<in> ?H \<union> child_frames s4 cpd" using C(2) child_frames_self [of cpd s4] by auto
      qed
      show ?thesis
        by (intro disjI2 exI [of _ cpd] exI [of _ s4] conjI r C4 sm pr us tk) (simp add: ap)
    qed
  qed
qed

section \<open>Fork as the processor sees it\<close>

lemma walk_pte:
  "walk (pm_mem s) pd va =
     (let e = pte_at s pd (va_pdi va) (va_pti va) in
      if e AND 1 = 0 then None
      else Some (pte_addr e OR offset va, fw s pd (va_pdi va) AND 4 \<noteq> 0 \<and> e AND 4 \<noteq> 0))"
  by (simp add: walk_def pte_at_def fw_def Let_def)

lemma va_of_indices:
  assumes "i < (1024 :: u32)" "k < 1024"
  obtains va where "va_pdi va = i" "va_pti va = k" "offset va = 0"
proof -
  let ?n = "uint i * 4194304 + uint k * 4096"
  define va :: u32 where "va = word_of_int ?n"
  have b: "uint i < 1024" "0 \<le> uint i" "uint k < 1024" "0 \<le> uint k" using assms by (auto simp: word_less_def)
  then have "0 \<le> ?n" "?n < 2 ^ 32" by simp_all
  then have v: "uint va = ?n" unfolding va_def by (rule u32_uint)
  have "?n div 4194304 = uint i" "?n div 4096 mod 1024 = uint k" "?n mod 4096 = 0" using b by simp_all
  then have "va_pdi va = i" "va_pti va = k" "offset va = 0"
    using va_index_uint [of va] offset_uint [of va] by (simp_all add: word_uint_eq_iff v)
  then show ?thesis by (rule that)
qed

lemma framedown_or:
  assumes "offset p = 0"
  shows "framedown (p OR offset va) = p"
proof -
  have "uint (offset va) div 0x1000 = 0" by (simp add: offset_uint)
  then have "ppn (offset va) = 0" by (simp add: word_uint_eq_iff ppn_uint)
  then have "ppn (p OR offset va) = ppn p" by (simp add: ppn_def)
  then have "uint (p OR offset va) div 0x1000 = uint p div 0x1000" by (simp add: ppn_uint [symmetric])
  moreover have "0x1000 * (uint p div 0x1000) = uint p" using assms by (simp add: offset_0_iff)
  ultimately show ?thesis by (simp add: word_uint_eq_iff framedown_uint)
qed

text \<open>A private page of the address space: the part of memory that belongs to the process.\<close>

definition private_page :: "Config \<Rightarrow> u32 \<Rightarrow> bool" where
  "private_page c va \<longleftrightarrow> \<not> is_special c (framedown va)"

lemma private_page_iff:
  assumes "machine_ok c"
  shows "private_page c va \<longleftrightarrow> va_pdi va \<in> {512..<1024} \<and> \<not> apic_entry c (va_pdi va) (va_pti va)"
proof -
  have hi: "0x80000000 \<le> framedown va \<longleftrightarrow> va_pdi va \<in> {512..<1024}"
    using upper_half [of "framedown va"] framedown_ppn [of va] by (simp add: same_page_iff)
  have at: "framedown va = a \<longleftrightarrow> va_pdi va = va_pdi a \<and> va_pti va = va_pti a" if "offset a = 0" for a
  proof
    assume "va_pdi va = va_pdi a \<and> va_pti va = va_pti a"
    then have "ppn va = ppn a" by (simp add: same_page_iff)
    then show "framedown va = a"
      using framedown_uint [of va] dvd_mult_div_cancel [OF that[unfolded offset_0_iff]]
      by (simp add: word_uint_eq_iff ppn_uint)
  qed (use framedown_ppn [of va] in \<open>auto simp: same_page_iff\<close>)
  show ?thesis
    using assms hi at unfolding private_page_def is_special_def apic_entry_def machine_ok_def
    by (auto simp: not_less)
qed

text \<open>
  The address space of a process: its directory, the page tables of its private half and its private
  pages are frames that are held.
\<close>

definition process_space :: "Config \<Rightarrow> u32 \<Rightarrow> phys \<Rightarrow> u32 \<Rightarrow> bool" where
  "process_space c lo s pd \<longleftrightarrow> phys_inv lo s \<and> pd \<in> held_frames lo s \<and>
     (\<forall>va. 0x80000000 \<le> va \<and> present (pm_mem s) pd (va_pdi va) \<longrightarrow> table (pm_mem s) pd (va_pdi va) \<in> held_frames lo s) \<and>
     (\<forall>va a u. private_page c va \<and> walk (pm_mem s) pd va = Some (a, u) \<longrightarrow> framedown a \<in> held_frames lo s)"

lemma process_space_parent:
  assumes P: "process_space c lo s pd" and m: "machine_ok c"
    and same: "\<forall>q \<in> held_frames lo s. \<forall>j < 1024. fw s1 q j = fw s q j"
    and apic: "\<forall>i \<in> {512..<1024}. \<forall>k < 1024. pte_at s1 cpd i k AND 1 \<noteq> 0 \<longleftrightarrow> apic_entry c i k"
  shows "parent_ok (held_frames lo s) pd cpd {512..<1024} s1"
    and "\<And>va. va_pdi va \<in> {512..<1024} \<Longrightarrow> pte_at s1 pd (va_pdi va) (va_pti va) = pte_at s pd (va_pdi va) (va_pti va)"
proof -
  let ?H = "held_frames lo s"
  have pd: "pd \<in> ?H" using P by (simp add: process_space_def)
  have e: "fw s1 pd i = fw s pd i" if "i < 1024" for i using same pd that by simp
  have tab: "pte_addr (fw s pd i) \<in> ?H" if i: "i \<in> {512..<1024}" "fw s pd i AND 1 \<noteq> 0" for i
  proof -
    have "i < 1024" using i(1) by simp
    then obtain va where "va_pdi va = i" using va_of_indices [of i 0] by auto
    then show ?thesis
      using P i upper_half [of va] by (auto simp: process_space_def present_def table_def fw_def)
  qed
  have lk: "pte_at s1 pd i k = pte_at s pd i k" if "i \<in> {512..<1024}" "k < 1024" for i k
    using that e tab same by (auto simp: pte_at_def)
  then show "va_pdi va \<in> {512..<1024} \<Longrightarrow> pte_at s1 pd (va_pdi va) (va_pti va) = pte_at s pd (va_pdi va) (va_pti va)" for va
    using va_index_bounds by blast
  have page: "pte_addr (pte_at s1 pd i k) \<in> ?H"
    if i: "i \<in> {512..<1024}" and k: "k < 1024" and n: "to_copy s1 pd cpd i k" for i k
  proof -
    have "i < 1024" using i by simp
    then obtain va where va: "va_pdi va = i" "va_pti va = k" using va_of_indices [OF _ k] by metis
    have np: "\<not> apic_entry c i k" "pte_at s pd i k AND 1 \<noteq> 0"
      using n apic i k lk [OF i k] by (auto simp: to_copy_def needs_copy_def)
    then have "private_page c va" using private_page_iff [OF m] va i by simp
    moreover have "\<exists>u. walk (pm_mem s) pd va = Some (pte_addr (pte_at s pd i k) OR offset va, u)"
      using np(2) va by (simp add: walk_pte Let_def)
    ultimately have "framedown (pte_addr (pte_at s pd i k) OR offset va) \<in> ?H"
      using P by (auto simp: process_space_def)
    then show ?thesis using framedown_or [OF pte_addr_aligned] lk [OF i k] by simp
  qed
  show "parent_ok ?H pd cpd {512..<1024} s1"
    unfolding parent_ok_def using pd e tab page by auto
qed

text \<open>What the processor finds in the child for a private page of the parent.\<close>

definition copied_page :: "Config \<Rightarrow> u32 \<Rightarrow> phys \<Rightarrow> u32 \<Rightarrow> phys \<Rightarrow> u32 \<Rightarrow> u32 \<Rightarrow> bool" where
  "copied_page c lo s pd s' cpd va \<longleftrightarrow>
     (case walk (pm_mem s) pd va of
        None \<Rightarrow> walk (pm_mem s') cpd va = None
      | Some (a, u) \<Rightarrow> \<exists>g. g \<in> held_frames lo s' \<and> g \<notin> held_frames lo s \<and>
          walk (pm_mem s') cpd va =
            Some (g OR offset va, va_pdi va \<noteq> va_pdi (ioAPIC c) \<and> va_pdi va \<noteq> va_pdi (localAPIC c)) \<and>
          (\<forall>j < 1024. fw s' g j = fw s (framedown a) j))"

lemma copied_page_entry:
  assumes m: "machine_ok c" and va: "private_page c va"
    and C1: "child_ok lo (held_frames lo s) s1 cpd" and S: "space_copied lo pd cpd {512..<1024} s1 s'"
    and P: "process_space c lo s pd"
    and same: "\<forall>q \<in> held_frames lo s. \<forall>j < 1024. fw s1 q j = fw s q j"
    and pdes: "\<forall>i \<in> {512..<1024}. fw s1 cpd i AND 1 \<noteq> 0 \<longleftrightarrow> i = va_pdi (ioAPIC c) \<or> i = va_pdi (localAPIC c)"
    and user: "\<forall>i \<in> {512..<1024}. fw s1 cpd i AND 4 = 0"
    and apic: "\<forall>i \<in> {512..<1024}. \<forall>k < 1024. pte_at s1 cpd i k AND 1 \<noteq> 0 \<longleftrightarrow> apic_entry c i k"
  shows "copied_page c lo s pd s' cpd va"
    and "walk (pm_mem s') cpd va = Some (a, u) \<Longrightarrow> to_copy s1 pd cpd (va_pdi va) (va_pti va) \<and>
      framedown a = pte_addr (pte_at s' cpd (va_pdi va) (va_pti va)) \<and> framedown a \<in> held_frames lo s'"
proof -
  let ?i = "va_pdi va" and ?k = "va_pti va"
  let ?old = "pte_at s1 cpd ?i ?k" and ?par = "pte_at s1 pd ?i ?k" and ?new = "pte_at s' cpd ?i ?k"
  have i: "?i \<in> {512..<1024}" "\<not> apic_entry c ?i ?k" using va private_page_iff [OF m] by auto
  have k: "?k < 1024" by (rule va_index_bounds)
  have par: "?par = pte_at s pd ?i ?k" by (rule process_space_parent(2) [OF P m same apic i(1)])
  have old: "?old AND 1 = 0" using apic i k by blast
  have pc: "page_copied lo s1 s' ?old ?par ?new" using S i(1) k by (simp add: space_copied_def)
  have H: "held_frames lo s \<subseteq> held_frames lo s1" using C1 by (simp add: child_ok_def)
  have none: "?new AND 1 = 0" if "?par AND 1 = 0"
    using pc old that by (simp add: page_copied_def needs_copy_def)
  have some: "pte_addr ?new \<in> held_frames lo s' \<and> pte_addr ?new \<notin> held_frames lo s \<and> ?new AND 1 \<noteq> 0 \<and>
      walk (pm_mem s') cpd va =
        Some (pte_addr ?new OR offset va, ?i \<noteq> va_pdi (ioAPIC c) \<and> ?i \<noteq> va_pdi (localAPIC c)) \<and>
      (\<forall>j < 1024. fw s' (pte_addr ?new) j = fw s1 (pte_addr ?par) j)" if "?par AND 1 \<noteq> 0"
  proof -
    have n: "needs_copy ?old ?par" using old that by (simp add: needs_copy_def)
    note D = page_copiedD [OF pc n]
    have fl: "?new AND 1 \<noteq> 0" "?new AND 4 \<noteq> 0"
      using D(3) entry_simps(4,6) [OF pte_addr_aligned [of ?new]] by simp_all
    have pres: "fw s' cpd ?i AND 1 \<noteq> 0"
    proof
      assume "fw s' cpd ?i AND 1 = 0"
      then have "?new = 0" by (simp add: pte_at_def)
      then show False using fl(1) by simp
    qed
    have "fw s' cpd ?i AND 4 \<noteq> 0 \<longleftrightarrow> ?i \<noteq> va_pdi (ioAPIC c) \<and> ?i \<noteq> va_pdi (localAPIC c)"
    proof (cases "fw s1 cpd ?i AND 1 = 0")
      case True
      then have "fw s' cpd ?i AND 4 \<noteq> 0" using S i(1) pres by (simp add: space_copied_def)
      then show ?thesis using True pdes i(1) by blast
    next
      case False
      then have "fw s' cpd ?i = fw s1 cpd ?i" using S i(1) by (simp add: space_copied_def)
      then show ?thesis using False pdes user i(1) by auto
    qed
    then show ?thesis using D fl H by (auto simp: walk_pte Let_def)
  qed
  show "copied_page c lo s pd s' cpd va"
  proof (cases "?par AND 1 = 0")
    case True
    then show ?thesis using none par by (simp add: copied_page_def walk_pte)
  next
    case False
    obtain u where w: "walk (pm_mem s) pd va = Some (pte_addr ?par OR offset va, u)"
      using False par by (simp add: walk_pte Let_def)
    have fd: "framedown (pte_addr ?par OR offset va) = pte_addr ?par" by (rule framedown_or [OF pte_addr_aligned])
    have "framedown (pte_addr ?par OR offset va) \<in> held_frames lo s"
      using P va w unfolding process_space_def by blast
    then have "pte_addr ?par \<in> held_frames lo s" by (simp only: fd)
    then have "\<forall>j < 1024. fw s' (pte_addr ?new) j = fw s (pte_addr ?par) j" using some [OF False] same by simp
    then show ?thesis
      using some [OF False] unfolding copied_page_def w by (auto simp: fd intro!: exI [of _ "pte_addr ?new"])
  qed
  assume w: "walk (pm_mem s') cpd va = Some (a, u)"
  then have p: "?par AND 1 \<noteq> 0" using none by (auto simp: walk_pte Let_def)
  then have "a = pte_addr ?new OR offset va" using some w by simp
  then have "framedown a = pte_addr ?new" by (simp add: framedown_or [OF pte_addr_aligned])
  then show "to_copy s1 pd cpd ?i ?k \<and> framedown a = pte_addr ?new \<and> framedown a \<in> held_frames lo s'"
    using some [OF p] old p by (simp add: to_copy_def needs_copy_def)
qed

section \<open>Properties\<close>

text \<open>What the copy of the upper half gives, once it is made.\<close>

lemma fork_result:
  assumes P: "process_space c lo s pd" and m: "machine_ok c" and C1: "child_ok lo (held_frames lo s) s1 cpd"
    and same: "\<forall>q \<in> held_frames lo s. \<forall>j < 1024. fw s1 q j = fw s q j"
    and pdes: "\<forall>i \<in> {512..<1024}. fw s1 cpd i AND 1 \<noteq> 0 \<longleftrightarrow> i = va_pdi (ioAPIC c) \<or> i = va_pdi (localAPIC c)"
    and user: "\<forall>i \<in> {512..<1024}. fw s1 cpd i AND 4 = 0"
    and apic: "\<forall>i \<in> {512..<1024}. \<forall>k < 1024. pte_at s1 cpd i k AND 1 \<noteq> 0 \<longleftrightarrow> apic_entry c i k"
    and C': "child_ok lo (held_frames lo s) s' cpd" and S: "space_copied lo pd cpd {512..<1024} s1 s'"
  shows "process_space c lo s' cpd \<and> cpd \<notin> held_frames lo s \<and>
    (\<forall>q \<in> held_frames lo s. \<forall>j < 1024. fw s' q j = fw s q j) \<and>
    (\<forall>va. private_page c va \<longrightarrow> copied_page c lo s pd s' cpd va) \<and>
    (\<forall>va va' a a' u u'. private_page c va \<and> private_page c va' \<and> walk (pm_mem s') cpd va = Some (a, u) \<and>
       walk (pm_mem s') cpd va' = Some (a', u') \<and> framedown a = framedown a' \<longrightarrow> ppn va = ppn va')"
proof -
  let ?H = "held_frames lo s"
  note E = copied_page_entry [OF m _ C1 S P same pdes user apic]
  have cf: "child_frames s' cpd \<subseteq> held_frames lo s'" "child_frames s1 cpd \<inter> ?H = {}" "?H \<subseteq> held_frames lo s1"
    using C' C1 by (auto simp: child_ok_def)
  have K: "keeps_frames lo (child_frames s1 cpd) s1 s'" using S by (simp add: space_copied_def)
  have keep: "\<forall>q \<in> ?H. \<forall>j < 1024. fw s' q j = fw s q j"
    using kept_outside [OF K cf(2,3)] same by simp
  have space: "process_space c lo s' cpd"
    unfolding process_space_def
  proof (intro conjI allI impI)
    show "phys_inv lo s'" using C' by (simp add: child_ok_def)
    show "cpd \<in> held_frames lo s'" using cf child_frames_self by blast
    fix va assume "0x80000000 \<le> va \<and> present (pm_mem s') cpd (va_pdi va)"
    then show "table (pm_mem s') cpd (va_pdi va) \<in> held_frames lo s'"
      using upper_half [of va] cf(1) child_frames_table [of "va_pdi va" s' cpd]
      by (auto simp: present_def table_def fw_def)
  next
    fix va a u assume "private_page c va \<and> walk (pm_mem s') cpd va = Some (a, u)"
    then show "framedown a \<in> held_frames lo s'" using E(2) by blast
  qed
  have inj: "ppn va = ppn va'"
    if v: "private_page c va" "private_page c va'" and w: "walk (pm_mem s') cpd va = Some (a, u)"
      "walk (pm_mem s') cpd va' = Some (a', u')" "framedown a = framedown a'" for va va' a a' u u'
  proof -
    have "va_pdi va \<in> {512..<1024}" "va_pdi va' \<in> {512..<1024}" using v private_page_iff [OF m] by auto
    then have "va_pdi va = va_pdi va' \<and> va_pti va = va_pti va'"
      using E(2) [OF v(1) w(1)] E(2) [OF v(2) w(2)] w(3) S va_index_bounds
      unfolding space_copied_def by metis
    then show ?thesis by (simp add: same_page_iff)
  qed
  have new: "cpd \<notin> ?H" using cf(2) child_frames_self [of cpd s1] by blast
  show ?thesis using space new keep E(1) inj by blast
qed

text \<open>The two stages of \<open>fork\<close>: the memory \<open>s1\<close> after \<open>make_pd\<close>, and \<open>s'\<close> at the end.\<close>

lemma fork_space_stages:
  assumes P: "process_space c lo s pd" and sh: "shared_pd \<in> held_frames lo s" and m: "machine_ok c"
  shows "fork_space c shared_pd pd s = Inl (Panic ''no more frames'') \<or>
    (\<exists>cpd s1 s'. fork_space c shared_pd pd s = Inr (cpd, s') \<and> child_ok lo (held_frames lo s) s1 cpd \<and>
       (\<forall>q \<in> held_frames lo s. \<forall>j < 1024. fw s1 q j = fw s q j) \<and>
       (\<forall>i \<in> {512..<1024}. fw s1 cpd i AND 1 \<noteq> 0 \<longleftrightarrow> i = va_pdi (ioAPIC c) \<or> i = va_pdi (localAPIC c)) \<and>
       (\<forall>i \<in> {512..<1024}. fw s1 cpd i AND 4 = 0) \<and>
       (\<forall>i \<in> {512..<1024}. \<forall>k < 1024. pte_at s1 cpd i k AND 1 \<noteq> 0 \<longleftrightarrow> apic_entry c i k) \<and>
       held_frames lo s1 \<subseteq> held_frames lo s \<union> child_frames s1 cpd \<and>
       child_ok lo (held_frames lo s) s' cpd \<and> space_copied lo pd cpd {512..<1024} s1 s')"
proof -
  let ?H = "held_frames lo s"
  have inv: "phys_inv lo s" using P by (simp add: process_space_def)
  from make_pd_ok [OF inv sh m] show ?thesis
  proof (elim disjE exE conjE)
    assume "make_pd c shared_pd s = Inl (Panic ''no more frames'')"
    then show ?thesis by (simp add: fork_space_def)
  next
    fix cpd s1
    assume mk: "make_pd c shared_pd s = Inr (cpd, s1)" and C1: "child_ok lo ?H s1 cpd"
      and same: "\<forall>q \<in> ?H. \<forall>j < 1024. fw s1 q j = fw s q j"
      and pdes: "\<forall>i \<in> {512..<1024}. fw s1 cpd i AND 1 \<noteq> 0 \<longleftrightarrow> i = va_pdi (ioAPIC c) \<or> i = va_pdi (localAPIC c)"
      and user: "\<forall>i \<in> {512..<1024}. fw s1 cpd i AND 4 = 0"
      and apic: "\<forall>i \<in> {512..<1024}. \<forall>k < 1024. pte_at s1 cpd i k AND 1 \<noteq> 0 \<longleftrightarrow> apic_entry c i k"
      and taken: "held_frames lo s1 \<subseteq> ?H \<union> child_frames s1 cpd"
    let ?l = "map word_of_nat [512..<1024]"
    have par: "parent_ok ?H pd cpd (set ?l) s1"
      unfolding upper_indices by (rule process_space_parent(1) [OF P m same apic])
    have "fork_pdes pd cpd ?l s1 = Inl (Panic ''no more frames'') \<or> (\<exists>s'. fork_pdes pd cpd ?l s1 = Inr s' \<and>
        child_ok lo ?H s' cpd \<and> space_copied lo pd cpd (set ?l) s1 s')"
      by (rule fork_pdes_ok [OF C1 par upper_indices(2)]) (simp only: upper_indices order_refl)
    then show ?thesis
    proof (elim disjE exE conjE)
      assume "fork_pdes pd cpd ?l s1 = Inl (Panic ''no more frames'')"
      then show ?thesis using mk by (simp add: fork_space_def del: upt_Suc)
    next
      fix s' assume f: "fork_pdes pd cpd ?l s1 = Inr s'" and C': "child_ok lo ?H s' cpd"
        and "space_copied lo pd cpd (set ?l) s1 s'"
      then have S: "space_copied lo pd cpd {512..<1024} s1 s'" by (simp only: upper_indices)
      have r: "fork_space c shared_pd pd s = Inr (cpd, s')"
        unfolding fork_space_def mk by (simp only: rbind_simps prod.case f)
      show ?thesis
        by (intro disjI2 exI [of _ cpd] exI [of _ s1] exI [of _ s'] conjI r C1 same pdes user apic taken C' S)
    qed
  qed
qed

text \<open>
  C7. \<open>fork\<close> gives the child an address space of its own, unless the frames are used up. No frame that was held
  before changes. A private page is mapped in the child exactly when it is in the parent, to a frame
  that nobody held and that has the contents of the parent's, open to user mode unless it lies in the
  4MB of an APIC; and no two of the child's private pages share a frame.
\<close>

theorem fork_copies:
  assumes P: "process_space c lo s pd" and sh: "shared_pd \<in> held_frames lo s" and m: "machine_ok c"
  shows "fork_space c shared_pd pd s = Inl (Panic ''no more frames'') \<or>
    (\<exists>cpd s'. fork_space c shared_pd pd s = Inr (cpd, s') \<and>
       process_space c lo s' cpd \<and> cpd \<notin> held_frames lo s \<and>
       (\<forall>q \<in> held_frames lo s. \<forall>j < 1024. fw s' q j = fw s q j) \<and>
       (\<forall>va. private_page c va \<longrightarrow> copied_page c lo s pd s' cpd va) \<and>
       (\<forall>va va' a a' u u'. private_page c va \<and> private_page c va' \<and> walk (pm_mem s') cpd va = Some (a, u) \<and>
          walk (pm_mem s') cpd va' = Some (a', u') \<and> framedown a = framedown a' \<longrightarrow> ppn va = ppn va'))"
  using fork_space_stages [OF P sh m]
proof (elim disjE exE conjE)
  fix cpd s1 s'
  assume r: "fork_space c shared_pd pd s = Inr (cpd, s')" and C1: "child_ok lo (held_frames lo s) s1 cpd"
    and same: "\<forall>q \<in> held_frames lo s. \<forall>j < 1024. fw s1 q j = fw s q j"
    and pdes: "\<forall>i \<in> {512..<1024}. fw s1 cpd i AND 1 \<noteq> 0 \<longleftrightarrow> i = va_pdi (ioAPIC c) \<or> i = va_pdi (localAPIC c)"
    and user: "\<forall>i \<in> {512..<1024}. fw s1 cpd i AND 4 = 0"
    and apic: "\<forall>i \<in> {512..<1024}. \<forall>k < 1024. pte_at s1 cpd i k AND 1 \<noteq> 0 \<longleftrightarrow> apic_entry c i k"
    and C': "child_ok lo (held_frames lo s) s' cpd" and S: "space_copied lo pd cpd {512..<1024} s1 s'"
  show ?thesis using r fork_result [OF P m C1 same pdes user apic C' S] by blast
qed simp

text \<open>A directory with one private page, in a range of sixteen frames.\<close>

definition fork_phys :: phys where
  "fork_phys = \<lparr>pm_mem = (\<lambda>_. 7), firstFree = 0, pm_avail = 0x600000, pm_limit = 0x610000\<rparr>"

definition fork_demo :: phys where
  "fork_demo = bzero_frame 0x601000 (bzero_frame 0x600000 fork_phys\<lparr>pm_avail := 0x602000\<rparr>)"

lemma fork_demo_space:
  obtains s where "vmm_map demo_config 0x600000 0x80001000 0x601000 fork_demo = Inr s"
    "process_space demo_config VMM_FRAMES s 0x600000" "walk (pm_mem s) 0x600000 0x80001000 = Some (0x601000, True)"
proof -
  let ?s1 = "bzero_frame 0x600000 (fork_phys\<lparr>pm_avail := 0x601000\<rparr>)"
  have inv: "phys_inv VMM_FRAMES fork_phys"
    by (auto simp: phys_inv_def phys_ok_def fork_phys_def VMM_FRAMES_def offset_def intro!: exI [of _ "[]"])
  have a1: "alloc_frame fork_phys = Inr (0x600000, ?s1)"
    by (simp add: alloc_frame_def take_frame_def fork_phys_def offset_def FRAME_SIZE_def)
  have a2: "alloc_frame ?s1 = Inr (0x601000, fork_demo)"
    by (simp add: alloc_frame_def take_frame_def fork_phys_def fork_demo_def bzero_frame_def offset_def FRAME_SIZE_def
      cong: if_cong)
  have a3: "alloc_frame fork_demo \<noteq> Inl e" for e
    by (simp add: alloc_frame_def take_frame_def fork_phys_def fork_demo_def bzero_frame_def offset_def FRAME_SIZE_def
      cong: if_cong)
  note A = fw_alloc [OF inv a1] and B = fw_alloc [OF fw_alloc(1) [OF inv a1] a2]
  have zero: "fw fork_demo 0x600000 i = 0" if "i < 1024" for i
    using A(5) [OF A(4) that] B(5) [OF A(4) that] by simp
  then have np: "\<not> present (pm_mem fork_demo) 0x600000 i" if "i < 1024" for i
    using that by (simp add: present_def fw_def)
  have sp: "space_ok VMM_FRAMES fork_demo 0x600000"
    using A B np by (auto simp: space_ok_def)
  have off: "offset 0x601000 = 0" by (simp add: offset_def)
  obtain s where s: "vmm_map demo_config 0x600000 0x80001000 0x601000 fork_demo = Inr s"
    using vmm_map_total [OF _ sp] a3 by blast
  note M = vmm_map_ok [OF sp off s]
  have w: "walk (pm_mem s) 0x600000 0x80001000 = Some (0x601000, True)"
    using M(3) np [OF va_index_bounds(1) [of "0x80001000"]] by (simp add: offset_def is_special_def demo_config_def)
  have "process_space demo_config VMM_FRAMES s 0x600000"
    unfolding process_space_def
  proof (intro conjI allI impI)
    show "phys_inv VMM_FRAMES s" "0x600000 \<in> held_frames VMM_FRAMES s" using M(1) by (auto simp: space_ok_def)
    show "table (pm_mem s) 0x600000 (va_pdi va) \<in> held_frames VMM_FRAMES s"
      if "0x80000000 \<le> va \<and> present (pm_mem s) 0x600000 (va_pdi va)" for va
      using space_table(1) [OF M(1) _ va_index_bounds(1)] that by blast
    show "framedown a \<in> held_frames VMM_FRAMES s"
      if "private_page demo_config va \<and> walk (pm_mem s) 0x600000 va = Some (a, u)" for va a u
    proof (cases "ppn va = ppn 0x80001000")
      case True
      have "walk (pm_mem s) 0x600000 va = Some (0x601000 OR offset va, True)"
        by (rule walk_page [OF True [symmetric] _ w]) (simp add: offset_def)
      then have "framedown a = 0x601000" using that framedown_or [OF off] by simp
      then show ?thesis using M(2) B(3) by auto
    next
      case False
      then have "walk (pm_mem fork_demo) 0x600000 va = Some (a, u)" using M(4) that by simp
      then show ?thesis using np [OF va_index_bounds(1) [of va]] by (simp add: walk_alt)
    qed
  qed
  then show ?thesis using that s w by blast
qed

lemma fork_copies_witness:
  "\<exists>s. walk (pm_mem s) 0x600000 0x80001000 = Some (0x601000, True) \<and>
    (fork_space demo_config 0x600000 0x600000 s = Inl (Panic ''no more frames'') \<or>
     (\<exists>cpd s' g. fork_space demo_config 0x600000 0x600000 s = Inr (cpd, s') \<and> g \<noteq> 0x601000 \<and>
        walk (pm_mem s') cpd 0x80001000 = Some (g, True) \<and> (\<forall>j < 1024. fw s' g j = fw s 0x601000 j)))"
proof -
  obtain s where s: "process_space demo_config VMM_FRAMES s 0x600000"
    "walk (pm_mem s) 0x600000 0x80001000 = Some (0x601000, True)" by (rule fork_demo_space)
  have held: "0x600000 \<in> held_frames VMM_FRAMES s" using s(1) by (simp add: process_space_def)
  have m: "machine_ok demo_config" by (simp add: machine_ok_def demo_config_def offset_def)
  have pp: "private_page demo_config 0x80001000"
    by (simp add: private_page_def is_special_def framedown_def FRAME_SIZE_def demo_config_def)
  have fd: "framedown 0x601000 = 0x601000" by (simp add: framedown_def FRAME_SIZE_def)
  have pg: "0x601000 \<in> held_frames VMM_FRAMES s"
    using s pp fd unfolding process_space_def by metis
  have i: "va_pdi 0x80001000 \<noteq> va_pdi (ioAPIC demo_config)" "va_pdi 0x80001000 \<noteq> va_pdi (localAPIC demo_config)"
    by (simp_all add: va_pdi_def demo_config_def)
  from fork_copies [OF s(1) held m] show ?thesis
  proof (elim disjE exE conjE)
    fix cpd s'
    assume f: "fork_space demo_config 0x600000 0x600000 s = Inr (cpd, s')"
      and c: "\<forall>va. private_page demo_config va \<longrightarrow> copied_page demo_config VMM_FRAMES s 0x600000 s' cpd va"
    have "copied_page demo_config VMM_FRAMES s 0x600000 s' cpd 0x80001000" using c pp by blast
    then obtain g where "g \<notin> held_frames VMM_FRAMES s" "walk (pm_mem s') cpd 0x80001000 = Some (g OR offset 0x80001000, True)"
      "\<forall>j < 1024. fw s' g j = fw s 0x601000 j"
      using i by (auto simp: copied_page_def s(2) fd)
    then show ?thesis using f s(2) pg by (intro exI [of _ s] conjI disjI2 exI [of _ cpd] exI [of _ s'] exI [of _ g]) (auto simp: offset_def)
  qed (use s(2) in blast)
qed

end
