(* ===== verification/Teardown.thy ===== *)
theory Teardown
  imports Fork
begin

text \<open>
  What becomes of the frames of a process: \<open>delete_pd\<close>, which the destructor of \<open>Process\<close> calls, and
  \<open>delete_private\<close>, which \<open>exec\<close> calls through \<open>clear_private\<close> (\<open>kernel/vmm.cc\<close>, \<open>kernel/process.cc\<close>). Both loops are
  compared with giving back a list of frames, one after the other, that is fixed before the loop starts.
\<close>

section \<open>Giving back a list of frames\<close>

fun dealloc_all :: "u32 list \<Rightarrow> cpu \<Rightarrow> cpu res" where
  "dealloc_all [] v = Inr v"
| "dealloc_all (p # ps) v = rbind (cpu_dealloc p v) (dealloc_all ps)"

text \<open>\<open>v'\<close> is \<open>v\<close> after the frames \<open>F\<close> were given back.\<close>

definition freed :: "u32 \<Rightarrow> u32 set \<Rightarrow> cpu \<Rightarrow> cpu \<Rightarrow> bool" where
  "freed lo F v v' \<longleftrightarrow> phys_inv lo (cpu_phys v') \<and> held_frames lo (cpu_phys v') = held_frames lo (cpu_phys v) - F \<and>
     cpu_cr3 v' = cpu_cr3 v \<and>
     (\<forall>q j. offset q = 0 \<longrightarrow> j < 1024 \<longrightarrow> q \<notin> F \<longrightarrow> fw (cpu_phys v') q j = fw (cpu_phys v) q j)"

lemma freedD:
  assumes "freed lo F v v'"
  shows "phys_inv lo (cpu_phys v')" "held_frames lo (cpu_phys v') = held_frames lo (cpu_phys v) - F" "cpu_cr3 v' = cpu_cr3 v"
    and "\<And>q j. offset q = 0 \<Longrightarrow> j < 1024 \<Longrightarrow> q \<notin> F \<Longrightarrow> fw (cpu_phys v') q j = fw (cpu_phys v) q j"
  using assms by (simp_all add: freed_def)

lemma freed_trans: "freed lo F v v1 \<Longrightarrow> freed lo G v1 v' \<Longrightarrow> freed lo (F \<union> G) v v'"
  by (auto simp: freed_def)

lemma freed_none: "phys_inv lo (cpu_phys v) \<Longrightarrow> freed lo {} v v"
  by (simp add: freed_def)

lemma cpu_dealloc_freed:
  assumes "phys_inv lo (cpu_phys v)" "p \<in> held_frames lo (cpu_phys v)"
  shows "\<exists>v'. cpu_dealloc p v = Inr v' \<and> freed lo {p} v v' \<and> cpu_flushed v' = cpu_flushed v"
proof -
  obtain fl where ok: "phys_ok lo (cpu_phys v) fl" using assms(1) by (auto simp: phys_inv_def)
  obtain s' where d: "dealloc_frame p (cpu_phys v) = Inr s'" "phys_ok lo s' (p # fl)"
    "pm_mem s' = (pm_mem (cpu_phys v))(p := firstFree (cpu_phys v))" "pm_avail s' = pm_avail (cpu_phys v)"
    by (rule dealloc_frame_ok [OF ok assms(2)])
  have "held_frames lo s' = held_frames lo (cpu_phys v) - {p}"
    using held_frames_iff [OF ok] held_frames_iff [OF d(2)] d(4) by auto
  moreover have "fw s' q j = fw (cpu_phys v) q j" if "offset q = 0" "j < 1024" "q \<noteq> p" for q j
  proof -
    have "q + 4 * j \<noteq> p + 4 * 0"
      using slot_disjoint [OF that(1) held_offset [OF assms(2)] that(3) that(2), of 0] by simp
    then show ?thesis by (simp add: fw_def d(3))
  qed
  ultimately show ?thesis using d(1,2) by (auto simp: cpu_dealloc_def freed_def phys_inv_def)
qed

lemma dealloc_all_freed:
  assumes "phys_inv lo (cpu_phys v)" "distinct ps" "set ps \<subseteq> held_frames lo (cpu_phys v)"
  shows "\<exists>v'. dealloc_all ps v = Inr v' \<and> freed lo (set ps) v v' \<and> cpu_flushed v' = cpu_flushed v"
  using assms
proof (induction ps arbitrary: v)
  case (Cons p ps)
  obtain v1 where v1: "cpu_dealloc p v = Inr v1" "freed lo {p} v v1" "cpu_flushed v1 = cpu_flushed v"
    using cpu_dealloc_freed [of lo v p] Cons.prems by auto
  then obtain v' where "dealloc_all ps v1 = Inr v'" "freed lo (set ps) v1 v'" "cpu_flushed v' = cpu_flushed v1"
    using Cons.IH [of v1] Cons.prems(2,3) freedD(1,2) [OF v1(2)] by auto
  then show ?case using v1 freed_trans [OF v1(2)] by (intro exI [of _ v']) simp
qed (simp add: freed_none)

lemma dealloc_all_append: "dealloc_all (ps @ qs) v = rbind (dealloc_all ps v) (dealloc_all qs)"
proof (induction ps arbitrary: v)
  case (Cons p ps)
  then have "dealloc_all (ps @ qs) = (\<lambda>v. rbind (dealloc_all ps v) (dealloc_all qs))" by (rule ext)
  then show ?case by (simp add: rbind_assoc)
qed simp

section \<open>The frames of an address space\<close>

text \<open>The address whose indices are \<open>i\<close> and \<open>k\<close>, as the loops compute it.\<close>

lemma indices_of_va:
  assumes "i < (1024 :: u32)" "k < 1024"
  shows "va_pdi (push_bit 22 i OR push_bit 12 k) = i" "va_pti (push_bit 22 i OR push_bit 12 k) = k"
    "offset (push_bit 22 i OR push_bit 12 k) = 0"
proof -
  have b: "bit x n \<Longrightarrow> n < 10" if "x < 1024" for x :: u32 and n
  proof -
    have "take_bit 10 x = x" using that by (simp add: word_uint_eq_iff take_bit_eq_mod uint_mod word_less_def)
    then show "bit x n \<Longrightarrow> n < 10" by (metis bit_take_bit_iff)
  qed
  note b = b [OF assms(1)] b [OF assms(2)]
  have d: "(0x3FF :: u32) = mask 10" "(0xFFF :: u32) = mask 12" by (simp_all add: mask_eq_exp_minus_1)
  show "va_pdi (push_bit 22 i OR push_bit 12 k) = i"
    unfolding va_pdi_def by (rule bit_word_eqI) (auto simp: bit_simps dest: b)
  show "va_pti (push_bit 22 i OR push_bit 12 k) = k"
    unfolding va_pti_def d by (rule bit_word_eqI) (auto simp: bit_simps dest: b)
  show "offset (push_bit 22 i OR push_bit 12 k) = 0"
    unfolding offset_def d by (rule bit_word_eqI) (auto simp: bit_simps)
qed

lemma special_entry:
  assumes "machine_ok c" "i \<in> {512..<1024}" "k < 1024"
  shows "is_special c (push_bit 22 i OR push_bit 12 k) \<longleftrightarrow> apic_entry c i k"
proof -
  let ?va = "push_bit 22 i OR push_bit 12 k"
  have i: "i < 1024" using assms(2) by simp
  note I = indices_of_va [OF i assms(3)]
  have "framedown ?va = ?va"
    using dvd_mult_div_cancel [OF iffD1 [OF offset_0_iff I(3)]] by (simp add: word_uint_eq_iff framedown_uint)
  then show ?thesis using private_page_iff [OF assms(1), of ?va] assms(2) by (simp add: private_page_def I(1,2))
qed

text \<open>The pages of the private half, those of the APICs apart, and with them everything the process has.\<close>

definition process_pages :: "Config \<Rightarrow> phys \<Rightarrow> u32 \<Rightarrow> u32 set" where
  "process_pages c s pd = {pte_addr (pte_at s pd i k) | i k.
     i \<in> {512..<1024} \<and> k < 1024 \<and> pte_at s pd i k AND 1 \<noteq> 0 \<and> \<not> apic_entry c i k}"

definition process_frames :: "Config \<Rightarrow> phys \<Rightarrow> u32 \<Rightarrow> u32 set" where
  "process_frames c s pd = child_frames s pd \<union> process_pages c s pd"

text \<open>A process that shares none of its frames with itself: they are held, and each is used once.\<close>

definition exclusive_space :: "Config \<Rightarrow> u32 \<Rightarrow> phys \<Rightarrow> u32 \<Rightarrow> bool" where
  "exclusive_space c lo s pd \<longleftrightarrow> child_ok lo {} s pd \<and> process_pages c s pd \<subseteq> held_frames lo s - child_frames s pd \<and>
     (\<forall>i \<in> {512..<1024}. \<forall>j \<in> {512..<1024}. \<forall>k < 1024. \<forall>l < 1024.
        pte_at s pd i k AND 1 \<noteq> 0 \<and> \<not> apic_entry c i k \<and> pte_at s pd j l AND 1 \<noteq> 0 \<and> \<not> apic_entry c j l \<and>
        pte_addr (pte_at s pd i k) = pte_addr (pte_at s pd j l) \<longrightarrow> i = j \<and> k = l)"

text \<open>The frames in the order of the loops.\<close>

definition page_frames :: "Config \<Rightarrow> phys \<Rightarrow> u32 \<Rightarrow> u32 \<Rightarrow> u32 list \<Rightarrow> u32 list" where
  "page_frames c s i pt ks =
     map (\<lambda>k. pte_addr (fw s pt k)) (filter (\<lambda>k. fw s pt k AND 1 \<noteq> 0 \<and> \<not> is_special c (push_bit 22 i OR push_bit 12 k)) ks)"

definition table_frames :: "Config \<Rightarrow> phys \<Rightarrow> u32 \<Rightarrow> u32 \<Rightarrow> u32 list" where
  "table_frames c s pd i =
     (if fw s pd i AND 1 = 0 then []
      else page_frames c s i (pte_addr (fw s pd i)) (map word_of_nat [0..<1024]) @ [pte_addr (fw s pd i)])"

definition space_frames :: "Config \<Rightarrow> phys \<Rightarrow> u32 \<Rightarrow> u32 list \<Rightarrow> u32 list" where
  "space_frames c s pd is = concat (map (table_frames c s pd) is)"

lemma page_frames_simps:
  "page_frames c s i pt [] = []"
  "page_frames c s i pt (k # ks) =
     (if fw s pt k AND 1 \<noteq> 0 \<and> \<not> is_special c (push_bit 22 i OR push_bit 12 k)
      then pte_addr (fw s pt k) # page_frames c s i pt ks else page_frames c s i pt ks)"
  by (simp_all add: page_frames_def)

lemma page_frames_cong: "(\<And>k. k \<in> set ks \<Longrightarrow> fw s' pt k = fw s pt k) \<Longrightarrow> page_frames c s' i pt ks = page_frames c s i pt ks"
  by (induction ks) (simp_all add: page_frames_simps)

lemma drop_ptes_all:
  assumes "phys_inv lo (cpu_phys v)" "distinct (page_frames c (cpu_phys v) i pt ks)" "offset pt = 0" "\<forall>k \<in> set ks. k < 1024"
    and "set (page_frames c (cpu_phys v) i pt ks) \<subseteq> held_frames lo (cpu_phys v) - {pt}"
  shows "drop_ptes c i pt ks v = dealloc_all (page_frames c (cpu_phys v) i pt ks) v"
  using assms
proof (induction ks arbitrary: v)
  case (Cons k ks)
  let ?e = "fw (cpu_phys v) pt k"
  show ?case
  proof (cases "?e AND 1 \<noteq> 0 \<and> \<not> is_special c (push_bit 22 i OR push_bit 12 k)")
    case False
    have e: "drop_ptes c i pt (k # ks) v = drop_ptes c i pt ks v" using False by (auto simp: fw_def read32_def Let_def)
    have pf: "page_frames c (cpu_phys v) i pt (k # ks) = page_frames c (cpu_phys v) i pt ks"
      using False by (auto simp: page_frames_simps)
    show ?thesis unfolding e pf by (rule Cons.IH) (use Cons.prems pf in auto)
  next
    case True
    then have pf: "page_frames c (cpu_phys v) i pt (k # ks) = pte_addr ?e # page_frames c (cpu_phys v) i pt ks"
      by (simp add: page_frames_simps)
    have e: "drop_ptes c i pt (k # ks) v = rbind (cpu_dealloc (pte_addr ?e) v) (drop_ptes c i pt ks)"
      using True by (simp add: fw_def read32_def pte_addr_def Let_def)
    obtain v1 where v1: "cpu_dealloc (pte_addr ?e) v = Inr v1" "freed lo {pte_addr ?e} v v1"
      using cpu_dealloc_freed [of lo v "pte_addr ?e"] Cons.prems(1,5) pf by auto
    have same: "page_frames c (cpu_phys v1) i pt ks = page_frames c (cpu_phys v) i pt ks"
      by (rule page_frames_cong, rule freedD(4) [OF v1(2)]) (use Cons.prems(3-5) pf in auto)
    have "drop_ptes c i pt ks v1 = dealloc_all (page_frames c (cpu_phys v) i pt ks) v1"
      using Cons.IH [of v1, unfolded same] Cons.prems freedD(1,2) [OF v1(2)] pf by auto
    then show ?thesis unfolding e pf by (simp add: v1(1))
  qed
qed (simp add: page_frames_simps)

lemma table_frames_cong:
  assumes "fw s' pd i = fw s pd i" "\<And>k. fw s pd i AND 1 \<noteq> 0 \<Longrightarrow> k < 1024 \<Longrightarrow> fw s' (pte_addr (fw s pd i)) k = fw s (pte_addr (fw s pd i)) k"
  shows "table_frames c s' pd i = table_frames c s pd i"
proof (cases "fw s pd i AND 1 = 0")
  case False
  have "page_frames c s' i (pte_addr (fw s pd i)) (map word_of_nat [0..<1024]) =
      page_frames c s i (pte_addr (fw s pd i)) (map word_of_nat [0..<1024])"
    by (rule page_frames_cong) (use False assms(2) table_indices(1) in blast)
  then show ?thesis using False by (simp add: table_frames_def assms(1))
qed (simp add: table_frames_def assms(1))

lemma space_frames_simps:
  "space_frames c s pd [] = []" "space_frames c s pd (i # is) = table_frames c s pd i @ space_frames c s pd is"
  by (simp_all add: space_frames_def)

lemma table_in_space:
  "i \<in> set is \<Longrightarrow> fw s pd i AND 1 \<noteq> 0 \<Longrightarrow> pte_addr (fw s pd i) \<in> set (space_frames c s pd is)"
  by (auto simp: space_frames_def table_frames_def)

text \<open>After other frames went back, the rest of the list is still what the loop will find.\<close>

lemma space_frames_cong:
  assumes "freed lo F v v'" "offset pd = 0" "pd \<notin> F" "\<forall>i \<in> set is. i < 1024"
    and "set (space_frames c (cpu_phys v) pd is) \<inter> F = {}"
  shows "space_frames c (cpu_phys v') pd is = space_frames c (cpu_phys v) pd is"
proof -
  have "table_frames c (cpu_phys v') pd i = table_frames c (cpu_phys v) pd i" if i: "i \<in> set is" for i
  proof (rule table_frames_cong)
    show "fw (cpu_phys v') pd i = fw (cpu_phys v) pd i" using freedD(4) [OF assms(1,2)] assms(3,4) i by blast
    show "fw (cpu_phys v') (pte_addr (fw (cpu_phys v) pd i)) k = fw (cpu_phys v) (pte_addr (fw (cpu_phys v) pd i)) k"
      if "fw (cpu_phys v) pd i AND 1 \<noteq> 0" "k < 1024" for k
      using freedD(4) [OF assms(1) pte_addr_aligned that(2)] table_in_space [OF i that(1), of c] assms(5) by blast
  qed
  then show ?thesis unfolding space_frames_def by (intro arg_cong [of _ _ concat] map_cong refl)
qed

lemma drop_pdes_all:
  assumes "phys_inv lo (cpu_phys v)" "offset pd = 0" "\<forall>i \<in> set is. i < 1024"
    and "distinct (space_frames c (cpu_phys v) pd is)"
    and "set (space_frames c (cpu_phys v) pd is) \<subseteq> held_frames lo (cpu_phys v) - {pd}"
  shows "drop_pdes c pd is v = dealloc_all (space_frames c (cpu_phys v) pd is) v"
  using assms
proof (induction "is" arbitrary: v)
  case (Cons i "is")
  let ?e = "fw (cpu_phys v) pd i"
  show ?case
  proof (cases "?e AND 1 = 0")
    case True
    have e: "drop_pdes c pd (i # is) v = drop_pdes c pd is v" using True by (simp add: fw_def read32_def Let_def)
    have sf: "space_frames c (cpu_phys v) pd (i # is) = space_frames c (cpu_phys v) pd is"
      using True by (simp add: space_frames_simps table_frames_def)
    show ?thesis unfolding e sf by (rule Cons.IH) (use Cons.prems sf in auto)
  next
    case False
    let ?pt = "pte_addr ?e" and ?ks = "map word_of_nat [0..<1024] :: u32 list"
    let ?ps = "page_frames c (cpu_phys v) i ?pt ?ks"
    have sf: "space_frames c (cpu_phys v) pd (i # is) = (?ps @ [?pt]) @ space_frames c (cpu_phys v) pd is"
      using False by (simp add: space_frames_simps table_frames_def)
    have e: "drop_pdes c pd (i # is) v =
        rbind (drop_ptes c i ?pt ?ks v) (\<lambda>v1. rbind (cpu_dealloc ?pt v1) (drop_pdes c pd is))"
      using False by (simp add: fw_def read32_def pte_addr_def Let_def del: drop_ptes.simps)
    have in1: "drop_ptes c i ?pt ?ks v = dealloc_all ?ps v"
      by (rule drop_ptes_all [OF Cons.prems(1) _ pte_addr_aligned]) (use Cons.prems(4,5) sf table_indices(1) in auto)
    have hd: "drop_pdes c pd (i # is) v = rbind (dealloc_all (?ps @ [?pt]) v) (drop_pdes c pd is)"
      unfolding e in1 dealloc_all_append by (simp add: rbind_assoc)
    obtain v1 where v1: "dealloc_all (?ps @ [?pt]) v = Inr v1" "freed lo (set (?ps @ [?pt])) v v1"
      using dealloc_all_freed [of lo v "?ps @ [?pt]"] Cons.prems(1,4,5) sf by auto
    have same: "space_frames c (cpu_phys v1) pd is = space_frames c (cpu_phys v) pd is"
      by (rule space_frames_cong [OF v1(2) Cons.prems(2)]) (use Cons.prems(3-5) sf in auto)
    have "drop_pdes c pd is v1 = dealloc_all (space_frames c (cpu_phys v) pd is) v1"
      by (rule Cons.IH [of v1, unfolded same])
        (use Cons.prems sf freedD(1,2) [OF v1(2)] in auto)
    then show ?thesis unfolding hd sf dealloc_all_append [of "?ps @ [?pt]"] by (simp only: v1(1) rbind_simps)
  qed
qed (simp add: space_frames_simps)

lemma distinct_concat_map:
  assumes "distinct xs" "\<And>x. x \<in> set xs \<Longrightarrow> distinct (f x)"
    and "\<And>x y. x \<in> set xs \<Longrightarrow> y \<in> set xs \<Longrightarrow> x \<noteq> y \<Longrightarrow> set (f x) \<inter> set (f y) = {}"
  shows "distinct (concat (map f xs))"
  using assms
proof (induction xs)
  case (Cons x xs)
  have "set (f x) \<inter> (\<Union>y \<in> set xs. set (f y)) = {}" using Cons.prems(1) Cons.prems(3) [of x] by auto
  then show ?case using Cons by simp
qed simp

lemma exclusiveD:
  assumes "exclusive_space c lo s pd"
  shows "child_ok lo {} s pd" "phys_inv lo s" "pd \<in> held_frames lo s" "process_frames c s pd \<subseteq> held_frames lo s"
    "process_pages c s pd \<inter> child_frames s pd = {}"
    and "\<And>i j k l. i \<in> {512..<1024} \<Longrightarrow> j \<in> {512..<1024} \<Longrightarrow> k < 1024 \<Longrightarrow> l < 1024 \<Longrightarrow>
      pte_at s pd i k AND 1 \<noteq> 0 \<Longrightarrow> \<not> apic_entry c i k \<Longrightarrow> pte_at s pd j l AND 1 \<noteq> 0 \<Longrightarrow> \<not> apic_entry c j l \<Longrightarrow>
      pte_addr (pte_at s pd i k) = pte_addr (pte_at s pd j l) \<Longrightarrow> i = j \<and> k = l"
  using assms child_frames_self [of pd s] unfolding exclusive_space_def child_ok_def process_frames_def by blast+

lemma process_page: "i \<in> {512..<1024} \<Longrightarrow> k < 1024 \<Longrightarrow> pte_at s pd i k AND 1 \<noteq> 0 \<Longrightarrow> \<not> apic_entry c i k \<Longrightarrow>
    pte_addr (pte_at s pd i k) \<in> process_pages c s pd"
  by (auto simp: process_pages_def)

lemma table_frames_facts:
  assumes E: "exclusive_space c lo s pd" and m: "machine_ok c" and i: "i \<in> {512..<1024}"
  shows "set (table_frames c s pd i) =
      {pte_addr (pte_at s pd i k) | k. k < 1024 \<and> pte_at s pd i k AND 1 \<noteq> 0 \<and> \<not> apic_entry c i k} \<union>
      (if fw s pd i AND 1 = 0 then {} else {pte_addr (fw s pd i)})"
    and "distinct (table_frames c s pd i)"
proof -
  let ?pt = "pte_addr (fw s pd i)" and ?ks = "map word_of_nat [0..<1024] :: u32 list"
  have pf: "page_frames c s i ?pt ?ks =
      map (\<lambda>k. pte_addr (pte_at s pd i k)) (filter (\<lambda>k. pte_at s pd i k AND 1 \<noteq> 0 \<and> \<not> apic_entry c i k) ?ks)"
    if p: "fw s pd i AND 1 \<noteq> 0"
  proof -
    have "filter (\<lambda>k. fw s ?pt k AND 1 \<noteq> 0 \<and> \<not> is_special c (push_bit 22 i OR push_bit 12 k)) ?ks =
        filter (\<lambda>k. pte_at s pd i k AND 1 \<noteq> 0 \<and> \<not> apic_entry c i k) ?ks"
      using table_indices(1) special_entry [OF m i] p by (intro filter_cong refl) (auto simp: pte_at_def simp del: set_map)
    then show ?thesis using p by (simp add: page_frames_def pte_at_def)
  qed
  show set: "set (table_frames c s pd i) =
      {pte_addr (pte_at s pd i k) | k. k < 1024 \<and> pte_at s pd i k AND 1 \<noteq> 0 \<and> \<not> apic_entry c i k} \<union>
      (if fw s pd i AND 1 = 0 then {} else {?pt})"
  proof (cases "fw s pd i AND 1 = 0")
    case False
    have "set (page_frames c s i ?pt ?ks) =
        {pte_addr (pte_at s pd i k) | k. k < 1024 \<and> pte_at s pd i k AND 1 \<noteq> 0 \<and> \<not> apic_entry c i k}"
      unfolding pf [OF False] set_map [of "\<lambda>k. pte_addr (pte_at s pd i k)"] set_filter table_indices(1) by auto
    then show ?thesis using False by (simp add: table_frames_def)
  qed (simp add: table_frames_def pte_at_def)
  show "distinct (table_frames c s pd i)"
  proof (cases "fw s pd i AND 1 = 0")
    case False
    have ks: "k < 1024" if "k \<in> set ?ks" for k using that table_indices(1) by blast
    have "inj_on (\<lambda>k. pte_addr (pte_at s pd i k)) {k \<in> set ?ks. pte_at s pd i k AND 1 \<noteq> 0 \<and> \<not> apic_entry c i k}"
      by (rule inj_onI) (use exclusiveD(6) [OF E i i ks ks] in blast)
    then have "distinct (page_frames c s i ?pt ?ks)"
      unfolding pf [OF False] distinct_map [of "\<lambda>k. pte_addr (pte_at s pd i k)"]
      using table_indices(2) by (simp only: distinct_filter set_filter simp_thms)
    moreover have "?pt \<notin> set (page_frames c s i ?pt ?ks)"
    proof
      assume "?pt \<in> set (page_frames c s i ?pt ?ks)"
      then obtain k where "k \<in> set ?ks" "pte_at s pd i k AND 1 \<noteq> 0" "\<not> apic_entry c i k" "?pt = pte_addr (pte_at s pd i k)"
        unfolding pf [OF False] set_map [of "\<lambda>k. pte_addr (pte_at s pd i k)"] set_filter by blast
      then have "?pt \<in> process_pages c s pd" using process_page [OF i ks] by metis
      then show False using child_frames_table [OF i False] exclusiveD(5) [OF E] by blast
    qed
    ultimately show ?thesis using False by (simp add: table_frames_def)
  qed (simp add: table_frames_def)
qed

lemma table_frames_cases:
  assumes "exclusive_space c lo s pd" "machine_ok c" "i \<in> {512..<1024}" "q \<in> set (table_frames c s pd i)"
  obtains (page) k where "k < 1024" "pte_at s pd i k AND 1 \<noteq> 0" "\<not> apic_entry c i k" "q = pte_addr (pte_at s pd i k)"
      "q \<in> process_pages c s pd"
  | (table) "fw s pd i AND 1 \<noteq> 0" "q = pte_addr (fw s pd i)" "q \<in> child_frames s pd"
proof -
  from assms(4) consider k where "k < 1024" "pte_at s pd i k AND 1 \<noteq> 0" "\<not> apic_entry c i k" "q = pte_addr (pte_at s pd i k)"
    | "fw s pd i AND 1 \<noteq> 0" "q = pte_addr (fw s pd i)"
    unfolding table_frames_facts(1) [OF assms(1-3)] by (auto split: if_splits)
  then show thesis
    by cases (use page process_page [OF assms(3)] table child_frames_table [OF assms(3)] in blast)+
qed

lemma upper_frames:
  assumes E: "exclusive_space c lo s pd" and m: "machine_ok c"
  defines "fs \<equiv> space_frames c s pd (map word_of_nat [512..<1024])"
  shows "insert pd (set fs) = process_frames c s pd" "pd \<notin> set fs" "distinct fs"
proof -
  have set: "set fs = (\<Union>i \<in> {512..<1024}. set (table_frames c s pd i))"
    by (simp only: fs_def space_frames_def set_concat set_map [of "table_frames c s pd"] upper_indices image_image)
  have tab: "set (table_frames c s pd i) =
      {pte_addr (pte_at s pd i k) | k. k < 1024 \<and> pte_at s pd i k AND 1 \<noteq> 0 \<and> \<not> apic_entry c i k} \<union>
      (if fw s pd i AND 1 = 0 then {} else {pte_addr (fw s pd i)})" if "i \<in> {512..<1024}" for i
    by (rule table_frames_facts(1) [OF E m that])
  show "insert pd (set fs) = process_frames c s pd"
    unfolding set process_frames_def child_frames_def process_pages_def
    using tab by (auto split: if_splits) blast+
  show "pd \<notin> set fs"
  proof
    assume "pd \<in> set fs"
    then obtain i where i: "i \<in> {512..<1024}" "pd \<in> set (table_frames c s pd i)" unfolding set by blast
    from E m i show False
    proof (cases rule: table_frames_cases)
      case page
      then show False using child_frames_self [of pd s] exclusiveD(5) [OF E] by blast
    next
      case table
      then show False using child_tables(3) [OF exclusiveD(1) [OF E] i(1)] by metis
    qed
  qed
  have "False" if ij: "i \<in> {512..<1024}" "j \<in> {512..<1024}" "i \<noteq> j"
    and q: "q \<in> set (table_frames c s pd i)" "q \<in> set (table_frames c s pd j)" for i j q
    using E m ij(1) q(1)
  proof (cases rule: table_frames_cases)
    case 1: (page k)
    from E m ij(2) q(2) show False
    proof (cases rule: table_frames_cases)
      case (page l)
      then show False using exclusiveD(6) [OF E ij(1,2) 1(1) page(1) 1(2,3) page(2,3)] 1(4) ij(3) by simp
    qed (use 1(5) exclusiveD(5) [OF E] in blast)
  next
    case 1: table
    from E m ij(2) q(2) show False
    proof (cases rule: table_frames_cases)
      case table
      then show False using child_tables(4) [OF exclusiveD(1) [OF E] ij(1) 1(1) ij(2)] 1(2) ij(3) by simp
    qed (use 1(3) exclusiveD(5) [OF E] in blast)
  qed
  then have "set (table_frames c s pd i) \<inter> set (table_frames c s pd j) = {}"
    if "i \<in> {512..<1024}" "j \<in> {512..<1024}" "i \<noteq> j" for i j using that by blast
  then show "distinct fs"
    unfolding fs_def space_frames_def
    by (intro distinct_concat_map upper_indices(2)) (use table_frames_facts(2) [OF E m] upper_indices(1) in blast)+
qed

section \<open>The destructor\<close>

lemma delete_pd_freed:
  assumes E: "exclusive_space c lo (cpu_phys v) pd" and m: "machine_ok c" and ne: "cpu_cr3 v \<noteq> pd"
  shows "\<exists>v'. delete_pd c pd v = Inr v' \<and> freed lo (process_frames c (cpu_phys v) pd) v v' \<and> cpu_flushed v' = cpu_flushed v"
proof -
  let ?l = "map word_of_nat [512..<1024] :: u32 list"
  let ?fs = "space_frames c (cpu_phys v) pd ?l"
  note U = upper_frames [OF E m] and D = exclusiveD [OF E]
  have sub: "set ?fs \<subseteq> held_frames lo (cpu_phys v) - {pd}" using U(1,2) D(4) by blast
  have drop: "drop_pdes c pd ?l v = dealloc_all ?fs v"
    by (rule drop_pdes_all [OF D(2) held_offset [OF D(3)] _ U(3) sub]) (use upper_indices(1) in force)
  have a: "ASSERT (pd \<noteq> cpu_cr3 v) = Inr ()" using ne by simp
  have one: "dealloc_all [pd] = cpu_dealloc pd"
    by (rule ext) (simp add: rbind_def split: sum.split)
  have "delete_pd c pd v = dealloc_all (?fs @ [pd]) v"
    by (simp only: delete_pd_def a rbind_simps drop dealloc_all_append one)
  moreover have "set (?fs @ [pd]) = process_frames c (cpu_phys v) pd" using U(1) by simp
  moreover have "distinct (?fs @ [pd])" "set (?fs @ [pd]) \<subseteq> held_frames lo (cpu_phys v)" using U(2,3) sub D(3) by auto
  ultimately show ?thesis using dealloc_all_freed [OF D(2), of "?fs @ [pd]"] by simp
qed

end
