(* ===== verification/Clear_Space.thy ===== *)
theory Clear_Space
  imports Teardown
begin

text \<open>
  \<open>delete_private\<close> of \<open>kernel/vmm.cc\<close>, with which \<open>exec\<close> empties the private half of the address space it runs in:
  one page table at a time, then the whole half.
\<close>

section \<open>Clearing a page table\<close>

text \<open>
  \<open>v'\<close> is \<open>v\<close> after the frames \<open>F\<close> were given back and word \<open>j\<close> of every other frame \<open>q\<close> became \<open>g q j\<close>.
\<close>

definition updated :: "u32 \<Rightarrow> u32 set \<Rightarrow> (u32 \<Rightarrow> u32 \<Rightarrow> u32) \<Rightarrow> cpu \<Rightarrow> cpu \<Rightarrow> bool" where
  "updated lo F g v v' \<longleftrightarrow> phys_inv lo (cpu_phys v') \<and> held_frames lo (cpu_phys v') = held_frames lo (cpu_phys v) - F \<and>
     cpu_cr3 v' = cpu_cr3 v \<and>
     (\<forall>q j. offset q = 0 \<longrightarrow> j < 1024 \<longrightarrow> q \<notin> F \<longrightarrow> fw (cpu_phys v') q j = g q j)"

lemma updatedD:
  assumes "updated lo F g v v'"
  shows "phys_inv lo (cpu_phys v')" "held_frames lo (cpu_phys v') = held_frames lo (cpu_phys v) - F" "cpu_cr3 v' = cpu_cr3 v"
    and "\<And>q j. offset q = 0 \<Longrightarrow> j < 1024 \<Longrightarrow> q \<notin> F \<Longrightarrow> fw (cpu_phys v') q j = g q j"
  using assms by (simp_all add: updated_def)

text \<open>Clearing the entry \<open>i\<close> of the frame \<open>p\<close> and giving back another frame.\<close>

lemma clear_dealloc:
  assumes "phys_inv lo (cpu_phys v)" "p \<in> held_frames lo (cpu_phys v)" "q \<in> held_frames lo (cpu_phys v)" "i < 1024"
  shows "\<exists>v'. cpu_dealloc q (cpu_write32 (p + 4 * i) 0 v) = Inr v' \<and> cpu_flushed v' = cpu_flushed v \<and>
    updated lo {q} (\<lambda>r j. if r = p \<and> j = i then 0 else fw (cpu_phys v) r j) v v'"
proof -
  let ?v = "cpu_write32 (p + 4 * i) 0 v"
  note o = held_offset [OF assms(2)]
  have W: "phys_inv lo (cpu_phys ?v)" "held_frames lo (cpu_phys ?v) = held_frames lo (cpu_phys v)"
    using held_write [OF assms(1,2) o assms(4), of 0] by (simp_all add: cpu_write32_def)
  have F: "fw (cpu_phys ?v) r j = (if r = p \<and> j = i then 0 else fw (cpu_phys v) r j)" if "offset r = 0" "j < 1024" for r j
    using fw_write [OF o assms(4) that, of 0] by (simp add: cpu_write32_def)
  obtain v' where v': "cpu_dealloc q ?v = Inr v'" "freed lo {q} ?v v'" "cpu_flushed v' = cpu_flushed ?v"
    using cpu_dealloc_freed [OF W(1), of q] W(2) assms(3) by auto
  show ?thesis
    using v' W F by (auto simp: freed_def updated_def cpu_write32_def intro!: exI [of _ v'])
qed

definition own_va :: "u32 \<Rightarrow> u32 \<Rightarrow> u32" where
  "own_va i k = push_bit 22 i OR push_bit 12 k"

definition goes :: "Config \<Rightarrow> phys \<Rightarrow> u32 \<Rightarrow> u32 \<Rightarrow> u32 \<Rightarrow> bool" where
  "goes c s i pt k \<longleftrightarrow> fw s pt k AND 1 \<noteq> 0 \<and> \<not> is_special c (own_va i k)"

lemma page_frames_goes: "page_frames c s i pt ks = map (\<lambda>k. pte_addr (fw s pt k)) (filter (goes c s i pt) ks)"
  by (simp add: page_frames_def goes_def [abs_def] own_va_def)

lemma delete_ptes_ok:
  assumes "phys_inv lo (cpu_phys v)" "pt \<in> held_frames lo (cpu_phys v)" "\<forall>k \<in> set ks. k < 1024" "distinct ks"
    and "distinct (page_frames c (cpu_phys v) i pt ks)"
    and "set (page_frames c (cpu_phys v) i pt ks) \<subseteq> held_frames lo (cpu_phys v) - {pt}"
  shows "\<exists>v'. delete_ptes c i pt ks sp v = Inr (sp \<or> (\<exists>k \<in> set ks. is_special c (own_va i k)), v') \<and>
    cpu_flushed v' = rev (map (own_va i) (filter (goes c (cpu_phys v) i pt) ks)) @ cpu_flushed v \<and>
    updated lo (set (page_frames c (cpu_phys v) i pt ks))
      (\<lambda>q j. if q = pt \<and> j \<in> set ks \<and> goes c (cpu_phys v) i pt j then 0 else fw (cpu_phys v) q j) v v'"
  using assms
proof (induction ks arbitrary: v sp)
  case Nil
  then show ?case by (simp add: page_frames_simps updated_def)
next
  case (Cons k ks)
  let ?e = "fw (cpu_phys v) pt k" and ?s = "cpu_phys v"
  show ?case
  proof (cases "goes c ?s i pt k")
    case False
    let ?sp = "sp \<or> is_special c (own_va i k)"
    have e: "delete_ptes c i pt (k # ks) sp v = delete_ptes c i pt ks ?sp v"
      using False by (auto simp: goes_def own_va_def fw_def read32_def Let_def)
    have pf: "page_frames c ?s i pt (k # ks) = page_frames c ?s i pt ks" using False by (simp add: page_frames_goes)
    obtain v' where "delete_ptes c i pt ks ?sp v = Inr (?sp \<or> (\<exists>k \<in> set ks. is_special c (own_va i k)), v')"
      "cpu_flushed v' = rev (map (own_va i) (filter (goes c ?s i pt) ks)) @ cpu_flushed v"
      "updated lo (set (page_frames c ?s i pt ks)) (\<lambda>q j. if q = pt \<and> j \<in> set ks \<and> goes c ?s i pt j then 0 else fw ?s q j) v v'"
      using Cons.IH [of v ?sp] Cons.prems pf by auto
    then show ?thesis unfolding e pf using False by (intro exI [of _ v']) (auto simp: updated_def)
  next
    case True
    let ?p = "pte_addr ?e"
    have pf: "page_frames c ?s i pt (k # ks) = ?p # page_frames c ?s i pt ks" using True by (simp add: page_frames_goes)
    have ns: "\<not> is_special c (own_va i k)" using True by (simp add: goes_def)
    have p: "?p \<in> held_frames lo ?s" "?p \<noteq> pt" "?p \<notin> set (page_frames c ?s i pt ks)" using Cons.prems(5,6) pf by auto
    obtain v1 where v1: "cpu_dealloc ?p (cpu_write32 (pt + 4 * k) 0 v) = Inr v1" "cpu_flushed v1 = cpu_flushed v"
      "updated lo {?p} (\<lambda>r j. if r = pt \<and> j = k then 0 else fw ?s r j) v v1"
      using clear_dealloc [OF Cons.prems(1,2) p(1), of k] Cons.prems(3) by auto
    let ?v2 = "invlpg (own_va i k) v1"
    have phys: "cpu_phys ?v2 = cpu_phys v1" by (simp add: invlpg_def)
    have e: "delete_ptes c i pt (k # ks) sp v = delete_ptes c i pt ks sp ?v2"
      using True v1(1) by (simp add: goes_def own_va_def fw_def read32_def pte_addr_def Let_def)
    note W = updatedD [OF v1(3)]
    have k: "k \<notin> set ks" using Cons.prems(4) by simp
    have word: "fw (cpu_phys v1) pt j = fw ?s pt j" if "j \<in> set ks" for j
      using W(4) [OF held_offset [OF Cons.prems(2)], of j] that Cons.prems(3) p(2) k by auto
    have g: "goes c (cpu_phys v1) i pt j = goes c ?s i pt j" if "j \<in> set ks" for j
      by (simp add: goes_def word [OF that])
    have same: "page_frames c (cpu_phys v1) i pt ks = page_frames c ?s i pt ks" by (rule page_frames_cong [OF word])
    have fl: "filter (goes c (cpu_phys v1) i pt) ks = filter (goes c ?s i pt) ks" by (rule filter_cong) (simp_all add: g)
    obtain v' where v': "delete_ptes c i pt ks sp ?v2 = Inr (sp \<or> (\<exists>k \<in> set ks. is_special c (own_va i k)), v')"
      "cpu_flushed v' = rev (map (own_va i) (filter (goes c ?s i pt) ks)) @ cpu_flushed ?v2"
      "updated lo (set (page_frames c ?s i pt ks))
        (\<lambda>q j. if q = pt \<and> j \<in> set ks \<and> goes c (cpu_phys v1) i pt j then 0 else fw (cpu_phys v1) q j) ?v2 v'"
      using Cons.IH [of ?v2 sp] Cons.prems W(1,2) p unfolding phys same fl pf by auto
    have "fw (cpu_phys v') q j = (if q = pt \<and> j \<in> set (k # ks) \<and> goes c ?s i pt j then 0 else fw ?s q j)"
      if q: "offset q = 0" "j < 1024" "q \<notin> set (page_frames c ?s i pt (k # ks))" for q j
      using updatedD(4) [OF v'(3) q(1,2)] W(4) [OF q(1,2)] q(3) pf g [of j] k True by auto
    then have "updated lo (set (page_frames c ?s i pt (k # ks)))
        (\<lambda>q j. if q = pt \<and> j \<in> set (k # ks) \<and> goes c ?s i pt j then 0 else fw ?s q j) v v'"
      using updatedD(1-3) [OF v'(3)] W(2,3) pf by (auto simp: updated_def invlpg_def)
    then show ?thesis
      unfolding e using v'(1,2) v1(2) True ns by (intro exI [of _ v']) (simp add: invlpg_def)
  qed
qed

section \<open>Clearing the private half\<close>

definition apic_table :: "Config \<Rightarrow> u32 \<Rightarrow> bool" where
  "apic_table c i \<longleftrightarrow> i = va_pdi (ioAPIC c) \<or> i = va_pdi (localAPIC c)"

lemma apic_table_entry: "apic_table c i \<longleftrightarrow> (\<exists>k < 1024. apic_entry c i k)"
  using va_index_bounds(2) by (auto simp: apic_table_def apic_entry_def)

text \<open>A private page of the directory \<open>pd\<close>, and the frames that go with the tables \<open>I\<close>.\<close>

definition own_page :: "Config \<Rightarrow> phys \<Rightarrow> u32 \<Rightarrow> u32 \<Rightarrow> u32 \<Rightarrow> bool" where
  "own_page c s pd i k \<longleftrightarrow> k < 1024 \<and> pte_at s pd i k AND 1 \<noteq> 0 \<and> \<not> apic_entry c i k"

definition gone :: "Config \<Rightarrow> phys \<Rightarrow> u32 \<Rightarrow> u32 set \<Rightarrow> u32 set" where
  "gone c s pd I = {pte_addr (pte_at s pd i k) | i k. i \<in> I \<and> own_page c s pd i k} \<union>
     {pte_addr (fw s pd i) | i. i \<in> I \<and> fw s pd i AND 1 \<noteq> 0 \<and> \<not> apic_table c i}"

definition cleared :: "Config \<Rightarrow> u32 \<Rightarrow> u32 \<Rightarrow> u32 set \<Rightarrow> cpu \<Rightarrow> cpu \<Rightarrow> bool" where
  "cleared c lo pd I v v' \<longleftrightarrow>
     phys_inv lo (cpu_phys v') \<and> held_frames lo (cpu_phys v') = held_frames lo (cpu_phys v) - gone c (cpu_phys v) pd I \<and>
     cpu_cr3 v' = cpu_cr3 v \<and>
     (\<forall>j < 1024. fw (cpu_phys v') pd j =
        (if j \<in> I \<and> fw (cpu_phys v) pd j AND 1 \<noteq> 0 \<and> \<not> apic_table c j then 0 else fw (cpu_phys v) pd j)) \<and>
     (\<forall>j \<in> {512..<1024}. \<forall>k < 1024. if j \<in> I \<and> \<not> apic_entry c j k then pte_at (cpu_phys v') pd j k AND 1 = 0
        else pte_at (cpu_phys v') pd j k = pte_at (cpu_phys v) pd j k) \<and>
     (\<forall>q j. offset q = 0 \<longrightarrow> j < 1024 \<longrightarrow> q \<notin> process_frames c (cpu_phys v) pd \<longrightarrow> fw (cpu_phys v') q j = fw (cpu_phys v) q j) \<and>
     set (cpu_flushed v') = set (cpu_flushed v) \<union> {own_va i k | i k. i \<in> I \<and> own_page c (cpu_phys v) pd i k}"

lemma clearedD:
  assumes "cleared c lo pd I v v'"
  shows "phys_inv lo (cpu_phys v')" "held_frames lo (cpu_phys v') = held_frames lo (cpu_phys v) - gone c (cpu_phys v) pd I"
    "cpu_cr3 v' = cpu_cr3 v"
    and "\<And>j. j < 1024 \<Longrightarrow> fw (cpu_phys v') pd j =
      (if j \<in> I \<and> fw (cpu_phys v) pd j AND 1 \<noteq> 0 \<and> \<not> apic_table c j then 0 else fw (cpu_phys v) pd j)"
    and "\<And>j k. j \<in> {512..<1024} \<Longrightarrow> k < 1024 \<Longrightarrow> j \<notin> I \<or> apic_entry c j k \<Longrightarrow>
      pte_at (cpu_phys v') pd j k = pte_at (cpu_phys v) pd j k"
    and "\<And>j k. j \<in> {512..<1024} \<Longrightarrow> k < 1024 \<Longrightarrow> j \<in> I \<Longrightarrow> \<not> apic_entry c j k \<Longrightarrow> pte_at (cpu_phys v') pd j k AND 1 = 0"
    and "\<And>q j. offset q = 0 \<Longrightarrow> j < 1024 \<Longrightarrow> q \<notin> process_frames c (cpu_phys v) pd \<Longrightarrow> fw (cpu_phys v') q j = fw (cpu_phys v) q j"
    and "set (cpu_flushed v') = set (cpu_flushed v) \<union> {own_va i k | i k. i \<in> I \<and> own_page c (cpu_phys v) pd i k}"
  using assms unfolding cleared_def by (simp_all only: if_splits simp_thms) auto

lemma gone_subset: "I \<subseteq> {512..<1024} \<Longrightarrow> gone c s pd I \<subseteq> process_frames c s pd"
  using child_frames_table unfolding gone_def process_frames_def process_pages_def own_page_def by blast

text \<open>What is left is left as it was.\<close>

lemma cleared_kept:
  assumes "cleared c lo pd I v v'" "I \<subseteq> {512..<1024}"
  shows "\<And>j. j < 1024 \<Longrightarrow> fw (cpu_phys v') pd j AND 1 \<noteq> 0 \<Longrightarrow>
      fw (cpu_phys v') pd j = fw (cpu_phys v) pd j \<and> (j \<notin> I \<or> apic_table c j)"
    and "\<And>j k. j \<in> {512..<1024} \<Longrightarrow> own_page c (cpu_phys v') pd j k \<Longrightarrow>
      j \<notin> I \<and> own_page c (cpu_phys v) pd j k \<and> pte_at (cpu_phys v') pd j k = pte_at (cpu_phys v) pd j k"
  using clearedD(4-6) [OF assms(1)] unfolding own_page_def by (metis and_zero_eq and.commute)+

lemma cleared_frames:
  assumes "cleared c lo pd I v v'" "I \<subseteq> {512..<1024}"
  shows "child_frames (cpu_phys v') pd \<subseteq> child_frames (cpu_phys v) pd"
    "process_pages c (cpu_phys v') pd \<subseteq> process_pages c (cpu_phys v) pd"
proof -
  note K = cleared_kept [OF assms]
  show "child_frames (cpu_phys v') pd \<subseteq> child_frames (cpu_phys v) pd"
    using K(1) unfolding child_frames_def by fastforce
  show "process_pages c (cpu_phys v') pd \<subseteq> process_pages c (cpu_phys v) pd"
  proof
    fix q assume "q \<in> process_pages c (cpu_phys v') pd"
    then obtain i k where i: "i \<in> {512..<1024}" "own_page c (cpu_phys v') pd i k" "q = pte_addr (pte_at (cpu_phys v') pd i k)"
      by (auto simp: process_pages_def own_page_def)
    then show "q \<in> process_pages c (cpu_phys v) pd"
      using K(2) [OF i(1,2)] process_page [OF i(1)] by (auto simp: own_page_def)
  qed
qed

lemma cleared_exclusive:
  assumes E: "exclusive_space c lo (cpu_phys v) pd" and C: "cleared c lo pd I v v'" and I: "I \<subseteq> {512..<1024}"
  shows "exclusive_space c lo (cpu_phys v') pd"
proof -
  note K = cleared_kept [OF C I] and F = cleared_frames [OF C I] and D = exclusiveD [OF E] and H = clearedD(2) [OF C]
  have pd: "pd \<notin> gone c (cpu_phys v) pd I"
  proof
    assume "pd \<in> gone c (cpu_phys v) pd I"
    then consider i k where "i \<in> {512..<1024}" "own_page c (cpu_phys v) pd i k" "pd = pte_addr (pte_at (cpu_phys v) pd i k)"
      | i where "i \<in> {512..<1024}" "fw (cpu_phys v) pd i AND 1 \<noteq> 0" "pd = pte_addr (fw (cpu_phys v) pd i)"
      using I unfolding gone_def by blast
    then show False
    proof cases
      case (1 i k)
      then have "pd \<in> process_pages c (cpu_phys v) pd" using process_page [OF 1(1)] by (metis own_page_def)
      then show False using D(5) child_frames_self by blast
    next
      case (2 i)
      then show False using child_tables(3) [OF D(1) 2(1,2)] by simp
    qed
  qed
  have tab: "pte_addr (fw (cpu_phys v') pd i) \<notin> gone c (cpu_phys v) pd I"
    if i: "i \<in> {512..<1024}" "fw (cpu_phys v') pd i AND 1 \<noteq> 0" for i
  proof
    have e: "fw (cpu_phys v') pd i = fw (cpu_phys v) pd i" "i \<notin> I \<or> apic_table c i" using K(1) [of i] i by auto
    note p = i(2)[unfolded e(1)]
    assume "pte_addr (fw (cpu_phys v') pd i) \<in> gone c (cpu_phys v) pd I"
    then consider j k where "j \<in> {512..<1024}" "own_page c (cpu_phys v) pd j k"
        "pte_addr (fw (cpu_phys v) pd i) = pte_addr (pte_at (cpu_phys v) pd j k)"
      | j where "j \<in> I" "fw (cpu_phys v) pd j AND 1 \<noteq> 0" "\<not> apic_table c j" "pte_addr (fw (cpu_phys v) pd i) = pte_addr (fw (cpu_phys v) pd j)"
      using I unfolding gone_def e(1) by blast
    then show False
    proof cases
      case (1 j k)
      then have "pte_addr (fw (cpu_phys v) pd i) \<in> process_pages c (cpu_phys v) pd"
        using process_page [OF 1(1)] by (metis own_page_def)
      then show False using child_frames_table [OF i(1) p] D(5) by blast
    next
      case (2 j)
      then show False using child_tables(4) [OF D(1) i(1) p, of j] I e(2) by blast
    qed
  qed
  have page: "pte_addr (pte_at (cpu_phys v') pd i k) \<notin> gone c (cpu_phys v) pd I"
    if i: "i \<in> {512..<1024}" "own_page c (cpu_phys v') pd i k" for i k
  proof
    have e: "i \<notin> I" "own_page c (cpu_phys v) pd i k" "pte_at (cpu_phys v') pd i k = pte_at (cpu_phys v) pd i k"
      using K(2) [OF i] by auto
    have pp: "pte_addr (pte_at (cpu_phys v) pd i k) \<in> process_pages c (cpu_phys v) pd"
      using process_page [OF i(1)] e(2) by (simp add: own_page_def)
    assume "pte_addr (pte_at (cpu_phys v') pd i k) \<in> gone c (cpu_phys v) pd I"
    then consider j l where "j \<in> I" "own_page c (cpu_phys v) pd j l"
        "pte_addr (pte_at (cpu_phys v) pd i k) = pte_addr (pte_at (cpu_phys v) pd j l)"
      | j where "j \<in> I" "fw (cpu_phys v) pd j AND 1 \<noteq> 0" "pte_addr (pte_at (cpu_phys v) pd i k) = pte_addr (fw (cpu_phys v) pd j)"
      unfolding gone_def e(3) by blast
    then show False
    proof cases
      case (1 j l)
      then have "j \<in> {512..<1024}" using I by blast
      then show False using D(6) [OF i(1), of j k l] e(1,2) 1 by (auto simp: own_page_def)
    next
      case (2 j)
      then have "j \<in> {512..<1024}" using I by blast
      then show False using child_frames_table [OF _ 2(2)] pp D(5) 2(3) by auto
    qed
  qed
  have sub: "child_frames (cpu_phys v') pd \<subseteq> held_frames lo (cpu_phys v')"
    using F(1) D(4) pd tab unfolding H process_frames_def child_frames_def by blast
  have pages: "process_pages c (cpu_phys v') pd \<subseteq> held_frames lo (cpu_phys v')"
  proof
    fix q assume q: "q \<in> process_pages c (cpu_phys v') pd"
    then obtain i k where "i \<in> {512..<1024}" "own_page c (cpu_phys v') pd i k" "q = pte_addr (pte_at (cpu_phys v') pd i k)"
      by (auto simp: process_pages_def own_page_def)
    then show "q \<in> held_frames lo (cpu_phys v')" using page q F(2) D(4) unfolding H process_frames_def by blast
  qed
  have ok: "child_ok lo {} (cpu_phys v') pd"
    unfolding child_ok_def
  proof (intro conjI ballI impI)
    fix i assume i: "i \<in> {512..<1024}" "fw (cpu_phys v') pd i AND 1 \<noteq> 0"
    then have e: "fw (cpu_phys v') pd i = fw (cpu_phys v) pd i" using K(1) [of i] by auto
    show "pte_addr (fw (cpu_phys v') pd i) \<noteq> pd" using child_tables(3) [OF D(1) i(1)] i(2) e by simp
    fix j assume j: "j \<in> {512..<1024}"
      "fw (cpu_phys v') pd j AND 1 \<noteq> 0 \<and> pte_addr (fw (cpu_phys v') pd i) = pte_addr (fw (cpu_phys v') pd j)"
    then have "fw (cpu_phys v') pd j = fw (cpu_phys v) pd j" using K(1) [of j] by auto
    then show "i = j" using child_tables(4) [OF D(1) i(1) _ j(1)] i(2) j(2) e by simp
  qed (use sub clearedD(1) [OF C] in auto)
  have "process_pages c (cpu_phys v') pd \<inter> child_frames (cpu_phys v') pd = {}" using F D(5) by blast
  moreover have "i = j \<and> k = l" if ij: "i \<in> {512..<1024}" "j \<in> {512..<1024}" "own_page c (cpu_phys v') pd i k"
    "own_page c (cpu_phys v') pd j l" "pte_addr (pte_at (cpu_phys v') pd i k) = pte_addr (pte_at (cpu_phys v') pd j l)" for i j k l
    using D(6) [OF ij(1,2), of k l] K(2) [OF ij(1,3)] K(2) [OF ij(2,4)] ij(5) by (simp add: own_page_def)
  ultimately show ?thesis
    using ok pages unfolding exclusive_space_def own_page_def by blast
qed

lemma cleared_trans:
  assumes A: "cleared c lo pd I v v1" and B: "cleared c lo pd J v1 v'" and d: "I \<inter> J = {}"
    and I: "I \<subseteq> {512..<1024}" and J: "J \<subseteq> {512..<1024}"
  shows "cleared c lo pd (I \<union> J) v v'"
proof -
  note a = clearedD [OF A] and b = clearedD [OF B]
  have up: "j \<in> {512..<1024}" "j \<notin> I" if "j \<in> J" for j using that d J by blast+
  have fw1: "fw (cpu_phys v1) pd j = fw (cpu_phys v) pd j" if "j \<in> J" for j
    using a(4) [of j] up [OF that] by simp
  have pt1: "pte_at (cpu_phys v1) pd j k = pte_at (cpu_phys v) pd j k" if "j \<in> J" "k < 1024" for j k
    using a(5) [OF up(1) [OF that(1)] that(2)] up(2) [OF that(1)] by simp
  have own: "own_page c (cpu_phys v1) pd j k = own_page c (cpu_phys v) pd j k" if "j \<in> J" for j k
    using pt1 [OF that] by (auto simp: own_page_def)
  have pages: "{pte_addr (pte_at (cpu_phys v1) pd i k) | i k. i \<in> J \<and> own_page c (cpu_phys v1) pd i k} =
      {pte_addr (pte_at (cpu_phys v) pd i k) | i k. i \<in> J \<and> own_page c (cpu_phys v) pd i k}"
    using own pt1 unfolding own_page_def by (intro Collect_cong) metis
  have tabs: "{pte_addr (fw (cpu_phys v1) pd i) | i. i \<in> J \<and> fw (cpu_phys v1) pd i AND 1 \<noteq> 0 \<and> \<not> apic_table c i} =
      {pte_addr (fw (cpu_phys v) pd i) | i. i \<in> J \<and> fw (cpu_phys v) pd i AND 1 \<noteq> 0 \<and> \<not> apic_table c i}"
    using fw1 by (intro Collect_cong) metis
  have gone1: "gone c (cpu_phys v1) pd J = gone c (cpu_phys v) pd J" unfolding gone_def pages tabs ..
  have goneU: "gone c (cpu_phys v) pd (I \<union> J) = gone c (cpu_phys v) pd I \<union> gone c (cpu_phys v) pd J"
    unfolding gone_def by blast
  have fl1: "{own_va i k | i k. i \<in> J \<and> own_page c (cpu_phys v1) pd i k} = {own_va i k | i k. i \<in> J \<and> own_page c (cpu_phys v) pd i k}"
    using own by (intro Collect_cong) metis
  have frames: "process_frames c (cpu_phys v1) pd \<subseteq> process_frames c (cpu_phys v) pd"
    using cleared_frames [OF A I] unfolding process_frames_def by blast
  have ent: "if j \<in> I \<union> J \<and> \<not> apic_entry c j k then pte_at (cpu_phys v') pd j k AND 1 = 0
      else pte_at (cpu_phys v') pd j k = pte_at (cpu_phys v) pd j k" if jk: "j \<in> {512..<1024}" "k < 1024" for j k
  proof (cases "apic_entry c j k")
    case False
    then show ?thesis
      using a(5) [OF jk] a(6) [OF jk] b(5) [OF jk] b(6) [OF jk] d by (cases "j \<in> J"; cases "j \<in> I") auto
  qed (use a(5) [OF jk] b(5) [OF jk] in simp)
  have tab: "fw (cpu_phys v') pd j = (if j \<in> I \<union> J \<and> fw (cpu_phys v) pd j AND 1 \<noteq> 0 \<and> \<not> apic_table c j then 0
      else fw (cpu_phys v) pd j)" if "j < 1024" for j
    using a(4) [OF that] b(4) [OF that] by auto
  show ?thesis
    unfolding cleared_def
  proof (intro conjI allI ballI impI)
    show "held_frames lo (cpu_phys v') = held_frames lo (cpu_phys v) - gone c (cpu_phys v) pd (I \<union> J)"
      using a(2) b(2) gone1 goneU by blast
    show "set (cpu_flushed v') = set (cpu_flushed v) \<union> {own_va i k | i k. i \<in> I \<union> J \<and> own_page c (cpu_phys v) pd i k}"
      unfolding b(8) a(8) fl1 by blast
    show "fw (cpu_phys v') q j = fw (cpu_phys v) q j" if "offset q = 0" "j < 1024" "q \<notin> process_frames c (cpu_phys v) pd" for q j
      using a(7) [OF that] b(7) [OF that(1,2)] that(3) frames by auto
  qed (use a(3) b(1,3) ent tab in auto)
qed

text \<open>One table.\<close>

lemma delete_pdes_Cons: "delete_pdes c pd (i # is) v = rbind (delete_pdes c pd [i] v) (delete_pdes c pd is)"
proof (cases "read32 (cpu_phys v) (pd + 4 * i) AND 1 = 0")
  case False
  have nil: "delete_pdes c pd [] = Inr" by (rule ext) simp
  have one: "rbind m Inr = m" for m :: "cpu res" by (simp add: rbind_def split: sum.split)
  have "rbind m (\<lambda>(special, v1). if \<not> special then rbind (f v1) (delete_pdes c pd is) else delete_pdes c pd is v1) =
      rbind (rbind m (\<lambda>(special, v1). if \<not> special then f v1 else Inr v1)) (delete_pdes c pd is)"
    for m :: "(bool \<times> cpu) res" and f
    by (cases m) auto
  then show ?thesis
    using False by (simp add: Let_def nil one cong: if_cong del: delete_ptes.simps upt_Suc)
qed (simp add: Let_def)

lemma table_gone:
  assumes E: "exclusive_space c lo s pd" and m: "machine_ok c" and i: "i \<in> {512..<1024}" and p: "fw s pd i AND 1 \<noteq> 0"
  defines "ps \<equiv> page_frames c s i (pte_addr (fw s pd i)) (map word_of_nat [0..<1024])"
  shows "set ps = {pte_addr (pte_at s pd i k) | k. own_page c s pd i k}" "distinct ps" "pte_addr (fw s pd i) \<notin> set ps"
    "gone c s pd {i} = set ps \<union> (if apic_table c i then {} else {pte_addr (fw s pd i)})" "set ps \<subseteq> process_pages c s pd"
proof -
  let ?pt = "pte_addr (fw s pd i)"
  have t: "table_frames c s pd i = ps @ [?pt]" using p by (simp add: table_frames_def ps_def)
  then show "distinct ps" "?pt \<notin> set ps" using table_frames_facts(2) [OF E m i] by auto
  have pp: "{pte_addr (pte_at s pd i k) | k. own_page c s pd i k} \<subseteq> process_pages c s pd"
    using process_page [OF i] by (auto simp: own_page_def)
  then have "?pt \<notin> {pte_addr (pte_at s pd i k) | k. own_page c s pd i k}"
    using child_frames_table [OF i p] exclusiveD(5) [OF E] by blast
  then show set: "set ps = {pte_addr (pte_at s pd i k) | k. own_page c s pd i k}"
    using table_frames_facts(1) [OF E m i] p \<open>?pt \<notin> set ps\<close> unfolding t own_page_def by (simp add: insert_ident)
  show "gone c s pd {i} = set ps \<union> (if apic_table c i then {} else {?pt})"
    using p unfolding set gone_def by auto
  show "set ps \<subseteq> process_pages c s pd" using pp set by simp
qed

lemma goes_own:
  assumes "machine_ok c" "i \<in> {512..<1024}" "fw s pd i AND 1 \<noteq> 0" "k < 1024"
  shows "goes c s i (pte_addr (fw s pd i)) k \<longleftrightarrow> own_page c s pd i k"
  using special_entry [OF assms(1,2,4)] assms(3,4) by (simp add: goes_def own_va_def own_page_def pte_at_def)

text \<open>The words after the turn for table \<open>i\<close>.\<close>

definition turn :: "Config \<Rightarrow> phys \<Rightarrow> u32 \<Rightarrow> u32 \<Rightarrow> u32 \<Rightarrow> u32 \<Rightarrow> u32" where
  "turn c s pd i q j =
     (if q = pd \<and> j = i \<and> \<not> apic_table c i then 0
      else if q = pte_addr (fw s pd i) \<and> own_page c s pd i j then 0 else fw s q j)"

lemma delete_table_turn:
  assumes E: "exclusive_space c lo (cpu_phys v) pd" and m: "machine_ok c" and i: "i \<in> {512..<1024}"
    and p: "fw (cpu_phys v) pd i AND 1 \<noteq> 0"
  shows "\<exists>v'. delete_pdes c pd [i] v = Inr v' \<and> updated lo (gone c (cpu_phys v) pd {i}) (turn c (cpu_phys v) pd i) v v' \<and>
    set (cpu_flushed v') = set (cpu_flushed v) \<union> {own_va i k | k. own_page c (cpu_phys v) pd i k}"
proof -
  define ks where "ks = (map word_of_nat [0..<1024] :: u32 list)"
  let ?s = "cpu_phys v" and ?pt = "pte_addr (fw (cpu_phys v) pd i)"
  let ?ps = "page_frames c ?s i ?pt ks"
  note D = exclusiveD [OF E] and G = table_gone [OF E m i p, folded ks_def] and pt = child_tables [OF D(1) i p]
  have ks: "k \<in> set ks \<longleftrightarrow> k < 1024" for k using table_indices(1) unfolding ks_def by blast
  have go: "goes c ?s i ?pt k \<longleftrightarrow> own_page c ?s pd i k" if "k < 1024" for k by (rule goes_own [OF m i p that])
  have sub: "set ?ps \<subseteq> held_frames lo ?s - {?pt}" using G(3,5) D(4) unfolding process_frames_def by blast
  have npd: "pd \<notin> set ?ps" using G(5) D(5) child_frames_self by blast
  have sp: "(\<exists>k \<in> set ks. is_special c (own_va i k)) \<longleftrightarrow> apic_table c i"
    using special_entry [OF m i] unfolding Bex_def ks apic_table_entry own_va_def by metis
  have "\<forall>k \<in> set ks. k < 1024" using ks by blast
  from delete_ptes_ok [OF D(2) pt(1) this table_indices(2) [folded ks_def] G(2) sub, of False] obtain v1
    where v1: "delete_ptes c i ?pt ks False v = Inr (apic_table c i, v1)"
      "cpu_flushed v1 = rev (map (own_va i) (filter (goes c ?s i ?pt) ks)) @ cpu_flushed v"
      "updated lo (set ?ps) (\<lambda>q j. if q = ?pt \<and> j \<in> set ks \<and> goes c ?s i ?pt j then 0 else fw ?s q j) v v1"
    unfolding sp simp_thms by blast
  note W = updatedD [OF v1(3)]
  have e: "delete_pdes c pd [i] v = (if apic_table c i then Inr v1 else cpu_dealloc ?pt (cpu_write32 (pd + 4 * i) 0 v1))"
  proof -
    have nil: "delete_pdes c pd [] = Inr" by (rule ext) simp
    have one: "rbind m Inr = m" for m :: "cpu res" by (simp add: rbind_def split: sum.split)
    show ?thesis
      using p v1(1) unfolding delete_pdes.simps ks_def [symmetric]
      by (simp add: fw_def read32_def pte_addr_def Let_def nil one cong: if_cong)
  qed
  have fl: "set (cpu_flushed v1) = set (cpu_flushed v) \<union> {own_va i k | k. own_page c ?s pd i k}"
    unfolding v1(2) using go by (auto simp: ks own_page_def)
  have w: "fw (cpu_phys v1) q j = (if q = ?pt \<and> own_page c ?s pd i j then 0 else fw ?s q j)"
    if "offset q = 0" "j < 1024" "q \<notin> set ?ps" for q j using W(4) [OF that] go [OF that(2)] ks that(2) by simp
  show ?thesis
  proof (cases "apic_table c i")
    case True
    have "updated lo (gone c ?s pd {i}) (turn c ?s pd i) v v1"
      using W(1-3) w True unfolding updated_def G(4) turn_def by simp
    then show ?thesis using e True fl by auto
  next
    case False
    have "pd \<in> held_frames lo (cpu_phys v1)" "?pt \<in> held_frames lo (cpu_phys v1)"
      using W(2) D(3) npd pt(1) G(3) by auto
    moreover have "i < 1024" using i by simp
    ultimately obtain v' where v': "cpu_dealloc ?pt (cpu_write32 (pd + 4 * i) 0 v1) = Inr v'" "cpu_flushed v' = cpu_flushed v1"
      "updated lo {?pt} (\<lambda>r j. if r = pd \<and> j = i then 0 else fw (cpu_phys v1) r j) v1 v'"
      using clear_dealloc [OF W(1)] by blast
    note X = updatedD [OF v'(3)]
    have "fw (cpu_phys v') q j = turn c ?s pd i q j" if "offset q = 0" "j < 1024" "q \<notin> set ?ps \<union> {?pt}" for q j
      using X(4) [OF that(1,2)] w [OF that(1,2)] that(3) False by (simp add: turn_def)
    then have "updated lo (gone c ?s pd {i}) (turn c ?s pd i) v v'"
      using X(1-3) W(2,3) False unfolding updated_def G(4) by auto
    then show ?thesis using e False fl v'(1,2) by auto
  qed
qed

lemma delete_one_table:
  assumes E: "exclusive_space c lo (cpu_phys v) pd" and m: "machine_ok c" and i: "i \<in> {512..<1024}"
  shows "\<exists>v'. delete_pdes c pd [i] v = Inr v' \<and> cleared c lo pd {i} v v'"
proof (cases "fw (cpu_phys v) pd i AND 1 = 0")
  case True
  have "\<not> own_page c (cpu_phys v) pd i k" for k using True by (simp add: own_page_def pte_at_def)
  then have "gone c (cpu_phys v) pd {i} = {}" "{own_va a k | a k. a \<in> {i} \<and> own_page c (cpu_phys v) pd a k} = {}"
    using True by (auto simp: gone_def)
  then have "cleared c lo pd {i} v v"
    unfolding cleared_def using True exclusiveD(2) [OF E] by (auto simp: pte_at_def)
  then show ?thesis using True by (simp add: fw_def read32_def Let_def)
next
  case False
  let ?s = "cpu_phys v" and ?pt = "pte_addr (fw (cpu_phys v) pd i)"
  obtain v' where v': "delete_pdes c pd [i] v = Inr v'" "updated lo (gone c ?s pd {i}) (turn c ?s pd i) v v'"
    "set (cpu_flushed v') = set (cpu_flushed v) \<union> {own_va i k | k. own_page c ?s pd i k}"
    using delete_table_turn [OF E m i False] by blast
  note D = exclusiveD [OF E] and G = table_gone [OF E m i False] and pt = child_tables [OF D(1) i False] and W = updatedD [OF v'(2)]
  have in_child: "q \<notin> gone c ?s pd {i}" if "q \<in> child_frames ?s pd" "apic_table c i \<or> q \<noteq> ?pt" for q
    using that G(5) D(5) unfolding G(4) by auto
  have pd: "fw (cpu_phys v') pd j = (if j = i \<and> \<not> apic_table c i then 0 else fw ?s pd j)" if "j < 1024" for j
    using W(4) [OF held_offset [OF D(3)] that in_child [OF child_frames_self]] pt(3) by (auto simp: turn_def)
  have keep: "pte_at (cpu_phys v') pd j k = pte_at ?s pd j k" if jk: "j \<in> {512..<1024}" "k < 1024" "j \<noteq> i" for j k
  proof -
    have j: "j < 1024" using jk(1) by simp
    have "fw (cpu_phys v') (pte_addr (fw ?s pd j)) k = fw ?s (pte_addr (fw ?s pd j)) k" if pj: "fw ?s pd j AND 1 \<noteq> 0"
    proof -
      have ne: "pte_addr (fw ?s pd j) \<noteq> ?pt" using pt(4) [OF jk(1) pj] jk(3) by auto
      show ?thesis
        using W(4) [OF pte_addr_aligned jk(2) in_child [OF child_frames_table [OF jk(1) pj]]] ne
          child_tables(3) [OF D(1) jk(1) pj] by (simp add: turn_def)
    qed
    then show ?thesis using pd [OF j] jk(3) by (simp add: pte_at_def)
  qed
  have own: "if \<not> apic_entry c i k then pte_at (cpu_phys v') pd i k AND 1 = 0 else pte_at (cpu_phys v') pd i k = pte_at ?s pd i k"
    if k: "k < 1024" for k
  proof (cases "apic_table c i")
    case True
    have ib: "i < 1024" using i by simp
    have "fw (cpu_phys v') ?pt k = (if own_page c ?s pd i k then 0 else fw ?s ?pt k)"
      using W(4) [OF pte_addr_aligned k in_child [OF child_frames_table [OF i False]]] True pt(3) by (simp add: turn_def)
    then show ?thesis using pd [OF ib] True False k by (auto simp: pte_at_def own_page_def)
  next
    case no: False
    have ib: "i < 1024" using i by simp
    have "\<not> apic_entry c i k" using no k apic_table_entry by blast
    then show ?thesis using pd [OF ib] no by (simp add: pte_at_def)
  qed
  have out: "fw (cpu_phys v') q j = fw ?s q j" if q: "offset q = 0" "j < 1024" "q \<notin> process_frames c ?s pd" for q j
  proof -
    have "q \<notin> gone c ?s pd {i}" using gone_subset [of "{i}" c ?s pd] i q(3) by auto
    moreover have "q \<noteq> pd" "q \<noteq> ?pt"
      using q(3) child_frames_self child_frames_table [OF i False] unfolding process_frames_def by auto
    ultimately show ?thesis using W(4) [OF q(1,2)] by (simp add: turn_def)
  qed
  have "cleared c lo pd {i} v v'"
    unfolding cleared_def
  proof (intro conjI allI ballI impI)
    fix j k :: u32 assume jk: "j \<in> {512..<1024}" "k < 1024"
    show "if j \<in> {i} \<and> \<not> apic_entry c j k then pte_at (cpu_phys v') pd j k AND 1 = 0
        else pte_at (cpu_phys v') pd j k = pte_at ?s pd j k"
      using keep [OF jk] own [OF jk(2)] by (cases "j = i") auto
  next
    show "set (cpu_flushed v') = set (cpu_flushed v) \<union> {own_va a k | a k. a \<in> {i} \<and> own_page c ?s pd a k}"
      using v'(3) by auto
  qed (use W(1-3) pd out False in auto)
  then show ?thesis using v'(1) by blast
qed

section \<open>The loop over the directory\<close>

lemma delete_pdes_ok:
  assumes "exclusive_space c lo (cpu_phys v) pd" "machine_ok c" "distinct is" "set is \<subseteq> {512..<1024}"
  shows "\<exists>v'. delete_pdes c pd is v = Inr v' \<and> cleared c lo pd (set is) v v'"
  using assms
proof (induction "is" arbitrary: v)
  case Nil
  then show ?case using exclusiveD(2) [OF Nil(1)] by (simp add: cleared_def gone_def)
next
  case (Cons i "is")
  have i: "i \<in> {512..<1024}" "{i} \<subseteq> {512..<1024}" "set is \<subseteq> {512..<1024}" "{i} \<inter> set is = {}" using Cons.prems(3,4) by auto
  obtain v1 where v1: "delete_pdes c pd [i] v = Inr v1" "cleared c lo pd {i} v v1"
    using delete_one_table [OF Cons.prems(1,2) i(1)] by blast
  obtain v' where v': "delete_pdes c pd is v1 = Inr v'" "cleared c lo pd (set is) v1 v'"
    using Cons.IH [OF cleared_exclusive [OF Cons.prems(1) v1(2) i(2)] Cons.prems(2) _ i(3)] Cons.prems(3) by auto
  have "cleared c lo pd ({i} \<union> set is) v v'" by (rule cleared_trans [OF v1(2) v'(2) i(4,2,3)])
  then show ?case unfolding delete_pdes_Cons [of c pd i "is"] by (simp only: v1(1) v'(1) rbind_simps) simp
qed

section \<open>The private half afterwards\<close>

lemma own_va_page: "own_va (va_pdi va) (va_pti va) = framedown va"
proof -
  let ?w = "own_va (va_pdi va) (va_pti va)"
  note I = indices_of_va [OF va_index_bounds, of va va, folded own_va_def]
  have "ppn ?w = ppn va" using I(1,2) by (simp add: same_page_iff)
  moreover have "uint ?w = 0x1000 * uint (ppn ?w)"
    unfolding ppn_uint by (rule dvd_mult_div_cancel [OF iffD1 [OF offset_0_iff I(3)], symmetric])
  moreover have "uint (framedown va) = 0x1000 * uint (ppn va)" unfolding ppn_uint by (rule framedown_uint)
  ultimately show ?thesis by (simp only: word_uint_eq_iff)
qed

lemma own_page_walk:
  assumes "machine_ok c" "private_page c va" "walk (pm_mem s) pd va = Some (a, u)"
  shows "va_pdi va \<in> {512..<1024}" "own_page c s pd (va_pdi va) (va_pti va)"
    "framedown a = pte_addr (pte_at s pd (va_pdi va) (va_pti va))"
proof -
  show "va_pdi va \<in> {512..<1024}" "own_page c s pd (va_pdi va) (va_pti va)"
    using assms private_page_iff [OF assms(1), of va] va_index_bounds(2) [of va]
    by (auto simp: own_page_def walk_pte Let_def split: if_splits)
  show "framedown a = pte_addr (pte_at s pd (va_pdi va) (va_pti va))"
    using assms(3) framedown_or [OF pte_addr_aligned] by (auto simp: walk_pte Let_def split: if_splits)
qed

lemma cleared_gone:
  assumes E: "exclusive_space c lo (cpu_phys v) pd" and C: "cleared c lo pd {512..<1024} v v'"
  shows "gone c (cpu_phys v) pd {512..<1024} = process_frames c (cpu_phys v) pd - process_frames c (cpu_phys v') pd"
    and "process_pages c (cpu_phys v') pd = {}"
proof -
  have E': "exclusive_space c lo (cpu_phys v') pd" by (rule cleared_exclusive [OF E C]) simp
  show none: "process_pages c (cpu_phys v') pd = {}"
    using clearedD(6) [OF C] by (auto simp: process_pages_def)
  have "q \<in> gone c (cpu_phys v) pd {512..<1024}"
    if q: "q \<in> process_frames c (cpu_phys v) pd" "q \<notin> process_frames c (cpu_phys v') pd" for q
  proof -
    from q(1) consider "q = pd"
      | i where "i \<in> {512..<1024}" "fw (cpu_phys v) pd i AND 1 \<noteq> 0" "q = pte_addr (fw (cpu_phys v) pd i)"
      | i k where "i \<in> {512..<1024}" "own_page c (cpu_phys v) pd i k" "q = pte_addr (pte_at (cpu_phys v) pd i k)"
      unfolding process_frames_def child_frames_def process_pages_def own_page_def by blast
    then show ?thesis
    proof cases
      case 1
      then show ?thesis using q(2) child_frames_self unfolding process_frames_def by blast
    next
      case (2 i)
      have "i < 1024" using 2(1) by simp
      from clearedD(4) [OF C this] have "apic_table c i \<Longrightarrow> fw (cpu_phys v') pd i = fw (cpu_phys v) pd i" by simp
      then have "\<not> apic_table c i"
        using 2 q(2) child_frames_table [OF 2(1), of "cpu_phys v'" pd] unfolding process_frames_def by auto
      then show ?thesis using 2 unfolding gone_def by blast
    next
      case (3 i k)
      then show ?thesis unfolding gone_def by blast
    qed
  qed
  moreover have "gone c (cpu_phys v) pd {512..<1024} \<inter> process_frames c (cpu_phys v') pd = {}"
    using exclusiveD(4) [OF E'] clearedD(2) [OF C] by blast
  ultimately show "gone c (cpu_phys v) pd {512..<1024} = process_frames c (cpu_phys v) pd - process_frames c (cpu_phys v') pd"
    using gone_subset [OF order_refl, of c "cpu_phys v" pd] by blast
qed

lemma cleared_walk:
  assumes C: "cleared c lo pd {512..<1024} v v'" and m: "machine_ok c"
  shows "private_page c va \<Longrightarrow> walk (pm_mem (cpu_phys v')) pd va = None"
    and "private_page c va \<Longrightarrow> walk (pm_mem (cpu_phys v)) pd va \<noteq> None \<Longrightarrow> framedown va \<in> set (cpu_flushed v')"
    and "0x80000000 \<le> va \<Longrightarrow> \<not> private_page c va \<Longrightarrow> walk (pm_mem (cpu_phys v')) pd va = walk (pm_mem (cpu_phys v)) pd va"
proof -
  show "walk (pm_mem (cpu_phys v')) pd va = None" if "private_page c va"
    using that clearedD(6) [OF C _ va_index_bounds(2)] private_page_iff [OF m, of va] by (simp add: walk_pte)
  show "framedown va \<in> set (cpu_flushed v')" if va: "private_page c va" "walk (pm_mem (cpu_phys v)) pd va \<noteq> None"
  proof -
    obtain a u where "walk (pm_mem (cpu_phys v)) pd va = Some (a, u)" using va(2) by auto
    note O = own_page_walk [OF m va(1) this]
    show ?thesis unfolding clearedD(8) [OF C] own_va_page [of va, symmetric] using O(1,2) by blast
  qed
  show "walk (pm_mem (cpu_phys v')) pd va = walk (pm_mem (cpu_phys v)) pd va"
    if "0x80000000 \<le> va" "\<not> private_page c va"
  proof -
    have i: "va_pdi va \<in> {512..<1024}" and a: "apic_entry c (va_pdi va) (va_pti va)"
      using that private_page_iff [OF m, of va] upper_half [of va] by auto
    then have "apic_table c (va_pdi va)" by (auto simp: apic_entry_def apic_table_def)
    then have "fw (cpu_phys v') pd (va_pdi va) = fw (cpu_phys v) pd (va_pdi va)"
      using clearedD(4) [OF C va_index_bounds(1), of va] by simp
    moreover have "pte_at (cpu_phys v') pd (va_pdi va) (va_pti va) = pte_at (cpu_phys v) pd (va_pdi va) (va_pti va)"
      by (rule clearedD(5) [OF C i va_index_bounds(2) disjI2 [OF a]])
    ultimately show ?thesis by (simp only: walk_pte)
  qed
qed

lemma delete_private_cleared:
  assumes E: "exclusive_space c lo (cpu_phys v) pd" and m: "machine_ok c" and cr3: "cpu_cr3 v = pd"
  shows "\<exists>v'. delete_private c pd v = Inr v' \<and> cleared c lo pd {512..<1024} v v'"
proof -
  have "ASSERT (pd = cpu_cr3 v) = Inr ()" using cr3 by simp
  then have e: "delete_private c pd v = delete_pdes c pd (map word_of_nat [512..<1024]) v"
    by (simp only: delete_private_def rbind_simps)
  show ?thesis
    unfolding e using delete_pdes_ok [OF E m upper_indices(2), unfolded upper_indices(1)] by blast
qed

end
