(* ===== verification/Accounts.thy ===== *)
theory Accounts
  imports Clear_Space
begin

text \<open>
  The frames of a process from \<open>fork\<close> to the destructor: page faults that back its memory, \<open>exec\<close> that empties
  it, stores to its pages, and \<open>delete_pd\<close> at the end. Every frame taken on the way is given back, and no frame
  that was held before is touched.
\<close>

section \<open>The account\<close>

text \<open>
  Since the memory was \<open>s0\<close>, exactly the frames of the process at \<open>pd\<close> were taken and the frames \<open>L\<close>, which nobody
  uses any more, and the frames held then are as they were.
\<close>

definition accounted :: "Config \<Rightarrow> u32 \<Rightarrow> phys \<Rightarrow> u32 set \<Rightarrow> phys \<Rightarrow> u32 \<Rightarrow> bool" where
  "accounted c lo s0 L s pd \<longleftrightarrow> exclusive_space c lo s pd \<and>
     held_frames lo s = held_frames lo s0 \<union> L \<union> process_frames c s pd \<and>
     (held_frames lo s0 \<union> L) \<inter> process_frames c s pd = {} \<and> held_frames lo s0 \<inter> L = {} \<and>
     (\<forall>q \<in> held_frames lo s0. \<forall>j < 1024. fw s q j = fw s0 q j)"

lemma accountedD:
  assumes "accounted c lo s0 L s pd"
  shows "exclusive_space c lo s pd" "held_frames lo s = held_frames lo s0 \<union> L \<union> process_frames c s pd"
    "(held_frames lo s0 \<union> L) \<inter> process_frames c s pd = {}" "held_frames lo s0 \<inter> L = {}"
    and "\<And>q j. q \<in> held_frames lo s0 \<Longrightarrow> j < 1024 \<Longrightarrow> fw s q j = fw s0 q j"
  using assms by (auto simp: accounted_def)

text \<open>At the end: what \<open>delete_pd\<close> leaves is what there was, and the lost frames.\<close>

lemma accounted_delete:
  assumes A: "accounted c lo s0 L (cpu_phys v) pd" and m: "machine_ok c" and ne: "cpu_cr3 v \<noteq> pd"
  shows "\<exists>v'. delete_pd c pd v = Inr v' \<and> held_frames lo (cpu_phys v') = held_frames lo s0 \<union> L \<and>
    (\<forall>q \<in> held_frames lo s0. \<forall>j < 1024. fw (cpu_phys v') q j = fw s0 q j)"
proof -
  note D = accountedD [OF A]
  obtain v' where v': "delete_pd c pd v = Inr v'" "freed lo (process_frames c (cpu_phys v) pd) v v'"
    using delete_pd_freed [OF D(1) m ne] by blast
  have "held_frames lo (cpu_phys v') = held_frames lo s0 \<union> L" using freedD(2) [OF v'(2)] D(2,3) by blast
  moreover have "fw (cpu_phys v') q j = fw s0 q j" if "q \<in> held_frames lo s0" "j < 1024" for q j
    using freedD(4) [OF v'(2) held_offset [OF that(1)] that(2)] D(3,5) that by auto
  ultimately show ?thesis using v'(1) by blast
qed

text \<open>The pages, through their indices.\<close>

lemma process_pages_own: "process_pages c s pd = {pte_addr (pte_at s pd i k) | i k. i \<in> {512..<1024} \<and> own_page c s pd i k}"
  by (auto simp: process_pages_def own_page_def)

section \<open>Fork\<close>

lemma fork_accounted:
  assumes P: "process_space c lo s pd" and sh: "shared_pd \<in> held_frames lo s" and m: "machine_ok c"
    and r: "fork_space c shared_pd pd s = Inr (cpd, s')"
  shows "accounted c lo s {} s' cpd"
proof -
  let ?H = "held_frames lo s"
  from fork_space_stages [OF P sh m] r obtain s1 where C1: "child_ok lo ?H s1 cpd"
    and same: "\<forall>q \<in> ?H. \<forall>j < 1024. fw s1 q j = fw s q j"
    and apic: "\<forall>i \<in> {512..<1024}. \<forall>k < 1024. pte_at s1 cpd i k AND 1 \<noteq> 0 \<longleftrightarrow> apic_entry c i k"
    and t1: "held_frames lo s1 \<subseteq> ?H \<union> child_frames s1 cpd"
    and C': "child_ok lo ?H s' cpd" and S: "space_copied lo pd cpd {512..<1024} s1 s'"
    by auto
  have K: "keeps_frames lo (child_frames s1 cpd) s1 s'"
    and pde: "\<And>i. i \<in> {512..<1024} \<Longrightarrow> fw s1 cpd i AND 1 \<noteq> 0 \<Longrightarrow> fw s' cpd i = fw s1 cpd i"
    and ent: "\<And>i k. i \<in> {512..<1024} \<Longrightarrow> k < 1024 \<Longrightarrow> page_copied lo s1 s' (pte_at s1 cpd i k) (pte_at s1 pd i k) (pte_at s' cpd i k)"
    and away: "\<And>i k. i \<in> {512..<1024} \<Longrightarrow> k < 1024 \<Longrightarrow> to_copy s1 pd cpd i k \<Longrightarrow> pte_addr (pte_at s' cpd i k) \<notin> child_frames s' cpd"
    and inj: "\<And>i k j l. i \<in> {512..<1024} \<Longrightarrow> k < 1024 \<Longrightarrow> to_copy s1 pd cpd i k \<Longrightarrow> j \<in> {512..<1024} \<Longrightarrow> l < 1024 \<Longrightarrow>
        to_copy s1 pd cpd j l \<Longrightarrow> pte_addr (pte_at s' cpd i k) = pte_addr (pte_at s' cpd j l) \<Longrightarrow> i = j \<and> k = l"
    and t': "held_frames lo s' \<subseteq> held_frames lo s1 \<union> child_frames s' cpd \<union> new_pages s1 pd s' cpd {512..<1024}"
    using S unfolding space_copied_def by auto
  have H: "?H \<subseteq> held_frames lo s1" "child_frames s1 cpd \<inter> ?H = {}" using C1 by (auto simp: child_ok_def)
  have H': "?H \<subseteq> held_frames lo s'" "child_frames s' cpd \<inter> ?H = {}" "child_frames s' cpd \<subseteq> held_frames lo s'"
    using C' by (auto simp: child_ok_def)
  have tc: "to_copy s1 pd cpd i k \<longleftrightarrow> own_page c s' cpd i k" if ik: "i \<in> {512..<1024}" "k < 1024" for i k
  proof (cases "to_copy s1 pd cpd i k")
    case True
    then have n: "needs_copy (pte_at s1 cpd i k) (pte_at s1 pd i k)" by (simp add: to_copy_def)
    have "pte_at s' cpd i k AND 1 \<noteq> 0"
      using page_copiedD(3) [OF ent [OF ik] n] entry_simps(4) [OF pte_addr_aligned] by (metis zero_neq_one)
    moreover have "\<not> apic_entry c i k" using n apic ik by (auto simp: needs_copy_def)
    ultimately show ?thesis using True ik(2) by (simp add: own_page_def)
  next
    case False
    then have "pte_at s' cpd i k = pte_at s1 cpd i k" using ent [OF ik] by (simp add: page_copied_def to_copy_def)
    then show ?thesis using False apic ik by (auto simp: own_page_def)
  qed
  have fresh: "pte_addr (pte_at s' cpd i k) \<in> held_frames lo s' \<and> pte_addr (pte_at s' cpd i k) \<notin> ?H"
    if "i \<in> {512..<1024}" "k < 1024" "to_copy s1 pd cpd i k" for i k
    using page_copiedD(1,2) [OF ent [OF that(1,2)]] that(3) H(1) by (auto simp: to_copy_def)
  have pages: "process_pages c s' cpd = new_pages s1 pd s' cpd {512..<1024}"
    unfolding process_pages_own new_pages_def using tc by (auto simp: own_page_def)
  have np: "new_pages s1 pd s' cpd {512..<1024} \<subseteq> held_frames lo s' - child_frames s' cpd - ?H"
    using fresh away by (auto simp: new_pages_def)
  have "child_ok lo {} s' cpd" using C' by (auto simp: child_ok_def)
  moreover have "i = j \<and> k = l" if "i \<in> {512..<1024}" "j \<in> {512..<1024}" "own_page c s' cpd i k" "own_page c s' cpd j l"
    "pte_addr (pte_at s' cpd i k) = pte_addr (pte_at s' cpd j l)" for i j k l
    using inj [of i k j l] tc that by (auto simp: own_page_def)
  ultimately have E: "exclusive_space c lo s' cpd"
    unfolding exclusive_space_def pages using np unfolding own_page_def by blast
  have tables: "child_frames s1 cpd \<subseteq> child_frames s' cpd"
  proof
    fix q assume "q \<in> child_frames s1 cpd"
    then consider "q = cpd" | i where "i \<in> {512..<1024}" "fw s1 cpd i AND 1 \<noteq> 0" "q = pte_addr (fw s1 cpd i)"
      by (auto simp: child_frames_def)
    then show "q \<in> child_frames s' cpd"
    proof cases
      case (2 i)
      then show ?thesis using child_frames_table [OF 2(1), of s' cpd] pde [OF 2(1,2)] by simp
    qed (simp add: child_frames_self)
  qed
  have eq: "held_frames lo s' = ?H \<union> process_frames c s' cpd"
    using t' t1 tables np H' unfolding process_frames_def pages by blast
  have "?H \<inter> process_frames c s' cpd = {}" using np H'(2) unfolding process_frames_def pages by blast
  moreover have "fw s' q j = fw s q j" if "q \<in> ?H" "j < 1024" for q j
    using kept_outside [OF K H(2,1) that] same that by simp
  ultimately show ?thesis using E eq by (simp add: accounted_def)
qed

section \<open>A page fault\<close>

text \<open>\<open>map\<close> of a page of the upper half.\<close>

lemma map_page_ok:
  assumes C: "child_ok lo {} s pd" and i: "va_pdi va \<in> {512..<1024}" and m: "vmm_map c pd va f s = Inr s'"
  shows "child_ok lo {} s' pd" "keeps_frames lo (child_frames s pd) s s'"
    and "child_frames s' pd \<inter> held_frames lo s \<subseteq> child_frames s pd" "child_frames s pd \<subseteq> child_frames s' pd"
    and "held_frames lo s' \<subseteq> held_frames lo s \<union> child_frames s' pd"
    and "\<And>j l. j \<in> {512..<1024} \<Longrightarrow> l < 1024 \<Longrightarrow> pte_at s' pd j l =
      (if j = va_pdi va \<and> l = va_pti va then f OR (if is_special c va then 3 else 7) else pte_at s pd j l)"
proof -
  let ?i = "va_pdi va" and ?k = "va_pti va" and ?x = "if is_special c va then 3 else 7 :: u32"
  obtain s1 where s': "s' = write32 (pte_addr (fw s1 pd ?i) + 4 * ?k) (f OR ?x) s1" and p: "fw s1 pd ?i AND 1 \<noteq> 0"
    and C1: "child_ok lo {} s1 pd" and K1: "keeps_frames lo (child_frames s pd) s s1"
    and F1: "child_frames s1 pd \<inter> held_frames lo s \<subseteq> child_frames s pd" "child_frames s pd \<subseteq> child_frames s1 pd"
    and T1: "held_frames lo s1 \<subseteq> held_frames lo s \<union> child_frames s1 pd"
    and L1: "\<And>j l. j \<in> {512..<1024} \<Longrightarrow> l < 1024 \<Longrightarrow> pte_at s1 pd j l = pte_at s pd j l"
  proof (cases "fw s pd ?i AND 1 = 0")
    case False
    then have "s' = write32 (pte_addr (fw s pd ?i) + 4 * ?k) (f OR ?x) s"
      using m by (simp add: vmm_map_def map_pde_def special_alt fw_def read32_def pte_addr_def Let_def)
    then show ?thesis using that [of s] False C by (simp add: keeps_frames_def child_ok_def)
  next
    case True
    then obtain g t where a: "alloc_frame s = Inr (g, t)"
      using m by (auto simp: vmm_map_def map_pde_def fw_def read32_def rbind_Inr_conv)
    define s1 where "s1 = write32 (pd + 4 * ?i) (g OR ?x) t"
    have "?x = 3 \<or> ?x = 7" by simp
    note N = new_table_ok [OF C i True a this, folded s1_def]
    have addr: "pte_addr (fw s1 pd ?i) = g" "fw s1 pd ?i AND 1 \<noteq> 0" using N(4) entry_simps [OF N(5)] by auto
    have "s' = write32 (pte_addr (fw s1 pd ?i) + 4 * ?k) (f OR ?x) s1"
      using m a True entry_simps(1,2) [OF N(5)] unfolding addr(1)
      by (simp add: vmm_map_def map_pde_def special_alt fw_def read32_def pte_addr_def s1_def Let_def split: if_splits)
    then show ?thesis by (rule that [OF _ addr(2) N(1-3,9,8,7)])
  qed
  note S = set_entry_ok [OF C1 i p va_index_bounds(2) [of va], where v = "f OR ?x", folded s']
  have cf: "child_frames s' pd = child_frames s1 pd" by (rule child_frames_same) (intro ballI S(3))
  show "child_ok lo {} s' pd" by (rule S(1))
  show "keeps_frames lo (child_frames s pd) s s'" by (rule keeps_frames_trans [OF K1 S(2) F1(1)])
  show "child_frames s' pd \<inter> held_frames lo s \<subseteq> child_frames s pd" "child_frames s pd \<subseteq> child_frames s' pd"
    "held_frames lo s' \<subseteq> held_frames lo s \<union> child_frames s' pd"
    unfolding cf using F1 T1 S(5) by simp_all
  show "pte_at s' pd j l = (if j = ?i \<and> l = ?k then f OR ?x else pte_at s pd j l)"
    if "j \<in> {512..<1024}" "l < 1024" for j l using S(4) [OF that] L1 [OF that] by simp
qed

text \<open>
  The pages after the entry \<open>(i, k)\<close> was made to name the new frame \<open>f\<close>. The process loses track of a frame, \<open>X\<close>, when
  the entry was in use, or when it is one of an APIC, whose frames are not counted as the process's.
\<close>

lemma fault_pages:
  assumes E: "exclusive_space c lo s pd" and i: "i \<in> {512..<1024}" and k: "k < 1024"
    and f: "offset f = 0" "f \<notin> process_pages c s pd" and x: "x = 3 \<or> x = 7"
    and ent: "\<And>j l. j \<in> {512..<1024} \<Longrightarrow> l < 1024 \<Longrightarrow>
      pte_at s' pd j l = (if j = i \<and> l = k then f OR x else pte_at s pd j l)"
  obtains X where "process_pages c s' pd \<union> X = insert f (process_pages c s pd)" "X \<inter> process_pages c s' pd = {}"
    "card X = (if apic_entry c i k \<or> pte_at s pd i k AND 1 \<noteq> 0 then 1 else 0)"
    "\<forall>j l j' l'. j \<in> {512..<1024} \<and> j' \<in> {512..<1024} \<and> own_page c s' pd j l \<and> own_page c s' pd j' l' \<and>
      pte_addr (pte_at s' pd j l) = pte_addr (pte_at s' pd j' l') \<longrightarrow> j = j' \<and> l = l'"
proof -
  let ?a = "\<lambda>j l. pte_addr (pte_at s pd j l)"
  have e: "pte_addr (f OR x) = f" "(f OR x) AND 1 \<noteq> 0" using entry_simps [OF f(1)] x by auto
  have own: "own_page c s' pd j l \<longleftrightarrow> (if j = i \<and> l = k then \<not> apic_entry c i k else own_page c s pd j l)"
    if "j \<in> {512..<1024}" for j l
    using ent [OF that] e(2) k by (cases "l < 1024") (auto simp: own_page_def)
  have addr: "pte_addr (pte_at s' pd j l) = (if j = i \<and> l = k then f else ?a j l)"
    if "j \<in> {512..<1024}" "own_page c s' pd j l" for j l
    using ent [OF that(1)] that(2) e(1) by (simp add: own_page_def)
  have inj: "j = j' \<and> l = l'" if "j \<in> {512..<1024}" "j' \<in> {512..<1024}" "own_page c s pd j l" "own_page c s pd j' l'" "?a j l = ?a j' l'"
    for j l j' l' using exclusiveD(6) [OF E, of j j' l l'] that by (simp add: own_page_def)
  have fr: "?a j l \<noteq> f" if "j \<in> {512..<1024}" "own_page c s pd j l" for j l
    using f(2) that unfolding process_pages_own by blast
  let ?R = "{?a j l | j l. j \<in> {512..<1024} \<and> own_page c s pd j l \<and> (j, l) \<noteq> (i, k)}"
  have new: "process_pages c s' pd = ?R \<union> (if apic_entry c i k then {} else {f})"
  proof (intro equalityI subsetI)
    fix q assume "q \<in> process_pages c s' pd"
    then obtain j l where j: "j \<in> {512..<1024}" "own_page c s' pd j l" "q = pte_addr (pte_at s' pd j l)"
      unfolding process_pages_own by blast
    then show "q \<in> ?R \<union> (if apic_entry c i k then {} else {f})"
      using addr [OF j(1,2)] own [OF j(1), of l] by (auto split: if_splits)
  next
    fix q assume "q \<in> ?R \<union> (if apic_entry c i k then {} else {f})"
    then consider "q = f" "\<not> apic_entry c i k" | j l where "j \<in> {512..<1024}" "own_page c s pd j l" "(j, l) \<noteq> (i, k)" "q = ?a j l"
      by (auto split: if_splits)
    then show "q \<in> process_pages c s' pd"
    proof cases
      case 1
      then have o: "own_page c s' pd i k" using own [OF i, of k] by simp
      then have "q = pte_addr (pte_at s' pd i k)" using addr [OF i o] 1(1) by simp
      then show ?thesis unfolding process_pages_own using i o by blast
    next
      case (2 j l)
      then have o: "own_page c s' pd j l" using own [OF 2(1), of l] by auto
      have "q = pte_addr (pte_at s' pd j l)" using addr [OF 2(1) o] 2(3,4) by auto
      then show ?thesis unfolding process_pages_own using 2(1) o by blast
    qed
  qed
  have old: "process_pages c s pd = ?R \<union> (if own_page c s pd i k then {?a i k} else {})"
    unfolding process_pages_own using i by (auto split: if_splits)
  have out: "f \<notin> ?R" "own_page c s pd i k \<Longrightarrow> ?a i k \<notin> ?R" using fr inj [OF i] by blast+
  have nf: "own_page c s pd i k \<Longrightarrow> ?a i k \<noteq> f" using fr [OF i] by blast
  have oa: "own_page c s pd i k \<longleftrightarrow> pte_at s pd i k AND 1 \<noteq> 0 \<and> \<not> apic_entry c i k" using k by (simp add: own_page_def)
  define X where "X = (if apic_entry c i k then {f} else if own_page c s pd i k then {?a i k} else {})"
  have 1: "process_pages c s' pd \<union> X = insert f (process_pages c s pd)" "X \<inter> process_pages c s' pd = {}"
    unfolding new old X_def using oa out nf by (simp_all split: if_splits) auto
  have 2: "card X = (if apic_entry c i k \<or> pte_at s pd i k AND 1 \<noteq> 0 then 1 else 0)" using oa by (simp add: X_def)
  have 3: "j = j' \<and> l = l'" if j: "j \<in> {512..<1024}" "j' \<in> {512..<1024}" "own_page c s' pd j l" "own_page c s' pd j' l'"
    "pte_addr (pte_at s' pd j l) = pte_addr (pte_at s' pd j' l')" for j l j' l'
  proof -
    have o: "j = i \<and> l = k \<or> own_page c s pd j l" "j' = i \<and> l' = k \<or> own_page c s pd j' l'"
      using j(3,4) own [OF j(1), of l] own [OF j(2), of l'] by metis+
    have "(if j = i \<and> l = k then f else ?a j l) = (if j' = i \<and> l' = k then f else ?a j' l')"
      using j(5) addr [OF j(1,3)] addr [OF j(2,4)] by (simp only:)
    then show ?thesis using o fr [OF j(1), of l] fr [OF j(2), of l'] inj [OF j(1,2), of l l'] by metis
  qed
  show ?thesis by (rule that [OF 1 2]) (use 3 in blast)
qed

text \<open>A fault at or above 0x80000000: the frame that backs it comes from the free ones, and at most one frame is lost.\<close>

lemma fault_accounted:
  assumes A: "accounted c lo s0 L s pd" and mo: "machine_ok c" and hi: "0x80000000 \<le> framedown va"
    and a: "alloc_frame s = Inr (f, t)" and m: "vmm_map c pd (framedown va) f t = Inr s'"
  shows "\<exists>X. accounted c lo s0 (L \<union> X) s' pd \<and> L \<inter> X = {} \<and>
    card X = (if \<not> private_page c va \<or> walk (pm_mem s) pd va \<noteq> None then 1 else 0)"
    and "held_frames lo s \<subset> held_frames lo s'"
    and "is_special c (framedown va) \<Longrightarrow> \<exists>q. walk (pm_mem s') pd va = Some (q, False)"
proof -
  let ?i = "va_pdi (framedown va)" and ?k = "va_pti (framedown va)"
  note D = accountedD [OF A] note X = exclusiveD [OF D(1)] note AL = fw_alloc [OF X(2) a]
  have ik: "?i = va_pdi va" "?k = va_pti va" using framedown_ppn [of va] by (simp_all add: same_page_iff)
  have i: "?i \<in> {512..<1024}" using upper_half hi by blast
  have stray: "apic_entry c ?i ?k \<or> pte_at s pd ?i ?k AND 1 \<noteq> 0 \<longleftrightarrow> \<not> private_page c va \<or> walk (pm_mem s) pd va \<noteq> None"
    using private_page_iff [OF mo, of va] i unfolding ik by (auto simp: walk_pte Let_def split: if_splits)
  have k: "?k < 1024" by (rule va_index_bounds)
  have pdt: "fw t pd j = fw s pd j" if "j < 1024" for j
    using AL(5) [OF held_offset [OF X(3)] that] AL(2) X(3) by auto
  have cft: "child_frames t pd = child_frames s pd" by (rule child_frames_same) (auto intro: pdt)
  have Ct: "child_ok lo {} t pd" by (rule child_ok_same [OF X(1) AL(1)]) (use AL(3) pdt in auto)
  have lt: "pte_at t pd j l = pte_at s pd j l" if j: "j \<in> {512..<1024}" "l < 1024" for j l
  proof -
    have "fw t (pte_addr (fw s pd j)) l = fw s (pte_addr (fw s pd j)) l" if "fw s pd j AND 1 \<noteq> 0"
      using AL(5) [OF pte_addr_aligned j(2)] child_tables(1) [OF X(1) j(1) that] AL(2) by auto
    then show ?thesis using pdt [of j] j(1) by (simp add: pte_at_def)
  qed
  note M = map_page_ok [OF Ct i m]
  have ent: "pte_at s' pd j l = (if j = ?i \<and> l = ?k then f OR (if is_special c (framedown va) then 3 else 7) else pte_at s pd j l)"
    if "j \<in> {512..<1024}" "l < 1024" for j l using M(6) [OF that] lt [OF that] by simp
  have fresh: "f \<notin> held_frames lo s" "f \<notin> child_frames s' pd"
  proof -
    show "f \<notin> held_frames lo s" by (rule AL(2))
    show "f \<notin> child_frames s' pd" using M(3) AL(2,3) X(1) unfolding cft child_ok_def by blast
  qed
  have fp: "f \<notin> process_pages c s pd" using fresh(1) X(4) unfolding process_frames_def by blast
  have x: "(if is_special c (framedown va) then 3 else 7 :: u32) = 3 \<or> (if is_special c (framedown va) then 3 else 7 :: u32) = 7" by simp
  obtain Y where Y: "process_pages c s' pd \<union> Y = insert f (process_pages c s pd)" "Y \<inter> process_pages c s' pd = {}"
      "card Y = (if apic_entry c ?i ?k \<or> pte_at s pd ?i ?k AND 1 \<noteq> 0 then 1 else 0)"
    and inj: "\<forall>j l j' l'. j \<in> {512..<1024} \<and> j' \<in> {512..<1024} \<and> own_page c s' pd j l \<and> own_page c s' pd j' l' \<and>
      pte_addr (pte_at s' pd j l) = pte_addr (pte_at s' pd j' l') \<longrightarrow> j = j' \<and> l = l'"
    by (rule fault_pages [OF D(1) i k AL(4) fp x ent])
  have cfs: "child_frames s' pd \<inter> held_frames lo s \<subseteq> child_frames s pd" using M(3) AL(3) unfolding cft by blast
  have hs: "held_frames lo s' = insert f (held_frames lo s) \<union> child_frames s' pd"
  proof -
    have "held_frames lo t \<subseteq> held_frames lo s'" "child_frames s' pd \<subseteq> held_frames lo s'"
      using M(1,2) unfolding child_ok_def keeps_frames_def by simp_all
    then show ?thesis using M(5) unfolding AL(3) by (intro equalityI Un_least)
  qed
  have sub: "process_pages c s' pd \<subseteq> insert f (process_pages c s pd)" "Y \<subseteq> insert f (process_pages c s pd)" using Y(1) by blast+
  have "insert f (process_pages c s pd) \<inter> child_frames s' pd = {}"
    using fresh(2) X(4,5) cfs unfolding process_frames_def by blast
  then have pc: "process_pages c s' pd \<inter> child_frames s' pd = {}" "Y \<inter> child_frames s' pd = {}" using sub by blast+
  have "process_pages c s' pd \<subseteq> held_frames lo s' - child_frames s' pd"
    using pc(1) sub(1) X(4) unfolding hs process_frames_def by blast
  then have Ex: "exclusive_space c lo s' pd"
    unfolding exclusive_space_def using M(1) inj unfolding own_page_def by blast
  have new: "insert f (process_pages c s pd) \<inter> (held_frames lo s0 \<union> L) = {}"
    using D(2,3) fresh(1) unfolding process_frames_def by blast
  have LY: "L \<inter> Y = {}" "held_frames lo s0 \<inter> (L \<union> Y) = {}" using new sub(2) D(4) by blast+
  have "held_frames lo s' = insert f (process_pages c s pd) \<union> (held_frames lo s0 \<union> L \<union> child_frames s' pd)"
    unfolding hs D(2) process_frames_def using M(4) unfolding cft by blast
  then have H: "held_frames lo s' = held_frames lo s0 \<union> (L \<union> Y) \<union> process_frames c s' pd"
    unfolding Y(1) [symmetric] process_frames_def by blast
  have cfd: "(held_frames lo s0 \<union> L) \<inter> child_frames s' pd = {}"
    using D(2,3) cfs unfolding process_frames_def by blast
  have dis: "(held_frames lo s0 \<union> (L \<union> Y)) \<inter> process_frames c s' pd = {}"
    using cfd pc(2) Y(2) new sub(1) unfolding process_frames_def by blast
  have "fw s' q j = fw s0 q j" if q: "q \<in> held_frames lo s0" "j < 1024" for q j
  proof -
    have h: "q \<in> held_frames lo t" "q \<in> held_frames lo s" "q \<noteq> f" "q \<notin> child_frames t pd"
      using q(1) D(2,3) AL(2,3) unfolding cft process_frames_def by blast+
    then have "fw s' q j = fw t q j" using M(2) q(2) unfolding keeps_frames_def by blast
    then show ?thesis using AL(5) [OF held_offset [OF h(2)] q(2)] h(3) D(5) [OF q] by simp
  qed
  then have "accounted c lo s0 (L \<union> Y) s' pd" using Ex H dis LY(2) unfolding accounted_def by blast
  then show "\<exists>X. accounted c lo s0 (L \<union> X) s' pd \<and> L \<inter> X = {} \<and>
    card X = (if \<not> private_page c va \<or> walk (pm_mem s) pd va \<noteq> None then 1 else 0)" using LY(1) Y(3) stray by auto
  show "held_frames lo s \<subset> held_frames lo s'" using fresh(1) unfolding hs by blast
  show "\<exists>q. walk (pm_mem s') pd va = Some (q, False)" if "is_special c (framedown va)"
    using ent [OF i k] that entry_simps(3,5) [OF AL(4)] unfolding ik by (simp add: walk_pte)
qed

section \<open>The life of a process\<close>

text \<open>
  What happens while a process runs: it touches an address that it may not use and the page fault handler is entered,
  it stores the value \<open>x\<close> in word \<open>k\<close> of a page it has, or \<open>exec\<close> empties its memory. A fault that ends the process, or
  that finds no frame, ends the run.
\<close>

datatype life_event = Touch u32 | Store_Word u32 u32 u32 | Exec_Clear

fun life_step :: "Config \<Rightarrow> u32 \<Rightarrow> life_event \<Rightarrow> cpu \<Rightarrow> cpu option" where
  "life_step c pd (Touch fva) v =
     (case vmm_pageFault c pd pd fva v of Inr (Resume v') \<Rightarrow> Some v' | _ \<Rightarrow> None)"
| "life_step c pd (Store_Word q k x) v = Some (cpu_write32 (q + 4 * k) x v)"
| "life_step c pd Exec_Clear v = (case delete_private c pd v of Inr v' \<Rightarrow> Some v' | Inl e \<Rightarrow> None)"

text \<open>The processor faults where there is no translation, or one that user mode may not use.\<close>

fun life_legal :: "Config \<Rightarrow> u32 \<Rightarrow> life_event \<Rightarrow> cpu \<Rightarrow> bool" where
  "life_legal c pd (Touch fva) v \<longleftrightarrow> (case walk (pm_mem (cpu_phys v)) pd fva of None \<Rightarrow> True | Some (a, user) \<Rightarrow> \<not> user)"
| "life_legal c pd (Store_Word q k x) v \<longleftrightarrow> q \<in> process_pages c (cpu_phys v) pd \<and> k < 1024"
| "life_legal c pd Exec_Clear v \<longleftrightarrow> True"

text \<open>A fault on the page of an APIC, or on a page that is there, closed to user mode.\<close>

fun stray :: "Config \<Rightarrow> u32 \<Rightarrow> life_event \<Rightarrow> cpu \<Rightarrow> bool" where
  "stray c pd (Touch fva) v \<longleftrightarrow> \<not> private_page c fva \<or> walk (pm_mem (cpu_phys v)) pd fva \<noteq> None"
| "stray c pd e v \<longleftrightarrow> False"

text \<open>The state after the events, each of them legal where it happens, and how many of them were stray faults.\<close>

fun life_run :: "Config \<Rightarrow> u32 \<Rightarrow> life_event list \<Rightarrow> cpu \<Rightarrow> (cpu \<times> nat) option" where
  "life_run c pd [] v = Some (v, 0)"
| "life_run c pd (e # es) v =
     (if life_legal c pd e v
      then Option.bind (life_step c pd e v) (\<lambda>v1.
        map_option (\<lambda>(v', n). (v', (if stray c pd e v then 1 else 0) + n)) (life_run c pd es v1))
      else None)"

lemma touch_accounted:
  assumes A: "accounted c lo s0 L (cpu_phys v) pd" and m: "machine_ok c" and cr3: "cpu_cr3 v = pd"
    and st: "life_step c pd (Touch fva) v = Some v'"
  shows "\<exists>X. accounted c lo s0 (L \<union> X) (cpu_phys v') pd \<and> L \<inter> X = {} \<and>
    card X = (if stray c pd (Touch fva) v then 1 else 0) \<and> cpu_cr3 v' = pd"
proof -
  obtain f t s' where f: "0x80000000 \<le> framedown fva" "alloc_frame (cpu_phys v) = Inr (f, t)"
    "vmm_map c pd (framedown fva) f t = Inr s'" and v': "v' = v\<lparr>cpu_phys := s'\<rparr>"
    using st cr3 by (auto simp: vmm_pageFault_def Let_def rbind_def split: sum.splits fault_outcome.splits if_splits)
  show ?thesis using fault_accounted(1) [OF A m f] cr3 v' by auto
qed

lemma store_accounted:
  assumes A: "accounted c lo s0 L s pd" and q: "q \<in> process_pages c s pd" "k < 1024"
  shows "accounted c lo s0 L (write32 (q + 4 * k) x s) pd"
proof -
  let ?s' = "write32 (q + 4 * k) x s"
  note D = accountedD [OF A] note X = exclusiveD [OF D(1)]
  have h: "q \<in> held_frames lo s" "q \<notin> child_frames s pd" "q \<notin> held_frames lo s0"
    using q(1) X(4,5) D(3) unfolding process_frames_def by blast+
  note o = held_offset [OF h(1)]
  have W: "phys_inv lo ?s'" "held_frames lo ?s' = held_frames lo s" using held_write [OF X(2) h(1) o q(2)] by auto
  have F: "fw ?s' r j = fw s r j" if "offset r = 0" "j < 1024" "r \<noteq> q" for r j
    using fw_write [OF o q(2) that(1,2)] that(3) by simp
  have "pd \<noteq> q" using h(2) child_frames_self by blast
  then have pd: "fw ?s' pd j = fw s pd j" if "j < 1024" for j using F [OF held_offset [OF X(3)] that] by simp
  have cf: "child_frames ?s' pd = child_frames s pd" by (rule child_frames_same) (auto intro: pd)
  have C: "child_ok lo {} ?s' pd" by (rule child_ok_same [OF X(1) W(1)]) (use W(2) pd in auto)
  have ent: "pte_at ?s' pd j l = pte_at s pd j l" if "j \<in> {512..<1024}" "l < 1024" for j l
  proof -
    have "fw ?s' (pte_addr (fw s pd j)) l = fw s (pte_addr (fw s pd j)) l" if p: "fw s pd j AND 1 \<noteq> 0"
      by (rule F [OF pte_addr_aligned \<open>l < 1024\<close>])
        (use child_frames_table [OF \<open>j \<in> {512..<1024}\<close> p] h(2) in auto)
    then show ?thesis using pd [of j] that(1) by (simp add: pte_at_def)
  qed
  have own: "own_page c ?s' pd j l = own_page c s pd j l" if "j \<in> {512..<1024}" for j l
    using ent [OF that] by (auto simp: own_page_def)
  have pages: "process_pages c ?s' pd = process_pages c s pd"
    unfolding process_pages_own using own ent by (intro Collect_cong) (metis own_page_def)
  have E: "exclusive_space c lo ?s' pd"
    unfolding exclusive_space_def pages cf W(2)
    using C D(1) ent by (simp add: exclusive_space_def)
  have "fw ?s' r j = fw s0 r j" if "r \<in> held_frames lo s0" "j < 1024" for r j
    using F [OF held_offset [OF that(1)] that(2)] D(5) [OF that] h(3) that(1) by auto
  then show ?thesis using E D(2-4) by (simp add: accounted_def process_frames_def pages cf W(2))
qed

lemma clear_accounted:
  assumes A: "accounted c lo s0 L (cpu_phys v) pd" and m: "machine_ok c" and cr3: "cpu_cr3 v = pd"
    and st: "life_step c pd Exec_Clear v = Some v'"
  shows "accounted c lo s0 L (cpu_phys v') pd \<and> cpu_cr3 v' = pd"
proof -
  note D = accountedD [OF A]
  obtain w where "delete_private c pd v = Inr w" and w: "cleared c lo pd {512..<1024} v w"
    using delete_private_cleared [OF D(1) m cr3] by blast
  then have C: "cleared c lo pd {512..<1024} v v'" using st by simp
  have E: "exclusive_space c lo (cpu_phys v') pd" by (rule cleared_exclusive [OF D(1) C]) simp
  have sub: "process_frames c (cpu_phys v') pd \<subseteq> process_frames c (cpu_phys v) pd"
    using cleared_frames [OF C] unfolding process_frames_def by blast
  have "held_frames lo (cpu_phys v') = held_frames lo s0 \<union> L \<union> process_frames c (cpu_phys v') pd"
    using D(2,3) sub unfolding clearedD(2) [OF C] cleared_gone(1) [OF D(1) C] by blast
  moreover have "(held_frames lo s0 \<union> L) \<inter> process_frames c (cpu_phys v') pd = {}" using D(3) sub by blast
  moreover have "fw (cpu_phys v') q j = fw s0 q j" if "q \<in> held_frames lo s0" "j < 1024" for q j
    using clearedD(7) [OF C held_offset [OF that(1)] that(2)] D(3) D(5) [OF that] that(1) by auto
  ultimately show ?thesis using E clearedD(3) [OF C] cr3 D(4) by (simp add: accounted_def)
qed

text \<open>One step, then a run: the lost frames are as many as the stray faults.\<close>

lemma step_accounted:
  assumes A: "accounted c lo s0 L (cpu_phys v) pd" and m: "machine_ok c" and cr3: "cpu_cr3 v = pd"
    and e: "life_legal c pd e v" "life_step c pd e v = Some v1"
  shows "\<exists>X. accounted c lo s0 (L \<union> X) (cpu_phys v1) pd \<and> L \<inter> X = {} \<and>
    card X = (if stray c pd e v then 1 else 0) \<and> cpu_cr3 v1 = pd"
proof (cases e)
  case (Touch fva)
  then show ?thesis using touch_accounted [OF A m cr3, of fva v1] e(2) by simp
next
  case (Store_Word q k x)
  then have "accounted c lo s0 L (cpu_phys v1) pd" "cpu_cr3 v1 = pd"
    using store_accounted [OF A, of q k x] e cr3 by (auto simp: cpu_write32_def)
  then show ?thesis using Store_Word by (intro exI [of _ "{}"]) simp
next
  case Exec_Clear
  then have "accounted c lo s0 L (cpu_phys v1) pd \<and> cpu_cr3 v1 = pd" using clear_accounted [OF A m cr3] e(2) by simp
  then show ?thesis using Exec_Clear by (intro exI [of _ "{}"]) simp
qed

lemma life_accounted:
  assumes "accounted c lo s0 L (cpu_phys v) pd" "machine_ok c" "cpu_cr3 v = pd" "life_run c pd es v = Some (v', n)"
  shows "\<exists>X. accounted c lo s0 (L \<union> X) (cpu_phys v') pd \<and> L \<inter> X = {} \<and> card X = n \<and> cpu_cr3 v' = pd"
  using assms
proof (induction es arbitrary: v L n)
  case Nil
  then show ?case by (intro exI [of _ "{}"]) simp
next
  case (Cons e es)
  obtain v1 n1 where v1: "life_legal c pd e v" "life_step c pd e v = Some v1" "life_run c pd es v1 = Some (v', n1)"
    and n: "n = (if stray c pd e v then 1 else 0) + n1"
    using Cons.prems(4) by (auto simp: bind_eq_Some_conv split: if_splits)
  obtain X where X: "accounted c lo s0 (L \<union> X) (cpu_phys v1) pd" "L \<inter> X = {}" "card X = (if stray c pd e v then 1 else 0)"
    "cpu_cr3 v1 = pd" using step_accounted [OF Cons.prems(1-3) v1(1,2)] by blast
  obtain Y where Y: "accounted c lo s0 ((L \<union> X) \<union> Y) (cpu_phys v') pd" "(L \<union> X) \<inter> Y = {}" "card Y = n1" "cpu_cr3 v' = pd"
    using Cons.IH [OF X(1) Cons.prems(2) X(4) v1(3)] by blast
  have "card (X \<union> Y) = n" using X(3) Y(2,3) n by (subst card_Un_disjoint) auto
  then show ?case using Y X(2) by (intro exI [of _ "X \<union> Y"]) (auto simp: Un_assoc)
qed

end
