(* ===== verification/Frame_Room.thy ===== *)
theory Frame_Room
  imports VMM
begin

text \<open>
  How many frames are left, before any was returned: with \<open>n\<close> frames of room the next \<open>n\<close> requests succeed. \<open>map\<close>
  takes a frame only when the page table is missing.
\<close>

definition room :: "nat \<Rightarrow> phys \<Rightarrow> bool" where
  "room n s \<longleftrightarrow> firstFree s = 0 \<and> offset (pm_avail s) = 0 \<and>
     uint (pm_avail s) + 0x1000 * int n \<le> uint (pm_limit s)"

lemma room_less: "room n s \<Longrightarrow> m \<le> n \<Longrightarrow> room m s"
  by (auto simp: room_def)

lemma room_write [simp]: "room n (write32 a v s) = room n s"
  by (simp add: room_def write32_def)

lemma room_copy [simp]: "room n (copy_words d src k s) = room n s"
  by (induction k arbitrary: d src s) simp_all

lemma alloc_room:
  assumes "room (Suc n) s"
  shows "\<exists>s1. alloc_frame s = Inr (pm_avail s, s1) \<and> room n s1"
proof -
  have a: "firstFree s = 0" "offset (pm_avail s) = 0" "uint (pm_avail s) + 0x1000 * int (Suc n) \<le> uint (pm_limit s)"
    using assms by (simp_all add: room_def)
  have lim: "uint (pm_limit s) < 2 ^ 32" using uint_bounded [of "pm_limit s"] by simp
  have ne: "pm_avail s \<noteq> pm_limit s" using a(3) by auto
  let ?s = "bzero_frame (pm_avail s) (s\<lparr>pm_avail := pm_avail s + FRAME_SIZE\<rparr>)"
  have e: "alloc_frame s = Inr (pm_avail s, ?s)"
    using a(1,2) ne by (simp add: alloc_frame_def take_frame_def)
  have u: "uint (pm_avail s + FRAME_SIZE) = uint (pm_avail s) + 0x1000"
    using a(3) lim uint_ge_0 [of "pm_avail s"] by (simp only: FRAME_SIZE_def uint_word_ariths) simp
  have "0x1000 dvd uint (pm_avail s)" using a(2) by (simp add: offset_0_iff)
  then have "offset (pm_avail s + FRAME_SIZE) = 0" unfolding offset_0_iff u by simp
  then have "room n ?s" using a(1,3) u by (simp add: room_def bzero_frame_def)
  then show ?thesis using e by blast
qed

lemma map_room:
  assumes "room (if present (pm_mem s) pd (va_pdi va) then n else Suc n) s"
  shows "\<exists>s'. vmm_map c pd va pa s = Inr s' \<and> room n s'"
proof (cases "present (pm_mem s) pd (va_pdi va)")
  case True
  then show ?thesis using assms by (auto simp: vmm_map_def map_pde_def present_def read32_def Let_def)
next
  case False
  then obtain s1 where "alloc_frame s = Inr (pm_avail s, s1)" "room n s1" using alloc_room [of n s] assms by auto
  then show ?thesis using False by (simp add: vmm_map_def map_pde_def present_def read32_def Let_def)
qed

lemma map_room_Suc: "room (Suc n) s \<Longrightarrow> \<exists>s'. vmm_map c pd va pa s = Inr s' \<and> room n s'"
  using map_room [of s pd va n] room_less [of "Suc n" s n] by auto

end
