(* ===== verification/Lifetime.thy ===== *)
theory Lifetime
  imports Accounts Frame_Room
begin

text \<open>The address space of a process from its creation to its end: the properties.\<close>

section \<open>Properties\<close>

text \<open>
  C1. From \<open>fork\<close> to the destructor a process touches no frame that is not its own, and loses one exactly for each stray
  fault. Let \<open>s\<close> be the memory before the fork. Unless the frames are used up, the child runs in the directory \<open>cpd\<close>;
  whatever it does there (touch any address it may not use, store to its pages, \<open>exec\<close>), once it is over and another
  directory is loaded, \<open>delete_pd\<close> succeeds, each frame of \<open>s\<close> has the contents it had, and the frames that are held
  are those of \<open>s\<close> and \<open>n\<close> others, where \<open>n\<close> counts the page faults on the pages of the APICs and on pages that were
  there already but closed to user mode. A process that does neither leaves nothing behind.
\<close>

theorem process_lifetime:
  assumes P: "process_space c lo s pd" and sh: "shared_pd \<in> held_frames lo s" and m: "machine_ok c"
  shows "fork_space c shared_pd pd s = Inl (Panic ''no more frames'') \<or>
    (\<exists>cpd s'. fork_space c shared_pd pd s = Inr (cpd, s') \<and>
       (\<forall>es v v' n w. cpu_phys v = s' \<and> cpu_cr3 v = cpd \<and> life_run c cpd es v = Some (v', n) \<and>
          cpu_phys w = cpu_phys v' \<and> cpu_cr3 w \<noteq> cpd \<longrightarrow>
          (\<exists>w' L. delete_pd c cpd w = Inr w' \<and> held_frames lo (cpu_phys w') = held_frames lo s \<union> L \<and>
             held_frames lo s \<inter> L = {} \<and> card L = n \<and>
             (\<forall>q \<in> held_frames lo s. \<forall>j < 1024. fw (cpu_phys w') q j = fw s q j))))"
proof (cases "fork_space c shared_pd pd s")
  case (Inl e)
  then show ?thesis using fork_space_stages [OF P sh m] by auto
next
  case (Inr r)
  obtain cpd s' where r: "fork_space c shared_pd pd s = Inr (cpd, s')" using Inr by (cases r) auto
  have A: "accounted c lo s {} s' cpd" by (rule fork_accounted [OF P sh m r])
  have "\<exists>w' L. delete_pd c cpd w = Inr w' \<and> held_frames lo (cpu_phys w') = held_frames lo s \<union> L \<and>
      held_frames lo s \<inter> L = {} \<and> card L = n \<and> (\<forall>q \<in> held_frames lo s. \<forall>j < 1024. fw (cpu_phys w') q j = fw s q j)"
    if v: "cpu_phys v = s'" "cpu_cr3 v = cpd" "life_run c cpd es v = Some (v', n)"
      and w: "cpu_phys w = cpu_phys v'" "cpu_cr3 w \<noteq> cpd" for es v v' n w
  proof -
    obtain X where X: "accounted c lo s X (cpu_phys v') cpd" "card X = n"
      using life_accounted [of c lo s "{}" v cpd es v' n] A v m by auto
    then show ?thesis using accounted_delete [of c lo s X w cpd] accountedD(4) [OF X(1)] m w by auto
  qed
  then show ?thesis using r by blast
qed

text \<open>A directory without entries forks: three frames are enough.\<close>

lemma fork_pdes_absent:
  "\<forall>i \<in> set is. fw s pd i AND 1 = 0 \<Longrightarrow> fork_pdes pd cpd is s = Inr s"
  by (induction "is") (simp_all add: fw_def read32_def Let_def)

lemma demo_fork:
  obtains cpd s' where "fork_space demo_config 0x600000 0x600000 demo_space = Inr (cpd, s')"
    "process_space demo_config VMM_FRAMES demo_space 0x600000" "0x600000 \<in> held_frames VMM_FRAMES demo_space"
    "machine_ok demo_config"
proof -
  have absent: "fw demo_space 0x600000 i AND 1 = 0" if "i < 1024" for i
    using demo_space_empty [OF that] by (simp add: present_def fw_def)
  have held: "0x600000 \<in> held_frames VMM_FRAMES demo_space" "phys_inv VMM_FRAMES demo_space"
    using demo_space_ok by (simp_all add: space_ok_def)
  have m: "machine_ok demo_config" by (simp add: machine_ok_def demo_config_def offset_def)
  have "\<not> present (pm_mem demo_space) 0x600000 (va_pdi va)" for va
    by (rule demo_space_empty) (rule va_index_bounds)
  then have P: "process_space demo_config VMM_FRAMES demo_space 0x600000"
    using held by (simp add: process_space_def walk_alt)
  have "room 3 demo_space" by (simp add: room_def demo_space_def bzero_frame_def demo_phys_def offset_def)
  then obtain cpd s1 where a: "alloc_frame demo_space = Inr (cpd, s1)" "room 2 s1"
    using alloc_room [of 2 demo_space] by (auto simp: numeral_3_eq_3 numeral_2_eq_2)
  have "\<exists>s4. make_pd demo_config 0x600000 demo_space = Inr (cpd, s4)"
  proof -
    have "room (Suc (Suc 0)) (copy_words cpd 0x600000 n s1)" for n using a(2) by (simp add: numeral_2_eq_2)
    then obtain s3 s4 where
      "vmm_map demo_config cpd (ioAPIC demo_config) (ioAPIC demo_config)
        (copy_words cpd 0x600000 (unat (4 * ((memSize demo_config + 4 * 1024 * 1024 - 1) div (4 * 1024 * 1024))) div 4) s1) = Inr s3"
      "vmm_map demo_config cpd (localAPIC demo_config) (localAPIC demo_config) s3 = Inr s4"
      using map_room_Suc by metis
    then show ?thesis unfolding make_pd_def a(1) by (simp add: Let_def)
  qed
  then obtain s4 where mk: "make_pd demo_config 0x600000 demo_space = Inr (cpd, s4)" by blast
  have "fw s4 0x600000 i AND 1 = 0" if "i < 1024" for i
    using make_pd_ok [OF held(2,1) m] mk held(1) absent [OF that] that by auto
  then have "fork_pdes 0x600000 cpd (map word_of_nat [512..<1024]) s4 = Inr s4"
    by (intro fork_pdes_absent) (simp only: upper_indices(1), simp)
  then have "fork_space demo_config 0x600000 0x600000 demo_space = Inr (cpd, s4)"
    unfolding fork_space_def mk by (simp only: rbind_simps prod.case)
  then show ?thesis using that P held(1) m by blast
qed

lemma process_lifetime_witness:
  "\<exists>cpd s' w'. fork_space demo_config 0x600000 0x600000 demo_space = Inr (cpd, s') \<and>
    delete_pd demo_config cpd \<lparr>cpu_phys = s', cpu_cr3 = cpd + 1, cpu_flushed = []\<rparr> = Inr w' \<and>
    held_frames VMM_FRAMES (cpu_phys w') = held_frames VMM_FRAMES demo_space"
proof -
  obtain cpd s' where f: "fork_space demo_config 0x600000 0x600000 demo_space = Inr (cpd, s')"
    and h: "process_space demo_config VMM_FRAMES demo_space 0x600000" "0x600000 \<in> held_frames VMM_FRAMES demo_space"
      "machine_ok demo_config" by (rule demo_fork)
  let ?v = "\<lparr>cpu_phys = s', cpu_cr3 = cpd, cpu_flushed = []\<rparr>"
  let ?w = "\<lparr>cpu_phys = s', cpu_cr3 = cpd + 1, cpu_flushed = []\<rparr>"
  have L: "\<forall>es v v' n w. cpu_phys v = s' \<and> cpu_cr3 v = cpd \<and> life_run demo_config cpd es v = Some (v', n) \<and>
      cpu_phys w = cpu_phys v' \<and> cpu_cr3 w \<noteq> cpd \<longrightarrow>
      (\<exists>w' L. delete_pd demo_config cpd w = Inr w' \<and> held_frames VMM_FRAMES (cpu_phys w') = held_frames VMM_FRAMES demo_space \<union> L \<and>
         held_frames VMM_FRAMES demo_space \<inter> L = {} \<and> card L = n \<and>
         (\<forall>q \<in> held_frames VMM_FRAMES demo_space. \<forall>j < 1024. fw (cpu_phys w') q j = fw demo_space q j))"
    using process_lifetime [OF h] unfolding f by simp
  obtain w' where "delete_pd demo_config cpd ?w = Inr w'"
    "held_frames VMM_FRAMES (cpu_phys w') = held_frames VMM_FRAMES demo_space"
    using L [rule_format, of ?v "[]" ?v 0 ?w] by auto
  then show ?thesis using f by blast
qed

text \<open>
  C13. \<open>exec\<close> clears the address space it runs in: afterwards no private page is mapped, the other pages of the upper
  half are mapped as before, every page that was mapped has been flushed from the translation buffer, and exactly the
  frames that the process no longer uses were given back; frames of others keep their contents.
\<close>

theorem exec_clears:
  assumes E: "exclusive_space c lo (cpu_phys v) pd" and m: "machine_ok c" and cr3: "cpu_cr3 v = pd"
  shows "\<exists>v'. delete_private c pd v = Inr v' \<and> exclusive_space c lo (cpu_phys v') pd \<and> cpu_cr3 v' = pd \<and>
    held_frames lo (cpu_phys v') =
      held_frames lo (cpu_phys v) - (process_frames c (cpu_phys v) pd - process_frames c (cpu_phys v') pd) \<and>
    (\<forall>va. private_page c va \<longrightarrow> walk (pm_mem (cpu_phys v')) pd va = None \<and>
       (walk (pm_mem (cpu_phys v)) pd va \<noteq> None \<longrightarrow> framedown va \<in> set (cpu_flushed v'))) \<and>
    (\<forall>va. 0x80000000 \<le> va \<and> \<not> private_page c va \<longrightarrow>
       walk (pm_mem (cpu_phys v')) pd va = walk (pm_mem (cpu_phys v)) pd va) \<and>
    (\<forall>q j. offset q = 0 \<and> j < 1024 \<and> q \<notin> process_frames c (cpu_phys v) pd \<longrightarrow>
       fw (cpu_phys v') q j = fw (cpu_phys v) q j)"
proof -
  obtain v' where v': "delete_private c pd v = Inr v'" "cleared c lo pd {512..<1024} v v'"
    using delete_private_cleared [OF E m cr3] by blast
  note D = clearedD [OF v'(2)] and W = cleared_walk [OF v'(2) m]
  have "exclusive_space c lo (cpu_phys v') pd" by (rule cleared_exclusive [OF E v'(2)]) simp
  moreover have "held_frames lo (cpu_phys v') =
      held_frames lo (cpu_phys v) - (process_frames c (cpu_phys v) pd - process_frames c (cpu_phys v') pd)"
    using D(2) cleared_gone(1) [OF E v'(2)] by simp
  ultimately show ?thesis using v'(1) D(3,7) W cr3 by (intro exI [of _ v'] conjI allI impI) auto
qed

lemma exec_clears_witness:
  "\<exists>cpd s' v'. fork_space demo_config 0x600000 0x600000 demo_space = Inr (cpd, s') \<and>
    delete_private demo_config cpd \<lparr>cpu_phys = s', cpu_cr3 = cpd, cpu_flushed = []\<rparr> = Inr v' \<and>
    walk (pm_mem (cpu_phys v')) cpd 0x80001000 = None"
proof -
  obtain cpd s' where f: "fork_space demo_config 0x600000 0x600000 demo_space = Inr (cpd, s')"
    and h: "process_space demo_config VMM_FRAMES demo_space 0x600000" "0x600000 \<in> held_frames VMM_FRAMES demo_space"
      "machine_ok demo_config" by (rule demo_fork)
  let ?v = "\<lparr>cpu_phys = s', cpu_cr3 = cpd, cpu_flushed = []\<rparr>"
  have E: "exclusive_space demo_config VMM_FRAMES (cpu_phys ?v) cpd"
    using accountedD(1) [OF fork_accounted [OF h f]] by simp
  have pp: "private_page demo_config 0x80001000"
    by (simp add: private_page_def is_special_def framedown_def FRAME_SIZE_def demo_config_def)
  show ?thesis using exec_clears [OF E h(3)] pp f by fastforce
qed

section \<open>The pages of the APICs\<close>






end
