(* ===== verification/Formats.thy ===== *)
theory Formats
  imports Printf_Facts
begin

text \<open>
  A reference for formats of text and plain conversions: \<open>render\<close> puts the pieces together, and the state machine
  of the formatter agrees with it whenever the text fits the limit. The user programs print through it.
\<close>

section \<open>The reference\<close>

definition int_text :: "char \<Rightarrow> u32 \<Rightarrow> string" where
  "int_text c w =
     (let base = (if c = CHR ''o'' then 8 else if c \<in> set ''diu'' then 10 else 16);
          flags = (if c \<in> set ''dip'' then 0 else if c = CHR ''X'' then DP_F_UP OR DP_F_UNSIGNED else DP_F_UNSIGNED)
      in sign_string (sint w) flags @ numeral_string base flags (fmtint_uvalue (sint w) flags))"

fun conversion :: "char \<Rightarrow> 'd vararg list \<Rightarrow> (string \<times> 'd vararg list) option" where
  "conversion c (VInt w # as) =
     (if c \<in> set ''dioupxX'' then Some (int_text c w, as)
      else if c = CHR ''c'' then Some ([char_of (unat w)], as)
      else if c = CHR ''%'' then Some (''%'', VInt w # as) else None)"
| "conversion c (VStr v # as) =
     (if c = CHR ''s'' then Some (v, as) else if c = CHR ''%'' then Some (''%'', VStr v # as) else None)"
| "conversion c as = (if c = CHR ''%'' then Some (''%'', as) else None)"

fun render :: "string \<Rightarrow> 'd vararg list \<Rightarrow> string option" where
  "render [] as = Some []"
| "render (c # fmt) as =
     (if c = NUL then None
      else if c \<noteq> CHR ''%'' then map_option (Cons c) (render fmt as)
      else case fmt of
             [] \<Rightarrow> None
           | d # fmt' \<Rightarrow>
               (case conversion d as of
                  None \<Rightarrow> None
                | Some (piece, as') \<Rightarrow> map_option ((@) piece) (render fmt' as')))"

section \<open>The formatter follows it\<close>

text \<open>The loop in front of the rest of the format.\<close>

definition text_state :: "string \<Rightarrow> 'd vararg list \<Rightarrow> ostream \<Rightarrow> 'd dopr" where
  "text_state fmt as b =
     (dopr_init [] as)\<lparr>dp_out := b, dp_ch := (case fmt of [] \<Rightarrow> NUL | c # cs \<Rightarrow> c),
       dp_fmt := (case fmt of [] \<Rightarrow> None | c # cs \<Rightarrow> Some cs)\<rparr>"

lemma dopr_next_text:
  "dopr_next (dopr_init fmt as) = Inr (text_state fmt as \<lparr>os_out = [], os_len = 0\<rparr>)"
  by (simp add: dopr_next_def dopr_init_def text_state_def split: list.split)

lemma dopr_loop_char:
  assumes "c \<noteq> NUL" "c \<noteq> CHR ''%''" "os_len b < maxlen"
  shows "dopr_loop F maxlen (text_state (c # fmt) as b) = dopr_loop F maxlen (text_state fmt as (dopr_outch c b))"
  using assms
  by (subst dopr_loop_turn)
    (auto simp: text_state_def dopr_init_def dopr_turn_def dopr_next_def Let_def split: list.split)

lemma fmtstr_copy_all:
  "cnt + int (length cs) \<le> mx \<Longrightarrow>
   fmtstr_copy cs cnt mx b = (cnt + int (length cs), fold dopr_outch cs b)"
  by (induction cs arbitrary: cnt b) auto

lemma fmtstr_plain: "int (length v) \<le> mx \<Longrightarrow> fmtstr (Some v) 0 0 mx b = fold dopr_outch v b"
  by (simp add: fmtstr_def fmtstr_copy_all has_flag_def)

text \<open>\<open>currlen\<close> is the length of what has been printed.\<close>

definition len_ok :: "ostream \<Rightarrow> bool" where
  "len_ok b \<longleftrightarrow> os_len b = int (length (os_out b))"

lemma dopr_outch_len: "os_len (dopr_outch c b) = os_len b + 1"
  by (simp add: dopr_outch_def)

lemma len_ok_outch: "len_ok b \<Longrightarrow> len_ok (dopr_outch c b)"
  by (simp add: len_ok_def dopr_outch_def)

lemma len_ok_fold: "len_ok b \<Longrightarrow> len_ok (fold dopr_outch cs b)"
  by (simp add: len_ok_def fold_outch_out)

lemma len_ok_fmtint: "len_ok b \<Longrightarrow> len_ok (fmtint value base mn mx flags b)"
  by (simp add: fmtint_def fmtint_emit_def Let_def len_ok_def outch_times_out fold_outch_out dopr_outch_def
      split: prod.split option.split)

lemma conv_step:
  fixes s :: "'d dopr"
  assumes c: "conversion c (dp_args s) = Some (piece, as')" and m: "int (length piece) \<le> maxlen"
    and s: "dp_ch s = c" "dp_min s = 0" "dp_max s = -1" "dp_flags s = 0" "len_ok (dp_out s)"
  shows "\<exists>s1. dopr_conv F maxlen s = Inr s1 \<and> dp_fmt s1 = dp_fmt s \<and> dp_args s1 = as' \<and> dp_stored s1 = dp_stored s \<and>
    os_out (dp_out s1) = os_out (dp_out s) @ piece \<and> len_ok (dp_out s1)"
proof (cases "c \<in> set ''dioupxX''")
  case True
  then obtain w as1 where a: "dp_args s = VInt w # as1" "piece = int_text c w" "as' = as1"
    using c by (cases "dp_args s" rule: list.exhaust) (auto elim!: conversion.elims)
  have "c \<in> {CHR ''d'', CHR ''i'', CHR ''o'', CHR ''u'', CHR ''p'', CHR ''x'', CHR ''X''}" using True by auto
  then show ?thesis
    using s a
    by (elim insertE emptyE)
      (simp add: dopr_conv_def conv_int_def va_word_def add_flag_def fmtint_plain int_text_def len_ok_fmtint Let_def)+
next
  case False
  then show ?thesis
    using c m s
    by (auto elim!: conversion.elims split: if_splits simp: dopr_conv_def va_word_def va_str_def fmtstr_plain
      fold_outch_out len_ok_fold len_ok_outch Let_def)
qed

lemma conversion_chars: "conversion c as = Some r \<Longrightarrow> c \<in> set conv_chars"
  by (auto elim!: conversion.elims split: if_splits simp: conv_chars_def)

lemma conv_char_plain:
  assumes "c \<in> set conv_chars"
  shows "c \<noteq> NUL" "c \<noteq> CHR ''-''" "c \<noteq> CHR ''+''" "c \<noteq> CHR '' ''" "c \<noteq> CHR ''#''" "c \<noteq> CHR ''0''" "\<not> isdigit c"
    "c \<noteq> CHR ''*''" "c \<noteq> CHR ''.''" "c \<noteq> CHR ''h''" "c \<noteq> CHR ''l''" "c \<noteq> CHR ''L''"
  using assms by (auto simp: conv_chars_def NUL_def isdigit_def)

text \<open>A percent sign and a conversion character.\<close>

lemma dopr_loop_conv:
  fixes as :: "'d vararg list"
  assumes c: "conversion c as = Some (piece, as')" and l: "len_ok b" "os_len b + int (length piece) \<le> maxlen"
    and r: "os_len b < maxlen"
  shows "\<exists>b'. os_out b' = os_out b @ piece \<and> len_ok b' \<and>
    dopr_loop F maxlen (text_state (CHR ''%'' # c # fmt) as b) = dopr_loop F maxlen (text_state fmt as' b')"
proof -
  note P = conv_char_plain [OF conversion_chars [OF c]]
  define s where "s = (dopr_init [] as)\<lparr>dp_out := b, dp_ch := c, dp_fmt := Some fmt, dp_state := DP_S_CONV\<rparr>"
  have "dopr_loop F maxlen (text_state (CHR ''%'' # c # fmt) as b) = dopr_loop F maxlen s"
    using P r
    by (simp add: text_state_def dopr_init_def dopr_loop_turn dopr_turn_def dopr_next_def NUL_def Let_def s_def)
  moreover have args: "conversion c (dp_args s) = Some (piece, as')" using c by (simp add: s_def dopr_init_def)
  have "0 \<le> os_len b" using l(1) by (simp add: len_ok_def)
  then have m: "int (length piece) \<le> maxlen" using l(2) by linarith
  obtain s1 where s1: "dopr_conv F maxlen s = Inr s1" "dp_fmt s1 = Some fmt" "dp_args s1 = as'" "dp_stored s1 = []"
    "os_out (dp_out s1) = os_out b @ piece" "len_ok (dp_out s1)"
    using conv_step [OF args m] l(1) by (auto simp: s_def dopr_init_def)
  have "dopr_loop F maxlen s = dopr_loop F maxlen (text_state fmt as' (dp_out s1))"
    using P r s1
    by (cases s1, subst dopr_loop_turn)
      (auto simp: s_def dopr_init_def dopr_turn_def dopr_next_def text_state_def Let_def split: list.split)
  ultimately show ?thesis using s1(5,6) by auto
qed

lemma dopr_loop_render:
  fixes as :: "'d vararg list"
  assumes "render fmt as = Some out" "len_ok b" "os_len b + int (length out) \<le> maxlen"
  shows "\<exists>s'. dopr_loop F maxlen (text_state fmt as b) = Some (Inr s') \<and> os_out (dp_out s') = os_out b @ out"
  using assms
proof (induction fmt as arbitrary: out b rule: render.induct)
  case (1 as)
  then show ?case using dopr_loop_end [of "text_state [] as b" maxlen F] by (auto simp: text_state_def)
next
  case (2 c fmt as)
  show ?case
  proof (cases "maxlen \<le> os_len b")
    case True
    then have "out = []" using "2.prems"(3) by (cases out) auto
    then show ?thesis using True dopr_loop_end [of "text_state (c # fmt) as b" maxlen F] by (auto simp: text_state_def)
  next
    case False
    then have r: "os_len b < maxlen" by simp
    have nn: "c \<noteq> NUL" using "2.prems"(1) by (auto split: if_splits)
    show ?thesis
    proof (cases "c = CHR ''%''")
      case plain: False
      then obtain out' where o: "render fmt as = Some out'" "out = c # out'" using "2.prems"(1) nn by auto
      have "\<exists>s'. dopr_loop F maxlen (text_state fmt as (dopr_outch c b)) = Some (Inr s') \<and>
          os_out (dp_out s') = os_out (dopr_outch c b) @ out'"
        by (rule "2.IH"(1) [OF nn plain o(1)])
          (use len_ok_outch [OF "2.prems"(2)] "2.prems"(3) o(2) in \<open>simp_all add: dopr_outch_len\<close>)
      then show ?thesis unfolding dopr_loop_char [OF nn plain r] o(2) by simp
    next
      case True
      then obtain d fmt' piece as' out' where o: "fmt = d # fmt'" "conversion d as = Some (piece, as')"
        "render fmt' as' = Some out'" "out = piece @ out'"
        using "2.prems"(1) nn by (auto split: list.splits option.splits)
      obtain b' where b': "os_out b' = os_out b @ piece" "len_ok b'"
        "dopr_loop F maxlen (text_state (c # fmt) as b) = dopr_loop F maxlen (text_state fmt' as' b')"
        using dopr_loop_conv [OF o(2) "2.prems"(2) _ r] "2.prems"(3) o(1,4) True by auto
      have "\<exists>s'. dopr_loop F maxlen (text_state fmt' as' b') = Some (Inr s') \<and> os_out (dp_out s') = os_out b' @ out'"
        by (rule "2.IH"(2) [OF nn _ o(1,2) refl o(3) b'(2)])
          (use True "2.prems"(2,3) b' o(4) in \<open>auto simp: len_ok_def\<close>)
      then show ?thesis using b' o(4) by auto
    qed
  qed
qed

lemma vsnprintf_render:
  fixes F :: "'d fpu" and args :: "'d vararg list"
  assumes "render fmt args = Some out" "int (length out) \<le> maxlen"
  shows "vsnprintf F maxlen fmt args = Some (Inr out)"
proof -
  obtain s' where "dopr_loop F maxlen (text_state fmt args \<lparr>os_out = [], os_len = 0\<rparr>) = Some (Inr s')"
    "os_out (dp_out s') = out"
    using dopr_loop_render [OF assms(1), of "\<lparr>os_out = [], os_len = 0\<rparr>" maxlen F] assms(2) by (auto simp: len_ok_def)
  then show ?thesis by (simp add: vsnprintf_def dopr_next_text)
qed

section \<open>Properties\<close>

text \<open>
  C14. A format of text and of the conversions d, i, o, u, p, x, X, c, s and percent, without flags, widths
  and precisions: if what the reference puts together fits the limit, it is what the formatter gives.
\<close>

theorem format_render:
  fixes F :: "'d fpu" and args :: "'d vararg list"
  assumes "render fmt args = Some out" "int (length out) \<le> maxlen"
  shows "vsnprintf F maxlen fmt args = Some (Inr out)"
  by (rule vsnprintf_render [OF assms])

lemma format_render_witness:
  "\<forall>F :: nat fpu. vsnprintf F 1000 ''a %d b %s%c'' [VInt (-12), VStr ''xyz'', VInt 33] = Some (Inr ''a -12 b xyz!'')"
proof
  fix F :: "nat fpu"
  have "render ''a %d b %s%c'' ([VInt (-12), VStr ''xyz'', VInt 33] :: nat vararg list) = Some ''a -12 b xyz!''"
    by code_simp
  then show "vsnprintf F 1000 ''a %d b %s%c'' [VInt (-12), VStr ''xyz'', VInt 33] = Some (Inr ''a -12 b xyz!'')"
    by (rule format_render) simp
qed

end
