(* ===== verification/User_Lib.thy ===== *)
theory User_Lib
  imports Formats Sys_Facts
begin

text \<open>
  The library of the user programs (\<open>sbin/libc.c\<close>, the output of \<open>sbin/printf.c\<close>): characters go to descriptor 1
  through the \<open>write\<close> of the kernel, one call each. A program runs on the state of the kernel's model; its
  result is \<open>None\<close> when it never comes back. Local variables whose address is passed to the kernel are
  at addresses given to the model.
\<close>

section \<open>Running\<close>

type_synonym 'a run = "('a \<times> sys) res option"

definition run_bind :: "'a run \<Rightarrow> ('a \<Rightarrow> sys \<Rightarrow> 'b run) \<Rightarrow> 'b run" where
  "run_bind m f = Option.bind m (\<lambda>r. case r of Inl e \<Rightarrow> Some (Inl e) | Inr (x, s) \<Rightarrow> f x s)"

definition done_with :: "'a \<Rightarrow> sys \<Rightarrow> 'a run" where
  "done_with x s = Some (Inr (x, s))"

lemma run_bind_simps [simp]:
  "run_bind None f = None" "run_bind (Some (Inl e)) f = Some (Inl e)" "run_bind (Some (Inr (x, s))) f = f x s"
  by (simp_all add: run_bind_def)

lemma run_bind_mono [partial_function_mono]:
  assumes "mono_option B" "\<And>x s. mono_option (C x s)"
  shows "mono_option (\<lambda>f. run_bind (B f) (\<lambda>x s. C x s f))"
  unfolding run_bind_def
proof (rule bind_mono [OF assms(1)])
  show "mono_option (\<lambda>f. case r of Inl e \<Rightarrow> Some (Inl e) | Inr (x, s) \<Rightarrow> C x s f)" for r :: "fault + 'c \<times> sys"
  proof (cases r)
    case (Inr q)
    obtain x s where "q = (x, s)" by (cases q)
    then show ?thesis using assms(2) [of x s] Inr by simp
  qed (simp add: option.const_mono)
qed

text \<open>A system call as the program sees it.\<close>

definition call :: "sys_outcome res \<Rightarrow> u32 run" where
  "call r = (case r of Inl e \<Rightarrow> Some (Inl e) | Inr (Return v s) \<Rightarrow> Some (Inr (v, s)) | Inr q \<Rightarrow> None)"

lemma call_simps [simp]:
  "call (Inl e) = Some (Inl e)" "call (Inr (Return v s)) = Some (Inr (v, s))" "call (Inr (Waits s)) = None"
  "call (Inr (Exits s)) = None" "call (Inr (EnterUser a b s)) = None" "call (Inr Shutdown) = None"
  by (simp_all add: call_def)

section \<open>Characters and bytes\<close>

definition chr :: "u8 \<Rightarrow> char" where
  "chr w = char_of (unat w)"

definition byte :: "char \<Rightarrow> u8" where
  "byte c = word_of_nat (of_char c)"

lemma byte_chr [simp]: "byte (chr w) = w"
proof -
  have "unat w < 2 ^ LENGTH(8)" by (rule unsigned_less)
  then show ?thesis by (simp add: byte_def chr_def)
qed

lemma chr_byte [simp]: "chr (byte c) = c"
proof -
  have "(of_char c :: nat) < 256" by simp
  then have "unat (word_of_nat (of_char c) :: u8) = of_char c" by (simp add: unat_of_nat)
  then show ?thesis by (simp only: byte_def chr_def char_of_char)
qed

lemma map_byte_chr [simp]: "map byte (map chr bs) = bs"
  by (simp add: comp_def)

lemma byte_o_chr [simp]: "byte \<circ> chr = id"
  by (simp add: fun_eq_iff)

section \<open>The code\<close>

definition NL :: char where "NL = CHR 0x0A"
definition TABC :: char where "TABC = CHR 0x09"

text \<open>\<open>putchar\<close>: the local \<open>t\<close> is at the address of that name.\<close>

definition putchar :: "u32 \<Rightarrow> u8 \<Rightarrow> sys \<Rightarrow> u32 run" where
  "putchar t c s = call (sys_write 1 t 1 (set_mem ((s_mem s)(t := c)) s))"

fun puts_loop :: "u32 \<Rightarrow> u8 list \<Rightarrow> u32 \<Rightarrow> sys \<Rightarrow> u32 run" where
  "puts_loop t [] count s = run_bind (putchar t 10 s) (\<lambda>n s. done_with (count + 1) s)"
| "puts_loop t (c # p) count s =
     run_bind (putchar t c s) (\<lambda>n s.
       if sint n < 0 then done_with n s else puts_loop t p (count + 1) s)"

definition puts :: "u32 \<Rightarrow> u8 list \<Rightarrow> sys \<Rightarrow> u32 run" where
  "puts t p s = puts_loop t p 0 s"

text \<open>\<open>printf\<close>: what the formatter gives, one \<open>putchar\<close> a character.\<close>

fun put_chars :: "u32 \<Rightarrow> u8 list \<Rightarrow> sys \<Rightarrow> unit run" where
  "put_chars t [] s = done_with () s"
| "put_chars t (c # cs) s = run_bind (putchar t c s) (\<lambda>n s. put_chars t cs s)"

definition printf :: "'d fpu \<Rightarrow> u32 \<Rightarrow> string \<Rightarrow> 'd vararg list \<Rightarrow> sys \<Rightarrow> u32 run" where
  "printf F t fmt args s =
     (case user_vprintf F fmt args of
        None \<Rightarrow> None
      | Some (Inl e) \<Rightarrow> Some (Inl e)
      | Some (Inr (out, n)) \<Rightarrow> run_bind (put_chars t (map byte out) s) (\<lambda>_ s. done_with (word_of_int n) s))"

text \<open>\<open>cp\<close>: the inner loop sends \<open>n\<close> bytes from \<open>ptr\<close>, the outer one reads into \<open>buf\<close>.\<close>

partial_function (option) cp_send :: "'d fpu \<Rightarrow> u32 \<Rightarrow> u32 \<Rightarrow> u32 \<Rightarrow> u32 \<Rightarrow> sys \<Rightarrow> unit run" where
  "cp_send F t to ptr n s =
     (if 0 < sint n then
        run_bind (call (sys_write to ptr n s)) (\<lambda>m s.
          if sint m < 0 then
            run_bind (printf F t (''*** %s:%d write error, fd = %d'' @ [NL]) [VStr ''libc.c'', VInt 35, VInt to] s)
              (\<lambda>_ s. done_with () s)
          else cp_send F t to (ptr + m) (n - m) s)
      else done_with () s)"

partial_function (option) cp :: "'d fpu \<Rightarrow> u32 \<Rightarrow> u32 \<Rightarrow> u32 \<Rightarrow> u32 \<Rightarrow> sys \<Rightarrow> unit run" where
  "cp F t buf from to s =
     run_bind (call (sys_read from buf 100 s)) (\<lambda>n s.
       if n = 0 then done_with () s
       else if sint n < 0 then
         run_bind (printf F t (''hello?'' @ [NL]) [] s) (\<lambda>_ s.
         run_bind (printf F t (''*** %s:%d read error, fd = %d'' @ [NL]) [VStr ''libc.c'', VInt 28, VInt from] s)
           (\<lambda>_ s. done_with () s))
       else run_bind (cp_send F t to buf n s) (\<lambda>_ s. cp F t buf from to s))"

section \<open>Writing to the console\<close>

text \<open>Descriptor \<open>fd\<close> is the console.\<close>

definition console_at :: "u32 \<Rightarrow> sys \<Rightarrow> bool" where
  "console_at fd s \<longleftrightarrow> (\<exists>h. getFile fd (s_proc s) = Some h \<and> s_objects s h = U8250File)"

lemma console_alike:
  assumes "console_at fd s" "alike A H s s'" "\<forall>h \<in> H. s_objects s h \<noteq> U8250File"
  shows "console_at fd s'"
  using assms unfolding console_at_def alike_def by metis

lemma write_console:
  assumes "console_at fd s" "\<not> bad_buffer buf" "n \<noteq> 0"
  shows "\<exists>s'. sys_write fd buf n s = Inr (Return 1 s') \<and> alike {} {} s s' \<and> printed s' = printed s @ [s_mem s buf] \<and>
    s_objects s' = s_objects s"
  using assms by (auto simp: console_at_def sys_write_def file_write_def finish_write_def alike_def u8250_put_def)

lemma putchar_console:
  assumes "console_at 1 s" "\<not> bad_buffer t"
  shows "\<exists>s'. putchar t c s = Some (Inr (1, s')) \<and> alike {t} {} s s' \<and> printed s' = printed s @ [c]"
proof -
  let ?s = "set_mem ((s_mem s)(t := c)) s"
  have "console_at 1 ?s" using assms(1) by (simp add: console_at_def set_mem_def)
  then obtain s' where "sys_write 1 t 1 ?s = Inr (Return 1 s')" "alike {} {} ?s s'" "printed s' = printed ?s @ [c]"
    using write_console [of 1 ?s t 1] assms(2) by (auto simp: set_mem_def)
  then show ?thesis by (auto simp: putchar_def alike_def set_mem_def)
qed

lemma put_chars_console:
  assumes "console_at 1 s" "\<not> bad_buffer t"
  shows "\<exists>s'. put_chars t cs s = Some (Inr ((), s')) \<and> alike {t} {} s s' \<and> printed s' = printed s @ cs"
  using assms(1)
proof (induction cs arbitrary: s)
  case (Cons c cs)
  obtain s1 where 1: "putchar t c s = Some (Inr (1, s1))" "alike {t} {} s s1" "printed s1 = printed s @ [c]"
    using putchar_console [OF Cons.prems assms(2)] by blast
  obtain s2 where 2: "put_chars t cs s1 = Some (Inr ((), s2))" "alike {t} {} s1 s2" "printed s2 = printed s1 @ cs"
    using Cons.IH console_alike [OF Cons.prems 1(2)] by blast
  show ?case using 1 2 alike_trans [OF 1(2) 2(2)] by simp
qed (simp add: done_with_def)

lemma printf_console:
  assumes "console_at 1 s" "\<not> bad_buffer t" "render fmt args = Some out" "length out \<le> 1000"
  shows "\<exists>s'. printf F t fmt args s = Some (Inr (1, s')) \<and> alike {t} {} s s' \<and> printed s' = printed s @ map byte out"
proof -
  have "user_vprintf F fmt args = Some (Inr (out, 1))"
    using vsnprintf_render [OF assms(3), of 1000 F] assms(4) by (simp add: user_vprintf_def)
  then show ?thesis
    using put_chars_console [OF assms(1,2), of "map byte out"] by (auto simp: printf_def done_with_def)
qed

lemma puts_console:
  assumes "console_at 1 s" "\<not> bad_buffer t"
  shows "\<exists>s'. puts_loop t p count s = Some (Inr (count + of_nat (length p) + 1, s')) \<and> alike {t} {} s s' \<and>
    printed s' = printed s @ p @ [10]"
  using assms(1)
proof (induction p arbitrary: s count)
  case Nil
  then show ?case using putchar_console [OF Nil assms(2), of 10] by (auto simp: done_with_def)
next
  case (Cons c cs)
  obtain s1 where 1: "putchar t c s = Some (Inr (1, s1))" "alike {t} {} s s1" "printed s1 = printed s @ [c]"
    using putchar_console [OF Cons.prems assms(2)] by blast
  obtain s2 where 2: "puts_loop t cs (count + 1) s1 = Some (Inr (count + 1 + of_nat (length cs) + 1, s2))"
    "alike {t} {} s1 s2" "printed s2 = printed s1 @ cs @ [10]"
    using Cons.IH console_alike [OF Cons.prems 1(2)] by blast
  show ?case using 1 2 alike_trans [OF 1(2) 2(2)] by (simp add: ac_simps)
qed

section \<open>Copying a file to the console\<close>

lemma sint_small:
  assumes "unat (n :: u32) < 2 ^ 31" shows "sint n = int (unat n)"
proof -
  have u: "uint n = int (unat n)" by simp
  have "int (unat n) < int (2 ^ 31)" using assms by (simp only: of_nat_less_iff)
  then have "uint n < 2 ^ 31" unfolding u by (simp only: of_nat_power of_nat_numeral)
  then show ?thesis unfolding sint_u32 u by (rule if_P)
qed

text \<open>A buffer that the kernel accepts at each of its \<open>n\<close> bytes.\<close>

definition good_buffer :: "u32 \<Rightarrow> nat \<Rightarrow> bool" where
  "good_buffer buf n \<longleftrightarrow> unat buf + n \<le> 2 ^ 32 \<and> (\<forall>i < n. \<not> bad_buffer (buf + of_nat i))"

lemma cp_send_console:
  fixes n ptr :: u32
  assumes "console_at to s" "\<forall>i < unat n. \<not> bad_buffer (ptr + of_nat i)" "unat n < 2 ^ 31"
  shows "\<exists>s'. cp_send F t to ptr n s = Some (Inr ((), s')) \<and> alike {} {} s s' \<and> s_objects s' = s_objects s \<and>
    printed s' = printed s @ read_bytes (s_mem s) ptr (unat n)"
  using assms
proof (induction "unat n" arbitrary: n ptr s)
  case 0
  then have "n = 0" by (simp add: unat_eq_0)
  then show ?case by (simp add: cp_send.simps done_with_def read_bytes_def)
next
  case (Suc k)
  have n: "n \<noteq> 0" "0 < sint n" "unat (n - 1) = k"
  proof -
    show "n \<noteq> 0" using Suc.hyps(2) by auto
    then show "unat (n - 1) = k" using Suc.hyps(2) by (simp add: unat_minus_one)
    have "sint n = int (unat n)"
      by (rule sint_small) (use Suc.prems(3) in simp)
    then show "0 < sint n" unfolding Suc.hyps(2) [symmetric] by simp
  qed
  have b: "\<not> bad_buffer ptr" using Suc.prems(2) Suc.hyps(2) by force
  obtain s1 where 1: "sys_write to ptr n s = Inr (Return 1 s1)" "alike {} {} s s1" "printed s1 = printed s @ [s_mem s ptr]"
    "s_objects s1 = s_objects s" using write_console [OF Suc.prems(1) b n(1)] by blast
  have m1: "s_mem s1 = s_mem s" using 1(2) by (auto simp: alike_def)
  have "\<forall>i < unat (n - 1). \<not> bad_buffer (ptr + 1 + of_nat i)"
    using Suc.prems(2) n(3) Suc.hyps(2) by (metis Suc_less_eq add.assoc of_nat_Suc)
  then obtain s2 where 2: "cp_send F t to (ptr + 1) (n - 1) s1 = Some (Inr ((), s2))" "alike {} {} s1 s2"
    "s_objects s2 = s_objects s1" "printed s2 = printed s1 @ read_bytes (s_mem s1) (ptr + 1) (unat (n - 1))"
    using Suc.hyps(1) [OF n(3) [symmetric], of s1 "ptr + 1"] console_alike [OF Suc.prems(1) 1(2)] Suc.prems(3) n(3) Suc.hyps(2)
    by auto
  have "read_bytes (s_mem s) ptr (unat n) = s_mem s ptr # read_bytes (s_mem s) (ptr + 1) k"
    unfolding Suc.hyps(2) [symmetric] read_bytes_def
    by (simp add: upt_conv_Cons map_Suc_upt [symmetric] add.assoc del: upt_Suc)
  moreover have "cp_send F t to ptr n s = Some (Inr ((), s2))"
    using 1(1) 2(1) n(2) by (subst cp_send.simps) simp
  ultimately show ?case
    using 1 2 m1 n(3) alike_trans [OF 1(2) 2(2)] by simp
qed

text \<open>The console is not the object that is read.\<close>

lemma cp_console:
  fixes off :: u32
  assumes r: "reads_file img node fd h off s" and fd: "fd \<noteq> 1" and con: "console_at 1 s" and buf: "good_buffer buf 100"
  shows "\<exists>s' off'. cp F t buf fd 1 s = Some (Inr ((), s')) \<and>
    printed s' = printed s @ map (node_content (img, node)) [unat off ..< unat (nd_size_low (node_data node))] \<and>
    reads_file img node fd h off' s' \<and> unat off' = unat (nd_size_low (node_data node)) \<and>
    alike {x. unat (x - buf) < 100} {h} s s'"
  using r con
proof (induction "unat (nd_size_low (node_data node)) - unat off" arbitrary: off s rule: less_induct)
  case less
  let ?S = "unat (nd_size_low (node_data node))" and ?c = "node_content (img, node)"
  define k where "k = min 100 (?S - unat off)"
  have le: "unat off \<le> ?S" and h: "s_objects s h = ActualFile (Some node) off"
    using less.prems(1) by (simp_all add: reads_file_def)
  have b0: "\<not> bad_buffer buf" using buf by (force simp: good_buffer_def)
  obtain w s1 where 1: "sys_read fd buf 100 s = Inr (Return w s1)" "unat w = k" "unat (off + w) = unat off + k"
    "read_bytes (s_mem s1) buf k = map ?c [unat off ..< unat off + k]" "reads_file img node fd h (off + w) s1"
    "alike {x. unat (x - buf) < k} {h} s s1" "printed s1 = printed s"
    using read_once [OF less.prems(1) fd b0, of 100] unfolding k_def by auto
  have con1: "console_at 1 s1" using console_alike [OF less.prems(2) 1(6)] h by simp
  have sub: "alike {x. unat (x - buf) < 100} {h} s s1" by (rule alike_mono [OF 1(6)]) (auto simp: k_def)
  show ?case
  proof (cases "k = 0")
    case True
    then have w: "w = 0" "?S = unat off" using 1(2) le by (simp_all add: k_def unat_eq_0 min_def split: if_splits)
    have "reads_file img node fd h off s1" using 1(5) w(1) by simp
    moreover have "cp F t buf fd 1 s = Some (Inr ((), s1))"
      using 1(1) w(1) by (subst cp.simps) (simp_all add: done_with_def)
    ultimately show ?thesis using 1(7) sub w(2) by auto
  next
    case False
    have small: "unat w < 2 ^ 31" "k \<le> 100" using 1(2) by (auto simp: k_def)
    have w: "w \<noteq> 0" "\<not> sint w < 0" using False 1(2) sint_small [OF small(1)] by auto
    obtain s2 where 2: "cp_send F t 1 buf w s1 = Some (Inr ((), s2))" "alike {} {} s1 s2" "s_objects s2 = s_objects s1"
      "printed s2 = printed s1 @ read_bytes (s_mem s1) buf (unat w)"
      using cp_send_console [OF con1 _ small(1), of buf F t] buf small(2) 1(2) by (auto simp: good_buffer_def)
    have r2: "reads_file img node fd h (off + w) s2"
      using 1(5) 2(3) alike_proc [OF 2(2)] by (simp add: reads_file_def)
    have "?S - unat (off + w) < ?S - unat off" using False 1(3) by (simp add: k_def)
    then obtain s' off' where 3: "cp F t buf fd 1 s2 = Some (Inr ((), s'))"
      "printed s' = printed s2 @ map ?c [unat (off + w) ..< ?S]" "reads_file img node fd h off' s'" "unat off' = ?S"
      "alike {x. unat (x - buf) < 100} {h} s2 s'"
      using less.hyps [OF _ r2 console_alike [OF con1 2(2)]] by auto
    have "cp F t buf fd 1 s = Some (Inr ((), s'))"
      using 1(1) 2(1) 3(1) w by (subst cp.simps) simp
    moreover have "[unat off ..< unat off + k] @ [unat off + k ..< ?S] = [unat off ..< ?S]"
      using upt_add_eq_append [of "unat off" "unat off + k" "?S - (unat off + k)"] le by (simp add: k_def)
    then have "printed s' = printed s @ map ?c [unat off ..< ?S]"
      using 1(2,3,4,7) 2(4) 3(2) by (simp flip: map_append)
    moreover have "alike {x. unat (x - buf) < 100} {h} s s'"
      using alike_trans [OF sub alike_trans [OF alike_mono [OF 2(2)] 3(5)]] by simp
    ultimately show ?thesis using 3(3,4) by blast
  qed
qed

end
