(* ===== verification/User_Strings.thy ===== *)
theory User_Strings
  imports User_Lib "HOL-Library.Sublist"
begin

text \<open>
  The string functions of \<open>sbin/input_functions.c\<close> and \<open>fgets\<close>. A pointer to characters is the list of the bytes
  from there to the end of the array; a read behind the end is a fault.
\<close>

section \<open>The code\<close>

fun strncmp_loop :: "nat \<Rightarrow> u8 list \<Rightarrow> u8 list \<Rightarrow> int res" where
  "strncmp_loop 0 s1 s2 = Inr 1"
| "strncmp_loop (Suc n) (a # s1) (b # s2) = (if a \<noteq> b then Inr 0 else strncmp_loop n s1 s2)"
| "strncmp_loop (Suc n) s1 s2 = Inl OutOfBounds"

definition my_strncmp :: "u8 list \<Rightarrow> u8 list \<Rightarrow> int \<Rightarrow> int res" where
  "my_strncmp s1 s2 sz = strncmp_loop (nat sz) s1 s2"

fun my_strcmp :: "u8 list \<Rightarrow> u8 list \<Rightarrow> int res" where
  "my_strcmp (a # s1) (b # s2) = (if a \<noteq> 0 \<and> a = b then my_strcmp s1 s2 else Inr (uint a - uint b))"
| "my_strcmp s1 s2 = Inl OutOfBounds"

text \<open>The inner loop of \<open>strstr\<close> gives where \<open>n\<close> stops; the outer one counts \<open>haystack\<close>.\<close>

fun match_from :: "u8 list \<Rightarrow> u8 list \<Rightarrow> u8 list res" where
  "match_from [] h = Inl OutOfBounds"
| "match_from (c # n) h =
     (if c = 0 then Inr (c # n)
      else case h of [] \<Rightarrow> Inl OutOfBounds | d # h' \<Rightarrow> if d = c then match_from n h' else Inr (c # n))"

fun strstr_loop :: "u8 list \<Rightarrow> u8 list \<Rightarrow> nat \<Rightarrow> nat option res" where
  "strstr_loop needle [] i = Inl OutOfBounds"
| "strstr_loop needle (c # h) i =
     (if c = 0 then Inr None
      else rbind (match_from needle (c # h)) (\<lambda>n. if hd n = 0 then Inr (Some i) else strstr_loop needle h (i + 1)))"

definition strstr :: "u8 list \<Rightarrow> u8 list \<Rightarrow> nat option res" where
  "strstr haystack needle =
     (case needle of [] \<Rightarrow> Inl OutOfBounds
      | c # n \<Rightarrow> if c = 0 then Inr (Some 0) else strstr_loop needle haystack 0)"

fun user_strlen :: "u8 list \<Rightarrow> int res" where
  "user_strlen [] = Inl OutOfBounds"
| "user_strlen (c # s) = (if c = 0 then Inr 0 else rbind (user_strlen s) (\<lambda>n. Inr (n + 1)))"

text \<open>\<open>fgets\<close>, with the local \<open>c\<close> at \<open>ca\<close>: the characters stored before the terminator, which must fit.\<close>

fun fgets_loop :: "u32 \<Rightarrow> u32 \<Rightarrow> nat \<Rightarrow> u8 list \<Rightarrow> sys \<Rightarrow> u8 list run" where
  "fgets_loop fd ca 0 acc s = done_with acc s"
| "fgets_loop fd ca (Suc k) acc s =
     run_bind (call (sys_read fd ca 1 s)) (\<lambda>n s.
       if 0 < sint n then
         let c = s_mem s ca in
         if c = 10 then done_with (acc @ [10]) s else fgets_loop fd ca k (acc @ [c]) s
       else done_with acc s)"

definition fgets :: "u32 \<Rightarrow> int \<Rightarrow> u32 \<Rightarrow> sys \<Rightarrow> u8 list option run" where
  "fgets ca sz fd s =
     (if sz \<le> 0 then Some (Inl OutOfBounds)
      else run_bind (fgets_loop fd ca (nat (sz - 1)) [] s) (\<lambda>line s.
        done_with (if line = [] then None else Some line) s))"

section \<open>Comparison and search\<close>

text \<open>A C string in an array.\<close>

definition c_str :: "u8 list \<Rightarrow> u8 list \<Rightarrow> bool" where
  "c_str a str \<longleftrightarrow> 0 \<notin> set str \<and> prefix (str @ [0]) a"

lemma c_str_alt: "c_str a str \<longleftrightarrow> 0 \<notin> set str \<and> (\<exists>x. a = str @ 0 # x)"
  by (auto simp: c_str_def prefix_def)

lemma my_strcmp_zero:
  "c_str a s1 \<Longrightarrow> c_str b s2 \<Longrightarrow> \<exists>d. my_strcmp a b = Inr d \<and> (d = 0 \<longleftrightarrow> s1 = s2)"
proof (induction s1 arbitrary: a b s2)
  case Nil
  then show ?case by (cases s2) (auto simp: c_str_alt word_uint_eq_iff)
next
  case (Cons c s1)
  then obtain a' where a: "a = c # a'" "c \<noteq> 0" "c_str a' s1" by (auto simp: c_str_alt)
  show ?case
  proof (cases s2)
    case Nil
    then show ?thesis using Cons.prems(2) a by (auto simp: c_str_alt word_uint_eq_iff)
  next
    case (Cons d s2')
    then obtain b' where "b = d # b'" "c_str b' s2'" using Cons.prems(2) by (auto simp: c_str_alt)
    then show ?thesis using Cons a Cons.IH [OF a(3)] by (auto simp: word_uint_eq_iff)
  qed
qed

lemma user_strlen_length: "c_str a str \<Longrightarrow> user_strlen a = Inr (int (length str))"
  by (induction str arbitrary: a) (auto simp: c_str_alt)

lemma strncmp_prefix:
  "n \<le> length s1 \<Longrightarrow> n \<le> length s2 \<Longrightarrow> strncmp_loop n s1 s2 = Inr (if take n s1 = take n s2 then 1 else 0)"
  by (induction n s1 s2 rule: strncmp_loop.induct) auto

lemma match_from_prefix:
  "0 \<notin> set n \<Longrightarrow> 0 \<notin> set h \<Longrightarrow> \<exists>r. match_from (n @ 0 # y) (h @ 0 # x) = Inr r \<and> r \<noteq> [] \<and> (hd r = 0 \<longleftrightarrow> prefix n h)"
proof (induction n arbitrary: h)
  case (Cons c n)
  then show ?case by (cases h) auto
qed simp

lemma strstr_loop_first:
  assumes n: "0 \<notin> set n" "n \<noteq> []" and h: "0 \<notin> set h"
  shows "strstr_loop (n @ 0 # y) (h @ 0 # x) i =
    Inr (if sublist n h then Some (i + (LEAST j. prefix n (drop j h))) else None)"
  using h
proof (induction h arbitrary: i)
  case Nil
  then show ?case using n(2) by simp
next
  case (Cons c h)
  obtain r where r: "match_from (n @ 0 # y) ((c # h) @ 0 # x) = Inr r" "hd r = 0 \<longleftrightarrow> prefix n (c # h)"
    using match_from_prefix [OF n(1) Cons.prems] by blast
  show ?case
  proof (cases "prefix n (c # h)")
    case True
    then have "(LEAST j. prefix n (drop j (c # h))) = 0" by (intro Least_eq_0) simp
    moreover have "sublist n (c # h)" using True by (rule prefix_imp_sublist)
    ultimately show ?thesis using r True Cons.prems by simp
  next
    case False
    have sub: "sublist n (c # h) \<longleftrightarrow> sublist n h" using False by (simp add: sublist_Cons_right)
    have step: "strstr_loop (n @ 0 # y) ((c # h) @ 0 # x) i = strstr_loop (n @ 0 # y) (h @ 0 # x) (i + 1)"
      using r False Cons.prems by simp
    show ?thesis
    proof (cases "sublist n h")
      case True
      then obtain ps ss where "h = ps @ n @ ss" by (auto simp: sublist_def)
      then have "prefix n (drop (Suc (length ps)) (c # h))" by simp
      then have "(LEAST j. prefix n (drop j (c # h))) = Suc (LEAST j. prefix n (drop (Suc j) (c # h)))"
        by (rule Least_Suc) (use False in simp)
      then show ?thesis using step Cons True sub by simp
    next
      case False
      then show ?thesis using step Cons sub by simp
    qed
  qed
qed

lemma strstr_spec:
  assumes "c_str a h" "c_str b n"
  shows "strstr a b = Inr (if sublist n h then Some (LEAST j. prefix n (drop j h)) else None)"
proof -
  obtain x y where e: "a = h @ 0 # x" "b = n @ 0 # y" and z: "0 \<notin> set h" "0 \<notin> set n"
    using assms by (auto simp: c_str_alt)
  show ?thesis
  proof (cases n)
    case Nil
    have "(LEAST j. prefix [] (drop j h)) = 0" by (rule Least_eq_0) simp
    then show ?thesis using e Nil by (simp add: strstr_def)
  next
    case (Cons c n')
    then show ?thesis using strstr_loop_first [OF z(2) _ z(1), of y x 0] e z(2) by (simp add: strstr_def)
  qed
qed

section \<open>Lines\<close>

text \<open>The next line of at most \<open>k\<close> characters, its newline included, and the rest.\<close>

fun take_line :: "nat \<Rightarrow> u8 list \<Rightarrow> u8 list \<times> u8 list" where
  "take_line 0 bs = ([], bs)"
| "take_line (Suc k) [] = ([], [])"
| "take_line (Suc k) (c # bs) =
     (if c = 10 then ([10], bs) else (case take_line k bs of (l, r) \<Rightarrow> (c # l, r)))"

lemma take_line_append: "take_line k bs = (l, r) \<Longrightarrow> bs = l @ r \<and> length l \<le> k"
  by (induction k bs arbitrary: l r rule: take_line.induct) (auto split: if_splits prod.splits)

lemma take_line_empty: "take_line k bs = (l, r) \<Longrightarrow> 0 < k \<Longrightarrow> l = [] \<longleftrightarrow> bs = []"
  by (cases k; cases bs) (auto split: if_splits prod.splits)

function file_lines :: "u8 list \<Rightarrow> u8 list list" where
  "file_lines bs = (if bs = [] then [] else case take_line 1023 bs of (l, r) \<Rightarrow> l # file_lines r)"
  by auto
termination
proof (relation "measure length", goal_cases)
  case (2 bs l r)
  have t: "take_line 1023 bs = (l, r)" using 2(2) by (rule sym)
  have "l \<noteq> []" using take_line_empty [OF t] 2(1) by simp
  then show ?case using take_line_append [OF t] by simp
qed simp

declare file_lines.simps [simp del]

lemma file_lines_concat: "concat (file_lines bs) = bs"
proof (induction bs rule: file_lines.induct)
  case (1 bs)
  then show ?case
    using take_line_append [of 1023 bs] by (subst file_lines.simps) (auto split: prod.split)
qed

text \<open>What a descriptor still delivers.\<close>

definition rest_of :: "(nat \<Rightarrow> u8) \<Rightarrow> ext2_node \<Rightarrow> u32 \<Rightarrow> u8 list" where
  "rest_of img node off = map (node_content (img, node)) [unat off ..< unat (nd_size_low (node_data node))]"

lemma fgets_loop_file:
  fixes off :: u32
  assumes "reads_file img node fd h off s" "fd \<noteq> 1" "\<not> bad_buffer ca"
    and "take_line k (rest_of img node off) = (l, r)"
  shows "\<exists>s' off'. fgets_loop fd ca k acc s = Some (Inr (acc @ l, s')) \<and> reads_file img node fd h off' s' \<and>
    rest_of img node off' = r \<and> alike {ca} {h} s s' \<and> printed s' = printed s"
  using assms
proof (induction k arbitrary: off s acc l r)
  case 0
  then show ?case by (auto simp: done_with_def)
next
  case (Suc k)
  let ?S = "unat (nd_size_low (node_data node))" and ?c = "node_content (img, node)"
  define n where "n = min 1 (?S - unat off)"
  obtain w s1 where 1: "sys_read fd ca 1 s = Inr (Return w s1)" "unat w = n" "unat (off + w) = unat off + n"
    "read_bytes (s_mem s1) ca n = map ?c [unat off ..< unat off + n]" "reads_file img node fd h (off + w) s1"
    "alike {x. unat (x - ca) < n} {h} s s1" "printed s1 = printed s"
    using read_once [OF Suc.prems(1-3), of 1] unfolding n_def by auto
  have al: "alike {ca} {h} s s1"
    by (rule alike_mono [OF 1(6)]) (auto simp: n_def unat_eq_0)
  show ?case
  proof (cases "unat off < ?S")
    case False
    then have "w = 0" "rest_of img node off = []" using 1(2) by (simp_all add: n_def unat_eq_0 rest_of_def)
    then show ?thesis using Suc.prems(4) 1(1,5,7) al by (auto simp: done_with_def)
  next
    case True
    then have n: "n = 1" by (simp add: n_def)
    then have w: "0 < sint w" using 1(2) sint_small [of w] by simp
    have cons: "rest_of img node off = ?c (unat off) # rest_of img node (off + w)"
      using True 1(3) n by (simp add: rest_of_def upt_conv_Cons)
    have c: "s_mem s1 ca = ?c (unat off)" using 1(4) n by (simp add: read_bytes_def)
    show ?thesis
    proof (cases "?c (unat off) = 10")
      case True
      then have "l = [10]" "r = rest_of img node (off + w)" using Suc.prems(4) cons by simp_all
      then show ?thesis using 1(1,5,7) w c True al by (auto simp: done_with_def Let_def)
    next
      case False
      then obtain l' where l: "take_line k (rest_of img node (off + w)) = (l', r)" "l = ?c (unat off) # l'"
        using Suc.prems(4) cons by (auto split: prod.splits)
      obtain s' off' where 2: "fgets_loop fd ca k (acc @ [?c (unat off)]) s1 = Some (Inr ((acc @ [?c (unat off)]) @ l', s'))"
        "reads_file img node fd h off' s'" "rest_of img node off' = r" "alike {ca} {h} s1 s'" "printed s' = printed s1"
        using Suc.IH [OF 1(5) Suc.prems(2,3) l(1)] by blast
      then have "fgets_loop fd ca (Suc k) acc s = Some (Inr (acc @ l, s'))"
        using 1(1) w c False l(2) by (simp add: Let_def)
      then show ?thesis using 2(2,3,5) 1(7) alike_trans [OF al 2(4)] by auto
    qed
  qed
qed

lemma fgets_file:
  fixes off :: u32
  assumes "reads_file img node fd h off s" "fd \<noteq> 1" "\<not> bad_buffer ca"
    and l: "take_line (nat (n - 1)) (rest_of img node off) = (l, r)" and n: "1 < n"
  shows "\<exists>s' off'. fgets ca n fd s = Some (Inr (if rest_of img node off = [] then None else Some l, s')) \<and>
    reads_file img node fd h off' s' \<and> rest_of img node off' = r \<and> alike {ca} {h} s s' \<and> printed s' = printed s"
  using fgets_loop_file [OF assms(1-4), of "[]"] take_line_empty [OF l] n
  by (auto simp: fgets_def done_with_def)

end
