(* ===== verification/User_Input.thy ===== *)
theory User_Input
  imports User_Strings Sys_Claims
begin

text \<open>
  Line input (\<open>sbin/input_functions.c\<close>): \<open>read_input_echo\<close> and \<open>read_input_silent\<close> read a line from the console with
  backspace, and \<open>handle_tab\<close> lists the names of a directory that begin with what has been typed. Arrays of
  characters are lists; the locals that the kernel writes are at addresses.
\<close>

section \<open>The code\<close>

record user_locals =
  l_t :: u32          \<comment> \<open>\<open>t\<close> of \<open>putchar\<close>\<close>
  l_c :: u32          \<comment> \<open>\<open>c\<close>\<close>
  l_path :: u32       \<comment> \<open>the literal that names the directory\<close>
  l_dir :: u32        \<comment> \<open>\<open>buffer\<close>, 1024 bytes\<close>

definition put_at :: "u8 list \<Rightarrow> nat \<Rightarrow> u8 \<Rightarrow> u8 list res" where
  "put_at buf i c = (if i < length buf then Inr (buf[i := c]) else Inl OutOfBounds)"

definition lift_res :: "'a res \<Rightarrow> sys \<Rightarrow> 'a run" where
  "lift_res r s = (case r of Inl e \<Rightarrow> Some (Inl e) | Inr x \<Rightarrow> Some (Inr (x, s)))"

text \<open>
  The record of a directory at an offset of the buffer: its length and its name, which is copied with the byte
  behind it and then terminated, at most 254 characters.
\<close>

definition entry_at :: "u8 list \<Rightarrow> nat \<Rightarrow> (nat \<times> u8 list) res" where
  "entry_at b off =
     (if length b < off + 7 then Inl OutOfBounds
      else
        let rec_len = unat (get16 b (off + 4));
            name_len = unat (b ! (off + 6));
            cnt = (if name_len < 255 then name_len + 1 else 255)
        in if length b < off + 8 + cnt then Inl OutOfBounds
           else Inr (rec_len, take (if name_len < 255 then name_len else 254) (drop (off + 8) b)))"

text \<open>A character string for \<open>printf\<close>: up to the first zero.\<close>

definition shown :: "u8 list \<Rightarrow> string" where
  "shown name = map chr (takeWhile (\<lambda>c. c \<noteq> 0) name)"

definition c_text :: "u8 list \<Rightarrow> string res" where
  "c_text a = (if 0 \<in> set a then Inr (shown a) else Inl OutOfBounds)"

text \<open>The loop of \<open>handle_tab\<close>, with the names that match; \<open>matches\<close> has room for 255.\<close>

partial_function (option) tab_loop ::
  "u8 list \<Rightarrow> u8 list \<Rightarrow> int \<Rightarrow> nat \<Rightarrow> nat \<Rightarrow> u8 list list \<Rightarrow> u8 list list res option" where
  "tab_loop b buf buffer_index off rec_len matches =
     (if off \<le> 1023 then
        case entry_at b (off + rec_len) of
          Inl e \<Rightarrow> Some (Inl e)
        | Inr (rec_len', name) \<Rightarrow>
            (case my_strncmp (name @ [0]) buf buffer_index of
               Inl e \<Rightarrow> Some (Inl e)
             | Inr eq \<Rightarrow>
                 if eq = 0 then tab_loop b buf buffer_index (off + rec_len) rec_len' matches
                 else if 255 \<le> length matches then Some (Inl OutOfBounds)
                 else tab_loop b buf buffer_index (off + rec_len) rec_len' (matches @ [name]))
      else Some (Inr matches))"

text \<open>
  \<open>handle_tab\<close>. The copies of the names have no terminator, so that printing one reads memory that
  was never written.
\<close>

definition handle_tab :: "'d fpu \<Rightarrow> kernel_env \<Rightarrow> user_locals \<Rightarrow> u8 list \<Rightarrow> int \<Rightarrow> sys \<Rightarrow> unit run" where
  "handle_tab F env L buf buffer_index s =
     run_bind (call (sys_open env (l_path L) s)) (\<lambda>fd s.
       if sint fd < 0 then
         run_bind (printf F (l_t L) (''ls: cannot access '' @ [CHR 0x27] @ ''%s'' @ [CHR 0x27] @
           '': No such file or directory'' @ [NL]) [VStr ''.''] s) (\<lambda>_ s. done_with () s)
       else run_bind (call (sys_readdir fd (l_dir L) 0 s)) (\<lambda>_ s.
         case tab_loop (read_bytes (s_mem s) (l_dir L) 1024) buf buffer_index 0 0 [] of
           None \<Rightarrow> None
         | Some (Inl e) \<Rightarrow> Some (Inl e)
         | Some (Inr matches) \<Rightarrow>
             run_bind (printf F (l_t L) [NL] [] s) (\<lambda>_ s.
             run_bind
               (if matches = [] then printf F (l_t L) (''No matches found'' @ [NL]) [] s else Some (Inl Undefined))
               (\<lambda>_ s. run_bind (lift_res (c_text buf) s) (\<lambda>v s.
                 run_bind (printf F (l_t L) ''$ %s'' [VStr v] s) (\<lambda>_ s. done_with () s))))))"

text \<open>The loop of both functions; they differ in the echo and in what a tab does.\<close>

partial_function (option) input_loop ::
  "'d fpu \<Rightarrow> kernel_env \<Rightarrow> user_locals \<Rightarrow> bool \<Rightarrow> int \<Rightarrow> u8 list \<Rightarrow> nat \<Rightarrow> sys \<Rightarrow> (nat \<times> u8 list) run" where
  "input_loop F env L echo buf_size buf i s =
     run_bind (call (sys_read 0 (l_c L) 1 s)) (\<lambda>n s.
       if s_mem s (l_c L) = 13 then
         run_bind (lift_res (put_at buf i 0) s) (\<lambda>buf s. done_with (i, buf) s)
       else if s_mem s (l_c L) = 127 then
         if i \<noteq> 0 then
           run_bind (if echo then printf F (l_t L) [CHR 0x08, CHR '' '', CHR 0x08] [] s else done_with 0 s)
             (\<lambda>_ s. input_loop F env L echo buf_size buf (i - 1) s)
         else input_loop F env L echo buf_size buf i s
       else if s_mem s (l_c L) = 9 then
         run_bind (if echo then lift_res (put_at buf i 0) s else done_with buf s) (\<lambda>buf s.
         run_bind (handle_tab F env L buf (int i) s) (\<lambda>_ s.
         run_bind (if echo then done_with 0 s
                   else printf F (l_t L) ([NL] @ ''buffer index: %d'' @ [NL]) [VInt (of_nat i)] s) (\<lambda>_ s.
         input_loop F env L echo buf_size buf i s)))
       else if int i < buf_size - 1 then
         run_bind (lift_res (put_at buf i (s_mem s (l_c L))) s) (\<lambda>buf s.
         run_bind (if echo then printf F (l_t L) ''%c'' [VInt (scast (s_mem s (l_c L)))] s else done_with 0 s) (\<lambda>_ s.
         input_loop F env L echo buf_size buf (i + 1) s))
       else input_loop F env L echo buf_size buf i s)"

definition read_input_echo ::
  "'d fpu \<Rightarrow> kernel_env \<Rightarrow> user_locals \<Rightarrow> u8 list \<Rightarrow> int \<Rightarrow> sys \<Rightarrow> (nat \<times> u8 list) run" where
  "read_input_echo F env L buf buf_size s = input_loop F env L True buf_size buf 0 s"

definition read_input_silent ::
  "'d fpu \<Rightarrow> kernel_env \<Rightarrow> user_locals \<Rightarrow> u8 list \<Rightarrow> int \<Rightarrow> sys \<Rightarrow> (nat \<times> u8 list) run" where
  "read_input_silent F env L buf buf_size s = input_loop F env L False buf_size buf 0 s"

section \<open>The line editor\<close>

text \<open>The line and the keys left when the enter key comes.\<close>

fun edit :: "nat \<Rightarrow> u8 list \<Rightarrow> u8 list \<Rightarrow> (u8 list \<times> u8 list) option" where
  "edit m line [] = None"
| "edit m line (c # cs) =
     (if c = 13 then Some (line, cs)
      else if c = 127 then edit m (butlast line) cs
      else if length line < m then edit m (line @ [c]) cs
      else edit m line cs)"

text \<open>A terminal: the characters left of the cursor and those from it on.\<close>

definition term_put :: "u8 \<Rightarrow> u8 list \<times> u8 list \<Rightarrow> u8 list \<times> u8 list" where
  "term_put c lr = (case lr of (l, r) \<Rightarrow>
     if c = 8 then (if l = [] then (l, r) else (butlast l, last l # r)) else (l @ [c], tl r))"

definition blank :: "u8 list \<Rightarrow> bool" where
  "blank r \<longleftrightarrow> set r \<subseteq> {32}"

section \<open>Reading from the console\<close>

definition with_typed :: "u8 list \<Rightarrow> sys \<Rightarrow> sys" where
  "with_typed cs s = s\<lparr>s_io := (s_io s)\<lparr>io_console := (io_console (s_io s))\<lparr>con_in := cs\<rparr>\<rparr>\<rparr>"

lemma with_typed_simps [simp]:
  "typed (with_typed cs s) = cs" "printed (with_typed cs s) = printed s" "s_mem (with_typed cs s) = s_mem s"
  "console_at fd (with_typed cs s) = console_at fd s" "with_typed (typed s) s = s"
  by (simp_all add: with_typed_def console_at_def)

lemma alike_with_typed: "alike A H (with_typed cs s) s' \<Longrightarrow> alike A H (with_typed ds s) (with_typed ds s')"
  by (simp add: alike_def with_typed_def)

lemma alike_typed_trans:
  "alike A {} (with_typed cs s) s1 \<Longrightarrow> alike A {} (with_typed ds s1) s2 \<Longrightarrow> alike A {} (with_typed ds s) s2"
  using alike_trans [OF alike_with_typed] by blast

lemma read_console:
  assumes "console_at 0 s" "\<not> bad_buffer a"
  shows "typed s = [] \<Longrightarrow> call (sys_read 0 a 1 s) = None"
    and "typed s = c # cs \<Longrightarrow> \<exists>s'. call (sys_read 0 a 1 s) = Some (Inr (1, s')) \<and> s_mem s' a = c \<and>
      alike {a} {} (with_typed cs s) s' \<and> printed s' = printed s"
  using assms
  by (auto simp: console_at_def sys_read_def file_read_def finish_read_def u8250_get_def alike_def with_typed_def
      write_bytes_def unat_eq_0)

lemma console_typed: "console_at fd s \<Longrightarrow> alike A {} (with_typed cs s) s' \<Longrightarrow> console_at fd s'"
  using console_alike [of fd "with_typed cs s" A "{}"] by simp

text \<open>What the loop prints for a key.\<close>

lemma byte_backspace: "map byte [CHR 0x08, CHR '' '', CHR 0x08] = [8, 32, 8]"
  by (simp add: byte_def)

lemma chr_scast: "char_of (unat (scast c :: u32)) = chr c"
proof -
  have e: "(take_bit 8 (unat (scast c :: u32)) :: nat) = unat c"
  proof -
    have "take_bit 8 (scast c :: u32) = ucast c" 
    proof (rule bit_eqI)
      fix n
      have "bit c n \<Longrightarrow> n < 8" using bit_imp_le_length [of c n] by simp
      moreover have "n < 8 \<Longrightarrow> min 7 n = n" by simp
      ultimately show "bit (take_bit 8 (scast c :: u32)) n = bit (ucast c :: u32) n" by (auto simp: bit_simps)
    qed
    then have "unat (take_bit 8 (scast c :: u32)) = unat (ucast c :: u32)" by simp
    moreover have "unat c < 2 ^ LENGTH(8)" by (rule unsigned_less)
    then have "(take_bit 32 (unat c) :: nat) = unat c" by (simp add: take_bit_nat_eq_self)
    ultimately show ?thesis by (simp add: unsigned_take_bit_eq unsigned_ucast_eq)
  qed
  have "char_of (take_bit 8 (unat (scast c :: u32))) = char_of (unat (scast c :: u32))"
    by (rule char_of_take_bit_eq) simp
  then show ?thesis unfolding chr_def e by (rule sym)
qed

section \<open>The loop is the editor\<close>

text \<open>The output turns one line on the terminal into another, with nothing but blanks behind it.\<close>

definition redraws :: "u8 list \<Rightarrow> u8 list \<Rightarrow> u8 list \<Rightarrow> bool" where
  "redraws out line line' \<longleftrightarrow>
     (\<forall>l r. blank r \<longrightarrow> (\<exists>r'. fold term_put out (l @ line, r) = (l @ line', r') \<and> blank r'))"

lemma redraws_trans: "redraws out line line1 \<Longrightarrow> redraws out1 line1 line' \<Longrightarrow> redraws (out @ out1) line line'"
  unfolding redraws_def by (metis fold_append comp_apply)

lemma redraws_nothing: "redraws [] line line"
  by (simp add: redraws_def)

lemma blank_tl: "blank r \<Longrightarrow> blank (tl r)"
  by (cases r) (auto simp: blank_def)

lemma redraws_key: "c \<noteq> 8 \<Longrightarrow> redraws [c] line (line @ [c])"
  by (auto simp: redraws_def term_put_def blank_tl)

lemma redraws_erase: "line \<noteq> [] \<Longrightarrow> redraws [8, 32, 8] line (butlast line)"
  by (auto simp: redraws_def term_put_def blank_def butlast_append)

definition locals_ok :: "user_locals \<Rightarrow> bool" where
  "locals_ok L \<longleftrightarrow> \<not> bad_buffer (l_t L) \<and> \<not> bad_buffer (l_c L)"

lemma echo_console:
  assumes "console_at 1 s" "locals_ok L" "render fmt args = Some out" "length out \<le> 1000"
  shows "\<exists>v s'. (if echo then printf F (l_t L) fmt args s else done_with 0 s) = Some (Inr (v, s')) \<and>
    alike {l_t L} {} s s' \<and> printed s' = printed s @ (if echo then map byte out else [])"
  using printf_console [OF assms(1) _ assms(3,4), of "l_t L" F] assms(2) by (auto simp: locals_ok_def done_with_def)

definition edited ::
  "user_locals \<Rightarrow> bool \<Rightarrow> u8 list \<Rightarrow> u8 list \<Rightarrow> u8 list \<times> u8 list \<Rightarrow> sys \<Rightarrow> (nat \<times> u8 list) run \<Rightarrow> bool" where
  "edited L echo buf line r s m \<longleftrightarrow> (case r of (line', rest) \<Rightarrow> \<exists>buf' s' out.
     m = Some (Inr ((length line', buf'), s')) \<and> prefix (line' @ [0]) buf' \<and> length buf' = length buf \<and>
     alike {l_t L, l_c L} {} (with_typed rest s) s' \<and> printed s' = printed s @ out \<and>
     (if echo then redraws out line line' else out = []))"

text \<open>One key before the others.\<close>

lemma edited_step:
  assumes e: "edited L echo buf1 line1 r s1 m" and a: "alike {l_t L, l_c L} {} (with_typed cs s) s1"
    and p: "printed s1 = printed s @ out1" "if echo then redraws out1 line line1 else out1 = []" and l: "length buf1 = length buf"
  shows "edited L echo buf line r s m"
proof -
  obtain line' rest where r: "r = (line', rest)" by (cases r)
  obtain buf' s' out where m: "m = Some (Inr ((length line', buf'), s'))" "prefix (line' @ [0]) buf'" "length buf' = length buf1"
    "alike {l_t L, l_c L} {} (with_typed rest s1) s'" "printed s' = printed s1 @ out"
    "if echo then redraws out line1 line' else out = []"
    using e unfolding edited_def r by auto
  have "alike {l_t L, l_c L} {} (with_typed rest s) s'" by (rule alike_typed_trans [OF a m(4)])
  moreover have "printed s' = printed s @ out1 @ out" using m(5) p(1) by simp
  moreover have "if echo then redraws (out1 @ out) line line' else out1 @ out = []"
    using p(2) m(6) redraws_trans by (auto split: if_splits)
  ultimately show ?thesis using m(1-3) l unfolding edited_def r by auto
qed

lemma input_loop_edits:
  assumes "console_at 0 s" "console_at 1 s" "locals_ok L"
    and "\<forall>c \<in> set (takeWhile (\<lambda>c. c \<noteq> 13) (typed s)). 32 \<le> c"
    and "length line \<le> m" "int m = buf_size - 1" "m < length buf" "take (length line) buf = line"
  shows "case edit m line (typed s) of
      None \<Rightarrow> input_loop F env L echo buf_size buf (length line) s = None
    | Some r \<Rightarrow> edited L echo buf line r s (input_loop F env L echo buf_size buf (length line) s)"
  using assms
proof (induction "typed s" arbitrary: s line buf)
  case Nil
  then show ?case
    using read_console(1) [of s "l_c L"] by (simp add: locals_ok_def input_loop.simps flip: Nil.hyps)
next
  case (Cons c cs)
  have ty: "typed s = c # cs" using Cons.hyps(2) by (rule sym)
  obtain s1 where 1: "call (sys_read 0 (l_c L) 1 s) = Some (Inr (1, s1))" "s_mem s1 (l_c L) = c"
    "alike {l_c L} {} (with_typed cs s) s1" "printed s1 = printed s"
    using read_console(2) [OF Cons.prems(1) _ ty] Cons.prems(3) by (auto simp: locals_ok_def)
  have con: "console_at 0 s1" "console_at 1 s1" using console_typed [OF _ 1(3)] Cons.prems(1,2) by auto
  have t1: "typed s1 = cs" using 1(3) by (simp add: alike_def)
  have a1: "alike {l_t L, l_c L} {} (with_typed cs s) s1" by (rule alike_mono [OF 1(3)]) auto
  note loop = input_loop.simps [of F env L echo buf_size buf "length line" s]
  have inb: "length line < length buf" using Cons.prems(5,7) by simp
  have go: "case edit m line (typed s) of
      None \<Rightarrow> input_loop F env L echo buf_size buf (length line) s = None
    | Some r \<Rightarrow> edited L echo buf line r s (input_loop F env L echo buf_size buf (length line) s)"
    if e: "edit m line (typed s) = edit m line1 cs"
      "input_loop F env L echo buf_size buf (length line) s = input_loop F env L echo buf_size buf1 (length line1) s2"
      and a2: "alike {l_t L, l_c L} {} s1 s2" and p2: "printed s2 = printed s @ out" "if echo then redraws out line line1 else out = []"
      and l: "length line1 \<le> m" "take (length line1) buf1 = line1" "length buf1 = length buf" and c: "c \<noteq> 13"
    for line1 buf1 s2 out
  proof -
    have t2: "typed s2 = cs" using a2 t1 by (simp add: alike_def)
    have con2: "console_at 0 s2" "console_at 1 s2" using console_alike [OF _ a2] con by auto
    have keys: "\<forall>c \<in> set (takeWhile (\<lambda>c. c \<noteq> 13) (typed s2)). 32 \<le> c"
      using Cons.prems(4) ty t2 c by simp
    have "case edit m line1 (typed s2) of
        None \<Rightarrow> input_loop F env L echo buf_size buf1 (length line1) s2 = None
      | Some r \<Rightarrow> edited L echo buf1 line1 r s2 (input_loop F env L echo buf_size buf1 (length line1) s2)"
      by (rule Cons.hyps(1) [OF t2 [symmetric] con2 Cons.prems(3) keys l(1) Cons.prems(6) _ l(2)])
        (use Cons.prems(7) l(3) in simp)
    then show ?thesis
      unfolding e t2
      using edited_step [OF _ alike_trans [OF a1 a2] p2 l(3)] by (auto split: option.splits)
  qed
  show ?case
  proof (cases "c = 13")
    case True
    let ?b = "buf[length line := 0]"
    have "input_loop F env L echo buf_size buf (length line) s = Some (Inr ((length line, ?b), s1))"
      unfolding loop using 1(1,2) True inb by (simp add: put_at_def lift_res_def done_with_def)
    moreover have "take (Suc (length line)) ?b = line @ [0]"
      using inb Cons.prems(8) by (simp add: take_Suc_conv_app_nth take_update_cancel)
    then have "prefix (line @ [0]) ?b" by (metis take_is_prefix)
    ultimately show ?thesis
      using ty True 1(4) a1 redraws_nothing by (auto simp: edited_def)
  next
    case enter: False
    have c32: "32 \<le> c" using Cons.prems(4) ty enter by simp
    then have tab: "c \<noteq> 9" "c \<noteq> 8" by auto
    show ?thesis
    proof (cases "c = 127")
      case True
      show ?thesis
      proof (cases "line = []")
        case True
        have e: "input_loop F env L echo buf_size buf (length line) s = input_loop F env L echo buf_size buf (length line) s1"
          unfolding loop using 1(1,2) \<open>c = 127\<close> True by simp
        show ?thesis
          by (rule go [OF _ e, where out = "[]"])
            (use ty \<open>c = 127\<close> True 1 redraws_nothing enter in auto)
      next
        case False
        obtain v s2 where 2: "(if echo then printf F (l_t L) [CHR 0x08, CHR '' '', CHR 0x08] [] s1 else done_with 0 s1) =
            Some (Inr (v, s2))" "alike {l_t L} {} s1 s2" "printed s2 = printed s1 @ (if echo then [8, 32, 8] else [])"
          using echo_console [OF con(2) Cons.prems(3), of "[CHR 0x08, CHR '' '', CHR 0x08]" "[]"
            "[CHR 0x08, CHR '' '', CHR 0x08]" echo F] byte_backspace
          by (auto simp: NUL_def)
        have e1: "length (butlast line) = length line - 1" by simp
        have "butlast line = take (length line - 1) buf"
          using Cons.prems(8) by (metis butlast_conv_take butlast_take inb less_imp_le length_take min.absorb2)
        then have b: "take (length (butlast line)) buf = butlast line" unfolding e1 by (rule sym)
        show ?thesis
        proof (rule go [of "butlast line" buf s2 "if echo then [8, 32, 8] else []"])
          show "edit m line (typed s) = edit m (butlast line) cs" using ty \<open>c = 127\<close> by simp
          show "input_loop F env L echo buf_size buf (length line) s = input_loop F env L echo buf_size buf (length (butlast line)) s2"
            unfolding loop e1 using 1(1,2) \<open>c = 127\<close> False 2(1) by (cases echo) simp_all
          show "alike {l_t L, l_c L} {} s1 s2" by (rule alike_mono [OF 2(2)]) auto
        qed (use 1(4) 2(3) redraws_erase [OF False] Cons.prems(5) b enter in auto)
      qed
    next
      case del: False
      show ?thesis
      proof (cases "length line < m")
        case False
        then have full: "\<not> int (length line) < buf_size - 1" using Cons.prems(6) by linarith
        show ?thesis
          by (rule go [of line buf s1 "[]"])
            (use ty enter del False full tab 1 redraws_nothing Cons.prems(5,8) in \<open>auto simp: loop\<close>)
      next
        case True
        then have room: "int (length line) < buf_size - 1" using Cons.prems(6) by linarith
        let ?b = "buf[length line := c]"
        have r: "render ''%c'' [VInt (scast c) :: 'd vararg] = Some [chr c]"
          by (simp add: NUL_def chr_scast)
        obtain v s2 where 2: "(if echo then printf F (l_t L) ''%c'' [VInt (scast c)] s1 else done_with 0 s1) =
            Some (Inr (v, s2))" "alike {l_t L} {} s1 s2" "printed s2 = printed s1 @ (if echo then [c] else [])"
          using echo_console [OF con(2) Cons.prems(3) r, of echo F] by auto
        have b: "take (Suc (length line)) ?b = line @ [c]"
          using inb Cons.prems(8) by (simp add: take_Suc_conv_app_nth take_update_cancel)
        show ?thesis
        proof (rule go [of "line @ [c]" ?b s2 "if echo then [c] else []"])
          show "edit m line (typed s) = edit m (line @ [c]) cs" using ty enter del True by simp
          show "input_loop F env L echo buf_size buf (length line) s =
              input_loop F env L echo buf_size ?b (length (line @ [c])) s2"
            unfolding loop using 1(1,2) enter del tab room inb 2(1) by (cases echo) (simp_all add: put_at_def lift_res_def)
          show "alike {l_t L, l_c L} {} s1 s2" by (rule alike_mono [OF 2(2)]) auto
          show "take (length (line @ [c])) ?b = line @ [c]" using b by simp
        qed (use 1(4) 2(3) redraws_key [OF tab(2)] True enter in auto)
      qed
    qed
  qed
qed

lemma edit_length: "edit m line cs = Some (line', rest) \<Longrightarrow> length line \<le> m \<Longrightarrow> length line' \<le> m"
  by (induction m line cs rule: edit.induct) (auto split: if_splits)

lemma input_loop_line:
  assumes "console_at 0 s" "console_at 1 s" "locals_ok L"
    and "\<forall>c \<in> set (takeWhile (\<lambda>c. c \<noteq> 13) (typed s)). 32 \<le> c"
    and "1 \<le> buf_size" "nat buf_size \<le> length buf"
  shows "case edit (nat (buf_size - 1)) [] (typed s) of
      None \<Rightarrow> input_loop F env L echo buf_size buf 0 s = None
    | Some r \<Rightarrow> edited L echo buf [] r s (input_loop F env L echo buf_size buf 0 s)"
proof -
  have m: "int (nat (buf_size - 1)) = buf_size - 1" "nat (buf_size - 1) < length buf" using assms(5,6) by auto
  show ?thesis
    using input_loop_edits [OF assms(1-4) _ m, of "[]" F env echo] by (simp only: list.size(3) take_0 le0 simp_thms)
qed

section \<open>Directories\<close>

text \<open>The record at an offset of an encoded directory, when the byte behind its name is in the buffer.\<close>

lemma get16_append: "i = length xs \<Longrightarrow> get16 (xs @ put16 w @ ys) i = w"
  using get16_put16 [of w] by (simp add: get16_def nth_append put16_def)

lemma entry_at_record:
  assumes r: "dr_valid r" and b: "b = pre @ encode_record r @ post"
  shows "entry_at b (length pre) =
    (if dr_pad r @ post = [] \<and> length (dr_name r) < 255 then Inl OutOfBounds else Inr (dr_size r, take 254 (dr_name r)))"
proof -
  let ?n = "length (dr_name r)" and ?o = "length pre"
  have n: "?n < 256" "dr_size r < 65536" using r by (auto simp: dr_valid_def)
  have "b = (pre @ put32 (dr_inode r)) @ put16 (of_nat (dr_size r)) @
      [of_nat ?n, dr_type r] @ dr_name r @ dr_pad r @ post"
    by (simp add: b encode_record_def)
  then have g: "get16 b (?o + 4) = of_nat (dr_size r)"
    using get16_append [of "?o + 4" "pre @ put32 (dr_inode r)"] by (simp add: put32_def)
  have "b = (pre @ put32 (dr_inode r) @ put16 (of_nat (dr_size r))) @ of_nat ?n # dr_type r # dr_name r @ dr_pad r @ post"
    by (simp add: b encode_record_def)
  then have "b ! (?o + 6) = of_nat ?n" by (simp only: nth_append_length_plus) (simp add: nth_append put32_def put16_def)
  then have l: "unat (b ! (?o + 6)) = ?n" using n(1) by (simp add: unat_of_nat take_bit_nat_eq_self)
  have s: "unat (of_nat (dr_size r) :: u16) = dr_size r" using n(2) by (simp add: unat_of_nat take_bit_nat_eq_self)
  have d: "drop (?o + 8) b = dr_name r @ dr_pad r @ post"
    by (simp add: b encode_record_def put32_def put16_def)
  have len: "length b = ?o + 8 + ?n + (length (dr_pad r) + length post)"
    unfolding b by (simp only: length_append length_encode_record dr_size_def)
  have pos: "dr_pad r @ post = [] \<longleftrightarrow> length (dr_pad r) + length post = 0" by simp
  have t: "take (if ?n < 255 then ?n else 254) (dr_name r @ dr_pad r @ post) = take 254 (dr_name r)"
    using n(1) by auto
  show ?thesis
    unfolding entry_at_def g l s Let_def d t pos using len n(1) by auto
qed

lemma entry_at_outside: "length b \<le> off \<Longrightarrow> entry_at b off = Inl OutOfBounds"
  by (simp add: entry_at_def)

lemma strncmp_fault: "strncmp_loop n s1 s2 = Inl e \<Longrightarrow> e = OutOfBounds"
  by (induction n s1 s2 rule: strncmp_loop.induct) (auto split: if_splits)

lemma encode_dir_split:
  assumes "b = pre @ encode_dir (r # rs)"
  shows "b = pre @ encode_record r @ encode_dir rs" "b = (pre @ encode_record r) @ encode_dir rs"
    "length (pre @ encode_record r) = length pre + dr_size r"
  using assms by (simp_all add: encode_dir_def)

text \<open>The loop of \<open>handle_tab\<close> on a block of records runs past the last one.\<close>

lemma tab_loop_overruns:
  "length b = 1024 \<Longrightarrow> b = pre @ encode_dir rs \<Longrightarrow> \<forall>r \<in> set rs. dr_valid r \<Longrightarrow> off \<le> 1023 \<Longrightarrow>
   off + rec_len = length pre \<Longrightarrow> tab_loop b buf n off rec_len ms = Some (Inl OutOfBounds)"
proof (induction rs arbitrary: pre off rec_len ms)
  case Nil
  then have "entry_at b (off + rec_len) = Inl OutOfBounds" by (intro entry_at_outside) (simp add: encode_dir_def)
  then show ?case using Nil by (simp add: tab_loop.simps)
next
  case (Cons r rs)
  note b = encode_dir_split [OF Cons.prems(2)]
  have r: "dr_valid r" "0 < dr_size r" using Cons.prems(3) by (auto simp: dr_size_def)
  have pre: "length pre \<le> 1023"
    using arg_cong [OF b(2), of length] Cons.prems(1) b(3) r(2) by (simp only: length_append)
  have next_record: "tab_loop b buf n (off + rec_len) (dr_size r) ms' = Some (Inl OutOfBounds)" for ms'
    by (rule Cons.IH [OF Cons.prems(1) b(2)]) (use Cons.prems b(3) pre in auto)
  show ?case
  proof (cases "entry_at b (off + rec_len)")
    case (Inl e)
    then have "e = OutOfBounds" by (auto simp: entry_at_def Let_def split: if_splits)
    then show ?thesis using Inl Cons.prems(4) by (simp add: tab_loop.simps)
  next
    case (Inr q)
    then obtain name where q: "entry_at b (off + rec_len) = Inr (dr_size r, name)"
      using entry_at_record [OF r(1) b(1)] Cons.prems(5) by (auto split: if_splits)
    show ?thesis
    proof (cases "my_strncmp (name @ [0]) buf n")
      case (Inl e)
      then have "e = OutOfBounds" using strncmp_fault by (auto simp: my_strncmp_def)
      then show ?thesis using q Inl Cons.prems(4) by (simp add: tab_loop.simps)
    next
      case (Inr eq)
      then show ?thesis
        using q Cons.prems(4) next_record by (subst tab_loop.simps) simp
    qed
  qed
qed

section \<open>Properties\<close>

text \<open>
  C33. What the line input functions do, for keys other than control characters: if the enter key is among
  them, both return the line that editing with backspace gives, in the buffer with its terminator and
  with its length, and leave the keys after it; the echoing one turns any terminal line with nothing
  behind the cursor into that line followed by what was typed and left, the other prints nothing.
  Without an enter key neither returns. The line is always shorter than the buffer.
\<close>

theorem line_editor:
  assumes con: "console_at 0 s" "console_at 1 s" and L: "locals_ok L"
    and keys: "\<forall>c \<in> set (takeWhile (\<lambda>c. c \<noteq> 13) (typed s)). 32 \<le> c"
    and sz: "1 \<le> buf_size" "nat buf_size \<le> length buf"
  shows "case edit (nat (buf_size - 1)) [] (typed s) of
      None \<Rightarrow> read_input_echo F env L buf buf_size s = None \<and> read_input_silent F env L buf buf_size s = None
    | Some (line, rest) \<Rightarrow> length line < nat buf_size \<and>
        (\<exists>buf' s' out. read_input_echo F env L buf buf_size s = Some (Inr ((length line, buf'), s')) \<and>
           prefix (line @ [0]) buf' \<and> typed s' = rest \<and> printed s' = printed s @ out \<and>
           (\<forall>l r. blank r \<longrightarrow> (\<exists>r'. fold term_put out (l, r) = (l @ line, r') \<and> blank r'))) \<and>
        (\<exists>buf' s'. read_input_silent F env L buf buf_size s = Some (Inr ((length line, buf'), s')) \<and>
           prefix (line @ [0]) buf' \<and> typed s' = rest \<and> printed s' = printed s)"
proof (cases "edit (nat (buf_size - 1)) [] (typed s)")
  case None
  then show ?thesis
    using input_loop_line [OF con L keys sz, of F env] by (simp add: read_input_echo_def read_input_silent_def)
next
  case (Some q)
  obtain line rest where q: "q = (line, rest)" by (cases q)
  have "length line \<le> nat (buf_size - 1)" using edit_length [of _ "[]" "typed s"] Some q by simp
  then have len: "length line < nat buf_size" using sz(1) by linarith
  have "edited L echo buf [] (line, rest) s (input_loop F env L echo buf_size buf 0 s)" for echo
    using input_loop_line [OF con L keys sz, of F env echo] unfolding Some q by simp
  from this [of True] this [of False] show ?thesis
    unfolding Some q using len
    by (auto simp: edited_def redraws_def read_input_echo_def read_input_silent_def alike_def)
qed

lemma demo_console [simp]:
  "console_at 0 (with_typed cs demo_sys)" "console_at 1 (with_typed cs demo_sys)" "printed demo_sys = []"
  by (simp_all add: console_at_def with_typed_def demo_sys_def getFile_def index_cases)

text \<open>The keys a, b, backspace, c and enter, and one more, at a buffer of 20 bytes.\<close>

theorem line_editor_witness:
  "\<forall>F :: nat fpu. \<exists>s' buf' out. read_input_echo F demo_env \<lparr>l_t = 0x80000000, l_c = 0x80000004, l_path = 0, l_dir = 0\<rparr>
      (replicate 20 0) 20 (with_typed [97, 98, 127, 99, 13, 100] demo_sys) = Some (Inr ((2, buf'), s')) \<and>
    prefix [97, 99, 0] buf' \<and> typed s' = [100] \<and> fold term_put (printed s') ([36, 32], []) = ([36, 32, 97, 99], out)"
proof
  fix F :: "nat fpu"
  let ?L = "\<lparr>l_t = 0x80000000, l_c = 0x80000004, l_path = 0, l_dir = 0\<rparr>"
  have L: "locals_ok ?L" by (simp add: locals_ok_def bad_buffer_def)
  have "edit 19 [] [97, 98, 127, 99, 13, 100] = Some ([97, 99], [100])" by simp
  then obtain buf' s' out where 1:
    "read_input_echo F demo_env ?L (replicate 20 0) 20 (with_typed [97, 98, 127, 99, 13, 100] demo_sys) = Some (Inr ((2, buf'), s'))"
    "prefix [97, 99, 0] buf'" "typed s' = [100]" "printed s' = out"
    "\<forall>l r. blank r \<longrightarrow> (\<exists>r'. fold term_put out (l, r) = (l @ [97, 99], r') \<and> blank r')"
    using line_editor [OF demo_console(1,2) L, of "[97, 98, 127, 99, 13, 100]" 20 "replicate 20 0" F demo_env]
    by (auto simp: demo_console(3))
  have "blank []" by (simp add: blank_def)
  then obtain r' where "fold term_put out ([36, 32], []) = ([36, 32, 97, 99], r')" using 1(5) by (metis append_Cons append_Nil)
  then show "\<exists>s' buf' out. read_input_echo F demo_env ?L (replicate 20 0) 20 (with_typed [97, 98, 127, 99, 13, 100] demo_sys) =
      Some (Inr ((2, buf'), s')) \<and> prefix [97, 99, 0] buf' \<and> typed s' = [100] \<and>
      fold term_put (printed s') ([36, 32], []) = ([36, 32, 97, 99], out)"
    using 1(1-4) by metis
qed

end
