(* ===== verification/Login.thy ===== *)
theory Login
  imports User_Input
begin

text \<open>
  The login program (\<open>sbin/login.c\<close>): the table of users, the comparison, and the dialogue of \<open>main\<close> up to the
  greeting, on the line input of \<open>User_Input\<close>.
\<close>

section \<open>The code\<close>

text \<open>The table of users: arrays of 20 characters; the fourth entry is zero.\<close>

definition MAX_CHAR_LIMIT :: nat where "MAX_CHAR_LIMIT = 20"

definition char_array :: "string \<Rightarrow> u8 list" where
  "char_array str = map byte str @ replicate (MAX_CHAR_LIMIT - length str) 0"

definition users :: "(u8 list \<times> u8 list) list" where
  "users = [(char_array ''bob'', char_array ''bob''), (char_array ''urmom'', char_array ''urmomdotcom''),
     (char_array ''test'', char_array ''test123''), (char_array '''', char_array '''')]"

fun login_scan :: "(u8 list \<times> u8 list) list \<Rightarrow> u8 list \<Rightarrow> u8 list \<Rightarrow> int res" where
  "login_scan [] username password = Inr 0"
| "login_scan ((u, p) # us) username password =
     rbind (my_strcmp u username) (\<lambda>d.
       if d \<noteq> 0 then login_scan us username password
       else rbind (my_strcmp p password) (\<lambda>e. if e = 0 then Inr 1 else login_scan us username password))"

definition login :: "u8 list \<Rightarrow> u8 list \<Rightarrow> int res" where
  "login username password = login_scan users username password"

text \<open>The loop of \<open>main\<close> up to the greeting; what follows is \<open>fork\<close>, \<open>execl\<close> and \<open>wait\<close>.\<close>

partial_function (option) login_dialogue ::
  "'d fpu \<Rightarrow> kernel_env \<Rightarrow> user_locals \<Rightarrow> u8 list \<Rightarrow> u8 list \<Rightarrow> sys \<Rightarrow> unit run" where
  "login_dialogue F env L username password s =
     run_bind (read_input_echo F env L username 20 s) (\<lambda>u s.
     run_bind (printf F (l_t L) ([NL] @ ''Password: '') [] s) (\<lambda>_ s.
     run_bind (read_input_silent F env L password 20 s) (\<lambda>p s.
     run_bind (lift_res (login (snd u) (snd p)) s) (\<lambda>status s.
       if status = 0 then
         run_bind (printf F (l_t L) (''login failed'' @ [NL]) [] s) (\<lambda>_ s.
         run_bind (printf F (l_t L) ''Username: '' [] s) (\<lambda>_ s.
         login_dialogue F env L (snd u) (snd p) s))
       else
         run_bind (lift_res (c_text (snd u)) s) (\<lambda>v s.
         run_bind (printf F (l_t L) ([NL] @ ''Login successful! Hello %s'' @ [NL]) [VStr v] s) (\<lambda>_ s. done_with () s))))))"

definition login_main :: "'d fpu \<Rightarrow> kernel_env \<Rightarrow> user_locals \<Rightarrow> u8 list \<Rightarrow> u8 list \<Rightarrow> sys \<Rightarrow> unit run" where
  "login_main F env L username password s =
     run_bind (printf F (l_t L) ''Username: '' [] s) (\<lambda>_ s. login_dialogue F env L username password s)"

section \<open>What login accepts\<close>

definition accounts :: "(u8 list \<times> u8 list) set" where
  "accounts = {(map byte ''bob'', map byte ''bob''), (map byte ''urmom'', map byte ''urmomdotcom''),
     (map byte ''test'', map byte ''test123''), ([], [])}"

lemma login_scan_accepts:
  "list_all2 (\<lambda>(a, b) (u, p). c_str a u \<and> c_str b p) us as \<Longrightarrow> c_str x user \<Longrightarrow> c_str y pass \<Longrightarrow>
   login_scan us x y = Inr (if (user, pass) \<in> set as then 1 else 0)"
proof (induction us as rule: list_all2_induct)
  case (Cons ab us up as)
  obtain a b u p where e: "ab = (a, b)" "up = (u, p)" by (cases ab, cases up)
  then have c: "c_str a u" "c_str b p" using Cons.hyps(1) by auto
  show ?case
    using my_strcmp_zero [OF c(1) Cons.prems(1)] my_strcmp_zero [OF c(2) Cons.prems(2)] Cons.IH [OF Cons.prems] e by auto
qed simp

lemma char_array_str:
  "0 \<notin> set (map byte str) \<Longrightarrow> length str < 20 \<Longrightarrow> c_str (char_array str) (map byte str)"
  by (cases "20 - length str") (auto simp: c_str_alt char_array_def MAX_CHAR_LIMIT_def)

lemma login_accepts:
  assumes "c_str x user" "c_str y pass"
  shows "login x y = Inr (if (user, pass) \<in> accounts then 1 else 0)"
proof -
  let ?as = "map (map_prod (map byte) (map byte)) [(''bob'', ''bob''), (''urmom'', ''urmomdotcom''), (''test'', ''test123''), ('''', '''')]"
  have "list_all2 (\<lambda>(a, b) (u, p). c_str a u \<and> c_str b p) users ?as"
    using char_array_str [of "''bob''"] char_array_str [of "''urmom''"] char_array_str [of "''urmomdotcom''"]
      char_array_str [of "''test''"] char_array_str [of "''test123''"] char_array_str [of "''''"]
    by (simp add: users_def byte_def)
  from login_scan_accepts [OF this assms] show ?thesis by (simp add: login_def accounts_def)
qed

text \<open>A line that was edited is a C string in its buffer.\<close>

lemma edit_rest:
  "edit m line cs = Some (line', rest) \<Longrightarrow> suffix rest cs \<and> length rest < length cs \<and> set line' \<subseteq> set line \<union> (set cs - {13})"
proof (induction m line cs rule: edit.induct)
  case (2 m line c cs)
  then show ?case
    by (auto simp: suffix_Cons dest: in_set_butlastD split: if_splits)
qed simp

definition plain_keys :: "u8 list \<Rightarrow> bool" where
  "plain_keys cs \<longleftrightarrow> (\<forall>c \<in> set cs. c = 13 \<or> 32 \<le> c)"

text \<open>The name under which the keys log in, and the keys left.\<close>

function logged_in :: "u8 list \<Rightarrow> (u8 list \<times> u8 list) option" where
  "logged_in keys =
     (case edit 19 [] keys of
        None \<Rightarrow> None
      | Some (user, keys1) \<Rightarrow>
          (case edit 19 [] keys1 of
             None \<Rightarrow> None
           | Some (pass, keys2) \<Rightarrow> if (user, pass) \<in> accounts then Some (user, keys2) else logged_in keys2))"
  by pat_completeness auto
termination
proof (relation "measure length", goal_cases)
  case (2 keys q user keys1 r pass keys2)
  have "length keys1 < length keys" "length keys2 < length keys1"
    using edit_rest [of 19 "[]" keys user keys1] edit_rest [of 19 "[]" keys1 pass keys2] 2 by auto
  then show ?case by simp
qed simp

declare logged_in.simps [simp del]

lemma read_line:
  assumes con: "console_at 0 s" "console_at 1 s" and L: "locals_ok L" and keys: "plain_keys (typed s)" and len: "20 \<le> length buf"
  shows "edit 19 [] (typed s) = None \<Longrightarrow> input_loop F env L ec 20 buf 0 s = None"
    and "edit 19 [] (typed s) = Some (line, rest) \<Longrightarrow> \<exists>buf' s' out.
      input_loop F env L ec 20 buf 0 s = Some (Inr ((length line, buf'), s')) \<and> c_str buf' line \<and> length buf' = length buf \<and>
      console_at 0 s' \<and> console_at 1 s' \<and> typed s' = rest \<and> plain_keys rest \<and> printed s' = printed s @ out \<and> (\<not> ec \<longrightarrow> out = [])"
proof -
  have k: "\<forall>c \<in> set (takeWhile (\<lambda>c. c \<noteq> 13) (typed s)). 32 \<le> c"
    using keys set_takeWhileD [of _ "\<lambda>c. c \<noteq> 13" "typed s"] unfolding plain_keys_def by blast
  have sz: "1 \<le> (20::int)" "nat 20 \<le> length buf" using len by simp_all
  note r = input_loop_line [OF con L k sz, of F env ec, simplified]
  show "edit 19 [] (typed s) = None \<Longrightarrow> input_loop F env L ec 20 buf 0 s = None" using r by simp
  assume e: "edit 19 [] (typed s) = Some (line, rest)"
  obtain buf' s' out where 1: "input_loop F env L ec 20 buf 0 s = Some (Inr ((length line, buf'), s'))"
    "prefix (line @ [0]) buf'" "length buf' = length buf" "alike {l_t L, l_c L} {} (with_typed rest s) s'"
    "printed s' = printed s @ out" "if ec then redraws out [] line else out = []"
    using r unfolding e edited_def by auto
  have "c \<noteq> 0" if "c \<in> set line" for c
    using that edit_rest [OF e] keys unfolding plain_keys_def by force
  then have "c_str buf' line" using 1(2) by (auto simp: c_str_def)
  moreover have "plain_keys rest" using keys edit_rest [OF e] set_mono_suffix [of rest "typed s"] by (auto simp: plain_keys_def)
  moreover have "typed s' = rest" using 1(4) by (simp add: alike_def)
  ultimately show "\<exists>buf' s' out.
      input_loop F env L ec 20 buf 0 s = Some (Inr ((length line, buf'), s')) \<and> c_str buf' line \<and> length buf' = length buf \<and>
      console_at 0 s' \<and> console_at 1 s' \<and> typed s' = rest \<and> plain_keys rest \<and> printed s' = printed s @ out \<and> (\<not> ec \<longrightarrow> out = [])"
    using 1 console_typed [OF con(1) 1(4)] console_typed [OF con(2) 1(4)] by auto
qed

text \<open>A \<open>printf\<close> that stands between two inputs.\<close>

lemma say:
  assumes "console_at 0 s" "console_at 1 s" "locals_ok L" "render fmt args = Some out" "length out \<le> 1000"
  shows "\<exists>s'. printf F (l_t L) fmt args s = Some (Inr (1, s')) \<and> console_at 0 s' \<and> console_at 1 s' \<and>
    typed s' = typed s \<and> printed s' = printed s @ map byte out"
proof -
  obtain s' where 1: "printf F (l_t L) fmt args s = Some (Inr (1, s'))" "alike {l_t L} {} s s'"
    "printed s' = printed s @ map byte out"
    using printf_console [OF assms(2) _ assms(4,5)] assms(3) by (auto simp: locals_ok_def)
  then show ?thesis using console_alike [OF _ 1(2)] assms(1,2) by (auto simp: alike_def)
qed

lemma c_text_str: "c_str a str \<Longrightarrow> c_text a = Inr (map chr str)"
  by (auto simp: c_str_alt c_text_def shown_def takeWhile_append)

abbreviation greeting :: "u8 list \<Rightarrow> u8 list" where
  "greeting user \<equiv> 10 # map byte ''Login successful! Hello '' @ user @ [10]"

lemma greeting_render:
  "render ([NL] @ ''Login successful! Hello %s'' @ [NL]) [VStr (map chr user)] = Some ([NL] @ ''Login successful! Hello '' @ map chr user @ [NL])"
  by (simp add: NUL_def NL_def)

lemma dialogue_logs_in:
  assumes "console_at 0 s" "console_at 1 s" "locals_ok L" "plain_keys (typed s)" "20 \<le> length username" "20 \<le> length password"
  shows "case logged_in (typed s) of
      None \<Rightarrow> login_dialogue F env L username password s = None
    | Some (user, rest) \<Rightarrow> \<exists>s' out. login_dialogue F env L username password s = Some (Inr ((), s')) \<and> typed s' = rest \<and>
        printed s' = printed s @ out @ greeting user"
  using assms
proof (induction "typed s" arbitrary: s username password rule: logged_in.induct)
  case 1
  note d = login_dialogue.simps [of F env L username password s] read_input_echo_def read_input_silent_def
  show ?case
  proof (cases "edit 19 [] (typed s)")
    case None
    then show ?thesis
      using read_line(1) [OF 1(2-6) None, of F env True] by (simp add: d logged_in.simps [of "typed s"])
  next
    case (Some q)
    obtain user keys1 where e1: "edit 19 [] (typed s) = Some (user, keys1)" using Some by (cases q) simp
    obtain ub s1 out1 where r1: "input_loop F env L True 20 username 0 s = Some (Inr ((length user, ub), s1))" "c_str ub user"
      "length ub = length username" "console_at 0 s1" "console_at 1 s1" "typed s1 = keys1" "plain_keys keys1"
      "printed s1 = printed s @ out1"
      using read_line(2) [OF 1(2-6) e1, of F env True] by auto
    obtain s2 where r2: "printf F (l_t L) ([NL] @ ''Password: '') [] s1 = Some (Inr (1, s2))" "console_at 0 s2" "console_at 1 s2"
      "typed s2 = keys1" "printed s2 = printed s1 @ map byte ([NL] @ ''Password: '')"
      using say [OF r1(4,5) 1(4), of "[NL] @ ''Password: ''" "[]" "[NL] @ ''Password: ''" F] r1(6) by (auto simp: NUL_def NL_def)
    have k2: "plain_keys (typed s2)" using r1(7) r2(4) by simp
    show ?thesis
    proof (cases "edit 19 [] keys1")
      case None
      then show ?thesis
        using read_line(1) [OF r2(2,3) 1(4) k2 1(7), of F env False] r1(1) r2(1,4) e1 by (simp add: d logged_in.simps [of "typed s"])
    next
      case (Some q')
      obtain pass keys2 where e2: "edit 19 [] keys1 = Some (pass, keys2)" using Some by (cases q') simp
      obtain pb s3 where r3: "input_loop F env L False 20 password 0 s2 = Some (Inr ((length pass, pb), s3))" "c_str pb pass"
        "length pb = length password" "console_at 0 s3" "console_at 1 s3" "typed s3 = keys2" "plain_keys keys2"
        "printed s3 = printed s2"
        using read_line(2) [OF r2(2,3) 1(4) k2 1(7), of pass keys2 F env False] e2 r2(4) by auto
      show ?thesis
      proof (cases "(user, pass) \<in> accounts")
        case True
        have "length user \<le> 19" using edit_length [OF e1] by simp
        then obtain s4 where "printf F (l_t L) ([NL] @ ''Login successful! Hello %s'' @ [NL]) [VStr (map chr user)] s3 = Some (Inr (1, s4))"
          "typed s4 = keys2" "printed s4 = printed s3 @ greeting user"
          using say [OF r3(4,5) 1(4) greeting_render, of user F] r3(6) by (auto simp: byte_def NL_def)
        then show ?thesis
          using True e1 e2 r1 r2 r3 login_accepts [OF r1(2) r3(2)] c_text_str [OF r1(2)]
          by (simp add: d logged_in.simps [of "typed s"] lift_res_def done_with_def)
      next
        case False
        obtain s4 where r4: "printf F (l_t L) (''login failed'' @ [NL]) [] s3 = Some (Inr (1, s4))" "console_at 0 s4" "console_at 1 s4"
          "typed s4 = keys2" "printed s4 = printed s3 @ map byte (''login failed'' @ [NL])"
          using say [OF r3(4,5) 1(4), of "''login failed'' @ [NL]" "[]" "''login failed'' @ [NL]" F] r3(6) by (auto simp: NUL_def NL_def)
        obtain s5 where r5: "printf F (l_t L) ''Username: '' [] s4 = Some (Inr (1, s5))" "console_at 0 s5" "console_at 1 s5"
          "typed s5 = keys2" "printed s5 = printed s4 @ map byte ''Username: ''"
          using say [OF r4(2,3) 1(4), of "''Username: ''" "[]" "''Username: ''" F] r4(4) by (auto simp: NUL_def)
        have "logged_in (typed s) = logged_in (typed s5)"
          "login_dialogue F env L username password s = login_dialogue F env L ub pb s5"
          using False e1 e2 r1(1) r2(1) r3(1) r4(1) r5(1,4) login_accepts [OF r1(2) r3(2)]
          by (simp_all add: d logged_in.simps [of "typed s"] lift_res_def)
        moreover have "case logged_in (typed s5) of None \<Rightarrow> login_dialogue F env L ub pb s5 = None
          | Some (user, rest) \<Rightarrow> \<exists>s' out. login_dialogue F env L ub pb s5 = Some (Inr ((), s')) \<and> typed s' = rest \<and>
              printed s' = printed s5 @ out @ greeting user"
          by (rule 1(1) [of "(user, keys1)" user keys1 "(pass, keys2)" pass s5 ub pb])
            (use e1 e2 False r1(3) r3(3,7) r5(2-4) 1(4,6,7) in simp_all)
        ultimately show ?thesis
          using r1(8) r2(5) r3(8) r4(5) r5(5) by (auto split: option.splits)
      qed
    qed
  qed
qed

section \<open>Properties\<close>

text \<open>
  C34. The login program, for any keys but the control characters other than enter: with the four accounts of its
  table, of which the last has an empty name and an empty password, it asks until two lines in a row,
  as the line editor gives them, are the name and the password of one of them; then it greets that name and
  leaves the keys after it unread. If no such pair of lines comes it does not return.
\<close>

theorem login_session:
  assumes "console_at 0 s" "console_at 1 s" "locals_ok L" "plain_keys (typed s)"
    and "length username = 20" "length password = 20"
  shows "case logged_in (typed s) of
      None \<Rightarrow> login_main F env L username password s = None
    | Some (user, rest) \<Rightarrow> \<exists>s' out. login_main F env L username password s = Some (Inr ((), s')) \<and> typed s' = rest \<and>
        printed s' = printed s @ out @ greeting user"
proof -
  obtain s1 where 1: "printf F (l_t L) ''Username: '' [] s = Some (Inr (1, s1))" "console_at 0 s1" "console_at 1 s1"
    "typed s1 = typed s" "printed s1 = printed s @ map byte ''Username: ''"
    using say [OF assms(1-3), of "''Username: ''" "[]" "''Username: ''" F] by (auto simp: NUL_def)
  then show ?thesis
    using dialogue_logs_in [OF 1(2,3) assms(3), of username password F env] assms(4-6)
    by (auto simp: login_main_def split: option.splits)
qed

text \<open>A wrong password, and then enter twice: nobody logs in.\<close>

theorem login_session_witness:
  "\<forall>F :: nat fpu. \<exists>s' out.
     login_main F demo_env \<lparr>l_t = 0x80000000, l_c = 0x80000004, l_path = 0, l_dir = 0\<rparr> (replicate 20 0) (replicate 20 0)
       (with_typed [98, 111, 98, 13, 120, 13, 13, 13, 65] demo_sys) = Some (Inr ((), s')) \<and>
     typed s' = [65] \<and> printed s' = out @ greeting []"
proof
  fix F :: "nat fpu"
  let ?L = "\<lparr>l_t = 0x80000000, l_c = 0x80000004, l_path = 0, l_dir = 0\<rparr>" and ?keys = "[98, 111, 98, 13, 120, 13, 13, 13, 65]"
  have L: "locals_ok ?L" by (simp add: locals_ok_def bad_buffer_def)
  have "plain_keys (typed (with_typed ?keys demo_sys))" by (simp add: plain_keys_def)
  moreover have "logged_in ?keys = Some ([], [65])" by (simp add: logged_in.simps accounts_def byte_def)
  ultimately show "\<exists>s' out. login_main F demo_env ?L (replicate 20 0) (replicate 20 0) (with_typed ?keys demo_sys) = Some (Inr ((), s')) \<and>
      typed s' = [65] \<and> printed s' = out @ greeting []"
    using login_session [OF demo_console(1,2) L, of ?keys "replicate 20 0" "replicate 20 0" F demo_env]
    by auto
qed

end
