(* ===== verification/Shell.thy ===== *)
theory Shell
  imports User_Input
begin

text \<open>
  The shell (\<open>sbin/our_shell.c\<close>): how \<open>main\<close> splits the line that was read into the commands and arguments that its
  children pass to \<open>execvp\<close> and \<open>execl\<close>, and the paths they build. A pointer into the line is its offset in
  the array \<open>buf\<close>.
\<close>

section \<open>The code\<close>

text \<open>The locals of \<open>main\<close>. The entries of \<open>arguments\<close>, 10 rows of 256, are not initialised.\<close>

record parse =
  sh_buf :: "u8 list"
  sh_args :: "nat \<Rightarrow> nat \<Rightarrow> nat option"
  sh_cmd :: nat
  sh_arg :: nat
  sh_start :: nat

definition SPACE :: u8 where "SPACE = 32"
definition PIPE :: u8 where "PIPE = 124"
definition MAX_INPUT_LENGTH :: nat where "MAX_INPUT_LENGTH = 255"

definition set_argument :: "nat option \<Rightarrow> parse \<Rightarrow> parse res" where
  "set_argument p st =
     (if 10 \<le> sh_cmd st \<or> MAX_INPUT_LENGTH + 1 \<le> sh_arg st then Inl OutOfBounds
      else Inr (st\<lparr>sh_args := (sh_args st)(sh_cmd st := (sh_args st (sh_cmd st))(sh_arg st := p))\<rparr>))"

text \<open>The two conditionals of the loop.\<close>

definition end_argument :: "nat \<Rightarrow> parse \<Rightarrow> parse res" where
  "end_argument i st =
     (if length (sh_buf st) \<le> i then Inl OutOfBounds
      else if sh_buf st ! i = SPACE \<or> sh_buf st ! i = 0 then
        rbind (set_argument (Some (sh_start st)) st) (\<lambda>st.
        Inr (st\<lparr>sh_buf := (sh_buf st)[i := 0], sh_arg := sh_arg st + 1, sh_start := i + 1\<rparr>))
      else Inr st)"

definition end_command :: "nat \<Rightarrow> parse \<Rightarrow> (nat \<times> parse) res" where
  "end_command i st =
     (if sh_buf st ! i = PIPE then
        rbind (set_argument None st) (\<lambda>st.
        Inr (i + 1, st\<lparr>sh_cmd := sh_cmd st + 1, sh_arg := 0, sh_start := sh_start st + 2\<rparr>))
      else Inr (i, st))"

function parse_loop :: "nat \<Rightarrow> nat \<Rightarrow> parse \<Rightarrow> parse res" where
  "parse_loop buffer_index i st =
     (if i \<le> buffer_index then
        case end_argument i st of
          Inl e \<Rightarrow> Inl e
        | Inr st1 \<Rightarrow>
            (case end_command i st1 of
               Inl e \<Rightarrow> Inl e
             | Inr (i1, st2) \<Rightarrow>
                 if MAX_INPUT_LENGTH - 1 \<le> sh_arg st2 then Inr st2 else parse_loop buffer_index (i1 + 1) st2)
      else Inr st)"
  by pat_completeness auto
termination
proof (relation "measure (\<lambda>(buffer_index, i, st). Suc buffer_index - i)", goal_cases)
  case (2 buffer_index i st st1 p i1 st2)
  then have "i \<le> i1" by (auto simp: end_command_def rbind_Inr_conv split: if_splits)
  then show ?case using 2(1) by simp
qed simp

declare parse_loop.simps [simp del]

definition shell_parse :: "(nat \<Rightarrow> nat \<Rightarrow> nat option) \<Rightarrow> u8 list \<Rightarrow> nat \<Rightarrow> parse res" where
  "shell_parse garbage buf buffer_index =
     rbind (parse_loop buffer_index 0 \<lparr>sh_buf = buf, sh_args = garbage, sh_cmd = 0, sh_arg = 0, sh_start = 0\<rparr>)
       (set_argument None)"

text \<open>Strings of the line, and the arguments that \<open>execvp\<close> finds in a row from its first entry on.\<close>

fun str_at :: "u8 list \<Rightarrow> u8 list res" where
  "str_at [] = Inl OutOfBounds"
| "str_at (c # a) = (if c = 0 then Inr [] else rbind (str_at a) (\<lambda>str. Inr (c # str)))"

fun row_args :: "nat \<Rightarrow> nat \<Rightarrow> nat \<Rightarrow> parse \<Rightarrow> u8 list list res" where
  "row_args 0 c a st = Inl OutOfBounds"
| "row_args (Suc k) c a st =
     (case sh_args st c a of
        None \<Rightarrow> Inr []
      | Some off \<Rightarrow>
          rbind (str_at (drop off (sh_buf st))) (\<lambda>str.
          rbind (row_args k c (a + 1) st) (\<lambda>rest. Inr (str # rest))))"

text \<open>\<open>starting_path\<close>, which each child of the shell changes in its own memory.\<close>

definition starting_path :: "u8 list" where
  "starting_path = map byte ''/sbin/'' @ replicate 250 0"

definition copy_into :: "u8 list \<Rightarrow> nat \<Rightarrow> u8 list \<Rightarrow> nat \<Rightarrow> u8 list res" where
  "copy_into d at src n =
     (if length src < n \<or> length d < at + n then Inl OutOfBounds
      else Inr (take at d @ take n src @ drop (at + n) d))"

definition first_argument :: "nat \<Rightarrow> parse \<Rightarrow> u8 list res" where
  "first_argument c st =
     (case sh_args st c 0 of None \<Rightarrow> Inl NullDeref | Some off \<Rightarrow> Inr (drop off (sh_buf st)))"

text \<open>
  What the child of a line without a pipe executes: \<open>strlen\<close> bytes of the name are copied. The children of
  a pipe copy \<open>sizeof(arguments[0][0])\<close> bytes, the size of a pointer; the second one gets two arguments.
\<close>

definition single_command :: "parse \<Rightarrow> (u8 list \<times> u8 list list) res" where
  "single_command st =
     rbind (first_argument 0 st) (\<lambda>name.
     rbind (str_at name) (\<lambda>str.
     rbind (copy_into starting_path 6 name (length str)) (\<lambda>path.
     rbind (str_at path) (\<lambda>p.
     rbind (row_args 256 0 0 st) (\<lambda>args. Inr (p, args))))))"

definition left_command :: "parse \<Rightarrow> (u8 list \<times> u8 list list) res" where
  "left_command st =
     rbind (first_argument 0 st) (\<lambda>name.
     rbind (copy_into starting_path 6 name 4) (\<lambda>path.
     rbind (str_at path) (\<lambda>p.
     rbind (row_args 256 0 0 st) (\<lambda>args. Inr (p, args)))))"

definition right_command :: "parse \<Rightarrow> (u8 list \<times> u8 list list) res" where
  "right_command st =
     rbind (first_argument 1 st) (\<lambda>name.
     rbind (copy_into starting_path 6 name 4) (\<lambda>path.
     rbind (str_at path) (\<lambda>p.
     rbind (row_args 3 1 0 (st\<lparr>sh_args := (sh_args st)(1 := (sh_args st 1)(2 := None))\<rparr>)) (\<lambda>args. Inr (p, args)))))"

text \<open>What the children of the shell execute for a line, or the fault they meet, in the order in which \<open>main\<close> runs them.\<close>

definition shell_commands :: "(nat \<Rightarrow> nat \<Rightarrow> nat option) \<Rightarrow> u8 list \<Rightarrow> nat \<Rightarrow> (u8 list \<times> u8 list list) res list res" where
  "shell_commands garbage buf buffer_index =
     rbind (shell_parse garbage buf buffer_index) (\<lambda>st.
     Inr (if 0 < sh_cmd st then [left_command st, right_command st] else [single_command st]))"

section \<open>Scanning words\<close>

definition plain :: "u8 list \<Rightarrow> bool" where
  "plain w \<longleftrightarrow> 0 \<notin> set w \<and> SPACE \<notin> set w \<and> PIPE \<notin> set w"

lemma parse_word:
  "sh_buf st = pre @ w @ post \<Longrightarrow> plain w \<Longrightarrow> length pre + length w \<le> n + 1 \<Longrightarrow> sh_arg st < 254 \<Longrightarrow>
   parse_loop n (length pre) st = parse_loop n (length pre + length w) st"
proof (induction w arbitrary: pre)
  case (Cons c w)
  have c: "sh_buf st ! length pre = c" "length pre < length (sh_buf st)" "c \<noteq> 0" "c \<noteq> SPACE" "c \<noteq> PIPE" "plain w"
    using Cons.prems(1,2) by (auto simp: plain_def)
  have "parse_loop n (length pre) st = parse_loop n (length (pre @ [c])) st"
    using c Cons.prems(3,4) by (subst parse_loop.simps) (simp add: end_argument_def end_command_def MAX_INPUT_LENGTH_def)
  also have "\<dots> = parse_loop n (length (pre @ [c]) + length w) st"
    by (rule Cons.IH) (use Cons.prems c(6) in simp_all)
  finally show ?case by simp
qed simp

text \<open>A word and the space or zero behind it.\<close>

lemma parse_end:
  assumes "sh_buf st = pre @ t # post" "t = 0 \<or> t = SPACE" "length pre \<le> n" "sh_cmd st < 10" "sh_arg st < 253"
  shows "parse_loop n (length pre) st = parse_loop n (length pre + 1)
    (st\<lparr>sh_args := (sh_args st)(sh_cmd st := (sh_args st (sh_cmd st))(sh_arg st := Some (sh_start st))), sh_buf := pre @ 0 # post,
      sh_arg := sh_arg st + 1, sh_start := length pre + 1\<rparr>)"
  using assms
  by (subst parse_loop.simps) (auto simp: end_argument_def end_command_def set_argument_def MAX_INPUT_LENGTH_def PIPE_def)

lemma parse_pipe:
  assumes "sh_buf st = pre @ PIPE # post" "length pre \<le> n" "sh_cmd st < 10" "sh_arg st < 254"
  shows "parse_loop n (length pre) st = parse_loop n (length pre + 2)
    (st\<lparr>sh_args := (sh_args st)(sh_cmd st := (sh_args st (sh_cmd st))(sh_arg st := None)),
      sh_cmd := sh_cmd st + 1, sh_arg := 0, sh_start := sh_start st + 2\<rparr>)"
  using assms
  by (subst parse_loop.simps)
    (simp add: end_argument_def end_command_def set_argument_def MAX_INPUT_LENGTH_def PIPE_def SPACE_def)

text \<open>From entry \<open>a\<close> of row \<open>c\<close> on there are pointers to the words, which end before \<open>N\<close>.\<close>

fun row_ok :: "nat \<Rightarrow> parse \<Rightarrow> nat \<Rightarrow> nat \<Rightarrow> u8 list list \<Rightarrow> bool" where
  "row_ok N st c a [] = True"
| "row_ok N st c a (w # ws) =
     ((\<exists>off. sh_args st c a = Some off \<and> off + length w + 1 \<le> N \<and> take (length w + 1) (drop off (sh_buf st)) = w @ [0]) \<and>
      row_ok N st c (a + 1) ws)"

lemma row_ok_kept:
  "row_ok N st c a ws \<Longrightarrow> take N (sh_buf st') = take N (sh_buf st) \<Longrightarrow> \<forall>k. a \<le> k \<longrightarrow> k < a + length ws \<longrightarrow> sh_args st' c k = sh_args st c k \<Longrightarrow>
   N \<le> N' \<Longrightarrow> row_ok N' st' c a ws"
proof (induction ws arbitrary: a)
  case (Cons w ws)
  obtain off where o: "sh_args st c a = Some off" "off + length w + 1 \<le> N" "take (length w + 1) (drop off (sh_buf st)) = w @ [0]"
    using Cons.prems(1) by auto
  have "take (length w + 1) (drop off (sh_buf st')) = take (length w + 1) (drop off (take N (sh_buf st')))"
    using o(2) by (simp add: drop_take min_def)
  also have "\<dots> = w @ [0]" unfolding Cons.prems(2) using o(2,3) by (simp add: drop_take min_def)
  finally show ?case using Cons o by auto
qed simp

text \<open>Words, each with the character behind it.\<close>

definition flat :: "(u8 list \<times> u8) list \<Rightarrow> u8 list" where
  "flat ps = concat (map (\<lambda>(w, t). w @ [t]) ps)"

lemma flat_simps [simp]: "flat [] = []" "flat ((w, t) # ps) = w @ t # flat ps"
  by (simp_all add: flat_def)

definition zeroed :: "(u8 list \<times> u8) list \<Rightarrow> (u8 list \<times> u8) list" where
  "zeroed ps = map (\<lambda>(w, t). (w, 0)) ps"

lemma zeroed_simps [simp]: "zeroed [] = []" "zeroed ((w, t) # ps) = (w, 0) # zeroed ps" "length (flat (zeroed ps)) = length (flat ps)"
  by (induction ps) (auto simp: zeroed_def)

lemma parse_words:
  "sh_buf st = pre @ flat ps @ post \<Longrightarrow> \<forall>(w, t) \<in> set ps. plain w \<and> (t = 0 \<or> t = SPACE) \<Longrightarrow> length pre + length (flat ps) \<le> n + 1 \<Longrightarrow>
   sh_start st = length pre \<Longrightarrow> sh_cmd st < 10 \<Longrightarrow> sh_arg st + length ps \<le> 253 \<Longrightarrow>
   \<exists>st'. parse_loop n (length pre) st = parse_loop n (length pre + length (flat ps)) st' \<and>
     sh_buf st' = pre @ flat (zeroed ps) @ post \<and> sh_cmd st' = sh_cmd st \<and> sh_arg st' = sh_arg st + length ps \<and>
     sh_start st' = length pre + length (flat ps) \<and> (\<forall>c a. c \<noteq> sh_cmd st \<or> a < sh_arg st \<longrightarrow> sh_args st' c a = sh_args st c a) \<and>
     row_ok (length pre + length (flat ps)) st' (sh_cmd st) (sh_arg st) (map fst ps)"
proof (induction ps arbitrary: pre st)
  case Nil
  then show ?case by auto
next
  case (Cons p ps)
  obtain w t where p: "p = (w, t)" by (cases p)
  have w: "plain w" "t = 0 \<or> t = SPACE" using Cons.prems(2) p by auto
  let ?pre = "pre @ w @ [0]" and ?row = "(sh_args st (sh_cmd st))(sh_arg st := Some (sh_start st))"
  let ?st = "st\<lparr>sh_args := (sh_args st)(sh_cmd st := ?row), sh_buf := ?pre @ flat ps @ post, sh_arg := sh_arg st + 1,
      sh_start := length ?pre\<rparr>"
  have "parse_loop n (length pre) st = parse_loop n (length pre + length w) st"
    by (rule parse_word [where post = "t # flat ps @ post"]) (use Cons.prems p w in simp_all)
  also have "\<dots> = parse_loop n (length (pre @ w)) st" by simp
  also have "\<dots> = parse_loop n (length ?pre) ?st"
    using parse_end [of st "pre @ w" t "flat ps @ post" n] Cons.prems p w(2) by simp
  finally have step: "parse_loop n (length pre) st = parse_loop n (length ?pre) ?st" .
  obtain st' where 1: "parse_loop n (length ?pre) ?st = parse_loop n (length ?pre + length (flat ps)) st'"
    "sh_buf st' = ?pre @ flat (zeroed ps) @ post" "sh_cmd st' = sh_cmd st" "sh_arg st' = sh_arg st + 1 + length ps"
    "sh_start st' = length ?pre + length (flat ps)"
    "\<forall>c a. c \<noteq> sh_cmd st \<or> a < sh_arg st + 1 \<longrightarrow> sh_args st' c a = sh_args ?st c a"
    "row_ok (length ?pre + length (flat ps)) st' (sh_cmd st) (sh_arg st + 1) (map fst ps)"
    using Cons.IH [of ?st ?pre] Cons.prems p by auto
  have "sh_args st' (sh_cmd st) (sh_arg st) = Some (length pre)" using 1(6) Cons.prems(4) by simp
  moreover have "take (length w + 1) (drop (length pre) (sh_buf st')) = w @ [0]" using 1(2) by simp
  ultimately show ?case
    using step 1 p by (intro exI [of _ st']) (auto simp: add.assoc)
qed

section \<open>Scanning commands\<close>

fun join :: "'a list \<Rightarrow> 'a list list \<Rightarrow> 'a list" where
  "join sep [] = []"
| "join sep [w] = w"
| "join sep (w # v # ws) = w @ sep @ join sep (v # ws)"

text \<open>The line that gives these words, with single spaces, and \<open>|\<close> between commands.\<close>

definition line_of :: "u8 list list list \<Rightarrow> u8 list" where
  "line_of cmds = join [SPACE, PIPE, SPACE] (map (join [SPACE]) cmds)"

fun ended :: "u8 \<Rightarrow> u8 list list \<Rightarrow> (u8 list \<times> u8) list" where
  "ended t [] = []"
| "ended t [w] = [(w, t)]"
| "ended t (w # v # ws) = (w, SPACE) # ended t (v # ws)"

lemma flat_ended: "ws \<noteq> [] \<Longrightarrow> flat (ended t ws) = join [SPACE] ws @ [t]"
  by (induction t ws rule: ended.induct) auto

lemma ended_words: "map fst (ended t ws) = ws" "length (ended t ws) = length ws"
  "t = 0 \<or> t = SPACE \<Longrightarrow> \<forall>w \<in> set ws. plain w \<Longrightarrow> \<forall>(w, u) \<in> set (ended t ws). plain w \<and> (u = 0 \<or> u = SPACE)"
  by (induction t ws rule: ended.induct) auto

lemma line_of_simps:
  "line_of [ws] = join [SPACE] ws"
  "cmds \<noteq> [] \<Longrightarrow> line_of (ws # cmds) = join [SPACE] ws @ [SPACE, PIPE, SPACE] @ line_of cmds"
  by (simp_all add: line_of_def) (cases cmds; simp add: line_of_def)

definition command_ok :: "u8 list list \<Rightarrow> bool" where
  "command_ok ws \<longleftrightarrow> ws \<noteq> [] \<and> length ws \<le> 253 \<and> (\<forall>w \<in> set ws. plain w)"

text \<open>The rows from \<open>c\<close> on hold the commands, all but the last of them closed by a null pointer.\<close>

fun rows_ok :: "nat \<Rightarrow> parse \<Rightarrow> nat \<Rightarrow> u8 list list list \<Rightarrow> bool" where
  "rows_ok N st c [] = True"
| "rows_ok N st c (ws # cmds) =
     (row_ok N st c 0 ws \<and> (cmds \<noteq> [] \<longrightarrow> sh_args st c (length ws) = None) \<and> rows_ok N st (c + 1) cmds)"

lemma parse_commands:
  "sh_buf st = pre @ line_of cmds @ [0] @ post \<Longrightarrow> cmds \<noteq> [] \<Longrightarrow> \<forall>ws \<in> set cmds. command_ok ws \<Longrightarrow>
   n = length pre + length (line_of cmds) \<Longrightarrow> sh_start st = length pre \<Longrightarrow> sh_arg st = 0 \<Longrightarrow> sh_cmd st + length cmds \<le> 10 \<Longrightarrow>
   \<exists>st'. parse_loop n (length pre) st = Inr st' \<and> length (sh_buf st') = length (sh_buf st) \<and> take (length pre) (sh_buf st') = pre \<and>
     sh_cmd st' = sh_cmd st + length cmds - 1 \<and> sh_arg st' = length (last cmds) \<and>
     (\<forall>c < sh_cmd st. sh_args st' c = sh_args st c) \<and> rows_ok (n + 1) st' (sh_cmd st) cmds"
proof (induction cmds arbitrary: pre st)
  case (Cons ws cmds)
  have ok: "ws \<noteq> []" "length ws \<le> 253" "\<forall>w \<in> set ws. plain w" using Cons.prems(3) by (auto simp: command_ok_def)
  show ?case
  proof (cases "cmds = []")
    case True
    have n: "n = length pre + length (join [SPACE] ws)" using Cons.prems(4) True by (simp add: line_of_simps)
    have f: "flat (ended 0 ws) = join [SPACE] ws @ [0]" by (rule flat_ended [OF ok(1)])
    obtain st' where 1: "parse_loop n (length pre) st = parse_loop n (n + 1) st'" "sh_buf st' = pre @ flat (zeroed (ended 0 ws)) @ post"
      "sh_cmd st' = sh_cmd st" "sh_arg st' = length ws" "\<forall>c a. c \<noteq> sh_cmd st \<or> a < 0 \<longrightarrow> sh_args st' c a = sh_args st c a"
      "row_ok (n + 1) st' (sh_cmd st) 0 ws"
      using parse_words [of st pre "ended 0 ws" post n] Cons.prems ok(2) ended_words [of 0 ws] ended_words(3) [OF _ ok(3), of 0] True f n
      by (auto simp: line_of_simps)
    have "length (flat (zeroed (ended 0 ws))) = length (join [SPACE] ws) + 1" using f by simp
    moreover have "parse_loop n (n + 1) st' = Inr st'" by (subst parse_loop.simps) simp
    ultimately show ?thesis
      using 1 Cons.prems(1) True by (intro exI [of _ st']) (auto simp: line_of_simps fun_eq_iff)
  next
    case False
    have f: "flat (ended SPACE ws) = join [SPACE] ws @ [SPACE]" by (rule flat_ended [OF ok(1)])
    let ?m = "length pre + length (flat (ended SPACE ws))" and ?post = "[PIPE, SPACE] @ line_of cmds @ [0] @ post"
    have n: "n = ?m + 2 + length (line_of cmds)" using Cons.prems(4) False f by (simp add: line_of_simps)
    obtain st1 where 1: "parse_loop n (length pre) st = parse_loop n ?m st1" "sh_buf st1 = pre @ flat (zeroed (ended SPACE ws)) @ ?post"
      "sh_cmd st1 = sh_cmd st" "sh_arg st1 = length ws" "sh_start st1 = ?m"
      "\<forall>c a. c \<noteq> sh_cmd st \<or> a < 0 \<longrightarrow> sh_args st1 c a = sh_args st c a" "row_ok ?m st1 (sh_cmd st) 0 ws"
      using parse_words [of st pre "ended SPACE ws" ?post n] Cons.prems ok(2) ended_words [of SPACE ws] ended_words(3) [OF _ ok(3), of SPACE] False f n
      by (auto simp: line_of_simps)
    let ?z = "pre @ flat (zeroed (ended SPACE ws))" and ?row = "(sh_args st1 (sh_cmd st))(length ws := None)"
    let ?st2 = "st1\<lparr>sh_args := (sh_args st1)(sh_cmd st := ?row), sh_cmd := sh_cmd st + 1, sh_arg := 0, sh_start := ?m + 2\<rparr>"
    have "parse_loop n (length ?z) st1 = parse_loop n (length ?z + 2) ?st2"
      using parse_pipe [of st1 ?z "SPACE # line_of cmds @ [0] @ post" n] 1(2-5) n ok(2) Cons.prems(7) False
      by simp
    then have step: "parse_loop n ?m st1 = parse_loop n (length (?z @ [PIPE, SPACE])) ?st2" by simp
    obtain st' where 2: "parse_loop n (length (?z @ [PIPE, SPACE])) ?st2 = Inr st'" "length (sh_buf st') = length (sh_buf ?st2)"
      "take (length (?z @ [PIPE, SPACE])) (sh_buf st') = ?z @ [PIPE, SPACE]" "sh_cmd st' = sh_cmd st + 1 + length cmds - 1"
      "sh_arg st' = length (last cmds)" "\<forall>c < sh_cmd st + 1. sh_args st' c = sh_args ?st2 c" "rows_ok (n + 1) st' (sh_cmd st + 1) cmds"
      using Cons.IH [of ?st2 "?z @ [PIPE, SPACE]"] False Cons.prems 1(2) n by auto
    have "take ?m (sh_buf st') = take ?m (take (length (?z @ [PIPE, SPACE])) (sh_buf st'))" by (simp add: min_def)
    then have t: "take ?m (sh_buf st') = ?z" unfolding 2(3) by simp
    have "row_ok (n + 1) st' (sh_cmd st) 0 ws"
      by (rule row_ok_kept [OF 1(7)]) (use t 1(2) 2(6) n in auto)
    moreover have "take (length pre) (sh_buf st') = pre" using arg_cong [OF t, of "take (length pre)"] by simp
    moreover have "length (sh_buf st') = length (sh_buf st)" using 2(2) 1(2) Cons.prems(1) False f by (simp add: line_of_simps)
    ultimately show ?thesis
      using 1 2 step False by (intro exI [of _ st']) (auto simp: fun_eq_iff)
  qed
qed simp

section \<open>What the children execute\<close>

lemma str_at_append: "0 \<notin> set w \<Longrightarrow> str_at (w @ 0 # x) = Inr w"
  by (induction w) auto

lemma str_at_none: "0 \<notin> set w \<Longrightarrow> str_at w = Inl OutOfBounds"
  by (induction w) auto

lemma take_string: "take (length w + 1) b = w @ [0] \<Longrightarrow> b = w @ 0 # drop (length w + 1) b"
  using append_take_drop_id [of "length w + 1" b] by simp

lemma str_at_take: "take (length w + 1) b = w @ [0] \<Longrightarrow> 0 \<notin> set w \<Longrightarrow> str_at b = Inr w"
  by (subst take_string, assumption) (rule str_at_append)

lemma row_args_words:
  "row_ok N st c a ws \<Longrightarrow> \<forall>w \<in> set ws. plain w \<Longrightarrow> sh_args st c (a + length ws) = None \<Longrightarrow> length ws < k \<Longrightarrow> row_args k c a st = Inr ws"
proof (induction ws arbitrary: a k)
  case Nil
  then show ?case by (cases k) auto
next
  case (Cons w ws)
  then obtain j where k: "k = Suc j" by (cases k) auto
  obtain off where o: "sh_args st c a = Some off" "take (length w + 1) (drop off (sh_buf st)) = w @ [0]" using Cons.prems(1) by auto
  have "str_at (drop off (sh_buf st)) = Inr w" by (rule str_at_take [OF o(2)]) (use Cons.prems(2) in \<open>simp add: plain_def\<close>)
  then show ?case using Cons o(1) k by simp
qed

lemma rows_ok_nth:
  "rows_ok N st c cmds \<Longrightarrow> k < length cmds \<Longrightarrow>
   row_ok N st (c + k) 0 (cmds ! k) \<and> (k + 1 < length cmds \<longrightarrow> sh_args st (c + k) (length (cmds ! k)) = None)"
proof (induction cmds arbitrary: c k)
  case (Cons ws cmds)
  then show ?case by (cases k) (use Cons.IH [of "Suc c"] in auto)
qed simp

text \<open>After the line is split, each row of a command is closed.\<close>

lemma shell_parse_rows:
  assumes "cmds \<noteq> []" "\<forall>ws \<in> set cmds. command_ok ws" "length cmds \<le> 10" "buf = line_of cmds @ 0 # post"
  shows "\<exists>st. shell_parse garbage buf (length (line_of cmds)) = Inr st \<and> sh_cmd st = length cmds - 1 \<and> length (sh_buf st) = length buf \<and>
    (\<forall>k < length cmds. row_ok (length (line_of cmds) + 1) st k 0 (cmds ! k) \<and> sh_args st k (length (cmds ! k)) = None)"
proof -
  let ?n = "length (line_of cmds)" and ?st = "\<lparr>sh_buf = buf, sh_args = garbage, sh_cmd = 0, sh_arg = 0, sh_start = 0\<rparr>"
  obtain st where 1: "parse_loop ?n 0 ?st = Inr st" "length (sh_buf st) = length buf" "sh_cmd st = length cmds - 1"
    "sh_arg st = length (last cmds)" "rows_ok (?n + 1) st 0 cmds"
    using parse_commands [of ?st "[]" cmds post ?n] assms by auto
  have len: "length (last cmds) \<le> 253" "length cmds - 1 < 10" using assms(1-3) by (auto simp: command_ok_def)
  let ?st' = "st\<lparr>sh_args := (sh_args st)(sh_cmd st := (sh_args st (sh_cmd st))(sh_arg st := None))\<rparr>"
  have "shell_parse garbage buf ?n = Inr ?st'"
    using 1(1,3,4) len by (simp add: shell_parse_def set_argument_def MAX_INPUT_LENGTH_def)
  moreover have "row_ok (?n + 1) ?st' k 0 (cmds ! k) \<and> sh_args ?st' k (length (cmds ! k)) = None" if k: "k < length cmds" for k
  proof -
    have r: "row_ok (?n + 1) st k 0 (cmds ! k)" "k + 1 < length cmds \<Longrightarrow> sh_args st k (length (cmds ! k)) = None"
      using rows_ok_nth [OF 1(5) k] by auto
    have last: "k = sh_cmd st \<Longrightarrow> cmds ! k = last cmds" using 1(3) assms(1) by (simp add: last_conv_nth)
    have "row_ok (?n + 1) ?st' k 0 (cmds ! k)"
      by (rule row_ok_kept [OF r(1)]) (use 1(4) last in auto)
    moreover have "sh_args ?st' k (length (cmds ! k)) = None"
      using r(2) last 1(3,4) k by (cases "k = sh_cmd st") auto
    ultimately show ?thesis ..
  qed
  ultimately show ?thesis using 1(2,3) by auto
qed

text \<open>The first words: where they are, and the paths made of them.\<close>

lemma first_word:
  assumes "row_ok N st c 0 ws" "command_ok ws"
  shows "\<exists>b. first_argument c st = Inr b \<and> b = hd ws @ 0 # drop (length (hd ws) + 1) b \<and> length (sh_buf st) + length (hd ws) + 1 \<le> length b + N \<and> 0 \<notin> set (hd ws)"
proof -
  obtain w ws' where ws: "ws = w # ws'" using assms(2) by (cases ws) (auto simp: command_ok_def)
  obtain off where o: "sh_args st c 0 = Some off" "off + length w + 1 \<le> N" "take (length w + 1) (drop off (sh_buf st)) = w @ [0]"
    using assms(1) ws by auto
  have "drop off (sh_buf st) = w @ 0 # drop (length w + 1) (drop off (sh_buf st))"
    by (rule take_string [OF o(3)])
  then show ?thesis using o ws assms(2) by (auto simp: first_argument_def command_ok_def plain_def)
qed

lemma sbin_length: "length (map byte ''/sbin/'') = 6" "length starting_path = 256" "0 \<notin> set (map byte ''/sbin/'')"
  by (simp_all add: starting_path_def byte_def)

lemma command_path:
  assumes "length w < 250" "0 \<notin> set w"
  shows "str_at (map byte ''/sbin/'' @ w @ replicate (250 - length w) 0) = Inr (map byte ''/sbin/'' @ w)"
proof -
  have "250 - length w = Suc (249 - length w)" using assms(1) by simp
  then have e: "map byte ''/sbin/'' @ w @ replicate (250 - length w) 0 = (map byte ''/sbin/'' @ w) @ 0 # replicate (249 - length w) 0"
    by (simp only: replicate_Suc append_assoc)
  have "0 \<notin> set (map byte ''/sbin/'' @ w)" using sbin_length(3) assms(2) unfolding set_append by blast
  then show ?thesis unfolding e by (rule str_at_append)
qed

lemma copy_name:
  assumes "n \<le> length b"
  shows "copy_into starting_path 6 b n = (if n \<le> 250 then Inr (map byte ''/sbin/'' @ take n b @ replicate (250 - n) 0) else Inl OutOfBounds)"
proof -
  have cut: "length S = k \<Longrightarrow> take k (S @ R) = S \<and> drop (k + n) (S @ R) = drop n R" for S R :: "u8 list" and k by simp
  have "take 6 starting_path = map byte ''/sbin/''" "drop (6 + n) starting_path = replicate (250 - n) 0"
    using cut [OF sbin_length(1), of "replicate 250 0"] unfolding starting_path_def by (simp_all only: drop_replicate)
  then show ?thesis using assms sbin_length(2) by (simp add: copy_into_def)
qed

text \<open>All of a name, and its first four characters.\<close>

lemma whole_name:
  assumes "b = w @ 0 # x" "0 \<notin> set w"
  shows "rbind (str_at b) (\<lambda>str. rbind (copy_into starting_path 6 b (length str)) str_at) =
    (if length w < 250 then Inr (map byte ''/sbin/'' @ w) else Inl OutOfBounds)"
proof -
  have s: "str_at b = Inr w" using str_at_append [OF assms(2)] assms(1) by simp
  have n: "length w \<le> length b" "take (length w) b = w" using assms(1) by simp_all
  consider "length w < 250" | "length w = 250" | "250 < length w" by linarith
  then show ?thesis
  proof cases
    case 1
    then show ?thesis using s n copy_name [OF n(1)] command_path [OF 1 assms(2)] by simp
  next
    case 2
    have "0 \<notin> set (map byte ''/sbin/'' @ w)" using sbin_length(3) assms(2) unfolding set_append by blast
    then have "str_at (map byte ''/sbin/'' @ w) = Inl OutOfBounds" by (rule str_at_none)
    then show ?thesis using s n copy_name [OF n(1)] 2 by simp
  qed (use s n copy_name [OF n(1)] in simp)
qed

lemma short_name:
  assumes "b = w @ 0 # x" "0 \<notin> set w" "4 \<le> length b"
  shows "rbind (copy_into starting_path 6 b 4) str_at = Inr (map byte ''/sbin/'' @ take 4 w)"
proof (cases "4 \<le> length w")
  case True
  then have "take 4 b = take 4 w" using assms(1) by simp
  moreover have "0 \<notin> set (take 4 w)" using assms(2) in_set_takeD by fast
  ultimately show ?thesis using copy_name [OF assms(3)] command_path [of "take 4 w"] True by simp
next
  case False
  have t: "take 4 b = w @ 0 # take (3 - length w) x" using assms(1) False by (simp add: take_Cons')
  have "0 \<notin> set (map byte ''/sbin/'' @ w)" using sbin_length(3) assms(2) unfolding set_append by blast
  from str_at_append [OF this] have "str_at ((map byte ''/sbin/'' @ w) @ 0 # take (3 - length w) x @ replicate 246 0) = Inr (map byte ''/sbin/'' @ w)" .
  then show ?thesis using copy_name [OF assms(3)] t False by simp
qed

lemma row_ok_take: "row_ok N st c a ws \<Longrightarrow> row_ok N st c a (take k ws)"
  by (induction ws arbitrary: a k) (auto simp: take_Cons')

lemma two_args:
  assumes "row_ok N st c 0 ws" "\<forall>w \<in> set ws. plain w" "sh_args st c (length ws) = None"
  shows "row_args 3 c 0 (st\<lparr>sh_args := (sh_args st)(c := (sh_args st c)(2 := None))\<rparr>) = Inr (take 2 ws)"
proof (rule row_args_words)
  let ?st = "st\<lparr>sh_args := (sh_args st)(c := (sh_args st c)(2 := None))\<rparr>"
  show "row_ok N ?st c 0 (take 2 ws)"
    by (rule row_ok_kept [OF row_ok_take [OF assms(1)]]) auto
  show "\<forall>w \<in> set (take 2 ws). plain w" using assms(2) in_set_takeD by fast
  show "sh_args ?st c (0 + length (take 2 ws)) = None" using assms(3) by (cases "length ws < 2") simp_all
qed simp

lemma child_commands:
  assumes "row_ok N st 0 0 l" "sh_args st 0 (length l) = None" "command_ok l" "length (sh_buf st) = 256" "N \<le> 253"
  shows "single_command st = (if length (hd l) < 250 then Inr (map byte ''/sbin/'' @ hd l, l) else Inl OutOfBounds)"
    and "left_command st = Inr (map byte ''/sbin/'' @ take 4 (hd l), l)"
    and "row_ok N st 1 0 r \<Longrightarrow> sh_args st 1 (length r) = None \<Longrightarrow> command_ok r \<Longrightarrow>
      right_command st = Inr (map byte ''/sbin/'' @ take 4 (hd r), take 2 r)"
proof -
  obtain b where b: "first_argument 0 st = Inr b" "b = hd l @ 0 # drop (length (hd l) + 1) b" "4 \<le> length b" "0 \<notin> set (hd l)"
    using first_word [OF assms(1,3)] assms(4,5) by fastforce
  have a: "row_args 256 0 0 st = Inr l"
    by (rule row_args_words [OF assms(1)]) (use assms(2,3) in \<open>auto simp: command_ok_def\<close>)
  have "single_command st = rbind (rbind (str_at b) (\<lambda>str. rbind (copy_into starting_path 6 b (length str)) str_at)) (\<lambda>p. Inr (p, l))"
    by (simp add: single_command_def b(1) a rbind_assoc)
  then show "single_command st = (if length (hd l) < 250 then Inr (map byte ''/sbin/'' @ hd l, l) else Inl OutOfBounds)"
    unfolding whole_name [OF b(2,4)] by simp
  have "left_command st = rbind (rbind (copy_into starting_path 6 b 4) str_at) (\<lambda>p. Inr (p, l))"
    by (simp add: left_command_def b(1) a rbind_assoc)
  then show "left_command st = Inr (map byte ''/sbin/'' @ take 4 (hd l), l)"
    unfolding short_name [OF b(2,4,3)] by simp
  assume r: "row_ok N st 1 0 r" "sh_args st 1 (length r) = None" "command_ok r"
  obtain d where d: "first_argument 1 st = Inr d" "d = hd r @ 0 # drop (length (hd r) + 1) d" "4 \<le> length d" "0 \<notin> set (hd r)"
    using first_word [OF r(1,3)] assms(4,5) by fastforce
  have "right_command st = rbind (rbind (copy_into starting_path 6 d 4) str_at) (\<lambda>p. Inr (p, take 2 r))"
    using two_args [OF r(1) _ r(2)] r(3) by (simp add: right_command_def d(1) [unfolded One_nat_def] rbind_assoc command_ok_def)
  then show "right_command st = Inr (map byte ''/sbin/'' @ take 4 (hd r), take 2 r)"
    unfolding short_name [OF d(2,4,3)] by simp
qed

section \<open>Properties\<close>

text \<open>
  C10. What the shell runs for a line of at most 252 characters: with single spaces between words and
  \<open>|\<close> with spaces between at most ten commands. One command is executed with exactly its words as
  arguments and the path /sbin/ followed by the first word, which overruns the array of the path
  when it has 250 characters or more. Of a pipeline only the first two commands run, with paths
  made of the first four characters of their names, and the second gets two arguments at most.
\<close>

theorem shell_runs_line:
  assumes "cmds \<noteq> []" "\<forall>ws \<in> set cmds. command_ok ws" "length cmds \<le> 10"
    and "buf = line_of cmds @ 0 # post" "length buf = 256" "length (line_of cmds) \<le> 252"
  shows "shell_commands garbage buf (length (line_of cmds)) = Inr
    (case cmds of
       [ws] \<Rightarrow> [if length (hd ws) < 250 then Inr (map byte ''/sbin/'' @ hd ws, ws) else Inl OutOfBounds]
     | l # r # _ \<Rightarrow> [Inr (map byte ''/sbin/'' @ take 4 (hd l), l), Inr (map byte ''/sbin/'' @ take 4 (hd r), take 2 r)])"
proof -
  obtain st where st: "shell_parse garbage buf (length (line_of cmds)) = Inr st" "sh_cmd st = length cmds - 1" "length (sh_buf st) = 256"
    and rows: "\<forall>k < length cmds. row_ok (length (line_of cmds) + 1) st k 0 (cmds ! k) \<and> sh_args st k (length (cmds ! k)) = None"
    using shell_parse_rows [OF assms(1-4), of garbage] assms(5) by metis
  have N: "length (line_of cmds) + 1 \<le> 253" using assms(6) by simp
  note run = shell_commands_def [of garbage buf "length (line_of cmds)"]
  obtain l more where c: "cmds = l # more" using assms(1) by (cases cmds) auto
  have l: "row_ok (length (line_of cmds) + 1) st 0 0 l" "sh_args st 0 (length l) = None" "command_ok l"
    using rows [rule_format, of 0] assms(2) c by auto
  note child = child_commands [OF l st(3) N]
  show ?thesis
  proof (cases more)
    case Nil
    then show ?thesis unfolding run st(1) rbind_simps using child(1) st(2) c by simp
  next
    case (Cons r rest)
    have r: "row_ok (length (line_of cmds) + 1) st 1 0 r" "sh_args st 1 (length r) = None" "command_ok r"
      using rows [rule_format, of 1] assms(2) c Cons by auto
    then show ?thesis unfolding run st(1) rbind_simps using child(2) child(3) [OF r] st(2) c Cons by simp
  qed
qed

text \<open>\<open>clear x | grep a b | ls\<close> runs /sbin/clea and /sbin/grep, the latter without \<open>b\<close>.\<close>

theorem shell_runs_line_witness:
  "\<exists>post. shell_commands (\<lambda>c a. Some 9) (map byte ''clear x | grep a b | ls'' @ 0 # post) 23 = Inr
     [Inr (map byte ''/sbin/clea'', [map byte ''clear'', map byte ''x'']),
      Inr (map byte ''/sbin/grep'', [map byte ''grep'', map byte ''a''])]"
proof -
  let ?cmds = "[[map byte ''clear'', map byte ''x''], [map byte ''grep'', map byte ''a'', map byte ''b''], [map byte ''ls'']]"
  have line: "line_of ?cmds = map byte ''clear x | grep a b | ls''"
    by (simp add: line_of_def SPACE_def PIPE_def byte_def)
  have ok: "\<forall>ws \<in> set ?cmds. command_ok ws"
    by (simp add: command_ok_def plain_def SPACE_def PIPE_def byte_def)
  have len: "length (line_of ?cmds) = 23" unfolding line by simp
  then show ?thesis
    using shell_runs_line [OF _ ok _ refl, of "replicate 232 0" "\<lambda>c a. Some 9"] unfolding len unfolding line
    by (intro exI [of _ "replicate 232 0"]) (simp add: byte_def)
qed

end
