(* ===== verification/User_Commands.thy ===== *)
theory User_Commands
  imports User_Input
begin

text \<open>
  The programs of \<open>sbin\<close>: \<open>cat\<close>, \<open>echo\<close>, \<open>grep\<close>, \<open>ls\<close>, \<open>pwd\<close>, \<open>cd\<close>, \<open>exit\<close>, \<open>clear\<close> and \<open>shell\<close>. Arguments are in
  memory, where \<open>execl\<close> has put them; the locals \<open>t\<close>, \<open>c\<close> and \<open>buf\<close> of the library and the literal that \<open>pwd\<close>
  overwrites are at addresses given to the model.
\<close>

section \<open>Arguments\<close>

definition argv_at :: "u32 \<Rightarrow> nat \<Rightarrow> sys \<Rightarrow> u32" where
  "argv_at argv i s = load32 (s_mem s) (argv + 4 * of_nat i)"

definition text_at :: "kernel_env \<Rightarrow> u32 \<Rightarrow> sys \<Rightarrow> string res" where
  "text_at env p s = rbind (c_string (env_fuel env) (s_mem s) p) (\<lambda>cs. Inr (map chr cs))"

text \<open>\<open>printf\<close> with one argument, the string at \<open>p\<close>.\<close>

definition print_str :: "'d fpu \<Rightarrow> kernel_env \<Rightarrow> u32 \<Rightarrow> string \<Rightarrow> u32 \<Rightarrow> sys \<Rightarrow> u32 run" where
  "print_str F env t fmt p s = run_bind (lift_res (text_at env p s) s) (\<lambda>v s. printf F t fmt [VStr v] s)"

section \<open>Files\<close>

fun cat_loop :: "'d fpu \<Rightarrow> kernel_env \<Rightarrow> u32 \<Rightarrow> u32 \<Rightarrow> u32 \<Rightarrow> nat \<Rightarrow> nat \<Rightarrow> sys \<Rightarrow> unit run" where
  "cat_loop F env t buf argv i 0 s = done_with () s"
| "cat_loop F env t buf argv i (Suc k) s =
     run_bind (call (sys_open env (argv_at argv i s) s)) (\<lambda>fd s.
     run_bind
       (if fd = -1 then print_str F env t (''cat: %s: No such file or directory'' @ [NL]) (argv_at argv i s) s
        else run_bind (cp F t buf fd 1 s) (\<lambda>_ s. printf F t [NL] [] s))
       (\<lambda>_ s. cat_loop F env t buf argv (i + 1) k s))"

definition cat :: "'d fpu \<Rightarrow> kernel_env \<Rightarrow> u32 \<Rightarrow> u32 \<Rightarrow> u32 \<Rightarrow> u32 \<Rightarrow> sys \<Rightarrow> unit run" where
  "cat F env t buf argc argv s = cat_loop F env t buf argv 1 (nat (sint argc - 1)) s"

text \<open>
  \<open>grep\<close>: \<open>c\<close> is the local of \<open>fgets\<close>. A line is searched and printed up to its first zero.
\<close>

partial_function (option) grep_loop :: "'d fpu \<Rightarrow> kernel_env \<Rightarrow> u32 \<Rightarrow> u32 \<Rightarrow> u32 \<Rightarrow> u32 \<Rightarrow> sys \<Rightarrow> unit run" where
  "grep_loop F env t c pattern fd s =
     run_bind (fgets c 1024 fd s) (\<lambda>got s.
       case got of
         None \<Rightarrow> done_with () s
       | Some line \<Rightarrow>
           run_bind (lift_res (rbind (c_string (env_fuel env) (s_mem s) pattern) (\<lambda>p. strstr (line @ [0]) (p @ [0]))) s)
             (\<lambda>found s.
               if found \<noteq> None then
                 run_bind (printf F t ''%s'' [VStr (shown (line @ [0]))] s) (\<lambda>_ s. grep_loop F env t c pattern fd s)
               else grep_loop F env t c pattern fd s))"

definition grep :: "'d fpu \<Rightarrow> kernel_env \<Rightarrow> u32 \<Rightarrow> u32 \<Rightarrow> u32 \<Rightarrow> sys \<Rightarrow> unit run" where
  "grep F env t c argv s =
     (let pattern = argv_at argv 1 s; filename = argv_at argv 2 s in
      if filename \<noteq> 0 then
        run_bind (call (sys_open env filename s)) (\<lambda>fd s.
        run_bind
          (if fd = -1 then print_str F env t (''cat: %s: No such file or directory'' @ [NL]) filename s else done_with 0 s)
          (\<lambda>_ s. grep_loop F env t c pattern fd s))
      else grep_loop F env t c pattern 0 s)"

text \<open>\<open>ls\<close>: the loop over the block that \<open>readdir\<close> gave.\<close>

partial_function (option) ls_loop :: "'d fpu \<Rightarrow> u32 \<Rightarrow> u8 list \<Rightarrow> nat \<Rightarrow> nat \<Rightarrow> sys \<Rightarrow> unit run" where
  "ls_loop F t b off rec_len s =
     (if off \<le> 1023 then
        run_bind (lift_res (entry_at b (off + rec_len)) s) (\<lambda>entry s.
        run_bind
          (if take 1 (snd entry) \<noteq> [46] then printf F t (''%s'' @ [TABC]) [VStr (shown (snd entry))] s
           else done_with 0 s)
          (\<lambda>_ s. ls_loop F t b (off + rec_len) (fst entry) s))
      else done_with () s)"

definition ls :: "'d fpu \<Rightarrow> kernel_env \<Rightarrow> user_locals \<Rightarrow> sys \<Rightarrow> u32 run" where
  "ls F env L s =
     run_bind (call (sys_pwd env (l_path L) s)) (\<lambda>stat s.
     if stat = -1 then done_with 1 s
     else run_bind (call (sys_open env (l_path L) s)) (\<lambda>fd s.
       if sint fd < 0 then
         run_bind (print_str F env (l_t L) (''ls: cannot access '' @ [CHR 0x27] @ ''%s'' @ [CHR 0x27] @
           '': No such file or directory'' @ [NL]) (l_path L) s) (\<lambda>_ s. done_with 1 s)
       else
         run_bind (call (sys_readdir fd (l_dir L) 0 s)) (\<lambda>_ s.
         run_bind (ls_loop F (l_t L) (read_bytes (s_mem s) (l_dir L) 1024) 0 0 s) (\<lambda>_ s.
         run_bind (printf F (l_t L) [NL] [] s) (\<lambda>_ s. done_with 0 s)))))"

section \<open>The other commands\<close>

partial_function (option) echo_loop :: "'d fpu \<Rightarrow> kernel_env \<Rightarrow> u32 \<Rightarrow> u32 \<Rightarrow> nat \<Rightarrow> sys \<Rightarrow> unit run" where
  "echo_loop F env t argv i s =
     (if argv_at argv i s \<noteq> 0 then
        run_bind (print_str F env t ''%s '' (argv_at argv i s) s) (\<lambda>_ s. echo_loop F env t argv (i + 1) s)
      else run_bind (printf F t [NL] [] s) (\<lambda>_ s. done_with () s))"

definition echo :: "'d fpu \<Rightarrow> kernel_env \<Rightarrow> u32 \<Rightarrow> u32 \<Rightarrow> sys \<Rightarrow> unit run" where
  "echo F env t argv s = echo_loop F env t argv 1 s"

definition pwd_main :: "'d fpu \<Rightarrow> kernel_env \<Rightarrow> u32 \<Rightarrow> u32 \<Rightarrow> sys \<Rightarrow> u32 run" where
  "pwd_main F env t path s =
     run_bind (call (sys_pwd env path s)) (\<lambda>_ s.
     run_bind (print_str F env t (''%s'' @ [NL]) path s) (\<lambda>_ s. done_with 0 s))"

definition cd_main :: "'d fpu \<Rightarrow> kernel_env \<Rightarrow> u32 \<Rightarrow> u32 \<Rightarrow> sys \<Rightarrow> u32 run" where
  "cd_main F env t argv s =
     (let p = argv_at argv 1 s in
      run_bind (call (sys_cd env p 0 s)) (\<lambda>_ s.
      run_bind (call (sys_open env p s)) (\<lambda>fd s.
      run_bind
        (if fd = -1 then print_str F env t (''cd: %s: No such file or directory'' @ [NL]) p s
         else call (sys_cd env p 1 s))
        (\<lambda>_ s. done_with 0 s))))"

definition exit_main :: "'d fpu \<Rightarrow> u32 \<Rightarrow> sys \<Rightarrow> u32 run" where
  "exit_main F t s =
     run_bind (printf F t (''Exiting the kernel.'' @ [NL]) [] s) (\<lambda>_ s. call (Inr Shutdown))"

definition clear_main :: "'d fpu \<Rightarrow> u32 \<Rightarrow> sys \<Rightarrow> u32 run" where
  "clear_main F t s = printf F t ([CHR 0x1B] @ ''[2J'' @ [CHR 0x1B] @ ''[H'') [] s"

fun shell_args :: "'d fpu \<Rightarrow> kernel_env \<Rightarrow> u32 \<Rightarrow> u32 \<Rightarrow> nat \<Rightarrow> nat \<Rightarrow> sys \<Rightarrow> unit run" where
  "shell_args F env t argv i 0 s = done_with () s"
| "shell_args F env t argv i (Suc k) s =
     run_bind (lift_res (text_at env (argv_at argv i s) s) s) (\<lambda>v s.
     run_bind (printf F t (''*** argv[%d]=%s'' @ [NL]) [VInt (of_nat i), VStr v] s) (\<lambda>_ s.
     shell_args F env t argv (i + 1) k s))"

definition shell_main :: "'d fpu \<Rightarrow> kernel_env \<Rightarrow> u32 \<Rightarrow> u32 \<Rightarrow> u32 \<Rightarrow> u32 \<Rightarrow> sys \<Rightarrow> u32 run" where
  "shell_main F env t buf argc argv s =
     run_bind (printf F t (''*** argc = %d'' @ [NL]) [VInt argc] s) (\<lambda>_ s.
     run_bind (shell_args F env t argv 0 (nat (sint argc)) s) (\<lambda>_ s.
     run_bind (cp F t buf 3 1 s) (\<lambda>_ s. done_with 666 s)))"

section \<open>Opening a file\<close>

definition lookup_path :: "kernel_env \<Rightarrow> u8 list \<Rightarrow> ext2_node option res" where
  "lookup_path env p =
     rbind (ext2_find (env_fuel env) (env_fs env) (Some (env_root env)) (p @ [0])) (\<lambda>found.
       if found = None \<or> p = [] then Inr None else follow_links (env_fuel env) env found)"

lemma sys_open_lookup:
  "c_string (env_fuel env) (s_mem s) path = Inr p \<Longrightarrow> lookup_path env p = Inr None \<Longrightarrow> sys_open env path s = Inr (Return (-1) s)"
  "c_string (env_fuel env) (s_mem s) path = Inr p \<Longrightarrow> lookup_path env p = Inr (Some node) \<Longrightarrow>
     sys_open env path s = (let (r, s') = open_object (ActualFile (Some node) 0) s in Inr (Return r s'))"
  by (auto simp: sys_open_def lookup_path_def rbind_Inr_conv split: if_splits)

text \<open>The descriptors of a process: their objects are numbered below the next number.\<close>

definition files_ok :: "sys \<Rightarrow> bool" where
  "files_ok s \<longleftrightarrow> length (p_files (s_proc s)) = 10 \<and> (\<forall>h. Some h \<in> set (p_files (s_proc s)) \<longrightarrow> h < s_next s)"

definition free_files :: "sys \<Rightarrow> nat" where
  "free_files s = count_list (p_files (s_proc s)) None"

lemma free_slot_first: "free_slot j xs = None \<longleftrightarrow> count_list xs None = 0"
  by (induction j xs rule: free_slot.induct) auto

lemma count_list_update: "i < length xs \<Longrightarrow> xs ! i = x \<Longrightarrow> y \<noteq> x \<Longrightarrow> count_list (xs[i := y]) x = count_list xs x - 1"
proof (induction xs arbitrary: i)
  case (Cons a xs)
  show ?case
  proof (cases i)
    case (Suc k)
    then have "x \<in> set xs" using Cons.prems by auto
    then have "0 < count_list xs x" by (simp add: count_list_0_iff neq0_conv [symmetric])
    then show ?thesis using Cons Suc by auto
  qed (use Cons.prems in auto)
qed simp

lemma open_object_full: "free_files s = 0 \<Longrightarrow> \<exists>s'. open_object f s = (-1, s') \<and> s_proc s' = s_proc s \<and> s_io s' = s_io s \<and>
    s_next s' = s_next s + 1 \<and> (\<forall>h. h \<noteq> s_next s \<longrightarrow> s_objects s' h = s_objects s h)"
  using free_slot_first [of 0 "p_files (s_proc s)"] by (simp add: open_object_def setFile_def free_files_def)

lemma getFile_small: "i < 10 \<Longrightarrow> getFile (of_nat i) p = p_files p ! i"
  by (cases rule: ten_cases, assumption) (auto simp: getFile_def index_cases sint_u32)

lemma open_object_free:
  assumes "files_ok s" "0 < free_files s"
  shows "\<exists>fd s'. open_object f s = (fd, s') \<and> unat fd < 10 \<and> getFile fd (s_proc s) = None \<and> getFile fd (s_proc s') = Some (s_next s) \<and>
    s_objects s' = (s_objects s)(s_next s := f) \<and> files_ok s' \<and> free_files s' = free_files s - 1 \<and> s_io s' = s_io s \<and>
    (\<forall>k h. getFile k (s_proc s) = Some h \<longrightarrow> getFile k (s_proc s') = Some h)"
proof -
  obtain i where i: "free_slot 0 (p_files (s_proc s)) = Some i"
    using assms(2) free_slot_first [of 0 "p_files (s_proc s)"] by (cases "free_slot 0 (p_files (s_proc s))") (auto simp: free_files_def)
  have b: "i < 10" "p_files (s_proc s) ! i = None" "length (p_files (s_proc s)) = 10"
    using free_slot_cases(1) [OF i] assms(1) by (auto simp: files_ok_def)
  let ?s' = "s\<lparr>s_proc := (s_proc s)\<lparr>p_files := (p_files (s_proc s))[i := Some (s_next s)]\<rparr>, s_next := s_next s + 1,
      s_objects := (s_objects s)(s_next s := f)\<rparr>"
  have u: "unat (of_nat i :: u32) = i" using b(1) by (simp add: unat_of_nat take_bit_nat_eq_self)
  have "open_object f s = (of_nat i, ?s')" using i by (simp add: open_object_def setFile_def)
  moreover have "getFile k (s_proc ?s') = Some h" if "getFile k (s_proc s) = Some h" for k h
  proof -
    have k: "uint k < 10" using that by (auto simp: getFile_def index_cases split: if_splits)
    then have "k = of_nat (unat k)" "unat k < 10" by (simp_all add: nat_less_iff flip: nat_uint_eq)
    then show ?thesis using that b getFile_small [of "unat k"] by (cases "unat k = i") simp_all
  qed
  moreover have "files_ok ?s'" using assms(1) set_update_subset_insert [of "p_files (s_proc s)" i "Some (s_next s)"]
    by (fastforce simp: files_ok_def less_Suc_eq)
  moreover have "free_files ?s' = free_files s - 1" using b count_list_update [of i "p_files (s_proc s)" None] by (simp add: free_files_def)
  moreover have "getFile (of_nat i) (s_proc s) = None" "getFile (of_nat i) (s_proc ?s') = Some (s_next s)"
    using getFile_small [OF b(1)] b by simp_all
  ultimately show ?thesis using u b(1) by auto
qed

section \<open>cat\<close>

text \<open>What \<open>cat\<close> prints for names that open to given bytes, or not, when so many descriptors are free.\<close>

fun cat_text :: "nat \<Rightarrow> (u8 list \<times> u8 list option) list \<Rightarrow> u8 list" where
  "cat_text free [] = []"
| "cat_text free ((name, None) # xs) = map byte ''cat: '' @ name @ map byte (CHR '':'' # '' No such file or directory'' @ [NL]) @ cat_text free xs"
| "cat_text 0 ((name, Some bs) # xs) = map byte ''cat: '' @ name @ map byte (CHR '':'' # '' No such file or directory'' @ [NL]) @ cat_text 0 xs"
| "cat_text (Suc free) ((name, Some bs) # xs) = bs @ [10] @ cat_text free xs"

definition opens_to :: "kernel_env \<Rightarrow> u8 list \<Rightarrow> u8 list option \<Rightarrow> bool" where
  "opens_to env name content \<longleftrightarrow>
     (case content of
        None \<Rightarrow> lookup_path env name = Inr None
      | Some bs \<Rightarrow> \<exists>img node. lookup_path env name = Inr (Some node) \<and> node_ok (img, node) \<and> bs = rest_of img node 0)"

text \<open>The arguments are in memory, and stay there when the bytes at \<open>A\<close> change.\<close>

definition kept :: "u32 set \<Rightarrow> memory \<Rightarrow> memory \<Rightarrow> bool" where
  "kept A m m' \<longleftrightarrow> (\<forall>x. x \<notin> A \<longrightarrow> m' x = m x)"

definition args_in :: "kernel_env \<Rightarrow> u32 set \<Rightarrow> memory \<Rightarrow> u32 \<Rightarrow> u8 list list \<Rightarrow> bool" where
  "args_in env A m argv names \<longleftrightarrow>
     (\<forall>m'. kept A m m' \<longrightarrow>
        (\<forall>j < length names. load32 m' (argv + 4 * of_nat j) = load32 m (argv + 4 * of_nat j) \<and>
           c_string (env_fuel env) m' (load32 m (argv + 4 * of_nat j)) = Inr (names ! j)))"

lemma kept_refl [simp]: "kept A m m"
  by (simp add: kept_def)

lemma kept_trans: "kept A m m1 \<Longrightarrow> kept A m1 m2 \<Longrightarrow> kept A m m2"
  by (simp add: kept_def)

lemma alike_kept: "alike A H s s' \<Longrightarrow> A \<subseteq> B \<Longrightarrow> kept B (s_mem s) (s_mem s')"
  by (auto simp: alike_def kept_def)

lemma args_inD:
  assumes "args_in env A m argv names" "kept A m m'" "j < length names"
  shows "load32 m' (argv + 4 * of_nat j) = load32 m (argv + 4 * of_nat j)"
    and "c_string (env_fuel env) m' (load32 m (argv + 4 * of_nat j)) = Inr (names ! j)"
  using assms unfolding args_in_def by blast+

lemma args_in_kept:
  assumes "args_in env A m argv names" "kept A m m1"
  shows "args_in env A m1 argv names"
  unfolding args_in_def
proof (intro allI impI)
  fix m' j
  assume "kept A m1 m'" and j: "j < length names"
  then have k: "kept A m m'" using kept_trans [OF assms(2)] by blast
  show "load32 m' (argv + 4 * of_nat j) = load32 m1 (argv + 4 * of_nat j) \<and>
      c_string (env_fuel env) m' (load32 m1 (argv + 4 * of_nat j)) = Inr (names ! j)"
    unfolding args_inD [OF assms(1) k j] args_inD(1) [OF assms j] by simp
qed

lemma args_in_string:
  "args_in env A (s_mem s) argv names \<Longrightarrow> kept A (s_mem s) m' \<Longrightarrow> j < length names \<Longrightarrow>
   c_string (env_fuel env) m' (argv_at argv j s) = Inr (names ! j)"
  unfolding argv_at_def by (rule args_inD(2))

lemma alike_files: "alike A H s s' \<Longrightarrow> files_ok s' = files_ok s \<and> free_files s' = free_files s"
  by (simp add: alike_def files_ok_def free_files_def)

lemma complaint_render:
  "render (''cat: %s: No such file or directory'' @ [NL]) [VStr str] = Some (''cat: '' @ str @ '': No such file or directory'' @ [NL])"
  by (simp add: NUL_def NL_def)

lemma complain_console:
  assumes "console_at 1 s" "\<not> bad_buffer t" "c_string (env_fuel env) (s_mem s) p = Inr name" "length name \<le> 900"
  shows "\<exists>s'. print_str F env t (''cat: %s: No such file or directory'' @ [NL]) p s = Some (Inr (1, s')) \<and> alike {t} {} s s' \<and>
    printed s' = printed s @ map byte ''cat: '' @ name @ map byte (CHR '':'' # '' No such file or directory'' @ [NL])"
proof -
  have "length (''cat: '' @ map chr name @ '': No such file or directory'' @ [NL]) \<le> 1000" using assms(4) by simp
  from printf_console [OF assms(1,2) complaint_render this, of F] show ?thesis
    using assms(3) by (auto simp: print_str_def text_at_def lift_res_def)
qed

lemma console_kept:
  "console_at 1 s \<Longrightarrow> alike A {h} s s' \<Longrightarrow> s_objects s h \<noteq> U8250File \<Longrightarrow> console_at 1 s'"
  using console_alike [of 1 s A "{h}" s'] by simp

lemma open_console:
  assumes "console_at 1 s" "files_ok s" "\<forall>k h. getFile k (s_proc s) = Some h \<longrightarrow> getFile k (s_proc s') = Some h"
    and "\<forall>h. h \<noteq> s_next s \<longrightarrow> s_objects s' h = s_objects s h"
  shows "console_at 1 s'"
proof -
  obtain h where h: "getFile 1 (s_proc s) = Some h" "s_objects s h = U8250File" using assms(1) by (auto simp: console_at_def)
  have "getFile 1 (s_proc s) = p_files (s_proc s) ! 1" using getFile_small [of 1] by simp
  then have "Some h \<in> set (p_files (s_proc s))" using h(1) assms(2) by (metis files_ok_def nth_mem one_less_numeral_iff semiring_norm(76))
  then have "h < s_next s" using assms(2) by (simp add: files_ok_def)
  then show ?thesis using h assms(3,4) by (auto simp: console_at_def)
qed

lemma nl_console:
  assumes "console_at 1 s" "\<not> bad_buffer t"
  shows "\<exists>s'. printf F t [NL] [] s = Some (Inr (1, s')) \<and> alike {t} {} s s' \<and> printed s' = printed s @ [10]"
  using printf_console [OF assms, of "[NL]" "[]" "[NL]" F] by (auto simp: NL_def NUL_def byte_def)

lemma minus_one: "unat (-1 :: u32) = 0xFFFFFFFF" "uint (-1 :: u32) = 0xFFFFFFFF"
  by (simp_all add: unsigned_minus_1_eq_mask mask_eq_exp_minus_1)

lemma open_reads:
  assumes con: "console_at 1 s" and f: "files_ok s" "0 < free_files s"
    and str: "c_string (env_fuel env) (s_mem s) p = Inr name" "opens_to env name (Some bs)"
  shows "\<exists>img node fd s1. call (sys_open env p s) = Some (Inr (fd, s1)) \<and> fd \<noteq> 1 \<and> fd \<noteq> -1 \<and>
    reads_file img node fd (s_next s) 0 s1 \<and> bs = rest_of img node 0 \<and> console_at 1 s1 \<and> files_ok s1 \<and>
    free_files s1 = free_files s - 1 \<and> s_io s1 = s_io s"
proof -
  obtain img node where n: "lookup_path env name = Inr (Some node)" "node_ok (img, node)" "bs = rest_of img node 0"
    using str(2) by (auto simp: opens_to_def)
  obtain fd s1 where o: "open_object (ActualFile (Some node) 0) s = (fd, s1)" "unat fd < 10" "getFile fd (s_proc s) = None"
    "getFile fd (s_proc s1) = Some (s_next s)" "s_objects s1 = (s_objects s)(s_next s := ActualFile (Some node) 0)" "files_ok s1"
    "free_files s1 = free_files s - 1" "s_io s1 = s_io s"
    "\<forall>k h. getFile k (s_proc s) = Some h \<longrightarrow> getFile k (s_proc s1) = Some h"
    using open_object_free [OF f] by blast
  have "console_at 1 s1" by (rule open_console [OF con f(1) o(9)]) (simp add: o(5))
  moreover have "reads_file img node fd (s_next s) 0 s1" using n(2) o(4,5) by (simp add: reads_file_def)
  moreover have "fd \<noteq> 1" "fd \<noteq> -1" using o(2,3) con minus_one(1) unfolding console_at_def by force+
  moreover have "call (sys_open env p s) = Some (Inr (fd, s1))" using sys_open_lookup(2) [OF str(1) n(1)] o(1) by simp
  ultimately show ?thesis using n(3) o(6-8) by blast
qed

lemma cat_one_file:
  assumes con: "console_at 1 s" and f: "files_ok s" "0 < free_files s" and t: "\<not> bad_buffer t" and buf: "good_buffer buf 100"
    and str: "c_string (env_fuel env) (s_mem s) p = Inr name" "opens_to env name (Some bs)"
  shows "\<exists>fd s1 s2. call (sys_open env p s) = Some (Inr (fd, s1)) \<and> fd \<noteq> -1 \<and>
    run_bind (cp F t buf fd 1 s1) (\<lambda>_ s. printf F t [NL] [] s) = Some (Inr (1, s2)) \<and> console_at 1 s2 \<and> files_ok s2 \<and>
    free_files s2 = free_files s - 1 \<and> kept (insert t {x. unat (x - buf) < 100}) (s_mem s) (s_mem s2) \<and> printed s2 = printed s @ bs @ [10]"
proof -
  obtain img node fd s1 where o: "call (sys_open env p s) = Some (Inr (fd, s1))" "fd \<noteq> 1" "fd \<noteq> -1"
    "reads_file img node fd (s_next s) 0 s1" "bs = rest_of img node 0" "console_at 1 s1" "files_ok s1"
    "free_files s1 = free_files s - 1" "s_io s1 = s_io s"
    using open_reads [OF con f str] by blast
  obtain s2 where 2: "cp F t buf fd 1 s1 = Some (Inr ((), s2))" "printed s2 = printed s1 @ bs"
    "alike {x. unat (x - buf) < 100} {s_next s} s1 s2"
    using cp_console [OF o(4,2,6) buf, of F t] o(5) by (auto simp: rest_of_def)
  have con2: "console_at 1 s2" by (rule console_kept [OF o(6) 2(3)]) (use o(4) in \<open>simp add: reads_file_def\<close>)
  obtain s3 where 3: "printf F t [NL] [] s2 = Some (Inr (1, s3))" "alike {t} {} s2 s3" "printed s3 = printed s2 @ [10]"
    using nl_console [OF con2 t] by blast
  have "console_at 1 s3" using console_alike [OF con2 3(2)] by simp
  moreover have "kept (insert t {x. unat (x - buf) < 100}) (s_mem s) (s_mem s3)"
    using kept_trans [OF alike_kept [OF 2(3)] alike_kept [OF 3(2)], of "insert t {x. unat (x - buf) < 100}"] o(9) by auto
  ultimately show ?thesis
    using 2(1,2) 3(1,3) o(1,3,7,8,9) alike_files [OF 2(3)] alike_files [OF 3(2)] by auto
qed

lemma cat_no_file:
  assumes con: "console_at 1 s" and f: "files_ok s" and t: "\<not> bad_buffer t"
    and str: "c_string (env_fuel env) (s_mem s) p = Inr name" "length name \<le> 900" "opens_to env name content"
    and none: "content = None \<or> free_files s = 0"
  shows "\<exists>s1 s2. call (sys_open env p s) = Some (Inr (-1, s1)) \<and> s_mem s1 = s_mem s \<and>
    print_str F env t (''cat: %s: No such file or directory'' @ [NL]) p s1 = Some (Inr (1, s2)) \<and> console_at 1 s2 \<and> files_ok s2 \<and>
    free_files s2 = free_files s \<and> kept {t} (s_mem s) (s_mem s2) \<and>
    printed s2 = printed s @ map byte ''cat: '' @ name @ map byte (CHR '':'' # '' No such file or directory'' @ [NL])"
proof -
  obtain s1 where 1: "call (sys_open env p s) = Some (Inr (-1, s1))" "s_proc s1 = s_proc s" "s_io s1 = s_io s" "s_next s \<le> s_next s1"
    "\<forall>h. h \<noteq> s_next s \<longrightarrow> s_objects s1 h = s_objects s h"
  proof (cases content)
    case None
    then have "sys_open env p s = Inr (Return (-1) s)" using sys_open_lookup(1) [OF str(1)] str(3) by (simp add: opens_to_def)
    then show ?thesis using that [of s] by simp
  next
    case (Some bs)
    then obtain node where n: "lookup_path env name = Inr (Some node)" using str(3) by (auto simp: opens_to_def)
    obtain s1 where o: "open_object (ActualFile (Some node) 0) s = (-1, s1)" "s_proc s1 = s_proc s" "s_io s1 = s_io s" "s_next s1 = s_next s + 1"
      "\<forall>h. h \<noteq> s_next s \<longrightarrow> s_objects s1 h = s_objects s h"
      using open_object_full [of s "ActualFile (Some node) 0"] none Some by auto
    then show ?thesis using that [of s1] sys_open_lookup(2) [OF str(1) n] by simp
  qed
  have con1: "console_at 1 s1" by (rule open_console [OF con f _ 1(5)]) (simp add: 1(2))
  have str1: "c_string (env_fuel env) (s_mem s1) p = Inr name" using str(1) 1(3) by simp
  obtain s2 where 2: "print_str F env t (''cat: %s: No such file or directory'' @ [NL]) p s1 = Some (Inr (1, s2))" "alike {t} {} s1 s2"
    "printed s2 = printed s1 @ map byte ''cat: '' @ name @ map byte (CHR '':'' # '' No such file or directory'' @ [NL])"
    using complain_console [OF con1 t str1 str(2), of F] by blast
  have "console_at 1 s2" using console_alike [OF con1 2(2)] by simp
  moreover have "files_ok s1" using f 1(2,4) by (auto simp: files_ok_def)
  moreover have "kept {t} (s_mem s) (s_mem s2)" using alike_kept [OF 2(2), of "{t}"] 1(3) by simp
  ultimately show ?thesis
    using 1(1,2,3) 2(1,3) alike_files [OF 2(2)] by (auto simp: free_files_def)
qed

lemma cat_loop_prints:
  fixes F :: "'d fpu"
  assumes "console_at 1 s" "files_ok s" "\<not> bad_buffer t" "good_buffer buf 100"
    and "args_in env (insert t {x. unat (x - buf) < 100}) (s_mem s) argv (map fst xs)"
    and "\<forall>(name, content) \<in> set (drop i xs). length name \<le> 900 \<and> opens_to env name content" and "i + k = length xs"
  shows "\<exists>s'. cat_loop F env t buf argv i k s = Some (Inr ((), s')) \<and> printed s' = printed s @ cat_text (free_files s) (drop i xs)"
  using assms
proof (induction k arbitrary: i s)
  case 0
  then show ?case by (simp add: done_with_def)
next
  case (Suc k)
  let ?p = "argv_at argv i s" and ?A = "insert t {x. unat (x - buf) < 100}"
  obtain name content where x: "xs ! i = (name, content)" by fastforce
  have i: "i < length xs" and d: "drop i xs = (name, content) # drop (Suc i) xs"
    using Suc.prems(7) x Cons_nth_drop_Suc [of i xs] by auto
  have n: "length name \<le> 900" "opens_to env name content"
    and later: "\<forall>(name, content) \<in> set (drop (Suc i) xs). length name \<le> 900 \<and> opens_to env name content"
    using Suc.prems(6) d by auto
  have str: "c_string (env_fuel env) (s_mem s) ?p = Inr name"
    using args_in_string [OF Suc.prems(5) kept_refl, of i] i x by simp
  have rest: "\<exists>s'. cat_loop F env t buf argv (i + 1) k s2 = Some (Inr ((), s')) \<and>
      printed s' = printed s2 @ cat_text (free_files s2) (drop (Suc i) xs)"
    if "console_at 1 s2" "files_ok s2" "kept ?A (s_mem s) (s_mem s2)" for s2
    using Suc.IH [OF that(1,2) Suc.prems(3,4) args_in_kept [OF Suc.prems(5) that(3)], of "Suc i"] later Suc.prems(7) by simp
  show ?case
  proof (cases "content = None \<or> free_files s = 0")
    case True
    obtain s1 s2 where 1: "call (sys_open env ?p s) = Some (Inr (-1, s1))" "s_mem s1 = s_mem s"
      "print_str F env t (''cat: %s: No such file or directory'' @ [NL]) ?p s1 = Some (Inr (1, s2))" "console_at 1 s2" "files_ok s2"
      "free_files s2 = free_files s" "kept {t} (s_mem s) (s_mem s2)"
      "printed s2 = printed s @ map byte ''cat: '' @ name @ map byte (CHR '':'' # '' No such file or directory'' @ [NL])"
      using cat_no_file [OF Suc.prems(1,2,3) str n True, of F] by blast
    have p: "argv_at argv i s1 = ?p" using 1(2) by (simp add: argv_at_def)
    have "kept ?A (s_mem s) (s_mem s2)" using 1(7) by (auto simp: kept_def)
    then obtain s' where "cat_loop F env t buf argv (i + 1) k s2 = Some (Inr ((), s'))"
      "printed s' = printed s2 @ cat_text (free_files s2) (drop (Suc i) xs)" using rest [OF 1(4,5)] by blast
    moreover have "cat_text (free_files s) (drop i xs) =
        map byte ''cat: '' @ name @ map byte (CHR '':'' # '' No such file or directory'' @ [NL]) @ cat_text (free_files s) (drop (Suc i) xs)"
      unfolding d using True by (cases content) auto
    ultimately show ?thesis using 1(1,3,6,8) p by simp
  next
    case False
    then obtain bs where c: "content = Some bs" by auto
    obtain fd s1 s2 where 1: "call (sys_open env ?p s) = Some (Inr (fd, s1))" "fd \<noteq> -1"
      "run_bind (cp F t buf fd 1 s1) (\<lambda>_ s. printf F t [NL] [] s) = Some (Inr (1, s2))" "console_at 1 s2" "files_ok s2"
      "free_files s2 = free_files s - 1" "kept ?A (s_mem s) (s_mem s2)" "printed s2 = printed s @ bs @ [10]"
      using cat_one_file [OF Suc.prems(1,2) _ Suc.prems(3,4) str n(2) [unfolded c], of F] False by auto
    obtain s' where "cat_loop F env t buf argv (i + 1) k s2 = Some (Inr ((), s'))"
      "printed s' = printed s2 @ cat_text (free_files s2) (drop (Suc i) xs)" using rest [OF 1(4,5,7)] by blast
    moreover have "cat_text (free_files s) (drop i xs) = bs @ [10] @ cat_text (free_files s - 1) (drop (Suc i) xs)"
      unfolding d c using False by (cases "free_files s") auto
    ultimately show ?thesis using 1(1,2,3,6,8) by simp
  qed
qed

section \<open>grep\<close>

lemma reads_file_alike: "reads_file img node fd h off s \<Longrightarrow> alike A {} s s' \<Longrightarrow> reads_file img node fd h off s'"
  by (simp add: reads_file_def alike_def)

lemma string_kept: "\<forall>m'. kept A m m' \<longrightarrow> c_string k m' p = Inr str \<Longrightarrow> kept A m m1 \<Longrightarrow>
    c_string k m1 p = Inr str \<and> (\<forall>m'. kept A m1 m' \<longrightarrow> c_string k m' p = Inr str)"
  using kept_trans by blast

lemma line_render: "0 \<notin> set line \<Longrightarrow> render ''%s'' [VStr (shown (line @ [0]))] = Some (map chr line)"
  by (auto simp: NUL_def shown_def takeWhile_append)

lemma grep_loop_prints:
  fixes off :: u32
  assumes "reads_file img node fd h off s" "fd \<noteq> 1" "console_at 1 s" "\<not> bad_buffer t" "\<not> bad_buffer c"
    and "\<forall>m'. kept {t, c} (s_mem s) m' \<longrightarrow> c_string (env_fuel env) m' pattern = Inr pat"
    and "\<forall>line \<in> set (file_lines (rest_of img node off)). length line \<le> 1000" "0 \<notin> set (rest_of img node off)"
  shows "\<exists>s'. grep_loop F env t c pattern fd s = Some (Inr ((), s')) \<and>
    printed s' = printed s @ concat (filter (sublist pat) (file_lines (rest_of img node off)))"
  using assms
proof (induction "rest_of img node off" arbitrary: off s rule: file_lines.induct)
  case 1
  note loop = grep_loop.simps [of F env t c pattern fd s]
  obtain line r where l: "take_line 1023 (rest_of img node off) = (line, r)" by fastforce
  obtain s1 off1 where 2: "fgets c 1024 fd s = Some (Inr (if rest_of img node off = [] then None else Some line, s1))"
    "reads_file img node fd h off1 s1" "rest_of img node off1 = r" "alike {c} {h} s s1" "printed s1 = printed s"
    using fgets_file [OF 1(2,3) 1(6), of 1024 line r] l by auto
  have h: "s_objects s h \<noteq> U8250File" using 1(2) by (simp add: reads_file_def)
  have con1: "console_at 1 s1" by (rule console_kept [OF 1(4) 2(4) h])
  show ?case
  proof (cases "rest_of img node off = []")
    case True
    then show ?thesis using 2(1,5) by (simp add: loop done_with_def file_lines.simps)
  next
    case False
    have lines: "file_lines (rest_of img node off) = line # file_lines r"
      using l False by (subst file_lines.simps) simp
    have set: "set line \<subseteq> set (rest_of img node off)" "set r \<subseteq> set (rest_of img node off)"
      using take_line_append [OF l] by auto
    have z: "0 \<notin> set line" using set(1) 1(9) by auto
    have len: "length line \<le> 1000" using 1(8) lines by simp
    have k1: "kept {t, c} (s_mem s) (s_mem s1)" by (rule alike_kept [OF 2(4)]) simp
    note pat1 = string_kept [OF 1(7) k1]
    have "c_str (line @ [0]) line" using z by (simp add: c_str_def)
    moreover have "0 \<notin> set pat" using c_string_inv [of "env_fuel env" "s_mem s1" pattern pat] pat1 by blast
    then have "c_str (pat @ [0]) pat" by (simp add: c_str_def)
    ultimately have found: "lift_res (rbind (c_string (env_fuel env) (s_mem s1) pattern) (\<lambda>p. strstr (line @ [0]) (p @ [0]))) s1 =
        Some (Inr (if sublist pat line then Some (LEAST j. prefix pat (drop j line)) else None, s1))"
      using pat1 strstr_spec [of "line @ [0]" line "pat @ [0]" pat] by (simp add: lift_res_def)
    have rest: "\<exists>s'. grep_loop F env t c pattern fd s2 = Some (Inr ((), s')) \<and>
        printed s' = printed s2 @ concat (filter (sublist pat) (file_lines r))"
      if a2: "alike {t} {} s1 s2" for s2
    proof -
      have k2: "kept {t, c} (s_mem s1) (s_mem s2)" by (rule alike_kept [OF a2]) simp
      have "\<forall>line \<in> set (file_lines r). length line \<le> 1000" "0 \<notin> set r" using 1(8,9) lines set(2) by auto
      then show ?thesis
        using 1(1) [OF False _ reads_file_alike [OF 2(2) a2] 1(3) console_alike [OF con1 a2] 1(5,6)]
          string_kept [OF conjunct2 [OF pat1] k2] l 2(3) by simp
    qed
    show ?thesis
    proof (cases "sublist pat line")
      case True
      obtain s2 where 3: "printf F t ''%s'' [VStr (shown (line @ [0]))] s1 = Some (Inr (1, s2))" "alike {t} {} s1 s2"
        "printed s2 = printed s1 @ line"
        using printf_console [OF con1 1(5) line_render [OF z], of F] len by auto
      then show ?thesis
        using rest [OF 3(2)] 2(1,5) False True found lines by (auto simp: loop)
    next
      case no: False
      then show ?thesis using rest [of s1] 2(1,5) False found lines by (simp add: loop)
    qed
  qed
qed

section \<open>ls\<close>

text \<open>What \<open>ls\<close> prints for a record.\<close>

definition ls_text :: "dir_record list \<Rightarrow> u8 list" where
  "ls_text rs = concat (map (\<lambda>r. if take 1 (dr_name r) = [46] then []
     else take 254 (dr_name r) @ [9]) rs)"

lemma name_render: "render (''%s'' @ [TABC]) [VStr (shown name)] = Some (shown name @ [TABC])"
  by (auto simp: NUL_def TABC_def)

lemma ls_entry_console:
  assumes "console_at 1 s" "\<not> bad_buffer t" "0 \<notin> set name"
  shows "\<exists>v s'. (if take 1 (take 254 name) \<noteq> [46] then printf F t (''%s'' @ [TABC]) [VStr (shown (take 254 name))] s
      else done_with 0 s) = Some (Inr (v, s')) \<and> console_at 1 s' \<and>
    printed s' = printed s @ (if take 1 name = [46] then [] else take 254 name @ [9])"
proof (cases "take 1 name = [46]")
  case True
  then show ?thesis using assms(1) by (simp add: done_with_def take_take)
next
  case False
  have z: "shown (take 254 name) = map chr (take 254 name)"
    using assms(3) in_set_takeD [of 0 254 name] by (subst shown_def, subst takeWhile_eq_all_conv [THEN iffD2]) auto
  then have "length (shown (take 254 name) @ [TABC]) \<le> 1000" by simp
  from printf_console [OF assms(1,2) name_render this, of F] obtain s' where
    "printf F t (''%s'' @ [TABC]) [VStr (shown (take 254 name))] s = Some (Inr (1, s'))" "alike {t} {} s s'"
    "printed s' = printed s @ map byte (shown (take 254 name) @ [TABC])" by blast
  moreover have "byte TABC = 9" by (simp add: byte_def TABC_def)
  ultimately show ?thesis using False console_alike [OF assms(1)] z by (auto simp: take_take)
qed

lemma ls_step:
  assumes e: "entry_at b (off + rec_len) = Inr (rec_len', take 254 name)" and off: "off \<le> 1023"
    and "console_at 1 s" "\<not> bad_buffer t" "0 \<notin> set name"
  shows "\<exists>s'. ls_loop F t b off rec_len s = ls_loop F t b (off + rec_len) rec_len' s' \<and> console_at 1 s' \<and>
    printed s' = printed s @ (if take 1 name = [46] then [] else take 254 name @ [9])"
proof -
  obtain v s1 where 1: "(if take 1 (take 254 name) \<noteq> [46] then printf F t (''%s'' @ [TABC]) [VStr (shown (take 254 name))] s
      else done_with 0 s) = Some (Inr (v, s1))" "console_at 1 s1"
    "printed s1 = printed s @ (if take 1 name = [46] then [] else take 254 name @ [9])"
    using ls_entry_console [OF assms(3-5)] by blast
  have "ls_loop F t b off rec_len s = ls_loop F t b (off + rec_len) rec_len' s1"
    using off by (subst ls_loop.simps) (simp only: e lift_res_def sum.case run_bind_simps fst_conv snd_conv 1(1) if_True)
  then show ?thesis using 1(2,3) by blast
qed

lemma ls_loop_lists:
  assumes "length pre + length (encode_dir rs) = 1024" "\<forall>r \<in> set rs. dr_valid r" "rs \<noteq> [] \<longrightarrow> dr_pad (last rs) \<noteq> []"
    and "off \<le> 1023" "off + rec_len = length pre" "console_at 1 s" "\<not> bad_buffer t"
  shows "\<exists>s' off' rec_len'. ls_loop F t (pre @ encode_dir rs @ post) off rec_len s =
      ls_loop F t (pre @ encode_dir rs @ post) off' rec_len' s' \<and> off' \<le> 1023 \<and> off' + rec_len' = 1024 \<and>
      console_at 1 s' \<and> printed s' = printed s @ ls_text rs"
  using assms(1-6)
proof (induction rs arbitrary: pre off rec_len s)
  case Nil
  then show ?case by (intro exI [of _ s] exI [of _ off] exI [of _ rec_len]) (simp add: ls_text_def encode_dir_def)
next
  case (Cons r rs)
  let ?b = "pre @ encode_dir (r # rs) @ post" and ?pre = "pre @ encode_record r"
  have b: "?b = pre @ encode_record r @ (encode_dir rs @ post)" "?pre @ encode_dir rs @ post = ?b"
    "length ?pre = length pre + dr_size r" "length ?pre + length (encode_dir rs) = 1024"
    using Cons.prems(1) by (simp_all add: encode_dir_def)
  have r: "dr_valid r" "0 < dr_size r" "0 \<notin> set (dr_name r)" using Cons.prems(2) by (auto simp: dr_size_def dr_valid_def)
  have "dr_pad r @ encode_dir rs @ post \<noteq> []"
  proof (cases rs)
    case (Cons q qs)
    then show ?thesis by (simp add: encode_dir_def encode_record_def put32_def)
  qed (use Cons.prems(3) in simp)
  then have e: "entry_at ?b (off + rec_len) = Inr (dr_size r, take 254 (dr_name r))"
    using entry_at_record [OF r(1) b(1)] Cons.prems(5) by (simp del: append_is_Nil_conv)
  obtain s1 where 1: "ls_loop F t ?b off rec_len s = ls_loop F t ?b (off + rec_len) (dr_size r) s1" "console_at 1 s1"
    "printed s1 = printed s @ (if take 1 (dr_name r) = [46] then [] else take 254 (dr_name r) @ [9])"
    using ls_step [OF e Cons.prems(4,6) assms(7) r(3)] by blast
  have "\<exists>s' off' rec_len'. ls_loop F t (?pre @ encode_dir rs @ post) (off + rec_len) (dr_size r) s1 =
      ls_loop F t (?pre @ encode_dir rs @ post) off' rec_len' s' \<and> off' \<le> 1023 \<and> off' + rec_len' = 1024 \<and>
      console_at 1 s' \<and> printed s' = printed s1 @ ls_text rs"
    by (rule Cons.IH [OF b(4)]) (use Cons.prems b(3,4) r(2) 1(2) in auto)
  from this [unfolded b(2)] obtain s' off' rec_len' where 2: "ls_loop F t ?b (off + rec_len) (dr_size r) s1 = ls_loop F t ?b off' rec_len' s'"
    "off' \<le> 1023" "off' + rec_len' = 1024" "console_at 1 s'" "printed s' = printed s1 @ ls_text rs" by blast
  show ?case
    by (rule exI [of _ s'], rule exI [of _ off'], rule exI [of _ rec_len']) (use 1 2 in \<open>simp add: ls_text_def\<close>)
qed

end
