(* ===== verification/Command_Claims.thy ===== *)
theory Command_Claims
  imports User_Commands
begin

text \<open>The properties of \<open>cat\<close>, \<open>grep\<close> and \<open>ls\<close>, with the disk and the arguments that witness them.\<close>

section \<open>A disk with a text file\<close>

text \<open>The disk of \<open>File_System\<close>, where i-node 17 is the file \<open>ab\<close> of three lines in block 10.\<close>

definition text_file :: "u8 list" where
  "text_file = [97, 98, 10, 99, 100, 10, 98]"

definition text_image :: "nat \<Rightarrow> u8" where
  "text_image i = (if i = 9217 then 0x80 else if i = 9220 then 7 else if i = 9244 then 2 else if i = 9256 then 10
     else if 10240 \<le> i \<and> i < 10247 then text_file ! (i - 10240) else demo_image i)"

definition text_env :: kernel_env where
  "text_env = demo_env\<lparr>env_fs := demo_fs\<lparr>fs_ide := demo_ide text_image\<rparr>, env_root := demo_node (demo_ide text_image) 0x4000 24\<rparr>"

definition text_node :: ext2_node where
  "text_node = \<lparr>node_ide = demo_ide text_image, node_number = 17, node_block_size = 1024,
     node_data = decode_node_data (map text_image [9216 ..< 9344])\<rparr>"

lemma text_dir_holds: "dir_holds text_image (env_root text_env) demo_dir"
proof -
  let ?n = "demo_node (demo_ide text_image) 0x4000 24"
  have len: "length (encode_dir demo_dir) = 24" by (simp add: encode_dir_def demo_dir_def dr_size_def)
  have "map (node_content (text_image, ?n)) [0 ..< 24] = map ((!) (encode_dir demo_dir)) [0 ..< 24]"
    by (intro map_cong) (auto simp: node_content_def demo_node_def node_block_index_def demo_image_def text_image_def)
  also have "\<dots> = encode_dir demo_dir" using map_nth [of "encode_dir demo_dir"] by (simp only: len)
  finally have "map (node_content (text_image, ?n)) [0 ..< unat (nd_size_low (node_data ?n))] = encode_dir demo_dir"
    by (simp add: demo_node_def)
  moreover have "node_ok (text_image, ?n)" by (rule demo_ok) simp
  ultimately show ?thesis
    by (simp add: dir_holds_def text_env_def demo_node_def is_dir_def get_type_def demo_dir_def dr_valid_def dr_size_def)
qed

lemma text_get_node: "get_node (env_fs text_env) 17 = Inr text_node"
proof -
  have "serves (demo_ide text_image, 32768, text_image)" by (rule demo_serves)
  then have "blockio_read_object (demo_ide text_image) 9216 128 = Inr (map text_image [9216 ..< 9344])"
    using served.read_object_content [of "(demo_ide text_image, 32768, text_image)" 9216 128]
    by (simp add: demo_ide_def ide_block_io_def ide_size_nat del: upt_rec_numeral)
  then show ?thesis
    by (simp add: get_node_def demo_fs_def text_env_def sizeof_node_data_def text_node_def Let_def del: upt_rec_numeral)
qed

lemma text_bytes: "i < 128 \<Longrightarrow> map text_image [9216 ..< 9344] ! i = text_image (9216 + i)"
  by (simp del: upt_rec_numeral)

lemma text_node_data:
  "nd_mode (node_data text_node) = 0x8000" "nd_size_low (node_data text_node) = 7" "nd_n_sectors (node_data text_node) = 2"
  "nd_block_refs (node_data text_node) ! 0 = 10" "node_ide text_node = demo_ide text_image" "node_block_size text_node = 1024"
  by (simp_all add: text_node_def decode_node_data_def get16_def get32_def text_bytes text_image_def demo_image_def
    del: upt_rec_numeral)

lemma text_ok: "node_ok (text_image, text_node)"
proof -
  have k: "k * 1024 < 7 \<longleftrightarrow> k = 0" for k :: nat by auto
  have "node_layout 32768 text_image text_node"
    by (simp add: node_layout_def text_node_data demo_ide_size node_block_index_def Let_def k)
  then show ?thesis
    using demo_serves [of text_image] by (intro node_okI [of _ 32768]) (simp_all add: text_node_data)
qed

lemma text_rest: "rest_of text_image text_node 0 = text_file"
  by (simp add: rest_of_def text_node_data node_content_def node_block_index_def text_image_def text_file_def upt_rec)

lemma text_opens: "opens_to text_env [97, 98] (Some text_file)" "opens_to text_env [122, 122] None"
proof -
  have two: "length demo_dir \<le> 20" by (simp add: demo_dir_def)
  have f: "node_find 20 (env_root text_env) [97, 98, 0] = Inr 17" "node_find 20 (env_root text_env) [122, 122, 0] = Inr 0"
    using dir_find [OF text_dir_holds two, of "[97, 98]"] dir_find [OF text_dir_holds two, of "[122, 122]"]
    by (simp_all add: dir_lookup_def demo_dir_def)
  have fuel: "env_fuel text_env = 20" by (simp add: text_env_def demo_env_def)
  have e: "ext2_find 20 (env_fs text_env) (Some (env_root text_env)) [97, 98, 0] = Inr (Some text_node)"
    using ext2_find_walk [of "[97, 98]" 20 "env_fs text_env" "Some (env_root text_env)"] f(1) text_get_node by simp
  have "\<not> is_symlink (node_data text_node)" by (simp add: is_symlink_def get_type_def text_node_data)
  then have "lookup_path text_env [97, 98] = Inr (Some text_node)"
    using e by (simp add: lookup_path_def fuel follow_links.simps)
  then show "opens_to text_env [97, 98] (Some text_file)" using text_ok text_rest by (auto simp: opens_to_def)
  show "opens_to text_env [122, 122] None"
    using ext2_find_walk [of "[122, 122]" 20 "env_fs text_env" "Some (env_root text_env)"] f(2)
    by (simp add: opens_to_def lookup_path_def fuel)
qed

text \<open>The strings \<open>ab\<close>, \<open>zz\<close> and \<open>b\<close>, and pointers to them at 0x80000100; one descriptor is free.\<close>

definition text_memory :: memory where
  "text_memory = write_bytes 0x80000100 (concat (map put32 [0x80000010, 0x80000030, 0x80000010, 0x80000020, 0x80000010]))
     (write_bytes 0x80000010 [97, 98, 0] (write_bytes 0x80000020 [122, 122, 0] (write_bytes 0x80000030 [98, 0] (\<lambda>a. 0))))"

definition text_sys :: sys where
  "text_sys = (set_mem text_memory demo_sys)
     \<lparr>s_proc := (process_init True 1 0 9)\<lparr>p_files := replicate 9 (Some 9) @ [None]\<rparr>\<rparr>"

lemma text_sys_simps:
  "console_at 1 text_sys" "files_ok text_sys" "free_files text_sys = 1" "printed text_sys = []" "s_mem text_sys = text_memory"
  by (simp_all add: text_sys_def set_mem_def console_at_def files_ok_def free_files_def demo_sys_def process_init_def
    getFile_def index_cases numeral_eq_Suc)

lemma text_loads:
  "load32 text_memory 0x80000100 = 0x80000010" "load32 text_memory 0x80000104 = 0x80000030" "load32 text_memory 0x80000108 = 0x80000010"
  "load32 text_memory 0x8000010C = 0x80000020" "load32 text_memory 0x80000110 = 0x80000010"
  "read_bytes text_memory 0x80000010 3 = [97, 98, 0]" "read_bytes text_memory 0x80000020 3 = [122, 122, 0]"
  "read_bytes text_memory 0x80000030 2 = [98, 0]"
  by (simp_all add: load32_def read_bytes_def text_memory_def write_bytes_def upt_rec put32_def)

text \<open>They stay when only bytes from 0x80001000 on change.\<close>

lemma kept_bytes: "kept A m m' \<Longrightarrow> \<forall>i < n. a + of_nat i \<notin> A \<Longrightarrow> read_bytes m' a n = read_bytes m a n"
  by (simp add: kept_def read_bytes_def)

lemma kept_load: "kept A m m' \<Longrightarrow> \<forall>i < 4. a + of_nat i \<notin> A \<Longrightarrow> load32 m' a = load32 m a"
  unfolding load32_bytes by (simp add: kept_bytes)

lemma low_address:
  fixes a :: u32
  assumes "A \<subseteq> {x. 0x80001000 \<le> x}" "a \<le> 0x80000FF0" "i < 4"
  shows "a + of_nat i \<notin> A"
proof -
  have a: "unat a \<le> 0x80000FF0" using assms(2) by (simp add: word_le_nat_alt)
  then have "unat (a + of_nat i) = unat a + i" using assms(3) by (intro unat_add_nat) simp
  then have "\<not> 0x80001000 \<le> a + of_nat i" using a assms(3) by (simp add: word_le_nat_alt)
  then show ?thesis using assms(1) by blast
qed

lemma text_kept:
  assumes k: "kept A text_memory m" and A: "A \<subseteq> {x. 0x80001000 \<le> x}"
  shows "c_string 20 m 0x80000010 = Inr [97, 98]" "c_string 20 m 0x80000020 = Inr [122, 122]" "c_string 20 m 0x80000030 = Inr [98]"
    and "a \<le> 0x80000FF0 \<Longrightarrow> load32 m a = load32 text_memory a"
proof -
  have low: "read_bytes m a n = read_bytes text_memory a n" if "n \<le> 4" "a \<le> 0x80000FF0" for a n
    by (rule kept_bytes [OF k]) (use low_address [OF A that(2)] that(1) in auto)
  show "c_string 20 m 0x80000010 = Inr [97, 98]" "c_string 20 m 0x80000020 = Inr [122, 122]" "c_string 20 m 0x80000030 = Inr [98]"
    by (rule c_string_read; simp add: low text_loads numeral_2_eq_2 [symmetric] numeral_3_eq_3 [symmetric])+
  show "a \<le> 0x80000FF0 \<Longrightarrow> load32 m a = load32 text_memory a" using low [of 4 a] by (simp add: load32_bytes)
qed

lemma text_args:
  assumes A: "A \<subseteq> {x. 0x80001000 \<le> x}"
  shows "args_in text_env A text_memory 0x80000104 [[98], [97, 98], [122, 122], [97, 98]]"
    and "args_in text_env A text_memory 0x80000100 [[97, 98], [98], [97, 98]]"
proof -
  have fuel: "env_fuel text_env = 20" by (simp add: text_env_def demo_env_def)
  show "args_in text_env A text_memory 0x80000104 [[98], [97, 98], [122, 122], [97, 98]]"
    unfolding args_in_def fuel
    by (intro allI impI) (auto simp: less_Suc_eq text_kept [OF _ A] text_loads)
  show "args_in text_env A text_memory 0x80000100 [[97, 98], [98], [97, 98]]"
    unfolding args_in_def fuel
    by (intro allI impI) (auto simp: less_Suc_eq text_kept [OF _ A] text_loads)
qed

lemma buffer_range: "unat (x - buf) < n \<Longrightarrow> unat buf + n \<le> 2 ^ 32 \<Longrightarrow> buf \<le> (x :: u32)"
  using unat_add_nat [of buf "unat (x - buf)"] by (simp add: word_le_nat_alt)

lemma high_buffer:
  assumes "0x80000000 \<le> unat buf" "unat buf + n \<le> 0xFEC00000"
  shows "good_buffer buf n"
proof -
  have "\<not> bad_buffer (buf + of_nat i)" if "i < n" for i
  proof -
    have "unat (buf + of_nat i) = unat buf + i" using that assms(2) by (intro unat_add_nat) simp
    then have u: "0x80000000 \<le> unat (buf + of_nat i)" "unat (buf + of_nat i) < 0xFEC00000" using assms that by simp_all
    then show ?thesis by (auto simp: bad_buffer_def word_less_nat_alt)
  qed
  then show ?thesis using assms(2) by (simp add: good_buffer_def)
qed

lemma take_line_numeral:
  "take_line (numeral k) [] = ([], [])"
  "take_line (numeral k) (c # bs) =
     (if c = 10 then ([10], bs) else (case take_line (pred_numeral k) bs of (l, r) \<Rightarrow> (c # l, r)))"
  by (simp_all add: numeral_eq_Suc)

section \<open>Properties\<close>

text \<open>
  C35. What cat prints, for any arguments that name files of the disk or nothing: for each argument in
  order the bytes of the file and a newline, or a message when the name leads nowhere. As it never
  closes a file, every argument after it has filled the ten descriptors gets the message, though the file is there.
\<close>

theorem cat_prints:
  fixes F :: "'d fpu"
  assumes "console_at 1 s" "files_ok s" "\<not> bad_buffer t" "good_buffer buf 100"
    and "args_in env (insert t {x. unat (x - buf) < 100}) (s_mem s) argv (map fst xs)" "xs \<noteq> []" "length xs < 2 ^ 31"
    and "\<forall>(name, content) \<in> set (tl xs). length name \<le> 900 \<and> opens_to env name content"
  shows "\<exists>s'. cat F env t buf (of_nat (length xs)) argv s = Some (Inr ((), s')) \<and>
    printed s' = printed s @ cat_text (free_files s) (tl xs)"
proof -
  have "unat (of_nat (length xs) :: u32) = length xs" using assms(7) by (simp add: unat_of_nat take_bit_nat_eq_self)
  then have "sint (of_nat (length xs) :: u32) = int (length xs)" using sint_small assms(7) by metis
  then have "nat (sint (of_nat (length xs) :: u32) - 1) = length xs - 1" by simp
  then show ?thesis
    using cat_loop_prints [OF assms(1-5), of 1 "length xs - 1" F] assms(6,8)
    by (cases xs) (simp_all add: cat_def)
qed

theorem cat_prints_witness:
  "\<forall>F :: nat fpu. \<exists>s'. cat F text_env 0x90000000 0x90000004 4 0x80000104 text_sys = Some (Inr ((), s')) \<and>
     printed s' = text_file @ [10] @ map byte (''cat: zz: No such file or directory'' @ [NL]) @
       map byte (''cat: ab: No such file or directory'' @ [NL])"
proof
  fix F :: "nat fpu"
  let ?xs = "[([98], None), ([97, 98], Some text_file), ([122, 122], None), ([97, 98], Some text_file)]"
  have buf: "good_buffer 0x90000004 100" by (rule high_buffer) simp_all
  have "0x80001000 \<le> x" if "unat (x - 0x90000004) < 100" for x :: u32
    by (rule order_trans [OF _ buffer_range [OF that]]) simp_all
  then have A: "insert 0x90000000 {x :: u32. unat (x - 0x90000004) < 100} \<subseteq> {x. 0x80001000 \<le> x}" by auto
  have "args_in text_env (insert 0x90000000 {x. unat (x - 0x90000004) < 100}) (s_mem text_sys) 0x80000104 (map fst ?xs)"
    using text_args(1) [OF A] by (simp add: text_sys_simps)
  from cat_prints [OF text_sys_simps(1,2) _ buf this, of F]
  show "\<exists>s'. cat F text_env 0x90000000 0x90000004 4 0x80000104 text_sys = Some (Inr ((), s')) \<and>
     printed s' = text_file @ [10] @ map byte (''cat: zz: No such file or directory'' @ [NL]) @
       map byte (''cat: ab: No such file or directory'' @ [NL])"
    using text_opens by (simp add: text_sys_simps bad_buffer_def byte_def)
qed

text \<open>
  What grep prints, given a file of lines of at most 1000 characters and no zero byte: the lines that
  contain the pattern, in order and as they are, lines of more than 1023 characters being cut into
  pieces; given a name that leads nowhere, the message of cat, and nothing more.
\<close>

theorem grep_prints:
  fixes F :: "'d fpu"
  assumes "console_at 1 s" "files_ok s" "\<not> bad_buffer t" "\<not> bad_buffer c" "0 < free_files s"
    and "args_in env {t, c} (s_mem s) argv [prog, pat, name]" "argv_at argv 2 s \<noteq> 0" "length name \<le> 900"
    and "opens_to env name content"
    and "\<forall>bs. content = Some bs \<longrightarrow> 0 \<notin> set bs \<and> (\<forall>line \<in> set (file_lines bs). length line \<le> 1000)"
  shows "\<exists>s'. grep F env t c argv s = Some (Inr ((), s')) \<and>
    printed s' = printed s @
      (case content of
         None \<Rightarrow> cat_text 0 [(name, None)]
       | Some bs \<Rightarrow> concat (filter (sublist pat) (file_lines bs)))"
proof -
  let ?p = "argv_at argv 2 s" and ?pat = "argv_at argv 1 s"
  have str: "c_string (env_fuel env) (s_mem s) ?p = Inr name"
    using args_in_string [OF assms(6) kept_refl, of 2] by simp
  have pat: "c_string (env_fuel env) m' ?pat = Inr pat" if "kept {t, c} (s_mem s) m'" for m'
    using args_in_string [OF assms(6) that, of 1] by simp
  note g = grep_def [of F env t c argv s] Let_def
  show ?thesis
  proof (cases content)
    case None
    obtain s1 s2 where 1: "call (sys_open env ?p s) = Some (Inr (-1, s1))"
      "print_str F env t (''cat: %s: No such file or directory'' @ [NL]) ?p s1 = Some (Inr (1, s2))" "files_ok s2"
      "printed s2 = printed s @ map byte ''cat: '' @ name @ map byte (CHR '':'' # '' No such file or directory'' @ [NL])"
      using cat_no_file [OF assms(1,2,3) str assms(8,9), of F] None by blast
    have "call (sys_read (-1) c 1 s2) = Some (Inr (-1, s2))" by (simp add: sys_read_def getFile_def index_cases minus_one)
    then have "fgets c 1024 (-1) s2 = Some (Inr (None, s2))" by (simp add: fgets_def numeral_eq_Suc done_with_def)
    then have "grep_loop F env t c ?pat (-1) s2 = Some (Inr ((), s2))" by (subst grep_loop.simps) (simp add: done_with_def)
    then show ?thesis using 1 assms(7) None by (simp add: g)
  next
    case (Some bs)
    obtain img node fd s1 where o: "call (sys_open env ?p s) = Some (Inr (fd, s1))" "fd \<noteq> 1" "fd \<noteq> -1"
      "reads_file img node fd (s_next s) 0 s1" "bs = rest_of img node 0" "console_at 1 s1" "s_io s1 = s_io s"
      using open_reads [OF assms(1,2,5) str assms(9) [unfolded Some]] by blast
    have "\<forall>m'. kept {t, c} (s_mem s1) m' \<longrightarrow> c_string (env_fuel env) m' ?pat = Inr pat" using pat o(7) by simp
    then show ?thesis
      using grep_loop_prints [OF o(4,2,6) assms(3,4), of env ?pat pat F] assms(7,10) o(1,3,5,7) Some by (simp add: g done_with_def)
  qed
qed


theorem grep_prints_witness:
  "\<forall>F :: nat fpu. \<exists>s'. grep F text_env 0x90000000 0x90000004 0x80000100 text_sys = Some (Inr ((), s')) \<and>
     printed s' = [97, 98, 10, 98]"
proof
  fix F :: "nat fpu"
  have A: "{0x90000000 :: u32, 0x90000004} \<subseteq> {x. 0x80001000 \<le> x}" by simp
  have a: "args_in text_env {0x90000000, 0x90000004} (s_mem text_sys) 0x80000100 [[97, 98], [98], [97, 98]]"
    using text_args(2) [OF A] by (simp add: text_sys_simps)
  have lines: "file_lines text_file = [[97, 98, 10], [99, 100, 10], [98]]"
    by (simp add: text_file_def file_lines.simps take_line_numeral)
  have "argv_at 0x80000100 2 text_sys \<noteq> 0" by (simp add: argv_at_def text_sys_simps text_loads)
  from grep_prints [OF text_sys_simps(1,2) _ _ _ a this _ text_opens(1), of F]
  show "\<exists>s'. grep F text_env 0x90000000 0x90000004 0x80000100 text_sys = Some (Inr ((), s')) \<and> printed s' = [97, 98, 10, 98]"
    by (simp add: lines text_sys_simps bad_buffer_def) (simp add: text_file_def sublist_code)
qed

text \<open>
  C36. The loops of ls and of the tab key over a directory block that records fill, as they do on the
  disk. Both compare the offset before they add the length of the record, so they go on behind the
  block and read outside the buffer. If the bytes there can be read, and are laid out as a record, ls
  prints the names of the directory in order with tabs, those that begin with a dot left out, and
  then the name it finds behind the buffer.
\<close>

theorem directory_block_overrun:
  fixes F :: "'d fpu"
  assumes "length (encode_dir rs) = 1024" "\<forall>r \<in> set rs. dr_valid r" "dr_pad (last rs) \<noteq> []"
    and "dr_valid q" "dr_pad q \<noteq> []" "console_at 1 s" "\<not> bad_buffer t"
  shows "ls_loop F t (encode_dir rs) 0 0 s = Some (Inl OutOfBounds) \<and>
    tab_loop (encode_dir rs) buf n 0 0 [] = Some (Inl OutOfBounds) \<and>
    (\<exists>s'. ls_loop F t (encode_dir rs @ encode_record q) 0 0 s = Some (Inr ((), s')) \<and>
       printed s' = printed s @ ls_text rs @ ls_text [q])"
proof -
  have lists: "\<exists>s' off rec_len. ls_loop F t (encode_dir rs @ post) 0 0 s = ls_loop F t (encode_dir rs @ post) off rec_len s' \<and>
      off \<le> 1023 \<and> off + rec_len = 1024 \<and> console_at 1 s' \<and> printed s' = printed s @ ls_text rs" for post
    using ls_loop_lists [of "[]" rs 0 0 s t F post] assms by simp
  have "ls_loop F t (encode_dir rs) 0 0 s = Some (Inl OutOfBounds)"
    using lists [of "[]"] assms(1) by (force simp: ls_loop.simps [of F t "encode_dir rs"] lift_res_def entry_at_outside)
  moreover have "tab_loop (encode_dir rs) buf n 0 0 [] = Some (Inl OutOfBounds)"
    by (rule tab_loop_overruns [where pre = "[]" and rs = rs]) (use assms(1,2) in simp_all)
  moreover obtain s1 off rec_len where 1: "ls_loop F t (encode_dir rs @ encode_record q) 0 0 s =
      ls_loop F t (encode_dir rs @ encode_record q) off rec_len s1" "off \<le> 1023" "off + rec_len = 1024" "console_at 1 s1"
    "printed s1 = printed s @ ls_text rs" using lists [of "encode_record q"] by blast
  have e: "entry_at (encode_dir rs @ encode_record q) (off + rec_len) = Inr (dr_size q, take 254 (dr_name q))"
    using entry_at_record [OF assms(4), of _ "encode_dir rs" "[]"] assms(1,5) 1(3) by simp
  have z: "0 \<notin> set (dr_name q)" using assms(4) by (simp add: dr_valid_def)
  obtain s2 where 2: "ls_loop F t (encode_dir rs @ encode_record q) off rec_len s1 =
      ls_loop F t (encode_dir rs @ encode_record q) 1024 (dr_size q) s2"
    "printed s2 = printed s1 @ (if take 1 (dr_name q) = [46] then [] else take 254 (dr_name q) @ [9])"
    using ls_step [OF e 1(2,4) assms(7) z, of F] 1(3) by auto
  have "ls_loop F t (encode_dir rs @ encode_record q) 1024 (dr_size q) s2 = Some (Inr ((), s2))"
    by (subst ls_loop.simps) (simp add: done_with_def)
  ultimately show ?thesis using 1(1,5) 2 by (simp add: ls_text_def)
qed

text \<open>A block with a dot entry and the file \<open>ab\<close>, and \<open>x\<close> behind it.\<close>

theorem directory_block_overrun_witness:
  "\<forall>F :: nat fpu. \<exists>s' rs. length (encode_dir rs) = 1024 \<and> ls_text rs = [97, 98, 9] \<and>
     ls_loop F 0x90000000 (encode_dir rs) 0 0 text_sys = Some (Inl OutOfBounds) \<and>
     ls_loop F 0x90000000 (encode_dir rs @ encode_record \<lparr>dr_inode = 5, dr_name = [120], dr_type = 1, dr_pad = [0]\<rparr>) 0 0 text_sys =
       Some (Inr ((), s')) \<and> printed s' = [97, 98, 9, 120, 9]"
proof
  fix F :: "nat fpu"
  let ?q = "\<lparr>dr_inode = 5, dr_name = [120], dr_type = 1, dr_pad = [0]\<rparr>"
  define rs where "rs = [\<lparr>dr_inode = 2, dr_name = [46], dr_type = 2, dr_pad = [0, 0, 0]\<rparr>,
      \<lparr>dr_inode = 17, dr_name = [97, 98], dr_type = 1, dr_pad = replicate 1002 0\<rparr>]"
  have rs: "length (encode_dir rs) = 1024" "\<forall>r \<in> set rs. dr_valid r" "dr_pad (last rs) \<noteq> []" "ls_text rs = [97, 98, 9]"
    by (simp_all add: rs_def encode_dir_def dr_size_def dr_valid_def ls_text_def)
  have q: "dr_valid ?q" "dr_pad ?q \<noteq> []" "ls_text [?q] = [120, 9]" by (simp_all add: dr_valid_def dr_size_def ls_text_def)
  obtain s' where "ls_loop F 0x90000000 (encode_dir rs) 0 0 text_sys = Some (Inl OutOfBounds)"
    "ls_loop F 0x90000000 (encode_dir rs @ encode_record ?q) 0 0 text_sys = Some (Inr ((), s'))" "printed s' = [97, 98, 9, 120, 9]"
    using directory_block_overrun [OF rs(1-3) q(1,2) text_sys_simps(1), of "0x90000000" F "[]" 0] rs(4) q(3)
    by (auto simp: text_sys_simps bad_buffer_def)
  then show "\<exists>s' rs. length (encode_dir rs) = 1024 \<and> ls_text rs = [97, 98, 9] \<and>
     ls_loop F 0x90000000 (encode_dir rs) 0 0 text_sys = Some (Inl OutOfBounds) \<and>
     ls_loop F 0x90000000 (encode_dir rs @ encode_record ?q) 0 0 text_sys = Some (Inr ((), s')) \<and> printed s' = [97, 98, 9, 120, 9]"
    using rs(1,4) by blast
qed

end
