(* ===== verification/User_Printf.thy ===== *)
theory User_Printf
  imports User_Lib
begin

text \<open>
  \<open>sbin/printf.c\<close> as a program runs it. The formatter is the kernel's, but each character is written to descriptor 1 as
  soon as it is formatted, so that formatting and system calls alternate. What it computes without writing is shared
  with \<open>Snprintf\<close>; of the stream only the length, \<open>currlen\<close>, is kept. The property says that this is \<open>printf\<close> of
  \<open>User_Lib\<close>, which formats first and then writes.
\<close>

section \<open>The code\<close>

type_synonym writer = "int \<Rightarrow> sys \<Rightarrow> int run"

definition u_dopr_outch :: "u32 \<Rightarrow> char \<Rightarrow> writer" where
  "u_dopr_outch t c currlen k = run_bind (putchar t (byte c) k) (\<lambda>_ k. done_with (currlen + 1) k)"

fun u_outch_times :: "u32 \<Rightarrow> nat \<Rightarrow> char \<Rightarrow> writer" where
  "u_outch_times t 0 c currlen k = done_with currlen k"
| "u_outch_times t (Suc n) c currlen k = run_bind (u_dopr_outch t c currlen k) (u_outch_times t n c)"

fun u_outch_all :: "u32 \<Rightarrow> string \<Rightarrow> writer" where
  "u_outch_all t [] currlen k = done_with currlen k"
| "u_outch_all t (c # cs) currlen k = run_bind (u_dopr_outch t c currlen k) (u_outch_all t cs)"

fun u_fmtstr_pad :: "u32 \<Rightarrow> nat \<Rightarrow> int \<Rightarrow> int \<Rightarrow> int \<Rightarrow> sys \<Rightarrow> (int \<times> int) run" where
  "u_fmtstr_pad t 0 cnt mx currlen k = done_with (cnt, currlen) k"
| "u_fmtstr_pad t (Suc n) cnt mx currlen k =
     (if cnt < mx then run_bind (u_dopr_outch t CHR '' '' currlen k) (u_fmtstr_pad t n (cnt + 1) mx)
      else done_with (cnt, currlen) k)"

fun u_fmtstr_copy :: "u32 \<Rightarrow> string \<Rightarrow> int \<Rightarrow> int \<Rightarrow> int \<Rightarrow> sys \<Rightarrow> (int \<times> int) run" where
  "u_fmtstr_copy t [] cnt mx currlen k = done_with (cnt, currlen) k"
| "u_fmtstr_copy t (c # cs) cnt mx currlen k =
     (if cnt < mx then run_bind (u_dopr_outch t c currlen k) (u_fmtstr_copy t cs (cnt + 1) mx)
      else done_with (cnt, currlen) k)"

definition u_fmtstr :: "u32 \<Rightarrow> string option \<Rightarrow> u32 \<Rightarrow> int \<Rightarrow> int \<Rightarrow> writer" where
  "u_fmtstr t value flags mn mx currlen k =
     (let str = (case value of None \<Rightarrow> ''<NULL>'' | Some v \<Rightarrow> v);
          strln = int (length str);
          padlen = (if mn - strln < 0 then 0 else mn - strln);
          padlen = (if has_flag flags DP_F_MINUS then - padlen else padlen)
      in run_bind (u_fmtstr_pad t (nat padlen) 0 mx currlen k) (\<lambda>(cnt, currlen) k.
         run_bind (u_fmtstr_copy t str cnt mx currlen k) (\<lambda>(cnt, currlen) k.
         run_bind (u_fmtstr_pad t (nat (- padlen)) cnt mx currlen k) (\<lambda>(cnt, currlen) k.
         done_with currlen k))))"

text \<open>A sign is written when there is one.\<close>

definition u_sign :: "u32 \<Rightarrow> char option \<Rightarrow> writer" where
  "u_sign t signvalue currlen k =
     (case signvalue of None \<Rightarrow> done_with currlen k | Some c \<Rightarrow> u_dopr_outch t c currlen k)"

definition u_fmtint_emit :: "u32 \<Rightarrow> int \<Rightarrow> int \<Rightarrow> char option \<Rightarrow> string \<Rightarrow> writer" where
  "u_fmtint_emit t zpadlen spadlen signvalue convert currlen k =
     run_bind (u_outch_times t (nat spadlen) CHR '' '' currlen k) (\<lambda>currlen k.
     run_bind (u_sign t signvalue currlen k) (\<lambda>currlen k.
     run_bind (u_outch_times t (nat zpadlen) CHR ''0'' currlen k) (\<lambda>currlen k.
     run_bind (u_outch_all t (rev convert) currlen k)
       (u_outch_times t (nat (- spadlen)) CHR '' ''))))"

definition u_fmtint :: "u32 \<Rightarrow> int \<Rightarrow> u32 \<Rightarrow> int \<Rightarrow> int \<Rightarrow> u32 \<Rightarrow> writer" where
  "u_fmtint t value base mn mx flags currlen k =
     (let mx = (if mx < 0 then 0 else mx);
          signvalue = sign_of value flags;
          convert = convert_digits (has_flag flags DP_F_UP) base 20 (fmtint_uvalue value flags);
          place = (if length convert = 20 then 19 else length convert);
          (zpadlen, spadlen) = fmtint_pads mn mx flags (signvalue \<noteq> None) (int place)
      in u_fmtint_emit t zpadlen spadlen signvalue (take place convert) currlen k)"

definition u_fmtfp_emit :: "u32 \<Rightarrow> bool \<Rightarrow> int \<Rightarrow> char option \<Rightarrow> string \<Rightarrow> string \<Rightarrow> int \<Rightarrow> int \<Rightarrow> writer" where
  "u_fmtfp_emit t zero mx signvalue iconvert fconvert padlen zpadlen currlen k =
     (let z = (zero \<and> padlen > 0);
          zeros = (if z then nat (padlen - (if signvalue \<noteq> None then 1 else 0)) else 0);
          padlen = (if z then 0 else padlen)
      in run_bind (u_sign t (if z then signvalue else None) currlen k) (\<lambda>currlen k.
         run_bind (u_outch_times t zeros CHR ''0'' currlen k) (\<lambda>currlen k.
         run_bind (u_outch_times t (nat padlen) CHR '' '' currlen k) (\<lambda>currlen k.
         run_bind (u_sign t (if z then None else signvalue) currlen k) (\<lambda>currlen k.
         run_bind (u_outch_all t (rev iconvert) currlen k) (\<lambda>currlen k.
         run_bind (u_outch_all t (if mx > 0 then CHR ''.'' # rev fconvert else []) currlen k) (\<lambda>currlen k.
         run_bind (u_outch_times t (nat zpadlen) CHR ''0'' currlen k)
           (u_outch_times t (nat (- padlen)) CHR '' '')))))))) "

definition u_fmtfp :: "u32 \<Rightarrow> 'd fpu \<Rightarrow> 'd \<Rightarrow> int \<Rightarrow> int \<Rightarrow> u32 \<Rightarrow> writer" where
  "u_fmtfp t F fvalue mn mx flags currlen k =
     (let (mx, signvalue, iconvert, fconvert, padlen, zpadlen) = fmtfp_parts F fvalue mn mx flags
      in u_fmtfp_emit t (has_flag flags DP_F_ZERO) mx signvalue iconvert fconvert padlen zpadlen currlen k)"

text \<open>The locals of \<open>dopr\<close> are the kernel's; \<open>writing\<close> is a call with \<open>&currlen\<close>, \<open>locally\<close> a step without output.\<close>

definition writing :: "writer \<Rightarrow> 'd dopr \<Rightarrow> sys \<Rightarrow> 'd dopr run" where
  "writing w s k =
     run_bind (w (os_len (dp_out s)) k) (\<lambda>currlen k. done_with (s\<lparr>dp_out := \<lparr>os_out = [], os_len = currlen\<rparr>\<rparr>) k)"

definition locally :: "'a res \<Rightarrow> sys \<Rightarrow> 'a run" where
  "locally r k = (case r of Inl e \<Rightarrow> Some (Inl e) | Inr x \<Rightarrow> done_with x k)"

definition u_conv_int :: "u32 \<Rightarrow> u32 \<Rightarrow> 'd dopr \<Rightarrow> sys \<Rightarrow> 'd dopr run" where
  "u_conv_int t base s k =
     run_bind (locally (va_word s) k) (\<lambda>(w, s).
       writing (u_fmtint t (sint w) base (dp_min s) (dp_max s) (dp_flags s)) s)"

definition u_dopr_conv :: "u32 \<Rightarrow> 'd fpu \<Rightarrow> int \<Rightarrow> 'd dopr \<Rightarrow> sys \<Rightarrow> 'd dopr run" where
  "u_dopr_conv t F maxlen s k =
     (let ch = dp_ch s in
      if ch = CHR ''d'' \<or> ch = CHR ''i'' then u_conv_int t 10 s k
      else if ch = CHR ''o'' then u_conv_int t 8 (add_flag DP_F_UNSIGNED s) k
      else if ch = CHR ''u'' then u_conv_int t 10 (add_flag DP_F_UNSIGNED s) k
      else if ch = CHR ''X'' then u_conv_int t 16 (add_flag DP_F_UNSIGNED (add_flag DP_F_UP s)) k
      else if ch = CHR ''x'' then u_conv_int t 16 (add_flag DP_F_UNSIGNED s) k
      else if ch = CHR ''f'' then
        run_bind (locally (va_double s) k) (\<lambda>(d, s).
          writing (u_fmtfp t F d (dp_min s) (dp_max s) (dp_flags s)) s)
      else if ch = CHR ''E'' \<or> ch = CHR ''G'' then
        run_bind (locally (va_double (add_flag DP_F_UP s)) k) (\<lambda>(d, s). done_with s)
      else if ch = CHR ''e'' \<or> ch = CHR ''g'' then
        run_bind (locally (va_double s) k) (\<lambda>(d, s). done_with s)
      else if ch = CHR ''c'' then
        run_bind (locally (va_word s) k) (\<lambda>(w, s). writing (u_dopr_outch t (char_of (unat w))) s)
      else if ch = CHR ''s'' then
        run_bind (locally (va_str s) k) (\<lambda>(v, s).
          let mx = (if dp_max s < 0 then maxlen else dp_max s)
          in writing (u_fmtstr t v (dp_flags s) (dp_min s) mx) (s\<lparr>dp_max := mx\<rparr>))
      else if ch = CHR ''p'' then u_conv_int t 16 s k
      else if ch = CHR ''n'' then
        run_bind (locally (va_word s) k) (\<lambda>(w, s).
          done_with (s\<lparr>dp_stored := dp_stored s @ [(w, dp_cflags s, os_len (dp_out s))]\<rparr>))
      else if ch = CHR ''%'' then writing (u_dopr_outch t ch) s k
      else if ch = CHR ''w'' then locally (dopr_next s) k
      else done_with s k)"

text \<open>A turn of the loop; the states that write nothing are the kernel's.\<close>

definition u_dopr_turn :: "u32 \<Rightarrow> 'd fpu \<Rightarrow> int \<Rightarrow> 'd dopr \<Rightarrow> sys \<Rightarrow> 'd dopr run" where
  "u_dopr_turn t F maxlen s k =
     (case dp_state s of
        DP_S_DEFAULT \<Rightarrow>
          run_bind (if dp_ch s = CHR ''%'' then done_with (s\<lparr>dp_state := DP_S_FLAGS\<rparr>) k
                    else writing (u_dopr_outch t (dp_ch s)) s k) (\<lambda>s. locally (dopr_next s))
      | DP_S_CONV \<Rightarrow>
          run_bind (u_dopr_conv t F maxlen s k) (\<lambda>s k.
          run_bind (locally (dopr_next s) k) (\<lambda>s.
          done_with (s\<lparr>dp_state := DP_S_DEFAULT, dp_flags := 0, dp_cflags := DP_C_NONE, dp_min := 0, dp_max := -1\<rparr>)))
      | _ \<Rightarrow> locally (dopr_turn F maxlen s) k)"

partial_function (option) u_dopr_loop :: "u32 \<Rightarrow> 'd fpu \<Rightarrow> int \<Rightarrow> 'd dopr \<Rightarrow> sys \<Rightarrow> 'd dopr run" where
  "u_dopr_loop t F maxlen s k =
     (if dp_state s = DP_S_DONE then done_with s k
      else if dp_ch s = NUL \<or> os_len (dp_out s) \<ge> maxlen then
        u_dopr_loop t F maxlen (s\<lparr>dp_state := DP_S_DONE\<rparr>) k
      else run_bind (u_dopr_turn t F maxlen s k) (u_dopr_loop t F maxlen))"

definition u_dopr :: "u32 \<Rightarrow> 'd fpu \<Rightarrow> int \<Rightarrow> string \<Rightarrow> 'd vararg list \<Rightarrow> sys \<Rightarrow> 'd dopr run" where
  "u_dopr t F maxlen fmt args k =
     run_bind (locally (dopr_next (dopr_init fmt args)) k) (u_dopr_loop t F maxlen)"

definition u_vprintf :: "'d fpu \<Rightarrow> u32 \<Rightarrow> string \<Rightarrow> 'd vararg list \<Rightarrow> sys \<Rightarrow> u32 run" where
  "u_vprintf F t fmt args k = run_bind (u_dopr t F 1000 fmt args k) (\<lambda>_. done_with 1)"

definition u_printf :: "'d fpu \<Rightarrow> u32 \<Rightarrow> string \<Rightarrow> 'd vararg list \<Rightarrow> sys \<Rightarrow> u32 run" where
  "u_printf F t fmt args k = run_bind (u_vprintf F t fmt args k) (\<lambda>n. done_with n)"

section \<open>What a function writes\<close>

lemma run_bind_assoc: "run_bind (run_bind m f) g = run_bind m (\<lambda>x k. run_bind (f x k) g)"
  by (auto simp: run_bind_def split: option.split sum.split bind_splits)

lemma run_bind_done [simp]: "run_bind (done_with x k) f = f x k"
  by (simp add: done_with_def)

lemma run_bind_unit [simp]: "run_bind m done_with = m"
  by (auto simp: run_bind_def done_with_def split: option.split sum.split bind_splits)

lemma run_bind_eqI: "(\<And>x k. f x k = g x k) \<Longrightarrow> run_bind m f = run_bind m g"
  by (rule arg_cong [where f = "run_bind m"]) (simp add: fun_eq_iff)

lemma put_chars_append: "put_chars t (cs @ ds) k = run_bind (put_chars t cs k) (\<lambda>_. put_chars t ds)"
  by (induction cs arbitrary: k) (auto simp: run_bind_assoc intro!: run_bind_eqI)

text \<open>
  A writer of the program and a function on the kernel's stream agree: they write the same characters.
\<close>

definition agree :: "u32 \<Rightarrow> writer \<Rightarrow> (ostream \<Rightarrow> ostream) \<Rightarrow> bool" where
  "agree t w f \<longleftrightarrow> (\<exists>cs.
     (\<forall>l k. w l k = run_bind (put_chars t (map byte cs) k) (\<lambda>_. done_with (l + int (length cs)))) \<and>
     (\<forall>b. f b = \<lparr>os_out = os_out b @ cs, os_len = os_len b + int (length cs)\<rparr>))"

lemma agreeI:
  "(\<And>l k. w l k = run_bind (put_chars t (map byte cs) k) (\<lambda>_. done_with (l + int (length cs)))) \<Longrightarrow>
   (\<And>b. f b = \<lparr>os_out = os_out b @ cs, os_len = os_len b + int (length cs)\<rparr>) \<Longrightarrow> agree t w f"
  by (auto simp: agree_def)

named_theorems agree_intros

lemma agree_done [agree_intros]: "agree t done_with (\<lambda>b. b)"
  by (rule agreeI [of _ _ "[]"]) simp_all

lemma agree_bind [agree_intros]:
  assumes "agree t w f" "agree t w' f'"
  shows "agree t (\<lambda>l k. run_bind (w l k) w') (\<lambda>b. f' (f b))"
proof -
  obtain cs where cs: "\<And>l k. w l k = run_bind (put_chars t (map byte cs) k) (\<lambda>_. done_with (l + int (length cs)))"
    "\<And>b. f b = \<lparr>os_out = os_out b @ cs, os_len = os_len b + int (length cs)\<rparr>" using assms(1) by (auto simp: agree_def)
  obtain ds where ds: "\<And>l k. w' l k = run_bind (put_chars t (map byte ds) k) (\<lambda>_. done_with (l + int (length ds)))"
    "\<And>b. f' b = \<lparr>os_out = os_out b @ ds, os_len = os_len b + int (length ds)\<rparr>" using assms(2) by (auto simp: agree_def)
  show ?thesis
    by (rule agreeI [of _ _ "cs @ ds"]) (simp_all add: cs ds put_chars_append run_bind_assoc add.assoc)
qed

lemma agree_outch [agree_intros]: "agree t (u_dopr_outch t c) (dopr_outch c)"
  by (rule agreeI [of _ _ "[c]"]) (simp_all add: u_dopr_outch_def dopr_outch_def run_bind_assoc)

lemma agree_times [agree_intros]: "agree t (u_outch_times t n c) (outch_times n c)"
proof (induction n)
  case 0
  have "u_outch_times t 0 c = done_with" "outch_times 0 c = (\<lambda>b. b)" by (simp_all add: fun_eq_iff)
  then show ?case by (simp add: agree_done)
next
  case (Suc n)
  have "u_outch_times t (Suc n) c = (\<lambda>l k. run_bind (u_dopr_outch t c l k) (u_outch_times t n c))"
    "outch_times (Suc n) c = (\<lambda>b. outch_times n c (dopr_outch c b))" by (simp_all add: fun_eq_iff)
  then show ?case by (simp only: agree_bind [OF agree_outch Suc])
qed

lemma agree_all [agree_intros]: "agree t (u_outch_all t cs) (fold dopr_outch cs)"
proof (induction cs)
  case Nil
  have "u_outch_all t [] = done_with" "fold dopr_outch [] = (\<lambda>b. b)" by (simp_all add: fun_eq_iff)
  then show ?case using agree_done [of t] by (simp only: )
next
  case (Cons c cs)
  have "u_outch_all t (c # cs) = (\<lambda>l k. run_bind (u_dopr_outch t c l k) (u_outch_all t cs))"
    "fold dopr_outch (c # cs) = (\<lambda>b. fold dopr_outch cs (dopr_outch c b))" by (simp_all add: fun_eq_iff)
  then show ?case by (simp only: agree_bind [OF agree_outch Cons])
qed

lemma agree_sign [agree_intros]:
  "agree t (u_sign t signvalue) (\<lambda>b. case signvalue of None \<Rightarrow> b | Some c \<Rightarrow> dopr_outch c b)"
proof (cases signvalue)
  case None
  then have "u_sign t signvalue = done_with" by (simp add: fun_eq_iff u_sign_def)
  then show ?thesis using None by (simp add: agree_done)
next
  case (Some c)
  then have "u_sign t signvalue = u_dopr_outch t c" by (simp add: fun_eq_iff u_sign_def)
  then show ?thesis using Some agree_outch [of t c] by simp
qed

lemma agree_fmtint: "agree t (u_fmtint t value base mn mx flags) (fmtint value base mn mx flags)"
proof -
  have "agree t (u_fmtint_emit t z s sg cv) (fmtint_emit z s sg cv)" for z s sg cv
    unfolding u_fmtint_emit_def [abs_def] fmtint_emit_def [abs_def] Let_def
    by (intro agree_bind agree_times agree_sign agree_all)
  then show ?thesis
    by (simp add: u_fmtint_def [abs_def] fmtint_def [abs_def] Let_def split_beta)
qed

text \<open>The loops of \<open>fmtstr\<close>, which count up to a limit.\<close>

lemma fmtstr_pad_writes:
  "fmtstr_pad n cnt mx b = (let cs = replicate (min n (nat (mx - cnt))) CHR '' '' in (cnt + int (length cs), fold dopr_outch cs b))"
  "u_fmtstr_pad t n cnt mx l k = (let cs = replicate (min n (nat (mx - cnt))) CHR '' '' in
     run_bind (u_outch_all t cs l k) (\<lambda>l. done_with (cnt + int (length cs), l)))"
proof -
  have m: "min (Suc n) (nat (mx - cnt)) = Suc (min n (nat (mx - (cnt + 1))))" if "cnt < mx" for n cnt
    using that by (simp add: min_def) linarith
  show "fmtstr_pad n cnt mx b = (let cs = replicate (min n (nat (mx - cnt))) CHR '' '' in (cnt + int (length cs), fold dopr_outch cs b))"
    by (induction n arbitrary: cnt b) (simp_all add: m Let_def funpow_swap1 del: min_Suc1)
  show "u_fmtstr_pad t n cnt mx l k = (let cs = replicate (min n (nat (mx - cnt))) CHR '' '' in
     run_bind (u_outch_all t cs l k) (\<lambda>l. done_with (cnt + int (length cs), l)))"
    by (induction n arbitrary: cnt l k) (auto simp: m Let_def run_bind_assoc add.assoc simp del: min_Suc1 intro!: run_bind_eqI)
qed

lemma fmtstr_copy_writes:
  "fmtstr_copy str cnt mx b = (let cs = take (nat (mx - cnt)) str in (cnt + int (length cs), fold dopr_outch cs b))"
  "u_fmtstr_copy t str cnt mx l k = (let cs = take (nat (mx - cnt)) str in
     run_bind (u_outch_all t cs l k) (\<lambda>l. done_with (cnt + int (length cs), l)))"
proof -
  have m: "nat (mx - cnt) = Suc (nat (mx - (cnt + 1)))" if "cnt < mx" for cnt
    using that by linarith
  show "fmtstr_copy str cnt mx b = (let cs = take (nat (mx - cnt)) str in (cnt + int (length cs), fold dopr_outch cs b))"
    by (induction str arbitrary: cnt b) (simp_all add: m Let_def)
  show "u_fmtstr_copy t str cnt mx l k = (let cs = take (nat (mx - cnt)) str in
     run_bind (u_outch_all t cs l k) (\<lambda>l. done_with (cnt + int (length cs), l)))"
    by (induction str arbitrary: cnt l k) (auto simp: m Let_def run_bind_assoc add.assoc intro!: run_bind_eqI)
qed

lemma agree_fmtstr: "agree t (u_fmtstr t value flags mn mx) (fmtstr value flags mn mx)"
  unfolding u_fmtstr_def [abs_def] fmtstr_def [abs_def] Let_def fmtstr_pad_writes fmtstr_copy_writes split_conv run_bind_assoc run_bind_done
  by (rule agree_all agree_done agree_bind)+

lemma agree_fmtfp: "agree t (u_fmtfp t F fvalue mn mx flags) (fmtfp F fvalue mn mx flags)"
proof -
  have p: "agree t (u_outch_all t (CHR ''.'' # rev fc)) (\<lambda>b. fold dopr_outch (rev fc) (dopr_outch CHR ''.'' b))" for fc
    using agree_all [of t "CHR ''.'' # rev fc"] by (simp add: comp_def)
  have d: "agree t (u_outch_all t (if mx > 0 then CHR ''.'' # rev fc else []))
      (\<lambda>b. if mx > 0 then fold dopr_outch (rev fc) (dopr_outch CHR ''.'' b) else b)" for mx :: int and fc
    using p [of fc] agree_all [of t "[]"] by (simp add: id_def)
  have "agree t (u_fmtfp_emit t zero mx sg ic fc pad zpad) (fmtfp_emit zero mx sg ic fc pad zpad)" for zero mx sg ic fc pad zpad
  proof -
    let ?rest = "\<lambda>pad l k. run_bind (u_outch_all t (rev ic) l k) (\<lambda>l k.
        run_bind (u_outch_all t (if mx > 0 then CHR ''.'' # rev fc else []) l k) (\<lambda>l k.
        run_bind (u_outch_times t (nat zpad) CHR ''0'' l k) (u_outch_times t (nat (- pad)) CHR '' '')))"
    let ?krest = "\<lambda>pad b. outch_times (nat (- pad)) CHR '' '' (outch_times (nat zpad) CHR ''0''
        (if mx > 0 then fold dopr_outch (rev fc) (dopr_outch CHR ''.'' (fold dopr_outch (rev ic) b)) else fold dopr_outch (rev ic) b))"
    have r: "agree t (?rest pad) (?krest pad)" for pad
      by (rule agree_all d agree_times agree_bind)+
    show ?thesis
    proof (cases "zero \<and> pad > 0")
      case False
      then have z: "(zero \<and> pad > 0) = False" by simp
      have "u_fmtfp_emit t zero mx sg ic fc pad zpad =
          (\<lambda>l k. run_bind (u_outch_times t (nat pad) CHR '' '' l k) (\<lambda>l k. run_bind (u_sign t sg l k) (?rest pad)))"
        unfolding fun_eq_iff u_fmtfp_emit_def Let_def z by (simp add: u_sign_def)
      moreover have "fmtfp_emit zero mx sg ic fc pad zpad =
          (\<lambda>b. ?krest pad (case sg of None \<Rightarrow> outch_times (nat pad) CHR '' '' b | Some c \<Rightarrow> dopr_outch c (outch_times (nat pad) CHR '' '' b)))"
        unfolding fun_eq_iff fmtfp_emit_def Let_def z by (simp split: option.split)
      ultimately show ?thesis by (simp only: agree_bind [OF agree_times agree_bind [OF agree_sign r]])
    next
      case True
      let ?n = "nat (pad - (if sg \<noteq> None then 1 else 0))"
      have "u_fmtfp_emit t zero mx sg ic fc pad zpad =
          (\<lambda>l k. run_bind (u_sign t sg l k) (\<lambda>l k. run_bind (u_outch_times t ?n CHR ''0'' l k) (?rest 0)))"
        using True by (simp add: fun_eq_iff u_fmtfp_emit_def u_sign_def Let_def)
      moreover have "fmtfp_emit zero mx sg ic fc pad zpad =
          (\<lambda>b. ?krest 0 (outch_times ?n CHR ''0'' (case sg of None \<Rightarrow> b | Some c \<Rightarrow> dopr_outch c b)))"
        using True by (auto simp: fun_eq_iff fmtfp_emit_def Let_def split: option.split)
      ultimately show ?thesis by (simp only: agree_bind [OF agree_sign agree_bind [OF agree_times r]])
    qed
  qed
  then show ?thesis
    by (simp add: u_fmtfp_def [abs_def] fmtfp_def [abs_def] Let_def split_beta)
qed

section \<open>The state machine\<close>

text \<open>The program's locals: the kernel's, without what the stream holds.\<close>

definition strip :: "'d dopr \<Rightarrow> 'd dopr" where
  "strip s = s\<lparr>dp_out := (dp_out s)\<lparr>os_out := []\<rparr>\<rparr>"

lemma strip_simps [simp]:
  "dp_ch (strip s) = dp_ch s" "dp_fmt (strip s) = dp_fmt s" "dp_args (strip s) = dp_args s"
  "dp_state (strip s) = dp_state s" "dp_min (strip s) = dp_min s" "dp_max (strip s) = dp_max s"
  "dp_flags (strip s) = dp_flags s" "dp_cflags (strip s) = dp_cflags s" "dp_stored (strip s) = dp_stored s"
  "os_len (dp_out (strip s)) = os_len (dp_out s)" "os_out (dp_out (strip s)) = []"
  by (simp_all add: strip_def)

definition rmap :: "('a \<Rightarrow> 'b) \<Rightarrow> 'a res \<Rightarrow> 'b res" where
  "rmap f r = rbind r (\<lambda>x. Inr (f x))"

lemma rmap_simps [simp]: "rmap f (Inl e) = Inl e" "rmap f (Inr x) = Inr (f x)"
  by (simp_all add: rmap_def)

text \<open>
  A step of the program follows a step of the kernel: it writes some characters and then does what the kernel does; when
  the kernel goes on, these are the characters the stream has got.
\<close>

definition follows :: "u32 \<Rightarrow> 'd dopr \<Rightarrow> (sys \<Rightarrow> 'd dopr run) \<Rightarrow> 'd dopr res \<Rightarrow> bool" where
  "follows t s m r \<longleftrightarrow> (\<exists>cs.
     (\<forall>k. m k = run_bind (put_chars t (map byte cs) k) (\<lambda>_. locally (rmap strip r))) \<and>
     (\<forall>s'. r = Inr s' \<longrightarrow> os_out (dp_out s') = os_out (dp_out s) @ cs))"

lemma locally_simps [simp]: "locally (Inl e) = (\<lambda>k. Some (Inl e))" "locally (Inr x) = done_with x"
  by (simp_all add: locally_def fun_eq_iff)

lemma follows_quiet:
  assumes "\<And>k. m k = locally (rmap strip r) k" "\<And>s'. r = Inr s' \<Longrightarrow> dp_out s' = dp_out s"
  shows "follows t s m r"
  unfolding follows_def using assms by (intro exI [of _ "[]"]) auto

lemma follows_writing:
  assumes "agree t w f"
  shows "follows t s (writing w (strip s)) (Inr (s\<lparr>dp_out := f (dp_out s)\<rparr>))"
proof -
  obtain cs where cs: "\<And>l k. w l k = run_bind (put_chars t (map byte cs) k) (\<lambda>_. done_with (l + int (length cs)))"
    "\<And>b. f b = \<lparr>os_out = os_out b @ cs, os_len = os_len b + int (length cs)\<rparr>" using assms(1) by (auto simp: agree_def)
  show ?thesis
    unfolding follows_def
    by (intro exI [of _ cs]) (simp add: writing_def cs run_bind_assoc strip_def)
qed

lemma follows_bind:
  assumes "follows t s m r" "\<And>s'. r = Inr s' \<Longrightarrow> follows t s' (g (strip s')) (h s')"
  shows "follows t s (\<lambda>k. run_bind (m k) g) (rbind r h)"
proof -
  obtain cs where cs: "\<And>k. m k = run_bind (put_chars t (map byte cs) k) (\<lambda>_. locally (rmap strip r))"
    "\<And>s'. r = Inr s' \<Longrightarrow> os_out (dp_out s') = os_out (dp_out s) @ cs" using assms(1) by (auto simp: follows_def)
  show ?thesis
  proof (cases r)
    case (Inl e)
    have "run_bind (m k) g = run_bind (put_chars t (map byte cs) k) (\<lambda>_. locally (rmap strip (rbind r h)))" for k
      unfolding cs(1) run_bind_assoc by (rule run_bind_eqI) (simp add: Inl)
    then show ?thesis unfolding follows_def by (intro exI [of _ cs]) (simp add: Inl)
  next
    case (Inr s')
    obtain ds where ds: "\<And>k. g (strip s') k = run_bind (put_chars t (map byte ds) k) (\<lambda>_. locally (rmap strip (h s')))"
      "\<And>s''. h s' = Inr s'' \<Longrightarrow> os_out (dp_out s'') = os_out (dp_out s') @ ds" using assms(2) [OF Inr] by (auto simp: follows_def)
    have "run_bind (m k) g = run_bind (put_chars t (map byte (cs @ ds)) k) (\<lambda>_. locally (rmap strip (rbind r h)))" for k
      unfolding cs(1) map_append put_chars_append run_bind_assoc by (rule run_bind_eqI) (simp add: Inr ds(1))
    then show ?thesis unfolding follows_def
      by (intro exI [of _ "cs @ ds"]) (use cs(2) [OF Inr] ds(2) in \<open>simp add: Inr\<close>)
  qed
qed

text \<open>The pure steps do not look at the stream.\<close>

lemma strip_out [simp]: "strip (s\<lparr>dp_out := b\<rparr>) = s\<lparr>dp_out := b\<lparr>os_out := []\<rparr>\<rparr>"
  by (simp add: strip_def)

lemma dopr_next_strip: "dopr_next (strip s) = rmap strip (dopr_next s)"
  by (simp add: dopr_next_def strip_def split: option.split list.split)

lemma dopr_next_out: "dopr_next s = Inr s' \<Longrightarrow> dp_out s' = dp_out s"
  by (auto simp: dopr_next_def split: option.splits list.splits)

lemma va_word_strip: "va_word (strip s) = rmap (\<lambda>(w, s). (w, strip s)) (va_word s)"
  by (simp add: va_word_def strip_def split: list.split vararg.split)

lemma va_str_strip: "va_str (strip s) = rmap (\<lambda>(w, s). (w, strip s)) (va_str s)"
  by (simp add: va_str_def strip_def split: list.split vararg.split)

lemma va_double_strip: "va_double (strip s) = rmap (\<lambda>(w, s). (w, strip s)) (va_double s)"
  by (simp add: va_double_def strip_def split: list.split vararg.split)

lemma va_out:
  "va_word s = Inr (w, s') \<Longrightarrow> dp_out s' = dp_out s" "va_str s = Inr (v, s') \<Longrightarrow> dp_out s' = dp_out s"
  "va_double s = Inr (d, s') \<Longrightarrow> dp_out s' = dp_out s"
  by (auto simp: va_word_def va_str_def va_double_def split: list.splits vararg.splits if_splits)

lemma add_flag_strip: "add_flag f (strip s) = strip (add_flag f s)"
  by (simp add: add_flag_def strip_def)

lemma strip_update:
  "(strip s)\<lparr>dp_state := st\<rparr> = strip (s\<lparr>dp_state := st\<rparr>)" "(strip s)\<lparr>dp_min := n\<rparr> = strip (s\<lparr>dp_min := n\<rparr>)"
  "(strip s)\<lparr>dp_max := n\<rparr> = strip (s\<lparr>dp_max := n\<rparr>)" "(strip s)\<lparr>dp_cflags := cf\<rparr> = strip (s\<lparr>dp_cflags := cf\<rparr>)"
  "(strip s)\<lparr>dp_flags := fl\<rparr> = strip (s\<lparr>dp_flags := fl\<rparr>)" "(strip s)\<lparr>dp_stored := ls\<rparr> = strip (s\<lparr>dp_stored := ls\<rparr>)"
  by (simp_all add: strip_def)

lemma follows_next: "follows t s (locally (dopr_next (strip s))) (dopr_next s)"
  by (rule follows_quiet) (simp_all add: dopr_next_strip dopr_next_out)

lemma follows_done: "dp_out s' = dp_out s \<Longrightarrow> follows t s (done_with (strip s')) (Inr s')"
  by (rule follows_quiet) auto

lemma rmap_rbind: "rmap f (rbind m g) = rbind m (\<lambda>x. rmap f (g x))" "rbind (rmap f m) g = rbind m (\<lambda>x. g (f x))"
  by (simp_all add: rmap_def rbind_assoc)

lemma follows_inner:
  assumes "dp_state s \<noteq> DP_S_DEFAULT" "dp_state s \<noteq> DP_S_CONV"
  shows "follows t s (locally (dopr_turn F maxlen (strip s))) (dopr_turn F maxlen s)"
proof (rule follows_quiet)
  have "dopr_turn F maxlen (strip s) = rmap strip (dopr_turn F maxlen s)"
    using assms
    by (cases "dp_state s"; cases "va_word s")
      (simp_all add: dopr_turn_def Let_def strip_update dopr_next_strip add_flag_strip va_word_strip rmap_rbind split_beta)
  then show "locally (dopr_turn F maxlen (strip s)) k = locally (rmap strip (dopr_turn F maxlen s)) k" for k by simp
  show "dp_out s' = dp_out s" if "dopr_turn F maxlen s = Inr s'" for s'
    using assms that
    by (cases "dp_state s"; cases "va_word s")
      (auto simp: dopr_turn_def Let_def add_flag_def rbind_Inr_conv dest!: dopr_next_out va_out(1) split: if_splits)
qed

text \<open>A step that takes an argument.\<close>

lemma follows_va:
  assumes "va (strip s) = rmap (\<lambda>(w, s'). (w, strip s')) (va s)" "\<And>w s'. va s = Inr (w, s') \<Longrightarrow> dp_out s' = dp_out s"
    and "\<And>w s'. va s = Inr (w, s') \<Longrightarrow> follows t s' (g (w, strip s')) (h (w, s'))"
  shows "follows t s (\<lambda>k. run_bind (locally (va (strip s)) k) g) (rbind (va s) h)"
proof (cases "va s")
  case (Inl e)
  then show ?thesis by (auto simp: assms(1) intro!: follows_quiet)
next
  case (Inr x)
  obtain w s1 where x: "x = (w, s1)" by (cases x)
  have o: "dp_out s1 = dp_out s" using assms(2) Inr x by blast
  have "follows t s1 (g (w, strip s1)) (h (w, s1))" using assms(3) Inr x by blast
  then show ?thesis using Inr x o by (simp add: assms(1) follows_def)
qed

lemma follows_out: "follows t s1 m r \<Longrightarrow> dp_out s1 = dp_out s \<Longrightarrow> follows t s m r"
  by (simp add: follows_def)

lemma follows_conv_int: "follows t s (u_conv_int t base (strip s)) (conv_int base s)"
  unfolding u_conv_int_def [abs_def] conv_int_def
  by (rule follows_va [where va = va_word, OF va_word_strip va_out(1)], assumption)
    (simp add: follows_writing [OF agree_fmtint])

lemma follows_if:
  "follows t s m r \<Longrightarrow> follows t s m' r' \<Longrightarrow> follows t s (\<lambda>k. if b then m k else m' k) (if b then r else r')"
  by simp

lemma follows_conv: "follows t s (u_dopr_conv t F maxlen (strip s)) (dopr_conv F maxlen s)"
proof -
  have i: "follows t s (u_conv_int t base (add_flag f (strip s))) (conv_int base (add_flag f s))" for base f
    unfolding add_flag_strip using follows_conv_int [of t "add_flag f s" base] by (simp add: follows_def add_flag_def)
  have i2: "follows t s (u_conv_int t base (add_flag f (add_flag g (strip s)))) (conv_int base (add_flag f (add_flag g s)))" for base f g
    unfolding add_flag_strip using follows_conv_int [of t "add_flag f (add_flag g s)" base] by (simp add: follows_def add_flag_def)
  have f: "follows t s (\<lambda>k. run_bind (locally (va_double (strip s)) k)
        (\<lambda>(d, s). writing (u_fmtfp t F d (dp_min s) (dp_max s) (dp_flags s)) s))
      (rbind (va_double s) (\<lambda>(d, s1). Inr (s1\<lparr>dp_out := fmtfp F d (dp_min s1) (dp_max s1) (dp_flags s1) (dp_out s1)\<rparr>)))"
    by (rule follows_va [where va = va_double, OF va_double_strip va_out(3)], assumption) (simp add: follows_writing [OF agree_fmtfp])
  have e: "follows t s (\<lambda>k. run_bind (locally (va_double (strip s)) k) (\<lambda>(d, s). done_with s))
      (rbind (va_double s) (\<lambda>(d, s1). Inr s1))" for s :: "'a dopr"
    by (rule follows_va [where va = va_double, OF va_double_strip va_out(3)], assumption) (simp add: follows_done)
  have e2: "follows t s (\<lambda>k. run_bind (locally (va_double (add_flag f (strip s))) k) (\<lambda>(d, s). done_with s))
      (rbind (va_double (add_flag f s)) (\<lambda>(d, s1). Inr s1))" for f
    unfolding add_flag_strip using e [of "add_flag f s"] by (simp add: follows_def add_flag_def)
  have c: "follows t s (\<lambda>k. run_bind (locally (va_word (strip s)) k) (\<lambda>(w, s). writing (u_dopr_outch t (char_of (unat w))) s))
      (rbind (va_word s) (\<lambda>(w, s1). Inr (s1\<lparr>dp_out := dopr_outch (char_of (unat w)) (dp_out s1)\<rparr>)))"
    by (rule follows_va [where va = va_word, OF va_word_strip va_out(1)], assumption) (simp add: follows_writing [OF agree_outch])
  have n: "follows t s (\<lambda>k. run_bind (locally (va_word (strip s)) k) (\<lambda>(w, s).
          done_with (s\<lparr>dp_stored := dp_stored s @ [(w, dp_cflags s, os_len (dp_out s))]\<rparr>)))
      (rbind (va_word s) (\<lambda>(w, s1). Inr (s1\<lparr>dp_stored := dp_stored s1 @ [(w, dp_cflags s1, os_len (dp_out s1))]\<rparr>)))"
    by (rule follows_va [where va = va_word, OF va_word_strip va_out(1)], assumption) (simp add: strip_update follows_done)
  have st: "follows t s (\<lambda>k. run_bind (locally (va_str (strip s)) k) (\<lambda>(v, s).
          let mx = (if dp_max s < 0 then maxlen else dp_max s)
          in writing (u_fmtstr t v (dp_flags s) (dp_min s) mx) (s\<lparr>dp_max := mx\<rparr>)))
      (rbind (va_str s) (\<lambda>(v, s1).
          let mx = (if dp_max s1 < 0 then maxlen else dp_max s1)
          in Inr (s1\<lparr>dp_max := mx, dp_out := fmtstr v (dp_flags s1) (dp_min s1) mx (dp_out s1)\<rparr>)))"
  proof (rule follows_va [where va = va_str, OF va_str_strip va_out(2)], assumption)
    fix v and s' :: "'a dopr"
    let ?mx = "if dp_max s' < 0 then maxlen else dp_max s'"
    have "follows t (s'\<lparr>dp_max := ?mx\<rparr>) (writing (u_fmtstr t v (dp_flags s') (dp_min s') ?mx) (strip (s'\<lparr>dp_max := ?mx\<rparr>)))
        (Inr (s'\<lparr>dp_max := ?mx, dp_out := fmtstr v (dp_flags s') (dp_min s') ?mx (dp_out s')\<rparr>))"
      using follows_writing [OF agree_fmtstr, of t "s'\<lparr>dp_max := ?mx\<rparr>" v "dp_flags s'" "dp_min s'" ?mx] by simp
    then show "follows t s' (case (v, strip s') of (v, s) \<Rightarrow>
          let mx = (if dp_max s < 0 then maxlen else dp_max s)
          in writing (u_fmtstr t v (dp_flags s) (dp_min s) mx) (s\<lparr>dp_max := mx\<rparr>))
        (case (v, s') of (v, s1) \<Rightarrow>
          let mx = (if dp_max s1 < 0 then maxlen else dp_max s1)
          in Inr (s1\<lparr>dp_max := mx, dp_out := fmtstr v (dp_flags s1) (dp_min s1) mx (dp_out s1)\<rparr>))"
      using follows_out [of t "s'\<lparr>dp_max := ?mx\<rparr>" _ _ s'] by (cases "dp_max s' < 0") (simp_all add: strip_update Let_def)
  qed
  show ?thesis
    unfolding u_dopr_conv_def [abs_def] dopr_conv_def Let_def strip_simps
    by (intro follows_if follows_conv_int i i2 f e e2 c n st [unfolded Let_def] follows_next follows_writing [OF agree_outch]
      follows_done refl)
qed

lemma follows_turn: "follows t s (u_dopr_turn t F maxlen (strip s)) (dopr_turn F maxlen s)"
proof (cases "dp_state s")
  case DP_S_DEFAULT
  let ?r = "if dp_ch s = CHR ''%'' then s\<lparr>dp_state := DP_S_FLAGS\<rparr> else s\<lparr>dp_out := dopr_outch (dp_ch s) (dp_out s)\<rparr>"
  have "follows t s (\<lambda>k. if dp_ch s = CHR ''%'' then done_with ((strip s)\<lparr>dp_state := DP_S_FLAGS\<rparr>) k
      else writing (u_dopr_outch t (dp_ch s)) (strip s) k) (Inr ?r)"
    using follows_done [of "s\<lparr>dp_state := DP_S_FLAGS\<rparr>" s t] follows_writing [OF agree_outch, of t s "dp_ch s"]
    by (simp add: strip_update)
  from follows_bind [OF this, where g = "\<lambda>s. locally (dopr_next s)" and h = dopr_next] show ?thesis
    using DP_S_DEFAULT by (cases "dp_ch s = CHR ''%''") (simp_all add: u_dopr_turn_def [abs_def] dopr_turn_def Let_def follows_next)
next
  case DP_S_CONV
  let ?z = "\<lambda>s :: 'a dopr. s\<lparr>dp_state := DP_S_DEFAULT, dp_flags := 0, dp_cflags := DP_C_NONE, dp_min := 0, dp_max := -1\<rparr>"
  have "follows t s' (\<lambda>k. run_bind (locally (dopr_next (strip s')) k) (\<lambda>s. done_with (?z s)))
      (rbind (dopr_next s') (\<lambda>s. Inr (?z s)))" for s'
    by (rule follows_bind [OF follows_next, where g = "\<lambda>s. done_with (?z s)" and h = "\<lambda>s. Inr (?z s)"])
      (auto simp: strip_update intro!: follows_done)
  from follows_bind [OF follows_conv this] show ?thesis
    using DP_S_CONV by (simp add: u_dopr_turn_def [abs_def] dopr_turn_def Let_def)
qed (use follows_inner [of s t F maxlen] in \<open>simp_all add: u_dopr_turn_def [abs_def]\<close>)

lemma follows_loop: "dopr_loop F maxlen s = Some r \<Longrightarrow> follows t s (u_dopr_loop t F maxlen (strip s)) r"
proof (rule dopr_loop.raw_induct [where P = "\<lambda>F maxlen s r. follows t s (u_dopr_loop t F maxlen (strip s)) r"])
  fix loop :: "'a fpu \<Rightarrow> int \<Rightarrow> 'a dopr \<Rightarrow> 'a dopr res option" and F maxlen s r
  assume IH: "\<And>F maxlen s r. loop F maxlen s = Some r \<Longrightarrow> follows t s (u_dopr_loop t F maxlen (strip s)) r"
    and st: "(if dp_state s = DP_S_DONE then Some (Inr s)
      else if dp_ch s = NUL \<or> os_len (dp_out s) \<ge> maxlen then loop F maxlen (s\<lparr>dp_state := DP_S_DONE\<rparr>)
      else case dopr_turn F maxlen s of Inl e \<Rightarrow> Some (Inl e) | Inr s' \<Rightarrow> loop F maxlen s') = Some r"
  show "follows t s (u_dopr_loop t F maxlen (strip s)) r"
  proof (cases "dp_state s = DP_S_DONE")
    case True
    then have "u_dopr_loop t F maxlen (strip s) = done_with (strip s)" by (simp add: fun_eq_iff u_dopr_loop.simps)
    then show ?thesis using True st by (auto intro!: follows_done)
  next
    case D: False
    show ?thesis
    proof (cases "dp_ch s = NUL \<or> os_len (dp_out s) \<ge> maxlen")
      case True
      then have "u_dopr_loop t F maxlen (strip s) = u_dopr_loop t F maxlen (strip (s\<lparr>dp_state := DP_S_DONE\<rparr>))"
        using D by (subst fun_eq_iff, subst u_dopr_loop.simps) (auto simp: strip_update)
      moreover have "follows t (s\<lparr>dp_state := DP_S_DONE\<rparr>) (u_dopr_loop t F maxlen (strip (s\<lparr>dp_state := DP_S_DONE\<rparr>))) r"
        using IH st D True by auto
      ultimately show ?thesis by (simp add: follows_def)
    next
      case False
      then have "u_dopr_loop t F maxlen (strip s) = (\<lambda>k. run_bind (u_dopr_turn t F maxlen (strip s) k) (u_dopr_loop t F maxlen))"
        using D by (subst fun_eq_iff, subst u_dopr_loop.simps) auto
      moreover have "follows t s (\<lambda>k. run_bind (u_dopr_turn t F maxlen (strip s) k) (u_dopr_loop t F maxlen))
          (rbind (dopr_turn F maxlen s) (\<lambda>_. r))"
        using st D False by (intro follows_bind [OF follows_turn] IH) auto
      moreover have "rbind (dopr_turn F maxlen s) (\<lambda>_. r) = r" using st D False by (cases "dopr_turn F maxlen s") auto
      ultimately show ?thesis by simp
    qed
  qed
qed

section \<open>Properties\<close>

text \<open>
  C15. A program's \<open>printf\<close>, which makes a system call for each character while it formats, does what formatting the whole
  and writing it afterwards does, on every format and whatever the calls do: block, end the process or fail. It always gets
  to the end of the format, or to a fault of the format before which it has written some characters.
\<close>

theorem user_printf_writes:
  "(\<exists>out. vsnprintf F 1000 fmt args = Some (Inr out) \<and> (\<forall>k. u_printf F t fmt args k = printf F t fmt args k)) \<or>
   (\<exists>e cs. vsnprintf F 1000 fmt args = Some (Inl e) \<and>
     (\<forall>k. u_printf F t fmt args k = run_bind (put_chars t cs k) (\<lambda>_ _. Some (Inl e))))"
proof -
  have z: "strip (dopr_init fmt args) = dopr_init fmt args" by (simp add: strip_def dopr_init_def)
  obtain r where r: "(case dopr_next (dopr_init fmt args) of Inl e \<Rightarrow> Some (Inl e) | Inr s \<Rightarrow> dopr_loop F 1000 s) = Some r"
    using dopr_loop_total [of F 1000] by (cases "dopr_next (dopr_init fmt args)") auto
  have v: "vsnprintf F 1000 fmt args = Some (rbind r (\<lambda>s. Inr (os_out (dp_out s))))"
    using r by (cases "dopr_next (dopr_init fmt args)") (auto simp: vsnprintf_def)
  have "follows t (dopr_init fmt args) (\<lambda>k. run_bind (locally (dopr_next (dopr_init fmt args)) k) (u_dopr_loop t F 1000))
      (rbind (dopr_next (dopr_init fmt args)) (\<lambda>_. r))"
    using follows_next [of t "dopr_init fmt args"] r unfolding z
    by (intro follows_bind follows_loop) auto
  moreover have "rbind (dopr_next (dopr_init fmt args)) (\<lambda>_. r) = r"
    using r by (cases "dopr_next (dopr_init fmt args)") auto
  ultimately obtain cs where cs: "\<And>k. u_dopr t F 1000 fmt args k = run_bind (put_chars t (map byte cs) k) (\<lambda>_. locally (rmap strip r))"
    "\<And>s'. r = Inr s' \<Longrightarrow> os_out (dp_out s') = cs"
    by (auto simp: follows_def u_dopr_def dopr_init_def)
  show ?thesis
  proof (cases r)
    case (Inl e)
    have "u_printf F t fmt args k = run_bind (put_chars t (map byte cs) k) (\<lambda>_ _. Some (Inl e))" for k
      unfolding u_printf_def u_vprintf_def cs(1) run_bind_assoc by (rule run_bind_eqI) (simp add: Inl)
    then show ?thesis using v Inl by auto
  next
    case (Inr s')
    have "u_printf F t fmt args k = run_bind (put_chars t (map byte cs) k) (\<lambda>_. done_with 1)" for k
      unfolding u_printf_def u_vprintf_def cs(1) run_bind_assoc by (rule run_bind_eqI) (simp add: Inr)
    then show ?thesis using v Inr cs(2) [OF Inr] by (auto simp: printf_def user_vprintf_def)
  qed
qed

end
