(* ===== verification/Processors.thy ===== *)
theory Processors
  imports Kconfig
begin

text \<open>
  Interrupt gates (\<open>kernel/idt.cc\<close>) and the local APIC of each processor (\<open>kernel/smp.h\<close>, \<open>kernel/smp.cc\<close>). What the
  kernel does to devices is a list of \<open>io\<close> events in program order; what it reads from them is a parameter.
\<close>

section \<open>The interrupt descriptor table\<close>

text \<open>\<open>idt\<close> is an array of words, two per gate; \<open>cs\<close> is \<open>kernelCS\<close>.\<close>

definition idt_put :: "nat \<Rightarrow> u32 \<Rightarrow> u32 \<Rightarrow> u32 list \<Rightarrow> u32 list res" where
  "idt_put index lo hi idt =
     (let i0 = 2 * index; i1 = i0 + 1 in
      if i1 < length idt then Inr (idt[i0 := lo, i1 := hi]) else Inl OutOfBounds)"

definition idt_interrupt :: "u32 \<Rightarrow> nat \<Rightarrow> u32 \<Rightarrow> u32 list \<Rightarrow> u32 list res" where
  "idt_interrupt cs index handler idt =
     idt_put index (push_bit 16 cs + (handler AND 0xffff)) ((handler AND 0xffff0000) OR 0x8e00) idt"

definition idt_trap :: "u32 \<Rightarrow> nat \<Rightarrow> u32 \<Rightarrow> u32 \<Rightarrow> u32 list \<Rightarrow> u32 list res" where
  "idt_trap cs index handler dpl idt =
     idt_put index (push_bit 16 cs + (handler AND 0xffff)) ((handler AND 0xffff0000) OR 0x8f00 OR push_bit 13 dpl) idt"

text \<open>What the processor reads out of a gate.\<close>

record gate =
  gate_offset :: u32
  gate_selector :: u32
  gate_present :: bool
  gate_dpl :: u32
  gate_type :: u32

definition gate_of :: "u32 list \<Rightarrow> nat \<Rightarrow> gate" where
  "gate_of idt index =
     (let lo = idt ! (2 * index); hi = idt ! (2 * index + 1) in
      \<lparr>gate_offset = (hi AND 0xffff0000) OR (lo AND 0xffff), gate_selector = drop_bit 16 lo,
       gate_present = bit hi 15, gate_dpl = drop_bit 13 hi AND 3, gate_type = drop_bit 8 hi AND 0x1f\<rparr>)"

section \<open>The local APIC\<close>

datatype io = Outb u32 u32 | Store u32 u32 | Wrmsr u32 u64

record SMP =
  smp_id :: u32
  smp_eoi_reg :: u32
  smp_spurious :: u32
  smp_icr_low :: u32
  smp_icr_high :: u32
  smp_apit_lvt_timer :: u32
  smp_apit_initial_count :: u32
  smp_apit_current_count :: u32
  smp_apit_divide :: u32

definition SMP_ENABLE :: u64 where
  "SMP_ENABLE = push_bit 11 1"

definition SMP_MSR :: u32 where
  "SMP_MSR = 0x1B"

definition smp_regs :: "Config \<Rightarrow> SMP" where
  "smp_regs c =
     \<lparr>smp_id = localAPIC c + 0x20, smp_eoi_reg = localAPIC c + 0xb0, smp_spurious = localAPIC c + 0xf0,
      smp_icr_low = localAPIC c + 0x300, smp_icr_high = localAPIC c + 0x310,
      smp_apit_lvt_timer = localAPIC c + 0x320, smp_apit_initial_count = localAPIC c + 0x380,
      smp_apit_current_count = localAPIC c + 0x390, smp_apit_divide = localAPIC c + 0x3e0\<rparr>"

text \<open>\<open>SMP::init\<close>, given the value of the machine register and the address of the spurious interrupt handler.\<close>

definition smp_init :: "Config \<Rightarrow> u32 \<Rightarrow> u32 \<Rightarrow> u64 \<Rightarrow> bool \<Rightarrow> SMP \<Rightarrow> u32 list \<Rightarrow> (SMP \<times> u32 list \<times> io list) res" where
  "smp_init c cs handler msr isFirst s idt =
     rbind (if isFirst then rbind (idt_interrupt cs 0xff handler idt) (\<lambda>idt'. Inr (smp_regs c, idt')) else Inr (s, idt)) (\<lambda>(s', idt').
     Inr (s', idt', [Outb 0x21 0xff, Outb 0xa1 0xff, Wrmsr SMP_MSR (msr OR SMP_ENABLE), Store (smp_spurious s') 0x1ff]))"

text \<open>\<open>SMP::me\<close>, given what the identification register holds.\<close>

definition smp_me :: "u32 \<Rightarrow> u32" where
  "smp_me reg = drop_bit 24 reg"

text \<open>\<open>SMP::ipi\<close>: \<open>icr n\<close> is the value of \<open>icr_low\<close> the \<open>n\<close>-th time it is read. The result is the number of reads.\<close>

partial_function (option) ipi_wait :: "(nat \<Rightarrow> u32) \<Rightarrow> nat \<Rightarrow> nat option" where
  "ipi_wait icr n = (if icr n AND push_bit 12 1 \<noteq> 0 then ipi_wait icr (n + 1) else Some (n + 1))"

definition smp_ipi :: "SMP \<Rightarrow> u32 \<Rightarrow> u32 \<Rightarrow> (nat \<Rightarrow> u32) \<Rightarrow> (nat \<times> io list) option" where
  "smp_ipi s cpu num icr =
     map_option (\<lambda>n. (n, [Store (smp_icr_high s) (push_bit 24 cpu), Store (smp_icr_low s) num])) (ipi_wait icr 0)"

section \<open>What they do\<close>

lemma idt_put_ok:
  assumes "2 * index + 1 < length idt"
  shows "\<exists>idt'. idt_put index lo hi idt = Inr idt' \<and> length idt' = length idt \<and>
    idt' ! (2 * index) = lo \<and> idt' ! (2 * index + 1) = hi \<and> (\<forall>j. j \<noteq> index \<longrightarrow> gate_of idt' j = gate_of idt j)"
proof -
  have "gate_of (idt[2 * index := lo, Suc (2 * index) := hi]) j = gate_of idt j" if "j \<noteq> index" for j
  proof -
    have "2 * j \<noteq> Suc (2 * index)" "Suc (2 * j) \<noteq> 2 * index" by presburger+
    then show ?thesis using that by (simp add: gate_of_def)
  qed
  then show ?thesis using assms by (simp add: idt_put_def Let_def)
qed

text \<open>The two halves of a handler's address, in the two words of a gate.\<close>

lemma gate_halves:
  fixes h cs x :: u32
  assumes "cs < 0x10000" "x AND 0xffff0000 = 0"
  shows "(((h AND 0xffff0000) OR x) AND 0xffff0000) OR ((push_bit 16 cs + (h AND 0xffff)) AND 0xffff) = h"
    and "drop_bit 16 (push_bit 16 cs + (h AND 0xffff)) = cs"
proof -
  have m: "(0xffff :: u32) = mask 16" by (simp add: mask_eq_exp_minus_1)
  have "push_bit 16 cs AND (h AND 0xffff) = 0"
    unfolding m by (rule bit_word_eqI) (auto simp: bit_simps)
  then have o: "push_bit 16 cs + (h AND 0xffff) = push_bit 16 cs OR (h AND 0xffff)"
    by (rule disjunctive_add_eq_or)
  have cs: "bit cs n \<Longrightarrow> n < 16" for n
  proof -
    have "take_bit 16 cs = cs" using assms(1) by (simp add: word_uint_eq_iff take_bit_eq_mod uint_mod word_less_def)
    then show "bit cs n \<Longrightarrow> n < 16" by (metis bit_take_bit_iff)
  qed
  show "drop_bit 16 (push_bit 16 cs + (h AND 0xffff)) = cs"
    unfolding o unfolding m by (rule bit_word_eqI) (auto simp: bit_simps dest: cs)
  have "(push_bit 16 cs OR (h AND 0xffff)) AND 0xffff = h AND 0xffff"
    unfolding m by (rule bit_word_eqI) (auto simp: bit_simps)
  moreover have "((h AND 0xffff0000) OR x) AND 0xffff0000 = h AND 0xffff0000"
    using assms(2) by (simp add: bit.conj_disj_distrib2 and.assoc)
  moreover have "(h AND 0xffff0000) OR (h AND 0xffff) = h"
  proof -
    have "(0xffff0000 OR 0xffff :: u32) = - 1" by simp
    then show ?thesis by (simp only: bit.conj_disj_distrib [symmetric] bit.conj_one_right)
  qed
  ultimately show "(((h AND 0xffff0000) OR x) AND 0xffff0000) OR ((push_bit 16 cs + (h AND 0xffff)) AND 0xffff) = h"
    unfolding o by simp
qed

text \<open>
  A gate written by \<open>interrupt\<close> or \<open>trap\<close> is the gate the processor reads: the handler's address, the kernel's code
  segment, present, with the privilege level asked for (0 for an interrupt), of type 0xe, which masks interrupts, or
  0xf, which does not; the other gates stay as they are.
\<close>

theorem gate_roundtrip:
  assumes n: "2 * index + 1 < length idt" and cs: "cs < 0x10000" and dpl: "dpl < 4"
  shows "\<exists>t1 t2. idt_interrupt cs index h idt = Inr t1 \<and> idt_trap cs index h dpl idt = Inr t2 \<and>
    gate_of t1 index = \<lparr>gate_offset = h, gate_selector = cs, gate_present = True, gate_dpl = 0, gate_type = 0xe\<rparr> \<and>
    gate_of t2 index = \<lparr>gate_offset = h, gate_selector = cs, gate_present = True, gate_dpl = dpl, gate_type = 0xf\<rparr> \<and>
    (\<forall>j. j \<noteq> index \<longrightarrow> gate_of t1 j = gate_of idt j \<and> gate_of t2 j = gate_of idt j)"
proof -
  let ?lo = "push_bit 16 cs + (h AND 0xffff)"
  let ?h1 = "(h AND 0xffff0000) OR 0x8e00" and ?h2 = "(h AND 0xffff0000) OR 0x8f00 OR push_bit 13 dpl"
  have four: "dpl = 0 \<or> dpl = 1 \<or> dpl = 2 \<or> dpl = 3"
  proof -
    have "uint dpl < 4" using dpl by (simp add: word_less_def)
    then have "uint dpl = 0 \<or> uint dpl = 1 \<or> uint dpl = 2 \<or> uint dpl = 3" using uint_ge_0 [of dpl] by linarith
    then show ?thesis by (simp add: word_uint_eq_iff)
  qed
  let ?x = "0x8f00 OR push_bit 13 dpl :: u32"
  have x: "(0x8e00 :: u32) AND 0xffff0000 = 0" "?x AND 0xffff0000 = 0"
    "drop_bit 13 ?x AND 3 = dpl" "drop_bit 8 ?x AND 0x1f = 0xf" "bit ?x 15"
    using four by auto
  have hi: "\<not> bit (h AND 0xffff0000) 15" "drop_bit 13 (h AND 0xffff0000) AND 3 = 0" "drop_bit 8 (h AND 0xffff0000) AND 0x1f = 0"
  proof -
    have e: "h AND 0xffff0000 = push_bit 16 (drop_bit 16 h)"
    proof -
      have w: "(0xffff0000 :: u32) = push_bit 16 (mask 16)" by (simp add: mask_eq_exp_minus_1)
      show ?thesis unfolding w by (rule bit_word_eqI) (auto simp: bit_simps)
    qed
    have m: "(3 :: u32) = mask 2" "(0x1f :: u32) = mask 5" by (simp_all add: mask_eq_exp_minus_1)
    show "\<not> bit (h AND 0xffff0000) 15" unfolding e by (simp add: bit_simps)
    show "drop_bit 13 (h AND 0xffff0000) AND 3 = 0" "drop_bit 8 (h AND 0xffff0000) AND 0x1f = 0"
      unfolding e m by (rule bit_word_eqI, auto simp: bit_simps)+
  qed
  have g1: "drop_bit 13 ?h1 AND 3 = 0" "drop_bit 8 ?h1 AND 0x1f = 0xe" "bit ?h1 15"
    using hi by (simp_all add: bit.conj_disj_distrib2 bit_or_iff)
  have g2: "drop_bit 13 ?h2 AND 3 = dpl" "drop_bit 8 ?h2 AND 0x1f = 0xf" "bit ?h2 15"
    using hi x by (simp_all add: bit.conj_disj_distrib2 bit_or_iff or.assoc)
  obtain t1 where t1: "idt_interrupt cs index h idt = Inr t1" "t1 ! (2 * index) = ?lo" "t1 ! (2 * index + 1) = ?h1"
    "\<forall>j. j \<noteq> index \<longrightarrow> gate_of t1 j = gate_of idt j"
    using idt_put_ok [OF n] unfolding idt_interrupt_def by metis
  obtain t2 where t2: "idt_trap cs index h dpl idt = Inr t2" "t2 ! (2 * index) = ?lo" "t2 ! (2 * index + 1) = ?h2"
    "\<forall>j. j \<noteq> index \<longrightarrow> gate_of t2 j = gate_of idt j"
    using idt_put_ok [OF n] unfolding idt_trap_def by metis
  have "gate_of t1 index = \<lparr>gate_offset = h, gate_selector = cs, gate_present = True, gate_dpl = 0, gate_type = 0xe\<rparr>"
    unfolding gate_of_def Let_def t1(2,3) g1(1,2) gate_halves(2) [OF cs x(1)] gate_halves(1) [OF cs x(1)] using g1(3) by simp
  moreover have "gate_of t2 index = \<lparr>gate_offset = h, gate_selector = cs, gate_present = True, gate_dpl = dpl, gate_type = 0xf\<rparr>"
    unfolding gate_of_def Let_def t2(2,3) g2(1,2) gate_halves(2) [OF cs x(2)] gate_halves(1) [OF cs x(2)]
    using g2(3) by simp
  ultimately show ?thesis using t1(1,4) t2(1,4) by blast
qed

lemma gate_roundtrip_witness:
  "\<exists>t. idt_trap 8 48 0x12345678 3 (replicate 512 0) = Inr t \<and> gate_offset (gate_of t 48) = 0x12345678 \<and>
    gate_dpl (gate_of t 48) = 3"
proof -
  have "2 * 48 + 1 < length (replicate 512 (0 :: u32))" by (simp only: length_replicate)
  from gate_roundtrip [OF this, of 8 3 "0x12345678"] show ?thesis by auto
qed

text \<open>\<open>ipi\<close> returns after the first read that finds the delivery bit clear.\<close>

lemma ipi_wait_ends:
  assumes "icr (n + d) AND 0x1000 = 0" "\<forall>i < d. icr (n + i) AND 0x1000 \<noteq> 0"
  shows "ipi_wait icr n = Some (n + d + 1)"
  using assms
proof (induction d arbitrary: n)
  case 0
  then show ?case by (simp add: ipi_wait.simps)
next
  case (Suc d)
  have "icr n AND 0x1000 \<noteq> 0" using Suc.prems(2) by (metis add_0_right zero_less_Suc)
  moreover have "ipi_wait icr (n + 1) = Some (n + 1 + d + 1)"
    by (rule Suc.IH) (use Suc.prems in \<open>auto simp: less_Suc_eq_0_disj\<close>)
  ultimately show ?case by (simp add: ipi_wait.simps [of icr n])
qed

end
