(* ===== verification/Timer.thy ===== *)
theory Timer
  imports Threads Processors
begin

text \<open>
  The timer of \<open>kernel/pit.h\<close> and \<open>kernel/pit.cc\<close>: the calibration of the APIC timer against the old one, and the timer
  interrupt, which preempts the thread that runs. The flag \<open>no_preempt\<close> of the save areas, which \<open>block\<close> sets and
  the context switch (\<open>kernel/context.s\<close>) clears, belongs to this theory.
\<close>

section \<open>Calibration\<close>

definition PIT_FREQ :: u32 where
  "PIT_FREQ = 1193182"

definition APIT_vector :: u32 where
  "APIT_vector = 40"

record Pit =
  jiffiesPerSecond :: u32
  apitCounter :: u32
  jiffies :: u32

text \<open>
  The loop that waits for forty changes of bit 5 of port 0x61; \<open>level n\<close> is what the \<open>n\<close>-th \<open>inb(0x61)\<close> returns. The
  result is the number of reads.
\<close>

partial_function (option) pit_wait :: "(nat \<Rightarrow> u32) \<Rightarrow> nat \<Rightarrow> u32 \<Rightarrow> u32 \<Rightarrow> nat option" where
  "pit_wait level n prev changes =
     (if changes < 40 then
        let t = level n AND 0x20 in
        if t \<noteq> prev then pit_wait level (n + 1) t (changes + 1)
        else pit_wait level (n + 1) prev changes
      else Some n)"

definition pit_divider :: u32 where
  "pit_divider = (let d = PIT_FREQ div 20 in if d AND 0xffff \<noteq> d then 0xffff else d)"

text \<open>
  \<open>Pit::calibrate\<close>: \<open>count n\<close> is the current count of the APIC timer after \<open>n\<close> reads of the port. The result has the
  state, the interrupt table and the writes to devices.
\<close>

definition calibrate :: "SMP \<Rightarrow> u32 \<Rightarrow> u32 \<Rightarrow> u32 \<Rightarrow> (nat \<Rightarrow> u32) \<Rightarrow> (nat \<Rightarrow> u32) \<Rightarrow> u32 list \<Rightarrow> Pit \<Rightarrow>
    (Pit \<times> u32 list \<times> io list) res option" where
  "calibrate smp cs handler hz level count idt p =
     (let before = [Store (smp_apit_lvt_timer smp) 0x00010000, Store (smp_apit_divide smp) 0xB,
            Store (smp_apit_initial_count smp) 0xffffffff, Outb 0x61 1, Outb 0x43 0xB6,
            Outb 0x42 pit_divider, Outb 0x42 (drop_bit 8 pit_divider)];
          prev = level 0 AND 0x20
      in map_option (\<lambda>n.
           let diff = 0xffffffff - count n in
           if hz = 0 then Inl DivideError
           else rbind (idt_interrupt cs (unat APIT_vector) handler idt) (\<lambda>idt'.
             Inr (p\<lparr>apitCounter := diff div hz, jiffiesPerSecond := hz\<rparr>, idt', before @ [Outb 0x61 0])))
         (pit_wait level 1 prev 0))"

definition pit_init :: "SMP \<Rightarrow> Pit \<Rightarrow> io list res" where
  "pit_init smp p =
     (if apitCounter p = 0 then Inl (Panic ''apiCounter == 0, did you call Pit::calibrate?'')
      else Inr [Store (smp_apit_divide smp) 0xB,
        Store (smp_apit_lvt_timer smp) (push_bit 17 1 OR push_bit 16 0 OR APIT_vector),
        Store (smp_apit_initial_count smp) (apitCounter p)])"

definition secondsToJiffies :: "Pit \<Rightarrow> u32 \<Rightarrow> u32" where
  "secondsToJiffies p secs = jiffiesPerSecond p * secs"

definition seconds :: "Pit \<Rightarrow> u32 res" where
  "seconds p = (if jiffiesPerSecond p = 0 then Inl DivideError else Inr (jiffies p div jiffiesPerSecond p))"

section \<open>The timer interrupt\<close>

record timer =
  tm_pit :: Pit
  tm_kernel :: kernel
  tm_no_preempt :: "nat \<Rightarrow> bool"
  tm_io :: "io list"

text \<open>
  \<open>yield\<close> with the flag: \<open>block\<close> sets it for the thread that runs, and returns with it set when nothing is ready;
  otherwise it sets it for the next thread too, and the context switch clears both.
\<close>

definition yield_flags :: "nat \<Rightarrow> kernel \<Rightarrow> (nat \<Rightarrow> bool) \<Rightarrow> nat \<Rightarrow> bool" where
  "yield_flags c s np =
     (let me = current c s;
          np1 = np(me := True);
          (next_tcb, q, nx) = queue_remove (readyQ s, th_next s)
      in case next_tcb of
           None \<Rightarrow> np1
         | Some t \<Rightarrow> (np1(t := True))(me := False, t := False))"

definition timer_yield :: "nat \<Rightarrow> timer \<Rightarrow> timer res" where
  "timer_yield c s =
     rbind (yield c (tm_kernel s)) (\<lambda>k.
     Inr (s\<lparr>tm_kernel := k, tm_no_preempt := yield_flags c (tm_kernel s) (tm_no_preempt s)\<rparr>))"

text \<open>\<open>apitHandler\<close> on core \<open>c\<close>; a null pointer is 0.\<close>

definition apitHandler :: "SMP \<Rightarrow> nat \<Rightarrow> timer \<Rightarrow> timer res" where
  "apitHandler smp c s =
     (let s1 = (if c = 0 then s\<lparr>tm_pit := (tm_pit s)\<lparr>jiffies := jiffies (tm_pit s) + 1\<rparr>\<rparr> else s);
          s2 = s1\<lparr>tm_io := tm_io s1 @ [Store (smp_eoi_reg smp) 0]\<rparr>;
          me = current c (tm_kernel s2)
      in if me = 0 \<or> isIdle (tm_kernel s2) me \<or> tm_no_preempt s2 me then Inr s2
         else timer_yield c s2)"

text \<open>\<open>n\<close> timer interrupts on a core.\<close>

fun ticks :: "SMP \<Rightarrow> nat \<Rightarrow> nat \<Rightarrow> timer \<Rightarrow> timer res" where
  "ticks smp c 0 s = Inr s"
| "ticks smp c (Suc n) s = rbind (apitHandler smp c s) (ticks smp c n)"

section \<open>Counting changes\<close>

text \<open>The changes of the level between reads \<open>m\<close> and \<open>n\<close>.\<close>

definition edges :: "(nat \<Rightarrow> u32) \<Rightarrow> nat \<Rightarrow> nat \<Rightarrow> nat" where
  "edges level m n = card {i \<in> {m..<n}. level (Suc i) AND 0x20 \<noteq> level i AND 0x20}"

lemma edges_refl [simp]: "edges level m m = 0"
  by (simp add: edges_def)

lemma edges_front:
  assumes "m < n"
  shows "edges level m n = (if level (Suc m) AND 0x20 \<noteq> level m AND 0x20 then 1 else 0) + edges level (Suc m) n"
proof -
  have "{i \<in> {m..<n}. level (Suc i) AND 0x20 \<noteq> level i AND 0x20} =
      (if level (Suc m) AND 0x20 \<noteq> level m AND 0x20 then {m} else {}) \<union> {i \<in> {Suc m..<n}. level (Suc i) AND 0x20 \<noteq> level i AND 0x20}"
    using assms by (auto simp: Suc_le_eq le_less)
  then show ?thesis unfolding edges_def by (simp add: card_insert_if)
qed

lemma edges_mono: "m \<le> n \<Longrightarrow> n \<le> k \<Longrightarrow> edges level m n \<le> edges level m k"
  unfolding edges_def by (intro card_mono) auto

text \<open>
  The wait ends at the first read up to which enough changes were seen: from read \<open>m\<close>, with \<open>ch\<close> changes so far, after
  \<open>d\<close> more reads.
\<close>

lemma pit_wait_ends:
  assumes "ch \<le> 40" "edges level m (m + d) = 40 - ch" "\<forall>e < d. edges level m (m + e) < 40 - ch"
  shows "pit_wait level (Suc m) (level m AND 0x20) (word_of_nat ch) = Some (Suc (m + d))"
  using assms
proof (induction d arbitrary: m ch)
  case 0
  then have "ch = 40" by simp
  then show ?case by (simp add: pit_wait.simps)
next
  case (Suc d)
  have "0 < 40 - ch" using Suc.prems(3) by (metis edges_refl add_0_right zero_less_Suc)
  then have lt: "ch < 40" by simp
  have w: "(word_of_nat ch :: u32) < 40" using lt by (simp add: word_less_nat_alt unat_of_nat)
  let ?b = "level (Suc m) AND 0x20 \<noteq> level m AND 0x20"
  have f: "edges level m (m + Suc e) = (if ?b then 1 else 0) + edges level (Suc m) (Suc m + e)" for e
    using edges_front [of m "m + Suc e" level] by simp
  have less: "edges level (Suc m) (Suc m + e) < 40 - (if ?b then Suc ch else ch)" if "e < d" for e
    using Suc.prems(3) f [of e] that lt by (auto split: if_splits dest!: spec [of _ "Suc e"])
  have eq: "edges level (Suc m) (Suc m + d) = 40 - (if ?b then Suc ch else ch)"
    using Suc.prems(2) f [of d] lt by (auto split: if_splits)
  have "pit_wait level (Suc (Suc m)) (level (Suc m) AND 0x20) (word_of_nat (if ?b then Suc ch else ch)) = Some (Suc (Suc m + d))"
    by (rule Suc.IH) (use lt eq less in auto)
  then show ?case
    using w by (simp add: pit_wait.simps [of level "Suc m"] Let_def add.commute split: if_splits)
qed

text \<open>When it ends, that many changes were seen.\<close>

lemma pit_wait_some:
  assumes "pit_wait level (Suc m) (level m AND 0x20) changes = Some r" "unat changes \<le> 40"
  shows "\<exists>d. edges level m (m + d) = 40 - unat changes"
proof -
  have "\<forall>m. n = Suc m \<and> prev = level m AND 0x20 \<and> unat changes \<le> 40 \<longrightarrow> (\<exists>d. edges level m (m + d) = 40 - unat changes)"
    if "pit_wait level n prev changes = Some r" for level n prev changes r
  proof (rule pit_wait.raw_induct [OF _ that, where P = "\<lambda>level n prev changes r.
        \<forall>m. n = Suc m \<and> prev = level m AND 0x20 \<and> unat changes \<le> 40 \<longrightarrow> (\<exists>d. edges level m (m + d) = 40 - unat changes)"],
      intro allI impI, elim conjE)
    fix f :: "(nat \<Rightarrow> u32) \<Rightarrow> nat \<Rightarrow> u32 \<Rightarrow> u32 \<Rightarrow> nat option" and level :: "nat \<Rightarrow> u32" and n prev changes r m
    assume IH: "\<And>level n prev changes r. f level n prev changes = Some r \<Longrightarrow>
        \<forall>m. n = Suc m \<and> prev = level m AND 0x20 \<and> unat changes \<le> 40 \<longrightarrow> (\<exists>d. edges level m (m + d) = 40 - unat changes)"
      and st: "(if changes < 40 then let t = level n AND 0x20
          in if t \<noteq> prev then f level (n + 1) t (changes + 1) else f level (n + 1) prev changes else Some n) = Some r"
      and n: "n = Suc m" and p: "prev = level m AND 0x20" and c: "unat changes \<le> 40"
    show "\<exists>d. edges level m (m + d) = 40 - unat changes"
    proof (cases "changes < 40")
      case False
      then have "unat changes = 40" using c by (simp add: word_less_nat_alt)
      then show ?thesis by (intro exI [of _ 0]) simp
    next
      case True
      then have lt: "unat changes < 40" by (simp add: word_less_nat_alt)
      have inc: "unat (changes + 1) = Suc (unat changes)" using lt by (simp add: unat_word_ariths)
      let ?b = "level n AND 0x20 \<noteq> prev"
      have "f level (Suc n) (level n AND 0x20) (if ?b then changes + 1 else changes) = Some r"
        using st True by (auto simp: Let_def split: if_splits)
      from IH [OF this] obtain d where "edges level n (n + d) = 40 - unat (if ?b then changes + 1 else changes)"
        using inc lt by (auto split: if_splits)
      then have "edges level m (m + Suc d) = 40 - unat changes"
        using edges_front [of m "m + Suc d" level] lt inc unfolding n p by (auto split: if_splits)
      then show ?thesis by blast
    qed
  qed
  then show ?thesis using assms by blast
qed

text \<open>Both together: it ends if and only if the level changes forty times.\<close>

lemma pit_wait_iff:
  "pit_wait level 1 (level 0 AND 0x20) 0 =
     (if \<exists>n. edges level 0 n = 40 then Some (Suc (LEAST n. edges level 0 n = 40)) else None)"
proof (cases "\<exists>n. edges level 0 n = 40")
  case True
  define d where "d = (LEAST n. edges level 0 n = 40)"
  have e: "edges level 0 d = 40" unfolding d_def using True by (rule LeastI_ex)
  have "edges level 0 k < 40" if "k < d" for k
    using edges_mono [of 0 k d level] e not_less_Least [of k "\<lambda>n. edges level 0 n = 40"] that by (fastforce simp: d_def)
  then show ?thesis using pit_wait_ends [of 0 level 0 d] e True by (simp add: d_def)
next
  case False
  have "pit_wait level 1 (level 0 AND 0x20) 0 = None"
  proof (cases "pit_wait level 1 (level 0 AND 0x20) 0")
    case (Some r)
    then show ?thesis using pit_wait_some [of level 0 0 r] False by simp
  qed
  then show ?thesis using False by simp
qed

section \<open>Interrupts\<close>

text \<open>What a tick does before it looks at the thread.\<close>

definition ticked :: "SMP \<Rightarrow> nat \<Rightarrow> timer \<Rightarrow> timer" where
  "ticked smp c s = s\<lparr>tm_pit := (tm_pit s)\<lparr>jiffies := jiffies (tm_pit s) + (if c = 0 then 1 else 0)\<rparr>,
     tm_io := tm_io s @ [Store (smp_eoi_reg smp) 0]\<rparr>"

lemma ticked_simps [simp]:
  "tm_kernel (ticked smp c s) = tm_kernel s" "tm_no_preempt (ticked smp c s) = tm_no_preempt s"
  "jiffies (tm_pit (ticked smp c s)) = jiffies (tm_pit s) + (if c = 0 then 1 else 0)"
  "tm_io (ticked smp c s) = tm_io s @ [Store (smp_eoi_reg smp) 0]"
  by (simp_all add: ticked_def)

lemma apitHandler_ticked:
  "apitHandler smp c s =
     (let me = current c (tm_kernel s) in
      if me = 0 \<or> isIdle (tm_kernel s) me \<or> tm_no_preempt s me then Inr (ticked smp c s)
      else timer_yield c (ticked smp c s))"
  by (simp add: apitHandler_def ticked_def Let_def)

text \<open>A tick with a thread ready.\<close>

lemma yield_flags_switch:
  assumes "threads_ok s g" "g_ready g = t # R"
  shows "yield_flags c s np = np(current c s := False, t := False)"
proof -
  have "queue_rep (readyQ s) (th_next s) (t # R)" using assms by (simp add: threads_ok_def reps_ok_def)
  then obtain q where "queue_remove (readyQ s, th_next s) = (Some t, q, th_next s)" by (rule queue_take)
  then show ?thesis by (auto simp: yield_flags_def Let_def fun_eq_iff)
qed

lemma yield_flags_alone:
  assumes "threads_ok s g" "g_ready g = []"
  shows "yield_flags c s np = np(current c s := True)"
proof -
  have "queue_rep (readyQ s) (th_next s) []" using assms by (simp add: threads_ok_def reps_ok_def)
  then have "queue_remove (readyQ s, th_next s) = (None, readyQ s, th_next s)" by (rule tcb_queue.deq_empty)
  then show ?thesis by (simp add: yield_flags_def Let_def)
qed

lemma tick_switch:
  assumes "threads_ok (tm_kernel s) g" "c < length (activeThreads (tm_kernel s))" "g_ready g = t # R"
    and me: "\<not> isIdle (tm_kernel s) (current c (tm_kernel s))" "current c (tm_kernel s) \<noteq> 0"
      "\<not> tm_no_preempt s (current c (tm_kernel s))"
  obtains s' g' where "apitHandler smp c s = Inr s'" "threads_ok (tm_kernel s') g'"
    "activeThreads (tm_kernel s') = (activeThreads (tm_kernel s))[c := t]" "\<not> isIdle (tm_kernel s') t"
    "g_ready g' = R @ [current c (tm_kernel s)]"
    "tm_no_preempt s' = (tm_no_preempt s)(current c (tm_kernel s) := False, t := False)"
    "jiffies (tm_pit s') = jiffies (tm_pit s) + (if c = 0 then 1 else 0)"
    "tm_io s' = tm_io s @ [Store (smp_eoi_reg smp) 0]"
proof -
  obtain k g' where k: "yield c (tm_kernel s) = Inr k" "threads_ok k g'" "activeThreads k = (activeThreads (tm_kernel s))[c := t]"
    "idleThreads k = idleThreads (tm_kernel s)" "g_ready g' = R @ [current c (tm_kernel s)]" "\<not> isIdle (tm_kernel s) t"
    by (rule yield_switch [OF assms(1,2) me(1) assms(3)])
  have "apitHandler smp c s = Inr ((ticked smp c s)\<lparr>tm_kernel := k,
      tm_no_preempt := (tm_no_preempt s)(current c (tm_kernel s) := False, t := False)\<rparr>)"
    using me k(1) by (simp add: apitHandler_ticked timer_yield_def Let_def yield_flags_switch [OF assms(1,3)])
  then show ?thesis by (rule that) (use k in \<open>simp_all add: isIdle_def\<close>)
qed

lemma tick_ignored:
  assumes "tm_no_preempt s (current c (tm_kernel s))"
  obtains s' where "apitHandler smp c s = Inr s'" "tm_kernel s' = tm_kernel s" "tm_no_preempt s' = tm_no_preempt s"
  by (rule that [of "ticked smp c s"]) (use assms in \<open>simp_all add: apitHandler_ticked Let_def\<close>)

lemma ticks_ignored:
  "tm_no_preempt s (current c (tm_kernel s)) \<Longrightarrow> \<exists>s'. ticks smp c n s = Inr s' \<and> tm_kernel s' = tm_kernel s"
proof (induction n arbitrary: s)
  case (Suc n)
  obtain s1 where s1: "apitHandler smp c s = Inr s1" "tm_kernel s1 = tm_kernel s" "tm_no_preempt s1 = tm_no_preempt s"
    by (rule tick_ignored [OF Suc.prems])
  then show ?case using Suc.IH [of s1] Suc.prems by simp
qed simp

section \<open>Properties\<close>

text \<open>
  C39. Calibration ends exactly when bit 5 of port 0x61 changes forty times, and it waits for no change more: the APIC count is
  read right after the read that shows the fortieth. The two writes to port 0x42 are the bytes of the divider 59659, the
  counter is the ticks of that second over \<open>hz\<close>, the handler gets gate 40, and a frequency of zero divides by zero.
\<close>

theorem calibrate_ends:
  "calibrate smp cs handler hz level count idt p =
     (if \<exists>n. edges level 0 n = 40 then
        Some (if hz = 0 then Inl DivideError
          else rbind (idt_interrupt cs 40 handler idt) (\<lambda>idt'. Inr
            (p\<lparr>apitCounter := (0xffffffff - count (Suc (LEAST n. edges level 0 n = 40))) div hz, jiffiesPerSecond := hz\<rparr>, idt',
             [Store (smp_apit_lvt_timer smp) 0x10000, Store (smp_apit_divide smp) 11, Store (smp_apit_initial_count smp) 0xffffffff,
              Outb 0x61 1, Outb 0x43 0xB6, Outb 0x42 59659, Outb 0x42 233, Outb 0x61 0])))
      else None) \<and>
   take_bit 8 (59659 :: u32) + push_bit 8 (take_bit 8 233) = PIT_FREQ div 20"
proof -
  have d: "pit_divider = 59659" by (simp add: pit_divider_def PIT_FREQ_def)
  have v: "unat APIT_vector = 40" by (simp add: APIT_vector_def)
  show ?thesis
    by (simp add: calibrate_def pit_wait_iff [unfolded One_nat_def] d v Let_def PIT_FREQ_def)
qed

text \<open>
  C12. The timer preempts round robin, as long as no flag \<open>no_preempt\<close> is set in the running thread and the ready ones, the
  running thread is not the idle one and some thread is ready: then \<open>k\<close> timer interrupts on a core rotate the running
  thread and the ready queue \<open>k\<close> places, so that each of \<open>n\<close> threads gets one of every \<open>n\<close> ticks; core 0 counts the ticks.
  (A tick on an idle core sets the flag of the idle thread, and the next property shows what becomes of it.)
\<close>

theorem timer_round_robin:
  assumes "threads_ok (tm_kernel s) g" "c < length (activeThreads (tm_kernel s))" "g_ready g \<noteq> []"
    and "\<not> isIdle (tm_kernel s) (current c (tm_kernel s))"
    and "\<forall>t \<in> set (current c (tm_kernel s) # g_ready g). t \<noteq> 0 \<and> \<not> tm_no_preempt s t"
  shows "\<exists>s' g'. ticks smp c k s = Inr s' \<and> threads_ok (tm_kernel s') g' \<and>
    current c (tm_kernel s') # g_ready g' = rotate k (current c (tm_kernel s) # g_ready g) \<and>
    jiffies (tm_pit s') = jiffies (tm_pit s) + (if c = 0 then word_of_nat k else 0)"
  using assms
proof (induction k arbitrary: s g)
  case (Suc k)
  obtain t R where r: "g_ready g = t # R" using Suc.prems(3) by (cases "g_ready g") auto
  obtain s1 g1 where s1: "apitHandler smp c s = Inr s1" "threads_ok (tm_kernel s1) g1"
    "activeThreads (tm_kernel s1) = (activeThreads (tm_kernel s))[c := t]" "\<not> isIdle (tm_kernel s1) t"
    "g_ready g1 = R @ [current c (tm_kernel s)]"
    "tm_no_preempt s1 = (tm_no_preempt s)(current c (tm_kernel s) := False, t := False)"
    "jiffies (tm_pit s1) = jiffies (tm_pit s) + (if c = 0 then 1 else 0)"
    by (rule tick_switch [OF Suc.prems(1,2) r Suc.prems(4)]) (use Suc.prems(5) in auto)
  have cur: "current c (tm_kernel s1) = t" using s1(3) Suc.prems(2) by (simp add: current_def)
  have "\<exists>s' g'. ticks smp c k s1 = Inr s' \<and> threads_ok (tm_kernel s') g' \<and>
    current c (tm_kernel s') # g_ready g' = rotate k (current c (tm_kernel s1) # g_ready g1) \<and>
    jiffies (tm_pit s') = jiffies (tm_pit s1) + (if c = 0 then word_of_nat k else 0)"
    by (rule Suc.IH [OF s1(2)]) (use s1 cur r Suc.prems in auto)
  moreover have "rotate (Suc k) (current c (tm_kernel s) # g_ready g) = rotate k (current c (tm_kernel s1) # g_ready g1)"
    using r cur s1(5) by (simp add: rotate1_rotate_swap)
  ultimately show ?case using s1(1,7) by auto
qed auto

text \<open>Core 0 runs thread 7 and thread 8 is ready.\<close>

definition demo_timer :: timer where
  "demo_timer = \<lparr>tm_pit = \<lparr>jiffiesPerSecond = 1000, apitCounter = 9, jiffies = 41\<rparr>, tm_kernel = demo_kernel,
     tm_no_preempt = (\<lambda>_. False), tm_io = []\<rparr>"

definition demo_smp :: SMP where
  "demo_smp = \<lparr>smp_id = 0xfee00020, smp_eoi_reg = 0xfee000b0, smp_spurious = 0xfee000f0, smp_icr_low = 0xfee00300,
     smp_icr_high = 0xfee00310, smp_apit_lvt_timer = 0xfee00320, smp_apit_initial_count = 0xfee00380,
     smp_apit_current_count = 0xfee00390, smp_apit_divide = 0xfee003e0\<rparr>"

lemma timer_round_robin_witness:
  "\<exists>s' g'. ticks demo_smp 0 3 demo_timer = Inr s' \<and> threads_ok (tm_kernel s') g' \<and>
     current 0 (tm_kernel s') # g_ready g' = [8, 7] \<and> jiffies (tm_pit s') = 44"
  using timer_round_robin [of demo_timer "\<lparr>g_ready = [8], g_zombies = [], g_waiting = (\<lambda>_. []),
      g_place = (\<lambda>t. if t = 7 then Running 0 else if t = 8 then Ready else Nowhere)\<rparr>" 0 demo_smp 3] demo_kernel_ok
  by (simp add: demo_timer_def isIdle_def current_def demo_kernel_def threads_init_def numeral_3_eq_3)

text \<open>
  C38. A timer interrupt that finds no thread ready turns preemption off: \<open>yield\<close> returns, but \<open>block\<close> has set the flag
  \<open>no_preempt\<close> of the running thread and only a switch clears it. Whatever threads become ready later, as long as that thread
  runs every further timer interrupt on its core leaves the threads as they are.
\<close>

theorem tick_disables_preemption:
  assumes "threads_ok (tm_kernel s) g" "c < length (activeThreads (tm_kernel s))" "g_ready g = []"
    and "\<not> isIdle (tm_kernel s) (current c (tm_kernel s))" "current c (tm_kernel s) \<noteq> 0"
  shows "\<exists>s1. apitHandler smp c s = Inr s1 \<and> tm_kernel s1 = tm_kernel s \<and>
    (\<forall>later n. current c later \<noteq> current c (tm_kernel s) \<or>
       (\<exists>s2. ticks smp c n (s1\<lparr>tm_kernel := later\<rparr>) = Inr s2 \<and> tm_kernel s2 = later))"
proof -
  let ?me = "current c (tm_kernel s)"
  have "\<exists>s1. apitHandler smp c s = Inr s1 \<and> tm_kernel s1 = tm_kernel s \<and> tm_no_preempt s1 ?me"
    using assms(4,5) yield_alone [OF assms(1-3)] yield_flags_alone [OF assms(1,3)]
    by (simp add: apitHandler_ticked timer_yield_def Let_def)
  then obtain s1 where s1: "apitHandler smp c s = Inr s1" "tm_kernel s1 = tm_kernel s" "tm_no_preempt s1 ?me" by blast
  have "\<exists>s2. ticks smp c n (s1\<lparr>tm_kernel := later\<rparr>) = Inr s2 \<and> tm_kernel s2 = later" if "current c later = ?me" for later n
    using ticks_ignored [of "s1\<lparr>tm_kernel := later\<rparr>" c smp n] s1(3) that by simp
  then show ?thesis using s1 by blast
qed

text \<open>Thread 7 ticks alone; later thread 8 is ready, and a hundred ticks do not run it.\<close>

lemma tick_disables_preemption_witness:
  "\<exists>s1 s2. apitHandler demo_smp 0 (demo_timer\<lparr>tm_kernel := demo_kernel\<lparr>readyQ := queue_init\<rparr>\<rparr>) = Inr s1 \<and>
     ticks demo_smp 0 100 (s1\<lparr>tm_kernel := demo_kernel\<rparr>) = Inr s2 \<and> current 0 (tm_kernel s2) = 7"
proof -
  have "threads_ok (demo_kernel\<lparr>readyQ := queue_init\<rparr>) \<lparr>g_ready = [], g_zombies = [], g_waiting = (\<lambda>_. []),
     g_place = (\<lambda>t. if t = 7 then Running 0 else Nowhere)\<rparr>"
    by (auto simp: demo_kernel_def threads_ok_def cores_ok_def lists_ok_def reps_ok_def threads_init_def
      queue_rep_def queue_init_def less_Suc_eq)
  moreover have c: "current 0 demo_kernel = 7" "current 0 (demo_kernel\<lparr>readyQ := queue_init\<rparr>) = 7"
    by (simp_all add: current_def demo_kernel_def)
  moreover have "\<not> isIdle (demo_kernel\<lparr>readyQ := queue_init\<rparr>) 7" "0 < length (activeThreads (demo_kernel\<lparr>readyQ := queue_init\<rparr>))"
    by (simp_all add: isIdle_def demo_kernel_def threads_init_def)
  ultimately obtain s1 where s1: "apitHandler demo_smp 0 (demo_timer\<lparr>tm_kernel := demo_kernel\<lparr>readyQ := queue_init\<rparr>\<rparr>) = Inr s1"
    "\<forall>later n. current 0 later \<noteq> 7 \<or> (\<exists>s2. ticks demo_smp 0 n (s1\<lparr>tm_kernel := later\<rparr>) = Inr s2 \<and> tm_kernel s2 = later)"
    using tick_disables_preemption [of "demo_timer\<lparr>tm_kernel := demo_kernel\<lparr>readyQ := queue_init\<rparr>\<rparr>" _ 0 demo_smp] by fastforce
  from s1(2) have "\<exists>s2. ticks demo_smp 0 100 (s1\<lparr>tm_kernel := demo_kernel\<rparr>) = Inr s2 \<and> tm_kernel s2 = demo_kernel" using c by blast
  then show ?thesis using s1(1) c by auto
qed

end
