(* ===== verification/Rng.thy ===== *)
theory Rng
  imports Prelude
begin

text \<open>
  The pseudo-random number generator of \<open>kernel/random.h\<close>: two multiply-with-carry words. Each word has two values
  from which it never moves, zero and the multiplier times 65536 less one; the constructor is meant to avoid them.
\<close>

section \<open>The code\<close>

record Random =
  rnd_w :: u32
  rnd_z :: u32

definition random_seed :: "u32 \<Rightarrow> Random" where
  "random_seed seed =
     (let w = seed;
          z = NOT seed;
          w' = (if w = 0 \<or> w = 0x464fffff then w + 1 else w);
          z' = (if z = 0 \<or> z = 0x9068ffff then z + 1 else z)
      in \<lparr>rnd_w = w', rnd_z = z'\<rparr>)"

definition random_next :: "Random \<Rightarrow> u32 \<times> Random" where
  "random_next r =
     (let z = 36969 * (rnd_z r AND 65535) + drop_bit 16 (rnd_z r);
          w = 18000 * (rnd_w r AND 65535) + drop_bit 16 (rnd_w r);
          res = push_bit 16 z + w
      in (res, \<lparr>rnd_w = w, rnd_z = z\<rparr>))"

text \<open>The state after \<open>n\<close> calls of \<open>next\<close>.\<close>

definition random_after :: "nat \<Rightarrow> u32 \<Rightarrow> Random" where
  "random_after n seed = ((snd \<circ> random_next) ^^ n) (random_seed seed)"

section \<open>One word\<close>

definition mwc :: "u32 \<Rightarrow> u32 \<Rightarrow> u32" where
  "mwc a x = a * (x AND 65535) + drop_bit 16 x"

lemma mwc_uint:
  assumes "uint a \<le> 65535"
  shows "uint (mwc a x) = uint a * (uint x mod 65536) + uint x div 65536"
proof -
  have "x AND mask 16 = take_bit 16 x" by (simp add: take_bit_eq_mask)
  then have lo: "uint (x AND 65535) = uint x mod 65536"
    by (simp add: mask_eq_exp_minus_1 take_bit_eq_mod uint_mod)
  have hi: "uint (drop_bit 16 x) = uint x div 65536" by (simp add: drop_bit_eq_div uint_div)
  have x: "0 \<le> uint x" "uint x < 65536 * 65536" using uint_bounded [of x] by simp_all
  have "uint a * (uint x mod 65536) \<le> 65535 * 65535"
    by (rule mult_mono) (use assms pos_mod_bound [of 65536 "uint x"] in simp_all)
  moreover have "uint x div 65536 < 65536" using x by simp
  ultimately have "uint a * (uint x mod 65536) + uint x div 65536 < 2 ^ 32" by simp
  moreover have "0 \<le> uint a * (uint x mod 65536)" "0 \<le> uint x div 65536" using x by (simp_all add: pos_imp_zdiv_nonneg_iff)
  ultimately have "(uint a * (uint x mod 65536) + uint x div 65536) mod 2 ^ 32 = uint a * (uint x mod 65536) + uint x div 65536"
    by (intro mod_pos_pos_trivial) simp_all
  then show ?thesis
    by (simp add: mwc_def uint_word_ariths lo hi mod_simps)
qed

lemma mwc_zero:
  assumes "0 < uint a" "uint a \<le> 65535"
  shows "mwc a x = 0 \<longleftrightarrow> x = 0"
proof -
  have nn: "0 \<le> uint a * (uint x mod 65536)" "0 \<le> uint x div 65536" by (simp_all add: pos_imp_zdiv_nonneg_iff)
  have "mwc a x = 0 \<longleftrightarrow> uint a * (uint x mod 65536) + uint x div 65536 = 0"
    by (simp add: word_uint_eq_iff mwc_uint [OF assms(2)])
  also have "\<dots> \<longleftrightarrow> uint x mod 65536 = 0 \<and> uint x div 65536 = 0"
    using nn assms(1) by (auto simp: add_nonneg_eq_0_iff)
  also have "\<dots> \<longleftrightarrow> uint x = 0" using div_mult_mod_eq [of "uint x" 65536] by auto
  finally show ?thesis by (simp add: word_uint_eq_iff)
qed

text \<open>The other fixed point of a word, and where it can be reached from.\<close>

lemma mwc_top:
  assumes a: "uint a = n" "0 < n" "n \<le> 65535"
  shows "uint (mwc a x) = n * 65536 - 1 \<longleftrightarrow>
    (\<exists>j. 1 \<le> j \<and> j * n - 1 < 65536 \<and> uint x = (j * n - 1) * 65536 + (65536 - j))"
proof -
  let ?lo = "uint x mod 65536" and ?hi = "uint x div 65536"
  have b: "0 \<le> ?lo" "?lo < 65536" "0 \<le> ?hi" "?hi < 65536" "uint x = ?hi * 65536 + ?lo"
    using uint_bounded [of x] div_mult_mod_eq [of "uint x" 65536] by (simp_all add: pos_imp_zdiv_nonneg_iff)
  have e: "uint (mwc a x) = n * ?lo + ?hi" using mwc_uint [of a x] a by simp
  show ?thesis
  proof
    assume "uint (mwc a x) = n * 65536 - 1"
    then have h: "?hi = (65536 - ?lo) * n - 1" unfolding e by (simp add: algebra_simps)
    show "\<exists>j. 1 \<le> j \<and> j * n - 1 < 65536 \<and> uint x = (j * n - 1) * 65536 + (65536 - j)"
      by (rule exI [of _ "65536 - ?lo"]) (use b h in simp)
  next
    assume "\<exists>j. 1 \<le> j \<and> j * n - 1 < 65536 \<and> uint x = (j * n - 1) * 65536 + (65536 - j)"
    then obtain j where j: "1 \<le> j" "j * n - 1 < 65536" "uint x = (j * n - 1) * 65536 + (65536 - j)" by blast
    have jn: "j \<le> j * n" using mult_left_mono [of 1 n j] a(2) j(1) by simp
    then have jr: "0 \<le> 65536 - j" "65536 - j < 65536" using j(1,2) by linarith+
    have "?lo = 65536 - j" unfolding j(3) mod_mult_self3 by (rule mod_pos_pos_trivial [OF jr])
    moreover have "?hi = j * n - 1 + (65536 - j) div 65536" unfolding j(3) by (rule div_mult_self3) simp
    ultimately have "?lo = 65536 - j" "?hi = j * n - 1" using div_pos_pos_trivial [OF jr] by simp_all
    then have "n * ?lo + ?hi = n * (65536 - j) + (j * n - 1)" by (simp only:)
    then show "uint (mwc a x) = n * 65536 - 1" unfolding e by (simp add: algebra_simps)
  qed
qed

text \<open>Only the fixed point itself for the multiplier 36969; two more values for 18000.\<close>

lemma z_top: "mwc 36969 x = 0x9068ffff \<longleftrightarrow> x = 0x9068ffff"
proof -
  have "mwc 36969 x = 0x9068ffff \<longleftrightarrow> uint (mwc 36969 x) = 36969 * 65536 - 1" by (simp add: word_uint_eq_iff)
  also have "\<dots> \<longleftrightarrow> (\<exists>j. 1 \<le> j \<and> j * 36969 - 1 < 65536 \<and> uint x = (j * 36969 - 1) * 65536 + (65536 - j))"
    by (rule mwc_top) simp_all
  also have "\<dots> \<longleftrightarrow> uint x = 0x9068ffff"
  proof -
    have "1 \<le> j \<and> j * 36969 - 1 < 65536 \<longleftrightarrow> j = 1" for j :: int by auto
    then show ?thesis by auto
  qed
  finally show ?thesis by (simp add: word_uint_eq_iff)
qed

lemma w_top: "mwc 18000 x = 0x464fffff \<longleftrightarrow> x \<in> {0x464fffff, 0x8c9ffffe, 0xd2effffd}"
proof -
  have "mwc 18000 x = 0x464fffff \<longleftrightarrow> uint (mwc 18000 x) = 18000 * 65536 - 1" by (simp add: word_uint_eq_iff)
  also have "\<dots> \<longleftrightarrow> (\<exists>j. 1 \<le> j \<and> j * 18000 - 1 < 65536 \<and> uint x = (j * 18000 - 1) * 65536 + (65536 - j))"
    by (rule mwc_top) simp_all
  also have "\<dots> \<longleftrightarrow> uint x \<in> {0x464fffff, 0x8c9ffffe, 0xd2effffd}"
  proof -
    have r: "1 \<le> j \<and> j * 18000 - 1 < 65536 \<longleftrightarrow> j = 1 \<or> j = 2 \<or> j = 3" for j :: int by auto
    have "(\<exists>j. (1 \<le> j \<and> j * 18000 - 1 < 65536) \<and> P j) \<longleftrightarrow> P 1 \<or> P 2 \<or> P 3" for P :: "int \<Rightarrow> bool"
      unfolding r by blast
    from this [of "\<lambda>j. uint x = (j * 18000 - 1) * 65536 + (65536 - j)"] show ?thesis by (simp only: conj_assoc) simp
  qed
  finally show ?thesis by (simp add: word_uint_eq_iff)
qed

lemma random_next_mwc: "snd (random_next r) = \<lparr>rnd_w = mwc 18000 (rnd_w r), rnd_z = mwc 36969 (rnd_z r)\<rparr>"
  by (simp add: random_next_def mwc_def Let_def)

lemma random_after_Suc: "random_after (Suc n) seed = snd (random_next (random_after n seed))"
  by (simp add: random_after_def)

section \<open>Properties\<close>

text \<open>
  C40. Whatever the seed, the second word of the generator never becomes one of the two values it cannot leave. The
  first word keeps clear of its own two values exactly for the seeds other than 0x8c9ffffe and 0xd2effffd: the
  constructor does not test for these, and from the first call on the word is stuck.
\<close>

theorem random_not_stuck:
  shows "rnd_z (random_after n seed) \<noteq> 0 \<and> rnd_z (random_after n seed) \<noteq> 0x9068ffff \<and> rnd_w (random_after n seed) \<noteq> 0 \<and>
    (rnd_w (random_after (Suc n) seed) = 0x464fffff \<longleftrightarrow> seed = 0x8c9ffffe \<or> seed = 0xd2effffd)"
proof -
  have z: "rnd_z (random_after n seed) \<noteq> 0 \<and> rnd_z (random_after n seed) \<noteq> 0x9068ffff" for n
  proof (induction n)
    case 0
    show ?case by (auto simp: random_after_def random_seed_def Let_def)
  next
    case (Suc n)
    then show ?case
      using mwc_zero [of 36969 "rnd_z (random_after n seed)"] z_top
      by (simp add: random_after_Suc random_next_mwc)
  qed
  have w0: "rnd_w (random_after n seed) \<noteq> 0" for n
  proof (induction n)
    case 0
    show ?case by (auto simp: random_after_def random_seed_def Let_def)
  next
    case (Suc n)
    then show ?case
      using mwc_zero [of 18000 "rnd_w (random_after n seed)"] by (simp add: random_after_Suc random_next_mwc)
  qed
  have start: "rnd_w (random_after 0 seed) \<noteq> 0x464fffff"
    "rnd_w (random_after 0 seed) = 0x8c9ffffe \<longleftrightarrow> seed = 0x8c9ffffe" "rnd_w (random_after 0 seed) = 0xd2effffd \<longleftrightarrow> seed = 0xd2effffd"
    by (auto simp: random_after_def random_seed_def Let_def)
  have small: "mwc 18000 x \<noteq> 0x8c9ffffe \<and> mwc 18000 x \<noteq> 0xd2effffd" for x
  proof -
    have "uint x mod 65536 < 65536" "uint x div 65536 < 65536" using uint_bounded [of x] by simp_all
    then have "uint (mwc 18000 x) < 0x8c9ffffe" using mwc_uint [of 18000 x] by simp
    then show ?thesis by auto
  qed
  have "rnd_w (random_after (Suc n) seed) = 0x464fffff \<longleftrightarrow> seed = 0x8c9ffffe \<or> seed = 0xd2effffd" for n
  proof (induction n)
    case 0
    show ?case using w_top [of "rnd_w (random_after 0 seed)"] start by (simp add: random_after_Suc random_next_mwc)
  next
    case (Suc n)
    then show ?case
      using w_top [of "rnd_w (random_after (Suc n) seed)"] small [of "rnd_w (random_after n seed)"]
      by (simp add: random_after_Suc random_next_mwc)
  qed
  then show ?thesis using z w0 by blast
qed

end
