(* ===== verification/Kernel_Init.thy ===== *)
theory Kernel_Init
  imports Heap_Alloc Frame_Room Processors
begin

text \<open>
  What the first core does in \<open>kernelInit\<close> (\<open>kernel/init.cc\<close>) before the other components start: the configuration, the
  kernel heap, the frames and the address space that all processes share; and the count by which the last core
  to arrive starts the first program.
\<close>

section \<open>The code\<close>





text \<open>
  The gates that \<open>PhysMem::init\<close>, \<open>SYS::init\<close>, \<open>SMP::init\<close> and \<open>Pit::calibrate\<close> write, in this order, for the handlers of page
  faults, system calls, spurious interrupts and the timer.
\<close>

definition sys_init :: "u32 \<Rightarrow> u32 \<Rightarrow> u32 list \<Rightarrow> u32 list res" where
  "sys_init cs handler idt = idt_trap cs 48 handler 3 idt"

definition kernel_gates :: "u32 \<Rightarrow> u32 \<Rightarrow> u32 \<Rightarrow> u32 \<Rightarrow> u32 \<Rightarrow> u32 list \<Rightarrow> u32 list res" where
  "kernel_gates cs pageFaultHandler sysHandler spuriousHandler apitHandler idt =
     rbind (idt_trap cs 14 pageFaultHandler 3 idt) (\<lambda>idt.
     rbind (sys_init cs sysHandler idt) (\<lambda>idt.
     rbind (idt_interrupt cs 0xff spuriousHandler idt)
       (idt_interrupt cs 40 apitHandler)))"

text \<open>\<open>howManyAreHere.add_fetch(1)\<close>, and whether this core starts \<open>kernelMain\<close>.\<close>

definition kernel_arrive :: "Config \<Rightarrow> u32 \<Rightarrow> u32 \<times> bool" where
  "kernel_arrive c here = (here + 1, here + 1 = totalProcs c)"

text \<open>
  After the start user mode may enter the kernel by its system call gate and, what it never needs, by the gate of page
  faults, and by no other that was closed to it before.
\<close>

lemma gate_length: "idt_interrupt cs i h idt = Inr t \<Longrightarrow> length t = length idt" "idt_trap cs i h dpl idt = Inr t \<Longrightarrow> length t = length idt"
  by (auto simp: idt_interrupt_def idt_trap_def idt_put_def Let_def split: if_splits)

lemma kernel_gates_set:
  assumes n: "512 \<le> length idt" and cs: "cs < 0x10000"
  shows "\<exists>t. kernel_gates cs pf sc sp tm idt = Inr t \<and>
    gate_of t 14 = \<lparr>gate_offset = pf, gate_selector = cs, gate_present = True, gate_dpl = 3, gate_type = 0xf\<rparr> \<and>
    gate_of t 48 = \<lparr>gate_offset = sc, gate_selector = cs, gate_present = True, gate_dpl = 3, gate_type = 0xf\<rparr> \<and>
    gate_of t 255 = \<lparr>gate_offset = sp, gate_selector = cs, gate_present = True, gate_dpl = 0, gate_type = 0xe\<rparr> \<and>
    gate_of t 40 = \<lparr>gate_offset = tm, gate_selector = cs, gate_present = True, gate_dpl = 0, gate_type = 0xe\<rparr> \<and>
    (\<forall>j. j \<notin> {14, 40, 48, 255} \<longrightarrow> gate_of t j = gate_of idt j)"
proof -
  have G: "\<exists>t. idt_trap cs i h 3 d = Inr t \<and> length t = length d \<and> (\<forall>j. j \<noteq> i \<longrightarrow> gate_of t j = gate_of d j) \<and>
      gate_of t i = \<lparr>gate_offset = h, gate_selector = cs, gate_present = True, gate_dpl = 3, gate_type = 0xf\<rparr>"
    "\<exists>t. idt_interrupt cs i h d = Inr t \<and> length t = length d \<and> (\<forall>j. j \<noteq> i \<longrightarrow> gate_of t j = gate_of d j) \<and>
      gate_of t i = \<lparr>gate_offset = h, gate_selector = cs, gate_present = True, gate_dpl = 0, gate_type = 0xe\<rparr>"
    if "i < 256" "512 \<le> length d" for i h d
    using gate_roundtrip [of i d cs 3 h] that cs gate_length by fastforce+
  obtain t1 where 1: "idt_trap cs 14 pf 3 idt = Inr t1" "length t1 = length idt" "\<forall>j. j \<noteq> 14 \<longrightarrow> gate_of t1 j = gate_of idt j"
    "gate_of t1 14 = \<lparr>gate_offset = pf, gate_selector = cs, gate_present = True, gate_dpl = 3, gate_type = 0xf\<rparr>"
    using G(1) [of 14 idt pf] n by auto
  obtain t2 where 2: "idt_trap cs 48 sc 3 t1 = Inr t2" "length t2 = length t1" "\<forall>j. j \<noteq> 48 \<longrightarrow> gate_of t2 j = gate_of t1 j"
    "gate_of t2 48 = \<lparr>gate_offset = sc, gate_selector = cs, gate_present = True, gate_dpl = 3, gate_type = 0xf\<rparr>"
    using G(1) [of 48 t1 sc] n 1(2) by auto
  obtain t3 where 3: "idt_interrupt cs 0xff sp t2 = Inr t3" "length t3 = length t2" "\<forall>j. j \<noteq> 255 \<longrightarrow> gate_of t3 j = gate_of t2 j"
    "gate_of t3 255 = \<lparr>gate_offset = sp, gate_selector = cs, gate_present = True, gate_dpl = 0, gate_type = 0xe\<rparr>"
    using G(2) [of 255 t2 sp] n 1(2) 2(2) by auto
  obtain t4 where 4: "idt_interrupt cs 40 tm t3 = Inr t4" "\<forall>j. j \<noteq> 40 \<longrightarrow> gate_of t4 j = gate_of t3 j"
    "gate_of t4 40 = \<lparr>gate_offset = tm, gate_selector = cs, gate_present = True, gate_dpl = 0, gate_type = 0xe\<rparr>"
    using G(2) [of 40 t3 tm] n 1(2) 2(2) 3(2) by auto
  have "kernel_gates cs pf sc sp tm idt = Inr t4" using 1(1) 2(1) 3(1) 4(1) by (simp add: kernel_gates_def sys_init_def)
  then show ?thesis using 1(3,4) 2(3,4) 3(3,4) 4(2,3) by auto
qed

text \<open>Of the cores that count up to \<open>totalProcs\<close> only the last one starts it.\<close>

lemma last_core_starts:
  "i < unat (totalProcs c) \<Longrightarrow> snd (kernel_arrive c (word_of_nat i)) \<longleftrightarrow> Suc i = unat (totalProcs c)"
proof -
  assume i: "i < unat (totalProcs c)"
  have "unat (totalProcs c) < 2 ^ LENGTH(32)" by (rule unsigned_less)
  then have "unat (word_of_nat (Suc i) :: u32) = Suc i" using i by (simp add: unat_of_nat del: of_nat_Suc)
  moreover have "snd (kernel_arrive c (word_of_nat i)) \<longleftrightarrow> word_of_nat (Suc i) = totalProcs c"
    by (simp add: kernel_arrive_def add.commute)
  ultimately show ?thesis by (simp only: word_unat_eq_iff)
qed

section \<open>The shared address space\<close>













section \<open>Properties\<close>













end
