(* ===== verification/Debug_Output.thy ===== *)
theory Debug_Output
  imports Formats Sys
begin

text \<open>
  Messages of the kernel and the end of the machine (\<open>kernel/debug.h\<close>, \<open>kernel/debug.cc\<close>), and \<open>kernelMain\<close>
  (\<open>kernel/kernel.cc\<close>). The other theories take a panic for a fault that ends everything; here is why: whatever the
  state of the console's lock, the message is printed and the machine stops.
\<close>

section \<open>The code\<close>

text \<open>The static variables: whether there is a sink and what it was given, and whether the lock of \<open>debug.cc\<close> is taken.\<close>

record console_state =
  dbg_sink :: bool
  dbg_out :: string
  dbg_lock :: bool
  dbg_all :: bool
  dbg_checks :: u32
  dbg_down :: bool

text \<open>An object of the class \<open>Debug\<close>.\<close>

record debug =
  dbg_what :: string
  dbg_flag :: bool

text \<open>A call goes on, waits for the lock that another call holds, or writes to port 0xf4 for ever.\<close>

datatype debug_end = Goes console_state | Waits_Lock | Halts console_state

definition then_do :: "debug_end res \<Rightarrow> (console_state \<Rightarrow> debug_end res) \<Rightarrow> debug_end res" where
  "then_do m f = rbind m (\<lambda>r. case r of Goes s \<Rightarrow> f s | q \<Rightarrow> Inr q)"

definition vprintf :: "'d fpu \<Rightarrow> string \<Rightarrow> 'd vararg list \<Rightarrow> console_state \<Rightarrow> debug_end res" where
  "vprintf F fmt args s =
     (if \<not> dbg_sink s then Inr (Goes s)
      else if dbg_lock s then Inr Waits_Lock
      else case vsnprintf F 1000 fmt args of
             None \<Rightarrow> Inr Waits_Lock
           | Some (Inl e) \<Rightarrow> Inl e
           | Some (Inr text) \<Rightarrow> Inr (Goes (s\<lparr>dbg_out := dbg_out s @ text\<rparr>)))"

definition NLC :: char where
  "NLC = CHR 0x0A"

definition debug_shutdown :: "'d fpu \<Rightarrow> u32 \<Rightarrow> console_state \<Rightarrow> debug_end res" where
  "debug_shutdown F me s =
     then_do (if dbg_checks s > 0 then vprintf F (''*** passed %d checkes'' @ [NLC]) [VInt (dbg_checks s)] s
              else Inr (Goes s)) (\<lambda>s.
     then_do (vprintf F (''core %d requested shutdown'' @ [NLC]) [VInt me] s) (\<lambda>s.
     Inr (Halts (s\<lparr>dbg_down := True\<rparr>))))"

definition vpanic :: "'d fpu \<Rightarrow> u32 \<Rightarrow> string \<Rightarrow> 'd vararg list \<Rightarrow> console_state \<Rightarrow> debug_end res" where
  "vpanic F me fmt args s =
     then_do (vprintf F fmt args (s\<lparr>dbg_lock := False\<rparr>)) (\<lambda>s.
     then_do (vprintf F (''| processor %d halting'' @ [NLC]) [VInt me] s) (\<lambda>s.
     Inr (Halts (s\<lparr>dbg_down := True\<rparr>))))"

definition vdebug :: "'d fpu \<Rightarrow> debug \<Rightarrow> string \<Rightarrow> 'd vararg list \<Rightarrow> console_state \<Rightarrow> debug_end res" where
  "vdebug F d fmt args s =
     (if dbg_all s \<or> dbg_flag d then
        then_do (vprintf F ''[%s] '' [VStr (dbg_what d)] s) (\<lambda>s.
        then_do (vprintf F fmt args s)
          (vprintf F [NLC] []))
      else Inr (Goes s))"

definition missing :: "'d fpu \<Rightarrow> u32 \<Rightarrow> string \<Rightarrow> u32 \<Rightarrow> console_state \<Rightarrow> debug_end res" where
  "missing F me file line s = vpanic F me (''*** Missing code at %s:%d'' @ [NLC]) [VStr file, VInt line] s"

definition check :: "'d fpu \<Rightarrow> u32 \<Rightarrow> bool \<Rightarrow> string \<Rightarrow> string \<Rightarrow> u32 \<Rightarrow> console_state \<Rightarrow> debug_end res" where
  "check F me invariant text file line s =
     (let s1 = s\<lparr>dbg_checks := dbg_checks s + 1\<rparr> in
      if \<not> invariant
      then vpanic F me (''*** Check [%s] failed at %s:%d'' @ [NLC]) [VStr text, VStr file, VInt line] s1
      else Inr (Goes s1))"

definition debug_assert :: "'d fpu \<Rightarrow> u32 \<Rightarrow> bool \<Rightarrow> string \<Rightarrow> string \<Rightarrow> u32 \<Rightarrow> console_state \<Rightarrow> debug_end res" where
  "debug_assert F me invariant text file line s =
     (if \<not> invariant
      then vpanic F me (''*** Assertion [%s] failed at %s:%d'' @ [NLC]) [VStr text, VStr file, VInt line] s
      else Inr (Goes s))"

text \<open>\<open>kernelMain\<close>: a program that cannot be started is a panic.\<close>

definition initName :: string where
  "initName = ''/sbin/init''"

definition kernelMain :: "kernel_env \<Rightarrow> sys \<Rightarrow> sys_outcome res" where
  "kernelMain env s =
     (let bytes = map (\<lambda>c. word_of_nat (of_char c)) in
      rbind (sys_exec env (bytes initName) [bytes ''init''] s) (\<lambda>r.
      case r of Return rc s' \<Rightarrow> Inl (Panic ''*** rc = %d'') | q \<Rightarrow> Inr q))"

section \<open>What they do\<close>

lemma then_do_simps [simp]:
  "then_do (Inl e) f = Inl e" "then_do (Inr (Goes s)) f = f s" "then_do (Inr Waits_Lock) f = Inr Waits_Lock"
  "then_do (Inr (Halts s)) f = Inr (Halts s)"
  by (simp_all add: then_do_def)

lemma vprintf_render:
  assumes "render fmt args = Some text" "length text \<le> 1000"
  shows "vprintf F fmt args s =
    (if \<not> dbg_sink s then Inr (Goes s) else if dbg_lock s then Inr Waits_Lock
     else Inr (Goes (s\<lparr>dbg_out := dbg_out s @ text\<rparr>)))"
  using vsnprintf_render [OF assms(1), of 1000 F] assms(2) by (simp add: vprintf_def)

lemma int_text_length: "length (int_text c w) \<le> 12"
proof -
  have "length (sign_string v flags) \<le> 1" for v flags by (simp add: sign_string_def split: option.split)
  then have "length (sign_string v flags @ numeral_string base flags u) \<le> 12" if "8 \<le> uint base" for v flags base u
    using numeral_length(2) [OF that, of flags u] add_mono [of _ 1 _ 11] by fastforce
  then show ?thesis by (simp add: int_text_def Let_def)
qed

lemma halting_render:
  "render (''| processor %d halting'' @ [NLC]) [VInt me] = Some (''| processor '' @ int_text CHR ''d'' me @ '' halting'' @ [NLC])"
  by (simp add: NUL_def NLC_def)

text \<open>A panic prints its message and halts, also when the lock is taken, by the core itself or by another.\<close>

lemma vpanic_halts:
  fixes F :: "'d fpu" and args :: "'d vararg list"
  assumes "render fmt args = Some text" "length text \<le> 1000"
  shows "vpanic F me fmt args s = Inr (Halts (s\<lparr>dbg_lock := False, dbg_down := True,
    dbg_out := (if dbg_sink s then dbg_out s @ text @ ''| processor '' @ int_text CHR ''d'' me @ '' halting'' @ [NLC] else dbg_out s)\<rparr>))"
proof -
  have "length (''| processor '' @ int_text CHR ''d'' me @ '' halting'' @ [NLC]) \<le> 1000"
    using int_text_length [of "CHR ''d''" me] by simp
  note H = vprintf_render [OF halting_render this, of F]
  show ?thesis by (simp add: vpanic_def vprintf_render [OF assms] H del: append_Cons append.simps)
qed

text \<open>
  What the models take an assertion for: nothing when it holds, and the end of the machine, with a message, when it fails.
\<close>

lemma assertion_ends:
  fixes F :: "'d fpu"
  assumes "length text + length file \<le> 900"
  shows "if b then debug_assert F me b text file line s = Inr (Goes s)
    else \<exists>s' tail. debug_assert F me b text file line s = Inr (Halts s') \<and> dbg_down s' \<and>
      dbg_out s' = (if dbg_sink s then dbg_out s @ ''*** Assertion ['' @ text @ ''] failed at '' @ file @ tail else dbg_out s)"
proof (cases b)
  case True
  then show ?thesis by (simp add: debug_assert_def)
next
  case False
  have r: "render (''*** Assertion [%s] failed at %s:%d'' @ [NLC]) [VStr text, VStr file, VInt line :: 'd vararg] =
      Some (''*** Assertion ['' @ text @ ''] failed at '' @ file @ '':'' @ int_text CHR ''d'' line @ [NLC])"
    by (simp add: NUL_def NLC_def)
  have "length (''*** Assertion ['' @ text @ ''] failed at '' @ file @ '':'' @ int_text CHR ''d'' line @ [NLC]) \<le> 1000"
    using assms int_text_length [of "CHR ''d''" line] by simp
  from vpanic_halts [OF r this] show ?thesis using False by (simp add: debug_assert_def)
qed

text \<open>\<open>kernelMain\<close> enters the first program or ends.\<close>

lemma kernelMain_never_returns: "kernelMain env s \<noteq> Inr (Return rc s')"
  by (auto simp: kernelMain_def Let_def rbind_Inr_conv split: sys_outcome.splits)

end
