(* ===== verification/Spec2Isabelle.thy ===== *)
theory Spec2Isabelle
  imports Heap_Alloc VMM Printf_Facts Threads Ring_Buffers Sys_Claims Locks Shared_Ptr Gates Conditions
    Semaphores User_Heap Lifetime Login Shell Command_Claims User_Printf Timer Rng Kernel_Init Debug_Output
begin

text \<open>
  A verification development for os-shell: a 32-bit x86 kernel (\<open>src/kernel\<close>) that boots from an ext2
  disk, runs user processes on several cores, and starts a login program and a shell
  (\<open>src/nikshita.dir/sbin\<close>).

  \<^bold>\<open>The program.\<close> \<open>kernelInit\<close> finds the machine's memory and processors (\<open>config.cc\<close>), makes the kernel
  heap (\<open>heap.cc\<close>), hands the rest of memory to the frame allocator (\<open>physmem.cc\<close>), builds the shared half of
  every address space (\<open>vmm.cc\<close>) and starts the thread module (\<open>threads.cc\<close>). Processes (\<open>process.cc\<close>) own an
  address space and tables of files, semaphores and children; they enter the kernel through
  \<open>sysHandler\<close> (\<open>sys.cc\<close>), which reaches the file system (\<open>ext2.cc\<close>) over a block device (\<open>block_io.cc\<close>) that is
  the IDE drive (\<open>ide.cc\<close>), the pipes (\<open>Pipe.h\<close>) and the UART. \<open>SYS::exec\<close> loads an ELF image (\<open>elf.cc\<close>) and builds
  the stack of the new program.

  \<^bold>\<open>The theories.\<close> Each opens with the code of its component, in the order of the source, then its
  invariant or specification, then its properties. C\<open>n\<close> marks a property.

  \<^item> \<open>Prelude\<close>: the machine integers of \<open>stdint.h\<close>, outcomes (\<open>res\<close> is a fault or a value; a fault is a
    panic or failed assertion with its message, a use of memory that C++ leaves undefined, or exhausted
    fuel), lemmas on words and on \<open>rbind\<close>.
  \<^item> \<open>Block_Lists\<close>, \<open>Heap\<close>, \<open>Heap_Alloc\<close> (\<open>heap.cc\<close>): the boundary-tagged heap as a word-indexed array. \<open>heap_ok h bs fl\<close>
    says that the blocks \<open>bs\<close> tile the array, that \<open>fl\<close> is the doubly linked list of the free ones and that no
    two free blocks touch. Every operation is shown to open a hole in the tiling and close it again.
    \<open>Allocators\<close> is the contract (\<open>locale allocator\<close>) of an allocator with its clients, and the heap an
    interpretation of it.
  \<^item> \<open>PhysMem\<close> (\<open>physmem.h\<close>, \<open>physmem.cc\<close>): physical memory as words, the free list threaded through the frames; a
    second interpretation of \<open>allocator\<close>.
  \<^item> \<open>Kconfig\<close> (\<open>config.h\<close>, \<open>config.cc\<close>): memory size, the search for the ACPI tables, the processor table.
  \<^item> \<open>VMM\<close> (\<open>vmm.cc\<close>): two-level page tables in physical frames; \<open>walk\<close> is the translation the processor
    does, and \<open>map\<close> and the page fault handler are specified by it.
  \<^item> \<open>Snprintf\<close>, \<open>Printf_Facts\<close> (\<open>snprintf.cc\<close>): the formatter as a state
    machine over the format, with its termination, its text and integer output. \<open>Formats\<close> reads a format of plain
    conversions the way its documentation does (\<open>render\<close>), and the formatter gives the same.
  \<^item> \<open>Queue\<close>, \<open>Threads\<close> (\<open>queue.h\<close>, \<open>threads.h\<close>, \<open>threads.cc\<close>, \<open>semaphore.h\<close>): the intrusive queue as an implementation of
    a list (\<open>locale fifo\<close>), and the threads: every thread is in exactly one place. \<open>Semaphores\<close>: the history of a semaphore,
    whose waiters are woken in the order in which they came.
  \<^item> \<open>Ring_Buffers\<close> (\<open>Pipe.h\<close>, \<open>PipeFile.h\<close>, \<open>bb.h\<close>): the pipe and the bounded buffer, refinements of a byte stream
    and of a history (\<open>locale bounded_fifo\<close>).
  \<^item> \<open>Block_IO\<close>, \<open>Ide\<close> (\<open>block_io.h\<close>, \<open>block_io.cc\<close>, \<open>ide.h\<close>, \<open>ide.cc\<close>): reads over any \<open>read_block\<close> (\<open>locale block_device\<close>),
    of which so many bytes exist; the driver as a sequence of port accesses against a drive that is a parameter.
    \<open>ata_drive\<close> is what the documentation of the PIO protocol says of a drive: what its status, once it is not busy,
    tells before and after a command, and the words it hands out for a sector below its capacity; \<open>drive_ready\<close> that it
    has no error before the command. What the driver does with errors, before the command and after it, is part of
    \<open>ide_block_read\<close>.
  \<^item> \<open>Ext2\<close>, \<open>File_System\<close> (\<open>ext2.h\<close>, \<open>ext2.cc\<close>, \<open>libk.cc\<close>): the on-disk structures, i-nodes, directories and path
    lookup; an i-node and a drive are the interpretations of \<open>block_device\<close>.
  \<^item> \<open>Elf\<close> (\<open>elf.h\<close>, \<open>elf.cc\<close>), \<open>Process\<close> (\<open>process.h\<close>, \<open>process.cc\<close>), \<open>Files\<close> (\<open>file.h\<close>, \<open>file_ext.h\<close>, \<open>u8250.h\<close>): the loader,
    whose stores map pages, end the process at an address below 0x80000000 that is not mapped, and are a fault of the kernel
    where they would hit its own memory; the descriptor tables (\<open>locale id_table\<close>) and the three kinds of open file.
  \<^item> \<open>Sys\<close>, \<open>Sys_Facts\<close>, \<open>Sys_Claims\<close> (\<open>sys.cc\<close>): one definition per case of the handler, and \<open>exec\<close>; the properties
    that span the components below. \<open>Fork\<close> (\<open>Process::fork\<close>): the copy of an address space, in the frames of \<open>PhysMem\<close>
    and the tables of \<open>VMM\<close>.
  \<^item> \<open>Teardown\<close>, \<open>Clear_Space\<close>, \<open>Accounts\<close>, \<open>Lifetime\<close> (the rest of \<open>vmm.cc\<close>): \<open>delete_pd\<close> and \<open>delete_private\<close> on the address
    spaces that \<open>fork\<close> makes. \<open>accounted\<close> says which frames a process owns and which are lost; faults, stores and \<open>exec\<close>
    keep it, a fault loses a frame exactly when it is stray, and the destructor gives back what the process owns.
    \<open>Frame_Room\<close> counts the frames that are left.
  \<^item> \<open>Kernel_Init\<close> (\<open>init.cc\<close>): the memory part of \<open>kernelInit\<close>, from the configuration over the heap and the UART
    object in it to the shared address space.
  \<^item> \<open>Debug_Output\<close> (\<open>debug.h\<close>, \<open>debug.cc\<close>, \<open>kernel.cc\<close>): messages, panic and assertions as they are, which is why the other
    theories may take them for the end of the machine; and \<open>kernelMain\<close>.
  \<^item> \<open>Processors\<close> (\<open>idt.cc\<close>, \<open>smp.h\<close>, \<open>smp.cc\<close>) and \<open>Timer\<close> (\<open>pit.h\<close>, \<open>pit.cc\<close>): gates and APIC registers as a list of writes to
    devices; the calibration loop against a port whose levels are a parameter; the timer interrupt on the threads of
    \<open>Threads\<close>, with the flag \<open>no_preempt\<close>. \<open>Rng\<close> (\<open>random.h\<close>): the random number generator.
  \<^item> \<open>Locks\<close> (\<open>atomic.h\<close>): the three spinning locks, one machine operation a step, with the interrupt flag of every
    thread; \<open>locale exchange_lock\<close> is what they share. \<open>Gates\<close> (\<open>barrier.h\<close>, \<open>future.h\<close>): the barrier and the future, both
    a door that opens once (\<open>locale gate\<close>). \<open>Conditions\<close> (\<open>condition.h\<close>, \<open>barrier.h\<close>): the condition variable with its epoch,
    and the reusable barrier on it, with the lock word, the interrupt flag of every thread and each assertion of the
    source; a step is a critical section. \<open>Shared_Ptr\<close> (\<open>shared.h\<close>): reference counting, every
    constructor and assignment, against a heap of counted objects.
  \<^item> \<open>User_Heap\<close> (\<open>sbin/heap.c\<close>): the heap of the user programs. It tiles its array like the kernel's and is the
    second interpretation of \<open>locale tiled_heap\<close>, which gives both the contract of an allocator.
  \<^item> \<open>User_Lib\<close> (\<open>sbin/libc.c\<close>, \<open>sbin/printf.c\<close>), \<open>User_Strings\<close>, \<open>User_Input\<close> (\<open>sbin/input_functions.c\<close>): a program runs on the
    state of \<open>Sys\<close> and its answer is a \<open>run\<close>, which is \<open>None\<close> when a call does not come back; each character is a
    \<open>write\<close> of the kernel's model. \<open>console_at\<close> and \<open>alike\<close> say what the library keeps. The line input is specified by an
    editor of lines (\<open>edit\<close>) and a terminal (\<open>term_put\<close>). \<open>User_Printf\<close> (\<open>sbin/printf.c\<close>): the formatter of the programs, which
    makes a system call for each character; \<open>follows\<close> relates its steps to the kernel's.
  \<^item> \<open>User_Commands\<close>, \<open>Command_Claims\<close> (\<open>cat.c\<close>, \<open>grep.c\<close>, \<open>ls.c\<close> and the smaller programs), \<open>Login\<close> (\<open>login.c\<close>), \<open>Shell\<close>
    (\<open>our_shell.c\<close>): the programs, and what they print or execute for given files, keys and lines, through the
    library, the system calls and the file system.

  \<^bold>\<open>Conventions.\<close> A machine integer is a word of its width, and \<open>int\<close> indices of the heap are
  mathematical integers where the invariant keeps them in range. A record models an object;
  a method takes the object and returns it updated. A loop that may not end is a \<open>partial_function\<close>
  into \<open>option\<close> or has fuel, and the properties state termination: \<open>findRSD\<close>, \<open>malloc_scan\<close> and \<open>delete_zombies\<close>
  are shown to return. The IDE wait loops have the number of polls as fuel; \<open>ide_block_read\<close> holds for
  every fuel above the number of polls the drive stays busy, and says in which case no fuel is enough. The directory scan has one unit of fuel
  per byte of the directory, which is enough because every record of a sound directory has at
  least 8 bytes; without a sound directory it is shown not to end. The symbolic link loop of \<open>open\<close> has
  \<open>env_fuel\<close>.

  Atomic counters are words: the properties of the synchronisation objects hold for runs of fewer steps than a counter
  has values.

  User programs see their arrays as lists and their locals that the kernel writes at given addresses; a loop over
  what the user types is a \<open>partial_function\<close>, and the properties say when it returns and when it does not.

  \<^bold>\<open>Where C is narrower.\<close> The widths and counters of the formatters (\<open>min\<close>, \<open>max\<close>, the lengths they are compared with) are
  \<open>int\<close>: in C they are signed, so an overflow, which takes a width of more than nine digits, has no meaning there to
  model.

  \<^bold>\<open>Not modelled.\<close> Assembly (boot sector, interrupt stubs, the registers a context switch saves), the registers of a core
  other than its interrupt flag, \<open>cr3\<close> and the TLB, the task state segment and the stack of a core. Of the user programs: \<open>init.c\<close>, \<open>pipe.c\<close> and the
  \<open>fork\<close>, \<open>exec\<close> and \<open>wait\<close> calls around the login dialogue and the children of the shell, since a run of one program ends
  where it waits for another. Outside \<open>Locks\<close>, \<open>Gates\<close> and \<open>Conditions\<close>, the locks around the modelled operations are
  taken to make each operation one step.
\<close>

end
